(* ===== verification/Prelude.thy ===== *)
theory Prelude
  imports Main "HOL-Library.Word"
begin

text \<open>
  What every component of the development shares.

  \<^item> The machine types: \<open>u8\<close>, \<open>u16\<close>, \<open>u32\<close>, \<open>u64\<close> are words of their width, a
    pointer is a 64-bit word and \<open>NULL\<close> is the pointer 0.
  \<^item> Memory: the kernel runs in one flat address space in which every address can be read
    and written, so byte memory is a total function from addresses to bytes, and pointer
    arithmetic wraps as it does on the machine.  Code that only touches aligned 64-bit words
    (page tables, the page manager's bitmap) is modelled over \<open>wmem\<close>, the same memory seen
    as words keyed by their address.
  \<^item> Loops: \<open>for_upto\<close> is the C loop \<open>for (size_t i = lo; i < hi; i++)\<close>, \<open>for_downto\<close> the
    C loop \<open>for (size_t i = hi; i != 0; i--)\<close>; both carry their bodies' state.  A loop that
    may run forever is a \<^theory_text>\<open>partial_function (option)\<close> in its own theory, and \<open>None\<close>
    is "does not return".
  \<^item> Panics: \<open>assert\<close> and \<open>panic\<close> stop the kernel; a function that may panic returns a
    \<open>'a result\<close>, whose left values are panics.
\<close>

subsection \<open>Machine types\<close>

type_synonym u8 = "8 word"
type_synonym u16 = "16 word"
type_synonym u32 = "32 word"
type_synonym u64 = "64 word"
type_synonym ptr = "64 word"
type_synonym mem = "ptr \<Rightarrow> u8"
type_synonym wmem = "ptr \<Rightarrow> u64"

abbreviation (input) NULL :: ptr where
  "NULL \<equiv> 0"

text \<open>Characters of the source as bytes, and C strings as byte lists.\<close>

definition byte :: "char \<Rightarrow> u8" where
  "byte c = of_char c"

definition bytes_of :: "string \<Rightarrow> u8 list" where
  "bytes_of s = map byte s"

subsection \<open>Panics and errors\<close>

text \<open>
  \<open>Panic msg\<close>: the code called \<open>panic\<close> (directly or by \<open>assert\<close>) and stopped the machine.
  \<open>Undefined\<close>: the code read or wrote where C gives it no object, or ran into an
  arithmetic operation that C leaves undefined.
\<close>

datatype panic = Panic string | Undefined

type_synonym 'a result = "panic + 'a"

definition kassert :: "bool \<Rightarrow> string \<Rightarrow> 'a result \<Rightarrow> 'a result" where
  "kassert c msg k = (if c then k else Inl (Panic msg))"

lemma kassert_True [simp]: "kassert True msg k = k"
  and kassert_False [simp]: "kassert False msg k = Inl (Panic msg)"
  by (simp_all add: kassert_def)

definition bind_result :: "'a result \<Rightarrow> ('a \<Rightarrow> 'b result) \<Rightarrow> 'b result" where
  "bind_result r f = (case r of Inl e \<Rightarrow> Inl e | Inr x \<Rightarrow> f x)"

lemma bind_result_simps [simp]:
  "bind_result (Inl e) f = Inl e"
  "bind_result (Inr x) f = f x"
  by (simp_all add: bind_result_def)

text \<open>Running something that may not return: not returning is \<open>Undefined\<close>.\<close>

definition run :: "'a option \<Rightarrow> 'a result" where
  "run r = (case r of None \<Rightarrow> Inl Undefined | Some x \<Rightarrow> Inr x)"

subsection \<open>Words as numbers\<close>

lemma unat_add_one:
  assumes "(i :: 'a::len word) < hi"
  shows "unat (i + 1) = Suc (unat i)"
proof -
  have "i + 1 \<noteq> 0"
    using assms by (metis add_diff_cancel_right' diff_0 word_order.extremum_strict)
  then show ?thesis by (simp add: unatSuc add.commute)
qed

lemma unat_minus_one_lt: "(i :: 'a::len word) \<noteq> 0 \<Longrightarrow> unat (i - 1) < unat i"
  by (metis diff_less unat_minus_one unat_gt_0 word_gt_0 zero_less_one)

lemma unat64 [simp]: "unat (x :: u64) < 2 ^ 64" "unat (x :: u64) < 18446744073709551616"
  using unsigned_less [of x, where 'a = nat] by simp_all

lemma of_nat_eq_iff64: "m < 2 ^ 64 \<Longrightarrow> n < 2 ^ 64 \<Longrightarrow> (of_nat m :: u64) = of_nat n \<longleftrightarrow> m = n"
proof
  assume "m < 2 ^ 64" and "n < 2 ^ 64" and "(of_nat m :: u64) = of_nat n"
  then have "unat (of_nat m :: u64) = unat (of_nat n :: u64)" by simp
  with \<open>m < 2 ^ 64\<close> \<open>n < 2 ^ 64\<close> show "m = n" by (simp add: unat_of_nat)
qed simp

lemma sint_eq_iff: "sint (x :: 'a::len word) = sint y \<longleftrightarrow> x = y"
  by (metis signed_word_eqI)

lemma uint_eq_iff: "uint (x :: 'a::len word) = uint y \<longleftrightarrow> x = y"
  by (metis unsigned_word_eqI)

lemma length_takeWhile_neq: "x \<in> set ds \<Longrightarrow> length (takeWhile (\<lambda>y. y \<noteq> x) ds) < length ds"
  by (induction ds) auto

lemma uint_pos_iff: "0 < uint (x :: 'a::len word) \<longleftrightarrow> x \<noteq> 0"
  using uint_0_iff [of x] order_less_le [of 0 "uint x"] by auto

text \<open>Clearing the low bits, as alignment masks do.\<close>

unbundle bit_operations_syntax

lemma and_not_mask_word: "(x :: 'a::len word) AND NOT (mask n) = push_bit n (drop_bit n x)"
  by (rule bit_word_eqI) (auto simp: bit_simps)

lemma unat_and_not_mask: "unat ((x :: 'a::len word) AND NOT (mask n)) = 2 ^ n * (unat x div 2 ^ n)"
proof -
  have "2 ^ n * (unat x div 2 ^ n) < 2 ^ LENGTH('a)"
    using unsigned_less [of x, where 'a = nat] by (meson le_less_trans times_div_less_eq_dividend)
  then show ?thesis
    unfolding and_not_mask_word unsigned_push_bit_eq unat_drop_bit_eq
    by (simp add: push_bit_eq_mult drop_bit_eq_div take_bit_nat_eq_self mult.commute)
qed

subsection \<open>Counted loops\<close>

function for_upto :: "u64 \<Rightarrow> u64 \<Rightarrow> (u64 \<Rightarrow> 's \<Rightarrow> 's) \<Rightarrow> 's \<Rightarrow> 's" where
  "for_upto i hi f s = (if i < hi then for_upto (i + 1) hi f (f i s) else s)"
  by pat_completeness auto
termination
  by (relation "measure (\<lambda>(i, hi, f, s). unat hi - unat i)")
     (auto simp: unat_add_one word_less_nat_alt)

declare for_upto.simps [simp del]

function for_downto :: "u64 \<Rightarrow> (u64 \<Rightarrow> 's \<Rightarrow> 's) \<Rightarrow> 's \<Rightarrow> 's" where
  "for_downto i f s = (if i \<noteq> 0 then for_downto (i - 1) f (f i s) else s)"
  by pat_completeness auto
termination
  by (relation "measure (\<lambda>(i, f, s). unat i)") (auto simp: unat_minus_one_lt)

declare for_downto.simps [simp del]

lemma for_upto_fold:
  "for_upto i hi f s = fold (\<lambda>k. f (of_nat k)) [unat i..<unat hi] s"
proof (induction i hi f s rule: for_upto.induct)
  case (1 i hi f s)
  show ?case
  proof (cases "i < hi")
    case True
    then have "[unat i..<unat hi] = unat i # [unat (i + 1)..<unat hi]"
      by (simp add: unat_add_one upt_conv_Cons word_less_nat_alt)
    with True "1" show ?thesis by (simp add: for_upto.simps [of i hi])
  next
    case False
    then show ?thesis by (simp add: for_upto.simps [of i hi] word_less_nat_alt)
  qed
qed

lemma for_downto_fold:
  "for_downto i f s = fold (\<lambda>k. f (of_nat (Suc k))) (rev [0..<unat i]) s"
proof (induction i f s rule: for_downto.induct)
  case (1 i f s)
  show ?case
  proof (cases "i = 0")
    case True
    then show ?thesis by (simp add: for_downto.simps [of 0])
  next
    case False
    then have u: "unat i = Suc (unat (i - 1))"
      by (metis Suc_pred' unat_gt_0 unat_minus_one)
    then have "of_nat (Suc (unat (i - 1))) = i"
      by (simp add: u [symmetric] del: of_nat_Suc)
    with False "1" u show ?thesis by (simp add: for_downto.simps [of i])
  qed
qed

text \<open>Invariant rule for the upward loop: one goal for the body, none about words.\<close>

lemma fold_upt_invariant:
  assumes "P m s" and "m \<le> n"
    and "\<And>k t. m \<le> k \<Longrightarrow> k < n \<Longrightarrow> P k t \<Longrightarrow> P (Suc k) (f k t)"
  shows "P n (fold f [m..<n] s)"
  using assms(2,1,3)
proof (induction n rule: dec_induct)
  case base
  then show ?case by simp
next
  case (step n)
  then show ?case by simp
qed

lemma for_upto_invariant:
  assumes "P 0 s"
    and "\<And>k t. k < unat hi \<Longrightarrow> P k t \<Longrightarrow> P (Suc k) (f (of_nat k) t)"
  shows "P (unat hi) (for_upto 0 hi f s)"
  unfolding for_upto_fold
  by (rule fold_upt_invariant) (use assms in auto)

subsection \<open>Byte memory\<close>

text \<open>
  \<open>bytes m p n\<close> reads \<open>n\<close> bytes from \<open>p\<close>; \<open>region p n\<close> is the set of the addresses it reads;
  \<open>fits p n\<close> says that the buffer does not run past the end of the address space.
\<close>

definition bytes :: "mem \<Rightarrow> ptr \<Rightarrow> nat \<Rightarrow> u8 list" where
  "bytes m p n = map (\<lambda>i. m (p + of_nat i)) [0..<n]"

definition region :: "ptr \<Rightarrow> nat \<Rightarrow> ptr set" where
  "region p n = (\<lambda>i. p + of_nat i) ` {..<n}"

definition fits :: "ptr \<Rightarrow> nat \<Rightarrow> bool" where
  "fits p n \<longleftrightarrow> unat p + n \<le> 2 ^ 64"

lemma length_bytes [simp]: "length (bytes m p n) = n"
  by (simp add: bytes_def)

lemma nth_bytes [simp]: "i < n \<Longrightarrow> bytes m p n ! i = m (p + of_nat i)"
  by (simp add: bytes_def)

lemma bytes_0 [simp]: "bytes m p 0 = []"
  by (simp add: bytes_def)

lemma bytes_Suc: "bytes m p (Suc n) = m p # bytes m (p + 1) n"
  by (simp add: bytes_def upt_conv_Cons map_Suc_upt [symmetric] add.assoc del: upt_Suc)

lemma bytes_snoc: "bytes m p (Suc n) = bytes m p n @ [m (p + of_nat n)]"
  by (simp add: bytes_def)

lemma bytes_add: "bytes m p (a + b) = bytes m p a @ bytes m (p + of_nat a) b"
  by (rule nth_equalityI) (auto simp: nth_append add.assoc of_nat_diff)

lemma region_0 [simp]: "region p 0 = {}"
  by (simp add: region_def)

lemma region_mono: "a \<le> b \<Longrightarrow> region p a \<subseteq> region p b"
  by (auto simp: region_def)

lemma regionI [intro]: "i < n \<Longrightarrow> p + of_nat i \<in> region p n"
  by (auto simp: region_def)

lemma region_iff: "n \<le> 2 ^ 64 \<Longrightarrow> a \<in> region p n \<longleftrightarrow> unat (a - p) < n"
proof
  assume "n \<le> 2 ^ 64" and "a \<in> region p n"
  then show "unat (a - p) < n"
    by (auto simp: region_def unat_of_nat)
next
  assume "unat (a - p) < n"
  then show "a \<in> region p n"
    unfolding region_def by (intro image_eqI [of _ _ "unat (a - p)"]) auto
qed

lemma region_Suc: "region p (Suc k) = insert (p + of_nat k) (region p k)"
  by (simp add: region_def lessThan_Suc)

lemma ptr_add_eq_iff: "i < 2 ^ 64 \<Longrightarrow> j < 2 ^ 64 \<Longrightarrow> (p :: ptr) + of_nat i = p + of_nat j \<longleftrightarrow> i = j"
  by (simp add: of_nat_eq_iff64 del: of_nat_Suc)

lemma ptr_add_int_eq_iff:
  assumes "0 \<le> x" "x < 2 ^ 64" "0 \<le> y" "y < 2 ^ 64"
  shows "(s :: ptr) + of_int x = s + of_int y \<longleftrightarrow> x = y"
  using ptr_add_eq_iff [of "nat x" "nat y" s] assms by (simp add: eq_nat_nat_iff)

lemma region_front: "region p (Suc n) = insert p (region (p + 1) n)"
  by (simp add: region_def lessThan_Suc_eq_insert_0 image_image add.assoc)

lemma region_add: "region p (a + b) = region p a \<union> region (p + of_nat a) b"
  by (induction b) (simp_all add: region_Suc add.assoc)

lemma region_add_disjoint:
  assumes "a + b \<le> 2 ^ 64"
  shows "region p a \<inter> region (p + of_nat a) b = {}"
proof -
  have "p + of_nat i \<noteq> p + of_nat a + of_nat j" if "i < a" and "j < b" for i j
    using that assms ptr_add_eq_iff [of i "a + j" p] by (simp add: add.assoc)
  then show ?thesis by (auto simp: region_def)
qed

lemma not_in_region: "n < 2 ^ 64 \<Longrightarrow> p + of_nat n \<notin> region p n"
  using ptr_add_eq_iff [of n _ p] by (auto simp: region_def)

lemma bytes_cong:
  "(\<And>a. a \<in> region p n \<Longrightarrow> m a = m' a) \<Longrightarrow> bytes m p n = bytes m' p n"
  by (simp add: bytes_def region_def)

lemma bytes_upd [simp]: "a \<notin> region p n \<Longrightarrow> bytes (m(a := v)) p n = bytes m p n"
  by (rule bytes_cong) auto

lemma unat_ptr_add:
  assumes "fits p n" and "i < n"
  shows "unat (p + of_nat i) = unat p + i"
proof -
  have "i < 2 ^ 64" and "unat p + i < 2 ^ 64"
    using assms by (auto simp: fits_def)
  then show ?thesis by (simp add: unat_word_ariths unat_of_nat)
qed

lemma fits_disjoint:
  assumes "fits p k" and "fits q l" and "unat p + k \<le> unat q \<or> unat q + l \<le> unat p"
  shows "region p k \<inter> region q l = {}"
proof -
  have "p + of_nat i \<noteq> q + of_nat j" if "i < k" and "j < l" for i j
  proof
    assume "p + of_nat i = q + of_nat j"
    then have "unat p + i = unat q + j"
      using unat_ptr_add [OF assms(1) that(1)] unat_ptr_add [OF assms(2) that(2)] by simp
    then show False using assms(3) that by linarith
  qed
  then show ?thesis by (auto simp: region_def)
qed

subsection \<open>C strings\<close>

text \<open>\<open>cstr m p xs\<close>: the bytes from \<open>p\<close> up to the first NUL are \<open>xs\<close>.\<close>

fun cstr :: "mem \<Rightarrow> ptr \<Rightarrow> u8 list \<Rightarrow> bool" where
  "cstr m p [] \<longleftrightarrow> m p = 0"
| "cstr m p (x # xs) \<longleftrightarrow> m p = x \<and> x \<noteq> 0 \<and> cstr m (p + 1) xs"

lemma cstr_unique: "cstr m p xs \<Longrightarrow> cstr m p ys \<Longrightarrow> xs = ys"
proof (induction xs arbitrary: p ys)
  case Nil
  then show ?case by (cases ys) auto
next
  case (Cons x xs)
  then show ?case by (cases ys) auto
qed

lemma cstr_append:
  "cstr m p (xs @ ys) \<longleftrightarrow> bytes m p (length xs) = xs \<and> 0 \<notin> set xs
     \<and> cstr m (p + of_nat (length xs)) ys"
proof (induction xs arbitrary: p)
  case Nil
  then show ?case by simp
next
  case (Cons x xs)
  then show ?case by (auto simp: bytes_Suc add.assoc)
qed

lemma cstr_iff:
  "cstr m p xs \<longleftrightarrow> bytes m p (length xs) = xs \<and> 0 \<notin> set xs \<and> m (p + of_nat (length xs)) = 0"
  using cstr_append [of m p xs "[]"] by simp

lemma cstr_no_nul: "cstr m p xs \<Longrightarrow> x \<in> set xs \<Longrightarrow> x \<noteq> 0"
  by (auto simp: cstr_iff)

lemma cstr_length: "cstr m p xs \<Longrightarrow> length xs < 2 ^ 64"
proof (rule ccontr)
  assume c: "cstr m p xs" and "\<not> length xs < 2 ^ 64"
  then have n: "length (take (2 ^ 64) xs) = 2 ^ 64" by simp
  from c have "cstr m p (take (2 ^ 64) xs @ drop (2 ^ 64) xs)" by simp
  then have "cstr m (p + of_nat (2 ^ 64)) (drop (2 ^ 64) xs)"
    by (subst (asm) cstr_append) (simp only: n)
  moreover have "p + of_nat (2 ^ 64) = p" by simp
  ultimately have "drop (2 ^ 64) xs = xs"
    using c cstr_unique by metis
  then have "length (drop (2 ^ 64) xs) = length xs" by metis
  with n show False by simp
qed

lemma cstr_cong:
  "cstr m p xs \<Longrightarrow> (\<And>a. a \<in> region p (Suc (length xs)) \<Longrightarrow> m' a = m a) \<Longrightarrow> cstr m' p xs"
  unfolding cstr_iff
  by (metis bytes_cong lessI regionI region_mono less_imp_le_nat subsetD)

lemma cstr_suffix: "cstr m p xs \<Longrightarrow> k \<le> length xs \<Longrightarrow> cstr m (p + of_nat k) (drop k xs)"
  using cstr_append [of m p "take k xs" "drop k xs"] by (simp add: min.absorb2)

text \<open>Writing a byte list into memory, used to build concrete memories.\<close>

fun poke :: "mem \<Rightarrow> ptr \<Rightarrow> u8 list \<Rightarrow> mem" where
  "poke m p [] = m"
| "poke m p (x # xs) = (poke m (p + 1) xs)(p := x)"

lemma poke_bytes: "length xs \<le> 2 ^ 64 \<Longrightarrow> bytes (poke m p xs) p (length xs) = xs"
proof (induction xs arbitrary: p)
  case Nil
  then show ?case by simp
next
  case (Cons x xs)
  have "p \<notin> region (p + 1) (length xs)"
    using region_add_disjoint [of 1 "length xs" p] Cons.prems by (simp add: region_front)
  then have "bytes ((poke m (p + 1) xs)(p := x)) (p + 1) (length xs) = xs"
    using Cons by simp
  then show ?case by (simp only: poke.simps list.size One_nat_def add_Suc_right add_0_right bytes_Suc fun_upd_same)
qed

lemma poke_outside: "a \<notin> region p (length xs) \<Longrightarrow> poke m p xs a = m a"
  by (induction xs arbitrary: p) (simp_all add: region_front)

end
