(* ===== verification/CMem.thy ===== *)
theory CMem
  imports Prelude
begin

text \<open>
  The \<open>mem*\<close> functions of \<open>libc/string\<close>: \<open>memcpy.c\<close>, \<open>memmove.c\<close>, \<open>memset.c\<close>,
  \<open>memcmp.c\<close>, \<open>memchr.c\<close>.  Each takes the byte memory and returns its result together with
  the memory it leaves; the functions that only read return their result.  A \<open>size_t\<close> is a
  \<open>u64\<close>, a C \<open>int\<close> whose value cannot overflow here is an \<open>int\<close>.
\<close>

subsection \<open>Copying and filling\<close>

definition copy_byte :: "ptr \<Rightarrow> ptr \<Rightarrow> u64 \<Rightarrow> mem \<Rightarrow> mem" where
  "copy_byte dst src i m = m(dst + i := m (src + i))"

definition memcpy :: "mem \<Rightarrow> ptr \<Rightarrow> ptr \<Rightarrow> u64 \<Rightarrow> ptr \<times> mem" where
  "memcpy m dst src sz = (dst, for_upto 0 sz (copy_byte dst src) m)"

definition memmove :: "mem \<Rightarrow> ptr \<Rightarrow> ptr \<Rightarrow> u64 \<Rightarrow> ptr \<times> mem" where
  "memmove m dst src sz =
     (dst, if dst < src then for_upto 0 sz (copy_byte dst src) m
           else for_downto sz (\<lambda>i. copy_byte dst src (i - 1)) m)"

definition memset :: "mem \<Rightarrow> ptr \<Rightarrow> int \<Rightarrow> u64 \<Rightarrow> ptr \<times> mem" where
  "memset m buf value sz = (buf, for_upto 0 sz (\<lambda>i m. m(buf + i := word_of_int value)) m)"

subsection \<open>Comparing and searching\<close>

function memcmp_loop :: "mem \<Rightarrow> ptr \<Rightarrow> ptr \<Rightarrow> u64 \<Rightarrow> u64 \<Rightarrow> int" where
  "memcmp_loop m a b sz i =
     (if i < sz
      then if m (a + i) < m (b + i) then -1
           else if m (b + i) < m (a + i) then 1
           else memcmp_loop m a b sz (i + 1)
      else 0)"
  by pat_completeness auto
termination
  by (relation "measure (\<lambda>(m, a, b, sz, i). unat sz - unat i)")
     (auto simp: unat_add_one word_less_nat_alt)

declare memcmp_loop.simps [simp del]

definition memcmp :: "mem \<Rightarrow> ptr \<Rightarrow> ptr \<Rightarrow> u64 \<Rightarrow> int" where
  "memcmp m a b sz = memcmp_loop m a b sz 0"

text \<open>\<open>while (n--)\<close>: the body runs with the decremented counter.\<close>

function memchr_loop :: "mem \<Rightarrow> ptr \<Rightarrow> u8 \<Rightarrow> u64 \<Rightarrow> ptr" where
  "memchr_loop m p c n =
     (if n = 0 then NULL
      else if m p \<noteq> c then memchr_loop m (p + 1) c (n - 1)
      else p)"
  by pat_completeness auto
termination
  by (relation "measure (\<lambda>(m, p, c, n). unat n)") (auto simp: unat_minus_one_lt)

declare memchr_loop.simps [simp del]

definition memchr :: "mem \<Rightarrow> ptr \<Rightarrow> int \<Rightarrow> u64 \<Rightarrow> ptr" where
  "memchr m s c n = memchr_loop m s (word_of_int c) n"

function memrchr_loop :: "mem \<Rightarrow> ptr \<Rightarrow> u8 \<Rightarrow> u64 \<Rightarrow> ptr" where
  "memrchr_loop m p c n =
     (if n = 0 then NULL
      else if m (p + (n - 1)) = c then p + (n - 1)
      else memrchr_loop m p c (n - 1))"
  by pat_completeness auto
termination
  by (relation "measure (\<lambda>(m, p, c, n). unat n)") (auto simp: unat_minus_one_lt)

declare memrchr_loop.simps [simp del]

definition memrchr :: "mem \<Rightarrow> ptr \<Rightarrow> int \<Rightarrow> u64 \<Rightarrow> ptr" where
  "memrchr m s c n = memrchr_loop m s (word_of_int c) n"

subsection \<open>Copying: forward and backward\<close>

text \<open>
  After \<open>k\<close> forward steps the first \<open>k\<close> destination bytes hold the old source bytes and
  nothing else has changed, provided no step overwrites a source byte that is still to come.
\<close>

definition copied_upto :: "mem \<Rightarrow> ptr \<Rightarrow> ptr \<Rightarrow> nat \<Rightarrow> mem \<Rightarrow> bool" where
  "copied_upto m dst src k m' \<longleftrightarrow>
     (\<forall>j<k. m' (dst + of_nat j) = m (src + of_nat j)) \<and> (\<forall>a. a \<notin> region dst k \<longrightarrow> m' a = m a)"

lemma copied_upto_bytes:
  "copied_upto m dst src n m' \<longleftrightarrow>
     bytes m' dst n = bytes m src n \<and> (\<forall>a. a \<notin> region dst n \<longrightarrow> m' a = m a)"
  by (auto simp: copied_upto_def list_eq_iff_nth_eq)

lemma copy_forward:
  assumes "\<And>i j. j < i \<Longrightarrow> i < unat sz \<Longrightarrow> src + of_nat i \<noteq> dst + of_nat j"
  shows "copied_upto m dst src (unat sz) (for_upto 0 sz (copy_byte dst src) m)"
proof (rule for_upto_invariant [where P = "copied_upto m dst src"])
  show "copied_upto m dst src 0 m"
    by (simp add: copied_upto_def)
next
  fix k t
  assume k: "k < unat sz" and inv: "copied_upto m dst src k t"
  have k64: "k < 2 ^ 64" using k unat64 [of sz] by linarith
  have "src + of_nat k \<notin> region dst k"
    using assms k by (auto simp: region_def)
  with inv have src: "t (src + of_nat k) = m (src + of_nat k)"
    by (simp add: copied_upto_def)
  have "dst + of_nat j \<noteq> dst + of_nat k" if "j < k" for j
    using that k64 ptr_add_eq_iff [of j k dst] by simp
  with inv src show "copied_upto m dst src (Suc k) (copy_byte dst src (of_nat k) t)"
    by (auto simp: copied_upto_def copy_byte_def region_Suc less_Suc_eq)
qed

lemma copy_byte_at [simp]: "copy_byte dst src i t (dst + i) = t (src + i)"
  and copy_byte_outside [simp]: "a \<noteq> dst + i \<Longrightarrow> copy_byte dst src i t a = t a"
  by (simp_all add: copy_byte_def)

lemma copy_backward:
  assumes "\<And>i j. i < j \<Longrightarrow> j < unat sz \<Longrightarrow> src + of_nat i \<noteq> dst + of_nat j"
  shows "copied_upto m dst src (unat sz)
           (for_downto sz (\<lambda>i. copy_byte dst src (i - 1)) m)"
proof -
  define n where "n = unat sz"
  have n64: "n \<le> 2 ^ 64" unfolding n_def using unat64 [of sz] by linarith
  have "k \<le> n \<Longrightarrow>
      (\<forall>j<k. fold (\<lambda>i. copy_byte dst src (of_nat i)) (rev [0..<k]) t (dst + of_nat j) = m (src + of_nat j)) \<and>
      (\<forall>a. a \<notin> region dst k \<longrightarrow> fold (\<lambda>i. copy_byte dst src (of_nat i)) (rev [0..<k]) t a = t a)"
    if "\<And>i. i < k \<Longrightarrow> t (src + of_nat i) = m (src + of_nat i)" for k t
    using that
  proof (induction k arbitrary: t)
    case 0
    then show ?case by simp
  next
    case (Suc k)
    let ?t = "copy_byte dst src (of_nat k) t"
    let ?u = "fold (\<lambda>i. copy_byte dst src (of_nat i)) (rev [0..<k]) ?t"
    have t_src: "?t (src + of_nat i) = m (src + of_nat i)" if "i < k" for i
      using that Suc.prems assms [of i k] by (simp add: n_def)
    have u: "\<forall>j<k. ?u (dst + of_nat j) = m (src + of_nat j)"
        "\<forall>a. a \<notin> region dst k \<longrightarrow> ?u a = ?t a"
      using Suc.IH [OF _ t_src] Suc.prems(1) by auto
    have "dst + of_nat k \<notin> region dst k"
      using Suc.prems(1) n64 ptr_add_eq_iff [of k _ dst] by (auto simp: region_def)
    with u(2) Suc.prems(2) [of k] have "?u (dst + of_nat k) = m (src + of_nat k)"
      by simp
    with u show ?case
      by (auto simp: less_Suc_eq region_Suc simp del: One_nat_def)
  qed
  from this [of n m] show ?thesis
    by (simp add: for_downto_fold copied_upto_def n_def)
qed

lemma memmove_copied:
  assumes "fits dst (unat sz)" and "fits src (unat sz)"
  shows "copied_upto m dst src (unat sz) (snd (memmove m dst src sz))"
proof (cases "dst < src")
  case True
  have "src + of_nat i \<noteq> dst + of_nat j" if "j < i" and "i < unat sz" for i j
  proof
    assume "src + of_nat i = dst + of_nat j"
    then have "unat src + i = unat dst + j"
      using that unat_ptr_add [OF assms(1), of j] unat_ptr_add [OF assms(2), of i] by simp
    with True that show False by (simp add: word_less_nat_alt)
  qed
  with True show ?thesis
    by (simp add: memmove_def copy_forward)
next
  case False
  have "src + of_nat i \<noteq> dst + of_nat j" if "i < j" and "j < unat sz" for i j
  proof
    assume "src + of_nat i = dst + of_nat j"
    then have "unat src + i = unat dst + j"
      using that unat_ptr_add [OF assms(1), of j] unat_ptr_add [OF assms(2), of i] by simp
    with False that show False by (simp add: word_less_nat_alt)
  qed
  with False show ?thesis
    by (simp add: memmove_def copy_backward)
qed

text \<open>
  C1. \<open>memmove\<close> copies correctly whatever the overlap of the two buffers: the destination
  holds the old source bytes, no byte outside it changes, and the destination is returned.
\<close>

theorem memmove_correct:
  assumes "fits dst (unat sz)" and "fits src (unat sz)" and "memmove m dst src sz = (r, m')"
  shows "r = dst \<and> bytes m' dst (unat sz) = bytes m src (unat sz)
    \<and> (\<forall>a. a \<notin> region dst (unat sz) \<longrightarrow> m' a = m a)"
  using memmove_copied [OF assms(1,2), of m] assms(3)
  by (auto simp: copied_upto_bytes memmove_def)

text \<open>Two overlapping moves, one in each direction.\<close>

theorem memmove_correct_witness:
  "\<exists>r m'. memmove (poke (\<lambda>_. 0) 100 [1, 2, 3, 4]) 101 100 4 = (r, m')
     \<and> r = 101 \<and> bytes m' 101 4 = [1, 2, 3, 4] \<and> m' 105 = 0"
proof -
  define m :: mem where "m = poke (\<lambda>_. 0) 100 [1, 2, 3, 4]"
  obtain r m' where e: "memmove m 101 100 4 = (r, m')" by fastforce
  have f: "fits 101 (unat (4 :: u64))" "fits 100 (unat (4 :: u64))"
    by (simp_all add: fits_def)
  have "105 \<notin> region (101 :: ptr) (unat (4 :: u64))"
    by (simp add: region_iff)
  with memmove_correct [OF f e] have "r = 101" "bytes m' 101 4 = bytes m 100 4" "m' 105 = m 105"
    by auto
  moreover have "bytes m 100 4 = [1, 2, 3, 4]" "m 105 = 0"
    by (simp_all add: m_def bytes_def upt_rec)
  ultimately show ?thesis
    using e by (auto simp: m_def)
qed

lemma memcpy_correct:
  assumes "region dst (unat sz) \<inter> region src (unat sz) = {}"
    and "memcpy m dst src sz = (r, m')"
  shows "r = dst \<and> bytes m' dst (unat sz) = bytes m src (unat sz)
    \<and> (\<forall>a. a \<notin> region dst (unat sz) \<longrightarrow> m' a = m a)"
proof -
  have "src + of_nat i \<noteq> dst + of_nat j" if "j < i" and "i < unat sz" for i j
    using assms(1) that by (metis disjoint_iff less_trans regionI)
  then have "copied_upto m dst src (unat sz) (snd (memcpy m dst src sz))"
    by (simp add: memcpy_def copy_forward)
  with assms(2) show ?thesis
    by (auto simp: copied_upto_bytes memcpy_def)
qed

lemma memset_correct:
  assumes "memset m buf v sz = (r, m')"
  shows "r = buf \<and> bytes m' buf (unat sz) = replicate (unat sz) (word_of_int v)
    \<and> (\<forall>a. a \<notin> region buf (unat sz) \<longrightarrow> m' a = m a)"
proof -
  let ?P = "\<lambda>k t. (\<forall>j<k. t (buf + of_nat j) = word_of_int v) \<and> (\<forall>a. a \<notin> region buf k \<longrightarrow> t a = m a)"
  have "?P (unat sz) (snd (memset m buf v sz))"
    unfolding memset_def snd_conv
    by (rule for_upto_invariant [where P = ?P]) (auto simp: less_Suc_eq region_Suc)
  then show ?thesis
    using assms by (auto simp: memset_def list_eq_iff_nth_eq)
qed

subsection \<open>Comparing and searching\<close>

lemma memcmp_loop_drop:
  "unat i \<le> unat sz \<Longrightarrow>
   memcmp_loop m a b sz i =
     (let xs = drop (unat i) (bytes m a (unat sz)); ys = drop (unat i) (bytes m b (unat sz))
      in if xs = ys then 0 else if ord_class.lexordp xs ys then -1 else 1)"
proof (induction m a b sz i rule: memcmp_loop.induct)
  case (1 m a b sz i)
  show ?case
  proof (cases "i < sz")
    case True
    then have lt: "unat i < unat sz" by (simp add: word_less_nat_alt)
    have ua: "unat (i + 1) = Suc (unat i)" using True by (rule unat_add_one)
    have d: "drop (unat i) (bytes m p (unat sz)) = m (p + i) # drop (unat (i + 1)) (bytes m p (unat sz))" for p
      using lt by (simp add: Cons_nth_drop_Suc [symmetric] ua)
    show ?thesis
      using True lt "1.IH" ua unfolding d [of a] d [of b]
      by (auto simp: memcmp_loop.simps [of m a b sz i] Let_def)
  next
    case False
    then show ?thesis using "1.prems"
      by (simp add: memcmp_loop.simps [of m a b sz i] Let_def word_less_nat_alt)
  qed
qed

text \<open>
  \<open>memcmp\<close> is the lexicographic comparison of the two buffers as unsigned bytes.
\<close>

theorem memcmp_lexicographic:
  "memcmp m a b sz =
     (let xs = bytes m a (unat sz); ys = bytes m b (unat sz)
      in if xs = ys then 0 else if ord_class.lexordp xs ys then -1 else 1)"
  unfolding memcmp_def by (subst memcmp_loop_drop) simp_all

lemma memcmp_eq_0_iff: "memcmp m a b sz = 0 \<longleftrightarrow> bytes m a (unat sz) = bytes m b (unat sz)"
  using memcmp_loop_drop [of 0 sz m a b] by (simp add: memcmp_def Let_def)

lemma memchr_loop_bytes:
  "memchr_loop m p c n =
     (if c \<in> set (bytes m p (unat n))
      then p + of_nat (length (takeWhile (\<lambda>x. x \<noteq> c) (bytes m p (unat n)))) else NULL)"
proof (induction m p c n rule: memchr_loop.induct)
  case (1 m p c n)
  show ?case
  proof (cases "n = 0")
    case True
    then show ?thesis by (simp add: memchr_loop.simps [of m p c 0])
  next
    case False
    then have "unat n = Suc (unat (n - 1))"
      by (metis Suc_pred' unat_gt_0 unat_minus_one)
    with False "1" show ?thesis
      by (auto simp: memchr_loop.simps [of m p c n] bytes_Suc)
  qed
qed

lemma memchr_correct:
  "memchr m s c n =
     (let xs = bytes m s (unat n); b = word_of_int c
      in if b \<in> set xs then s + of_nat (length (takeWhile (\<lambda>x. x \<noteq> b) xs)) else NULL)"
  by (simp add: memchr_def memchr_loop_bytes Let_def)

lemma memrchr_loop_bytes:
  "memrchr_loop m p c n =
     (if c \<in> set (bytes m p (unat n))
      then p + (n - 1 - of_nat (length (takeWhile (\<lambda>x. x \<noteq> c) (rev (bytes m p (unat n)))))) else NULL)"
proof (induction m p c n rule: memrchr_loop.induct)
  case (1 m p c n)
  show ?case
  proof (cases "n = 0")
    case True
    then show ?thesis by (simp add: memrchr_loop.simps [of m p c 0])
  next
    case False
    then have u: "unat n = Suc (unat (n - 1))"
      by (metis Suc_pred' unat_gt_0 unat_minus_one)
    have w: "of_nat (unat (n - 1)) = n - 1" by simp
    from False "1" show ?thesis unfolding u
      by (auto simp: memrchr_loop.simps [of m p c n] bytes_snoc w algebra_simps)
  qed
qed

end
