(* ===== verification/CircBuf.thy ===== *)
theory CircBuf
  imports CMem "HOL-Library.Monad_Syntax"
begin

text \<open>
  The ring buffer of \<open>libc/sys/circ_buf.c\<close> and the cursor of \<open>libc/sys/circ_buf_ptr.c\<close>.  The
  struct is a record; the elements are bytes of the kernel's memory, at
  \<open>buf + index * granularity\<close>.  An operation that reduces an index modulo the capacity
  traps when the capacity is 0: its result is then \<open>None\<close>.

  The contract is a bounded deque of byte strings (\<open>items\<close>): enqueueing to a full buffer drops
  the element at the other end.  The locale \<open>pointer_queue\<close> is what a client of a first-in
  first-out queue needs; it is interpreted on both directions of the buffer.
\<close>

subsection \<open>The struct and its operations\<close>

record circ_buf =
  cb_buf :: ptr
  cb_head :: u64
  cb_tail :: u64
  cb_size :: u64
  cb_capacity :: u64
  cb_granularity :: u64

definition circ_buf_init :: "ptr \<Rightarrow> u64 \<Rightarrow> u64 \<Rightarrow> circ_buf" where
  "circ_buf_init buf capacity granularity =
     \<lparr>cb_buf = buf, cb_head = 0, cb_tail = 0, cb_size = 0,
      cb_capacity = capacity, cb_granularity = granularity\<rparr>"

text \<open>\<open>malloc\<close> and \<open>free\<close> are arguments: \<open>libc/stdlib/malloc.c\<close> hands them to the kernel heap.\<close>

definition circ_buf_new ::
  "('h \<Rightarrow> u64 \<Rightarrow> ptr \<times> 'h) \<Rightarrow> 'h \<Rightarrow> u64 \<Rightarrow> u64 \<Rightarrow> (ptr \<times> circ_buf) \<times> 'h" where
  "circ_buf_new malloc h capacity granularity =
     (let (cb, h) = malloc h 48;
          (buf, h) = malloc h (capacity * granularity)
      in ((cb, circ_buf_init buf capacity granularity), h))"

definition circ_buf_free :: "('h \<Rightarrow> ptr \<Rightarrow> 'h) \<Rightarrow> 'h \<Rightarrow> ptr \<Rightarrow> circ_buf \<Rightarrow> 'h" where
  "circ_buf_free free h p cb = free (free h (cb_buf cb)) p"

definition circ_buf_granular_index :: "circ_buf \<Rightarrow> u64 \<Rightarrow> u64" where
  "circ_buf_granular_index cb index = index * cb_granularity cb"

definition circ_buf_increment_head :: "circ_buf \<Rightarrow> circ_buf option" where
  "circ_buf_increment_head cb =
     (if cb_capacity cb = 0 then None
      else Some (cb\<lparr>cb_head := (cb_head cb + 1) mod cb_capacity cb\<rparr>))"

definition circ_buf_decrement_head :: "circ_buf \<Rightarrow> circ_buf option" where
  "circ_buf_decrement_head cb =
     (if cb_capacity cb = 0 then None
      else Some (cb\<lparr>cb_head := (cb_head cb + cb_capacity cb - 1) mod cb_capacity cb\<rparr>))"

definition circ_buf_increment_tail :: "circ_buf \<Rightarrow> circ_buf option" where
  "circ_buf_increment_tail cb =
     (if cb_capacity cb = 0 then None
      else Some (cb\<lparr>cb_tail := (cb_tail cb + 1) mod cb_capacity cb\<rparr>))"

definition circ_buf_decrement_tail :: "circ_buf \<Rightarrow> circ_buf option" where
  "circ_buf_decrement_tail cb =
     (if cb_capacity cb = 0 then None
      else Some (cb\<lparr>cb_tail := (cb_tail cb + cb_capacity cb - 1) mod cb_capacity cb\<rparr>))"

text \<open>The state of the operations is the memory and the struct.\<close>

type_synonym cb_state = "mem \<times> circ_buf"

fun circ_buf_enqueue_head :: "cb_state \<Rightarrow> ptr \<Rightarrow> cb_state option" where
  "circ_buf_enqueue_head (m, cb) val =
     do { cb \<leftarrow> circ_buf_decrement_head cb;
          let m = for_upto 0 (cb_granularity cb)
            (\<lambda>i m. m(cb_buf cb + (circ_buf_granular_index cb (cb_head cb) + i) := m (val + i))) m;
          if cb_size cb < cb_capacity cb then Some (m, cb\<lparr>cb_size := cb_size cb + 1\<rparr>)
          else do { cb \<leftarrow> circ_buf_decrement_tail cb; Some (m, cb) } }"

fun circ_buf_enqueue_tail :: "cb_state \<Rightarrow> ptr \<Rightarrow> cb_state option" where
  "circ_buf_enqueue_tail (m, cb) val =
     do { let m = for_upto 0 (cb_granularity cb)
            (\<lambda>i m. m(cb_buf cb + (circ_buf_granular_index cb (cb_tail cb) + i) := m (val + i))) m;
          cb \<leftarrow> circ_buf_increment_tail cb;
          if cb_size cb < cb_capacity cb then Some (m, cb\<lparr>cb_size := cb_size cb + 1\<rparr>)
          else do { cb \<leftarrow> circ_buf_increment_head cb; Some (m, cb) } }"

fun circ_buf_dequeue_head :: "cb_state \<Rightarrow> (ptr \<times> cb_state) option" where
  "circ_buf_dequeue_head (m, cb) =
     (if cb_size cb > 0
      then do { let val = cb_buf cb + circ_buf_granular_index cb (cb_head cb);
                cb \<leftarrow> circ_buf_increment_head cb;
                Some (val, m, cb\<lparr>cb_size := cb_size cb - 1\<rparr>) }
      else Some (NULL, m, cb))"

fun circ_buf_dequeue_tail :: "cb_state \<Rightarrow> (ptr \<times> cb_state) option" where
  "circ_buf_dequeue_tail (m, cb) =
     (if cb_size cb > 0
      then do { cb \<leftarrow> circ_buf_decrement_tail cb;
                let val = cb_buf cb + circ_buf_granular_index cb (cb_tail cb);
                Some (val, m, cb\<lparr>cb_size := cb_size cb - 1\<rparr>) }
      else Some (NULL, m, cb))"

definition circ_buf_peek_head :: "circ_buf \<Rightarrow> ptr" where
  "circ_buf_peek_head cb = cb_buf cb + circ_buf_granular_index cb (cb_head cb)"

definition circ_buf_peekn_head :: "circ_buf \<Rightarrow> u64 \<Rightarrow> ptr option" where
  "circ_buf_peekn_head cb n =
     (if cb_capacity cb = 0 then None
      else Some (cb_buf cb + circ_buf_granular_index cb ((cb_head cb + n) mod cb_capacity cb)))"

definition circ_buf_peek_tail :: "circ_buf \<Rightarrow> ptr" where
  "circ_buf_peek_tail cb = cb_buf cb + circ_buf_granular_index cb (cb_tail cb - 1)"

definition circ_buf_peekn_tail :: "circ_buf \<Rightarrow> u64 \<Rightarrow> ptr option" where
  "circ_buf_peekn_tail cb n =
     (if cb_capacity cb = 0 then None
      else Some (cb_buf cb + circ_buf_granular_index cb
             (((cb_tail cb - n - 1) mod cb_capacity cb + cb_capacity cb) mod cb_capacity cb)))"

definition circ_buf_enqueue :: "cb_state \<Rightarrow> ptr \<Rightarrow> cb_state option" where
  "circ_buf_enqueue s val = circ_buf_enqueue_tail s val"

definition circ_buf_dequeue :: "cb_state \<Rightarrow> (ptr \<times> cb_state) option" where
  "circ_buf_dequeue s = circ_buf_dequeue_head s"

definition circ_buf_peek :: "circ_buf \<Rightarrow> ptr" where
  "circ_buf_peek cb = circ_buf_peek_head cb"

definition circ_buf_peekn :: "circ_buf \<Rightarrow> u64 \<Rightarrow> ptr option" where
  "circ_buf_peekn cb n = circ_buf_peekn_head cb n"

definition circ_buf_push :: "cb_state \<Rightarrow> ptr \<Rightarrow> cb_state option" where
  "circ_buf_push s val = circ_buf_enqueue_head s val"

definition circ_buf_pop :: "cb_state \<Rightarrow> (ptr \<times> cb_state) option" where
  "circ_buf_pop s = circ_buf_dequeue_head s"

definition circ_buf_empty :: "circ_buf \<Rightarrow> bool" where
  "circ_buf_empty cb \<longleftrightarrow> cb_size cb = 0"

definition circ_buf_full :: "circ_buf \<Rightarrow> bool" where
  "circ_buf_full cb \<longleftrightarrow> cb_size cb = cb_capacity cb"

subsection \<open>The cursor\<close>

record circ_buf_ptr =
  cp_ptr :: ptr
  cp_buf :: ptr
  cp_capacity :: u64
  cp_granularity :: u64

definition circ_buf_ptr_init :: "ptr \<Rightarrow> ptr \<Rightarrow> u64 \<Rightarrow> u64 \<Rightarrow> circ_buf_ptr" where
  "circ_buf_ptr_init ptr_raw buf buf_capacity granularity =
     \<lparr>cp_ptr = ptr_raw, cp_buf = buf, cp_capacity = buf_capacity, cp_granularity = granularity\<rparr>"

definition circ_buf_ptr_init2 :: "ptr \<Rightarrow> circ_buf \<Rightarrow> circ_buf_ptr" where
  "circ_buf_ptr_init2 ptr_raw cb =
     circ_buf_ptr_init ptr_raw (cb_buf cb) (cb_capacity cb) (cb_granularity cb)"

definition circ_buf_ptr_increment :: "circ_buf_ptr \<Rightarrow> circ_buf_ptr" where
  "circ_buf_ptr_increment c =
     (let c = c\<lparr>cp_ptr := cp_ptr c + cp_granularity c\<rparr>
      in if cp_ptr c = cp_buf c + cp_capacity c * cp_granularity c then c\<lparr>cp_ptr := cp_buf c\<rparr> else c)"

definition circ_buf_ptr_decrement :: "circ_buf_ptr \<Rightarrow> circ_buf_ptr" where
  "circ_buf_ptr_decrement c =
     (let c = (if cp_ptr c = cp_buf c
               then c\<lparr>cp_ptr := cp_buf c + cp_capacity c * cp_granularity c\<rparr> else c)
      in c\<lparr>cp_ptr := cp_ptr c - cp_granularity c\<rparr>)"

definition circ_buf_ptr_add :: "circ_buf_ptr \<Rightarrow> u64 \<Rightarrow> circ_buf_ptr" where
  "circ_buf_ptr_add c n = for_upto 0 n (\<lambda>_. circ_buf_ptr_increment) c"

definition circ_buf_ptr_subtract :: "circ_buf_ptr \<Rightarrow> u64 \<Rightarrow> circ_buf_ptr" where
  "circ_buf_ptr_subtract c n = for_upto 0 n (\<lambda>_. circ_buf_ptr_decrement) c"

text \<open>The \<open>int\<close> offset is converted to a \<open>size_t\<close>; \<open>-n\<close> is undefined for \<open>INT_MIN\<close>.\<close>

definition circ_buf_ptr_getoffset :: "circ_buf_ptr \<Rightarrow> int \<Rightarrow> ptr option" where
  "circ_buf_ptr_getoffset c n =
     (let offset_ptr = circ_buf_ptr_init (cp_ptr c) (cp_buf c) (cp_capacity c) (cp_granularity c)
      in if n > 0 then Some (cp_ptr (circ_buf_ptr_add offset_ptr (word_of_int n)))
         else if n = - (2 ^ 31) then None
         else Some (cp_ptr (circ_buf_ptr_subtract offset_ptr (word_of_int (- n)))))"

subsection \<open>The contract\<close>

definition cb_slot :: "circ_buf \<Rightarrow> nat \<Rightarrow> ptr" where
  "cb_slot cb j = cb_buf cb + of_nat (j * unat (cb_granularity cb))"

text \<open>
  A well-formed buffer: the storage lies inside the address space, the head is an index, and
  the tail is \<open>size\<close> places behind it.
\<close>

definition cb_ok :: "circ_buf \<Rightarrow> bool" where
  "cb_ok cb \<longleftrightarrow>
     0 < unat (cb_capacity cb) \<and> unat (cb_capacity cb) < 2 ^ 63 \<and>
     unat (cb_capacity cb) * unat (cb_granularity cb) < 2 ^ 64 \<and>
     unat (cb_head cb) < unat (cb_capacity cb) \<and> unat (cb_size cb) \<le> unat (cb_capacity cb) \<and>
     unat (cb_tail cb) = (unat (cb_head cb) + unat (cb_size cb)) mod unat (cb_capacity cb)"

definition cb_region :: "circ_buf \<Rightarrow> ptr set" where
  "cb_region cb = region (cb_buf cb) (unat (cb_capacity cb) * unat (cb_granularity cb))"

definition cb_entry :: "mem \<Rightarrow> circ_buf \<Rightarrow> nat \<Rightarrow> u8 list" where
  "cb_entry m cb j = bytes m (cb_slot cb j) (unat (cb_granularity cb))"

fun items :: "cb_state \<Rightarrow> u8 list list" where
  "items (m, cb) = map (\<lambda>i. cb_entry m cb ((unat (cb_head cb) + i) mod unat (cb_capacity cb)))
     [0..<unat (cb_size cb)]"

fun limit :: "cb_state \<Rightarrow> nat" where
  "limit (m, cb) = unat (cb_capacity cb)"

text \<open>The element a client's pointer denotes, and the pointers outside the buffer's storage.\<close>

fun val_at :: "cb_state \<Rightarrow> ptr \<Rightarrow> u8 list" where
  "val_at (m, cb) p = bytes m p (unat (cb_granularity cb))"

fun separate :: "cb_state \<Rightarrow> ptr \<Rightarrow> bool" where
  "separate (m, cb) p \<longleftrightarrow> region p (unat (cb_granularity cb)) \<inter> cb_region cb = {}"

lemma slot_ptr: "cb_buf cb + circ_buf_granular_index cb w = cb_slot cb (unat w)"
  by (simp add: circ_buf_granular_index_def cb_slot_def)

lemma slot_region: "j < unat (cb_capacity cb) \<Longrightarrow>
    region (cb_slot cb j) (unat (cb_granularity cb)) \<subseteq> cb_region cb"
proof -
  let ?g = "unat (cb_granularity cb)" and ?c = "unat (cb_capacity cb)"
  assume "j < ?c"
  then have "(j + 1) * ?g \<le> ?c * ?g" by (intro mult_right_mono) auto
  then have "region (cb_buf cb) (j * ?g + ?g) \<subseteq> cb_region cb"
    unfolding cb_region_def by (intro region_mono) simp
  then show ?thesis by (simp add: region_add cb_slot_def)
qed

lemma slots_disjoint_less:
  assumes "j < k" and "k < unat (cb_capacity cb)"
    and "unat (cb_capacity cb) * unat (cb_granularity cb) < 2 ^ 64"
  shows "region (cb_slot cb j) (unat (cb_granularity cb)) \<inter>
    region (cb_slot cb k) (unat (cb_granularity cb)) = {}"
proof -
  let ?g = "unat (cb_granularity cb)" and ?c = "unat (cb_capacity cb)"
  let ?d = "(k - j) * ?g"
  have "(k - j + 1) * ?g \<le> ?c * ?g" using assms by (intro mult_right_mono) auto
  then have "?d + ?g \<le> 2 ^ 64" using assms(3) by simp
  then have disj: "region (cb_slot cb j) ?d \<inter> region (cb_slot cb j + of_nat ?d) ?g = {}"
    by (rule region_add_disjoint)
  have "cb_slot cb j + of_nat ?d = cb_slot cb k"
    using assms(1) by (simp add: cb_slot_def of_nat_diff algebra_simps)
  moreover have "1 * ?g \<le> ?d" using assms(1) by (intro mult_right_mono) auto
  then have "region (cb_slot cb j) ?g \<subseteq> region (cb_slot cb j) ?d"
    by (intro region_mono) simp
  ultimately show ?thesis using disj by auto
qed

lemma slots_disjoint:
  assumes "j \<noteq> k" and "j < unat (cb_capacity cb)" and "k < unat (cb_capacity cb)"
    and "unat (cb_capacity cb) * unat (cb_granularity cb) < 2 ^ 64"
  shows "region (cb_slot cb j) (unat (cb_granularity cb)) \<inter>
    region (cb_slot cb k) (unat (cb_granularity cb)) = {}"
  using assms slots_disjoint_less [of j k cb] slots_disjoint_less [of k j cb]
  by (cases j k rule: linorder_cases) auto

lemma mod_shift_eq_iff: "i < c \<Longrightarrow> k < c \<Longrightarrow> (h + i) mod c = (h + k) mod c \<longleftrightarrow> i = (k :: nat)"
proof
  assume c: "i < c" "k < c" and eq: "(h + i) mod c = (h + k) mod c"
  have "c dvd (h + i) - (h + k)" if "k \<le> i"
    using mod_eq_dvd_iff_nat [of "h + k" "h + i" c] that eq by simp
  moreover have "c dvd (h + k) - (h + i)" if "i \<le> k"
    using mod_eq_dvd_iff_nat [of "h + i" "h + k" c] that eq by simp
  ultimately show "i = k" using c
    by (metis add_diff_cancel_left diff_is_0_eq dvd_imp_le le_cases less_imp_diff_less not_le
        zero_less_diff le_antisym)
qed simp

text \<open>Storing a value into a slot.\<close>

lemma store_slot:
  assumes "separate (m, cb) val" and "j < unat (cb_capacity cb)"
    and "unat (cb_capacity cb) * unat (cb_granularity cb) < 2 ^ 64" and "unat w = j"
  defines "m' \<equiv> for_upto 0 (cb_granularity cb)
     (\<lambda>i m. m(cb_buf cb + (circ_buf_granular_index cb w + i) := m (val + i))) m"
  shows "cb_entry m' cb j = val_at (m, cb) val"
    and "k \<noteq> j \<Longrightarrow> k < unat (cb_capacity cb) \<Longrightarrow> cb_entry m' cb k = cb_entry m cb k"
    and "separate (m, cb) p \<Longrightarrow> val_at (m', cb) p = val_at (m, cb) p"
proof -
  let ?g = "unat (cb_granularity cb)"
  have m': "m' = for_upto 0 (cb_granularity cb) (copy_byte (cb_slot cb j) val) m"
    unfolding m'_def copy_byte_def [abs_def] add.assoc [symmetric] slot_ptr assms(4) ..
  have s: "region (cb_slot cb j) ?g \<subseteq> cb_region cb" by (rule slot_region [OF assms(2)])
  then have d: "region (cb_slot cb j) ?g \<inter> region val ?g = {}"
    using assms(1) by auto
  have c: "bytes m' (cb_slot cb j) ?g = bytes m val ?g"
    "\<And>a. a \<notin> region (cb_slot cb j) ?g \<Longrightarrow> m' a = m a"
    using memcpy_correct [OF d, of m] by (simp_all add: memcpy_def m')
  show "cb_entry m' cb j = val_at (m, cb) val" using c(1) by (simp add: cb_entry_def)
  show "cb_entry m' cb k = cb_entry m cb k" if "k \<noteq> j" "k < unat (cb_capacity cb)"
    unfolding cb_entry_def
    by (rule bytes_cong) (use c(2) slots_disjoint [OF that assms(2,3)] in auto)
  show "val_at (m', cb) p = val_at (m, cb) p" if "separate (m, cb) p"
    unfolding val_at.simps by (rule bytes_cong) (use c(2) s that in auto)
qed

lemma mod_inc:
  assumes "unat x < 2 ^ 63" and "unat c < 2 ^ 63"
  shows "unat ((x + 1) mod (c :: u64)) = (unat x + 1) mod unat c"
  using assms by (simp add: unat_mod unat_word_ariths)

lemma mod_dec:
  assumes "unat x < unat c" and "unat c < 2 ^ 63"
  shows "unat ((x + c - 1) mod (c :: u64)) = (unat x + unat c - 1) mod unat c"
proof -
  have u: "unat (x + c) = unat x + unat c" using assms by (simp add: unat_word_ariths)
  then have "x + c \<noteq> 0" using assms by (metis add_is_0 not_less_zero unat_0)
  then show ?thesis using u by (simp add: unat_mod unat_minus_one)
qed

subsection \<open>Every operation refines the deque\<close>

text \<open>\<open>suffix_of n xs\<close>: the last \<open>n\<close> elements, what a full buffer keeps when elements arrive at the tail.\<close>

definition suffix_of :: "nat \<Rightarrow> 'a list \<Rightarrow> 'a list" where
  "suffix_of n xs = drop (length xs - n) xs"

fun cb_inv :: "cb_state \<Rightarrow> bool" where
  "cb_inv (m, cb) \<longleftrightarrow> cb_ok cb"

text \<open>Operations change neither the storage nor the geometry of the buffer.\<close>

definition same_geometry :: "circ_buf \<Rightarrow> circ_buf \<Rightarrow> bool" where
  "same_geometry cb cb' \<longleftrightarrow> cb_buf cb' = cb_buf cb \<and> cb_capacity cb' = cb_capacity cb \<and>
     cb_granularity cb' = cb_granularity cb"

lemma same_geometry_simps:
  assumes "same_geometry cb cb'"
  shows "cb_slot cb' j = cb_slot cb j" and "cb_region cb' = cb_region cb"
    and "cb_entry m cb' j = cb_entry m cb j" and "limit (m', cb') = limit (m, cb)"
    and "separate (m', cb') p = separate (m, cb) p" and "val_at (m, cb') p = val_at (m, cb) p"
  using assms by (simp_all add: same_geometry_def cb_slot_def cb_region_def cb_entry_def)

lemma items_eqI:
  assumes "length xs = unat (cb_size cb)"
    and "\<And>i. i < unat (cb_size cb) \<Longrightarrow>
       cb_entry m cb ((unat (cb_head cb) + i) mod unat (cb_capacity cb)) = xs ! i"
  shows "items (m, cb) = xs"
  by (rule nth_equalityI) (use assms in auto)

lemma items_nth: "i < unat (cb_size cb) \<Longrightarrow>
    items (m, cb) ! i = cb_entry m cb ((unat (cb_head cb) + i) mod unat (cb_capacity cb))"
  by simp

lemma length_items: "length (items (m, cb)) = unat (cb_size cb)"
  by simp

lemma size_inc: "unat (s :: u64) < unat (c :: u64) \<Longrightarrow> unat (s + 1) = Suc (unat s)"
  by (intro unat_add_one [of s c]) (simp add: word_less_nat_alt)

lemma enqueue_tail_refines:
  assumes "cb_inv s" and "separate s val"
  shows "\<exists>m' cb'. circ_buf_enqueue_tail s val = Some (m', cb') \<and> same_geometry (snd s) cb' \<and>
     cb_inv (m', cb') \<and> (\<forall>p. separate s p \<longrightarrow> val_at (m', cb') p = val_at s p) \<and>
     items (m', cb') = suffix_of (limit s) (items s @ [val_at s val])"
proof -
  obtain m cb where s: "s = (m, cb)" by fastforce
  let ?C = "unat (cb_capacity cb)" and ?H = "unat (cb_head cb)" and ?S = "unat (cb_size cb)"
  have ok: "0 < ?C" "?C < 2 ^ 63" "?C * unat (cb_granularity cb) < 2 ^ 64" "?H < ?C" "?S \<le> ?C"
    "unat (cb_tail cb) = (?H + ?S) mod ?C"
    using assms(1) by (simp_all add: s cb_ok_def)
  let ?T = "(?H + ?S) mod ?C"
  have T: "?T < ?C" using ok by simp
  define m' where "m' = for_upto 0 (cb_granularity cb)
     (\<lambda>i m. m(cb_buf cb + (circ_buf_granular_index cb (cb_tail cb) + i) := m (val + i))) m"
  note st = store_slot [OF assms(2) [unfolded s] T ok(3,6), folded m'_def]
  define t where "t = (cb_tail cb + 1) mod cb_capacity cb"
  have "unat (cb_tail cb) < 2 ^ 63" using T ok(2) unfolding ok(6) by linarith
  then have tail: "unat t = (?H + ?S + 1) mod ?C"
    using mod_inc [OF _ ok(2)] ok(6) by (simp add: t_def mod_Suc_eq)
  have c0: "cb_capacity cb \<noteq> 0" using ok(1) by auto
  show ?thesis
  proof (cases "?S < ?C")
    case True
    define cb' where "cb' = cb\<lparr>cb_tail := t, cb_size := cb_size cb + 1\<rparr>"
    have geo: "same_geometry cb cb'" by (simp add: same_geometry_def cb'_def)
    have S': "unat (cb_size cb + 1) = ?S + 1" using size_inc [of "cb_size cb" "cb_capacity cb"] True by simp
    have e: "circ_buf_enqueue_tail s val = Some (m', cb')"
      using True c0 by (simp add: s m'_def [symmetric] circ_buf_increment_tail_def t_def cb'_def
          word_less_nat_alt Let_def)
    have inv: "cb_inv (m', cb')" using ok True tail S' by (simp add: cb_ok_def cb'_def)
    have "items (m', cb') = items s @ [val_at s val]"
    proof (rule items_eqI)
      show "length (items s @ [val_at s val]) = unat (cb_size cb')" using S' by (simp add: s cb'_def)
    next
      fix i assume "i < unat (cb_size cb')"
      then have i: "i < ?S \<or> i = ?S" using S' by (auto simp: cb'_def)
      have "cb_entry m' cb ((?H + i) mod ?C) = (items s @ [val_at s val]) ! i"
      proof (cases "i < ?S")
        case True
        then have "(?H + i) mod ?C \<noteq> ?T" using ok \<open>?S < ?C\<close> by (simp add: mod_shift_eq_iff)
        with True ok st(2) show ?thesis by (simp add: nth_append s)
      next
        case False
        with i st(1) show ?thesis by (simp add: nth_append s)
      qed
      then show "cb_entry m' cb' ((unat (cb_head cb') + i) mod unat (cb_capacity cb')) =
          (items s @ [val_at s val]) ! i"
        by (simp add: same_geometry_simps [OF geo]) (simp add: cb'_def)
    qed
    then show ?thesis
      using e geo inv True st(3) same_geometry_simps(6) [OF geo]
      by (auto simp: s suffix_of_def)
  next
    case False
    then have SC: "?S = ?C" using ok by simp
    define h where "h = (cb_head cb + 1) mod cb_capacity cb"
    define cb' where "cb' = cb\<lparr>cb_tail := t, cb_head := h\<rparr>"
    have geo: "same_geometry cb cb'" by (simp add: same_geometry_def cb'_def)
    have head: "unat h = (?H + 1) mod ?C"
      using ok mod_inc [of "cb_head cb" "cb_capacity cb"] by (simp add: h_def)
    have e: "circ_buf_enqueue_tail s val = Some (m', cb')"
      using False c0 by (simp add: s m'_def [symmetric] circ_buf_increment_tail_def
          circ_buf_increment_head_def t_def h_def cb'_def word_less_nat_alt Let_def)
    have sum: "?H + ?C + 1 = ?H + 1 + ?C" by simp
    have "(?H + ?C + 1) mod ?C = (?H + 1) mod ?C"
      unfolding sum by (rule mod_add_self2)
    then have inv: "cb_inv (m', cb')"
      using ok tail head SC by (simp add: cb_ok_def cb'_def mod_Suc_eq)
    have T': "?T = ?H mod ?C" using SC by simp
    have "items (m', cb') = tl (items s) @ [val_at s val]"
    proof (rule items_eqI)
      show "length (tl (items s) @ [val_at s val]) = unat (cb_size cb')"
        using SC ok by (simp add: s cb'_def)
    next
      fix i assume "i < unat (cb_size cb')"
      then have i: "i < ?C" using SC by (simp add: cb'_def)
      have "cb_entry m' cb ((?H + 1 + i) mod ?C) = (tl (items s) @ [val_at s val]) ! i"
      proof (cases "i = ?C - 1")
        case True
        then have "(?H + 1 + i) mod ?C = ?T" using SC ok by simp
        with True st(1) SC ok show ?thesis by (simp add: nth_append s)
      next
        case False
        with i have i1: "1 + i < ?C" "i < ?C - 1" by simp_all
        then have "(?H + (1 + i)) mod ?C \<noteq> (?H + 0) mod ?C" using ok by (subst mod_shift_eq_iff) auto
        with i1 ok st(2) SC T' show ?thesis by (simp add: nth_append s nth_tl)
      qed
      then show "cb_entry m' cb' ((unat (cb_head cb') + i) mod unat (cb_capacity cb')) =
          (tl (items s) @ [val_at s val]) ! i"
        using head by (simp add: same_geometry_simps [OF geo]) (simp add: cb'_def mod_add_left_eq)
    qed
    moreover have "suffix_of (limit s) (items s @ [val_at s val]) = tl (items s) @ [val_at s val]"
      using SC ok by (simp add: s suffix_of_def drop_Suc [of 0, simplified])
    ultimately show ?thesis
      using e geo inv st(3) same_geometry_simps(6) [OF geo]
      by (auto simp: s)
  qed
qed

lemma enqueue_head_refines:
  assumes "cb_inv s" and "separate s val"
  shows "\<exists>m' cb'. circ_buf_enqueue_head s val = Some (m', cb') \<and> same_geometry (snd s) cb' \<and>
     cb_inv (m', cb') \<and> (\<forall>p. separate s p \<longrightarrow> val_at (m', cb') p = val_at s p) \<and>
     items (m', cb') = take (limit s) (val_at s val # items s)"
proof -
  obtain m cb where s: "s = (m, cb)" by fastforce
  let ?C = "unat (cb_capacity cb)" and ?H = "unat (cb_head cb)" and ?S = "unat (cb_size cb)"
  have ok: "0 < ?C" "?C < 2 ^ 63" "?C * unat (cb_granularity cb) < 2 ^ 64" "?H < ?C" "?S \<le> ?C"
    "unat (cb_tail cb) = (?H + ?S) mod ?C"
    using assms(1) by (simp_all add: s cb_ok_def)
  let ?H' = "(?H + (?C - 1)) mod ?C"
  define h where "h = (cb_head cb + cb_capacity cb - 1) mod cb_capacity cb"
  have h: "unat h = ?H'"
    using mod_dec [OF ok(4,2)] ok(1) by (simp add: h_def)
  have H': "?H' < ?C" using ok by simp
  have next_index: "(?H' + Suc j) mod ?C = (?H + j) mod ?C" for j
  proof -
    have "(?H' + Suc j) mod ?C = (?H + (?C - 1) + Suc j) mod ?C" by (rule mod_add_left_eq)
    also have "?H + (?C - 1) + Suc j = ?H + j + ?C" using ok(1) by simp
    finally show ?thesis by simp
  qed
  define cb1 where "cb1 = cb\<lparr>cb_head := h\<rparr>"
  define m' where "m' = for_upto 0 (cb_granularity cb)
     (\<lambda>i m. m(cb_buf cb + (circ_buf_granular_index cb h + i) := m (val + i))) m"
  note st = store_slot [OF assms(2) [unfolded s] H' ok(3) h, folded m'_def]
  have c0: "cb_capacity cb \<noteq> 0" using ok(1) by auto
  have dec: "circ_buf_decrement_head cb = Some cb1"
    using c0 by (simp add: circ_buf_decrement_head_def cb1_def h_def)
  have m1: "for_upto 0 (cb_granularity cb1) (\<lambda>i m. m(cb_buf cb1 +
      (circ_buf_granular_index cb1 (cb_head cb1) + i) := m (val + i))) m = m'"
    by (simp add: cb1_def m'_def circ_buf_granular_index_def)
  have entry: "cb_entry m' cb ((?H' + i) mod ?C) = (val_at s val # items s) ! i"
    if "i < Suc ?S" and "i < ?C" for i
  proof (cases i)
    case 0
    then show ?thesis using st(1) H' by (simp add: s)
  next
    case (Suc j)
    then have "(?H + j) mod ?C \<noteq> ?H'" using that by (subst mod_shift_eq_iff) auto
    then have "cb_entry m' cb ((?H' + i) mod ?C) = cb_entry m cb ((?H + j) mod ?C)"
      unfolding Suc next_index using ok(1) by (intro st(2)) auto
    with Suc that show ?thesis by (simp add: s)
  qed
  show ?thesis
  proof (cases "?S < ?C")
    case True
    define cb' where "cb' = cb1\<lparr>cb_size := cb_size cb + 1\<rparr>"
    have geo: "same_geometry cb cb'" by (simp add: same_geometry_def cb'_def cb1_def)
    have S': "unat (cb_size cb + 1) = Suc ?S" using size_inc [of "cb_size cb" "cb_capacity cb"] True by simp
    have e: "circ_buf_enqueue_head s val = Some (m', cb')"
      using True by (simp add: s dec Let_def m1) (simp add: cb1_def cb'_def word_less_nat_alt)
    have inv: "cb_inv (m', cb')"
      using ok True S' next_index [of ?S] by (simp add: cb_ok_def cb'_def cb1_def h)
    have "items (m', cb') = val_at s val # items s"
    proof (rule items_eqI)
      show "length (val_at s val # items s) = unat (cb_size cb')" using S' by (simp add: s cb'_def)
    next
      fix i assume "i < unat (cb_size cb')"
      then show "cb_entry m' cb' ((unat (cb_head cb') + i) mod unat (cb_capacity cb')) =
          (val_at s val # items s) ! i"
        using entry [of i] S' True
        by (simp add: same_geometry_simps [OF geo]) (simp add: cb'_def cb1_def h)
    qed
    then show ?thesis
      using e geo inv True st(3) same_geometry_simps(6) [OF geo] by (auto simp: s)
  next
    case False
    then have SC: "?S = ?C" using ok by simp
    then have T: "unat (cb_tail cb) = ?H" using ok by simp
    define t where "t = (cb_tail cb + cb_capacity cb - 1) mod cb_capacity cb"
    have t: "unat t = ?H'" using mod_dec [of "cb_tail cb" "cb_capacity cb"] ok T by (simp add: t_def)
    define cb' where "cb' = cb1\<lparr>cb_tail := t\<rparr>"
    have geo: "same_geometry cb cb'" by (simp add: same_geometry_def cb'_def cb1_def)
    have e: "circ_buf_enqueue_head s val = Some (m', cb')"
      using False c0 by (simp add: s dec Let_def m1)
        (simp add: cb1_def cb'_def t_def word_less_nat_alt circ_buf_decrement_tail_def)
    have inv: "cb_inv (m', cb')"
      using ok SC by (simp add: cb_ok_def cb'_def cb1_def h t)
    have "items (m', cb') = take (limit s) (val_at s val # items s)"
    proof (rule items_eqI)
      show "length (take (limit s) (val_at s val # items s)) = unat (cb_size cb')"
        using SC by (simp add: s cb'_def cb1_def)
    next
      fix i assume "i < unat (cb_size cb')"
      then have "i < ?C" using SC by (simp add: cb'_def cb1_def)
      then show "cb_entry m' cb' ((unat (cb_head cb') + i) mod unat (cb_capacity cb')) =
          take (limit s) (val_at s val # items s) ! i"
        using entry [of i] SC
        by (simp add: same_geometry_simps [OF geo]) (simp add: cb'_def cb1_def h s)
    qed
    then show ?thesis
      using e geo inv st(3) same_geometry_simps(6) [OF geo] by (auto simp: s)
  qed
qed

lemma items_empty_iff: "items (m, cb) = [] \<longleftrightarrow> cb_size cb = 0"
  by (simp add: unat_eq_0)

lemma size_dec: "unat (s :: u64) \<noteq> 0 \<Longrightarrow> unat (s - 1) = unat s - 1"
  by (metis unat_0 unat_minus_one)

lemma dequeue_empty:
  assumes "items s = []"
  shows "circ_buf_dequeue_head s = Some (NULL, s)" and "circ_buf_dequeue_tail s = Some (NULL, s)"
  using assms items_empty_iff by (cases s; auto)+

lemma dequeue_head_refines:
  assumes "cb_inv s" and "items s = x # xs"
  shows "\<exists>p cb'. circ_buf_dequeue_head s = Some (p, fst s, cb') \<and> same_geometry (snd s) cb' \<and>
     cb_inv (fst s, cb') \<and> val_at (fst s, cb') p = x \<and> items (fst s, cb') = xs \<and>
     p = circ_buf_peek_head (snd s)"
proof -
  obtain m cb where s: "s = (m, cb)" by fastforce
  let ?C = "unat (cb_capacity cb)" and ?H = "unat (cb_head cb)" and ?S = "unat (cb_size cb)"
  have ok: "0 < ?C" "?C < 2 ^ 63" "?C * unat (cb_granularity cb) < 2 ^ 64" "?H < ?C" "?S \<le> ?C"
    "unat (cb_tail cb) = (?H + ?S) mod ?C"
    using assms(1) by (simp_all add: s cb_ok_def)
  have S: "?S = Suc (length xs)" using arg_cong [OF assms(2), of length] by (simp add: s)
  define cb' where "cb' = cb\<lparr>cb_head := (cb_head cb + 1) mod cb_capacity cb, cb_size := cb_size cb - 1\<rparr>"
  have geo: "same_geometry cb cb'" by (simp add: same_geometry_def cb'_def)
  have head: "unat ((cb_head cb + 1) mod cb_capacity cb) = (?H + 1) mod ?C"
    using ok mod_inc [of "cb_head cb" "cb_capacity cb"] by simp
  have size: "unat (cb_size cb - 1) = length xs" using S size_dec [of "cb_size cb"] by simp
  let ?p = "circ_buf_peek_head cb"
  have p: "?p = cb_slot cb ?H" by (simp add: circ_buf_peek_head_def slot_ptr)
  have pos: "0 < cb_size cb" using S by (simp add: word_less_nat_alt)
  have "cb_capacity cb \<noteq> 0" using ok(1) by auto
  then have e: "circ_buf_dequeue_head s = Some (?p, m, cb')"
    using pos by (simp add: s circ_buf_increment_head_def cb'_def Let_def circ_buf_peek_head_def)
  have "((?H + 1) mod ?C + length xs) mod ?C = (?H + ?S) mod ?C"
    using S by (simp add: mod_simps)
  then have inv: "cb_inv (m, cb')"
    using ok head size S by (simp add: cb_ok_def cb'_def)
  have "x = items s ! 0" using assms(2) by simp
  then have x: "val_at (m, cb') ?p = x"
    using S ok items_nth [of 0 cb m] by (simp add: cb'_def p s cb_entry_def)
  have "items (m, cb') = xs"
  proof (rule items_eqI)
    show "length xs = unat (cb_size cb')" using size by (simp add: cb'_def)
  next
    fix i assume "i < unat (cb_size cb')"
    then have i: "i < length xs" using size by (simp add: cb'_def)
    have "xs ! i = items s ! Suc i" using assms(2) by simp
    also have "\<dots> = cb_entry m cb ((?H + Suc i) mod ?C)"
      unfolding s using i S by (intro items_nth) simp
    finally show "cb_entry m cb' ((unat (cb_head cb') + i) mod unat (cb_capacity cb')) = xs ! i"
      by (simp add: same_geometry_simps [OF geo]) (simp add: cb'_def head mod_simps)
  qed
  then show ?thesis using e geo inv x by (auto simp: s)
qed

lemma dequeue_tail_refines:
  assumes "cb_inv s" and "items s = xs @ [x]"
  shows "\<exists>p cb'. circ_buf_dequeue_tail s = Some (p, fst s, cb') \<and> same_geometry (snd s) cb' \<and>
     cb_inv (fst s, cb') \<and> val_at (fst s, cb') p = x \<and> items (fst s, cb') = xs"
proof -
  obtain m cb where s: "s = (m, cb)" by fastforce
  let ?C = "unat (cb_capacity cb)" and ?H = "unat (cb_head cb)" and ?S = "unat (cb_size cb)"
  have ok: "0 < ?C" "?C < 2 ^ 63" "?C * unat (cb_granularity cb) < 2 ^ 64" "?H < ?C" "?S \<le> ?C"
    "unat (cb_tail cb) = (?H + ?S) mod ?C"
    using assms(1) by (simp_all add: s cb_ok_def)
  have S: "?S = Suc (length xs)" using arg_cong [OF assms(2), of length] by (simp add: s)
  let ?t = "(cb_tail cb + cb_capacity cb - 1) mod cb_capacity cb"
  define cb' where "cb' = cb\<lparr>cb_tail := ?t, cb_size := cb_size cb - 1\<rparr>"
  have geo: "same_geometry cb cb'" by (simp add: same_geometry_def cb'_def)
  have "unat (cb_tail cb) < ?C" unfolding ok(6) using ok(1) by simp
  then have "unat ?t = ((?H + ?S) mod ?C + ?C - 1) mod ?C"
    using mod_dec [of "cb_tail cb" "cb_capacity cb"] ok(2,6) by simp
  also have "(?H + ?S) mod ?C + ?C - 1 = (?H + ?S) mod ?C + (?C - 1)" using ok(1) by simp
  also have "((?H + ?S) mod ?C + (?C - 1)) mod ?C = (?H + ?S + (?C - 1)) mod ?C"
    by (rule mod_add_left_eq)
  also have "?H + ?S + (?C - 1) = ?H + length xs + ?C" using S ok(1) by simp
  finally have tail: "unat ?t = (?H + length xs) mod ?C" by simp
  have size: "unat (cb_size cb - 1) = length xs" using S size_dec [of "cb_size cb"] by simp
  let ?p = "cb_slot cb ((?H + length xs) mod ?C)"
  have p: "cb_buf cb + circ_buf_granular_index cb ?t = ?p" by (simp only: slot_ptr tail)
  have pos: "0 < cb_size cb" using S by (simp add: word_less_nat_alt)
  have "cb_capacity cb \<noteq> 0" using ok(1) by auto
  then have e: "circ_buf_dequeue_tail s = Some (?p, m, cb')"
    using pos p by (simp add: s circ_buf_decrement_tail_def cb'_def Let_def circ_buf_granular_index_def)
  have inv: "cb_inv (m, cb')"
    using ok tail size S by (simp add: cb_ok_def cb'_def)
  have "x = items s ! length xs" using assms(2) by simp
  then have x: "val_at (m, cb') ?p = x"
    using S items_nth [of "length xs" cb m] by (simp add: cb'_def s cb_entry_def)
  have "items (m, cb') = xs"
  proof (rule items_eqI)
    show "length xs = unat (cb_size cb')" using size by (simp add: cb'_def)
  next
    fix i assume "i < unat (cb_size cb')"
    then have i: "i < length xs" using size by (simp add: cb'_def)
    then have "xs ! i = items s ! i" using assms(2) by (simp add: nth_append)
    also have "\<dots> = cb_entry m cb ((?H + i) mod ?C)"
      unfolding s using i S by (intro items_nth) simp
    finally show "cb_entry m cb' ((unat (cb_head cb') + i) mod unat (cb_capacity cb')) = xs ! i"
      by (simp add: same_geometry_simps [OF geo]) (simp add: cb'_def)
  qed
  then show ?thesis using e geo inv x by (auto simp: s)
qed

lemma suffix_of_append: "suffix_of n (suffix_of n xs @ ys) = suffix_of n (xs @ ys)"
  by (cases "length xs \<le> n") (auto simp: suffix_of_def drop_append add.commute)

lemma suffix_of_all [simp]: "length xs \<le> n \<Longrightarrow> suffix_of n xs = xs"
  by (simp add: suffix_of_def)

lemma rev_suffix_of: "rev (suffix_of n (rev xs)) = take n xs"
  by (cases "length xs \<le> n") (simp_all add: suffix_of_def rev_drop)

subsection \<open>What a client of a first-in first-out queue relies on\<close>

text \<open>
  The client hands over a pointer to the value and gets a pointer back; \<open>sep\<close> are the pointers
  it may use, those outside the queue's storage.
\<close>

primrec put_all :: "('s \<Rightarrow> ptr \<Rightarrow> 's option) \<Rightarrow> ptr list \<Rightarrow> 's \<Rightarrow> 's option" where
  "put_all enq [] s = Some s"
| "put_all enq (p # ps) s = do { s \<leftarrow> enq s p; put_all enq ps s }"

primrec take_out ::
  "('s \<Rightarrow> (ptr \<times> 's) option) \<Rightarrow> ('s \<Rightarrow> ptr \<Rightarrow> 'a) \<Rightarrow> nat \<Rightarrow> 's \<Rightarrow> ('a list \<times> 's) option" where
  "take_out deq val 0 s = Some ([], s)"
| "take_out deq val (Suc n) s =
     do { (p, s) \<leftarrow> deq s; (xs, s') \<leftarrow> take_out deq val n s; Some (val s p # xs, s') }"

locale pointer_queue =
  fixes inv :: "'s \<Rightarrow> bool"
    and contents :: "'s \<Rightarrow> 'a list"
    and room :: "'s \<Rightarrow> nat"
    and val :: "'s \<Rightarrow> ptr \<Rightarrow> 'a"
    and sep :: "'s \<Rightarrow> ptr \<Rightarrow> bool"
    and enq :: "'s \<Rightarrow> ptr \<Rightarrow> 's option"
    and deq :: "'s \<Rightarrow> (ptr \<times> 's) option"
  assumes enq_law: "inv s \<Longrightarrow> sep s p \<Longrightarrow>
      \<exists>s'. enq s p = Some s' \<and> inv s' \<and> room s' = room s \<and> (\<forall>q. sep s' q = sep s q) \<and>
        (\<forall>q. sep s q \<longrightarrow> val s' q = val s q) \<and>
        contents s' = suffix_of (room s) (contents s @ [val s p])"
    and deq_law: "inv s \<Longrightarrow> contents s = x # xs \<Longrightarrow>
      \<exists>p s'. deq s = Some (p, s') \<and> inv s' \<and> room s' = room s \<and> val s' p = x \<and> contents s' = xs"
    and deq_empty: "inv s \<Longrightarrow> contents s = [] \<Longrightarrow> deq s = Some (NULL, s)"
begin

lemma put_all_contents:
  "inv s \<Longrightarrow> \<forall>p\<in>set ps. sep s p \<Longrightarrow> length (contents s) \<le> room s \<Longrightarrow>
   \<exists>s'. put_all enq ps s = Some s' \<and> inv s' \<and> room s' = room s \<and>
     contents s' = suffix_of (room s) (contents s @ map (val s) ps)"
proof (induction ps arbitrary: s)
  case Nil
  then show ?case by simp
next
  case (Cons p ps)
  obtain s1 where s1: "enq s p = Some s1" "inv s1" "room s1 = room s" "\<forall>q. sep s1 q = sep s q"
    "\<forall>q. sep s q \<longrightarrow> val s1 q = val s q"
    "contents s1 = suffix_of (room s) (contents s @ [val s p])"
    using enq_law [of s p] Cons.prems by auto
  have "map (val s1) ps = map (val s) ps" using s1(5) Cons.prems(2) by simp
  moreover have "length (contents s1) \<le> room s1" by (simp add: s1(3,6) suffix_of_def)
  moreover have "\<forall>p\<in>set ps. sep s1 p" using s1(4) Cons.prems(2) by simp
  ultimately show ?case
    using Cons.IH [OF s1(2)] s1(1,3) by (auto simp: s1(6) suffix_of_append simp del: map_eq_conv)
qed

lemma take_out_contents:
  "inv s \<Longrightarrow> n \<le> length (contents s) \<Longrightarrow>
   \<exists>s'. take_out deq val n s = Some (take n (contents s), s') \<and> inv s' \<and> room s' = room s \<and>
     contents s' = drop n (contents s)"
proof (induction n arbitrary: s)
  case 0
  then show ?case by simp
next
  case (Suc n)
  then obtain x xs where xs: "contents s = x # xs" by (cases "contents s") auto
  obtain p s1 where s1: "deq s = Some (p, s1)" "inv s1" "room s1 = room s" "val s1 p = x"
    "contents s1 = xs"
    using deq_law [OF Suc.prems(1) xs] by auto
  show ?case using Suc.IH [OF s1(2)] Suc.prems(2) by (auto simp: xs s1)
qed

text \<open>First in, first out, of the values that fit.\<close>

lemma fifo:
  assumes "inv s" and "contents s = []" and "\<forall>p\<in>set ps. sep s p" and "n = min (length ps) (room s)"
  shows "\<exists>s1 s2. put_all enq ps s = Some s1 \<and>
     take_out deq val n s1 = Some (suffix_of (room s) (map (val s) ps), s2) \<and>
     inv s2 \<and> contents s2 = [] \<and> deq s2 = Some (NULL, s2)"
proof -
  obtain s1 where s1: "put_all enq ps s = Some s1" "inv s1" "room s1 = room s"
    "contents s1 = suffix_of (room s) (map (val s) ps)"
    using put_all_contents [of s ps] assms by auto
  have n: "n = length (contents s1)" using assms(4) by (simp add: s1(4) suffix_of_def)
  then obtain s2 where "take_out deq val n s1 = Some (contents s1, s2)" "inv s2" "contents s2 = []"
    using take_out_contents [OF s1(2), of n] by auto
  then show ?thesis using s1 deq_empty [of s2] by auto
qed

end

text \<open>
  Both directions of the ring buffer are such queues: in at the tail and out at the head
  (\<open>circ_buf_enqueue\<close>, \<open>circ_buf_dequeue\<close>), and in at the head and out at the tail.
\<close>

lemma circ_buf_enqueue_law:
  assumes "cb_inv s" and "separate s p"
  shows "\<exists>s'. circ_buf_enqueue s p = Some s' \<and> cb_inv s' \<and> limit s' = limit s \<and>
    (\<forall>q. separate s' q = separate s q) \<and> (\<forall>q. separate s q \<longrightarrow> val_at s' q = val_at s q) \<and>
    items s' = suffix_of (limit s) (items s @ [val_at s p])"
proof -
  obtain m' cb' where c: "circ_buf_enqueue_tail s p = Some (m', cb')" "same_geometry (snd s) cb'"
    "cb_inv (m', cb')" "\<forall>q. separate s q \<longrightarrow> val_at (m', cb') q = val_at s q"
    "items (m', cb') = suffix_of (limit s) (items s @ [val_at s p])"
    using enqueue_tail_refines [OF assms] by auto
  then show ?thesis
    unfolding circ_buf_enqueue_def using same_geometry_simps [OF c(2)]
    by (intro exI [of _ "(m', cb')"]) (cases s; simp)
qed

lemma circ_buf_push_law:
  assumes "cb_inv s" and "separate s p"
  shows "\<exists>s'. circ_buf_push s p = Some s' \<and> cb_inv s' \<and> limit s' = limit s \<and>
    (\<forall>q. separate s' q = separate s q) \<and> (\<forall>q. separate s q \<longrightarrow> val_at s' q = val_at s q) \<and>
    items s' = take (limit s) (val_at s p # items s)"
proof -
  obtain m' cb' where c: "circ_buf_enqueue_head s p = Some (m', cb')" "same_geometry (snd s) cb'"
    "cb_inv (m', cb')" "\<forall>q. separate s q \<longrightarrow> val_at (m', cb') q = val_at s q"
    "items (m', cb') = take (limit s) (val_at s p # items s)"
    using enqueue_head_refines [OF assms] by auto
  then show ?thesis
    unfolding circ_buf_push_def using same_geometry_simps [OF c(2)]
    by (intro exI [of _ "(m', cb')"]) (cases s; simp)
qed

interpretation fifo: pointer_queue cb_inv items limit val_at separate circ_buf_enqueue circ_buf_dequeue
proof
  fix s p assume "cb_inv s" and "separate s p"
  then show "\<exists>s'. circ_buf_enqueue s p = Some s' \<and> cb_inv s' \<and> limit s' = limit s \<and>
    (\<forall>q. separate s' q = separate s q) \<and> (\<forall>q. separate s q \<longrightarrow> val_at s' q = val_at s q) \<and>
    items s' = suffix_of (limit s) (items s @ [val_at s p])"
    by (rule circ_buf_enqueue_law)
next
  fix s x xs assume "cb_inv s" and "items s = x # xs"
  from dequeue_head_refines [OF this] obtain p cb' where
    "circ_buf_dequeue_head s = Some (p, fst s, cb')" "same_geometry (snd s) cb'"
    "cb_inv (fst s, cb')" "val_at (fst s, cb') p = x" "items (fst s, cb') = xs"
    by auto
  then show "\<exists>p s'. circ_buf_dequeue s = Some (p, s') \<and> cb_inv s' \<and> limit s' = limit s \<and>
      val_at s' p = x \<and> items s' = xs"
    unfolding circ_buf_dequeue_def
    by (intro exI [of _ p] exI [of _ "(fst s, cb')"]) (cases s; simp add: same_geometry_def)
next
  fix s assume "items s = []"
  then show "circ_buf_dequeue s = Some (NULL, s)"
    by (simp add: circ_buf_dequeue_def dequeue_empty)
qed

interpretation backwards: pointer_queue cb_inv "\<lambda>s. rev (items s)" limit val_at separate
  circ_buf_push circ_buf_dequeue_tail
proof
  fix s p assume "cb_inv s" and "separate s p"
  from circ_buf_push_law [OF this]
  show "\<exists>s'. circ_buf_push s p = Some s' \<and> cb_inv s' \<and> limit s' = limit s \<and>
    (\<forall>q. separate s' q = separate s q) \<and> (\<forall>q. separate s q \<longrightarrow> val_at s' q = val_at s q) \<and>
    rev (items s') = suffix_of (limit s) (rev (items s) @ [val_at s p])"
    using rev_suffix_of [of "limit s" "val_at s p # items s"] by (metis rev.simps(2) rev_rev_ident)
next
  fix s x xs assume "cb_inv s" and "rev (items s) = x # xs"
  then have "items s = rev xs @ [x]" by (metis rev.simps(2) rev_rev_ident)
  with \<open>cb_inv s\<close> obtain p cb' where
    "circ_buf_dequeue_tail s = Some (p, fst s, cb')" "same_geometry (snd s) cb'"
    "cb_inv (fst s, cb')" "val_at (fst s, cb') p = x" "items (fst s, cb') = rev xs"
    using dequeue_tail_refines by blast
  then show "\<exists>p s'. circ_buf_dequeue_tail s = Some (p, s') \<and> cb_inv s' \<and> limit s' = limit s \<and>
      val_at s' p = x \<and> rev (items s') = xs"
    by (intro exI [of _ p] exI [of _ "(fst s, cb')"]) (cases s; simp add: same_geometry_def)
next
  fix s assume "rev (items s) = []"
  then show "circ_buf_dequeue_tail s = Some (NULL, s)"
    by (simp add: dequeue_empty)
qed

subsection \<open>Creating a buffer and looking into it\<close>

lemma init_ok:
  assumes "0 < unat capacity" and "unat capacity < 2 ^ 63"
    and "unat capacity * unat granularity < 2 ^ 64"
  shows "cb_inv (m, circ_buf_init buf capacity granularity)"
    and "items (m, circ_buf_init buf capacity granularity) = []"
  using assms by (simp_all add: cb_ok_def circ_buf_init_def)

lemma peekn_head_item:
  assumes "cb_inv (m, cb)" and "unat n < unat (cb_size cb)"
  shows "\<exists>p. circ_buf_peekn_head cb n = Some p \<and> val_at (m, cb) p = items (m, cb) ! unat n"
proof -
  let ?C = "unat (cb_capacity cb)" and ?H = "unat (cb_head cb)"
  have ok: "0 < ?C" "?C < 2 ^ 63" "?H < ?C" "unat (cb_size cb) \<le> ?C"
    using assms(1) by (simp_all add: cb_ok_def)
  then have "unat ((cb_head cb + n) mod cb_capacity cb) = (?H + unat n) mod ?C"
    using assms(2) by (simp add: unat_mod unat_word_ariths)
  moreover have "cb_capacity cb \<noteq> 0" using ok by auto
  ultimately show ?thesis
    using items_nth [OF assms(2), of m]
    by (simp add: circ_buf_peekn_head_def slot_ptr cb_entry_def del: items.simps)
qed

lemma peek_tail_item:
  assumes "cb_inv (m, cb)" and "items (m, cb) = xs @ [x]" and "cb_tail cb \<noteq> 0"
  shows "val_at (m, cb) (circ_buf_peek_tail cb) = x"
proof -
  let ?C = "unat (cb_capacity cb)" and ?H = "unat (cb_head cb)" and ?S = "unat (cb_size cb)"
  have ok: "0 < ?C" "unat (cb_tail cb) = (?H + ?S) mod ?C" "?S = Suc (length xs)"
    using assms(1) arg_cong [OF assms(2), of length] by (simp_all add: cb_ok_def)
  have "unat (cb_tail cb - 1) = unat (cb_tail cb) - 1" using assms(3) by (rule unat_minus_one)
  also have "\<dots> = (?H + length xs) mod ?C"
    using ok assms(3) unat_eq_0 [of "cb_tail cb"] by (simp add: mod_Suc split: if_splits)
  finally have t: "unat (cb_tail cb - 1) = (?H + length xs) mod ?C" .
  have "x = items (m, cb) ! length xs" using assms(2) by simp
  also have "\<dots> = cb_entry m cb ((?H + length xs) mod ?C)" using ok(3) by (intro items_nth) simp
  finally show ?thesis by (simp add: circ_buf_peek_tail_def slot_ptr t cb_entry_def)
qed

subsection \<open>The cursor walks the slots in a circle\<close>

definition cursor_at :: "circ_buf \<Rightarrow> circ_buf_ptr \<Rightarrow> nat \<Rightarrow> bool" where
  "cursor_at cb c j \<longleftrightarrow> c = circ_buf_ptr_init2 (cb_slot cb j) cb \<and> j < unat (cb_capacity cb)"

text \<open>The geometry the cursor needs: slots at different addresses.\<close>

definition cb_geometry :: "circ_buf \<Rightarrow> bool" where
  "cb_geometry cb \<longleftrightarrow> 0 < unat (cb_granularity cb) \<and>
     unat (cb_capacity cb) * unat (cb_granularity cb) < 2 ^ 64"

lemma slot_end: "cb_slot cb (unat (cb_capacity cb)) = cb_buf cb + cb_capacity cb * cb_granularity cb"
  by (simp add: cb_slot_def)

lemma slot_Suc: "cb_slot cb (Suc j) = cb_slot cb j + cb_granularity cb"
  by (simp add: cb_slot_def algebra_simps)

lemma slot_0: "cb_slot cb 0 = cb_buf cb"
  by (simp add: cb_slot_def)

lemma cb_slot_inject:
  assumes "cb_geometry cb" and "j \<le> unat (cb_capacity cb)" and "k \<le> unat (cb_capacity cb)"
  shows "cb_slot cb j = cb_slot cb k \<longleftrightarrow> j = k"
proof -
  have "i * unat (cb_granularity cb) < 2 ^ 64" if "i \<le> unat (cb_capacity cb)" for i
    using mult_right_mono [OF that, of "unat (cb_granularity cb)"] assms(1)
    unfolding cb_geometry_def by linarith
  then show ?thesis
    using assms ptr_add_eq_iff [of "j * unat (cb_granularity cb)" "k * unat (cb_granularity cb)" "cb_buf cb"]
    by (simp add: cb_slot_def cb_geometry_def del: of_nat_mult)
qed

lemma cursor_increment:
  assumes "cb_geometry cb" and "cursor_at cb c j"
  shows "cursor_at cb (circ_buf_ptr_increment c) ((j + 1) mod unat (cb_capacity cb))"
proof -
  let ?C = "unat (cb_capacity cb)"
  have c: "c = circ_buf_ptr_init2 (cb_slot cb j) cb" "j < ?C" using assms(2) by (auto simp: cursor_at_def)
  have "cb_slot cb (Suc j) = cb_slot cb ?C \<longleftrightarrow> Suc j = ?C"
    using cb_slot_inject [OF assms(1), of "Suc j" ?C] c(2) by simp
  then show ?thesis
    using c(2) mod_less [of "Suc j" ?C] slot_0 [of cb]
    by (cases "Suc j = ?C")
       (simp_all add: c(1) cursor_at_def circ_buf_ptr_increment_def circ_buf_ptr_init2_def
          circ_buf_ptr_init_def Let_def slot_end slot_Suc [symmetric] less_Suc_eq_le)
qed

lemma cursor_decrement:
  assumes "cb_geometry cb" and "cursor_at cb c j"
  shows "cursor_at cb (circ_buf_ptr_decrement c)
    ((j + (unat (cb_capacity cb) - 1)) mod unat (cb_capacity cb))"
proof -
  let ?C = "unat (cb_capacity cb)"
  have c: "c = circ_buf_ptr_init2 (cb_slot cb j) cb" "j < ?C" using assms(2) by (auto simp: cursor_at_def)
  have z: "cb_slot cb j = cb_buf cb \<longleftrightarrow> j = 0"
    using cb_slot_inject [OF assms(1), of j 0] c(2) by (simp add: slot_0)
  have pred_slot: "cb_slot cb (Suc i) - cb_granularity cb = cb_slot cb i" for i
    by (simp add: slot_Suc)
  show ?thesis
  proof (cases j)
    case 0
    have "Suc (?C - 1) = ?C" using c(2) by simp
    then show ?thesis
      using 0 c(2) z pred_slot [of "?C - 1"]
      by (simp add: c(1) cursor_at_def circ_buf_ptr_decrement_def circ_buf_ptr_init2_def
          circ_buf_ptr_init_def slot_end)
  next
    case (Suc i)
    then have "j + (?C - 1) = i + ?C" using c(2) by simp
    then show ?thesis
      using Suc c(2) z pred_slot [of i]
      by (simp add: c(1) cursor_at_def circ_buf_ptr_decrement_def circ_buf_ptr_init2_def
          circ_buf_ptr_init_def)
  qed
qed

lemma cursor_add:
  assumes "cb_geometry cb" and "cursor_at cb c j"
  shows "cursor_at cb (circ_buf_ptr_add c n) ((j + unat n) mod unat (cb_capacity cb))"
  unfolding circ_buf_ptr_add_def
proof (rule for_upto_invariant [where P = "\<lambda>k c. cursor_at cb c ((j + k) mod unat (cb_capacity cb))"])
  show "cursor_at cb c ((j + 0) mod unat (cb_capacity cb))"
    using assms(2) by (simp add: cursor_at_def)
next
  fix k t assume "cursor_at cb t ((j + k) mod unat (cb_capacity cb))"
  from cursor_increment [OF assms(1) this]
  show "cursor_at cb (circ_buf_ptr_increment t) ((j + Suc k) mod unat (cb_capacity cb))"
    by (simp add: mod_simps)
qed

lemma cursor_subtract:
  assumes "cb_geometry cb" and "cursor_at cb c j"
  shows "cursor_at cb (circ_buf_ptr_subtract c n)
    ((j + unat n * (unat (cb_capacity cb) - 1)) mod unat (cb_capacity cb))"
  unfolding circ_buf_ptr_subtract_def
proof (rule for_upto_invariant [where P = "\<lambda>k c. cursor_at cb c
    ((j + k * (unat (cb_capacity cb) - 1)) mod unat (cb_capacity cb))"])
  show "cursor_at cb c ((j + 0 * (unat (cb_capacity cb) - 1)) mod unat (cb_capacity cb))"
    using assms(2) by (simp add: cursor_at_def)
next
  fix k t assume "cursor_at cb t ((j + k * (unat (cb_capacity cb) - 1)) mod unat (cb_capacity cb))"
  from cursor_decrement [OF assms(1) this]
  show "cursor_at cb (circ_buf_ptr_decrement t)
      ((j + Suc k * (unat (cb_capacity cb) - 1)) mod unat (cb_capacity cb))"
    by (simp add: mod_simps ac_simps)
qed

lemma mod_walk_back:
  assumes "(0 :: nat) < c"
  shows "int ((j + n * (c - 1)) mod c) = (int j - int n) mod int c"
proof -
  have "int (j + n * (c - 1)) = int j - int n + int n * int c"
    using assms by (cases c) (simp_all add: algebra_simps)
  then show ?thesis by (simp only: zmod_int mod_mult_self1)
qed

text \<open>
  \<open>circ_buf_ptr_getoffset\<close> moves a cursor by any signed offset around the ring: from slot
  \<open>j\<close> it reaches slot \<open>(j + n) mod capacity\<close>, in both directions and over any number of turns.
\<close>
theorem circ_buf_ptr_getoffset_correct:
  assumes "cb_geometry cb" and "cursor_at cb c j" and "- (2 ^ 31) < n" and "n < 2 ^ 31"
  shows "circ_buf_ptr_getoffset c n =
    Some (cb_slot cb (nat ((int j + n) mod int (unat (cb_capacity cb)))))"
proof -
  let ?C = "unat (cb_capacity cb)"
  have C: "0 < ?C" using assms(2) by (auto simp: cursor_at_def)
  have ptr: "cp_ptr c' = cb_slot cb i" if "cursor_at cb c' i" for c' i
    using that by (simp add: cursor_at_def circ_buf_ptr_init2_def circ_buf_ptr_init_def)
  have copy: "circ_buf_ptr_init (cp_ptr c) (cp_buf c) (cp_capacity c) (cp_granularity c) = c"
    by (simp add: circ_buf_ptr_init_def)
  show ?thesis
  proof (cases "0 < n")
    case True
    then have "unat (word_of_int n :: u64) = nat n"
      using assms(4) by (simp add: unsigned_of_int take_bit_int_eq_self)
    moreover have "nat ((int j + n) mod int ?C) = (j + nat n) mod ?C"
      using True C by (simp add: nat_mod_distrib nat_add_distrib)
    ultimately show ?thesis
      using True ptr [OF cursor_add [OF assms(1,2)], of "word_of_int n"]
      by (simp add: circ_buf_ptr_getoffset_def copy)
  next
    case False
    then have "unat (word_of_int (- n) :: u64) = nat (- n)"
      using assms(3) by (simp add: unsigned_of_int take_bit_int_eq_self del: of_int_minus)
    moreover have "nat ((int j + n) mod int ?C) = (j + nat (- n) * (?C - 1)) mod ?C"
      using mod_walk_back [OF C, of j "nat (- n)"] False by simp
    ultimately show ?thesis
      using False assms(3) ptr [OF cursor_subtract [OF assms(1,2)], of "word_of_int (- n)"]
      by (simp add: circ_buf_ptr_getoffset_def copy del: of_int_minus)
  qed
qed

subsection \<open>Properties\<close>

text \<open>
  C4.  The ring buffer is a bounded deque of byte strings: enqueueing at either end adds the
  bytes the pointer denotes and, when the buffer is full, overwrites the element at the other
  end; nothing else changes and the invariant is kept.
\<close>
theorem circ_buf_enqueue_refines:
  assumes "cb_inv s" and "separate s p"
  shows "\<exists>s1 s2. circ_buf_enqueue s p = Some s1 \<and> cb_inv s1 \<and>
       items s1 = suffix_of (limit s) (items s @ [val_at s p]) \<and>
     circ_buf_push s p = Some s2 \<and> cb_inv s2 \<and>
       items s2 = take (limit s) (val_at s p # items s)"
  using circ_buf_enqueue_law [OF assms] circ_buf_push_law [OF assms] by blast

definition example_buffer :: cb_state where
  "example_buffer = (poke (\<lambda>_. 0) 8192 [1, 2, 3, 4, 5, 6, 7, 8], circ_buf_init 4096 2 2)"

lemma bytes_2: "bytes m p 2 = [m p, m (p + 1)]"
  and region_2: "region p 2 = {p, p + 1}"
  and region_4: "region p 4 = {p, p + 1, p + 2, p + 3}"
proof -
  have "{..<2 :: nat} = {0, 1}" "{..<4 :: nat} = {0, 1, 2, 3}" by auto
  then show "region p 2 = {p, p + 1}" "region p 4 = {p, p + 1, p + 2, p + 3}"
    by (simp_all add: region_def)
qed (simp add: bytes_def upt_rec)

lemma example_buffer_ok:
  "cb_inv example_buffer" "items example_buffer = []" "limit example_buffer = 2"
  "val_at example_buffer 8192 = [1, 2]" "val_at example_buffer 8194 = [3, 4]"
  "val_at example_buffer 8196 = [5, 6]"
  by (simp_all add: example_buffer_def cb_ok_def circ_buf_init_def bytes_2)

lemma example_buffer_separate:
  "separate example_buffer 8192" "separate example_buffer 8194" "separate example_buffer 8196"
  by (simp_all add: example_buffer_def circ_buf_init_def cb_region_def region_2 region_4)

theorem circ_buf_enqueue_refines_witness:
  "\<exists>s1 s2. circ_buf_enqueue example_buffer 8192 = Some s1 \<and> items s1 = [[1, 2]] \<and>
     circ_buf_push example_buffer 8192 = Some s2 \<and> items s2 = [[1, 2]]"
  using circ_buf_enqueue_refines [OF example_buffer_ok(1) example_buffer_separate(1)]
  by (auto simp: example_buffer_ok suffix_of_def)

text \<open>
  C5.  Dequeueing at either end of a well-formed buffer returns a pointer to the bytes of the
  first, respectively the last element and removes it; on an empty buffer it returns
  \<open>NULL\<close> and changes nothing.
\<close>
theorem circ_buf_dequeue_refines:
  assumes "cb_inv s"
  shows "(items s = [] \<longrightarrow> circ_buf_dequeue s = Some (NULL, s) \<and> circ_buf_dequeue_tail s = Some (NULL, s)) \<and>
     (items s \<noteq> [] \<longrightarrow>
       (\<exists>p s1. circ_buf_dequeue s = Some (p, s1) \<and> val_at s1 p = hd (items s) \<and>
          items s1 = tl (items s) \<and> cb_inv s1) \<and>
       (\<exists>p s2. circ_buf_dequeue_tail s = Some (p, s2) \<and> val_at s2 p = last (items s) \<and>
          items s2 = butlast (items s) \<and> cb_inv s2))"
proof (cases "items s = []")
  case True
  then show ?thesis by (simp add: dequeue_empty circ_buf_dequeue_def)
next
  case False
  then have "items s = hd (items s) # tl (items s)" and "items s = butlast (items s) @ [last (items s)]"
    by simp_all
  with dequeue_head_refines [OF assms] dequeue_tail_refines [OF assms] False
  show ?thesis unfolding circ_buf_dequeue_def by blast
qed

theorem circ_buf_dequeue_refines_witness:
  "circ_buf_dequeue example_buffer = Some (NULL, example_buffer)"
  using circ_buf_dequeue_refines [OF example_buffer_ok(1)] by (simp add: example_buffer_ok)

text \<open>
  C6.  A new buffer is a first-in first-out queue: any sequence of elements put in comes out in
  the order it went in, reduced to the last \<open>capacity\<close> of them, and then the buffer is empty.
\<close>
theorem circ_buf_fifo:
  assumes "cb_inv s" and "items s = []" and "\<forall>p\<in>set ps. separate s p"
  shows "\<exists>s1 s2. put_all circ_buf_enqueue ps s = Some s1 \<and>
     take_out circ_buf_dequeue val_at (min (length ps) (limit s)) s1 =
       Some (suffix_of (limit s) (map (val_at s) ps), s2) \<and>
     items s2 = [] \<and> circ_buf_dequeue s2 = Some (NULL, s2)"
  using fifo.fifo [OF assms refl] by blast

theorem circ_buf_fifo_witness:
  "\<exists>s1 s2. put_all circ_buf_enqueue [8192, 8194, 8196] example_buffer = Some s1 \<and>
     take_out circ_buf_dequeue val_at 2 s1 = Some ([[3, 4], [5, 6]], s2)"
  using circ_buf_fifo [OF example_buffer_ok(1,2), of "[8192, 8194, 8196]"]
  by (auto simp: example_buffer_ok example_buffer_separate suffix_of_def numeral_2_eq_2)

theorem circ_buf_ptr_getoffset_correct_witness:
  "circ_buf_ptr_getoffset (circ_buf_ptr_init 4102 4096 5 6) (- 3) = Some (4096 + 3 * 6)"
proof -
  let ?cb = "circ_buf_init 4096 5 6"
  have "cursor_at ?cb (circ_buf_ptr_init 4102 4096 5 6) 1"
    by (simp add: cursor_at_def circ_buf_ptr_init2_def circ_buf_ptr_init_def circ_buf_init_def cb_slot_def)
  moreover have "cb_geometry ?cb" by (simp add: cb_geometry_def circ_buf_init_def)
  ultimately show ?thesis
    using circ_buf_ptr_getoffset_correct [of ?cb _ 1 "- 3"]
    by (simp add: cb_slot_def circ_buf_init_def)
qed

subsection \<open>Well-formed buffers\<close>

text \<open>One call of an operation that changes the buffer, whatever pointer it is given.\<close>

inductive cb_step :: "cb_state \<Rightarrow> cb_state \<Rightarrow> bool" where
  enqueue_head: "circ_buf_enqueue_head s p = Some s' \<Longrightarrow> cb_step s s'"
| enqueue_tail: "circ_buf_enqueue_tail s p = Some s' \<Longrightarrow> cb_step s s'"
| dequeue_head: "circ_buf_dequeue_head s = Some (p, s') \<Longrightarrow> cb_step s s'"
| dequeue_tail: "circ_buf_dequeue_tail s = Some (p, s') \<Longrightarrow> cb_step s s'"

lemma inc_tail_ok:
  assumes "cb_ok cb" and "unat (cb_size cb) < unat (cb_capacity cb)"
  shows "cb_ok (cb\<lparr>cb_tail := (cb_tail cb + 1) mod cb_capacity cb, cb_size := cb_size cb + 1\<rparr>)"
proof -
  have "unat ((cb_tail cb + 1) mod cb_capacity cb) = (unat (cb_tail cb) + 1) mod unat (cb_capacity cb)"
    using assms by (intro mod_inc) (auto simp: cb_ok_def intro: order.strict_trans [OF mod_less_divisor])
  moreover have "unat (cb_size cb + 1) = Suc (unat (cb_size cb))" using size_inc [OF assms(2)] .
  ultimately show ?thesis using assms by (simp add: cb_ok_def mod_Suc_eq)
qed

lemma inc_both_ok:
  assumes "cb_ok cb"
  shows "cb_ok (cb\<lparr>cb_tail := (cb_tail cb + 1) mod cb_capacity cb, cb_head := (cb_head cb + 1) mod cb_capacity cb\<rparr>)"
proof -
  have "unat ((cb_tail cb + 1) mod cb_capacity cb) = (unat (cb_tail cb) + 1) mod unat (cb_capacity cb)"
    using assms by (intro mod_inc) (auto simp: cb_ok_def intro: order.strict_trans [OF mod_less_divisor])
  moreover have "unat ((cb_head cb + 1) mod cb_capacity cb) = (unat (cb_head cb) + 1) mod unat (cb_capacity cb)"
    using assms by (intro mod_inc) (auto simp: cb_ok_def)
  ultimately show ?thesis using assms by (simp add: cb_ok_def mod_Suc_eq mod_simps)
qed

lemma inc_head_ok:
  assumes "cb_ok cb" and "0 < cb_size cb"
  shows "cb_ok (cb\<lparr>cb_head := (cb_head cb + 1) mod cb_capacity cb, cb_size := cb_size cb - 1\<rparr>)"
proof -
  have "unat ((cb_head cb + 1) mod cb_capacity cb) = (unat (cb_head cb) + 1) mod unat (cb_capacity cb)"
    using assms by (intro mod_inc) (auto simp: cb_ok_def)
  moreover have "unat (cb_size cb - 1) = unat (cb_size cb) - 1" "0 < unat (cb_size cb)"
    using assms(2) size_dec [of "cb_size cb"] by (simp_all add: word_less_nat_alt)
  ultimately show ?thesis using assms by (cases "unat (cb_size cb)") (simp_all add: cb_ok_def mod_simps)
qed

lemma dec_value: "cb_ok cb \<Longrightarrow> unat x < unat (cb_capacity cb) \<Longrightarrow>
    unat ((x + cb_capacity cb - 1) mod cb_capacity cb) = (unat x + (unat (cb_capacity cb) - 1)) mod unat (cb_capacity cb)"
  using mod_dec [of x "cb_capacity cb"] by (simp add: cb_ok_def)

lemma dec_head_ok:
  assumes "cb_ok cb" and "unat (cb_size cb) < unat (cb_capacity cb)"
  shows "cb_ok (cb\<lparr>cb_head := (cb_head cb + cb_capacity cb - 1) mod cb_capacity cb, cb_size := cb_size cb + 1\<rparr>)"
proof -
  obtain k where k: "unat (cb_capacity cb) = Suc k" using assms(2) by (cases "unat (cb_capacity cb)") auto
  have "unat ((cb_head cb + cb_capacity cb - 1) mod cb_capacity cb) = (unat (cb_head cb) + k) mod Suc k"
    using dec_value [OF assms(1), of "cb_head cb"] assms(1) by (simp add: k cb_ok_def)
  moreover have "unat (cb_size cb + 1) = Suc (unat (cb_size cb))" using size_inc [OF assms(2)] .
  moreover have "((unat (cb_head cb) + k) mod Suc k + Suc (unat (cb_size cb))) mod Suc k =
      (unat (cb_head cb) + unat (cb_size cb) + Suc k) mod Suc k"
    by (simp only: mod_add_left_eq) (simp add: ac_simps)
  moreover have "(unat (cb_head cb) + unat (cb_size cb) + Suc k) mod Suc k = (unat (cb_head cb) + unat (cb_size cb)) mod Suc k"
    by (rule mod_add_self2)
  ultimately show ?thesis using assms by (simp add: cb_ok_def k)
qed

lemma dec_both_ok:
  assumes "cb_ok cb"
  shows "cb_ok (cb\<lparr>cb_head := (cb_head cb + cb_capacity cb - 1) mod cb_capacity cb,
    cb_tail := (cb_tail cb + cb_capacity cb - 1) mod cb_capacity cb\<rparr>)"
proof -
  obtain k where k: "unat (cb_capacity cb) = Suc k" using assms by (cases "unat (cb_capacity cb)") (auto simp: cb_ok_def)
  have "unat ((cb_head cb + cb_capacity cb - 1) mod cb_capacity cb) = (unat (cb_head cb) + k) mod Suc k"
    "unat ((cb_tail cb + cb_capacity cb - 1) mod cb_capacity cb) = (unat (cb_tail cb) + k) mod Suc k"
    using dec_value [OF assms, of "cb_head cb"] dec_value [OF assms, of "cb_tail cb"] assms by (simp_all add: k cb_ok_def)
  moreover have "((unat (cb_head cb) + unat (cb_size cb)) mod Suc k + k) mod Suc k =
      ((unat (cb_head cb) + k) mod Suc k + unat (cb_size cb)) mod Suc k"
    by (simp only: mod_add_left_eq) (simp add: ac_simps)
  ultimately show ?thesis using assms by (simp add: cb_ok_def k)
qed

lemma dec_tail_ok:
  assumes "cb_ok cb" and "0 < cb_size cb"
  shows "cb_ok (cb\<lparr>cb_tail := (cb_tail cb + cb_capacity cb - 1) mod cb_capacity cb, cb_size := cb_size cb - 1\<rparr>)"
proof -
  obtain k where k: "unat (cb_capacity cb) = Suc k" using assms by (cases "unat (cb_capacity cb)") (auto simp: cb_ok_def)
  obtain n where n: "unat (cb_size cb) = Suc n" using assms(2) by (cases "unat (cb_size cb)") (auto simp: word_less_nat_alt)
  have "unat ((cb_tail cb + cb_capacity cb - 1) mod cb_capacity cb) = (unat (cb_tail cb) + k) mod Suc k"
    using dec_value [OF assms(1), of "cb_tail cb"] assms by (simp add: k cb_ok_def)
  moreover have "unat (cb_size cb - 1) = n" using n size_dec [of "cb_size cb"] by simp
  moreover have "((unat (cb_head cb) + Suc n) mod Suc k + k) mod Suc k = (unat (cb_head cb) + n + Suc k) mod Suc k"
    by (simp only: mod_add_left_eq) (simp add: ac_simps)
  moreover have "(unat (cb_head cb) + n + Suc k) mod Suc k = (unat (cb_head cb) + n) mod Suc k" by (rule mod_add_self2)
  ultimately show ?thesis using assms n by (simp add: cb_ok_def k)
qed

text \<open>The stores of a value stay in the slots.\<close>

lemma store_in_region:
  assumes "a \<notin> cb_region cb" and "unat w < unat (cb_capacity cb)"
  shows "for_upto 0 (cb_granularity cb) (\<lambda>i m. m(cb_buf cb + (circ_buf_granular_index cb w + i) := m (val + i))) m a = m a"
proof (rule for_upto_invariant [where P = "\<lambda>k m'. m' a = m a"])
  fix k m' assume k: "k < unat (cb_granularity cb)" and "m' a = m a"
  have "cb_buf cb + (circ_buf_granular_index cb w + of_nat k) \<in> region (cb_slot cb (unat w)) (unat (cb_granularity cb))"
    unfolding slot_ptr [symmetric] add.assoc [symmetric] using k by (rule regionI)
  then have "a \<noteq> cb_buf cb + (circ_buf_granular_index cb w + of_nat k)"
    using assms slot_region [of "unat w" cb] by auto
  then show "(m'(cb_buf cb + (circ_buf_granular_index cb w + of_nat k) := m' (val + of_nat k))) a = m a"
    using \<open>m' a = m a\<close> by simp
qed simp

definition cb_kept :: "cb_state \<Rightarrow> cb_state \<Rightarrow> bool" where
  "cb_kept s s' \<longleftrightarrow> cb_ok (snd s') \<and> same_geometry (snd s) (snd s') \<and> (\<forall>a. a \<notin> cb_region (snd s) \<longrightarrow> fst s' a = fst s a)"

lemma cb_step_kept:
  assumes "cb_step s s'" and "cb_ok (snd s)"
  shows "cb_kept s s'"
proof -
  obtain m cb where s: "s = (m, cb)" by fastforce
  have c: "cb_capacity cb \<noteq> 0" "unat (cb_tail cb) < unat (cb_capacity cb)"
    "cb_size cb < cb_capacity cb \<longleftrightarrow> unat (cb_size cb) < unat (cb_capacity cb)"
    "unat ((cb_head cb + cb_capacity cb - 1) mod cb_capacity cb) < unat (cb_capacity cb)"
    using assms(2) by (auto simp: s cb_ok_def word_less_nat_alt unat_mod)
  note ok = assms(2) [unfolded s snd_conv]
  show ?thesis using assms(1)
  proof cases
    case (enqueue_head p)
    then show ?thesis
      using c dec_head_ok [OF ok] dec_both_ok [OF ok] store_in_region [of _ "cb\<lparr>cb_head := (cb_head cb + cb_capacity cb - 1) mod cb_capacity cb\<rparr>"]
      by (auto simp: s cb_kept_def same_geometry_def circ_buf_decrement_head_def circ_buf_decrement_tail_def cb_region_def Let_def split: if_splits)
  next
    case (enqueue_tail p)
    then show ?thesis
      using c inc_tail_ok [OF ok] inc_both_ok [OF ok] store_in_region [of _ cb]
      by (auto simp: s cb_kept_def same_geometry_def circ_buf_increment_head_def circ_buf_increment_tail_def cb_region_def Let_def split: if_splits)
  next
    case (dequeue_head p)
    then show ?thesis
      using c inc_head_ok [OF ok] ok
      by (auto simp: s cb_kept_def same_geometry_def circ_buf_increment_head_def Let_def split: if_splits)
  next
    case (dequeue_tail p)
    then show ?thesis
      using c dec_tail_ok [OF ok] ok
      by (auto simp: s cb_kept_def same_geometry_def circ_buf_decrement_tail_def Let_def split: if_splits)
  qed
qed


lemma cb_steps_kept:
  assumes "cb_step\<^sup>*\<^sup>* s s'" and "cb_ok (snd s)"
  shows "cb_kept s s'"
  using assms(1)
proof induction
  case base
  then show ?case using assms(2) by (simp add: cb_kept_def same_geometry_def)
next
  case (step t u)
  then have "cb_kept t u" by (intro cb_step_kept) (simp_all add: cb_kept_def)
  with step.IH show ?case by (auto simp: cb_kept_def same_geometry_def cb_region_def)
qed

text \<open>
  C33.  Ring buffers are type safe: whatever calls have been made since \<open>circ_buf_init\<close>, with whatever
  pointers, the head and the size are in their range, the tail is where they say, the storage and
  the geometry are those of the initialisation, no byte outside the storage has been written, and
  the next call of any operation succeeds; the pointers that come out point to a slot or are NULL.
\<close>
theorem circ_buf_type_safe:
  assumes "0 < unat capacity" and "unat capacity < 2 ^ 63" and "unat capacity * unat granularity < 2 ^ 64"
    and "cb_step\<^sup>*\<^sup>* (m, circ_buf_init buf capacity granularity) (m', cb)"
  shows "cb_ok cb \<and> cb_buf cb = buf \<and> cb_capacity cb = capacity \<and> cb_granularity cb = granularity \<and>
    (\<forall>a. a \<notin> region buf (unat capacity * unat granularity) \<longrightarrow> m' a = m a) \<and>
    (\<forall>p. (\<exists>s. circ_buf_enqueue_head (m', cb) p = Some s) \<and> (\<exists>s. circ_buf_enqueue_tail (m', cb) p = Some s)) \<and>
    (\<exists>p s. circ_buf_dequeue_head (m', cb) = Some (p, s) \<and> (p = NULL \<or> (\<exists>j<unat capacity. p = cb_slot cb j))) \<and>
    (\<exists>p s. circ_buf_dequeue_tail (m', cb) = Some (p, s) \<and> (p = NULL \<or> (\<exists>j<unat capacity. p = cb_slot cb j)))"
proof -
  have "cb_kept (m, circ_buf_init buf capacity granularity) (m', cb)"
    by (rule cb_steps_kept [OF assms(4)]) (use init_ok [OF assms(1-3)] in simp)
  then have k: "cb_ok cb" "cb_buf cb = buf" "cb_capacity cb = capacity" "cb_granularity cb = granularity"
    "\<forall>a. a \<notin> region buf (unat capacity * unat granularity) \<longrightarrow> m' a = m a"
    by (simp_all add: cb_kept_def same_geometry_def cb_region_def circ_buf_init_def)
  have c: "capacity \<noteq> 0" "unat (cb_head cb) < unat capacity"
    "unat ((cb_tail cb + capacity - 1) mod capacity) < unat capacity"
    using k(1,3) assms(1) by (auto simp: cb_ok_def unat_mod)
  have "cb_slot (cb\<lparr>cb_tail := t\<rparr>) j = cb_slot cb j" for t j by (simp add: cb_slot_def)
  then show ?thesis
    using k c by (auto simp: circ_buf_decrement_head_def circ_buf_decrement_tail_def circ_buf_increment_head_def
        circ_buf_increment_tail_def Let_def slot_ptr)
qed

text \<open>A buffer of two bytes after three calls that add the byte at address 100.\<close>

theorem circ_buf_type_safe_witness:
  "\<exists>cb m. cb_step\<^sup>*\<^sup>* (\<lambda>_. 7, circ_buf_init 0x1000 2 1) (m, cb) \<and> cb_ok cb \<and> cb_size cb = 2 \<and> m 0x1002 = 7"
proof -
  let ?s = "(\<lambda>_. 7, circ_buf_init 0x1000 2 1)"
  obtain s1 s2 s3 where s: "circ_buf_enqueue_tail ?s 100 = Some s1" "circ_buf_enqueue_tail s1 100 = Some s2"
      "circ_buf_enqueue_tail s2 100 = Some s3" "cb_size (snd s3) = 2"
    by (simp add: circ_buf_increment_tail_def circ_buf_increment_head_def circ_buf_init_def Let_def)
  then have "cb_step ?s s1" "cb_step s1 s2" "cb_step s2 s3" by (blast intro: cb_step.enqueue_tail)+
  then have r: "cb_step\<^sup>*\<^sup>* ?s (fst s3, snd s3)" by simp
  have "(0x1002 :: ptr) \<notin> region 0x1000 (unat (2 :: u64) * unat (1 :: u64))" by (simp add: region_iff)
  then show ?thesis using circ_buf_type_safe [OF _ _ _ r] s(4) r by (intro exI [of _ "snd s3"] exI [of _ "fst s3"]) simp
qed

end
