(* ===== verification/Dll.thy ===== *)
theory Dll
  imports Prelude
begin

text \<open>
  The doubly linked lists of \<open>libc/sys/dll.c\<close>.  A node is named by its address; the fields of
  all nodes and of all list heads are maps from addresses (distinct fields of distinct structs do
  not overlap).  The functions that \<open>assert\<close> return a \<open>result\<close>.

  \<open>dll_ok s q xs\<close> says that the list head at \<open>q\<close> represents the node sequence \<open>xs\<close>; each
  operation is shown to act on that sequence as its name says, and to leave every other list
  alone.
\<close>

subsection \<open>State and operations\<close>

record dll_state =
  nd_prev :: "ptr \<Rightarrow> ptr"
  nd_next :: "ptr \<Rightarrow> ptr"
  nd_list :: "ptr \<Rightarrow> ptr"
  ls_head :: "ptr \<Rightarrow> ptr"
  ls_tail :: "ptr \<Rightarrow> ptr"
  ls_size :: "ptr \<Rightarrow> u32"

definition set_prev :: "ptr \<Rightarrow> ptr \<Rightarrow> dll_state \<Rightarrow> dll_state" where
  "set_prev n p s = s\<lparr>nd_prev := (nd_prev s)(n := p)\<rparr>"

definition set_next :: "ptr \<Rightarrow> ptr \<Rightarrow> dll_state \<Rightarrow> dll_state" where
  "set_next n p s = s\<lparr>nd_next := (nd_next s)(n := p)\<rparr>"

definition set_list :: "ptr \<Rightarrow> ptr \<Rightarrow> dll_state \<Rightarrow> dll_state" where
  "set_list n q s = s\<lparr>nd_list := (nd_list s)(n := q)\<rparr>"

definition set_head :: "ptr \<Rightarrow> ptr \<Rightarrow> dll_state \<Rightarrow> dll_state" where
  "set_head q n s = s\<lparr>ls_head := (ls_head s)(q := n)\<rparr>"

definition set_tail :: "ptr \<Rightarrow> ptr \<Rightarrow> dll_state \<Rightarrow> dll_state" where
  "set_tail q n s = s\<lparr>ls_tail := (ls_tail s)(q := n)\<rparr>"

definition set_size :: "ptr \<Rightarrow> u32 \<Rightarrow> dll_state \<Rightarrow> dll_state" where
  "set_size q k s = s\<lparr>ls_size := (ls_size s)(q := k)\<rparr>"

named_theorems dll_sets "the field updates of list nodes and heads"

lemmas [dll_sets] = set_prev_def set_next_def set_list_def set_head_def set_tail_def set_size_def

definition dll_link :: "ptr \<Rightarrow> ptr \<Rightarrow> dll_state \<Rightarrow> dll_state" where
  "dll_link node1 node2 s = set_prev node2 node1 (set_next node1 node2 s)"

definition dll_add_only :: "ptr \<Rightarrow> ptr \<Rightarrow> dll_state \<Rightarrow> dll_state" where
  "dll_add_only queue node s =
     set_size queue 1 (set_list node queue (set_next node NULL (set_prev node NULL
       (set_tail queue node (set_head queue node s)))))"

definition dll_add_head :: "ptr \<Rightarrow> ptr \<Rightarrow> dll_state \<Rightarrow> ptr \<times> dll_state" where
  "dll_add_head queue node s =
     (node,
      if ls_size s queue = 0 then dll_add_only queue node s
      else (let s = dll_link node (ls_head s queue) s;
                s = set_head queue node s;
                s = set_list node queue s;
                s = set_prev node NULL s
            in set_size queue (ls_size s queue + 1) s))"

definition dll_add_tail :: "ptr \<Rightarrow> ptr \<Rightarrow> dll_state \<Rightarrow> ptr \<times> dll_state" where
  "dll_add_tail queue node s =
     (node,
      if ls_size s queue = 0 then dll_add_only queue node s
      else (let s = dll_link (ls_tail s queue) node s;
                s = set_tail queue node s;
                s = set_list node queue s;
                s = set_next node NULL s
            in set_size queue (ls_size s queue + 1) s))"

definition dll_add_before :: "ptr \<Rightarrow> ptr \<Rightarrow> dll_state \<Rightarrow> (ptr \<times> dll_state) result" where
  "dll_add_before ref_node node s =
     (let queue = nd_list s ref_node
      in kassert (queue \<noteq> NULL) ''Node does not belong to a queue.''
           (if ls_head s queue = ref_node then Inr (dll_add_head queue node s)
            else (let s = dll_link (nd_prev s ref_node) node s;
                      s = dll_link node ref_node s;
                      s = set_list node queue s
                  in Inr (node, set_size queue (ls_size s queue + 1) s))))"

definition dll_add_after :: "ptr \<Rightarrow> ptr \<Rightarrow> dll_state \<Rightarrow> (ptr \<times> dll_state) result" where
  "dll_add_after ref_node node s =
     (let queue = nd_list s ref_node
      in kassert (queue \<noteq> NULL) ''Node does not belong to a queue.''
           (if ls_tail s queue = ref_node then Inr (dll_add_tail queue node s)
            else (let s = dll_link node (nd_next s ref_node) s;
                      s = dll_link ref_node node s;
                      s = set_list node queue s
                  in Inr (node, set_size queue (ls_size s queue + 1) s))))"

definition dll_clear :: "ptr \<Rightarrow> dll_state \<Rightarrow> dll_state" where
  "dll_clear queue s = set_size queue 0 (set_tail queue NULL (set_head queue NULL s))"

definition dll_remove_head :: "ptr \<Rightarrow> dll_state \<Rightarrow> (ptr \<times> dll_state) result" where
  "dll_remove_head queue s =
     kassert (ls_size s queue \<noteq> 0) ''Cannot remove head from an empty queue''
       (if ls_size s queue = 1 then Inr (ls_head s queue, dll_clear queue s)
        else (let n = ls_head s queue;
                  s = set_head queue (nd_next s (ls_head s queue)) s;
                  s = set_prev (ls_head s queue) NULL s
              in Inr (n, set_size queue (ls_size s queue - 1) s)))"

definition dll_remove_tail :: "ptr \<Rightarrow> dll_state \<Rightarrow> (ptr \<times> dll_state) result" where
  "dll_remove_tail queue s =
     kassert (ls_size s queue \<noteq> 0) ''Cannot remove tail from an empty queue''
       (if ls_size s queue = 1 then Inr (ls_head s queue, dll_clear queue s)
        else (let n = ls_tail s queue;
                  s = set_tail queue (nd_prev s (ls_tail s queue)) s;
                  s = set_next (ls_tail s queue) NULL s
              in Inr (n, set_size queue (ls_size s queue - 1) s)))"

definition dll_remove :: "ptr \<Rightarrow> dll_state \<Rightarrow> (ptr \<times> dll_state) result" where
  "dll_remove node s =
     (let queue = nd_list s node
      in kassert (queue \<noteq> NULL) ''Node does not belong to a queue.''
           (if ls_head s queue = node then dll_remove_head queue s
            else if ls_tail s queue = node then dll_remove_tail queue s
            else (let s = dll_link (nd_prev s node) (nd_next s node) s
                  in Inr (node, set_size queue (ls_size s queue - 1) s))))"

subsection \<open>The sequence a list represents\<close>

definition hd_or :: "'a list \<Rightarrow> 'a \<Rightarrow> 'a" where
  "hd_or xs n = (case xs of [] \<Rightarrow> n | x # _ \<Rightarrow> x)"

definition last_or :: "'a \<Rightarrow> 'a list \<Rightarrow> 'a" where
  "last_or p xs = (if xs = [] then p else last xs)"

lemma hd_or_simps [simp]: "hd_or [] n = n" "hd_or (x # xs) n = x"
  and last_or_simps [simp]: "last_or p [] = p" "last_or p (xs @ [x]) = x"
  by (simp_all add: hd_or_def last_or_def)

lemma last_or_Cons [simp]: "last_or p (x # xs) = last_or x xs"
  by (simp add: last_or_def)

lemma hd_or_append [simp]: "hd_or (xs @ ys) n = hd_or xs (hd_or ys n)"
  by (cases xs) simp_all

lemma last_or_append [simp]: "last_or p (xs @ ys) = last_or (last_or p xs) ys"
  by (simp add: last_or_def)

fun dseg :: "dll_state \<Rightarrow> ptr \<Rightarrow> ptr list \<Rightarrow> ptr \<Rightarrow> bool" where
  "dseg s p [] n \<longleftrightarrow> True"
| "dseg s p (x # xs) n \<longleftrightarrow> nd_prev s x = p \<and> nd_next s x = hd_or xs n \<and> dseg s x xs n"

lemma dseg_append:
  "dseg s p (xs @ ys) n \<longleftrightarrow> dseg s p xs (hd_or ys n) \<and> dseg s (last_or p xs) ys n"
  by (induction xs arbitrary: p) auto

lemma dseg_cong:
  "(\<And>x. x \<in> set xs \<Longrightarrow> nd_prev t x = nd_prev s x \<and> nd_next t x = nd_next s x) \<Longrightarrow>
   dseg t p xs n = dseg s p xs n"
  by (induction xs arbitrary: p) auto

definition dll_ok :: "dll_state \<Rightarrow> ptr \<Rightarrow> ptr list \<Rightarrow> bool" where
  "dll_ok s q xs \<longleftrightarrow>
     q \<noteq> NULL \<and> distinct xs \<and> NULL \<notin> set xs \<and> length xs < 2 ^ 32 \<and>
     ls_size s q = of_nat (length xs) \<and>
     ls_head s q = hd_or xs NULL \<and> ls_tail s q = last_or NULL xs \<and>
     dseg s NULL xs NULL \<and> (\<forall>x\<in>set xs. nd_list s x = q)"

text \<open>Operations on one list do not touch another: its nodes belong to it alone.\<close>

definition others_kept :: "dll_state \<Rightarrow> dll_state \<Rightarrow> ptr \<Rightarrow> ptr set \<Rightarrow> bool" where
  "others_kept s s' q ns \<longleftrightarrow>
     (\<forall>q' ys. q' \<noteq> q \<longrightarrow> dll_ok s q' ys \<longrightarrow> set ys \<inter> ns = {} \<longrightarrow> dll_ok s' q' ys)"

lemma size_eq_0_iff: "dll_ok s q xs \<Longrightarrow> ls_size s q = 0 \<longleftrightarrow> xs = []"
  and size_eq_1_iff: "dll_ok s q xs \<Longrightarrow> ls_size s q = 1 \<longleftrightarrow> length xs = 1"
proof -
  assume "dll_ok s q xs"
  then have "unat (ls_size s q) = length xs" by (simp add: dll_ok_def unat_of_nat take_bit_nat_eq_self)
  then show "ls_size s q = 0 \<longleftrightarrow> xs = []" "ls_size s q = 1 \<longleftrightarrow> length xs = 1"
    by (metis length_0_conv unat_0 unsigned_word_eqI, metis unat_1 unsigned_word_eqI)
qed

text \<open>
  An operation that changes node fields only at nodes of its own list, at the node it is given,
  and head fields only at its own list keeps the others.
\<close>

lemma others_keptI:
  assumes "\<And>q'. q' \<noteq> q \<Longrightarrow> ls_head s' q' = ls_head s q' \<and> ls_tail s' q' = ls_tail s q' \<and> ls_size s' q' = ls_size s q'"
    and "\<And>x. x \<notin> ns \<Longrightarrow> nd_list s x \<noteq> q \<Longrightarrow>
      nd_prev s' x = nd_prev s x \<and> nd_next s' x = nd_next s x \<and> nd_list s' x = nd_list s x"
  shows "others_kept s s' q ns"
  unfolding others_kept_def
proof (intro allI impI)
  fix q' ys assume a: "q' \<noteq> q" "dll_ok s q' ys" "set ys \<inter> ns = {}"
  then have k: "nd_prev s' x = nd_prev s x \<and> nd_next s' x = nd_next s x \<and> nd_list s' x = nd_list s x"
    if "x \<in> set ys" for x
    using assms(2) [of x] that by (auto simp: dll_ok_def)
  then have "dseg s' NULL ys NULL = dseg s NULL ys NULL" by (intro dseg_cong) auto
  then show "dll_ok s' q' ys" using a assms(1) [of q'] k by (auto simp: dll_ok_def)
qed

lemma add_only_ok:
  assumes "q \<noteq> NULL" and "n \<noteq> NULL"
  shows "dll_ok (dll_add_only q n s) q [n]"
  using assms by (simp add: dll_ok_def dll_add_only_def dll_sets)

lemma add_head_ok:
  assumes "dll_ok s q xs" and "n \<noteq> NULL" and "n \<notin> set xs" and "Suc (length xs) < 2 ^ 32"
  shows "dll_ok (snd (dll_add_head q n s)) q (n # xs)"
proof (cases xs)
  case Nil
  then show ?thesis
    using assms size_eq_0_iff [OF assms(1)] add_only_ok by (simp add: dll_add_head_def dll_ok_def)
next
  case (Cons x ys)
  let ?t = "snd (dll_add_head q n s)"
  have ne: "x \<notin> set ys" "n \<noteq> x" "n \<notin> set ys" "ls_head s q = x"
    using assms(1,3) Cons by (simp_all add: dll_ok_def)
  have t: "?t = set_size q (ls_size s q + 1) (set_prev n NULL (set_list n q
      (set_head q n (dll_link n x s))))"
    using Cons ne size_eq_0_iff [OF assms(1)] by (simp add: dll_add_head_def Let_def dll_link_def dll_sets)
  have "dseg ?t x ys NULL = dseg s x ys NULL"
    using ne by (intro dseg_cong) (auto simp: t dll_link_def dll_sets)
  then show ?thesis
    using assms ne Cons by (simp add: t dll_ok_def dll_link_def dll_sets)
qed

lemma add_tail_ok:
  assumes "dll_ok s q xs" and "n \<noteq> NULL" and "n \<notin> set xs" and "Suc (length xs) < 2 ^ 32"
  shows "dll_ok (snd (dll_add_tail q n s)) q (xs @ [n])"
proof (cases xs rule: rev_cases)
  case Nil
  then show ?thesis
    using assms size_eq_0_iff [OF assms(1)] add_only_ok by (simp add: dll_add_tail_def dll_ok_def)
next
  case (snoc ys x)
  let ?t = "snd (dll_add_tail q n s)"
  have ne: "x \<notin> set ys" "n \<noteq> x" "n \<notin> set ys" using assms(1,3) snoc by (auto simp: dll_ok_def)
  have t: "?t = set_size q (ls_size s q + 1) (set_next n NULL (set_list n q
      (set_tail q n (dll_link (ls_tail s q) n s))))"
    using snoc size_eq_0_iff [OF assms(1)] by (simp add: dll_add_tail_def Let_def dll_link_def dll_sets)
  have "dseg ?t NULL ys x = dseg s NULL ys x"
    using ne assms(1) snoc by (intro dseg_cong) (auto simp: t dll_link_def dll_sets dll_ok_def)
  then show ?thesis
    using assms ne snoc
    by (simp add: t dll_ok_def dll_link_def dll_sets dseg_append)
qed

lemma hd_or_in: "hd_or xs x \<in> insert x (set xs)"
  and last_or_in: "last_or x xs \<in> insert x (set xs)"
  by (simp_all add: hd_or_def last_or_def split: list.splits)

lemma add_before_ok:
  assumes "dll_ok s q (xs @ r # ys)" and "n \<noteq> NULL" and "n \<notin> set (xs @ r # ys)"
    and "Suc (length (xs @ r # ys)) < 2 ^ 32"
  shows "\<exists>t. dll_add_before r n s = Inr (n, t) \<and> dll_ok t q (xs @ n # r # ys)"
proof (cases xs rule: rev_cases)
  case Nil
  have "nd_list s r = q" "ls_head s q = r" "q \<noteq> NULL" using assms(1) Nil by (simp_all add: dll_ok_def)
  then have "dll_add_before r n s = Inr (dll_add_head q n s)" by (simp add: dll_add_before_def)
  then show ?thesis
    using add_head_ok [of s q "r # ys" n] assms Nil by (simp add: dll_add_head_def)
next
  case (snoc zs x)
  have f: "nd_list s r = q" "ls_head s q \<noteq> r" "q \<noteq> NULL" "nd_prev s r = x" "x \<noteq> r"
    "x \<notin> set zs" "x \<notin> set ys" "r \<notin> set zs" "r \<notin> set ys" "n \<noteq> x" "n \<noteq> r" "n \<notin> set zs" "n \<notin> set ys"
  proof -
    show g: "nd_list s r = q" "q \<noteq> NULL" "nd_prev s r = x" "x \<noteq> r"
      "x \<notin> set zs" "x \<notin> set ys" "r \<notin> set zs" "r \<notin> set ys" "n \<noteq> x" "n \<noteq> r" "n \<notin> set zs" "n \<notin> set ys"
      using assms(1,3) snoc by (simp_all add: dll_ok_def dseg_append)
    have "ls_head s q = hd_or zs x" using assms(1) snoc by (simp add: dll_ok_def)
    then show "ls_head s q \<noteq> r" using g hd_or_in [of zs x] by auto
  qed
  define t where "t = set_size q (ls_size s q + 1) (set_list n q (dll_link n r (dll_link x n s)))"
  have e: "dll_add_before r n s = Inr (n, t)"
    using f by (simp add: dll_add_before_def t_def Let_def dll_link_def dll_sets)
  have "dseg t NULL zs x = dseg s NULL zs x" "dseg t r ys NULL = dseg s r ys NULL"
    using f by (intro dseg_cong; auto simp: t_def dll_link_def dll_sets)+
  then have "dll_ok t q (xs @ n # r # ys)"
    using assms f snoc by (simp add: t_def dll_ok_def dll_link_def dll_sets dseg_append)
  with e show ?thesis by blast
qed

lemma add_after_ok:
  assumes "dll_ok s q (xs @ r # ys)" and "n \<noteq> NULL" and "n \<notin> set (xs @ r # ys)"
    and "Suc (length (xs @ r # ys)) < 2 ^ 32"
  shows "\<exists>t. dll_add_after r n s = Inr (n, t) \<and> dll_ok t q (xs @ r # n # ys)"
proof (cases ys)
  case Nil
  have "nd_list s r = q" "ls_tail s q = r" "q \<noteq> NULL" using assms(1) Nil by (simp_all add: dll_ok_def)
  then have "dll_add_after r n s = Inr (dll_add_tail q n s)" by (simp add: dll_add_after_def)
  then show ?thesis
    using add_tail_ok [of s q "xs @ [r]" n] assms Nil by (simp add: dll_add_tail_def)
next
  case (Cons y zs)
  have f: "nd_list s r = q" "ls_tail s q \<noteq> r" "q \<noteq> NULL" "nd_next s r = y" "y \<noteq> r"
    "y \<notin> set zs" "y \<notin> set xs" "r \<notin> set zs" "r \<notin> set xs" "n \<noteq> y" "n \<noteq> r" "n \<notin> set zs" "n \<notin> set xs"
  proof -
    show g: "nd_list s r = q" "q \<noteq> NULL" "nd_next s r = y" "y \<noteq> r"
      "y \<notin> set zs" "y \<notin> set xs" "r \<notin> set zs" "r \<notin> set xs" "n \<noteq> y" "n \<noteq> r" "n \<notin> set zs" "n \<notin> set xs"
    proof -
      have d: "distinct (xs @ r # y # zs)" "dseg s NULL (xs @ r # y # zs) NULL" "q \<noteq> NULL"
        "nd_list s r = q"
        using assms(1) unfolding Cons dll_ok_def by auto
      show "nd_next s r = y" using d(2) by (simp add: dseg_append)
      show "nd_list s r = q" "q \<noteq> NULL" by fact+
      show "y \<noteq> r" "y \<notin> set zs" "y \<notin> set xs" "r \<notin> set zs" "r \<notin> set xs" using d(1) by auto
      show "n \<noteq> y" "n \<noteq> r" "n \<notin> set zs" "n \<notin> set xs" using assms(3) unfolding Cons by auto
    qed
    have "ls_tail s q = last_or y zs" using assms(1) Cons by (simp add: dll_ok_def)
    then show "ls_tail s q \<noteq> r" using g last_or_in [of y zs] by auto
  qed
  define t where "t = set_size q (ls_size s q + 1) (set_list n q (dll_link r n (dll_link n y s)))"
  have e: "dll_add_after r n s = Inr (n, t)"
    using f by (simp add: dll_add_after_def t_def Let_def dll_link_def dll_sets)
  have "dseg t NULL xs r = dseg s NULL xs r" "dseg t y zs NULL = dseg s y zs NULL"
    using f by (intro dseg_cong; auto simp: t_def dll_link_def dll_sets)+
  then have "dll_ok t q (xs @ r # n # ys)"
    using assms f Cons by (simp add: t_def dll_ok_def dll_link_def dll_sets dseg_append)
  with e show ?thesis by blast
qed

lemma dll_okD:
  assumes "dll_ok s q xs"
  shows "distinct xs" and "q \<noteq> NULL" and "NULL \<notin> set xs" and "dseg s NULL xs NULL"
    and "x \<in> set xs \<Longrightarrow> nd_list s x = q"
    and "ls_head s q = hd_or xs NULL" and "ls_tail s q = last_or NULL xs"
  using assms by (simp_all add: dll_ok_def)

lemma clear_ok:
  assumes "q \<noteq> NULL"
  shows "dll_ok (dll_clear q s) q []"
  using assms by (simp add: dll_ok_def dll_clear_def dll_sets)

lemma remove_head_ok:
  assumes "dll_ok s q (x # xs)"
  shows "\<exists>t. dll_remove_head q s = Inr (x, t) \<and> dll_ok t q xs"
proof (cases xs)
  case Nil
  then show ?thesis
    using size_eq_0_iff [OF assms] size_eq_1_iff [OF assms] dll_okD [OF assms] clear_ok [of q s]
    by (simp add: dll_remove_head_def)
next
  case (Cons y ys)
  have ne: "x \<noteq> y" "x \<notin> set ys" "y \<notin> set ys" using dll_okD(1) [OF assms] Cons by auto
  define t where "t = set_size q (ls_size s q - 1) (set_prev y NULL (set_head q y s))"
  have h: "ls_head s q = x" "nd_next s x = y" using dll_okD(4,6) [OF assms] Cons by simp_all
  have e: "dll_remove_head q s = Inr (x, t)"
    using Cons size_eq_0_iff [OF assms] size_eq_1_iff [OF assms] h
    by (simp add: dll_remove_head_def t_def Let_def dll_sets)
  have "dseg t y ys NULL = dseg s y ys NULL"
    using ne by (intro dseg_cong) (auto simp: t_def dll_sets)
  then have "dll_ok t q xs" using assms ne Cons by (simp add: t_def dll_ok_def dll_sets)
  with e show ?thesis by blast
qed

lemma remove_tail_ok:
  assumes "dll_ok s q (xs @ [x])"
  shows "\<exists>t. dll_remove_tail q s = Inr (x, t) \<and> dll_ok t q xs"
proof (cases xs rule: rev_cases)
  case Nil
  then show ?thesis
    using size_eq_0_iff [OF assms] size_eq_1_iff [OF assms] dll_okD [OF assms] clear_ok [of q s]
    by (simp add: dll_remove_tail_def)
next
  case (snoc ys y)
  have ne: "x \<noteq> y" "x \<notin> set ys" "y \<notin> set ys" using dll_okD(1) [OF assms] snoc by auto
  define t where "t = set_size q (ls_size s q - 1) (set_next y NULL (set_tail q y s))"
  have h: "ls_tail s q = x" "nd_prev s x = y"
    using dll_okD(4,7) [OF assms] snoc by (simp_all add: dseg_append)
  have e: "dll_remove_tail q s = Inr (x, t)"
    using snoc size_eq_0_iff [OF assms] size_eq_1_iff [OF assms] h
    by (simp add: dll_remove_tail_def t_def Let_def dll_sets)
  have "dseg t NULL ys y = dseg s NULL ys y"
    using ne by (intro dseg_cong) (auto simp: t_def dll_sets)
  then have "dll_ok t q xs"
    using assms ne snoc by (simp add: t_def dll_ok_def dll_sets dseg_append)
  with e show ?thesis by blast
qed

lemma remove_ok:
  assumes "dll_ok s q (xs @ x # ys)"
  shows "\<exists>t. dll_remove x s = Inr (x, t) \<and> dll_ok t q (xs @ ys)"
proof -
  have l: "nd_list s x = q" "q \<noteq> NULL" using dll_okD [OF assms] by simp_all
  have d: "distinct (xs @ x # ys)" using assms by (rule dll_okD)
  consider "xs = []" | "xs \<noteq> []" "ys = []" | x' xs' y' ys' where "xs = xs' @ [x']" "ys = y' # ys'"
    by (metis list.exhaust rev_exhaust)
  then show ?thesis
  proof cases
    case 1
    then have "dll_remove x s = dll_remove_head q s"
      using l dll_okD(6) [OF assms] by (simp add: dll_remove_def)
    then show ?thesis using remove_head_ok [of s q x ys] assms 1 by simp
  next
    case 2
    have "hd_or xs x \<noteq> x" using d 2(1) by (cases xs) auto
    then have "dll_remove x s = dll_remove_tail q s"
      using l dll_okD(6,7) [OF assms] 2 by (simp add: dll_remove_def)
    then show ?thesis using remove_tail_ok [of s q xs x] assms 2 by simp
  next
    case (3 x' xs' y' ys')
    have ne: "x' \<noteq> x" "y' \<noteq> x" "x' \<notin> set xs'" "x' \<notin> set ys'" "y' \<notin> set xs'" "y' \<notin> set ys'"
      "x' \<noteq> y'" "x \<notin> set xs'" "x \<notin> set ys'"
      using d 3 by auto
    have h: "ls_head s q = hd_or xs' x'" "ls_tail s q = last_or y' ys'" "nd_prev s x = x'" "nd_next s x = y'"
      using dll_okD(4,6,7) [OF assms] 3 by (simp_all add: dseg_append)
    have "hd_or xs' x' \<noteq> x" "last_or y' ys' \<noteq> x"
      using ne hd_or_in [of xs' x'] last_or_in [of y' ys'] by auto
    define t where "t = set_size q (ls_size s q - 1) (dll_link x' y' s)"
    have e: "dll_remove x s = Inr (x, t)"
      using l h \<open>hd_or xs' x' \<noteq> x\<close> \<open>last_or y' ys' \<noteq> x\<close>
      by (simp add: dll_remove_def t_def Let_def dll_link_def dll_sets)
    have "dseg t NULL xs' x' = dseg s NULL xs' x'" "dseg t y' ys' NULL = dseg s y' ys' NULL"
      using ne by (intro dseg_cong; auto simp: t_def dll_link_def dll_sets)+
    then have "dll_ok t q (xs @ ys)"
      using assms ne 3 by (simp add: t_def dll_ok_def dll_link_def dll_sets dseg_append)
    with e show ?thesis by blast
  qed
qed

text \<open>What each operation touches.\<close>

lemma neighbours_in:
  assumes "dll_ok s q xs" and "x \<in> set xs"
  shows "nd_prev s x \<in> insert NULL (set xs)" and "nd_next s x \<in> insert NULL (set xs)"
proof -
  obtain as bs where xs: "xs = as @ x # bs" using assms(2) split_list by metis
  have "nd_prev s x = last_or NULL as" "nd_next s x = hd_or bs NULL"
    using dll_okD(4) [OF assms(1)] by (simp_all add: xs dseg_append)
  then show "nd_prev s x \<in> insert NULL (set xs)" "nd_next s x \<in> insert NULL (set xs)"
    using last_or_in [of NULL as] hd_or_in [of bs NULL] by (auto simp: xs)
qed

lemma add_head_others:
  assumes "dll_ok s q xs"
  shows "others_kept s (snd (dll_add_head q n s)) q {n}"
proof (cases "xs = []")
  case True
  then show ?thesis
    using size_eq_0_iff [OF assms]
    by (intro others_keptI) (simp_all add: dll_add_head_def dll_add_only_def dll_sets)
next
  case False
  then have "nd_list s (ls_head s q) = q"
    using dll_okD(5,6) [OF assms] by (cases xs) simp_all
  then show ?thesis
    using False size_eq_0_iff [OF assms]
    by (intro others_keptI) (auto simp: dll_add_head_def dll_link_def Let_def dll_sets)
qed

lemma add_tail_others:
  assumes "dll_ok s q xs"
  shows "others_kept s (snd (dll_add_tail q n s)) q {n}"
proof (cases "xs = []")
  case True
  then show ?thesis
    using size_eq_0_iff [OF assms]
    by (intro others_keptI) (simp_all add: dll_add_tail_def dll_add_only_def dll_sets)
next
  case False
  then have "nd_list s (ls_tail s q) = q"
    using dll_okD(5,7) [OF assms] last_or_in [of "hd xs" "tl xs"] by (cases xs) auto
  then show ?thesis
    using False size_eq_0_iff [OF assms]
    by (intro others_keptI) (auto simp: dll_add_tail_def dll_link_def Let_def dll_sets)
qed

lemma add_after_others:
  assumes "dll_ok s q (xs @ r # ys)" and "dll_add_after r n s = Inr (n', t)"
  shows "others_kept s t q {n, NULL}"
proof -
  have l: "nd_list s r = q" "q \<noteq> NULL" using dll_okD [OF assms(1)] by simp_all
  show ?thesis
  proof (cases "ls_tail s q = r")
    case True
    then have "t = snd (dll_add_tail q n s)" using assms(2) l by (simp add: dll_add_after_def Let_def prod_eq_iff)
    then show ?thesis
      using add_tail_others [OF assms(1), of n] by (auto simp: others_kept_def)
  next
    case False
    have "nd_next s r = NULL \<or> nd_list s (nd_next s r) = q"
      using neighbours_in(2) [OF assms(1), of r] dll_okD(5) [OF assms(1)] by auto
    moreover have "t = set_size q (ls_size s q + 1) (set_list n q (dll_link r n (dll_link n (nd_next s r) s)))"
      using assms(2) l False by (auto simp: dll_add_after_def Let_def dll_link_def dll_sets)
    ultimately show ?thesis
      using l by (intro others_keptI) (auto simp: dll_link_def dll_sets)
  qed
qed

lemma remove_others:
  assumes "dll_ok s q (xs @ x # ys)" and "dll_remove x s = Inr (x', t)"
  shows "others_kept s t q {NULL}"
proof -
  let ?xs = "xs @ x # ys"
  have l: "nd_list s x = q" "q \<noteq> NULL" using dll_okD [OF assms(1)] by simp_all
  have near: "nd_prev s y = NULL \<or> nd_list s (nd_prev s y) = q" "nd_next s y = NULL \<or> nd_list s (nd_next s y) = q"
    if "y \<in> set ?xs" for y
    using neighbours_in [OF assms(1) that] dll_okD(5) [OF assms(1)] by auto
  have ends: "ls_head s q \<in> set ?xs" "ls_tail s q \<in> set ?xs"
    using dll_okD(6,7) [OF assms(1)] hd_or_in [of xs x] last_or_in [of x ys] by auto
  consider "ls_head s q = x" | "ls_head s q \<noteq> x" "ls_tail s q = x" | "ls_head s q \<noteq> x" "ls_tail s q \<noteq> x" by blast
  then show ?thesis
  proof cases
    case 1
    then have "dll_remove_head q s = Inr (x', t)" using assms(2) l by (simp add: dll_remove_def Let_def)
    then show ?thesis
      using near [OF ends(1)] size_eq_0_iff [OF assms(1)]
      by (intro others_keptI)
         (auto simp: dll_remove_head_def dll_clear_def Let_def dll_sets split: if_splits)
  next
    case 2
    then have "dll_remove_tail q s = Inr (x', t)" using assms(2) l by (simp add: dll_remove_def Let_def)
    then show ?thesis
      using near [OF ends(2)] size_eq_0_iff [OF assms(1)]
      by (intro others_keptI)
         (auto simp: dll_remove_tail_def dll_clear_def Let_def dll_sets split: if_splits)
  next
    case 3
    then have "t = set_size q (ls_size s q - 1) (dll_link (nd_prev s x) (nd_next s x) s)"
      using assms(2) l by (auto simp: dll_remove_def Let_def dll_link_def dll_sets)
    then show ?thesis
      using near [of x] by (intro others_keptI) (auto simp: dll_link_def dll_sets)
  qed
qed

subsection \<open>Properties\<close>

text \<open>
  C7.  The insertions put the node where their names say, in any list shorter than
  \<open>2^32 - 1\<close>, the empty one included, and keep the links of the list consistent in both
  directions: a node added at the head or the tail, before or after any member.
\<close>
theorem dll_add_refines:
  assumes "dll_ok s q zs" and "n \<noteq> NULL" and "n \<notin> set zs" and "Suc (length zs) < 2 ^ 32"
  shows "(\<exists>t. dll_add_head q n s = (n, t) \<and> dll_ok t q (n # zs)) \<and>
    (\<exists>t. dll_add_tail q n s = (n, t) \<and> dll_ok t q (zs @ [n])) \<and>
    (\<forall>xs r ys. zs = xs @ r # ys \<longrightarrow>
      (\<exists>t. dll_add_before r n s = Inr (n, t) \<and> dll_ok t q (xs @ n # r # ys)) \<and>
      (\<exists>t. dll_add_after r n s = Inr (n, t) \<and> dll_ok t q (xs @ r # n # ys)))"
proof (intro conjI allI impI)
  show "\<exists>t. dll_add_head q n s = (n, t) \<and> dll_ok t q (n # zs)"
    using add_head_ok [OF assms] by (simp add: dll_add_head_def)
  show "\<exists>t. dll_add_tail q n s = (n, t) \<and> dll_ok t q (zs @ [n])"
    using add_tail_ok [OF assms] by (simp add: dll_add_tail_def)
next
  fix xs r ys assume zs: "zs = xs @ r # ys"
  show "\<exists>t. dll_add_before r n s = Inr (n, t) \<and> dll_ok t q (xs @ n # r # ys)"
    using add_before_ok assms zs by blast
  show "\<exists>t. dll_add_after r n s = Inr (n, t) \<and> dll_ok t q (xs @ r # n # ys)"
    using add_after_ok assms zs by blast
qed

definition empty_dll :: dll_state where
  "empty_dll = \<lparr>nd_prev = \<lambda>_. 7, nd_next = \<lambda>_. 7, nd_list = \<lambda>_. 0,
     ls_head = \<lambda>_. 0, ls_tail = \<lambda>_. 0, ls_size = \<lambda>_. 0\<rparr>"

definition three_nodes :: dll_state where
  "three_nodes = snd (dll_add_tail 512 48 (snd (dll_add_tail 512 32 (snd (dll_add_tail 512 16 empty_dll)))))"

lemma three_nodes_ok: "dll_ok three_nodes 512 [16, 32, 48]"
  by (simp add: dll_ok_def three_nodes_def empty_dll_def dll_add_tail_def dll_add_only_def dll_link_def
      Let_def dll_sets)

theorem dll_add_refines_witness:
  "(\<exists>t. dll_add_tail 512 16 empty_dll = (16, t) \<and> dll_ok t 512 [16]) \<and>
   (\<exists>t. dll_add_before 32 64 three_nodes = Inr (64, t) \<and> dll_ok t 512 [16, 64, 32, 48])"
proof
  show "\<exists>t. dll_add_tail 512 16 empty_dll = (16, t) \<and> dll_ok t 512 [16]"
    using dll_add_refines [of empty_dll 512 "[]" 16] by (simp add: dll_ok_def empty_dll_def)
  have "\<forall>xs r ys. [16, 32, 48] = xs @ r # ys \<longrightarrow>
      (\<exists>t. dll_add_before r 64 three_nodes = Inr (64, t) \<and> dll_ok t 512 (xs @ 64 # r # ys))"
    using dll_add_refines [OF three_nodes_ok, of 64] by simp
  from this [rule_format, of "[16]" 32 "[48]"]
  show "\<exists>t. dll_add_before 32 64 three_nodes = Inr (64, t) \<and> dll_ok t 512 [16, 64, 32, 48]" by simp
qed

text \<open>
  C8.  The removals unlink the node they return: \<open>dll_remove\<close> wherever it stands,
  \<open>dll_remove_head\<close> the first and \<open>dll_remove_tail\<close> the last one.  Removing from an empty list,
  and removing a node that belongs to none, is a panic.
\<close>
theorem dll_remove_refines:
  assumes "dll_ok s q (xs @ x # ys)"
  shows "(\<exists>t. dll_remove x s = Inr (x, t) \<and> dll_ok t q (xs @ ys)) \<and>
    (\<exists>t. dll_remove_head q s = Inr (hd (xs @ x # ys), t) \<and> dll_ok t q (tl (xs @ x # ys))) \<and>
    (\<exists>t. dll_remove_tail q s = Inr (last (xs @ x # ys), t) \<and> dll_ok t q (butlast (xs @ x # ys))) \<and>
    dll_remove_head q (dll_clear q s) = Inl (Panic ''Cannot remove head from an empty queue'') \<and>
    dll_remove_tail q (dll_clear q s) = Inl (Panic ''Cannot remove tail from an empty queue'') \<and>
    dll_remove x (set_list x NULL s) = Inl (Panic ''Node does not belong to a queue.'')"
proof (intro conjI)
  show "\<exists>t. dll_remove x s = Inr (x, t) \<and> dll_ok t q (xs @ ys)" by (rule remove_ok [OF assms])
  have "xs @ x # ys = hd (xs @ x # ys) # tl (xs @ x # ys)" by simp
  then show "\<exists>t. dll_remove_head q s = Inr (hd (xs @ x # ys), t) \<and> dll_ok t q (tl (xs @ x # ys))"
    using remove_head_ok [of s q] assms by metis
  have "xs @ x # ys = butlast (xs @ x # ys) @ [last (xs @ x # ys)]"
    by (rule append_butlast_last_id [symmetric]) simp
  then show "\<exists>t. dll_remove_tail q s = Inr (last (xs @ x # ys), t) \<and> dll_ok t q (butlast (xs @ x # ys))"
    using remove_tail_ok [of s q] assms by metis
qed (simp_all add: dll_remove_head_def dll_remove_tail_def dll_remove_def dll_clear_def dll_sets)

theorem dll_remove_refines_witness:
  "\<exists>t. dll_remove 32 three_nodes = Inr (32, t) \<and> dll_ok t 512 [16, 48]"
  using dll_remove_refines [of three_nodes 512 "[16]" 32 "[48]"] three_nodes_ok by simp

text \<open>
  No operation disturbs another list: whatever sequence a list with another head
  represents, it still represents after a node outside it was added or removed elsewhere.
\<close>
theorem dll_frame:
  assumes "dll_ok s q (xs @ x # ys)" and "dll_ok s q' zs" and "q' \<noteq> q" and "n \<notin> set zs"
  shows "dll_ok (snd (dll_add_head q n s)) q' zs \<and> dll_ok (snd (dll_add_tail q n s)) q' zs \<and>
    (\<forall>n' t. dll_add_after x n s = Inr (n', t) \<longrightarrow> dll_ok t q' zs) \<and>
    (\<forall>n' t. dll_remove x s = Inr (n', t) \<longrightarrow> dll_ok t q' zs)"
proof -
  have "NULL \<notin> set zs" using assms(2) by (rule dll_okD)
  then show ?thesis
    using add_head_others [OF assms(1), of n] add_tail_others [OF assms(1), of n]
      add_after_others [OF assms(1), of n] remove_others [OF assms(1)] assms(2-4)
    unfolding others_kept_def by blast
qed

theorem dll_frame_witness:
  "dll_ok (snd (dll_add_head 512 64 (snd (dll_add_tail 1024 80 three_nodes)))) 1024 [80]"
proof -
  let ?s = "snd (dll_add_tail 1024 80 three_nodes)"
  have "dll_ok ?s 512 ([16] @ 32 # [48])" "dll_ok ?s 1024 [80]"
    by (simp_all add: dll_ok_def three_nodes_def empty_dll_def dll_add_tail_def dll_add_only_def
        dll_link_def Let_def dll_sets)
  from dll_frame [OF this, of 64] show ?thesis by simp
qed

end
