(* ===== verification/Pgm.thy ===== *)
theory Pgm
  imports Prelude "HOL-Library.Monad_Syntax"
begin

unbundle bit_operations_syntax

text \<open>
  The page manager of \<open>kernel/mem/pgm.c\<close>, the page-address helpers of \<open>kernel/mem/mem.c\<close> and the
  rotations of \<open>kernel/cpu/asm.h\<close>.  The manager keeps a header of six 64-bit words at its base
  address, followed by a bitmap of 64-bit words with a one for every free page; all of them are
  aligned, so memory is \<open>wmem\<close>.  \<open>pgm_init\<close> needs the page tables and is in the theory
  \<open>Paging\<close>.

  The contract: \<open>pgm_ok w base F\<close> says that the manager at \<open>base\<close> has the free pages \<open>F\<close>.
  Allocation takes the lowest free page, freeing gives a page back.
\<close>

subsection \<open>Rotations and page addresses\<close>

definition ROR :: "u64 \<Rightarrow> nat \<Rightarrow> u64" where
  "ROR val i = word_rotr i val"

definition ROL :: "u64 \<Rightarrow> nat \<Rightarrow> u64" where
  "ROL val i = word_rotl i val"

definition PAGE_SIZE_4K :: u64 where "PAGE_SIZE_4K = 4096"

definition PTE_PAGE_NUMBER_MASK_4K :: u64 where
  "PTE_PAGE_NUMBER_MASK_4K = 0x0000FFFFFFFFF000"

definition PTE_PAGE_NUMBER_MASK_2M :: u64 where
  "PTE_PAGE_NUMBER_MASK_2M = 0x0000FFFFFFE00000"

definition mem_prev_page_addr_4k :: "u64 \<Rightarrow> u64" where
  "mem_prev_page_addr_4k addr = addr AND PTE_PAGE_NUMBER_MASK_4K"

definition mem_prev_page_addr_2m :: "u64 \<Rightarrow> u64" where
  "mem_prev_page_addr_2m addr = addr AND PTE_PAGE_NUMBER_MASK_2M"

definition mem_next_page_addr :: "u64 \<Rightarrow> u64" where
  "mem_next_page_addr addr = (addr + PAGE_SIZE_4K - 1) AND PTE_PAGE_NUMBER_MASK_4K"

subsection \<open>The page manager\<close>

definition HANDLE :: "u64 \<Rightarrow> u64" where
  "HANDLE base = ROR base 17"

definition HEADER :: "u64 \<Rightarrow> ptr" where
  "HEADER handle = ROL handle 17"

text \<open>The addresses of the header's fields.\<close>

definition pg_dir_ptr :: "ptr \<Rightarrow> ptr" where "pg_dir_ptr h = h"
definition pg_dir_size :: "ptr \<Rightarrow> ptr" where "pg_dir_size h = h + 8"
definition pg_mem_ptr :: "ptr \<Rightarrow> ptr" where "pg_mem_ptr h = h + 16"
definition pg_mem_pages :: "ptr \<Rightarrow> ptr" where "pg_mem_pages h = h + 24"
definition pg_free_pages :: "ptr \<Rightarrow> ptr" where "pg_free_pages h = h + 32"
definition pg_ptr :: "ptr \<Rightarrow> ptr" where "pg_ptr h = h + 40"

definition pgm_header_size :: u64 where "pgm_header_size = 48"

named_theorems pg_fields "the addresses of the header fields"
lemmas [pg_fields] = pg_dir_ptr_def pg_dir_size_def pg_mem_ptr_def pg_mem_pages_def
  pg_free_pages_def pg_ptr_def

definition pgm_first_one :: "u64 \<Rightarrow> int" where
  "pgm_first_one x =
     (let i = 0;
          (x, i) = (if x AND 0x00000000FFFFFFFF = 0 then (drop_bit 32 x, i + 32) else (x, i));
          (x, i) = (if x AND 0x0000FFFF = 0 then (drop_bit 16 x, i + 16) else (x, i));
          (x, i) = (if x AND 0x00FF = 0 then (drop_bit 8 x, i + 8) else (x, i));
          (x, i) = (if x AND 0x0F = 0 then (drop_bit 4 x, i + 4) else (x, i));
          (x, i) = (if x AND 0x03 = 0 then (drop_bit 2 x, i + 2) else (x, i));
          (x, i) = (if x AND 0x01 = 0 then (drop_bit 1 x, i + 1) else (x, i))
      in if x \<noteq> 0 then i else -1)"

text \<open>\<open>while (*_pgm_info->ptr == 0) _pgm_info->ptr++\<close>\<close>

partial_function (option) pgm_skip_full :: "ptr \<Rightarrow> wmem \<Rightarrow> wmem option" where
  "pgm_skip_full h w =
     (if w (w (pg_ptr h)) = 0 then pgm_skip_full h (w(pg_ptr h := w (pg_ptr h) + 8)) else Some w)"

text \<open>The warning printed when no page is left is not part of the state.\<close>

definition pgm_allocate_page :: "u64 \<Rightarrow> wmem \<Rightarrow> (u64 \<times> wmem) option" where
  "pgm_allocate_page handle w =
     (let h = HEADER handle
      in if w (pg_free_pages h) \<le> 0 then Some (0, w)
         else do { w \<leftarrow> pgm_skip_full h w;
                   let bit = (word_of_int (pgm_first_one (w (w (pg_ptr h)))) :: u64);
                   let w = w(w (pg_ptr h) := w (w (pg_ptr h)) XOR push_bit (unat bit) 1);
                   let w = w(pg_free_pages h := w (pg_free_pages h) - 1);
                   let bytes = w (pg_ptr h) - w (pg_dir_ptr h);
                   Some (w (pg_mem_ptr h) + (bytes * 8 + bit) * PAGE_SIZE_4K, w) })"

definition pgm_free_page :: "u64 \<Rightarrow> u64 \<Rightarrow> wmem \<Rightarrow> wmem result" where
  "pgm_free_page addr handle w =
     kassert (mem_prev_page_addr_4k addr = addr) ''Page Manager: Page address is not a page boundary''
     (let h = HEADER handle
      in kassert (addr mod PAGE_SIZE_4K = 0) ''Page Manager: invalid page address''
         (let page_index = (addr - w (pg_mem_ptr h)) div PAGE_SIZE_4K;
              ptr = w (pg_dir_ptr h) + 8 * (page_index div 64);
              bit_index = page_index mod 64;
              w = w(ptr := w ptr XOR push_bit (unat bit_index) 1);
              w = (if ptr < w (pg_ptr h) then w(pg_ptr h := ptr) else w)
          in Inr (w(pg_free_pages h := w (pg_free_pages h) + 1))))"

definition pgm_total_pages :: "u64 \<Rightarrow> wmem \<Rightarrow> u64" where
  "pgm_total_pages handle w = w (pg_mem_pages (HEADER handle))"

definition pgm_free_pages :: "u64 \<Rightarrow> wmem \<Rightarrow> u64" where
  "pgm_free_pages handle w = w (pg_free_pages (HEADER handle))"

definition pgm_used_pages :: "u64 \<Rightarrow> wmem \<Rightarrow> u64" where
  "pgm_used_pages handle w = pgm_total_pages handle w - pgm_free_pages handle w"

subsection \<open>The lowest set bit\<close>

lemma header_handle [simp]: "HEADER (HANDLE b) = b"
  by (simp add: HEADER_def HANDLE_def ROL_def ROR_def word_rot_rl)

text \<open>The search window: \<open>y\<close> is \<open>x\<close> without its \<open>i\<close> lowest bits, all of them zero, and one of
  the \<open>k\<close> lowest bits of \<open>y\<close> is set.\<close>

definition window :: "u64 \<Rightarrow> u64 \<times> int \<Rightarrow> nat \<Rightarrow> bool" where
  "window x s k \<longleftrightarrow> 0 \<le> snd s \<and> fst s = drop_bit (nat (snd s)) x \<and>
     (\<forall>j<nat (snd s). \<not> bit x j) \<and> (\<exists>j<k. bit (fst s) j)"

lemma and_mask_0_iff: "y AND mask n = 0 \<longleftrightarrow> (\<forall>j<n. \<not> bit (y :: u64) j)"
proof -
  have "j < 64" if "bit y j" for j using bit_imp_le_length [OF that] by simp
  then show ?thesis by (auto simp: bit_eq_iff bit_simps)
qed

lemma window_step:
  assumes "window x (y, i) (n + n)"
  shows "window x (if y AND mask n = 0 then (drop_bit n y, i + int n) else (y, i)) n"
proof (cases "y AND mask n = 0")
  case True
  then have z: "\<not> bit y j" if "j < n" for j using that by (simp add: and_mask_0_iff)
  obtain j where j: "j < n + n" "bit y j" using assms by (auto simp: window_def)
  have "n \<le> j" using z j(2) by (meson not_le)
  then have "\<exists>j<n. bit (drop_bit n y) j"
    using j by (intro exI [of _ "j - n"]) (auto simp: bit_drop_bit_eq)
  moreover have "\<not> bit x j" if "j < nat (i + int n)" for j
  proof (cases "j < nat i")
    case True
    then show ?thesis using assms by (simp add: window_def)
  next
    case False
    then have "\<not> bit y (j - nat i)" using that assms by (intro z) (simp add: window_def)
    then show ?thesis using False assms by (simp add: window_def bit_drop_bit_eq)
  qed
  ultimately show ?thesis
    using True assms by (simp add: window_def nat_add_distrib add.commute)
next
  case False
  then show ?thesis using assms by (auto simp: window_def and_mask_0_iff)
qed


lemma mask_numerals:
  "(0x00000000FFFFFFFF :: u64) = mask 32" "(0x0000FFFF :: u64) = mask 16" "(0x00FF :: u64) = mask 8"
  "(0x0F :: u64) = mask 4" "(0x03 :: u64) = mask 2" "(0x01 :: u64) = mask 1"
  by (simp_all add: mask_eq_exp_minus_1)

text \<open>One halving of the search, as the code writes it.\<close>

fun halve :: "nat \<Rightarrow> u64 \<times> int \<Rightarrow> u64 \<times> int" where
  "halve n (y, i) = (if y AND mask n = 0 then (drop_bit n y, i + int n) else (y, i))"

lemma pgm_first_one_halve:
  "pgm_first_one x =
     (let (y, i) = halve 1 (halve 2 (halve 4 (halve 8 (halve 16 (halve 32 (x, 0))))))
      in if y \<noteq> 0 then i else -1)"
proof -
  have h: "halve 32 (y, i) = (if y AND 0x00000000FFFFFFFF = 0 then (drop_bit 32 y, i + 32) else (y, i))"
    "halve 16 (y, i) = (if y AND 0x0000FFFF = 0 then (drop_bit 16 y, i + 16) else (y, i))"
    "halve 8 (y, i) = (if y AND 0x00FF = 0 then (drop_bit 8 y, i + 8) else (y, i))"
    "halve 4 (y, i) = (if y AND 0x0F = 0 then (drop_bit 4 y, i + 4) else (y, i))"
    "halve 2 (y, i) = (if y AND 0x03 = 0 then (drop_bit 2 y, i + 2) else (y, i))"
    "halve 1 (y, i) = (if y AND 0x01 = 0 then (drop_bit 1 y, i + 1) else (y, i))" for y i
    by (simp_all only: halve.simps mask_numerals) simp_all
  show ?thesis
    unfolding pgm_first_one_def Let_def h [symmetric] by (simp add: split_def del: halve.simps)
qed

lemma halve_window:
  assumes "window x s k" and "k = n + n"
  shows "window x (halve n s) n"
proof (cases s)
  case (Pair y i)
  then show ?thesis using window_step [of x y i n] assms by simp
qed

lemma pgm_first_one_lowest:
  assumes "x \<noteq> 0"
  shows "0 \<le> pgm_first_one x \<and> nat (pgm_first_one x) < 64 \<and> bit x (nat (pgm_first_one x)) \<and>
    (\<forall>j<nat (pgm_first_one x). \<not> bit x j)"
proof -
  obtain j where "bit x j" using assms by (auto simp: bit_eq_iff)
  moreover have "j < 64" using bit_imp_le_length [OF \<open>bit x j\<close>] by simp
  ultimately have w64: "window x (x, 0) 64" by (auto simp: window_def)
  have e: "(64 :: nat) = 32 + 32" "(32 :: nat) = 16 + 16" "(16 :: nat) = 8 + 8" "(8 :: nat) = 4 + 4"
    "(4 :: nat) = 2 + 2" "(2 :: nat) = 1 + 1"
    by simp_all
  note w1 = halve_window [OF halve_window [OF halve_window [OF halve_window [OF halve_window
      [OF halve_window [OF w64 e(1)] e(2)] e(3)] e(4)] e(5)] e(6)]
  obtain y i where yi: "halve 1 (halve 2 (halve 4 (halve 8 (halve 16 (halve 32 (x, 0)))))) = (y, i)"
    by fastforce
  with w1 have w: "window x (y, i) 1" by (simp only:)
  then have b: "bit x (nat i)" and y: "y \<noteq> 0"
    by (auto simp: window_def bit_drop_bit_eq)
  have "pgm_first_one x = i" using y by (simp only: pgm_first_one_halve yi Let_def prod.case) simp
  then show ?thesis using w b bit_imp_le_length [OF b] by (simp add: window_def)
qed

subsection \<open>The contract\<close>

definition dir_word :: "ptr \<Rightarrow> nat \<Rightarrow> ptr" where
  "dir_word h j = h + of_nat (48 + 8 * j)"

text \<open>
  \<open>pgm_ok w h D N F\<close>: the manager at \<open>h\<close> has a bitmap of \<open>D\<close> words and \<open>N\<close> pages, the pages
  \<open>F\<close> are free; the bits behind the last page are ones, and the words before \<open>ptr\<close> are full.
\<close>

definition pgm_ok :: "wmem \<Rightarrow> ptr \<Rightarrow> nat \<Rightarrow> nat \<Rightarrow> nat set \<Rightarrow> bool" where
  "pgm_ok w h D N F \<longleftrightarrow>
     unat h + 48 + 8 * D < 2 ^ 64 \<and> N \<le> 64 * D \<and> N \<le> 2 ^ 52 \<and> F \<subseteq> {..<N} \<and>
     w (pg_dir_ptr h) = dir_word h 0 \<and>
     w (pg_mem_pages h) = of_nat N \<and> w (pg_free_pages h) = of_nat (card F) \<and>
     (\<forall>j<D. \<forall>i<64. bit (w (dir_word h j)) i \<longleftrightarrow> 64 * j + i \<in> F \<or> N \<le> 64 * j + i) \<and>
     (\<exists>k\<le>D. w (pg_ptr h) = dir_word h k \<and> (\<forall>j<k. w (dir_word h j) = 0))"

definition page_addr :: "wmem \<Rightarrow> ptr \<Rightarrow> nat \<Rightarrow> u64" where
  "page_addr w h p = w (pg_mem_ptr h) + of_nat p * PAGE_SIZE_4K"

lemma dir_word_inject:
  assumes "unat h + 48 + 8 * D < 2 ^ 64" and "i \<le> D" and "j \<le> D"
  shows "dir_word h i = dir_word h j \<longleftrightarrow> i = j"
  unfolding dir_word_def
  using assms ptr_add_eq_iff [of "48 + 8 * i" "48 + 8 * j" h] by simp

lemma unat_dir_word:
  assumes "unat h + 48 + 8 * D < 2 ^ 64" and "j \<le> D"
  shows "unat (dir_word h j) = unat h + 48 + 8 * j"
  unfolding dir_word_def
  using assms by (simp add: unat_word_ariths unat_of_nat del: of_nat_add of_nat_mult)

lemma dir_word_header:
  assumes "unat h + 48 + 8 * D < 2 ^ 64" and "j \<le> D" and "c \<le> 40"
  shows "dir_word h j \<noteq> h + of_nat c" and "h + of_nat c \<noteq> dir_word h j"
proof -
  show n: "dir_word h j \<noteq> h + of_nat c"
    unfolding dir_word_def
    using assms ptr_add_eq_iff [of "48 + 8 * j" c h] by simp
  then show "h + of_nat c \<noteq> dir_word h j" by (rule not_sym)
qed

lemma dir_word_fields:
  assumes "unat h + 48 + 8 * D < 2 ^ 64" and "j \<le> D"
  shows "dir_word h j \<noteq> h" "dir_word h j \<noteq> h + 8" "dir_word h j \<noteq> h + 16" "dir_word h j \<noteq> h + 24"
    "dir_word h j \<noteq> h + 32" "dir_word h j \<noteq> h + 40"
    "h \<noteq> dir_word h j" "h + 8 \<noteq> dir_word h j" "h + 16 \<noteq> dir_word h j" "h + 24 \<noteq> dir_word h j"
    "h + 32 \<noteq> dir_word h j" "h + 40 \<noteq> dir_word h j"
  using dir_word_header [OF assms, of 0] dir_word_header [OF assms, of 8]
    dir_word_header [OF assms, of 16] dir_word_header [OF assms, of 24]
    dir_word_header [OF assms, of 32] dir_word_header [OF assms, of 40]
  by simp_all

lemma header_fields:
  fixes h :: ptr
  shows "h + 8 \<noteq> h" "h + 16 \<noteq> h" "h + 24 \<noteq> h" "h + 32 \<noteq> h" "h + 40 \<noteq> h"
    "h + 8 \<noteq> h + 16" "h + 24 \<noteq> h + 32" "h + 24 \<noteq> h + 40" "h + 32 \<noteq> h + 40"
    "h + 16 \<noteq> h + 32" "h + 16 \<noteq> h + 40" "h + 40 \<noteq> h + 32"
  by simp_all

lemma skip_full:
  assumes "unat h + 48 + 8 * D < 2 ^ 64" and "k \<le> k'" and "k' < D"
    and "w (pg_ptr h) = dir_word h k" and "\<forall>j. k \<le> j \<and> j < k' \<longrightarrow> w (dir_word h j) = 0"
    and "w (dir_word h k') \<noteq> 0"
  shows "pgm_skip_full h w = Some (w(pg_ptr h := dir_word h k'))"
  using assms(2,4-6)
proof (induction "k' - k" arbitrary: k w)
  case 0
  then have "k = k'" by simp
  then show ?case using 0 by (simp add: pgm_skip_full.simps [of h w] fun_upd_idem)
next
  case (Suc n)
  let ?w = "w(pg_ptr h := w (pg_ptr h) + 8)"
  have k: "k < k'" using Suc.hyps(2) by simp
  have f: "dir_word h j \<noteq> pg_ptr h" if "j \<le> D" for j
    using dir_word_fields [OF assms(1) that] by (simp add: pg_fields)
  have "w (dir_word h k) = 0" using Suc.prems(3) k by simp
  then have step: "pgm_skip_full h w = pgm_skip_full h ?w"
    using Suc.prems(2) by (simp add: pgm_skip_full.simps [of h w])
  have nxt: "?w (pg_ptr h) = dir_word h (Suc k)"
    using Suc.prems(2) by (simp add: dir_word_def algebra_simps)
  have "pgm_skip_full h ?w = Some (?w(pg_ptr h := dir_word h k'))"
    using Suc.prems Suc.hyps(2) k assms(3) f nxt by (intro Suc.hyps(1) [of "Suc k"]) auto
  then show ?case by (simp add: step)
qed

text \<open>The word and the bit of a page.\<close>

lemma lowest_page_word:
  assumes "pgm_ok w h D N F" and "F \<noteq> {}"
  shows "w (dir_word h (Min F div 64)) \<noteq> 0"
    and "j < Min F div 64 \<Longrightarrow> w (dir_word h j) = 0"
    and "pgm_first_one (w (dir_word h (Min F div 64))) = int (Min F mod 64)"
    and "Min F div 64 < D"
proof -
  let ?p = "Min F"
  have fin: "finite F" using assms(1) by (auto simp: pgm_ok_def intro: finite_subset)
  have p: "?p \<in> F" "?p < N" using Min_in [OF fin assms(2)] assms(1) by (auto simp: pgm_ok_def)
  have low: "q \<notin> F" if "q < ?p" for q using that fin by (meson Min_le not_le)
  have ND: "N \<le> 64 * D"
    and bits: "\<And>j i. j < D \<Longrightarrow> i < 64 \<Longrightarrow> bit (w (dir_word h j)) i \<longleftrightarrow> 64 * j + i \<in> F \<or> N \<le> 64 * j + i"
    using assms(1) by (auto simp: pgm_ok_def)
  show d: "?p div 64 < D" using p(2) ND by (simp add: less_mult_imp_div_less mult.commute)
  have eq: "64 * (?p div 64) + ?p mod 64 = ?p" by simp
  then have bp: "bit (w (dir_word h (?p div 64))) (?p mod 64)"
    using bits [OF d, of "?p mod 64"] p(1) by simp
  then show nz: "w (dir_word h (?p div 64)) \<noteq> 0" by auto
  show "w (dir_word h j) = 0" if "j < ?p div 64"
  proof (rule bit_eqI)
    fix i assume "possible_bit TYPE(u64) i"
    then have i: "i < 64" by simp
    have "64 * j + i < ?p" using that i by linarith
    then show "bit (w (dir_word h j)) i \<longleftrightarrow> bit (0 :: u64) i"
      using bits [of j i] i that d low p(2) by auto
  qed
  let ?b = "pgm_first_one (w (dir_word h (?p div 64)))"
  have b: "0 \<le> ?b" "nat ?b < 64" "bit (w (dir_word h (?p div 64))) (nat ?b)"
    "\<forall>j<nat ?b. \<not> bit (w (dir_word h (?p div 64))) j"
    using pgm_first_one_lowest [OF nz] by auto
  have "nat ?b \<le> ?p mod 64" using b(4) bp by (meson not_le)
  moreover have "\<not> nat ?b < ?p mod 64"
  proof
    assume lt: "nat ?b < ?p mod 64"
    with eq have "64 * (?p div 64) + nat ?b < ?p" by linarith
    then show False using bits [OF d b(2)] b(3) low p(2) by auto
  qed
  ultimately show "?b = int (?p mod 64)" using b(1) by linarith
qed

lemma flip_bit: "bit (x XOR push_bit n (1 :: u64)) i \<longleftrightarrow> (if i = n \<and> n < 64 then \<not> bit x i else bit x i)"
  using bit_imp_le_length [of x i]
  by (auto simp: bit_simps)

lemma flip_bit_exp: "bit (x XOR 2 ^ n) i \<longleftrightarrow> (if i = n \<and> n < 64 then \<not> bit (x :: u64) i else bit x i)"
  using flip_bit [of x n i] by simp

lemma set_flip:
  assumes "i < 64" and "m < (64 :: nat)"
  shows "64 * j + i = 64 * k + m \<longleftrightarrow> j = k \<and> i = m"
proof
  assume e: "64 * j + i = 64 * k + m"
  have "j = (64 * j + i) div 64" "i = (64 * j + i) mod 64" using assms by simp_all
  then show "j = k \<and> i = m" unfolding e using assms by simp
qed simp

text \<open>
  Flipping the bit of page \<open>p\<close> in the bitmap, with the header's counter and scan pointer set to
  match, turns the free set \<open>F\<close> into \<open>F'\<close>.
\<close>

lemma pgm_ok_flip:
  assumes ok: "pgm_ok w h D N F" and p: "p < N" and "k \<le> D"
    and F': "F' \<subseteq> {..<N}" "\<And>q. q \<in> F' \<longleftrightarrow> (if q = p then q \<notin> F else q \<in> F)"
    and c: "c = of_nat (card F')"
    and full: "\<forall>j<k. (w(dir_word h (p div 64) := w (dir_word h (p div 64)) XOR push_bit (p mod 64) 1)) (dir_word h j) = 0"
    and w': "w' = w(dir_word h (p div 64) := w (dir_word h (p div 64)) XOR push_bit (p mod 64) 1,
      pg_ptr h := dir_word h k, pg_free_pages h := c)"
  shows "pgm_ok w' h D N F'"
proof -
  note o = ok [unfolded pgm_ok_def]
  have sz: "unat h + 48 + 8 * D < 2 ^ 64" using o by simp
  have d: "p div 64 < D" using p o by (simp add: less_mult_imp_div_less mult.commute)
  have f: "dir_word h j \<noteq> pg_ptr h" "dir_word h j \<noteq> pg_free_pages h" if "j \<le> D" for j
    using dir_word_fields [OF sz that] by (simp_all add: pg_fields)
  have keep: "w' (pg_dir_ptr h) = w (pg_dir_ptr h)" "w' (pg_mem_pages h) = w (pg_mem_pages h)"
    "w' (pg_free_pages h) = c" "w' (pg_ptr h) = dir_word h k"
    using dir_word_fields [OF sz, of "p div 64"] d header_fields [of h]
    by (simp_all add: w' pg_fields)
  have word: "w' (dir_word h j) = (if j = p div 64 then w (dir_word h j) XOR push_bit (p mod 64) 1
      else w (dir_word h j))" if "j < D" for j
    using f [of j] that dir_word_inject [OF sz, of j "p div 64"] d by (simp add: w')
  have bits: "bit (w' (dir_word h j)) i \<longleftrightarrow> 64 * j + i \<in> F' \<or> N \<le> 64 * j + i"
    if "j < D" "i < 64" for j i
  proof -
    have "bit (w (dir_word h j)) i \<longleftrightarrow> 64 * j + i \<in> F \<or> N \<le> 64 * j + i" using o that by simp
    moreover have "64 * j + i = p \<longleftrightarrow> j = p div 64 \<and> i = p mod 64"
      using set_flip [OF that(2), of "p mod 64" j "p div 64"] by simp
    ultimately show ?thesis using that p F'(2) [of "64 * j + i"] by (auto simp: word flip_bit_exp)
  qed
  have "w' (dir_word h j) = 0" if "j < k" for j
    using full that assms(3) f [of j] by (simp add: w')
  then show ?thesis
    unfolding pgm_ok_def using o keep c F'(1) bits assms(3) by (metis (no_types, lifting))
qed

lemma pgm_ok_finite:
  assumes "pgm_ok w h D N F"
  shows "finite F" and "card F \<le> N" and "unat (of_nat (card F) :: u64) = card F"
    and "unat h + 48 + 8 * D < 2 ^ 64"
proof -
  have s: "F \<subseteq> {..<N}" "N \<le> 2 ^ 52" using assms by (simp_all add: pgm_ok_def)
  show "finite F" using s(1) by (rule finite_subset) simp
  show c: "card F \<le> N" using card_mono [OF _ s(1)] by simp
  with s(2) have "card F < 2 ^ 64" by simp
  then show "unat (of_nat (card F) :: u64) = card F" by (simp add: unat_of_nat take_bit_nat_eq_self)
  show "unat h + 48 + 8 * D < 2 ^ 64" using assms by (simp add: pgm_ok_def)
qed

lemma free_pages_0_iff: "pgm_ok w h D N F \<Longrightarrow> w (pg_free_pages h) = 0 \<longleftrightarrow> F = {}"
proof -
  assume ok: "pgm_ok w h D N F"
  then have "w (pg_free_pages h) = of_nat (card F)" by (simp add: pgm_ok_def)
  moreover have "(of_nat (card F) :: u64) = 0 \<longleftrightarrow> card F = 0"
    using pgm_ok_finite(3) [OF ok] unat_eq_0 [of "of_nat (card F) :: u64"] by simp
  ultimately show ?thesis using pgm_ok_finite(1) [OF ok] by simp
qed

definition pgm_area :: "ptr \<Rightarrow> nat \<Rightarrow> ptr set" where
  "pgm_area h D = region h (48 + 8 * D)"

lemma pgm_area_members:
  assumes "j < D"
  shows "dir_word h j \<in> pgm_area h D"
    and "pg_ptr h \<in> pgm_area h D" and "pg_free_pages h \<in> pgm_area h D"
  using assms regionI [of "48 + 8 * j" "48 + 8 * D" h] regionI [of 40 "48 + 8 * D" h]
    regionI [of 32 "48 + 8 * D" h]
  by (simp_all add: pgm_area_def dir_word_def pg_fields)

lemma pgm_area_header: "c \<le> 40 \<Longrightarrow> h + of_nat c \<in> pgm_area h D"
  using regionI [of c "48 + 8 * D" h] by (simp add: pgm_area_def)

text \<open>The contract only speaks of the manager's own words.\<close>

lemma pgm_ok_cong:
  assumes "pgm_ok w h D N F" and "\<And>a. a \<in> pgm_area h D \<Longrightarrow> w' a = w a"
  shows "pgm_ok w' h D N F"
proof -
  have "w' (h + of_nat c) = w (h + of_nat c)" if "c \<le> 40" for c
    using assms(2) pgm_area_header [OF that] by blast
  from this [of 0] this [of 24] this [of 32] this [of 40]
  have "w' (pg_dir_ptr h) = w (pg_dir_ptr h)" "w' (pg_mem_pages h) = w (pg_mem_pages h)"
    "w' (pg_free_pages h) = w (pg_free_pages h)" "w' (pg_ptr h) = w (pg_ptr h)"
    by (simp_all add: pg_fields)
  moreover have "w' (dir_word h j) = w (dir_word h j)" if "j < D" for j
    using assms(2) pgm_area_members(1) [OF that] by blast
  moreover obtain k where "k \<le> D" "w (pg_ptr h) = dir_word h k" "\<forall>j<k. w (dir_word h j) = 0"
    using assms(1) by (auto simp: pgm_ok_def)
  ultimately show ?thesis
    using assms(1) unfolding pgm_ok_def by (auto intro!: exI [of _ k])
qed

lemma page_offset: "dir_word h j - dir_word h 0 = 8 * of_nat j"
  by (simp add: dir_word_def)

lemma allocate_ok:
  assumes ok: "pgm_ok w h D N F" and ne: "F \<noteq> {}"
  shows "\<exists>w'. pgm_allocate_page (HANDLE h) w = Some (page_addr w h (Min F), w') \<and>
    pgm_ok w' h D N (F - {Min F}) \<and> (\<forall>a. a \<notin> pgm_area h D \<longrightarrow> w' a = w a) \<and>
    w' (pg_mem_ptr h) = w (pg_mem_ptr h)"
proof -
  let ?p = "Min F"
  let ?d = "dir_word h (?p div 64)"
  note low = lowest_page_word [OF ok ne]
  have o: "unat h + 48 + 8 * D < 2 ^ 64" by (rule pgm_ok_finite(4) [OF ok])
  have fin: "finite F" by (rule pgm_ok_finite(1) [OF ok])
  have FN: "F \<subseteq> {..<N}" and dir: "w (pg_dir_ptr h) = dir_word h 0" and cnt: "w (pg_free_pages h) = of_nat (card F)"
    using ok by (simp_all add: pgm_ok_def)
  have p: "?p \<in> F" "?p < N" using Min_in [OF fin ne] FN by auto
  obtain k where k: "k \<le> D" "w (pg_ptr h) = dir_word h k" "\<forall>j<k. w (dir_word h j) = 0"
    using ok by (auto simp: pgm_ok_def)
  have kp: "k \<le> ?p div 64" using k(3) low(1) by (meson not_le)
  define w1 where "w1 = w(pg_ptr h := ?d)"
  have skip: "pgm_skip_full h w = Some w1"
    unfolding w1_def using o kp low k(2) by (intro skip_full) auto
  have ne_d: "?d \<noteq> pg_ptr h" "?d \<noteq> pg_free_pages h" "?d \<noteq> pg_dir_ptr h" "?d \<noteq> pg_mem_ptr h"
    "pg_dir_ptr h \<noteq> ?d" "pg_mem_ptr h \<noteq> ?d" "pg_ptr h \<noteq> ?d" "pg_free_pages h \<noteq> ?d"
    using dir_word_fields [OF o, of "?p div 64"] low(4) by (simp_all add: pg_fields)
  have ne_f: "pg_ptr h \<noteq> pg_free_pages h" "pg_dir_ptr h \<noteq> pg_ptr h" "pg_dir_ptr h \<noteq> pg_free_pages h"
    "pg_mem_ptr h \<noteq> pg_ptr h" "pg_mem_ptr h \<noteq> pg_free_pages h"
    by (simp_all add: pg_fields)
  let ?bit = "word_of_int (pgm_first_one (w ?d)) :: u64"
  have bit: "?bit = of_nat (?p mod 64)" by (simp add: low(3))
  have ub: "unat ?bit = ?p mod 64"
  proof -
    have "?p mod 64 < 2 ^ 64" by (rule less_trans [of _ 64]) simp_all
    then show ?thesis unfolding bit by (simp add: unat_of_nat take_bit_nat_eq_self)
  qed
  define w' where "w' = w(?d := w ?d XOR push_bit (?p mod 64) 1, pg_ptr h := ?d,
      pg_free_pages h := of_nat (card F) - 1)"
  have w1d: "w1 ?d = w ?d" "w1 (pg_ptr h) = ?d" "w1 (pg_free_pages h) = of_nat (card F)"
    using ne_d ne_f cnt by (simp_all add: w1_def)
  let ?w2 = "w1(?d := w ?d XOR push_bit (?p mod 64) 1)"
  let ?w3 = "?w2(pg_free_pages h := of_nat (card F) - 1)"
  have w3: "?w3 = w'"
    unfolding w1_def w'_def by (subst fun_upd_twist [OF ne_d(7)]) (rule refl)
  have nz: "\<not> w (pg_free_pages h) \<le> 0"
    using free_pages_0_iff [OF ok] ne by (simp add: word_le_nat_alt unat_eq_0)
  have "of_nat (?p div 64) * 64 + of_nat (?p mod 64) = (of_nat ?p :: u64)"
    using of_nat_add [of "?p div 64 * 64" "?p mod 64", where 'a = u64]
    unfolding div_mult_mod_eq of_nat_mult of_nat_numeral by (rule sym)
  moreover have "8 * x * 8 = x * (64 :: u64)" for x by simp
  ultimately have off: "(?d - dir_word h 0) * 8 + ?bit = of_nat ?p"
    by (simp only: page_offset bit)
  have "w' (pg_ptr h) = ?d" "w' (pg_dir_ptr h) = dir_word h 0" "w' (pg_mem_ptr h) = w (pg_mem_ptr h)"
    using ne_d ne_f dir by (simp_all add: w'_def)
  then have "pgm_allocate_page (HANDLE h) w = Some (page_addr w h ?p, w')"
    using nz ne_d ne_f unfolding pgm_allocate_page_def Let_def header_handle skip bind.bind_lunit w1d
    by (simp add: ub off w3 w1d page_addr_def del: push_bit_of_1 left_diff_distrib_numeral)
  moreover have "pgm_ok w' h D N (F - {?p})"
  proof (rule pgm_ok_flip [OF ok p(2) _ _ _ _ _ w'_def])
    show "?p div 64 \<le> D" using low(4) by simp
    show "F - {?p} \<subseteq> {..<N}" using FN by auto
    show "of_nat (card F) - 1 = (of_nat (card (F - {?p})) :: u64)"
      using card_Suc_Diff1 [OF fin p(1)] by (metis add_diff_cancel_left' of_nat_Suc)
    show "\<forall>j<?p div 64. (w(?d := w ?d XOR push_bit (?p mod 64) 1)) (dir_word h j) = 0"
      using low(2,4) dir_word_inject [OF o] by auto
  qed (use p(1) in auto)
  moreover have "w' a = w a" if "a \<notin> pgm_area h D" for a
    using that pgm_area_members [OF low(4), of h] by (auto simp: w'_def)
  ultimately show ?thesis using \<open>w' (pg_mem_ptr h) = w (pg_mem_ptr h)\<close> by blast
qed

lemma allocate_none:
  assumes "pgm_ok w h D N {}"
  shows "pgm_allocate_page (HANDLE h) w = Some (0, w)"
  using free_pages_0_iff [OF assms] by (simp add: pgm_allocate_page_def Let_def)

lemma page_aligned:
  assumes "mem_prev_page_addr_4k addr = addr"
  shows "addr mod PAGE_SIZE_4K = 0"
proof -
  have "take_bit 12 PTE_PAGE_NUMBER_MASK_4K = 0"
    by (simp add: PTE_PAGE_NUMBER_MASK_4K_def take_bit_eq_mod)
  then have "take_bit 12 (mem_prev_page_addr_4k addr) = 0"
    by (simp add: mem_prev_page_addr_4k_def)
  then have "take_bit 12 addr = 0" using assms by simp
  then show ?thesis by (simp add: take_bit_eq_mod PAGE_SIZE_4K_def)
qed

lemma page_index:
  assumes "p < 2 ^ 52"
  shows "(page_addr w h p - w (pg_mem_ptr h)) div PAGE_SIZE_4K = of_nat p"
proof -
  have "unat (of_nat p * 4096 :: u64) = p * 4096"
    using assms by (simp add: unat_word_ariths unat_of_nat take_bit_nat_eq_self)
  then have "unat ((of_nat p * 4096 :: u64) div 4096) = p"
    by (simp add: unat_div)
  moreover have "unat (of_nat p :: u64) = p" using assms by (simp add: unat_of_nat take_bit_nat_eq_self)
  ultimately have "(of_nat p * 4096 :: u64) div 4096 = of_nat p" by (metis unsigned_word_eqI)
  then show ?thesis by (simp add: page_addr_def PAGE_SIZE_4K_def)
qed

lemma free_ok:
  assumes ok: "pgm_ok w h D N F" and p: "p < N" "p \<notin> F"
    and "mem_prev_page_addr_4k (page_addr w h p) = page_addr w h p"
  shows "\<exists>w'. pgm_free_page (page_addr w h p) (HANDLE h) w = Inr w' \<and>
    pgm_ok w' h D N (insert p F) \<and> (\<forall>a. a \<notin> pgm_area h D \<longrightarrow> w' a = w a) \<and>
    w' (pg_mem_ptr h) = w (pg_mem_ptr h)"
proof -
  let ?d = "dir_word h (p div 64)"
  have o: "unat h + 48 + 8 * D < 2 ^ 64" by (rule pgm_ok_finite(4) [OF ok])
  have fin: "finite F" by (rule pgm_ok_finite(1) [OF ok])
  have FN: "F \<subseteq> {..<N}" and dir: "w (pg_dir_ptr h) = dir_word h 0" and N: "N \<le> 2 ^ 52" "N \<le> 64 * D"
    and cnt: "w (pg_free_pages h) = of_nat (card F)"
    using ok by (simp_all add: pgm_ok_def)
  have dD: "p div 64 < D" using p N by (simp add: less_mult_imp_div_less mult.commute)
  obtain k where k: "k \<le> D" "w (pg_ptr h) = dir_word h k" "\<forall>j<k. w (dir_word h j) = 0"
    using ok by (auto simp: pgm_ok_def)
  have p64: "p < 2 ^ 52" "p < 2 ^ 64" using p N by simp_all
  have u: "unat (of_nat p :: u64) = p" using p64 by (simp add: unat_of_nat take_bit_nat_eq_self)
  have um: "unat ((of_nat p :: u64) mod 64) = p mod 64"
    and ud: "unat ((of_nat p :: u64) div 64) = p div 64"
    by (simp_all add: unat_mod unat_div u)
  have wd: "(of_nat p :: u64) div 64 = of_nat (p div 64)"
    by (simp add: word_arith_nat_div u)
  have ptr: "w (pg_dir_ptr h) + 8 * ((of_nat p :: u64) div 64) = ?d"
    by (simp add: dir wd dir_word_def)
  have ne_d: "?d \<noteq> pg_ptr h" "?d \<noteq> pg_free_pages h" "pg_mem_ptr h \<noteq> ?d" "pg_ptr h \<noteq> ?d" "pg_free_pages h \<noteq> ?d"
    using dir_word_fields [OF o, of "p div 64"] dD by (simp_all add: pg_fields)
  have ne_f: "pg_ptr h \<noteq> pg_free_pages h" "pg_free_pages h \<noteq> pg_ptr h"
    "pg_mem_ptr h \<noteq> pg_ptr h" "pg_mem_ptr h \<noteq> pg_free_pages h"
    by (simp_all add: pg_fields)
  have lt: "?d < dir_word h k \<longleftrightarrow> p div 64 < k"
    using unat_dir_word [OF o, of "p div 64"] unat_dir_word [OF o, of k] k(1) dD
    by (simp add: word_less_nat_alt)
  define k' where "k' = min k (p div 64)"
  define w' where "w' = w(?d := w ?d XOR push_bit (p mod 64) 1, pg_ptr h := dir_word h k',
      pg_free_pages h := of_nat (card F) + 1)"
  have "pgm_free_page (page_addr w h p) (HANDLE h) w = Inr w'"
  proof -
    let ?w1 = "w(?d := w ?d XOR push_bit (p mod 64) 1)"
    have w1: "?w1 (pg_ptr h) = dir_word h k" using ne_d k(2) by simp
    have "(if ?d < ?w1 (pg_ptr h) then ?w1(pg_ptr h := ?d) else ?w1) = ?w1(pg_ptr h := dir_word h k')"
      unfolding w1 lt using w1 by (auto simp: k'_def min_def fun_upd_idem)
    then show ?thesis
      unfolding pgm_free_page_def Let_def header_handle page_index [OF p64(1)] ptr um
      using assms(4) page_aligned [OF assms(4)] ne_d ne_f cnt
      by (simp add: w'_def del: push_bit_of_1)
  qed
  moreover have "pgm_ok w' h D N (insert p F)"
  proof (rule pgm_ok_flip [OF ok p(1) _ _ _ _ _ w'_def])
    show "k' \<le> D" using k(1) by (simp add: k'_def)
    show "insert p F \<subseteq> {..<N}" using FN p by simp
    show "of_nat (card F) + 1 = (of_nat (card (insert p F)) :: u64)" using fin p by simp
    show "\<forall>j<k'. (w(?d := w ?d XOR push_bit (p mod 64) 1)) (dir_word h j) = 0"
      using k dir_word_inject [OF o] dD by (auto simp: k'_def)
  qed (use p(2) in auto)
  moreover have "w' a = w a" if "a \<notin> pgm_area h D" for a
    using that pgm_area_members [OF dD, of h] by (auto simp: w'_def)
  moreover have "w' (pg_mem_ptr h) = w (pg_mem_ptr h)" using ne_d ne_f by (simp add: w'_def)
  ultimately show ?thesis by blast
qed

subsection \<open>Properties\<close>

text \<open>
  C9.  \<open>pgm_allocate_page\<close> returns the address of the lowest free page, takes exactly this page
  out of the free set and touches only the manager's own words; when no page is free it returns 0
  and changes nothing.  The result 0 means that no page was free exactly when none of the free
  pages is the one at address 0.
\<close>
theorem pgm_allocate_lowest:
  assumes "pgm_ok w h D N F"
  shows "(F = {} \<longrightarrow> pgm_allocate_page (HANDLE h) w = Some (0, w)) \<and>
    (F \<noteq> {} \<longrightarrow> (\<exists>w'. pgm_allocate_page (HANDLE h) w = Some (page_addr w h (Min F), w') \<and>
       pgm_ok w' h D N (F - {Min F}) \<and> (\<forall>a. a \<notin> pgm_area h D \<longrightarrow> w' a = w a))) \<and>
    ((\<forall>i\<in>F. page_addr w h i \<noteq> 0) \<longrightarrow>
       ((\<exists>w'. pgm_allocate_page (HANDLE h) w = Some (0, w')) \<longleftrightarrow> F = {}))"
proof -
  have e: "F = {} \<Longrightarrow> pgm_allocate_page (HANDLE h) w = Some (0, w)"
    using allocate_none assms by blast
  have n: "\<exists>w'. pgm_allocate_page (HANDLE h) w = Some (page_addr w h (Min F), w') \<and>
       pgm_ok w' h D N (F - {Min F}) \<and> (\<forall>a. a \<notin> pgm_area h D \<longrightarrow> w' a = w a)" if "F \<noteq> {}"
    using allocate_ok [OF assms that] by blast
  have "finite F" using assms finite_subset [of F "{..<N}"] by (auto simp: pgm_ok_def)
  then have "Min F \<in> F" if "F \<noteq> {}" using that by simp
  then show ?thesis using e n by fastforce
qed

text \<open>A manager at 4096 with one bitmap word and ten pages from 8192 on.\<close>

definition example_pgm :: wmem where
  "example_pgm = (\<lambda>_. 0)(4096 := 4144, 4104 := 56, 4112 := 8192, 4120 := 10, 4128 := 10,
     4136 := 4144, 4144 := - 1)"

lemma example_pgm_ok: "pgm_ok example_pgm 4096 1 10 {..<10}"
  by (auto simp: pgm_ok_def example_pgm_def dir_word_def pg_fields bit_simps)

theorem pgm_allocate_lowest_witness:
  "\<exists>w'. pgm_allocate_page (HANDLE 4096) example_pgm = Some (8192, w') \<and>
     pgm_ok w' 4096 1 10 ({..<10} - {0})"
proof -
  have m: "Min {..<10 :: nat} = 0" by (rule Min_eqI) auto
  have "{..<10 :: nat} \<noteq> {}" by (simp add: lessThan_empty_iff)
  then show ?thesis
    using pgm_allocate_lowest [OF example_pgm_ok]
    by (auto simp: m page_addr_def example_pgm_def pg_fields)
qed

text \<open>
  \<open>pgm_free_page\<close> gives an allocated page back: it panics on an address off the page
  grid, otherwise the free set gains exactly the page, and only the manager's own words change.
\<close>
theorem pgm_free_page_correct:
  assumes "pgm_ok w h D N F" and "p < N" and "p \<notin> F"
    and "mem_prev_page_addr_4k (page_addr w h p) = page_addr w h p"
    and "mem_prev_page_addr_4k bad \<noteq> bad"
  shows "(\<exists>w'. pgm_free_page (page_addr w h p) (HANDLE h) w = Inr w' \<and>
      pgm_ok w' h D N (insert p F) \<and> (\<forall>a. a \<notin> pgm_area h D \<longrightarrow> w' a = w a)) \<and>
    pgm_free_page bad (HANDLE h) w = Inl (Panic ''Page Manager: Page address is not a page boundary'')"
  using free_ok [OF assms(1-4)] assms(5) by (auto simp: pgm_free_page_def)

theorem pgm_free_page_correct_witness:
  "\<exists>w1 w2. pgm_allocate_page (HANDLE 4096) example_pgm = Some (8192, w1) \<and>
     pgm_free_page 8192 (HANDLE 4096) w1 = Inr w2 \<and> pgm_ok w2 4096 1 10 {..<10}"
proof -
  have m: "Min {..<10 :: nat} = 0" by (rule Min_eqI) auto
  have "{..<10 :: nat} \<noteq> {}" by (simp add: lessThan_empty_iff)
  from allocate_ok [OF example_pgm_ok this] obtain w1 where
    w1: "pgm_allocate_page (HANDLE 4096) example_pgm = Some (8192, w1)"
    "pgm_ok w1 4096 1 10 ({..<10} - {0})" "w1 (pg_mem_ptr 4096) = 8192"
    by (auto simp: m page_addr_def example_pgm_def pg_fields)
  have a: "page_addr w1 4096 0 = 8192" using w1(3) by (simp add: page_addr_def)
  have "mem_prev_page_addr_4k 8192 = 8192" "mem_prev_page_addr_4k 1 \<noteq> 1"
    by (simp_all add: mem_prev_page_addr_4k_def PTE_PAGE_NUMBER_MASK_4K_def)
  then obtain w2 where "pgm_free_page 8192 (HANDLE 4096) w1 = Inr w2"
    "pgm_ok w2 4096 1 10 (insert 0 ({..<10} - {0}))"
    using pgm_free_page_correct [OF w1(2), of 0 1] by (auto simp: a)
  moreover have "insert 0 ({..<10} - {0}) = {..<10 :: nat}" by auto
  ultimately show ?thesis using w1(1) by auto
qed

text \<open>
  The counters: \<open>pgm_total_pages\<close>, \<open>pgm_free_pages\<close> and \<open>pgm_used_pages\<close> report the
  number of pages, of free pages and of allocated pages.
\<close>
theorem pgm_counts:
  assumes "pgm_ok w h D N F"
  shows "unat (pgm_total_pages (HANDLE h) w) = N \<and>
    unat (pgm_free_pages (HANDLE h) w) = card F \<and>
    unat (pgm_used_pages (HANDLE h) w) = card ({..<N} - F)"
proof -
  have f: "F \<subseteq> {..<N}" "N \<le> 2 ^ 52" "w (pg_mem_pages h) = of_nat N" "w (pg_free_pages h) = of_nat (card F)"
    using assms by (simp_all add: pgm_ok_def)
  have c: "card F \<le> N" "unat (of_nat (card F) :: u64) = card F" "finite F"
    using pgm_ok_finite [OF assms] by simp_all
  have n: "unat (of_nat N :: u64) = N" using f(2) by (simp add: unat_of_nat take_bit_nat_eq_self)
  have "(of_nat N - of_nat (card F) :: u64) = of_nat (N - card F)" using c(1) by (simp add: of_nat_diff)
  moreover have "N - card F < 2 ^ 64" using f(2) by simp
  then have "unat (of_nat (N - card F) :: u64) = N - card F"
    by (simp add: unat_of_nat take_bit_nat_eq_self)
  moreover have "card ({..<N} - F) = N - card F" using f(1) c(3) by (simp add: card_Diff_subset)
  ultimately show ?thesis
    using f c n by (simp add: pgm_total_pages_def pgm_free_pages_def pgm_used_pages_def)
qed

theorem pgm_counts_witness: "unat (pgm_used_pages (HANDLE 4096) example_pgm) = 0"
  using pgm_counts [OF example_pgm_ok] by simp

text \<open>
  \<open>pgm_first_one\<close> finds the lowest set bit of every non-zero word and returns -1 for 0.
\<close>
theorem pgm_first_one_correct:
  "(x = 0 \<longrightarrow> pgm_first_one x = -1) \<and>
   (x \<noteq> 0 \<longrightarrow> pgm_first_one x = int (LEAST i. bit x i))"
proof (intro conjI impI)
  assume "x \<noteq> 0"
  then have b: "0 \<le> pgm_first_one x" "bit x (nat (pgm_first_one x))"
    "\<forall>j<nat (pgm_first_one x). \<not> bit x j"
    using pgm_first_one_lowest by auto
  then have "(LEAST i. bit x i) = nat (pgm_first_one x)"
    by (intro Least_equality) (auto simp: not_less [symmetric])
  then show "pgm_first_one x = int (LEAST i. bit x i)" using b(1) by simp
qed (simp add: pgm_first_one_def)

theorem pgm_first_one_correct_witness:
  "pgm_first_one 0 = -1 \<and> pgm_first_one 40 = int (LEAST i. bit (40 :: u64) i)"
  using pgm_first_one_correct [of 0] pgm_first_one_correct [of 40] by simp

text \<open>
  Freeing a page twice goes undetected: the second call marks the page as allocated again
  but counts one more free page, so the counter and the bitmap disagree.
\<close>
theorem pgm_double_free:
  assumes "pgm_ok w h D N F" and "p \<in> F"
    and "mem_prev_page_addr_4k (page_addr w h p) = page_addr w h p"
  shows "\<exists>w'. pgm_free_page (page_addr w h p) (HANDLE h) w = Inr w' \<and>
    \<not> bit (w' (dir_word h (p div 64))) (p mod 64) \<and>
    w' (pg_free_pages h) = of_nat (card F) + 1"
proof -
  let ?d = "dir_word h (p div 64)"
  have o: "unat h + 48 + 8 * D < 2 ^ 64" by (rule pgm_ok_finite(4) [OF assms(1)])
  have s: "F \<subseteq> {..<N}" "N \<le> 2 ^ 52" "N \<le> 64 * D" "w (pg_dir_ptr h) = dir_word h 0"
    "w (pg_free_pages h) = of_nat (card F)"
    using assms(1) by (simp_all add: pgm_ok_def)
  have p: "p < N" using s(1) assms(2) by auto
  have dD: "p div 64 < D" using p s(3) by (simp add: less_mult_imp_div_less mult.commute)
  have p64: "p < 2 ^ 52" "p < 2 ^ 64" using p s(2) by simp_all
  have u: "unat (of_nat p :: u64) = p" using p64 by (simp add: unat_of_nat take_bit_nat_eq_self)
  have um: "unat ((of_nat p :: u64) mod 64) = p mod 64" by (simp add: unat_mod u)
  have ptr: "w (pg_dir_ptr h) + 8 * ((of_nat p :: u64) div 64) = ?d"
    by (simp add: s(4) word_arith_nat_div u dir_word_def)
  have "bit (w ?d) (p mod 64)"
    using assms(1,2) dD by (simp add: pgm_ok_def)
  then have b: "\<not> bit (w ?d XOR push_bit (p mod 64) 1) (p mod 64)" by (simp add: flip_bit_exp)
  have ne_d: "?d \<noteq> h + 40" "?d \<noteq> h + 32"
    using dir_word_fields [OF o, of "p div 64"] dD by simp_all
  show ?thesis
    unfolding pgm_free_page_def Let_def header_handle page_index [OF p64(1)] ptr um
    using assms(3) page_aligned [OF assms(3)] ne_d b s(5)
    by (simp add: pg_fields del: push_bit_of_1)
qed

theorem pgm_double_free_witness:
  "\<exists>w'. pgm_free_page 8192 (HANDLE 4096) example_pgm = Inr w' \<and> \<not> bit (w' 4144) 0 \<and>
     w' (pg_free_pages 4096) = 11"
proof -
  have "mem_prev_page_addr_4k 8192 = 8192"
    by (simp add: mem_prev_page_addr_4k_def PTE_PAGE_NUMBER_MASK_4K_def)
  then show ?thesis
    using pgm_double_free [OF example_pgm_ok, of 0]
    by (simp add: page_addr_def example_pgm_def pg_fields dir_word_def)
qed

end
