(* ===== verification/Paging.thy ===== *)
theory Paging
  imports Pgm
begin

text \<open>
  The page tables of \<open>kernel/mem/mem.c\<close> (\<open>allocate_page\<close>, \<open>mem_map_page\<close>, \<open>mem_map_range_4k\<close>,
  \<open>mem_map_range_2m\<close>, \<open>mem_allocate_range\<close>, \<open>mem_page_fault_handler\<close>) and \<open>pgm_init\<close> of
  \<open>kernel/mem/pgm.c\<close>.  The tables are aligned 64-bit words of the same memory the page manager
  lives in.  \<open>walk\<close> is the processor's four-level translation; the lemmas show that mapping a
  page changes the translation of exactly this page, in a memory where the tables form a tree
  that the free pages do not overlap (\<open>vm_ok\<close>).
\<close>

subsection \<open>State and constants\<close>

record vm_state =
  vm_mem :: wmem
  mem_inited :: bool
  mem_low_pgm_handle :: u64
  mem_main_pgm_handle :: u64

definition PTE_PAGE_PRESENT :: u64 where "PTE_PAGE_PRESENT = 1"
definition PTE_PAGE_WRITE :: u64 where "PTE_PAGE_WRITE = 2"
definition PTE_PAGE_SIZE_2M :: u64 where "PTE_PAGE_SIZE_2M = 128"
definition PML4T_START :: ptr where "PML4T_START = 0x3000"

text \<open>The bit fields of \<open>VirtualAddress\<close>.\<close>

definition va_pt_index :: "u64 \<Rightarrow> u64" where
  "va_pt_index v = take_bit 9 (drop_bit 12 v)"

definition va_pdt_index :: "u64 \<Rightarrow> u64" where
  "va_pdt_index v = take_bit 9 (drop_bit 21 v)"

definition va_pdpt_index :: "u64 \<Rightarrow> u64" where
  "va_pdpt_index v = take_bit 9 (drop_bit 30 v)"

definition va_pml4t_index :: "u64 \<Rightarrow> u64" where
  "va_pml4t_index v = take_bit 9 (drop_bit 39 v)"

subsection \<open>Operations\<close>

definition memset_page :: "ptr \<Rightarrow> wmem \<Rightarrow> wmem" where
  "memset_page page w = for_upto 0 512 (\<lambda>i w. w(page + 8 * i := 0)) w"

definition allocate_page :: "vm_state \<Rightarrow> (u64 \<times> vm_state) option" where
  "allocate_page s =
     do { (page_ptr, w) \<leftarrow> pgm_allocate_page (mem_low_pgm_handle s) (vm_mem s);
          Some (page_ptr, s\<lparr>vm_mem := memset_page page_ptr w\<rparr>) }"

text \<open>\<open>if (*entry == 0) *entry = allocate_page() | PTE_PAGE_PRESENT | PTE_PAGE_WRITE\<close>\<close>

definition ensure_entry :: "ptr \<Rightarrow> vm_state \<Rightarrow> vm_state option" where
  "ensure_entry entry s =
     (if vm_mem s entry = 0
      then do { (page, s) \<leftarrow> allocate_page s;
                Some (s\<lparr>vm_mem := (vm_mem s)(entry := page OR PTE_PAGE_PRESENT OR PTE_PAGE_WRITE)\<rparr>) }
      else Some s)"

definition mem_map_page :: "u64 \<Rightarrow> u64 \<Rightarrow> bool \<Rightarrow> vm_state \<Rightarrow> vm_state option" where
  "mem_map_page virt_addr pg_addr use_2m_page s =
     do { let pml4t_entry = PML4T_START + 8 * va_pml4t_index virt_addr;
          s \<leftarrow> ensure_entry pml4t_entry s;
          let pdpt_entry = (vm_mem s pml4t_entry AND PTE_PAGE_NUMBER_MASK_4K) + 8 * va_pdpt_index virt_addr;
          s \<leftarrow> ensure_entry pdpt_entry s;
          let pdt_entry = (vm_mem s pdpt_entry AND PTE_PAGE_NUMBER_MASK_4K) + 8 * va_pdt_index virt_addr;
          if use_2m_page
          then Some (s\<lparr>vm_mem := (vm_mem s)(pdt_entry :=
                  (pg_addr AND PTE_PAGE_NUMBER_MASK_2M) OR PTE_PAGE_PRESENT OR PTE_PAGE_WRITE
                    OR PTE_PAGE_SIZE_2M)\<rparr>)
          else do { s \<leftarrow> ensure_entry pdt_entry s;
                    let pt_entry = (vm_mem s pdt_entry AND PTE_PAGE_NUMBER_MASK_4K) + 8 * va_pt_index virt_addr;
                    Some (s\<lparr>vm_mem := (vm_mem s)(pt_entry :=
                      (pg_addr AND PTE_PAGE_NUMBER_MASK_4K) OR PTE_PAGE_PRESENT OR PTE_PAGE_WRITE)\<rparr>) } }"

text \<open>
  A step that does not return is \<open>Undefined\<close> (\<open>run\<close>).  The loop counts \<open>pa\<close> and \<open>va\<close> up together; it
  runs forever when \<open>phys_addr + size\<close> lies in the last page of the address space.
\<close>

partial_function (option) map_range_loop ::
  "u64 \<Rightarrow> bool \<Rightarrow> u64 \<Rightarrow> u64 \<Rightarrow> u64 \<Rightarrow> vm_state \<Rightarrow> vm_state option" where
  "map_range_loop page_size use_2m end pa va s =
     (if pa < end
      then do { s \<leftarrow> mem_map_page va pa use_2m s;
                map_range_loop page_size use_2m end (pa + page_size) (va + page_size) s }
      else Some s)"

definition mem_map_range_4k :: "u64 \<Rightarrow> u64 \<Rightarrow> u64 \<Rightarrow> vm_state \<Rightarrow> (bool \<times> vm_state) result" where
  "mem_map_range_4k phys_addr virt_addr sz s =
     (if \<not> mem_inited s then Inr (False, s)
      else kassert (mem_prev_page_addr_4k phys_addr = phys_addr)
             ''Physical address of mapped range must be a 4K page boundary''
          (kassert (mem_prev_page_addr_4k virt_addr = phys_addr)
             ''Virtual address of mapped range must be a 4K page boundary''
          (kassert (sz mod PAGE_SIZE_4K = 0)
             ''Mapped range must contain an integer number of 4K pages''
          (bind_result (run (map_range_loop PAGE_SIZE_4K False (phys_addr + sz) phys_addr virt_addr s))
             (\<lambda>s. Inr (True, s))))))"

text \<open>
  \<open>PAGE_SIZE_2M\<close> is the unparenthesised \<open>2 * 1024L * 1024L\<close>: the remainder in the assertion is
  taken modulo 2 and then multiplied.
\<close>

definition PAGE_SIZE_2M :: u64 where "PAGE_SIZE_2M = 2 * 1024 * 1024"

definition mem_map_range_2m :: "u64 \<Rightarrow> u64 \<Rightarrow> u64 \<Rightarrow> vm_state \<Rightarrow> (bool \<times> vm_state) result" where
  "mem_map_range_2m phys_addr virt_addr sz s =
     (if \<not> mem_inited s then Inr (False, s)
      else kassert (mem_prev_page_addr_2m phys_addr = phys_addr)
             ''Physical address of mapped range must be a 2M page boundary''
          (kassert (mem_prev_page_addr_2m virt_addr = phys_addr)
             ''Virtual address of mapped range must be a 2M page boundary''
          (kassert (sz mod 2 * 1024 * 1024 = 0)
             ''Mapped range must contain an integer number of 2M pages''
          (bind_result (run (map_range_loop PAGE_SIZE_2M True (phys_addr + sz) phys_addr virt_addr s))
             (\<lambda>s. Inr (True, s))))))"

text \<open>The argument of \<open>mem_map_page\<close> is evaluated first: it takes a page of the main manager.\<close>

definition map_new_page :: "u64 \<Rightarrow> vm_state \<Rightarrow> vm_state option" where
  "map_new_page virt_addr s =
     do { (page, w) \<leftarrow> pgm_allocate_page (mem_main_pgm_handle s) (vm_mem s);
          mem_map_page virt_addr page False (s\<lparr>vm_mem := w\<rparr>) }"

partial_function (option) allocate_range_loop :: "u64 \<Rightarrow> u64 \<Rightarrow> vm_state \<Rightarrow> vm_state option" where
  "allocate_range_loop end addr s =
     (if addr < end
      then do { s \<leftarrow> map_new_page addr s; allocate_range_loop end (addr + PAGE_SIZE_4K) s }
      else Some s)"

definition mem_allocate_range :: "u64 \<Rightarrow> u64 \<Rightarrow> vm_state \<Rightarrow> (bool \<times> vm_state) result" where
  "mem_allocate_range virt_addr sz s =
     (if \<not> mem_inited s then Inr (False, s)
      else kassert (mem_prev_page_addr_4k virt_addr = virt_addr)
             ''Mapped range must start at 4K page boundary''
          (kassert (sz mod PAGE_SIZE_4K = 0)
             ''Mapped range must contain an integer number of 4K pages''
          (bind_result (run (allocate_range_loop (virt_addr + sz) virt_addr s))
             (\<lambda>s. Inr (True, s)))))"

text \<open>The handler maps the page of the faulting address and clears the frame's copy of \<open>cr2\<close>.\<close>

definition mem_page_fault_handler :: "u64 \<Rightarrow> vm_state \<Rightarrow> (u64 \<times> vm_state) option" where
  "mem_page_fault_handler cr2 s =
     do { s \<leftarrow> map_new_page (mem_prev_page_addr_4k cr2) s; Some (0, s) }"

definition pgm_init :: "u64 \<Rightarrow> u64 \<Rightarrow> vm_state \<Rightarrow> (u64 \<times> vm_state) result" where
  "pgm_init base sz s =
     kassert (mem_prev_page_addr_4k base = base) ''Page Manager: Address should be at a page boundary''
    (kassert (sz mod PAGE_SIZE_4K = 0) ''Page Manager: Size should be an integer number of pages''
    (let total_pages = (sz + PAGE_SIZE_4K - 1) div PAGE_SIZE_4K;
         dir_bytes = (total_pages + 7) div 8;
         dir_pages = (dir_bytes + PAGE_SIZE_4K - 1) div PAGE_SIZE_4K;
         dir_ptr = base + pgm_header_size;
         dir_size = dir_pages * PAGE_SIZE_4K;
         mem_ptr = base + dir_size;
         mem_pages = total_pages - dir_pages
     in bind_result (mem_map_range_4k base base dir_size s)
          (\<lambda>(mapped, s).
             if \<not> mapped then Inr (0, s)
             else let w = for_upto 0 ((dir_size - pgm_header_size) div 8)
                            (\<lambda>i w. w(dir_ptr + 8 * i := - 1)) (vm_mem s);
                      w = w(base := dir_ptr, base + 8 := dir_size, base + 16 := mem_ptr,
                            base + 24 := mem_pages, base + 32 := mem_pages, base + 40 := dir_ptr)
                  in Inr (HANDLE base, s\<lparr>vm_mem := w\<rparr>))))"

subsection \<open>The processor's translation\<close>

text \<open>Level 0 is the PML4 table, level 3 a page table.\<close>

definition slot :: "ptr \<Rightarrow> u64 \<Rightarrow> ptr" where
  "slot t i = t + 8 * i"

definition level_index :: "nat \<Rightarrow> u64 \<Rightarrow> u64" where
  "level_index k va =
     (if k = 0 then va_pml4t_index va else if k = 1 then va_pdpt_index va
      else if k = 2 then va_pdt_index va else va_pt_index va)"

definition present :: "u64 \<Rightarrow> bool" where
  "present e \<longleftrightarrow> bit e 0"

definition huge :: "nat \<Rightarrow> u64 \<Rightarrow> bool" where
  "huge k e \<longleftrightarrow> k = 2 \<and> present e \<and> bit e 7"

definition frame :: "u64 \<Rightarrow> ptr" where
  "frame e = e AND PTE_PAGE_NUMBER_MASK_4K"

fun table_of :: "wmem \<Rightarrow> nat \<Rightarrow> u64 \<Rightarrow> ptr option" where
  "table_of w 0 va = Some PML4T_START"
| "table_of w (Suc k) va =
     (case table_of w k va of None \<Rightarrow> None
      | Some t \<Rightarrow> let e = w (slot t (level_index k va))
                  in if present e \<and> \<not> huge k e then Some (frame e) else None)"

definition walk :: "wmem \<Rightarrow> u64 \<Rightarrow> u64 option" where
  "walk w va =
     (case table_of w 2 va of None \<Rightarrow> None
      | Some pdt \<Rightarrow>
          let e = w (slot pdt (level_index 2 va))
          in if huge 2 e then Some ((e AND PTE_PAGE_NUMBER_MASK_2M) + take_bit 21 va)
             else case table_of w 3 va of None \<Rightarrow> None
                  | Some pt \<Rightarrow> let e = w (slot pt (level_index 3 va))
                               in if present e then Some (frame e + take_bit 12 va) else None)"

subsection \<open>Aligned tables\<close>

definition aligned :: "ptr \<Rightarrow> bool" where
  "aligned t \<longleftrightarrow> frame t = t"

lemma frame_frame [simp]: "frame (frame e) = frame e"
  by (simp add: frame_def and.assoc)

lemma aligned_frame [simp]: "aligned (frame e)"
  by (simp add: aligned_def)

lemma frame_flags: "frame (frame e OR PTE_PAGE_PRESENT OR PTE_PAGE_WRITE) = frame e"
  and present_flags: "present (e OR PTE_PAGE_PRESENT OR PTE_PAGE_WRITE)"
  by (simp_all add: frame_def present_def PTE_PAGE_PRESENT_def PTE_PAGE_WRITE_def
      PTE_PAGE_NUMBER_MASK_4K_def bit_simps and.assoc bit.conj_disj_distrib2)

lemma aligned_bits:
  assumes "aligned t"
  shows "unat t mod 4096 = 0" and "unat t < 2 ^ 48" and "\<not> bit t 7" and "\<not> bit t 0"
proof -
  let ?M = "PTE_PAGE_NUMBER_MASK_4K"
  have m: "take_bit 12 ?M = 0" "take_bit 48 ?M = ?M" "\<not> bit ?M 7" "\<not> bit ?M 0"
    by (simp_all add: PTE_PAGE_NUMBER_MASK_4K_def take_bit_eq_mod)
  have t: "t AND ?M = t" using assms by (simp add: aligned_def frame_def)
  have "take_bit 12 (t AND ?M) = 0" by (simp only: take_bit_and m(1)) simp
  then have "unat (take_bit 12 t) = 0" by (simp only: t) simp
  then have "take_bit 12 (unat t) = 0" by (simp only: unsigned_take_bit_eq)
  then show "unat t mod 4096 = 0" by (simp add: take_bit_eq_mod)
  have "take_bit 48 (t AND ?M) = t AND ?M"
    by (rule bit_word_eqI) (use m(2) in \<open>auto simp: bit_simps dest: arg_cong [of _ _ "\<lambda>x. bit x _"]\<close>)
  then have "unat t = take_bit 48 (unat t)" by (simp only: t flip: unsigned_take_bit_eq)
  then show "unat t < 2 ^ 48" by (metis take_bit_nat_less_exp)
  have "\<not> bit (t AND ?M) 7" "\<not> bit (t AND ?M) 0" using m(3,4) by (simp_all add: bit_simps)
  then show "\<not> bit t 7" "\<not> bit t 0" by (simp_all only: t) simp_all
qed

lemma level_index_lt: "unat (level_index k va) < 512"
proof -
  have "unat (take_bit 9 x) < 512" for x :: u64
    using take_bit_nat_less_exp [of 9 "unat x"] by (simp only: unsigned_take_bit_eq) simp
  then show ?thesis
    by (simp add: level_index_def va_pml4t_index_def va_pdpt_index_def va_pdt_index_def va_pt_index_def)
qed

lemma unat_slot:
  assumes "aligned t" and "unat i < 512"
  shows "unat (slot t i) = unat t + 8 * unat i"
  using aligned_bits(2) [OF assms(1)] assms(2)
  by (simp add: slot_def unat_word_ariths)

lemma slot_inject:
  assumes "aligned t" and "aligned t'" and "unat i < 512" and "unat i' < 512"
  shows "slot t i = slot t' i' \<longleftrightarrow> t = t' \<and> i = i'"
proof
  assume "slot t i = slot t' i'"
  then have e: "unat t + 8 * unat i = unat t' + 8 * unat i'"
    using unat_slot assms by metis
  have m: "unat t = 4096 * (unat t div 4096)" "unat t' = 4096 * (unat t' div 4096)"
    using aligned_bits(1) [OF assms(1)] aligned_bits(1) [OF assms(2)] by (simp_all add: dvd_eq_mod_eq_0 [symmetric])
  have "unat t div 4096 = (unat t + 8 * unat i) div 4096"
    using assms(3) by (subst m(1)) simp
  also have "\<dots> = unat t' div 4096"
    unfolding e using assms(4) by (subst m(2)) simp
  finally have "unat t = unat t'" using m by linarith
  with e show "t = t' \<and> i = i'" by (simp add: word_unat_eq_iff)
qed simp

text \<open>The words of a page.\<close>

definition page_words :: "ptr \<Rightarrow> ptr set" where
  "page_words t = slot t ` {i. unat i < 512}"

lemma page_wordsI [intro]: "unat i < 512 \<Longrightarrow> slot t i \<in> page_words t"
  by (simp add: page_words_def)

lemma page_words_disjoint:
  assumes "aligned t" and "aligned t'" and "t \<noteq> t'"
  shows "page_words t \<inter> page_words t' = {}"
  using slot_inject [OF assms(1,2)] assms(3) by (auto simp: page_words_def)

lemma memset_page_at:
  assumes "aligned t"
  shows "memset_page t w a = (if a \<in> page_words t then 0 else w a)"
proof -
  have "for_upto 0 512 (\<lambda>i w. w(t + 8 * i := 0)) w a
      = (if a \<in> slot t ` {i. unat i < unat (512 :: u64)} then 0 else w a)"
  proof (rule for_upto_invariant [where P = "\<lambda>k v. v a = (if a \<in> slot t ` {i. unat i < k} then 0 else w a)"])
    fix k v assume k: "k < unat (512 :: u64)" "v a = (if a \<in> slot t ` {i. unat i < k} then 0 else w a)"
    have u: "unat (of_nat k :: u64) = k" using k(1) by (simp add: unat_of_nat take_bit_nat_eq_self)
    have "{i :: u64. unat i < Suc k} = insert (of_nat k) {i. unat i < k}"
      using u by (auto simp: less_Suc_eq word_unat_eq_iff)
    then show "(v(t + 8 * of_nat k := 0)) a = (if a \<in> slot t ` {i. unat i < Suc k} then 0 else w a)"
      using k(2) by (auto simp: slot_def)
  qed simp
  then show ?thesis by (simp add: memset_page_def page_words_def)
qed

subsection \<open>The tables form a tree\<close>

text \<open>
  \<open>lv\<close> names the pages in use as tables and their levels.  Every non-zero entry above the last
  level is a 2M page or points to a table of the next level, and no table has two parents.
\<close>

definition tables_ok :: "wmem \<Rightarrow> (ptr \<Rightarrow> nat option) \<Rightarrow> bool" where
  "tables_ok w lv \<longleftrightarrow>
     lv PML4T_START = Some 0 \<and>
     (\<forall>t k. lv t = Some k \<longrightarrow> k \<le> 3 \<and> aligned t) \<and>
     (\<forall>t k i. lv t = Some k \<longrightarrow> k < 3 \<longrightarrow> unat i < 512 \<longrightarrow>
        w (slot t i) = 0 \<or> huge k (w (slot t i)) \<or>
        present (w (slot t i)) \<and> lv (frame (w (slot t i))) = Some (Suc k)) \<and>
     (\<forall>t t' k k' i i'. lv t = Some k \<longrightarrow> lv t' = Some k' \<longrightarrow> k < 3 \<longrightarrow> k' < 3 \<longrightarrow>
        unat i < 512 \<longrightarrow> unat i' < 512 \<longrightarrow> w (slot t i) \<noteq> 0 \<longrightarrow> w (slot t' i') \<noteq> 0 \<longrightarrow>
        \<not> huge k (w (slot t i)) \<longrightarrow> \<not> huge k' (w (slot t' i')) \<longrightarrow>
        frame (w (slot t i)) = frame (w (slot t' i')) \<longrightarrow> t = t' \<and> i = i')"

lemma tables_okD:
  assumes "tables_ok w lv"
  shows "lv PML4T_START = Some 0" and "lv t = Some k \<Longrightarrow> k \<le> 3" and "lv t = Some k \<Longrightarrow> aligned t"
    and "lv t = Some k \<Longrightarrow> k < 3 \<Longrightarrow> unat i < 512 \<Longrightarrow>
        w (slot t i) = 0 \<or> huge k (w (slot t i)) \<or>
        present (w (slot t i)) \<and> lv (frame (w (slot t i))) = Some (Suc k)"
    and "lv t = Some k \<Longrightarrow> lv t' = Some k' \<Longrightarrow> k < 3 \<Longrightarrow> k' < 3 \<Longrightarrow>
        unat i < 512 \<Longrightarrow> unat i' < 512 \<Longrightarrow> w (slot t i) \<noteq> 0 \<Longrightarrow> w (slot t' i') \<noteq> 0 \<Longrightarrow>
        \<not> huge k (w (slot t i)) \<Longrightarrow> \<not> huge k' (w (slot t' i')) \<Longrightarrow>
        frame (w (slot t i)) = frame (w (slot t' i')) \<Longrightarrow> t = t' \<and> i = i'"
proof -
  note o = assms [unfolded tables_ok_def]
  show "lv PML4T_START = Some 0" using o by blast
  show "k \<le> 3" if "lv t = Some k" using o that by blast
  show "aligned t" if "lv t = Some k" using o that by blast
  show "w (slot t i) = 0 \<or> huge k (w (slot t i)) \<or>
        present (w (slot t i)) \<and> lv (frame (w (slot t i))) = Some (Suc k)"
    if "lv t = Some k" "k < 3" "unat i < 512" using o that by blast
  show "t = t' \<and> i = i'" if "lv t = Some k" "lv t' = Some k'" "k < 3" "k' < 3" "unat i < 512"
    "unat i' < 512" "w (slot t i) \<noteq> 0" "w (slot t' i') \<noteq> 0" "\<not> huge k (w (slot t i))"
    "\<not> huge k' (w (slot t' i'))" "frame (w (slot t i)) = frame (w (slot t' i'))"
    using o that by blast
qed

lemma present_0 [simp]: "\<not> present 0" "\<not> huge k 0"
  by (simp_all add: present_def huge_def)

lemma table_of_level:
  assumes "tables_ok w lv" and "table_of w k va = Some t" and "k \<le> 3"
  shows "lv t = Some k"
  using assms(2,3)
proof (induction k arbitrary: t)
  case 0
  then show ?case using tables_okD(1) [OF assms(1)] by simp
next
  case (Suc k)
  then obtain t0 where t0: "table_of w k va = Some t0" "present (w (slot t0 (level_index k va)))"
    "\<not> huge k (w (slot t0 (level_index k va)))" "t = frame (w (slot t0 (level_index k va)))"
    by (auto simp: Let_def split: option.splits if_splits)
  have "lv t0 = Some k" using Suc.IH [OF t0(1)] Suc.prems(2) by simp
  from tables_okD(4) [OF assms(1) this _ level_index_lt, of k va] t0 Suc.prems(2)
  show ?case by auto
qed

lemma table_of_unique:
  assumes "tables_ok w lv" and "table_of w k va = Some t" and "table_of w k va' = Some t" and "k \<le> 3"
    and "m < k"
  shows "level_index m va = level_index m va'"
  using assms(2-5)
proof (induction k arbitrary: t)
  case 0
  then show ?case by simp
next
  case (Suc k)
  obtain t1 where t1: "table_of w k va = Some t1" "present (w (slot t1 (level_index k va)))"
    "\<not> huge k (w (slot t1 (level_index k va)))" "t = frame (w (slot t1 (level_index k va)))"
    using Suc.prems(1) by (auto simp: Let_def split: option.splits if_splits)
  obtain t2 where t2: "table_of w k va' = Some t2" "present (w (slot t2 (level_index k va')))"
    "\<not> huge k (w (slot t2 (level_index k va')))" "t = frame (w (slot t2 (level_index k va')))"
    using Suc.prems(2) by (auto simp: Let_def split: option.splits if_splits)
  have k: "k < 3" "k \<le> 3" using Suc.prems(3) by simp_all
  have l: "lv t1 = Some k" "lv t2 = Some k"
    using table_of_level [OF assms(1)] t1(1) t2(1) k by auto
  have "w (slot t1 (level_index k va)) \<noteq> 0" "w (slot t2 (level_index k va')) \<noteq> 0"
    using t1(2) t2(2) by (metis present_0(1))+
  then have e: "t1 = t2" "level_index k va = level_index k va'"
    using tables_okD(5) [OF assms(1) l k(1) k(1) level_index_lt level_index_lt] t1 t2 by metis+
  show ?case
  proof (cases "m = k")
    case True
    then show ?thesis using e(2) by simp
  next
    case False
    then show ?thesis using Suc.IH [OF t1(1)] t2(1) e(1) Suc.prems(4) k(2) by simp
  qed
qed

subsection \<open>Linking in an empty table changes no translation\<close>

text \<open>
  \<open>w'\<close> differs from \<open>w\<close> in the tables only at one empty slot, which now points to the empty
  table \<open>q\<close>.
\<close>

definition links_empty :: "wmem \<Rightarrow> wmem \<Rightarrow> (ptr \<Rightarrow> nat option) \<Rightarrow> ptr \<Rightarrow> u64 \<Rightarrow> nat \<Rightarrow> ptr \<Rightarrow> bool" where
  "links_empty w w' lv t i k q \<longleftrightarrow>
     lv t = Some k \<and> k < 3 \<and> unat i < 512 \<and> w (slot t i) = 0 \<and>
     present (w' (slot t i)) \<and> \<not> huge k (w' (slot t i)) \<and> frame (w' (slot t i)) = q \<and>
     (\<forall>j. unat j < 512 \<longrightarrow> w' (slot q j) = 0) \<and>
     (\<forall>t0 k0 j. lv t0 = Some k0 \<longrightarrow> unat j < 512 \<longrightarrow> (t0, j) \<noteq> (t, i) \<longrightarrow> w' (slot t0 j) = w (slot t0 j))"

lemma table_of_link:
  assumes "tables_ok w lv" and "links_empty w w' lv t i k q" and "j \<le> 3"
  shows "table_of w' j va = table_of w j va \<or>
    table_of w j va = None \<and> (table_of w' j va = None \<or> table_of w' j va = Some q)"
  using assms(3)
proof (induction j)
  case 0
  then show ?case by simp
next
  case (Suc j)
  note l = assms(2) [unfolded links_empty_def]
  let ?i = "level_index j va"
  consider t0 where "table_of w' j va = Some t0" "table_of w j va = Some t0"
    | "table_of w j va = None" "table_of w' j va = None \<or> table_of w' j va = Some q"
    using Suc by (cases "table_of w j va") auto
  then show ?case
  proof cases
    case 1
    have t0: "lv t0 = Some j" using table_of_level [OF assms(1) 1(2)] Suc.prems by simp
    show ?thesis
    proof (cases "(t0, ?i) = (t, i)")
      case True
      then have "k = j" using l t0 by simp
      then show ?thesis using True l 1 by (simp add: Let_def)
    next
      case False
      then have "w' (slot t0 ?i) = w (slot t0 ?i)" using l t0 level_index_lt by blast
      then show ?thesis using 1 by simp
    qed
  next
    case 2
    then show ?thesis using l level_index_lt [of j va] by (auto simp: Let_def)
  qed
qed

text \<open>The address is not covered by a 2M page.\<close>

definition not_huge :: "wmem \<Rightarrow> u64 \<Rightarrow> bool" where
  "not_huge w va \<longleftrightarrow> (\<forall>t. table_of w 2 va = Some t \<longrightarrow> \<not> huge 2 (w (slot t (level_index 2 va))))"

lemma not_huge_link:
  assumes "tables_ok w lv" and "links_empty w w' lv t i k q" and "not_huge w va"
  shows "not_huge w' va"
  unfolding not_huge_def
proof (intro allI impI)
  note l = assms(2) [unfolded links_empty_def]
  fix t2 assume t2: "table_of w' 2 va = Some t2"
  show "\<not> huge 2 (w' (slot t2 (level_index 2 va)))"
  proof (cases "table_of w 2 va")
    case None
    then have "t2 = q" using table_of_link [OF assms(1,2), of 2 va] t2 by auto
    then show ?thesis using l level_index_lt by simp
  next
    case (Some t0)
    then have e: "t2 = t0" using table_of_link [OF assms(1,2), of 2 va] t2 by auto
    have l2: "lv t0 = Some 2" using table_of_level [OF assms(1) Some] by simp
    show ?thesis
    proof (cases "(t0, level_index 2 va) = (t, i)")
      case True
      then show ?thesis using l l2 e by auto
    next
      case False
      then have "w' (slot t0 (level_index 2 va)) = w (slot t0 (level_index 2 va))"
        using l l2 level_index_lt by blast
      then show ?thesis using assms(3) Some e by (simp add: not_huge_def)
    qed
  qed
qed

lemma walk_link:
  assumes "tables_ok w lv" and "links_empty w w' lv t i k q"
  shows "walk w' va = walk w va"
proof -
  note l = assms(2) [unfolded links_empty_def]
  have zero: "w' (slot q (level_index m va)) = 0" for m using l level_index_lt by blast
  have last: "(case table_of w' 3 va of None \<Rightarrow> None
       | Some pt \<Rightarrow> let e = w' (slot pt (level_index 3 va))
                   in if present e then Some (frame e + take_bit 12 va) else None)
     = (case table_of w 3 va of None \<Rightarrow> None
       | Some pt \<Rightarrow> let e = w (slot pt (level_index 3 va))
                   in if present e then Some (frame e + take_bit 12 va) else None)"
  proof (cases "table_of w 3 va")
    case None
    then show ?thesis using table_of_link [OF assms, of 3 va] zero by (auto simp: Let_def)
  next
    case (Some t3)
    then have "lv t3 = Some 3" using table_of_level [OF assms(1)] by simp
    moreover have "t3 \<noteq> t" using calculation l by auto
    ultimately have "w' (slot t3 (level_index 3 va)) = w (slot t3 (level_index 3 va))"
      using l level_index_lt by blast
    then show ?thesis using table_of_link [OF assms, of 3 va] Some by auto
  qed
  show ?thesis
  proof (cases "table_of w 2 va")
    case None
    then have n3: "table_of w 3 va = None" by (simp add: numeral_3_eq_3 numeral_2_eq_2)
    consider "table_of w' 2 va = None" | "table_of w' 2 va = Some q"
      using table_of_link [OF assms, of 2 va] None by auto
    then show ?thesis
      using None n3 last zero by cases (simp_all add: walk_def Let_def)
  next
    case (Some t2)
    then have t2: "lv t2 = Some 2" "table_of w' 2 va = Some t2"
      using table_of_level [OF assms(1)] table_of_link [OF assms, of 2 va] by auto
    let ?i = "level_index 2 va"
    show ?thesis
    proof (cases "(t2, ?i) = (t, i)")
      case True
      then have "k = 2" using l t2(1) by simp
      then show ?thesis using True l Some t2(2) last by (simp add: walk_def Let_def)
    next
      case False
      then have "w' (slot t2 ?i) = w (slot t2 ?i)" using l t2(1) level_index_lt by blast
      then show ?thesis using Some t2(2) last by (simp add: walk_def Let_def)
    qed
  qed
qed

subsection \<open>The invariant of the virtual memory\<close>

text \<open>
  The low page manager at \<open>h\<close> is well formed, the tables form a tree, and the manager's words,
  the tables and the free pages are apart from each other.
\<close>

definition vm_ok ::
  "vm_state \<Rightarrow> ptr \<Rightarrow> nat \<Rightarrow> nat \<Rightarrow> nat set \<Rightarrow> (ptr \<Rightarrow> nat option) \<Rightarrow> bool" where
  "vm_ok s h D N F lv \<longleftrightarrow>
     mem_low_pgm_handle s = HANDLE h \<and> pgm_ok (vm_mem s) h D N F \<and> tables_ok (vm_mem s) lv \<and>
     (\<forall>t. lv t \<noteq> None \<longrightarrow> page_words t \<inter> pgm_area h D = {}) \<and>
     (\<forall>p\<in>F. aligned (page_addr (vm_mem s) h p) \<and> lv (page_addr (vm_mem s) h p) = None \<and>
        page_words (page_addr (vm_mem s) h p) \<inter> pgm_area h D = {})"

lemma vm_okD:
  assumes "vm_ok s h D N F lv"
  shows "mem_low_pgm_handle s = HANDLE h" and "pgm_ok (vm_mem s) h D N F" and "tables_ok (vm_mem s) lv"
    and "lv t = Some k \<Longrightarrow> page_words t \<inter> pgm_area h D = {}"
    and "p \<in> F \<Longrightarrow> aligned (page_addr (vm_mem s) h p)"
    and "p \<in> F \<Longrightarrow> lv (page_addr (vm_mem s) h p) = None"
    and "p \<in> F \<Longrightarrow> page_words (page_addr (vm_mem s) h p) \<inter> pgm_area h D = {}"
  using assms by (auto simp: vm_ok_def)

lemma page_addr_inject:
  assumes "p < 2 ^ 52" and "p' < 2 ^ 52" and "page_addr w h p = page_addr w h p'"
  shows "p = p'"
proof -
  have "(of_nat p :: u64) = of_nat p'" using page_index [of p w h] page_index [of p' w h] assms by metis
  then show ?thesis using assms(1,2) of_nat_eq_iff64 [of p p'] by simp
qed

text \<open>Storing the entry of a fresh table.\<close>

lemma tables_ok_extend:
  assumes ok: "tables_ok w lv" and t: "lv t = Some k" "k < 3" "unat i < 512" "w (slot t i) = 0"
    and q: "aligned q" "lv q = None"
    and e: "present e" "\<not> huge k e" "frame e = q"
    and same: "\<And>t0 k0 j. lv t0 = Some k0 \<Longrightarrow> unat j < 512 \<Longrightarrow> (t0, j) \<noteq> (t, i) \<Longrightarrow> w' (slot t0 j) = w (slot t0 j)"
    and new: "w' (slot t i) = e" and zero: "\<And>j. unat j < 512 \<Longrightarrow> w' (slot q j) = 0"
  shows "tables_ok w' (lv(q \<mapsto> Suc k))"
proof -
  note d = tables_okD [OF ok]
  have e0: "e \<noteq> 0" using e(1) by auto
  have no_q: "frame (w (slot t0 j)) \<noteq> q" if "lv t0 = Some k0" "k0 < 3" "unat j < 512" "w (slot t0 j) \<noteq> 0"
    "\<not> huge k0 (w (slot t0 j))" for t0 k0 j
    using d(4) [OF that(1-3)] that(4,5) q(2) by auto
  let ?lv = "lv(q \<mapsto> Suc k)"
  have entry: "w' (slot t0 j) = 0 \<or> huge k0 (w' (slot t0 j)) \<or>
      present (w' (slot t0 j)) \<and> ?lv (frame (w' (slot t0 j))) = Some (Suc k0)"
    if "?lv t0 = Some k0" "k0 < 3" "unat j < 512" for t0 k0 j
  proof (cases "t0 = q")
    case True
    then show ?thesis using zero that(3) by simp
  next
    case False
    then have l0: "lv t0 = Some k0" using that(1) by simp
    show ?thesis
    proof (cases "(t0, j) = (t, i)")
      case True
      then show ?thesis using new e t(1) l0 by auto
    next
      case False
      have "w' (slot t0 j) = w (slot t0 j)" by (rule same [OF l0 that(3) False])
      then show ?thesis using d(4) [OF l0 that(2,3)] q(2) by auto
    qed
  qed
  have unique: "t0 = t1 \<and> j0 = j1"
    if "?lv t0 = Some k0" "?lv t1 = Some k1" "k0 < 3" "k1 < 3" "unat j0 < 512" "unat j1 < 512"
      "w' (slot t0 j0) \<noteq> 0" "w' (slot t1 j1) \<noteq> 0" "\<not> huge k0 (w' (slot t0 j0))" "\<not> huge k1 (w' (slot t1 j1))"
      "frame (w' (slot t0 j0)) = frame (w' (slot t1 j1))" for t0 t1 k0 k1 j0 j1
  proof -
    have nq: "t0 \<noteq> q" "t1 \<noteq> q" using zero that(5-8) by auto
    then have l: "lv t0 = Some k0" "lv t1 = Some k1" using that(1,2) by simp_all
    consider "(t0, j0) = (t, i)" "(t1, j1) = (t, i)" | "(t0, j0) = (t, i)" "(t1, j1) \<noteq> (t, i)"
      | "(t0, j0) \<noteq> (t, i)" "(t1, j1) = (t, i)" | "(t0, j0) \<noteq> (t, i)" "(t1, j1) \<noteq> (t, i)" by blast
    then show ?thesis
    proof cases
      case 1
      then show ?thesis by simp
    next
      case 2
      have s1: "w' (slot t1 j1) = w (slot t1 j1)" by (rule same [OF l(2) that(6) 2(2)])
      have "frame (w' (slot t0 j0)) = q" using 2(1) new e(3) by simp
      then show ?thesis using no_q [OF l(2) that(4,6)] that(8,10,11) s1 by simp
    next
      case 3
      have s0: "w' (slot t0 j0) = w (slot t0 j0)" by (rule same [OF l(1) that(5) 3(1)])
      have "frame (w' (slot t1 j1)) = q" using 3(2) new e(3) by simp
      then show ?thesis using no_q [OF l(1) that(3,5)] that(7,9,11) s0 by simp
    next
      case 4
      have s0: "w' (slot t0 j0) = w (slot t0 j0)" by (rule same [OF l(1) that(5) 4(1)])
      have s1: "w' (slot t1 j1) = w (slot t1 j1)" by (rule same [OF l(2) that(6) 4(2)])
      show ?thesis using d(5) [OF l that(3-6)] that(7-11) s0 s1 by simp
    qed
  qed
  have "?lv PML4T_START = Some 0" using d(1) q(2) by auto
  moreover have "?lv t0 = Some k0 \<Longrightarrow> k0 \<le> 3 \<and> aligned t0" for t0 k0
    using d(2,3) q(1) t(2) by (auto split: if_splits)
  ultimately show ?thesis unfolding tables_ok_def using entry unique by blast
qed

lemma ensure_entry_ok:
  assumes ok: "vm_ok s h D N F lv" and t: "lv t = Some k" "k < 3" "unat i < 512"
    and room: "vm_mem s (slot t i) = 0 \<Longrightarrow> F \<noteq> {}" and leaf: "\<not> huge k (vm_mem s (slot t i))"
  shows "\<exists>s' F' lv'. ensure_entry (slot t i) s = Some s' \<and> vm_ok s' h D N F' lv' \<and>
    (\<forall>va. walk (vm_mem s') va = walk (vm_mem s) va) \<and>
    (\<forall>va. not_huge (vm_mem s) va \<longrightarrow> not_huge (vm_mem s') va) \<and>
    lv \<subseteq>\<^sub>m lv' \<and> F' \<subseteq> F \<and> card F \<le> Suc (card F') \<and>
    (\<forall>t0 k0 j. lv t0 = Some k0 \<longrightarrow> unat j < 512 \<longrightarrow> (t0, j) \<noteq> (t, i) \<longrightarrow>
       vm_mem s' (slot t0 j) = vm_mem s (slot t0 j)) \<and>
    present (vm_mem s' (slot t i)) \<and> \<not> huge k (vm_mem s' (slot t i)) \<and>
    lv' (frame (vm_mem s' (slot t i))) = Some (Suc k) \<and>
    (vm_mem s (slot t i) = 0 \<longrightarrow> (\<forall>j. unat j < 512 \<longrightarrow> vm_mem s' (slot (frame (vm_mem s' (slot t i))) j) = 0)) \<and>
    s' = s\<lparr>vm_mem := vm_mem s'\<rparr>"
proof (cases "vm_mem s (slot t i) = 0")
  case False
  then have "present (vm_mem s (slot t i)) \<and> lv (frame (vm_mem s (slot t i))) = Some (Suc k)"
    using tables_okD(4) [OF vm_okD(3) [OF ok] t] leaf by simp
  then show ?thesis
    using False ok leaf by (intro exI [of _ s] exI [of _ F] exI [of _ lv]) (simp add: ensure_entry_def)
next
  case True
  let ?w = "vm_mem s" and ?p = "Min F"
  let ?q = "page_addr ?w h ?p"
  have pok: "pgm_ok ?w h D N F" by (rule vm_okD(2) [OF ok])
  have fin: "finite F" by (rule pgm_ok_finite(1) [OF pok])
  have ne: "F \<noteq> {}" by (rule room [OF True])
  have p: "?p \<in> F" by (rule Min_in [OF fin ne])
  note q = vm_okD(5-7) [OF ok p]
  obtain w1 where w1: "pgm_allocate_page (HANDLE h) ?w = Some (?q, w1)" "pgm_ok w1 h D N (F - {?p})"
    "\<forall>a. a \<notin> pgm_area h D \<longrightarrow> w1 a = ?w a" "w1 (pg_mem_ptr h) = ?w (pg_mem_ptr h)"
    using allocate_ok [OF pok ne] by auto
  define e where "e = ?q OR PTE_PAGE_PRESENT OR PTE_PAGE_WRITE"
  define w' where "w' = (memset_page ?q w1)(slot t i := e)"
  define s' where "s' = s\<lparr>vm_mem := w'\<rparr>"
  have run: "ensure_entry (slot t i) s = Some s'"
    using True w1(1) vm_okD(1) [OF ok]
    by (simp add: ensure_entry_def allocate_page_def e_def w'_def s'_def)
  have at: "aligned t" by (rule tables_okD(3) [OF vm_okD(3) [OF ok] t(1)])
  have tq: "t \<noteq> ?q" using t(1) q(2) by auto
  have st: "slot t i \<notin> page_words ?q" "slot t i \<notin> pgm_area h D"
    using page_words_disjoint [OF at q(1) tq] vm_okD(4) [OF ok t(1)] t(3) by auto
  have fe: "frame ?q = ?q" using q(1) by (simp add: aligned_def)
  have e: "present e" "frame e = ?q" "\<not> bit e 7"
    using present_flags [of ?q] frame_flags [of ?q] aligned_bits(3) [OF q(1)]
    by (simp_all add: e_def fe PTE_PAGE_PRESENT_def PTE_PAGE_WRITE_def bit_simps)
  have area: "w' a = w1 a" if "a \<in> pgm_area h D" for a
    using that q(3) st(2) memset_page_at [OF q(1), of w1 a] by (auto simp: w'_def)
  have other: "w' (slot t0 j) = ?w (slot t0 j)"
    if "lv t0 = Some k0" "unat j < 512" "(t0, j) \<noteq> (t, i)" for t0 k0 j
  proof -
    have a0: "aligned t0" by (rule tables_okD(3) [OF vm_okD(3) [OF ok] that(1)])
    have "t0 \<noteq> ?q" using that(1) q(2) by auto
    then have "slot t0 j \<notin> page_words ?q" "slot t0 j \<notin> pgm_area h D"
      using page_words_disjoint [OF a0 q(1)] vm_okD(4) [OF ok that(1)] that(2) by auto
    moreover have "slot t0 j \<noteq> slot t i" using slot_inject [OF a0 at that(2) t(3)] that(3) by auto
    ultimately show ?thesis using w1(3) memset_page_at [OF q(1), of w1 "slot t0 j"] by (simp add: w'_def)
  qed
  have new: "w' (slot t i) = e" by (simp add: w'_def)
  have zero: "w' (slot ?q j) = 0" if "unat j < 512" for j
    using that st(1) memset_page_at [OF q(1), of w1 "slot ?q j"] by (auto simp: w'_def)
  have nh: "\<not> huge k e" using e(3) by (simp add: huge_def)
  let ?lv = "lv(?q \<mapsto> Suc k)"
  have tab: "tables_ok w' ?lv"
    by (rule tables_ok_extend [OF vm_okD(3) [OF ok] t True q(1,2) e(1) nh e(2) other new zero])
  have "pgm_ok w' h D N (F - {?p})" by (rule pgm_ok_cong [OF w1(2) area])
  moreover have "w' (pg_mem_ptr h) = ?w (pg_mem_ptr h)"
    using area [of "pg_mem_ptr h"] w1(4) pgm_area_header [of 16 h D] by (simp add: pg_fields)
  then have pa: "page_addr w' h x = page_addr ?w h x" for x by (simp add: page_addr_def)
  have fresh: "page_addr ?w h x \<noteq> ?q" if "x \<in> F - {?p}" for x
  proof -
    have "x < 2 ^ 52" "?p < 2 ^ 52" using pok that p by (auto simp: pgm_ok_def)
    then show ?thesis using page_addr_inject that by blast
  qed
  have "vm_ok s' h D N (F - {?p}) ?lv"
    unfolding vm_ok_def using calculation tab vm_okD [OF ok] q fresh pa
    by (auto simp: s'_def)
  moreover have link: "links_empty ?w w' lv t i k ?q"
    using t True e nh other new zero by (auto simp: links_empty_def)
  moreover have "walk w' va = walk ?w va" for va by (rule walk_link [OF vm_okD(3) [OF ok] link])
  moreover have "not_huge ?w va \<Longrightarrow> not_huge w' va" for va
    by (rule not_huge_link [OF vm_okD(3) [OF ok] link])
  moreover have "lv \<subseteq>\<^sub>m ?lv" using q(2) by (auto simp: map_le_def)
  moreover have "card F \<le> Suc (card (F - {?p}))" using card_Suc_Diff1 [OF fin p] by simp
  ultimately show ?thesis
    using run other new zero e nh
    by (intro exI [of _ s'] exI [of _ "F - {?p}"] exI [of _ ?lv]) (auto simp: s'_def)
qed

subsection \<open>Mapping one page\<close>

text \<open>Two addresses lie in the same 4K page if the bits the tables decode agree.\<close>

definition same_page :: "u64 \<Rightarrow> u64 \<Rightarrow> bool" where
  "same_page va va' \<longleftrightarrow> mem_prev_page_addr_4k va = mem_prev_page_addr_4k va'"

lemma page_mask_bit: "bit PTE_PAGE_NUMBER_MASK_4K n \<longleftrightarrow> 12 \<le> n \<and> n < 48"
proof -
  have m: "PTE_PAGE_NUMBER_MASK_4K = push_bit 12 (mask 36)"
    by (simp add: PTE_PAGE_NUMBER_MASK_4K_def mask_eq_exp_minus_1 push_bit_eq_mult)
  show ?thesis unfolding m by (auto simp: bit_simps)
qed

lemma all_bits_iff: "(\<forall>n<64. A n \<longrightarrow> P n) \<longleftrightarrow> (\<forall>n. A n \<longrightarrow> P n)" if "\<And>n. A n \<Longrightarrow> n < (64 :: nat)"
  using that by blast

lemma same_page_bits: "same_page va va' \<longleftrightarrow> (\<forall>n. 12 \<le> n \<and> n < 48 \<longrightarrow> bit va n = bit va' n)"
proof -
  have "same_page va va' \<longleftrightarrow> (\<forall>n<64. 12 \<le> n \<and> n < 48 \<longrightarrow> bit va n = bit va' n)"
    by (auto simp: same_page_def mem_prev_page_addr_4k_def bit_eq_iff bit_simps page_mask_bit)
  also have "\<dots> \<longleftrightarrow> (\<forall>n. 12 \<le> n \<and> n < 48 \<longrightarrow> bit va n = bit va' n)"
    by (rule all_bits_iff) simp
  finally show ?thesis .
qed

lemma level_index_eq_iff:
  assumes "k \<le> 3"
  shows "level_index k va = level_index k va' \<longleftrightarrow>
    (\<forall>n<9. bit va (12 + 9 * (3 - k) + n) = bit va' (12 + 9 * (3 - k) + n))"
proof -
  have "take_bit 9 (drop_bit m va) = take_bit 9 (drop_bit m va') \<longleftrightarrow> (\<forall>n<9. bit va (m + n) = bit va' (m + n))" for m
  proof -
    have "take_bit 9 (drop_bit m va) = take_bit 9 (drop_bit m va') \<longleftrightarrow>
        (\<forall>n<64. n < 9 \<longrightarrow> bit va (m + n) = bit va' (m + n))"
      by (auto simp: bit_eq_iff bit_simps)
    also have "\<dots> \<longleftrightarrow> (\<forall>n<9. bit va (m + n) = bit va' (m + n))" by (rule all_bits_iff) simp
    finally show ?thesis .
  qed
  moreover have "k = 0 \<or> k = 1 \<or> k = 2 \<or> k = 3" using assms by auto
  ultimately show ?thesis
    by (auto simp: level_index_def va_pml4t_index_def va_pdpt_index_def va_pdt_index_def va_pt_index_def)
qed

lemma same_page_iff: "same_page va va' \<longleftrightarrow> (\<forall>k\<le>3. level_index k va = level_index k va')"
proof
  assume "same_page va va'"
  then show "\<forall>k\<le>3. level_index k va = level_index k va'"
    by (auto simp: same_page_bits level_index_eq_iff)
next
  assume l: "\<forall>k\<le>3. level_index k va = level_index k va'"
  show "same_page va va'"
    unfolding same_page_bits
  proof (intro allI impI)
    fix n :: nat assume "12 \<le> n \<and> n < 48"
    then have n: "12 \<le> n" "n < 48" by simp_all
    define k where "k = 3 - (n - 12) div 9"
    have d: "(n - 12) div 9 \<le> 3" using n by simp
    then have "12 + 9 * (3 - k) + (n - 12) mod 9 = n" using n by (simp add: k_def)
    then show "bit va n = bit va' n"
      using l level_index_eq_iff [of k va va'] by (auto simp: k_def dest!: spec [of _ k] spec [of _ "(n - 12) mod 9"])
  qed
qed

lemma table_of_write_leaf:
  assumes "tables_ok w lv" and "lv t = Some 3" and "unat i < 512" and "j \<le> 3"
  shows "table_of (w(slot t i := e)) j va = table_of w j va"
  using assms(4)
proof (induction j)
  case 0
  then show ?case by simp
next
  case (Suc j)
  have IH: "table_of (w(slot t i := e)) j va = table_of w j va"
    by (rule Suc.IH) (use Suc.prems in simp)
  show ?case
  proof (cases "table_of w j va")
    case (Some t0)
    have l: "lv t0 = Some j" using table_of_level [OF assms(1) Some] Suc.prems by simp
    then have "t0 \<noteq> t" using assms(2) Suc.prems by auto
    then have "slot t0 (level_index j va) \<noteq> slot t i"
      using slot_inject tables_okD(3) [OF assms(1)] l assms(2,3) level_index_lt by blast
    then show ?thesis unfolding table_of.simps IH Some by simp
  next
    case None
    then show ?thesis unfolding table_of.simps IH by simp
  qed
qed

lemma not_huge_write_leaf:
  assumes "tables_ok w lv" and "lv t = Some 3" and "unat i < 512" and "not_huge w va"
  shows "not_huge (w(slot t i := e)) va"
  unfolding not_huge_def
proof (intro allI impI)
  fix t2 assume "table_of (w(slot t i := e)) 2 va = Some t2"
  then have t2: "table_of w 2 va = Some t2" using table_of_write_leaf [OF assms(1-3), of 2 e va] by simp
  have l: "lv t2 = Some 2" using table_of_level [OF assms(1) t2] by simp
  then have "t2 \<noteq> t" using assms(2) by auto
  then have "slot t2 (level_index 2 va) \<noteq> slot t i"
    using slot_inject tables_okD(3) [OF assms(1)] l assms(2,3) level_index_lt by blast
  then show "\<not> huge 2 ((w(slot t i := e)) (slot t2 (level_index 2 va)))"
    using assms(4) t2 by (simp add: not_huge_def)
qed

lemma walk_write_leaf:
  assumes ok: "tables_ok w lv" and t: "table_of w 3 va = Some t" and e: "present e"
  shows "walk (w(slot t (level_index 3 va) := e)) va' =
    (if same_page va va' then Some (frame e + take_bit 12 va') else walk w va')"
proof -
  let ?i = "level_index 3 va"
  let ?w = "w(slot t ?i := e)"
  have l3: "lv t = Some 3" using table_of_level [OF ok t] by simp
  have tab: "table_of ?w j x = table_of w j x" if "j \<le> 3" for j x
    by (rule table_of_write_leaf [OF ok l3 level_index_lt that])
  have l2: "?w (slot t2 (level_index 2 x)) = w (slot t2 (level_index 2 x))" if "table_of w 2 x = Some t2" for t2 x
  proof -
    have l: "lv t2 = Some 2" using table_of_level [OF ok that] by simp
    then have "t2 \<noteq> t" using l3 by auto
    then have "slot t2 (level_index 2 x) \<noteq> slot t ?i"
      using slot_inject tables_okD(3) [OF ok] l l3 level_index_lt by blast
    then show ?thesis by simp
  qed
  have three: "table_of w 3 x = (case table_of w 2 x of None \<Rightarrow> None
      | Some t2 \<Rightarrow> let e = w (slot t2 (level_index 2 x)) in if present e \<and> \<not> huge 2 e then Some (frame e) else None)" for x
  proof -
    have "(3 :: nat) = Suc 2" by simp
    then show ?thesis by (simp only: table_of.simps)
  qed
  show ?thesis
  proof (cases "same_page va va'")
    case True
    then have idx: "level_index k va' = level_index k va" if "k \<le> 3" for k
      using that by (simp add: same_page_iff)
    have tt: "table_of w j va' = table_of w j va" if "j \<le> 3" for j
      using that by (induction j) (simp_all add: idx split: option.split)
    then obtain t2 where t2: "table_of w 2 va' = Some t2" "\<not> huge 2 (w (slot t2 (level_index 2 va')))"
      using t three [of va] by (auto simp: Let_def idx split: option.splits if_splits)
    then show ?thesis
      using True l2 [OF t2(1)] tab [of 2 va'] tab [of 3 va'] tt [of 3] t e idx [of 3]
      by (simp add: walk_def Let_def)
  next
    case False
    have leaf: "?w (slot t3 (level_index 3 va')) = w (slot t3 (level_index 3 va'))"
      if t3: "table_of w 3 va' = Some t3" for t3
    proof -
      have l: "lv t3 = Some 3" using table_of_level [OF ok t3] by simp
      have "\<not> (t3 = t \<and> level_index 3 va' = ?i)"
      proof
        assume a: "t3 = t \<and> level_index 3 va' = ?i"
        then have "level_index m va = level_index m va'" if "m < 3" for m
          using table_of_unique [OF ok t, of va'] t3 that by simp
        then have "level_index k va = level_index k va'" if "k \<le> 3" for k
          using that a by (cases "k = 3") auto
        then show False using False same_page_iff by blast
      qed
      then have "slot t3 (level_index 3 va') \<noteq> slot t ?i"
        using slot_inject tables_okD(3) [OF ok] l l3 level_index_lt by blast
      then show ?thesis by simp
    qed
    show ?thesis
    proof (cases "table_of w 2 va'")
      case None
      then show ?thesis using False tab [of 2 va'] by (simp add: walk_def)
    next
      case (Some t2)
      then show ?thesis
        using False l2 [OF Some] leaf tab [of 2 va'] tab [of 3 va']
        by (cases "table_of w 3 va'") (simp_all add: walk_def Let_def)
    qed
  qed
qed

lemma tables_ok_cong:
  assumes ok: "tables_ok w lv"
    and eq: "\<And>t k j. lv t = Some k \<Longrightarrow> k < 3 \<Longrightarrow> unat j < 512 \<Longrightarrow> w' (slot t j) = w (slot t j)"
  shows "tables_ok w' lv"
proof -
  note d = tables_okD [OF ok]
  have "w' (slot t i) = 0 \<or> huge k (w' (slot t i)) \<or>
      present (w' (slot t i)) \<and> lv (frame (w' (slot t i))) = Some (Suc k)"
    if "lv t = Some k" "k < 3" "unat i < 512" for t k i
    unfolding eq [OF that] by (rule d(4) [OF that])
  moreover have "t = t' \<and> i = i'" if "lv t = Some k" "lv t' = Some k'" "k < 3" "k' < 3" "unat i < 512"
    "unat i' < 512" "w' (slot t i) \<noteq> 0" "w' (slot t' i') \<noteq> 0" "\<not> huge k (w' (slot t i))"
    "\<not> huge k' (w' (slot t' i'))" "frame (w' (slot t i)) = frame (w' (slot t' i'))" for t t' k k' i i'
    using d(5) [OF that(1-6)] that(7-11) eq [OF that(1,3,5)] eq [OF that(2,4,6)] by simp
  ultimately show ?thesis unfolding tables_ok_def using d(1-3) by blast
qed

lemma vm_mem_chain:
  assumes "s1 = s\<lparr>vm_mem := m\<rparr>" and "s2 = s1\<lparr>vm_mem := m'\<rparr>"
  shows "s2 = s\<lparr>vm_mem := m'\<rparr>"
  using assms by simp

lemma vm_ok_write_leaf:
  assumes ok: "vm_ok s h D N F lv" and t: "lv t = Some 3" "unat i < 512"
  shows "vm_ok (s\<lparr>vm_mem := (vm_mem s)(slot t i := e)\<rparr>) h D N F lv"
proof -
  let ?w = "vm_mem s" and ?w' = "(vm_mem s)(slot t i := e)"
  note d = vm_okD [OF ok]
  have area: "?w' a = ?w a" if "a \<in> pgm_area h D" for a
    using d(4) [OF t(1)] t(2) that by auto
  have "pgm_ok ?w' h D N F" by (rule pgm_ok_cong [OF d(2) area])
  moreover have keep: "?w' (slot t0 j) = ?w (slot t0 j)" if "lv t0 = Some k" "k < 3" "unat j < 512" for t0 k j
  proof -
    have "t0 \<noteq> t" using that(1,2) t(1) by auto
    then have "slot t0 j \<noteq> slot t i"
      using slot_inject tables_okD(3) [OF d(3)] that t by blast
    then show ?thesis by simp
  qed
  have "tables_ok ?w' lv" by (rule tables_ok_cong [OF d(3) keep])
  moreover have "page_addr ?w' h p = page_addr ?w h p" for p
    using area [of "pg_mem_ptr h"] pgm_area_header [of 16 h D] by (simp add: page_addr_def pg_fields)
  ultimately show ?thesis using ok by (simp add: vm_ok_def)
qed

lemma ensure_present: "vm_mem s e \<noteq> 0 \<Longrightarrow> ensure_entry e s = Some s"
  by (simp add: ensure_entry_def)

lemma mem_map_page_steps:
  "mem_map_page va pa False s =
     do { s \<leftarrow> ensure_entry (slot PML4T_START (level_index 0 va)) s;
          let t1 = frame (vm_mem s (slot PML4T_START (level_index 0 va)));
          s \<leftarrow> ensure_entry (slot t1 (level_index 1 va)) s;
          let t2 = frame (vm_mem s (slot t1 (level_index 1 va)));
          s \<leftarrow> ensure_entry (slot t2 (level_index 2 va)) s;
          let t3 = frame (vm_mem s (slot t2 (level_index 2 va)));
          Some (s\<lparr>vm_mem := (vm_mem s)(slot t3 (level_index 3 va) :=
             frame pa OR PTE_PAGE_PRESENT OR PTE_PAGE_WRITE)\<rparr>) }"
  by (simp add: mem_map_page_def slot_def level_index_def frame_def Let_def)

lemma table_of_Suc:
  "table_of w k va = Some t \<Longrightarrow> w (slot t (level_index k va)) = e \<Longrightarrow> present e \<Longrightarrow> \<not> huge k e \<Longrightarrow>
   table_of w (Suc k) va = Some (frame e)"
  by simp

lemma level_Suc: "(1 :: nat) = Suc 0" "(2 :: nat) = Suc 1" "(3 :: nat) = Suc 2"
  by simp_all

lemma mem_map_page_maps:
  assumes ok: "vm_ok s h D N F lv" and room: "3 \<le> card F" and nh: "not_huge (vm_mem s) va"
  shows "\<exists>s' F' lv'. mem_map_page va pa False s = Some s' \<and> vm_ok s' h D N F' lv' \<and>
    F' \<subseteq> F \<and> card F \<le> card F' + 3 \<and> s' = s\<lparr>vm_mem := vm_mem s'\<rparr> \<and>
    (\<forall>va'. walk (vm_mem s') va' =
       (if same_page va va' then Some (frame pa + take_bit 12 va') else walk (vm_mem s) va')) \<and>
    (\<forall>x. not_huge (vm_mem s) x \<longrightarrow> not_huge (vm_mem s') x)"
proof -
  let ?i0 = "level_index 0 va" and ?i1 = "level_index 1 va" and ?i2 = "level_index 2 va"
  let ?s0 = "slot PML4T_START ?i0"
  have l0: "lv PML4T_START = Some 0" by (rule tables_okD(1) [OF vm_okD(3) [OF ok]])
  have fin: "finite F" by (rule pgm_ok_finite(1) [OF vm_okD(2) [OF ok]])
  have F0: "F \<noteq> {}" using room by auto
  have "\<not> huge 0 x" for x by (simp add: huge_def)
  then obtain s1 F1 lv1 where s1: "ensure_entry ?s0 s = Some s1" "vm_ok s1 h D N F1 lv1"
    "\<forall>x. walk (vm_mem s1) x = walk (vm_mem s) x \<and> (not_huge (vm_mem s) x \<longrightarrow> not_huge (vm_mem s1) x)" "lv \<subseteq>\<^sub>m lv1" "F1 \<subseteq> F" "card F \<le> Suc (card F1)"
    "present (vm_mem s1 ?s0)" "\<not> huge 0 (vm_mem s1 ?s0)" "lv1 (frame (vm_mem s1 ?s0)) = Some (Suc 0)"
    "vm_mem s ?s0 = 0 \<longrightarrow> (\<forall>j. unat j < 512 \<longrightarrow> vm_mem s1 (slot (frame (vm_mem s1 ?s0)) j) = 0)"
    "s1 = s\<lparr>vm_mem := vm_mem s1\<rparr>"
    using ensure_entry_ok [OF ok l0 _ level_index_lt [of 0 va]] F0 by (metis zero_less_numeral)
  define t1 where "t1 = frame (vm_mem s1 ?s0)"
  let ?s1 = "slot t1 ?i1"
  have l1: "lv1 t1 = Some 1" using s1(9) by (simp add: t1_def)
  have c1: "2 \<le> card F1" using s1(6) room by simp
  then have F1: "F1 \<noteq> {}" by auto
  have "\<not> huge 1 x" for x by (simp add: huge_def)
  moreover have "(1 :: nat) < 3" by simp
  ultimately obtain s2 F2 lv2 where s2: "ensure_entry ?s1 s1 = Some s2" "vm_ok s2 h D N F2 lv2"
    "\<forall>x. walk (vm_mem s2) x = walk (vm_mem s1) x \<and> (not_huge (vm_mem s1) x \<longrightarrow> not_huge (vm_mem s2) x)" "lv1 \<subseteq>\<^sub>m lv2" "F2 \<subseteq> F1" "card F1 \<le> Suc (card F2)"
    "present (vm_mem s2 ?s1)" "\<not> huge 1 (vm_mem s2 ?s1)" "lv2 (frame (vm_mem s2 ?s1)) = Some (Suc 1)"
    "vm_mem s1 ?s1 = 0 \<longrightarrow> (\<forall>j. unat j < 512 \<longrightarrow> vm_mem s2 (slot (frame (vm_mem s2 ?s1)) j) = 0)"
    "s2 = s1\<lparr>vm_mem := vm_mem s2\<rparr>"
    "\<forall>t0 k0 j. lv1 t0 = Some k0 \<longrightarrow> unat j < 512 \<longrightarrow> (t0, j) \<noteq> (t1, ?i1) \<longrightarrow>
       vm_mem s2 (slot t0 j) = vm_mem s1 (slot t0 j)"
    using ensure_entry_ok [OF s1(2) l1 _ level_index_lt [of 1 va]] F1 by metis
  define t2 where "t2 = frame (vm_mem s2 ?s1)"
  let ?s2 = "slot t2 ?i2"
  have l2: "lv2 t2 = Some 2" using s2(9) by (simp add: t2_def)
  have top1: "lv1 PML4T_START = Some 0" "lv2 PML4T_START = Some 0"
    using tables_okD(1) [OF vm_okD(3)] s1(2) s2(2) by blast+
  have ne1: "PML4T_START \<noteq> t1" using l1 top1 by auto
  have e0: "vm_mem s2 ?s0 = vm_mem s1 ?s0"
    using s2(12) top1(1) ne1 level_index_lt by blast
  have p1: "table_of (vm_mem s2) 1 va = Some t1"
    using s1(7,8) by (simp add: e0 t1_def)
  have p2: "table_of (vm_mem s2) 2 va = Some t2"
    unfolding level_Suc(2) t2_def by (rule table_of_Suc [OF p1 refl s2(7,8)])
  have leaf2: "\<not> huge 2 (vm_mem s2 ?s2)"
  proof (cases "vm_mem s1 ?s1 = 0")
    case True
    then have "vm_mem s2 ?s2 = 0" using s2(10) level_index_lt by (simp add: t2_def)
    then show ?thesis by simp
  next
    case False
    then have "s2 = s1" using s2(1) ensure_present by simp
    moreover have "vm_mem s ?s0 \<noteq> 0" using False s1(10) level_index_lt by (auto simp: t1_def)
    then have "s1 = s" using s1(1) ensure_present by simp
    ultimately show ?thesis using nh p2 by (simp add: not_huge_def)
  qed
  have c2: "1 \<le> card F2" using s2(6) c1 by simp
  then have F2: "F2 \<noteq> {}" by auto
  have "(2 :: nat) < 3" by simp
  then obtain s3 F3 lv3 where s3: "ensure_entry ?s2 s2 = Some s3" "vm_ok s3 h D N F3 lv3"
    "\<forall>x. walk (vm_mem s3) x = walk (vm_mem s2) x \<and> (not_huge (vm_mem s2) x \<longrightarrow> not_huge (vm_mem s3) x)" "F3 \<subseteq> F2" "card F2 \<le> Suc (card F3)"
    "present (vm_mem s3 ?s2)" "\<not> huge 2 (vm_mem s3 ?s2)" "lv3 (frame (vm_mem s3 ?s2)) = Some (Suc 2)"
    "s3 = s2\<lparr>vm_mem := vm_mem s3\<rparr>"
    "\<forall>t0 k0 j. lv2 t0 = Some k0 \<longrightarrow> unat j < 512 \<longrightarrow> (t0, j) \<noteq> (t2, ?i2) \<longrightarrow>
       vm_mem s3 (slot t0 j) = vm_mem s2 (slot t0 j)"
    using ensure_entry_ok [OF s2(2) l2 _ level_index_lt [of 2 va]] F2 leaf2 by metis
  define t3 where "t3 = frame (vm_mem s3 ?s2)"
  have l3: "lv3 t3 = Some 3" using s3(8) by (simp add: t3_def)
  have l12: "lv2 t1 = Some 1" using s2(4) l1 by (metis domI map_le_def)
  have ne: "PML4T_START \<noteq> t2" "t1 \<noteq> t2" using l2 l12 top1(2) by auto
  have e: "vm_mem s3 ?s0 = vm_mem s2 ?s0" "vm_mem s3 ?s1 = vm_mem s2 ?s1"
    using s3(10) top1(2) l12 ne level_index_lt by blast+
  have q1: "table_of (vm_mem s3) 1 va = Some t1"
    using s1(7,8) by (simp add: e e0 t1_def)
  have q2: "table_of (vm_mem s3) 2 va = Some t2"
    unfolding level_Suc(2) t2_def by (rule table_of_Suc [OF q1 e(2) s2(7,8)])
  have q3: "table_of (vm_mem s3) 3 va = Some t3"
    unfolding level_Suc(3) t3_def by (rule table_of_Suc [OF q2 refl s3(6,7)])
  define pte where "pte = frame pa OR PTE_PAGE_PRESENT OR PTE_PAGE_WRITE"
  define s' where "s' = s3\<lparr>vm_mem := (vm_mem s3)(slot t3 (level_index 3 va) := pte)\<rparr>"
  have run: "mem_map_page va pa False s = Some s'"
    unfolding mem_map_page_steps s1(1) bind.bind_lunit Let_def t1_def [symmetric] s2(1)
      t2_def [symmetric] s3(1) t3_def [symmetric] s'_def pte_def ..
  have ok': "vm_ok s' h D N F3 lv3"
    unfolding s'_def by (rule vm_ok_write_leaf [OF s3(2) l3 level_index_lt])
  have "present pte" "frame pte = frame pa" by (simp_all add: pte_def present_flags frame_flags)
  then have "walk (vm_mem s') va' = (if same_page va va' then Some (frame pa + take_bit 12 va')
      else walk (vm_mem s) va')" for va'
    using walk_write_leaf [OF vm_okD(3) [OF s3(2)] q3, of pte va'] s1(3) s2(3) s3(3)
    by (simp add: s'_def)
  moreover have "not_huge (vm_mem s') x" if "not_huge (vm_mem s) x" for x
    using not_huge_write_leaf [OF vm_okD(3) [OF s3(2)] l3 level_index_lt, of x 3 va pte] s1(3) s2(3) s3(3) that
    by (simp add: s'_def)
  moreover have "F3 \<subseteq> F" using s1(5) s2(5) s3(4) by blast
  moreover have "card F \<le> card F3 + 3" using s1(6) s2(6) s3(5) by simp
  moreover have "s' = s\<lparr>vm_mem := vm_mem s'\<rparr>"
  proof -
    have "s' = s3\<lparr>vm_mem := vm_mem s'\<rparr>" by (simp add: s'_def)
    from vm_mem_chain [OF vm_mem_chain [OF vm_mem_chain [OF s1(11) s2(11)] s3(9)] this] show ?thesis .
  qed
  ultimately show ?thesis using run ok' by blast
qed

subsection \<open>Mapping a range\<close>

lemma frame_offset:
  assumes "unat x < 2 ^ 48"
  shows "frame x + take_bit 12 x = x" and "unat (frame x) = 4096 * (unat x div 4096)"
proof -
  have "take_bit 48 (unat x) = unat x" using assms by (simp add: take_bit_nat_eq_self)
  then have t: "take_bit 48 x = x" by (metis unsigned_take_bit_eq word_unat_eq_iff)
  have hi: "\<not> bit x n" if "48 \<le> n" for n
    using arg_cong [OF t, of "\<lambda>y. bit y n"] that by (simp add: bit_simps)
  then have lo: "n < 48" if "bit x n" for n using that by (meson not_le)
  have "frame x AND take_bit 12 x = 0"
    by (rule bit_word_eqI) (auto simp: frame_def bit_simps page_mask_bit)
  then have "frame x + take_bit 12 x = frame x OR take_bit 12 x"
    by (simp add: disjunctive_add_eq_or)
  also have "\<dots> = x"
    by (rule bit_word_eqI) (use lo in \<open>auto simp: frame_def bit_simps page_mask_bit not_le\<close>)
  finally show e: "frame x + take_bit 12 x = x" .
  then have "frame x = x - take_bit 12 x" by (metis add_diff_cancel_right')
  moreover have u: "unat (take_bit 12 x) = unat x mod 4096"
    by (simp only: unsigned_take_bit_eq) (simp add: take_bit_eq_mod)
  moreover have "unat (take_bit 12 x) \<le> unat x" unfolding u by (rule mod_less_eq_dividend)
  then have "take_bit 12 x \<le> x" by (simp only: word_le_nat_alt)
  ultimately have "unat (frame x) = unat x - unat x mod 4096"
    by (simp add: unat_sub)
  then show "unat (frame x) = 4096 * (unat x div 4096)"
    by (metis minus_mod_eq_mult_div)
qed

lemma same_page_range:
  assumes "aligned pa" and "unat x < 2 ^ 48"
  shows "same_page pa x \<longleftrightarrow> unat pa \<le> unat x \<and> unat x < unat pa + 4096"
proof -
  have "same_page pa x \<longleftrightarrow> pa = frame x"
    using assms(1) by (simp add: same_page_def mem_prev_page_addr_4k_def frame_def aligned_def)
  also have "\<dots> \<longleftrightarrow> unat pa = 4096 * (unat x div 4096)"
    by (simp add: word_unat_eq_iff frame_offset(2) [OF assms(2)])
  also have "\<dots> \<longleftrightarrow> unat pa \<le> unat x \<and> unat x < unat pa + 4096"
  proof
    assume "unat pa = 4096 * (unat x div 4096)"
    then show "unat pa \<le> unat x \<and> unat x < unat pa + 4096"
      using mult_div_mod_eq [of 4096 "unat x"] mod_less_divisor [of 4096 "unat x"] by linarith
  next
    assume r: "unat pa \<le> unat x \<and> unat x < unat pa + 4096"
    define q where "q = unat pa div 4096"
    have p: "unat pa = 4096 * q"
      using aligned_bits(1) [OF assms(1)] mult_div_mod_eq [of 4096 "unat pa"] by (simp add: q_def)
    then obtain d where d: "unat x = 4096 * q + d" "d < 4096"
      using r by (metis add_less_cancel_left le_Suc_ex)
    then have "unat x div 4096 = q" by simp
    then show "unat pa = 4096 * (unat x div 4096)" using p by simp
  qed
  finally show ?thesis .
qed

lemma aligned_next:
  assumes "aligned pa" and "unat pa + 4096 < 2 ^ 48"
  shows "aligned (pa + 4096)" and "unat (pa + 4096) = unat pa + 4096"
proof -
  show u: "unat (pa + 4096) = unat pa + 4096" using assms(2) by (simp add: unat_word_ariths)
  then have "unat (frame (pa + 4096)) = 4096 * ((unat pa + 4096) div 4096)"
    using frame_offset(2) [of "pa + 4096"] assms(2) by simp
  also have "\<dots> = unat pa + 4096"
  proof -
    obtain q where "unat pa = 4096 * q" using aligned_bits(1) [OF assms(1)] by (metis mod_0_imp_dvd dvdE)
    then show ?thesis by simp
  qed
  finally show "aligned (pa + 4096)" using u by (simp add: aligned_def word_unat_eq_iff)
qed

lemma map_range_loop_ok:
  assumes "vm_ok s h D N F lv" and "aligned pa" and "unat pa + 4096 * n < 2 ^ 48" and "3 * n \<le> card F"
    and "\<forall>x. unat pa \<le> unat x \<and> unat x < unat pa + 4096 * n \<longrightarrow> not_huge (vm_mem s) x"
  shows "\<exists>s' F' lv'. map_range_loop PAGE_SIZE_4K False (pa + of_nat (4096 * n)) pa pa s = Some s' \<and>
    vm_ok s' h D N F' lv' \<and> s' = s\<lparr>vm_mem := vm_mem s'\<rparr> \<and>
    (\<forall>x. unat x < 2 ^ 48 \<longrightarrow> walk (vm_mem s') x =
       (if unat pa \<le> unat x \<and> unat x < unat pa + 4096 * n then Some x else walk (vm_mem s) x))"
  using assms
proof (induction n arbitrary: pa s F lv)
  case 0
  then show ?case
    by (intro exI [of _ s] exI [of _ F] exI [of _ lv]) (auto simp: map_range_loop.simps [of _ _ pa pa])
next
  case (Suc n)
  have three: "3 \<le> card F" using Suc.prems(4) by simp
  have nh: "not_huge (vm_mem s) pa" using Suc.prems(5) by simp
  obtain s1 F1 lv1 where s1: "mem_map_page pa pa False s = Some s1" "vm_ok s1 h D N F1 lv1"
    "card F \<le> card F1 + 3" "s1 = s\<lparr>vm_mem := vm_mem s1\<rparr>"
    "\<forall>x. walk (vm_mem s1) x = (if same_page pa x then Some (frame pa + take_bit 12 x) else walk (vm_mem s) x)"
    "\<forall>x. not_huge (vm_mem s) x \<longrightarrow> not_huge (vm_mem s1) x"
    using mem_map_page_maps [OF Suc.prems(1) three nh, of pa] by metis
  have lt: "unat pa + 4096 < 2 ^ 48 \<or> n = 0" using Suc.prems(3) by auto
  have e: "pa + of_nat (4096 * Suc n) = (pa + 4096) + of_nat (4096 * n)" by (simp add: algebra_simps)
  define K where "K = 4096 * Suc n"
  have "K < 2 ^ 64" "unat pa + K < 2 ^ 64" using Suc.prems(3) by (simp_all add: K_def)
  then have "unat (pa + of_nat K) = unat pa + K"
    by (simp add: unat_word_ariths unat_of_nat take_bit_nat_eq_self)
  then have "unat (pa + of_nat (4096 * Suc n)) = unat pa + 4096 * Suc n" by (simp only: K_def)
  then have less: "pa < pa + of_nat (4096 * Suc n)" by (simp add: word_less_nat_alt)
  have lt: "unat pa + 4096 < 2 ^ 48" using Suc.prems(3) by simp
  note nx = aligned_next [OF Suc.prems(2) lt]
  have step: "map_range_loop PAGE_SIZE_4K False (pa + of_nat (4096 * Suc n)) pa pa s =
      map_range_loop PAGE_SIZE_4K False ((pa + 4096) + of_nat (4096 * n)) (pa + 4096) (pa + 4096) s1"
    using less unfolding e [symmetric]
    by (subst map_range_loop.simps) (simp add: s1(1) PAGE_SIZE_4K_def)
  have prems: "unat (pa + 4096) + 4096 * n < 2 ^ 48" "3 * n \<le> card F1"
    "\<forall>x. unat (pa + 4096) \<le> unat x \<and> unat x < unat (pa + 4096) + 4096 * n \<longrightarrow> not_huge (vm_mem s1) x"
    using Suc.prems(3-5) s1(3,6) nx(2) by auto
  obtain s2 F2 lv2 where s2: "map_range_loop PAGE_SIZE_4K False ((pa + 4096) + of_nat (4096 * n)) (pa + 4096) (pa + 4096) s1 = Some s2"
    "vm_ok s2 h D N F2 lv2" "s2 = s1\<lparr>vm_mem := vm_mem s2\<rparr>"
    "\<forall>x. unat x < 2 ^ 48 \<longrightarrow> walk (vm_mem s2) x =
       (if unat (pa + 4096) \<le> unat x \<and> unat x < unat (pa + 4096) + 4096 * n then Some x else walk (vm_mem s1) x)"
    using Suc.IH [OF s1(2) nx(1) prems] by auto
  have walk: "walk (vm_mem s2) x =
      (if unat pa \<le> unat x \<and> unat x < unat pa + 4096 * Suc n then Some x else walk (vm_mem s) x)"
    if x: "unat x < 2 ^ 48" for x
  proof -
    have "same_page pa x \<longleftrightarrow> unat pa \<le> unat x \<and> unat x < unat pa + 4096"
      by (rule same_page_range [OF Suc.prems(2) x])
    moreover have "same_page pa x \<Longrightarrow> frame pa = frame x"
      by (simp add: same_page_def mem_prev_page_addr_4k_def frame_def)
    ultimately show ?thesis
      using s2(4) s1(5) x frame_offset(1) [OF x] nx(2) by auto
  qed
  show ?case
    using step s2(1,2) walk vm_mem_chain [OF s1(4) s2(3)] by auto
qed

subsection \<open>The page manager after its initialisation\<close>

lemma fill_bitmap:
  fixes n :: u64
  shows "for_upto 0 n (\<lambda>i w. w(d + 8 * i := - 1)) w a =
    (if a \<in> (\<lambda>j. d + 8 * of_nat j) ` {..<unat n} then - 1 else w a)"
proof (rule for_upto_invariant [where P = "\<lambda>k v. v a = (if a \<in> (\<lambda>j. d + 8 * of_nat j) ` {..<k} then - 1 else w a)"])
  fix k v assume "v a = (if a \<in> (\<lambda>j. d + 8 * of_nat j) ` {..<k} then - 1 else w a)"
  then show "(v(d + 8 * of_nat k := - 1)) a = (if a \<in> (\<lambda>j. d + 8 * of_nat j) ` {..<Suc k} then - 1 else w a)"
    by (simp add: lessThan_Suc)
qed simp

text \<open>The directory pages for \<open>T\<close> pages of memory.\<close>

definition dir_pages :: "nat \<Rightarrow> nat" where
  "dir_pages T = ((T + 7) div 8 + 4095) div 4096"

lemma dir_pages_bounds: "0 < T \<Longrightarrow> 0 < dir_pages T" "dir_pages T \<le> T"
  by (simp_all add: dir_pages_def)

lemma unat_pages:
  fixes sz :: u64
  assumes "sz = of_nat (4096 * T)" and "T < 2 ^ 51"
  shows "(sz + PAGE_SIZE_4K - 1) div PAGE_SIZE_4K = of_nat T"
    and "((of_nat T + 7) div 8 + PAGE_SIZE_4K - 1) div PAGE_SIZE_4K = (of_nat (dir_pages T) :: u64)"
proof -
  have "unat (sz + PAGE_SIZE_4K - 1) = 4096 * T + 4095"
  proof -
    have "sz + PAGE_SIZE_4K - 1 = of_nat (4096 * T + 4095)"
      by (simp add: assms(1) PAGE_SIZE_4K_def)
    moreover have "4096 * T + 4095 < 2 ^ 64" using assms(2) by simp
    ultimately show ?thesis by (simp only: unat_of_nat) (simp add: take_bit_nat_eq_self)
  qed
  then show "(sz + PAGE_SIZE_4K - 1) div PAGE_SIZE_4K = of_nat T"
    by (simp add: word_arith_nat_div PAGE_SIZE_4K_def)
  have "unat (of_nat T + 7 :: u64) = T + 7"
    using assms(2) by (simp add: unat_word_ariths unat_of_nat take_bit_nat_eq_self)
  then have a: "(of_nat T + 7 :: u64) div 8 = of_nat ((T + 7) div 8)"
    by (simp add: word_arith_nat_div)
  have "(T + 7) div 8 + 4095 < 2 ^ 64" using assms(2) by simp
  moreover have "of_nat ((T + 7) div 8) + PAGE_SIZE_4K - 1 = (of_nat ((T + 7) div 8 + 4095) :: u64)"
    by (simp add: PAGE_SIZE_4K_def)
  ultimately have "unat (of_nat ((T + 7) div 8) + PAGE_SIZE_4K - 1 :: u64) = (T + 7) div 8 + 4095"
    by (simp only: unat_of_nat) (simp add: take_bit_nat_eq_self)
  then show "((of_nat T + 7) div 8 + PAGE_SIZE_4K - 1) div PAGE_SIZE_4K = (of_nat (dir_pages T) :: u64)"
    unfolding a by (simp add: word_arith_nat_div PAGE_SIZE_4K_def dir_pages_def)
qed

lemma pgm_init_ok:
  assumes base: "mem_prev_page_addr_4k base = base"
    and T: "0 < T" "T < 2 ^ 40" and fits: "T - dir_pages T + 384 \<le> 32768 * dir_pages T"
    and map: "mem_map_range_4k base base (of_nat (4096 * dir_pages T)) s = Inr (True, s1)"
  shows "\<exists>s2. pgm_init base (of_nat (4096 * T)) s = Inr (HANDLE base, s2) \<and>
     pgm_ok (vm_mem s2) base (512 * dir_pages T - 6) (T - dir_pages T) {..<T - dir_pages T} \<and>
     page_addr (vm_mem s2) base p = base + of_nat (4096 * (dir_pages T + p))"
proof -
  let ?P = "dir_pages T" and ?sz = "of_nat (4096 * T) :: u64"
  let ?D = "512 * ?P - 6" and ?N = "T - ?P"
  have P: "0 < ?P" "?P \<le> T" using dir_pages_bounds T(1) by auto
  have al: "aligned base" using base by (simp add: aligned_def frame_def mem_prev_page_addr_4k_def)
  have b48: "unat base < 2 ^ 48" by (rule aligned_bits(2) [OF al])
  have usz: "unat ?sz = 4096 * T" using T(2) by (simp only: unat_of_nat) (simp add: take_bit_nat_eq_self)
  have sz0: "?sz mod PAGE_SIZE_4K = 0"
    by (simp add: word_arith_nat_mod usz PAGE_SIZE_4K_def del: of_nat_mult)
  have T51: "T < 2 ^ 51" using T(2) by simp
  note pages = unat_pages [OF refl T51]
  have ds: "of_nat ?P * PAGE_SIZE_4K = (of_nat (4096 * ?P) :: u64)" by (simp add: PAGE_SIZE_4K_def)
  have c: "unat ((of_nat (4096 * ?P) - pgm_header_size :: u64) div 8) = ?D"
  proof -
    have "of_nat (4096 * ?P) - pgm_header_size = (of_nat (4096 * ?P - 48) :: u64)"
      using P(1) by (simp add: pgm_header_size_def of_nat_diff)
    moreover have "4096 * ?P - 48 < 2 ^ 64" using P T(2) by simp
    ultimately have "unat (of_nat (4096 * ?P) - pgm_header_size :: u64) = 4096 * ?P - 48"
      by (simp only: unat_of_nat) (simp add: take_bit_nat_eq_self)
    then show ?thesis by (simp add: unat_div)
  qed
  define w where "w = for_upto 0 ((of_nat (4096 * ?P) - pgm_header_size) div 8)
      (\<lambda>i w. w(base + pgm_header_size + 8 * i := - 1)) (vm_mem s1)"
  define w' where "w' = w(base := base + pgm_header_size, base + 8 := of_nat (4096 * ?P),
      base + 16 := base + of_nat (4096 * ?P), base + 24 := of_nat T - of_nat ?P,
      base + 32 := of_nat T - of_nat ?P, base + 40 := base + pgm_header_size)"
  have run: "pgm_init base ?sz s = Inr (HANDLE base, s1\<lparr>vm_mem := w'\<rparr>)"
    using base sz0 unfolding pgm_init_def Let_def pages ds map bind_result_simps w'_def w_def by simp
  have o: "unat base + 48 + 8 * ?D < 2 ^ 64" using b48 P T(2) by simp
  have bits: "w' (dir_word base j) = - 1" if "j < ?D" for j
  proof -
    have "dir_word base j = base + pgm_header_size + 8 * of_nat j"
      by (simp add: dir_word_def pgm_header_size_def)
    then have "w (dir_word base j) = - 1"
      unfolding w_def fill_bitmap c using that by auto
    then show ?thesis
      using dir_word_fields [OF o, of j] that by (simp add: w'_def)
  qed
  have N: "of_nat T - of_nat ?P = (of_nat ?N :: u64)" using P(2) by (simp add: of_nat_diff)
  have hdr: "w' base = dir_word base 0" "w' (base + 24) = of_nat ?N" "w' (base + 32) = of_nat ?N"
    "w' (base + 40) = dir_word base 0" "w' (base + 16) = base + of_nat (4096 * ?P)"
    by (simp_all add: w'_def N dir_word_def pgm_header_size_def)
  have fits': "?N \<le> 64 * ?D" using fits P(1) by simp
  have "pgm_ok w' base ?D ?N {..<?N}"
    unfolding pgm_ok_def pg_fields
  proof (intro conjI exI [of _ 0])
    show "\<forall>j<?D. \<forall>i<64. bit (w' (dir_word base j)) i = (64 * j + i \<in> {..<?N} \<or> ?N \<le> 64 * j + i)"
      using bits by (auto simp: bit_simps)
    show "?N \<le> 2 ^ 52" using T(2) by simp
  qed (use o fits' hdr in simp_all)
  moreover have "page_addr w' base p = base + of_nat (4096 * (?P + p))"
    by (simp add: page_addr_def pg_fields hdr PAGE_SIZE_4K_def algebra_simps)
  ultimately show ?thesis using run by auto
qed

subsection \<open>Properties\<close>

text \<open>
  C10.  \<open>mem_map_page\<close> makes the processor translate every address of the page to the same
  offset of the physical page, leaves the translation of every other page as it was, takes at
  most three pages from the low page manager for missing tables, and keeps the tables a tree.
\<close>
theorem mem_map_page_correct:
  assumes "vm_ok s h D N F lv" and "3 \<le> card F" and "not_huge (vm_mem s) va"
  shows "\<exists>s' F' lv'. mem_map_page va pa False s = Some s' \<and> vm_ok s' h D N F' lv' \<and>
    F' \<subseteq> F \<and> card F \<le> card F' + 3 \<and>
    (\<forall>va'. walk (vm_mem s') va' =
       (if mem_prev_page_addr_4k va' = mem_prev_page_addr_4k va
        then Some (mem_prev_page_addr_4k pa + take_bit 12 va') else walk (vm_mem s) va'))"
proof -
  have "frame pa = mem_prev_page_addr_4k pa" by (simp add: frame_def mem_prev_page_addr_4k_def)
  then show ?thesis
    using mem_map_page_maps [OF assms, of pa] unfolding same_page_def by (metis (no_types, lifting))
qed

text \<open>A state with an empty PML4 table at \<open>0x3000\<close> and seven free pages behind three used ones.\<close>

definition example_vm :: vm_state where
  "example_vm = \<lparr>vm_mem = (\<lambda>_. 0)(8192 := 8240, 8200 := 56, 8208 := 12288, 8216 := 10, 8224 := 7,
       8232 := 8240, 8240 := - 8),
     mem_inited = True, mem_low_pgm_handle = HANDLE 8192, mem_main_pgm_handle = 0\<rparr>"

lemma bit_minus_8: "bit (- 8 :: u64) i \<longleftrightarrow> 3 \<le> i \<and> i < 64"
proof -
  have m: "(- 8 :: u64) = NOT (mask 3)" by (simp add: mask_eq_exp_minus_1)
  show ?thesis unfolding m by (simp only: bit_not_iff bit_mask_iff) auto
qed

lemma example_low_words: "12288 \<le> unat a \<Longrightarrow> vm_mem example_vm a = 0"
  by (auto simp: example_vm_def)

lemma example_vm_ok: "vm_ok example_vm 8192 1 10 {3..<10} [PML4T_START \<mapsto> 0]"
proof -
  have al: "aligned (page_addr (vm_mem example_vm) 8192 p) \<and> unat (page_addr (vm_mem example_vm) 8192 p) = 12288 + 4096 * p"
    if "p < 10" for p
  proof -
    have "p \<in> set [0..<10]" using that by simp
    then show ?thesis
      by (auto simp: upt_rec aligned_def frame_def PTE_PAGE_NUMBER_MASK_4K_def page_addr_def
          example_vm_def pg_fields PAGE_SIZE_4K_def)
  qed
  have top: "aligned PML4T_START" "unat PML4T_START = 12288"
    by (simp_all add: aligned_def frame_def PTE_PAGE_NUMBER_MASK_4K_def PML4T_START_def)
  have area: "unat a < 8192 + 56" if "a \<in> pgm_area 8192 1" for a
    using that by (auto simp: pgm_area_def region_def unat_word_ariths unat_of_nat take_bit_nat_eq_self)
  have apart: "page_words t \<inter> pgm_area 8192 1 = {}" if "aligned t" "12288 \<le> unat t" for t
    using area unat_slot [OF that(1)] that(2) by (fastforce simp: page_words_def)
  have zero: "vm_mem example_vm (slot PML4T_START i) = 0" if "unat i < 512" for i
    using unat_slot [OF top(1) that] top(2) by (intro example_low_words) simp
  have bits: "bit (- 8 :: u64) i \<longleftrightarrow> i \<in> {3..<10} \<or> 10 \<le> i" if "i < 64" for i
    using that unfolding bit_minus_8 by auto
  have "pgm_ok (vm_mem example_vm) 8192 1 10 {3..<10}"
    unfolding pgm_ok_def
  proof (intro conjI)
    show "\<exists>k\<le>1. vm_mem example_vm (pg_ptr 8192) = dir_word 8192 k \<and> (\<forall>j<k. vm_mem example_vm (dir_word 8192 j) = 0)"
      by (intro exI [of _ 0]) (simp add: example_vm_def pg_fields dir_word_def)
  qed (use bits in \<open>auto simp: example_vm_def pg_fields dir_word_def\<close>)
  moreover have "tables_ok (vm_mem example_vm) [PML4T_START \<mapsto> 0]"
    using top(1) zero by (auto simp: tables_ok_def split: if_splits)
  moreover have "aligned (page_addr (vm_mem example_vm) 8192 p) \<and>
      [PML4T_START \<mapsto> 0] (page_addr (vm_mem example_vm) 8192 p) = None \<and>
      page_words (page_addr (vm_mem example_vm) 8192 p) \<inter> pgm_area 8192 1 = {}"
    if "p \<in> {3..<10}" for p
  proof -
    have a: "aligned (page_addr (vm_mem example_vm) 8192 p)"
      "unat (page_addr (vm_mem example_vm) 8192 p) = 12288 + 4096 * p"
      using al [of p] that by simp_all
    moreover have "page_addr (vm_mem example_vm) 8192 p \<noteq> PML4T_START"
      using a(2) top(2) that by auto
    moreover have "page_words (page_addr (vm_mem example_vm) 8192 p) \<inter> pgm_area 8192 1 = {}"
      by (rule apart) (use a in simp_all)
    ultimately show ?thesis by simp
  qed
  moreover have "page_words PML4T_START \<inter> pgm_area 8192 1 = {}" by (rule apart) (use top in simp_all)
  then have "\<forall>t. [PML4T_START \<mapsto> 0] t \<noteq> None \<longrightarrow> page_words t \<inter> pgm_area 8192 1 = {}"
    by (auto split: if_splits)
  moreover have "mem_low_pgm_handle example_vm = HANDLE 8192" by (simp add: example_vm_def)
  ultimately show ?thesis unfolding vm_ok_def by blast
qed

lemma example_not_huge: "not_huge (vm_mem example_vm) x"
proof -
  have top: "aligned PML4T_START" "unat PML4T_START = 12288"
    by (simp_all add: aligned_def frame_def PTE_PAGE_NUMBER_MASK_4K_def PML4T_START_def)
  have "vm_mem example_vm (slot PML4T_START (level_index 0 x)) = 0"
    using unat_slot [OF top(1) level_index_lt] top(2) by (intro example_low_words) simp
  then have "table_of (vm_mem example_vm) 2 x = None" by (simp add: numeral_2_eq_2)
  then show ?thesis by (simp add: not_huge_def)
qed

theorem mem_map_page_correct_witness:
  "\<exists>s'. mem_map_page 0x400000 0x7000 False example_vm = Some s' \<and> walk (vm_mem s') 0x400123 = Some 0x7123"
  using mem_map_page_correct [where va = "0x400000" and pa = "0x7000", OF example_vm_ok _ example_not_huge]
  by (auto simp: mem_prev_page_addr_4k_def PTE_PAGE_NUMBER_MASK_4K_def take_bit_eq_mod)

text \<open>
  C11.  \<open>mem_map_range_4k\<close> with equal addresses identity-maps exactly the range: afterwards every
  address of the range translates to itself and every other one as before.  For any arguments it
  panics exactly if the physical address is not the start of a page, or the virtual address does
  not lie in that very page (an unaligned one inside it passes the assertion), or the size is not
  a multiple of 4096; before the memory subsystem is initialised it only returns false.
\<close>
theorem mem_map_range_4k_identity:
  assumes "vm_ok s h D N F lv" and "mem_inited s"
    and "mem_prev_page_addr_4k a = a" and "unat a + 4096 * n < 2 ^ 48" and "3 * n \<le> card F"
    and "\<forall>x. unat a \<le> unat x \<and> unat x < unat a + 4096 * n \<longrightarrow> not_huge (vm_mem s) x"
  shows "(\<exists>s'. mem_map_range_4k a a (of_nat (4096 * n)) s = Inr (True, s') \<and>
     (\<forall>x. unat x < 2 ^ 48 \<longrightarrow> walk (vm_mem s') x =
       (if unat a \<le> unat x \<and> unat x < unat a + 4096 * n then Some x else walk (vm_mem s) x))) \<and>
   ((\<exists>msg. mem_map_range_4k pa va sz s = Inl (Panic msg)) \<longleftrightarrow>
     mem_prev_page_addr_4k pa \<noteq> pa \<or> mem_prev_page_addr_4k va \<noteq> pa \<or> \<not> 4096 dvd unat sz) \<and>
   (\<not> mem_inited off \<longrightarrow> mem_map_range_4k pa va sz off = Inr (False, off))"
proof (intro conjI)
  have al: "aligned a" using assms(3) by (simp add: aligned_def frame_def mem_prev_page_addr_4k_def)
  have "4096 * n < 2 ^ 64" using assms(4) by simp
  then have "unat (of_nat (4096 * n) :: u64) = 4096 * n"
    by (simp only: unat_of_nat) (simp add: take_bit_nat_eq_self)
  then have "(of_nat (4096 * n) :: u64) mod PAGE_SIZE_4K = 0"
    by (simp add: word_arith_nat_mod PAGE_SIZE_4K_def del: of_nat_mult)
  then show "\<exists>s'. mem_map_range_4k a a (of_nat (4096 * n)) s = Inr (True, s') \<and>
     (\<forall>x. unat x < 2 ^ 48 \<longrightarrow> walk (vm_mem s') x =
       (if unat a \<le> unat x \<and> unat x < unat a + 4096 * n then Some x else walk (vm_mem s) x))"
    using map_range_loop_ok [OF assms(1) al assms(4-6)] assms(2,3)
    by (auto simp: mem_map_range_4k_def run_def)
  have m: "sz mod PAGE_SIZE_4K = 0 \<longleftrightarrow> 4096 dvd unat sz"
    by (simp add: PAGE_SIZE_4K_def word_unat_eq_iff unat_mod dvd_eq_mod_eq_0)
  show "(\<exists>msg. mem_map_range_4k pa va sz s = Inl (Panic msg)) \<longleftrightarrow>
     mem_prev_page_addr_4k pa \<noteq> pa \<or> mem_prev_page_addr_4k va \<noteq> pa \<or> \<not> 4096 dvd unat sz"
    using assms(2) by (auto simp: mem_map_range_4k_def m run_def kassert_def bind_result_def split: option.splits)
qed (simp add: mem_map_range_4k_def)

theorem mem_map_range_4k_identity_witness:
  "(\<exists>s'. mem_map_range_4k 0x400000 0x400000 0x2000 example_vm = Inr (True, s') \<and>
     walk (vm_mem s') 0x401123 = Some 0x401123) \<and>
   (\<exists>msg. mem_map_range_4k 0x400000 0x400000 0x2001 example_vm = Inl (Panic msg))"
proof -
  have al: "mem_prev_page_addr_4k 0x400000 = 0x400000"
    by (simp add: mem_prev_page_addr_4k_def PTE_PAGE_NUMBER_MASK_4K_def)
  have on: "mem_inited example_vm" by (simp add: example_vm_def)
  have r: "(\<exists>s'. mem_map_range_4k 0x400000 0x400000 (of_nat (4096 * 2)) example_vm = Inr (True, s') \<and>
    (\<forall>x. unat x < 2 ^ 48 \<longrightarrow> walk (vm_mem s') x =
       (if unat (0x400000 :: u64) \<le> unat x \<and> unat x < unat (0x400000 :: u64) + 4096 * 2 then Some x
        else walk (vm_mem example_vm) x))) \<and>
   ((\<exists>msg. mem_map_range_4k 0x400000 0x400000 0x2001 example_vm = Inl (Panic msg)) \<longleftrightarrow>
     mem_prev_page_addr_4k 0x400000 \<noteq> 0x400000 \<or> mem_prev_page_addr_4k 0x400000 \<noteq> 0x400000 \<or>
     \<not> 4096 dvd unat (0x2001 :: u64)) \<and>
   (\<not> mem_inited example_vm \<longrightarrow>
     mem_map_range_4k 0x400000 0x400000 0x2001 example_vm = Inr (False, example_vm))"
    by (rule mem_map_range_4k_identity [OF example_vm_ok on al]) (use example_not_huge in simp_all)
  have "\<exists>msg. mem_map_range_4k 0x400000 0x400000 0x2001 example_vm = Inl (Panic msg)"
    using r by (simp add: dvd_eq_mod_eq_0)
  moreover have "\<exists>s'. mem_map_range_4k 0x400000 0x400000 0x2000 example_vm = Inr (True, s') \<and>
     walk (vm_mem s') 0x401123 = Some 0x401123"
    using conjunct1 [OF r] by (auto dest: spec [of _ "0x401123"])
  ultimately show ?thesis by simp
qed

text \<open>
  \<open>pgm_init\<close> sets up a page manager all of whose pages are free: \<open>T\<close> pages of memory,
  less the pages of the directory, provided the directory's bitmap has a bit for each of them
  (which is not so for every \<open>T\<close>: the header's 48 bytes are taken from the bitmap).
\<close>
theorem pgm_init_correct:
  assumes "mem_prev_page_addr_4k base = base" and "0 < T" and "T < 2 ^ 40"
    and "T - dir_pages T + 384 \<le> 32768 * dir_pages T"
    and "mem_map_range_4k base base (of_nat (4096 * dir_pages T)) s = Inr (True, s1)"
  shows "\<exists>s2. pgm_init base (of_nat (4096 * T)) s = Inr (HANDLE base, s2) \<and>
     pgm_ok (vm_mem s2) base (512 * dir_pages T - 6) (T - dir_pages T) {..<T - dir_pages T} \<and>
     page_addr (vm_mem s2) base p = base + of_nat (4096 * (dir_pages T + p))"
  by (rule pgm_init_ok [OF assms])

theorem pgm_init_correct_witness:
  "\<exists>s2. pgm_init 0x400000 0x10000 example_vm = Inr (HANDLE 0x400000, s2) \<and>
     pgm_ok (vm_mem s2) 0x400000 506 15 {..<15}"
proof -
  have al: "mem_prev_page_addr_4k 0x400000 = 0x400000"
    by (simp add: mem_prev_page_addr_4k_def PTE_PAGE_NUMBER_MASK_4K_def)
  then have "aligned 0x400000" by (simp add: aligned_def frame_def mem_prev_page_addr_4k_def)
  then obtain s1 where "map_range_loop PAGE_SIZE_4K False (0x400000 + of_nat (4096 * 1)) 0x400000 0x400000 example_vm = Some s1"
    using map_range_loop_ok [OF example_vm_ok, of "0x400000" 1] example_not_huge by auto
  then have m: "mem_map_range_4k 0x400000 0x400000 (of_nat (4096 * dir_pages 16)) example_vm = Inr (True, s1)"
    using al by (simp add: mem_map_range_4k_def run_def example_vm_def dir_pages_def PAGE_SIZE_4K_def)
  show ?thesis
    using pgm_init_correct [where p = 0, OF al _ _ _ m] by (auto simp: dir_pages_def)
qed

end
