(* ===== verification/MemMap.thy ===== *)
theory MemMap
  imports Paging
begin

text \<open>
  The memory map of \<open>kernel/mem/mem.c\<close>: which physical ranges exist and what they are used for,
  and \<open>mem_init\<close>, which sets up the page managers, the heap and the map.  The list of
  \<open>mem_range_node\<close>s is the sequence of its ranges (the theory \<open>Dll\<close> shows that the list
  operations used here, \<open>dll_add_tail\<close>, \<open>dll_add_after\<close>, \<open>dll_add_before\<close> and \<open>dll_remove\<close>, act
  on the sequence so).  The nodes come from \<open>kmalloc\<close>, whose result the code writes through
  without a check: a run is given the number of nodes the heap hands out before it first returns
  \<open>NULL\<close>, and needing one more is \<open>Undefined\<close>.  The multiboot memory map is the list of the entries the loops visit.

  \<open>heap_init\<close> and \<open>elf_get_max_kernel_addr\<close> are arguments of \<open>mem_init\<close>.
\<close>

subsection \<open>Ranges\<close>

type_synonym mem_type = u32

definition MEMORY_AVAILABLE :: mem_type where "MEMORY_AVAILABLE = 1"
definition MEMORY_HEAP :: mem_type where "MEMORY_HEAP = 8"
definition MEMORY_USB_DEVICE :: mem_type where "MEMORY_USB_DEVICE = 7"
definition MEMORY_FRAME_BUFFER :: mem_type where "MEMORY_FRAME_BUFFER = 9"
definition MEMORY_LAPIC :: mem_type where "MEMORY_LAPIC = 11"
definition MEMORY_STACKS :: mem_type where "MEMORY_STACKS = 12"
definition MEMORY_EBDA :: mem_type where "MEMORY_EBDA = 13"
definition MEMORY_MOTHERBOARD_BIOS :: mem_type where "MEMORY_MOTHERBOARD_BIOS = 14"
definition MEMORY_SMP_TRAMPOLINE :: mem_type where "MEMORY_SMP_TRAMPOLINE = 15"
definition MEMORY_PAGE_TABLE :: mem_type where "MEMORY_PAGE_TABLE = 16"
definition MEMORY_PGM :: mem_type where "MEMORY_PGM = 17"
definition MEMORY_KERNEL :: mem_type where "MEMORY_KERNEL = 18"

definition MAIN_MEM_START :: u64 where "MAIN_MEM_START = 0x100000"
definition HEAP_VIRTUAL_ADDR :: u64 where "HEAP_VIRTUAL_ADDR = 0x0000010000000000"
definition STACK_VIRTUAL_ADDR :: u64 where "STACK_VIRTUAL_ADDR = 0x0000020000000000"
definition MAX_VIRTUAL_ADDR :: u64 where "MAX_VIRTUAL_ADDR = 0xFFFFFFFFFFFFFFFF"
definition HEAP_SIZE :: u64 where "HEAP_SIZE = 512 * PAGE_SIZE_4K"

record mem_range =
  phys_addr :: u64
  virt_addr :: u64
  range_size :: u64
  range_type :: mem_type

record mb2_mmap_entry =
  mmap_addr :: u64
  mmap_len :: u64
  mmap_type :: u32

text \<open>The test the lookups share: \<open>addr >= r->phys_addr && addr < r->phys_addr + r->size\<close>.\<close>

definition in_range :: "u64 \<Rightarrow> u64 \<Rightarrow> u64 \<Rightarrow> bool" where
  "in_range addr start len \<longleftrightarrow> addr \<ge> start \<and> addr < start + len"

fun mem_find :: "mb2_mmap_entry list \<Rightarrow> u64 \<Rightarrow> mb2_mmap_entry option" where
  "mem_find [] addr = None"
| "mem_find (mmap # rest) addr =
     (if in_range addr (mmap_addr mmap) (mmap_len mmap) then Some mmap else mem_find rest addr)"

fun mem_find_range_internal :: "u64 \<Rightarrow> mem_range list \<Rightarrow> mem_range option" where
  "mem_find_range_internal addr [] = None"
| "mem_find_range_internal addr (r # rs) =
     (if in_range addr (phys_addr r) (range_size r) then Some r else mem_find_range_internal addr rs)"

text \<open>\<open>mem_mark_range\<close> changes the type of the node \<open>mem_find_range_internal\<close> finds.\<close>

fun mem_mark_range :: "u64 \<Rightarrow> mem_type \<Rightarrow> mem_range list \<Rightarrow> mem_range list" where
  "mem_mark_range addr type [] = []"
| "mem_mark_range addr type (r # rs) =
     (if in_range addr (phys_addr r) (range_size r) then r\<lparr>range_type := type\<rparr> # rs
      else r # mem_mark_range addr type rs)"

text \<open>\<open>None\<close>: the function returned \<open>false\<close>.\<close>

definition mem_find_range :: "bool \<Rightarrow> u64 \<Rightarrow> mem_range list \<Rightarrow> mem_range option" where
  "mem_find_range inited addr rs = (if inited then mem_find_range_internal addr rs else None)"

fun find_by_type :: "mem_type \<Rightarrow> mem_range list \<Rightarrow> mem_range option" where
  "find_by_type type [] = None"
| "find_by_type type (r # rs) = (if type = range_type r then Some r else find_by_type type rs)"

definition mem_find_range_by_type :: "bool \<Rightarrow> mem_type \<Rightarrow> mem_range list \<Rightarrow> mem_range option" where
  "mem_find_range_by_type inited type rs = (if inited then find_by_type type rs else None)"

definition mem_contains :: "mem_range \<Rightarrow> mem_range \<Rightarrow> bool" where
  "mem_contains r1 r2 =
     (let x1 = phys_addr r1; x2 = phys_addr r1 + range_size r1;
          y1 = phys_addr r2; y2 = phys_addr r2 + range_size r2
      in y1 \<ge> x1 \<and> y2 \<le> x2)"

definition mem_intersect :: "mem_range \<Rightarrow> mem_range \<Rightarrow> bool" where
  "mem_intersect r1 r2 =
     (let x1 = phys_addr r1; x2 = phys_addr r1 + range_size r1;
          y1 = phys_addr r2; y2 = phys_addr r2 + range_size r2
      in (y1 \<ge> x1 \<and> y1 < x2) \<or> (y2 \<ge> x1 \<and> y2 < x2))"

text \<open>
  What replaces \<open>r\<close>: the prefix of \<open>r\<close>, the new range and the suffix of \<open>r\<close>, each only when it
  is not empty (the code inserts them after \<open>r\<close> in the reverse order and then removes \<open>r\<close>).
\<close>

definition split_range :: "mem_range \<Rightarrow> mem_range \<Rightarrow> mem_range list" where
  "split_range r rng =
     (let addr1 = phys_addr r; addr2 = phys_addr rng;
          addr3 = phys_addr rng + range_size rng; addr4 = phys_addr r + range_size r
      in (if addr2 > addr1 then [r\<lparr>range_size := addr2 - addr1\<rparr>] else []) @ [rng] @
         (if addr4 > addr3 then [r\<lparr>phys_addr := addr3, range_size := addr4 - addr3\<rparr>] else []))"

text \<open>
  \<open>n\<close> calls of \<open>kmalloc(sizeof(mem_range_node))\<close> when the heap has \<open>k\<close> nodes to give: the
  remaining number, or the write through the \<open>NULL\<close> of the first call that fails.
\<close>

definition kmalloc_nodes :: "nat \<Rightarrow> nat \<Rightarrow> nat result" where
  "kmalloc_nodes n k = (if n \<le> k then Inr (k - n) else Inl Undefined)"

text \<open>The first loop; \<open>None\<close> when no range intersects the new one.\<close>

fun replace_in_range :: "nat \<Rightarrow> mem_range \<Rightarrow> mem_range list \<Rightarrow> (mem_range list \<times> nat) result option" where
  "replace_in_range k rng [] = None"
| "replace_in_range k rng (r # rs) =
     (if mem_intersect r rng
      then if \<not> mem_contains r rng
           then Some (Inl (Panic ''Memory range not fully contained in existing range.''))
           else Some (bind_result (kmalloc_nodes (length (split_range r rng)) k)
             (\<lambda>k. Inr (split_range r rng @ rs, k)))
      else map_option (\<lambda>x. bind_result x (\<lambda>(rs, k). Inr (r # rs, k))) (replace_in_range k rng rs))"

text \<open>The second loop, and the final \<open>dll_add_tail\<close>.\<close>

fun insert_range :: "mem_range \<Rightarrow> mem_range list \<Rightarrow> bool \<times> mem_range list" where
  "insert_range rng [] = (False, [rng])"
| "insert_range rng (r # rs) =
     (if phys_addr rng + range_size rng \<le> phys_addr r then (True, rng # r # rs)
      else (let (b, rs) = insert_range rng rs in (b, r # rs)))"

definition mem_update_range ::
  "u64 \<Rightarrow> u64 \<Rightarrow> u64 \<Rightarrow> mem_type \<Rightarrow> mem_range list \<Rightarrow> nat \<Rightarrow> (bool \<times> mem_range list \<times> nat) result" where
  "mem_update_range phys virt sz type rs k =
     (let rng = \<lparr>phys_addr = phys, virt_addr = virt, range_size = sz, range_type = type\<rparr>
      in case replace_in_range k rng rs of
           Some r \<Rightarrow> bind_result r (\<lambda>(rs, k). Inr (True, rs, k))
         | None \<Rightarrow> bind_result (kmalloc_nodes 1 k)
             (\<lambda>k. let (b, rs) = insert_range rng rs in Inr (b, rs, k)))"

subsection \<open>Initialisation\<close>

text \<open>\<open>mem_nodes\<close> is the number of nodes \<open>kmalloc\<close> still hands out before its first \<open>NULL\<close>.\<close>

record mem_state = vm_state +
  mem_lower :: u32
  mem_upper :: u32
  mem_map :: "mem_range list"
  mem_nodes :: nat

definition mem_get_pml4_addr :: u64 where
  "mem_get_pml4_addr = PML4T_START"

text \<open>\<open>vm_op\<close> runs an operation of the page tables on the kernel's memory state.\<close>

definition vm_op :: "(vm_state \<Rightarrow> ('a \<times> vm_state) result) \<Rightarrow> mem_state \<Rightarrow> ('a \<times> mem_state) result" where
  "vm_op f s = bind_result (f (vm_state.truncate s))
     (\<lambda>(x, v). Inr (x, s\<lparr>vm_mem := vm_mem v, mem_inited := mem_inited v,
        mem_low_pgm_handle := mem_low_pgm_handle v, mem_main_pgm_handle := mem_main_pgm_handle v\<rparr>))"

definition low_page :: "mem_state \<Rightarrow> mem_state result" where
  "low_page s = bind_result (run (pgm_allocate_page (mem_low_pgm_handle s) (vm_mem s)))
     (\<lambda>(_, w). Inr (s\<lparr>vm_mem := w\<rparr>))"

definition update_map :: "u64 \<Rightarrow> u64 \<Rightarrow> u64 \<Rightarrow> mem_type \<Rightarrow> mem_state \<Rightarrow> mem_state result" where
  "update_map phys virt sz type s = bind_result (mem_update_range phys virt sz type (mem_map s) (mem_nodes s))
     (\<lambda>(_, rs, k). Inr (s\<lparr>mem_map := rs, mem_nodes := k\<rparr>))"

definition range_of_entry :: "mb2_mmap_entry \<Rightarrow> mem_range" where
  "range_of_entry mmap =
     \<lparr>phys_addr = mmap_addr mmap, virt_addr = MAX_VIRTUAL_ADDR, range_size = mmap_len mmap,
      range_type = mmap_type mmap\<rparr>"

text \<open>The loop that saves the boot loader's map, a new node for each entry.\<close>

definition save_map :: "mb2_mmap_entry list \<Rightarrow> mem_state \<Rightarrow> mem_state result" where
  "save_map entries s = bind_result (kmalloc_nodes (length entries) (mem_nodes s))
     (\<lambda>k. Inr (s\<lparr>mem_map := mem_map s @ map range_of_entry entries, mem_nodes := k\<rparr>))"

text \<open>
  \<open>basic_meminfo\<close> and the map are \<open>None\<close> when the boot loader did not pass them; a missing low
  memory entry is dereferenced unchecked.
\<close>

definition mem_init ::
  "u64 \<Rightarrow> (u64 \<Rightarrow> u64 \<Rightarrow> vm_state \<Rightarrow> (unit \<times> vm_state) result) \<Rightarrow> (u32 \<times> u32) option \<Rightarrow>
   mb2_mmap_entry list option \<Rightarrow> mem_state \<Rightarrow> mem_state result" where
  "mem_init max_kernel_addr heap_init basic_meminfo mmaps s =
     kassert (mmaps \<noteq> None) ''Memory map not provided.''
    (kassert (basic_meminfo \<noteq> None) ''Basic memory info not provided.''
    (let entries = the mmaps;
         s = s\<lparr>mem_lower := fst (the basic_meminfo), mem_upper := snd (the basic_meminfo), mem_inited := True\<rparr>;
         pgm_start_addr = PML4T_START - PAGE_SIZE_4K
     in case mem_find entries pgm_start_addr of
          None \<Rightarrow> Inl Undefined
        | Some lower_mem \<Rightarrow>
            let pgm_end_addr = mem_prev_page_addr_4k (mmap_addr lower_mem + mmap_len lower_mem)
            in bind_result (vm_op (pgm_init pgm_start_addr (pgm_end_addr - pgm_start_addr)) s)
                 (\<lambda>(h, s). bind_result (low_page (s\<lparr>mem_low_pgm_handle := h\<rparr>))
                 (\<lambda>s. bind_result (low_page s)
                 (\<lambda>s. bind_result (low_page s)
                 (\<lambda>s. (case mem_find entries MAIN_MEM_START of
                    None \<Rightarrow> Inl (Panic ''Could not find main memory region.'')
                  | Some main_mem \<Rightarrow>
                      let main_pgm_start_addr = mem_next_page_addr max_kernel_addr + PAGE_SIZE_4K;
                          main_pgm_end_addr = mmap_addr main_mem + mmap_len main_mem;
                          main_pgm_size = main_pgm_end_addr - main_pgm_start_addr
                      in bind_result (vm_op (pgm_init main_pgm_start_addr main_pgm_size) s)
                           (\<lambda>(h, s). bind_result (vm_op (heap_init HEAP_VIRTUAL_ADDR HEAP_SIZE)
                              (s\<lparr>mem_main_pgm_handle := h\<rparr>))
                           (\<lambda>(_, s). bind_result (save_map entries s)
                           (\<lambda>s.
                              let s = s\<lparr>mem_map := mem_mark_range (0xA0000 - 1) MEMORY_EBDA (mem_map s)\<rparr>;
                                  s = s\<lparr>mem_map := mem_mark_range 0xF0000 MEMORY_MOTHERBOARD_BIOS (mem_map s)\<rparr>
                              in bind_result (update_map 0x1000 0x1000 PAGE_SIZE_4K MEMORY_SMP_TRAMPOLINE s)
                                   (\<lambda>s. bind_result (update_map MAIN_MEM_START MAIN_MEM_START
                                       (main_pgm_start_addr - MAIN_MEM_START) MEMORY_KERNEL
                                       (s\<lparr>mem_map := mem_mark_range 0x2000 MEMORY_PAGE_TABLE (mem_map s)\<rparr>))
                                   (\<lambda>s. bind_result (update_map main_pgm_start_addr main_pgm_start_addr
                                       main_pgm_size MEMORY_PGM s)
                                   (\<lambda>s. update_map HEAP_VIRTUAL_ADDR HEAP_VIRTUAL_ADDR HEAP_SIZE
                                       MEMORY_HEAP s)))))))))))))"

subsection \<open>Ranges as intervals of numbers\<close>

definition range_start :: "mem_range \<Rightarrow> nat" where
  "range_start r = unat (phys_addr r)"

definition range_end :: "mem_range \<Rightarrow> nat" where
  "range_end r = unat (phys_addr r) + unat (range_size r)"

definition range_ok :: "mem_range \<Rightarrow> bool" where
  "range_ok r \<longleftrightarrow> 0 < unat (range_size r) \<and> range_end r < 2 ^ 64"

text \<open>A map in order: non-empty ranges, each before the next one.\<close>

definition map_ok :: "mem_range list \<Rightarrow> bool" where
  "map_ok rs \<longleftrightarrow> (\<forall>r\<in>set rs. range_ok r) \<and> sorted_wrt (\<lambda>r r'. range_end r \<le> range_start r') rs"

definition covers :: "mem_range \<Rightarrow> u64 \<Rightarrow> bool" where
  "covers r a \<longleftrightarrow> range_start r \<le> unat a \<and> unat a < range_end r"

lemma unat_end: "range_ok r \<Longrightarrow> unat (phys_addr r + range_size r) = range_end r"
  by (simp add: range_ok_def range_end_def unat_word_ariths)

lemma in_range_covers: "range_ok r \<Longrightarrow> in_range a (phys_addr r) (range_size r) \<longleftrightarrow> covers r a"
  by (simp add: in_range_def covers_def word_le_nat_alt word_less_nat_alt unat_end range_start_def)

lemma mem_contains_iff:
  "range_ok r \<Longrightarrow> range_ok n \<Longrightarrow>
   mem_contains r n \<longleftrightarrow> range_start r \<le> range_start n \<and> range_end n \<le> range_end r"
  by (simp add: mem_contains_def Let_def word_le_nat_alt unat_end range_start_def)

lemma mem_intersect_iff:
  "range_ok r \<Longrightarrow> range_ok n \<Longrightarrow>
   mem_intersect r n \<longleftrightarrow> range_start r \<le> range_start n \<and> range_start n < range_end r \<or>
     range_start r \<le> range_end n \<and> range_end n < range_end r"
  by (simp add: mem_intersect_def Let_def word_le_nat_alt word_less_nat_alt unat_end range_start_def)

definition type_at :: "u64 \<Rightarrow> mem_range list \<Rightarrow> mem_type option" where
  "type_at a rs = map_option range_type (mem_find_range_internal a rs)"

lemma type_at_simps:
  "type_at a [] = None"
  "range_ok r \<Longrightarrow> type_at a (r # rs) = (if covers r a then Some (range_type r) else type_at a rs)"
  by (simp_all add: type_at_def in_range_covers)

lemma type_at_append:
  "\<forall>r\<in>set rs. range_ok r \<Longrightarrow>
   type_at a (rs @ rs') = (if \<exists>r\<in>set rs. covers r a then type_at a rs else type_at a rs')"
  by (induction rs) (auto simp: type_at_simps)

subsection \<open>Updating the map\<close>

text \<open>The range the first loop stops at, and the nodes an update allocates.\<close>

definition first_hit :: "mem_range \<Rightarrow> mem_range list \<Rightarrow> mem_range option" where
  "first_hit n rs = find (\<lambda>r. mem_intersect r n) rs"

definition nodes_needed :: "mem_range \<Rightarrow> mem_range list \<Rightarrow> nat" where
  "nodes_needed n rs = (case first_hit n rs of None \<Rightarrow> 1 | Some r \<Rightarrow> length (split_range r n))"

lemma replace_in_range_None: "first_hit n rs = None \<Longrightarrow> replace_in_range k n rs = None"
  unfolding first_hit_def by (induction rs) (auto split: if_splits)

lemma replace_in_range_Some:
  assumes "\<forall>q\<in>set as. \<not> mem_intersect q n" and "mem_intersect r n"
  shows "replace_in_range k n (as @ r # bs) = Some
     (if \<not> mem_contains r n then Inl (Panic ''Memory range not fully contained in existing range.'')
      else if k < length (split_range r n) then Inl Undefined
      else Inr (as @ split_range r n @ bs, k - length (split_range r n)))"
  using assms by (induction as) (auto simp: kmalloc_nodes_def)

lemma first_hit_SomeE:
  assumes "first_hit n rs = Some r"
  obtains as bs where "rs = as @ r # bs" "\<forall>q\<in>set as. \<not> mem_intersect q n" "mem_intersect r n"
proof -
  obtain i where "i < length rs" "mem_intersect (rs ! i) n" "r = rs ! i" "\<forall>j<i. \<not> mem_intersect (rs ! j) n"
    using assms unfolding first_hit_def find_Some_iff by blast
  then have "rs = take i rs @ r # drop (Suc i) rs" "\<forall>q\<in>set (take i rs). \<not> mem_intersect q n"
    "mem_intersect r n"
    using id_take_nth_drop [of i rs] by (auto simp: in_set_conv_nth)
  then show ?thesis by (rule that)
qed

lemma first_hit_None: "first_hit n rs = None \<longleftrightarrow> (\<forall>q\<in>set rs. \<not> mem_intersect q n)"
  by (auto simp: first_hit_def find_None_iff)

lemma insert_range_split:
  "\<exists>as bs. rs = as @ bs \<and> insert_range n rs = (bs \<noteq> [], as @ n # bs) \<and>
     (\<forall>r\<in>set as. \<not> phys_addr n + range_size n \<le> phys_addr r) \<and>
     (bs \<noteq> [] \<longrightarrow> phys_addr n + range_size n \<le> phys_addr (hd bs))"
proof (induction rs)
  case Nil
  then show ?case by simp
next
  case (Cons r rs)
  show ?case
  proof (cases "phys_addr n + range_size n \<le> phys_addr r")
    case True
    then show ?thesis by (intro exI [of _ "[]"] exI [of _ "r # rs"]) simp
  next
    case False
    from Cons obtain as bs where "rs = as @ bs" "insert_range n rs = (bs \<noteq> [], as @ n # bs)"
      "\<forall>r\<in>set as. \<not> phys_addr n + range_size n \<le> phys_addr r"
      "bs \<noteq> [] \<longrightarrow> phys_addr n + range_size n \<le> phys_addr (hd bs)" by auto
    then show ?thesis using False by (intro exI [of _ "r # as"] exI [of _ bs]) simp
  qed
qed

lemma split_range_ok:
  assumes "range_ok r" and "range_ok n" and "mem_contains r n"
  shows "\<forall>p\<in>set (split_range r n). range_ok p \<and> range_start r \<le> range_start p \<and> range_end p \<le> range_end r"
    and "sorted_wrt (\<lambda>p p'. range_end p \<le> range_start p') (split_range r n)"
    and "type_at a (split_range r n @ rs) =
      (if covers n a then Some (range_type n) else if covers r a then Some (range_type r) else type_at a rs)"
proof -
  have c: "range_start r \<le> range_start n" "range_end n \<le> range_end r"
    using mem_contains_iff [OF assms(1,2)] assms(3) by simp_all
  have n1: "range_start n < range_end n" "range_start r < range_end r"
    using assms by (simp_all add: range_ok_def range_start_def range_end_def)
  let ?p = "r\<lparr>range_size := phys_addr n - phys_addr r\<rparr>"
  let ?q = "r\<lparr>phys_addr := phys_addr n + range_size n, range_size :=
      (phys_addr r + range_size r) - (phys_addr n + range_size n)\<rparr>"
  have le: "phys_addr r \<le> phys_addr n" "phys_addr n + range_size n \<le> phys_addr r + range_size r"
    using c by (simp_all add: word_le_nat_alt range_start_def unat_end assms)
  have p: "range_start ?p = range_start r" "range_end ?p = range_start n"
    using c(1) unat_sub [OF le(1)] by (simp_all add: range_start_def range_end_def)
  have q: "range_start ?q = range_end n" "range_end ?q = range_end r"
    using c(2) unat_sub [OF le(2)] assms by (simp_all add: range_start_def range_end_def unat_end)
  have gp: "phys_addr n > phys_addr r \<longleftrightarrow> range_start r < range_start n"
    by (simp add: word_less_nat_alt range_start_def)
  have gq: "phys_addr r + range_size r > phys_addr n + range_size n \<longleftrightarrow> range_end n < range_end r"
    by (simp add: word_less_nat_alt unat_end assms)
  have s: "split_range r n = (if range_start r < range_start n then [?p] else []) @ [n] @
      (if range_end n < range_end r then [?q] else [])"
    unfolding split_range_def Let_def gp gq ..
  have okp: "range_ok ?p" if "range_start r < range_start n"
    using that p c n1 assms unfolding range_ok_def by (simp add: range_start_def range_end_def)
  have okq: "range_ok ?q" if "range_end n < range_end r"
    using that q c n1 assms unfolding range_ok_def by (simp add: range_start_def range_end_def)
  show "\<forall>p\<in>set (split_range r n). range_ok p \<and> range_start r \<le> range_start p \<and> range_end p \<le> range_end r"
    unfolding s using okp okq p q c n1 assms by auto
  show "sorted_wrt (\<lambda>p p'. range_end p \<le> range_start p') (split_range r n)"
    unfolding s using p q c n1 by auto
  have cov: "covers ?p a \<longleftrightarrow> range_start r \<le> unat a \<and> unat a < range_start n"
    "covers ?q a \<longleftrightarrow> range_end n \<le> unat a \<and> unat a < range_end r"
    by (simp_all only: covers_def p q)
  have rest: "type_at a ((if range_end n < range_end r then [?q] else []) @ rs) =
      (if range_end n \<le> unat a \<and> unat a < range_end r then Some (range_type r) else type_at a rs)"
    using okq cov(2) by (auto simp: type_at_simps)
  have "type_at a (split_range r n @ rs) =
      (if range_start r \<le> unat a \<and> unat a < range_start n then Some (range_type r)
       else if covers n a then Some (range_type n)
       else if range_end n \<le> unat a \<and> unat a < range_end r then Some (range_type r) else type_at a rs)"
    unfolding s append.assoc
    using okp cov(1) rest assms(2) by (auto simp: type_at_simps)
  then show "type_at a (split_range r n @ rs) =
      (if covers n a then Some (range_type n) else if covers r a then Some (range_type r) else type_at a rs)"
    using c n1 by (auto simp: covers_def)
qed

lemma disjoint_covers:
  "range_end r \<le> range_start r' \<Longrightarrow> covers r a \<Longrightarrow> \<not> covers r' a"
  by (auto simp: covers_def)

lemma map_ok_split:
  assumes "map_ok (as @ r # bs)"
  shows "\<forall>q\<in>set as. range_ok q \<and> range_end q \<le> range_start r" and "range_ok r"
    and "\<forall>q\<in>set bs. range_ok q \<and> range_end r \<le> range_start q"
    and "sorted_wrt (\<lambda>r r'. range_end r \<le> range_start r') as"
    and "sorted_wrt (\<lambda>r r'. range_end r \<le> range_start r') bs"
    and "\<forall>q\<in>set as. \<forall>q'\<in>set bs. range_end q \<le> range_start q'"
  using assms by (auto simp: map_ok_def sorted_wrt_append)

text \<open>
  The new range swallows an old one: it starts below it and reaches its end.  This is the one
  overlap \<open>mem_intersect\<close> does not see.
\<close>

definition swallows :: "mem_range \<Rightarrow> mem_range \<Rightarrow> bool" where
  "swallows n r \<longleftrightarrow> range_start n < range_start r \<and> range_end r \<le> range_end n"

lemma not_intersect_apart:
  assumes "range_ok r" and "range_ok n" and "\<not> mem_intersect r n" and "\<not> swallows n r"
  shows "range_end n \<le> range_start r \<or> range_end r \<le> range_start n"
  using assms mem_intersect_iff [OF assms(1,2)] by (auto simp: swallows_def)

lemma replace_ok:
  assumes ok: "map_ok (as @ r # bs)" and n: "range_ok n" and c: "mem_contains r n"
  shows "map_ok (as @ split_range r n @ bs)"
    and "type_at a (as @ split_range r n @ bs) =
      (if covers n a then Some (range_type n) else type_at a (as @ r # bs))"
proof -
  note m = map_ok_split [OF ok]
  note s = split_range_ok [OF m(2) n c]
  show "map_ok (as @ split_range r n @ bs)"
    unfolding map_ok_def sorted_wrt_append using m s(1,2) by auto (meson order_trans)+
  have cn: "covers r a" if "covers n a"
    using that mem_contains_iff [OF m(2) n] c by (auto simp: covers_def)
  have "\<not> covers r a" if "q \<in> set as" "covers q a" for q
    using disjoint_covers m(1) that by blast
  then show "type_at a (as @ split_range r n @ bs) =
      (if covers n a then Some (range_type n) else type_at a (as @ r # bs))"
    using m(1,2) cn s(3) [of a bs] by (auto simp: type_at_append type_at_simps)
qed

lemma insert_ok:
  assumes ok: "map_ok (as @ bs)" and n: "range_ok n"
    and as: "\<forall>q\<in>set as. range_end q \<le> range_start n" and bs: "bs \<noteq> [] \<longrightarrow> range_end n \<le> range_start (hd bs)"
  shows "map_ok (as @ n # bs)"
    and "type_at a (as @ n # bs) = (if covers n a then Some (range_type n) else type_at a (as @ bs))"
proof -
  have o: "\<forall>q\<in>set as. range_ok q" using ok by (simp add: map_ok_def)
  have "\<forall>q\<in>set bs. range_end n \<le> range_start q"
  proof (cases bs)
    case (Cons b bs')
    then have "\<forall>q\<in>set bs'. range_end b \<le> range_start q" "range_ok b"
      using ok by (auto simp: map_ok_def sorted_wrt_append)
    then show ?thesis using Cons bs by (fastforce simp: range_start_def range_end_def)
  qed simp
  then show "map_ok (as @ n # bs)"
    using ok n as by (auto simp: map_ok_def sorted_wrt_append)
  have "\<not> covers n a" if "q \<in> set as" "covers q a" for q
    using disjoint_covers as that by blast
  then show "type_at a (as @ n # bs) = (if covers n a then Some (range_type n) else type_at a (as @ bs))"
    using o n by (auto simp: type_at_append type_at_simps)
qed

text \<open>What a successful update with a new range of type \<open>t\<close> makes of a map.\<close>

definition retyped :: "mem_range \<Rightarrow> mem_range list \<Rightarrow> mem_range list \<Rightarrow> bool" where
  "retyped n rs rs' \<longleftrightarrow> map_ok rs' \<and>
     (\<forall>a. type_at a rs' = (if covers n a then Some (range_type n) else type_at a rs))"

lemma insert_range_ok:
  assumes ok: "map_ok rs" and n: "range_ok n"
    and sw: "\<forall>r\<in>set rs. \<not> swallows n r" and ni: "\<forall>r\<in>set rs. \<not> mem_intersect r n"
  shows "retyped n rs (snd (insert_range n rs))"
proof -
  obtain as bs where s: "rs = as @ bs" "insert_range n rs = (bs \<noteq> [], as @ n # bs)"
    "\<forall>r\<in>set as. \<not> phys_addr n + range_size n \<le> phys_addr r"
    "bs \<noteq> [] \<longrightarrow> phys_addr n + range_size n \<le> phys_addr (hd bs)"
    using insert_range_split by blast
  have "range_end q \<le> range_start n" if "q \<in> set as" for q
  proof -
    have q: "range_ok q" "\<not> mem_intersect q n" "\<not> swallows n q"
      using that s(1) ok ni sw by (auto simp: map_ok_def)
    moreover have "\<not> range_end n \<le> range_start q"
      using s(3) that by (simp add: word_le_nat_alt unat_end n range_start_def)
    ultimately show ?thesis using not_intersect_apart n by blast
  qed
  moreover have "bs \<noteq> [] \<longrightarrow> range_end n \<le> range_start (hd bs)"
    using s(4) by (simp add: word_le_nat_alt unat_end n range_start_def)
  ultimately show ?thesis
    using insert_ok [of as bs n] ok n s(1,2) by (simp add: retyped_def)
qed

lemma update_range_ok:
  assumes ok: "map_ok rs" and n: "range_ok n"
    and r: "n = \<lparr>phys_addr = p, virt_addr = v, range_size = z, range_type = t\<rparr>"
    and sw: "\<forall>r\<in>set rs. \<not> swallows n r"
  shows "if \<exists>r. first_hit n rs = Some r \<and> \<not> mem_contains r n
     then mem_update_range p v z t rs k = Inl (Panic ''Memory range not fully contained in existing range.'')
     else if k < nodes_needed n rs then mem_update_range p v z t rs k = Inl Undefined
     else \<exists>b rs'. mem_update_range p v z t rs k = Inr (b, rs', k - nodes_needed n rs) \<and> retyped n rs rs'"
proof (cases "first_hit n rs")
  case None
  obtain b rs' where i: "insert_range n rs = (b, rs')" by (cases "insert_range n rs")
  then have "retyped n rs rs'" using insert_range_ok [OF ok n sw] None by (simp add: first_hit_None)
  then show ?thesis
    using None i replace_in_range_None [OF None]
    by (simp add: mem_update_range_def r [symmetric] nodes_needed_def kmalloc_nodes_def)
next
  case (Some q)
  then obtain as bs where s: "rs = as @ q # bs" "\<forall>q\<in>set as. \<not> mem_intersect q n" "mem_intersect q n"
    by (rule first_hit_SomeE)
  have "retyped n rs (as @ split_range q n @ bs)" if "mem_contains q n"
    using replace_ok [of as q bs n] ok n that s(1) by (simp add: retyped_def)
  then show ?thesis
    using Some replace_in_range_Some [OF s(2,3), of k bs]
    by (auto simp: mem_update_range_def r [symmetric] nodes_needed_def s(1))
qed

subsection \<open>Properties\<close>

text \<open>
  C12.  What \<open>mem_update_range\<close> does with a non-empty range below \<open>2^64\<close>, in a sorted map of
  disjoint ranges none of which the new one swallows whole (this overlap the code does not
  detect).  The first range that \<open>mem_intersect\<close> reports decides: if it does not contain the new
  range the function panics, and it panics only then; a range that begins where the new one ends
  is reported too.  Otherwise one node is allocated, or as many as the split of the range found
  has parts; if \<open>kmalloc\<close> does not provide them the behaviour is undefined.  Otherwise the call
  returns, the map stays sorted and disjoint, and exactly the addresses of the new range have
  changed their type.
\<close>
theorem mem_update_range_correct:
  assumes "map_ok rs" and "range_ok n"
    and "n = \<lparr>phys_addr = p, virt_addr = v, range_size = z, range_type = t\<rparr>"
    and "\<forall>r\<in>set rs. \<not> swallows n r"
  shows "if \<exists>r. first_hit n rs = Some r \<and> \<not> mem_contains r n
     then mem_update_range p v z t rs k = Inl (Panic ''Memory range not fully contained in existing range.'')
     else if k < nodes_needed n rs then mem_update_range p v z t rs k = Inl Undefined
     else \<exists>b rs'. mem_update_range p v z t rs k = Inr (b, rs', k - nodes_needed n rs) \<and> map_ok rs' \<and>
       (\<forall>a. type_at a rs' = (if covers n a then Some t else type_at a rs))"
proof -
  have "range_type n = t" using assms(3) by simp
  then show ?thesis using update_range_ok [OF assms, of k] unfolding retyped_def by (simp only:)
qed

definition example_range :: "u64 \<Rightarrow> u64 \<Rightarrow> u32 \<Rightarrow> mem_range" where
  "example_range p z t = \<lparr>phys_addr = p, virt_addr = MAX_VIRTUAL_ADDR, range_size = z, range_type = t\<rparr>"

theorem mem_update_range_correct_witness:
  "\<exists>b rs'. mem_update_range 0x1000 MAX_VIRTUAL_ADDR 0x1000 15
       [example_range 0 0x9000 1, example_range 0x9000 0x1000 2] 3 = Inr (b, rs', 0) \<and> map_ok rs' \<and>
     type_at 0x1FFF rs' = Some 15 \<and> type_at 0x2000 rs' = Some 1"
proof -
  let ?rs = "[example_range 0 0x9000 1, example_range 0x9000 0x1000 2]"
  let ?n = "example_range 0x1000 0x1000 15"
  have ok: "map_ok ?rs" "range_ok ?n" "\<forall>r\<in>set ?rs. \<not> swallows ?n r"
    by (simp_all add: map_ok_def range_ok_def range_start_def range_end_def example_range_def swallows_def)
  have h: "first_hit ?n ?rs = Some (example_range 0 0x9000 1)" "mem_contains (example_range 0 0x9000 1) ?n"
    by (simp_all add: first_hit_def mem_intersect_def mem_contains_def example_range_def)
  then have k: "nodes_needed ?n ?rs = 3"
    by (simp add: nodes_needed_def split_range_def example_range_def)
  have c: "covers ?n 0x1FFF" "\<not> covers ?n 0x2000"
    by (simp_all add: covers_def range_start_def range_end_def example_range_def)
  have t: "type_at 0x2000 ?rs = Some 1"
    by (simp add: type_at_def in_range_def example_range_def)
  have "\<exists>b rs'. mem_update_range 0x1000 MAX_VIRTUAL_ADDR 0x1000 15 ?rs 3 = Inr (b, rs', 3 - 3) \<and> map_ok rs' \<and>
      (\<forall>a. type_at a rs' = (if covers ?n a then Some 15 else type_at a ?rs))"
    using mem_update_range_correct [OF ok(1,2) example_range_def ok(3), of 3] h k by simp
  then show ?thesis using c t by auto
qed

text \<open>
  The lookups agree with the map: in a sorted map \<open>mem_find_range\<close> finds the one range that
  contains the address, and \<open>mem_mark_range\<close> re-types exactly this range.
\<close>
theorem mem_find_range_correct:
  assumes "map_ok (as @ r # bs)" and "covers r a"
  shows "mem_find_range True a (as @ r # bs) = Some r \<and>
    mem_mark_range a t (as @ r # bs) = as @ r\<lparr>range_type := t\<rparr> # bs \<and>
    mem_find_range False a (as @ r # bs) = None"
proof -
  note m = map_ok_split [OF assms(1)]
  have "\<forall>q\<in>set as. range_ok q \<and> \<not> covers q a"
    using m(1) disjoint_covers assms(2) by blast
  then have "mem_find_range_internal a (as @ r # bs) = Some r \<and>
      mem_mark_range a t (as @ r # bs) = as @ r\<lparr>range_type := t\<rparr> # bs"
    using m(2) assms(2) by (induction as) (simp_all add: in_range_covers)
  then show ?thesis by (simp add: mem_find_range_def)
qed

theorem mem_find_range_correct_witness:
  "mem_find_range True 0x9800 ([example_range 0 0x9000 1] @ [example_range 0x9000 0x1000 2]) =
     Some (example_range 0x9000 0x1000 2)"
proof -
  have "map_ok ([example_range 0 0x9000 1] @ example_range 0x9000 0x1000 2 # [])"
    by (simp add: map_ok_def range_ok_def range_start_def range_end_def example_range_def)
  moreover have "covers (example_range 0x9000 0x1000 2) 0x9800"
    by (simp add: covers_def range_start_def range_end_def example_range_def)
  ultimately show ?thesis using mem_find_range_correct by blast
qed

text \<open>
  The step by which a driver makes a device's registers or memory accessible: map its range on
  itself, then re-type it.  The result of \<open>mem_update_range\<close> is not looked at.
\<close>

definition map_device :: "mem_type \<Rightarrow> u64 \<Rightarrow> u64 \<Rightarrow> mem_state \<Rightarrow> (bool \<times> mem_state) result" where
  "map_device type addr sz s =
     bind_result (vm_op (mem_map_range_4k addr addr sz) s)
       (\<lambda>(ok, s). if \<not> ok then Inr (False, s)
          else bind_result (update_map addr addr sz type s) (\<lambda>s. Inr (True, s)))"

end
