(* ===== verification/Access.thy ===== *)
theory Access
  imports Prelude
begin

text \<open>
  Little-endian reads of byte memory: the \<open>mem_read_*\<close> functions of \<open>kernel/mem/mem.c\<close>, through
  which the drivers read structures and device registers, and the calls of \<open>printf\<close> that a
  console command makes, as a list of formats with their arguments (theory \<open>Printf\<close> models what
  \<open>printf\<close> does with one).
\<close>

definition mem_read_8 :: "mem \<Rightarrow> u64 \<Rightarrow> u32" where
  "mem_read_8 m addr = ucast (m addr)"

definition mem_read_16 :: "mem \<Rightarrow> u64 \<Rightarrow> u32" where
  "mem_read_16 m addr = ucast (m addr) + 2 ^ 8 * ucast (m (addr + 1))"

definition mem_read_32 :: "mem \<Rightarrow> u64 \<Rightarrow> u32" where
  "mem_read_32 m addr =
     ucast (m addr) + 2 ^ 8 * ucast (m (addr + 1)) + 2 ^ 16 * ucast (m (addr + 2))
       + 2 ^ 24 * ucast (m (addr + 3))"

definition mem_read_64 :: "mem \<Rightarrow> u64 \<Rightarrow> u64" where
  "mem_read_64 m addr = ucast (mem_read_32 m addr) + 2 ^ 32 * ucast (mem_read_32 m (addr + 4))"

text \<open>The sums have no carries.\<close>

lemma byte_word_sum: "(ucast (b :: u8) :: u32) + push_bit 8 x = ucast b OR push_bit 8 x"
  by (rule disjunctive_add) (auto simp: bit_simps dest: bit_imp_le_length)

lemma mem_read_32_bits:
  "mem_read_32 m p = ucast (m p) OR push_bit 8 (ucast (m (p + 1)) OR push_bit 8 (ucast (m (p + 2)) OR push_bit 8 (ucast (m (p + 3)))))"
  unfolding byte_word_sum [symmetric] by (simp add: mem_read_32_def push_bit_eq_mult algebra_simps)

lemma mem_read_64_bits: "mem_read_64 m p = ucast (mem_read_32 m p) OR push_bit 32 (ucast (mem_read_32 m (p + 4)))"
proof -
  have "(ucast a :: u64) + push_bit 32 (ucast b) = ucast a OR push_bit 32 (ucast b)" for a b :: u32
    by (rule disjunctive_add) (auto simp: bit_simps dest: bit_imp_le_length)
  from this [symmetric] show ?thesis by (simp add: mem_read_64_def) (simp add: push_bit_eq_mult mult.commute)
qed

lemma mem_read_64_bytes: "bytes m p 8 = bytes m' q 8 \<Longrightarrow> mem_read_64 m p = mem_read_64 m' q"
  by (simp add: mem_read_64_def mem_read_32_def bytes_def upt_rec add.assoc)

text \<open>The four bytes of a 32-bit word.\<close>

definition le32 :: "u32 \<Rightarrow> u8 list" where
  "le32 v = [ucast v, ucast (drop_bit 8 v), ucast (drop_bit 16 v), ucast (drop_bit 24 v)]"

lemma length_le32 [simp]: "length (le32 v) = 4"
  by (simp add: le32_def)

lemma le32_word:
  "(ucast (ucast w :: u8) OR push_bit 8 (ucast (ucast (drop_bit 8 w) :: u8) OR push_bit 8 (ucast (ucast (drop_bit 16 w) :: u8)
      OR push_bit 8 (ucast (ucast (drop_bit 24 w) :: u8)))) :: u32) = ucast (w :: 'a::len word)"
proof (rule bit_word_eqI)
  fix n assume "n < LENGTH(32)"
  then consider "n < 8" | "8 \<le> n" "n < 16" | "16 \<le> n" "n < 24" | "24 \<le> n" "n < 32" by fastforce
  then show "bit (ucast (ucast w :: u8) OR push_bit 8 (ucast (ucast (drop_bit 8 w) :: u8) OR push_bit 8 (ucast (ucast (drop_bit 16 w) :: u8)
      OR push_bit 8 (ucast (ucast (drop_bit 24 w) :: u8)))) :: u32) n = bit (ucast w :: u32) n"
    by cases (auto simp: bit_simps dest: bit_imp_le_length)
qed

lemma read_le32: "bytes m p 4 = le32 v \<Longrightarrow> mem_read_32 m p = v"
  using le32_word [of v]
  by (simp add: mem_read_32_bits le32_def bytes_def upt_rec add.commute)

subsection \<open>What a command prints\<close>

text \<open>A string argument is a literal of the source, or the address of one in memory.\<close>

datatype print_arg = PNum u64 | PStr string | PChars ptr

type_synonym printed = "(string \<times> print_arg list) list"

end
