(* ===== verification/CType.thy ===== *)
theory CType
  imports Prelude
begin

unbundle bit_operations_syntax

text \<open>
  The character predicates of \<open>libc/include/ctype.h\<close>.  An \<open>int\<close> argument is its 32-bit
  pattern: the header casts it to \<open>unsigned\<close> and compares after a wrapping subtraction, so
  negative characters are large.  A predicate's \<open>int\<close> result is only used as a truth value.
\<close>

definition isalpha :: "u32 \<Rightarrow> bool" where
  "isalpha c \<longleftrightarrow> (c OR 32) - 97 < 26"

definition isascii :: "u32 \<Rightarrow> bool" where
  "isascii c \<longleftrightarrow> c AND NOT 127 = 0"

definition isblank :: "u32 \<Rightarrow> bool" where
  "isblank c \<longleftrightarrow> c = 32 \<or> c = 9"

definition iscntrl :: "u32 \<Rightarrow> bool" where
  "iscntrl c \<longleftrightarrow> c < 32 \<or> c = 127"

definition isdigit :: "u32 \<Rightarrow> bool" where
  "isdigit c \<longleftrightarrow> c - 48 < 10"

definition isgraph :: "u32 \<Rightarrow> bool" where
  "isgraph c \<longleftrightarrow> c - 33 < 94"

definition islower :: "u32 \<Rightarrow> bool" where
  "islower c \<longleftrightarrow> c - 97 < 26"

definition isprint :: "u32 \<Rightarrow> bool" where
  "isprint c \<longleftrightarrow> c - 32 < 95"

definition isalnum :: "u32 \<Rightarrow> bool" where
  "isalnum c \<longleftrightarrow> isalpha c \<or> isdigit c"

definition ispunct :: "u32 \<Rightarrow> bool" where
  "ispunct c \<longleftrightarrow> isgraph c \<and> \<not> isalnum c"

definition isspace :: "u32 \<Rightarrow> bool" where
  "isspace c \<longleftrightarrow> c = 32 \<or> c - 9 < 5"

definition isupper :: "u32 \<Rightarrow> bool" where
  "isupper c \<longleftrightarrow> c - 65 < 26"

definition isxdigit :: "u32 \<Rightarrow> bool" where
  "isxdigit c \<longleftrightarrow> isdigit c \<or> (c OR 32) - 97 < 6"

definition tolower :: "u32 \<Rightarrow> u32" where
  "tolower c = (if isupper c then c OR 32 else c)"

definition toupper :: "u32 \<Rightarrow> u32" where
  "toupper c = (if islower c then c AND 95 else c)"

text \<open>The subtraction trick is a range test.\<close>

lemma sub_less_iff:
  fixes c :: u32
  assumes "unat a + unat n < 2 ^ 32"
  shows "c - a < n \<longleftrightarrow> a \<le> c \<and> c < a + n"
proof (cases "a \<le> c")
  case True
  then have "unat (c - a) = unat c - unat a" by (rule unat_sub)
  moreover have "unat (a + n) = unat a + unat n"
    using assms by (simp add: unat_word_ariths)
  ultimately show ?thesis
    using True by (auto simp: word_less_nat_alt word_le_nat_alt)
next
  case False
  then have "unat (c - a) = 2 ^ 32 + unat c - unat a"
    by (simp add: unat_sub_if' word_le_nat_alt)
  then show ?thesis
    using False assms by (auto simp: word_less_nat_alt word_le_nat_alt)
qed

lemma ctype_ranges:
  "isdigit c \<longleftrightarrow> 48 \<le> c \<and> c < 58"
  "isgraph c \<longleftrightarrow> 33 \<le> c \<and> c < 127"
  "islower c \<longleftrightarrow> 97 \<le> c \<and> c < 123"
  "isprint c \<longleftrightarrow> 32 \<le> c \<and> c < 127"
  "isupper c \<longleftrightarrow> 65 \<le> c \<and> c < 91"
  "isspace c \<longleftrightarrow> c = 32 \<or> 9 \<le> c \<and> c < 14"
  by (simp_all add: isdigit_def isgraph_def islower_def isprint_def isupper_def isspace_def
      sub_less_iff)

end
