(* ===== verification/CString.thy ===== *)
theory CString
  imports CMem CType "HOL-Library.Monad_Syntax"
begin

text \<open>
  The string functions of \<open>libc/string\<close> that run until they meet a NUL byte:
  \<open>strlen.c\<close>, \<open>strcmp.c\<close>, \<open>strcpy.c\<close>, \<open>strcat.c\<close>, \<open>strchr.c\<close>, \<open>strspn.c\<close>,
  \<open>strstr.c\<close>, \<open>strrev.c\<close>, \<open>strtrim.c\<close>, \<open>strequ.c\<close>.  Such a loop need not end in an
  arbitrary memory, so it is a \<^theory_text>\<open>partial_function (option)\<close>; the lemmas show that
  it ends whenever its arguments are C strings.  \<open>char\<close> is signed on the target, so a
  character that is promoted to \<open>int\<close> is \<open>sint\<close> of its byte.
\<close>

subsection \<open>Length\<close>

partial_function (option) strlen_loop :: "mem \<Rightarrow> ptr \<Rightarrow> u64 \<Rightarrow> u64 option" where
  "strlen_loop m s len = (if m (s + len) \<noteq> 0 then strlen_loop m s (len + 1) else Some len)"

definition strlen :: "mem \<Rightarrow> ptr \<Rightarrow> u64 option" where
  "strlen m s = strlen_loop m s 0"

definition strnlen :: "mem \<Rightarrow> ptr \<Rightarrow> u64 \<Rightarrow> u64" where
  "strnlen m s n = (let e = memchr m s 0 n in if e \<noteq> NULL then e - s else n)"

subsection \<open>Comparison\<close>

partial_function (option) strcmp :: "mem \<Rightarrow> ptr \<Rightarrow> ptr \<Rightarrow> int option" where
  "strcmp m s1 s2 =
     (if m s1 \<noteq> 0 \<and> m s1 = m s2 then strcmp m (s1 + 1) (s2 + 1)
      else Some (uint (m s1) - uint (m s2)))"

text \<open>
  \<open>if (*s1++ != *s2++) return *s1 - *s2;\<close>: both pointers have moved on before the
  difference is taken.
\<close>

function strncmp_loop :: "mem \<Rightarrow> ptr \<Rightarrow> ptr \<Rightarrow> u64 \<Rightarrow> u64 \<Rightarrow> int" where
  "strncmp_loop m s1 s2 n i =
     (if i < n
      then if m s1 \<noteq> m s2 then uint (m (s1 + 1)) - uint (m (s2 + 1))
           else strncmp_loop m (s1 + 1) (s2 + 1) n (i + 1)
      else 0)"
  by pat_completeness auto
termination
  by (relation "measure (\<lambda>(m, s1, s2, n, i). unat n - unat i)")
     (auto simp: unat_add_one word_less_nat_alt)

declare strncmp_loop.simps [simp del]

definition strncmp :: "mem \<Rightarrow> ptr \<Rightarrow> ptr \<Rightarrow> u64 \<Rightarrow> int" where
  "strncmp m s1 s2 n = strncmp_loop m s1 s2 n 0"

definition strequ :: "mem \<Rightarrow> ptr \<Rightarrow> ptr \<Rightarrow> bool option" where
  "strequ m s1 s2 = map_option (\<lambda>r. r = 0) (strcmp m s1 s2)"

definition strnequ :: "mem \<Rightarrow> ptr \<Rightarrow> ptr \<Rightarrow> u64 \<Rightarrow> bool" where
  "strnequ m s1 s2 n \<longleftrightarrow> strncmp m s1 s2 n = 0"

subsection \<open>Copying and appending\<close>

text \<open>The index of \<open>strcpy\<close> is an \<open>int\<close>; incrementing it past \<open>INT_MAX\<close> is undefined.\<close>

partial_function (option) strcpy_loop :: "mem \<Rightarrow> ptr \<Rightarrow> ptr \<Rightarrow> int \<Rightarrow> (int \<times> mem) option" where
  "strcpy_loop m dest src i =
     (if m (src + of_int i) \<noteq> 0
      then if i = 2 ^ 31 - 1 then None
           else strcpy_loop (m(dest + of_int i := m (src + of_int i))) dest src (i + 1)
      else Some (i, m))"

definition strcpy :: "mem \<Rightarrow> ptr \<Rightarrow> ptr \<Rightarrow> (ptr \<times> mem) option" where
  "strcpy m dest src =
     do { (i, m) \<leftarrow> strcpy_loop m dest src 0; Some (dest, m(dest + of_int i := 0)) }"

function strncpy_loop :: "mem \<Rightarrow> ptr \<Rightarrow> ptr \<Rightarrow> u64 \<Rightarrow> u64 \<Rightarrow> u64 \<times> mem" where
  "strncpy_loop m dest src n i =
     (if i < n \<and> m (src + i) \<noteq> 0
      then strncpy_loop (m(dest + i := m (src + i))) dest src n (i + 1)
      else (i, m))"
  by pat_completeness auto
termination
  by (relation "measure (\<lambda>(m, dest, src, n, i). unat n - unat i)")
     (auto simp: unat_add_one word_less_nat_alt)

declare strncpy_loop.simps [simp del]

definition strncpy :: "mem \<Rightarrow> ptr \<Rightarrow> ptr \<Rightarrow> u64 \<Rightarrow> ptr \<times> mem" where
  "strncpy m dest src n =
     (let (i, m) = strncpy_loop m dest src n 0
      in (dest, for_upto i n (\<lambda>i m. m(dest + i := 0)) m))"

partial_function (option) skip_to_nul :: "mem \<Rightarrow> ptr \<Rightarrow> ptr option" where
  "skip_to_nul m dest = (if m dest \<noteq> 0 then skip_to_nul m (dest + 1) else Some dest)"

partial_function (option) strcat_loop :: "mem \<Rightarrow> ptr \<Rightarrow> ptr \<Rightarrow> (ptr \<times> mem) option" where
  "strcat_loop m dest src =
     (if m src \<noteq> 0 then strcat_loop (m(dest := m src)) (dest + 1) (src + 1) else Some (dest, m))"

definition strcat :: "mem \<Rightarrow> ptr \<Rightarrow> ptr \<Rightarrow> (ptr \<times> mem) option" where
  "strcat m dest src =
     do { d \<leftarrow> skip_to_nul m dest; (d, m) \<leftarrow> strcat_loop m d src; Some (dest, m(d := 0)) }"

text \<open>
  The loop of \<open>strncat\<close> returns from the middle when it meets the end of \<open>src\<close> (the first
  component says whether it did), before the terminator is written.
\<close>

function strncat_loop :: "mem \<Rightarrow> ptr \<Rightarrow> ptr \<Rightarrow> u64 \<Rightarrow> bool \<times> ptr \<times> mem" where
  "strncat_loop m dest src n =
     (if n = 0 then (False, dest, m)
      else if m src = 0 then (True, dest, m)
      else strncat_loop (m(dest := m src)) (dest + 1) (src + 1) (n - 1))"
  by pat_completeness auto
termination
  by (relation "measure (\<lambda>(m, dest, src, n). unat n)") (auto simp: unat_minus_one_lt)

declare strncat_loop.simps [simp del]

definition strncat :: "mem \<Rightarrow> ptr \<Rightarrow> ptr \<Rightarrow> u64 \<Rightarrow> (ptr \<times> mem) option" where
  "strncat m dest src n =
     do { d \<leftarrow> skip_to_nul m dest;
          let (ended, d, m) = strncat_loop m d src n;
          Some (dest, if ended then m else m(d := 0)) }"

subsection \<open>Searching\<close>

partial_function (option) strchr :: "mem \<Rightarrow> ptr \<Rightarrow> int \<Rightarrow> ptr option" where
  "strchr m s c =
     (if m s \<noteq> 0 then if sint (m s) = c then Some s else strchr m (s + 1) c else Some NULL)"

partial_function (option) strrchr_loop :: "mem \<Rightarrow> ptr \<Rightarrow> int \<Rightarrow> ptr \<Rightarrow> ptr option" where
  "strrchr_loop m s c ret =
     (if m s \<noteq> 0 then strrchr_loop m (s + 1) c (if sint (m s) = c then s else ret) else Some ret)"

definition strrchr :: "mem \<Rightarrow> ptr \<Rightarrow> int \<Rightarrow> ptr option" where
  "strrchr m s c = strrchr_loop m s c NULL"

partial_function (option) strspn_loop :: "mem \<Rightarrow> ptr \<Rightarrow> ptr \<Rightarrow> u64 \<Rightarrow> u64 option" where
  "strspn_loop m s1 s2 ret =
     (if m s1 \<noteq> 0
      then do { p \<leftarrow> strchr m s2 (sint (m s1));
                if p \<noteq> NULL then strspn_loop m (s1 + 1) s2 (ret + 1) else Some ret }
      else Some ret)"

definition strspn :: "mem \<Rightarrow> ptr \<Rightarrow> ptr \<Rightarrow> u64 option" where
  "strspn m s1 s2 = strspn_loop m s1 s2 0"

partial_function (option) strcspn_loop :: "mem \<Rightarrow> ptr \<Rightarrow> ptr \<Rightarrow> u64 \<Rightarrow> u64 option" where
  "strcspn_loop m s1 s2 ret =
     (if m s1 \<noteq> 0
      then do { p \<leftarrow> strchr m s2 (sint (m s1));
                if p \<noteq> NULL then Some ret else strcspn_loop m (s1 + 1) s2 (ret + 1) }
      else Some ret)"

definition strcspn :: "mem \<Rightarrow> ptr \<Rightarrow> ptr \<Rightarrow> u64 option" where
  "strcspn m s1 s2 = strcspn_loop m s1 s2 0"

text \<open>
  \<open>strstr\<close> compares the needle's bytes with whatever follows the current position, also
  past the end of the haystack.
\<close>

partial_function (option) strstr_loop :: "mem \<Rightarrow> ptr \<Rightarrow> ptr \<Rightarrow> u64 \<Rightarrow> ptr option" where
  "strstr_loop m haystack needle n =
     (if m haystack \<noteq> 0
      then if memcmp m haystack needle n = 0 then Some haystack
           else strstr_loop m (haystack + 1) needle n
      else Some NULL)"

definition strstr :: "mem \<Rightarrow> ptr \<Rightarrow> ptr \<Rightarrow> ptr option" where
  "strstr m haystack needle = do { n \<leftarrow> strlen m needle; strstr_loop m haystack needle n }"

partial_function (option) strrstr_loop :: "mem \<Rightarrow> ptr \<Rightarrow> ptr \<Rightarrow> u64 \<Rightarrow> ptr \<Rightarrow> ptr option" where
  "strrstr_loop m haystack needle n found =
     (if m haystack \<noteq> 0
      then strrstr_loop m (haystack + 1) needle n
             (if memcmp m haystack needle n = 0 then haystack else found)
      else Some found)"

definition strrstr :: "mem \<Rightarrow> ptr \<Rightarrow> ptr \<Rightarrow> ptr option" where
  "strrstr m haystack needle =
     do { n \<leftarrow> strlen m needle; strrstr_loop m haystack needle n NULL }"

subsection \<open>Reversing and trimming\<close>

text \<open>
  \<open>int i = strlen(str) - 1\<close>: the \<open>size_t\<close> difference is truncated to 32 bits and read as
  signed, so the empty string gives \<open>-1\<close>.
\<close>

function strrev_loop :: "mem \<Rightarrow> ptr \<Rightarrow> int \<Rightarrow> int \<Rightarrow> mem" where
  "strrev_loop m str i j =
     (if j < i
      then strrev_loop (m(str + of_int i := m (str + of_int j), str + of_int j := m (str + of_int i)))
             str (i - 1) (j + 1)
      else m)"
  by pat_completeness auto
termination
  by (relation "measure (\<lambda>(m, str, i, j). nat (i - j))") auto

declare strrev_loop.simps [simp del]

definition strrev :: "mem \<Rightarrow> ptr \<Rightarrow> (ptr \<times> mem) option" where
  "strrev m str =
     do { len \<leftarrow> strlen m str;
          Some (str, strrev_loop m str (sint (ucast (len - 1) :: u32)) 0) }"

partial_function (option) strtrim_leading_loop :: "mem \<Rightarrow> ptr \<Rightarrow> int \<Rightarrow> int option" where
  "strtrim_leading_loop m s i =
     (if isspace (scast (m (s + of_int i)))
      then if i = 2 ^ 31 - 1 then None else strtrim_leading_loop m s (i + 1)
      else Some i)"

definition strtrim_leading :: "mem \<Rightarrow> ptr \<Rightarrow> ptr option" where
  "strtrim_leading m s = map_option (\<lambda>i. s + of_int i) (strtrim_leading_loop m s 0)"

partial_function (option) strtrim_trailing_loop :: "mem \<Rightarrow> ptr \<Rightarrow> u64 \<Rightarrow> u64 option" where
  "strtrim_trailing_loop m s i =
     (if isspace (scast (m (s + i))) then strtrim_trailing_loop m s (i - 1) else Some i)"

definition strtrim_trailing :: "mem \<Rightarrow> ptr \<Rightarrow> (ptr \<times> mem) option" where
  "strtrim_trailing m s =
     do { len \<leftarrow> strlen m s;
          i \<leftarrow> strtrim_trailing_loop m s (len - 1);
          Some (s, m(s + (i + 1) := 0)) }"

definition strtrim :: "mem \<Rightarrow> ptr \<Rightarrow> (ptr \<times> mem) option" where
  "strtrim m s = do { leading \<leftarrow> strtrim_leading m s; strtrim_trailing m leading }"

subsection \<open>Tokens\<close>

text \<open>
  \<open>strtok_r\<close> threads the saved pointer through its caller; \<open>strtok\<close> runs the same code over
  its static pointer, which starts as \<open>NULL\<close>.  The result is the token (\<open>NULL\<close> for none),
  the new saved pointer and the memory.
\<close>

definition strtok_r :: "mem \<Rightarrow> ptr \<Rightarrow> ptr \<Rightarrow> ptr \<Rightarrow> (ptr \<times> ptr \<times> mem) option" where
  "strtok_r m str delim save =
     (if str = NULL \<and> save = NULL then Some (NULL, NULL, m)
      else let save = (if str \<noteq> NULL then str else save) in
        do { n \<leftarrow> strspn m save delim;
             let str = save + n;
             k \<leftarrow> strcspn m str delim;
             let save = str + k;
             Some (if save = str then (NULL, NULL, m)
                   else if m save \<noteq> 0 then (str, save + 1, m(save := 0))
                   else (str, NULL, m)) })"

definition strtok :: "mem \<Rightarrow> ptr \<Rightarrow> ptr \<Rightarrow> ptr \<Rightarrow> (ptr \<times> ptr \<times> mem) option" where
  "strtok m p str delim =
     (if str = NULL \<and> p = NULL then Some (NULL, NULL, m)
      else let p = (if str \<noteq> NULL then str else p) in
        do { n \<leftarrow> strspn m p delim;
             let str = p + n;
             k \<leftarrow> strcspn m str delim;
             let p = str + k;
             Some (if p = str then (NULL, NULL, m)
                   else if m p \<noteq> 0 then (str, p + 1, m(p := 0))
                   else (str, NULL, m)) })"

subsection \<open>What the functions compute on C strings\<close>

lemma strlen_loop_cstr:
  "cstr m (s + len) xs \<Longrightarrow> strlen_loop m s len = Some (len + of_nat (length xs))"
  by (induction xs arbitrary: len) (simp_all add: strlen_loop.simps [of m s] add.assoc)

lemma strlen_cstr: "cstr m s xs \<Longrightarrow> strlen m s = Some (of_nat (length xs))"
  using strlen_loop_cstr [of m s 0 xs] by (simp add: strlen_def)

lemma strcmp_correct:
  assumes "cstr m s1 xs" and "cstr m s2 ys"
  shows "\<exists>r. strcmp m s1 s2 = Some r \<and> (r = 0 \<longleftrightarrow> xs = ys) \<and> (r < 0 \<longleftrightarrow> ord_class.lexordp xs ys)"
  using assms
proof (induction xs arbitrary: s1 s2 ys)
  case Nil
  then show ?case
    by (cases ys) (auto simp: strcmp.simps [of m s1 s2] uint_0_iff uint_pos_iff)
next
  case (Cons x xs)
  show ?case
  proof (cases ys)
    case Nil
    with Cons.prems show ?thesis by (auto simp: strcmp.simps [of m s1 s2] uint_0_iff uint_pos_iff)
  next
    case (Cons y zs)
    with Cons.prems Cons.IH [of "s1 + 1" "s2 + 1" zs] show ?thesis
      by (auto simp: strcmp.simps [of m s1 s2] word_less_def uint_eq_iff linorder_neq_iff)
  qed
qed

lemma skip_to_nul_cstr: "cstr m s xs \<Longrightarrow> skip_to_nul m s = Some (s + of_nat (length xs))"
  by (induction xs arbitrary: s) (simp_all add: skip_to_nul.simps [of m] add.assoc)

lemma strchr_cstr:
  "cstr m s xs \<Longrightarrow> strchr m s (sint c)
     = Some (if c \<in> set xs then s + of_nat (length (takeWhile (\<lambda>x. x \<noteq> c) xs)) else NULL)"
  by (induction xs arbitrary: s) (auto simp: strchr.simps [of m] sint_eq_iff add.assoc)

lemma strspn_loop_cstr:
  assumes "cstr m s1 xs" and "cstr m s2 ds" and "NULL \<notin> region s2 (length ds)"
  shows "strspn_loop m s1 s2 ret = Some (ret + of_nat (length (takeWhile (\<lambda>x. x \<in> set ds) xs)))"
  using assms(1)
proof (induction xs arbitrary: s1 ret)
  case Nil
  then show ?case by (simp add: strspn_loop.simps [of m s1])
next
  case (Cons x xs)
  have "x \<in> set ds \<Longrightarrow> s2 + of_nat (length (takeWhile (\<lambda>y. y \<noteq> x) ds)) \<noteq> NULL"
    using assms(3) regionI [of "length (takeWhile (\<lambda>y. y \<noteq> x) ds)" "length ds" s2]
    using length_takeWhile_neq [of x ds] by metis
  with Cons show ?case
    by (auto simp: strspn_loop.simps [of m s1] strchr_cstr [OF assms(2)] algebra_simps)
qed

lemma strspn_correct:
  assumes "cstr m s1 xs" and "cstr m s2 ds" and "NULL \<notin> region s2 (length ds)"
  shows "strspn m s1 s2 = Some (of_nat (length (takeWhile (\<lambda>x. x \<in> set ds) xs)))"
  using strspn_loop_cstr [OF assms, of 0] by (simp add: strspn_def)

lemma strcspn_loop_cstr:
  assumes "cstr m s1 xs" and "cstr m s2 ds" and "NULL \<notin> region s2 (length ds)"
  shows "strcspn_loop m s1 s2 ret = Some (ret + of_nat (length (takeWhile (\<lambda>x. x \<notin> set ds) xs)))"
  using assms(1)
proof (induction xs arbitrary: s1 ret)
  case Nil
  then show ?case by (simp add: strcspn_loop.simps [of m s1])
next
  case (Cons x xs)
  have "x \<in> set ds \<Longrightarrow> s2 + of_nat (length (takeWhile (\<lambda>y. y \<noteq> x) ds)) \<noteq> NULL"
    using assms(3) regionI [of "length (takeWhile (\<lambda>y. y \<noteq> x) ds)" "length ds" s2]
    using length_takeWhile_neq [of x ds] by metis
  with Cons show ?case
    by (auto simp: strcspn_loop.simps [of m s1] strchr_cstr [OF assms(2)] algebra_simps)
qed

lemma strcspn_correct:
  assumes "cstr m s1 xs" and "cstr m s2 ds" and "NULL \<notin> region s2 (length ds)"
  shows "strcspn m s1 s2 = Some (of_nat (length (takeWhile (\<lambda>x. x \<notin> set ds) xs)))"
  using strcspn_loop_cstr [OF assms, of 0] by (simp add: strcspn_def)

fun match_index :: "'a list \<Rightarrow> 'a list \<Rightarrow> nat option" where
  "match_index ys [] = None"
| "match_index ys (x # xs) =
     (if take (length ys) (x # xs) = ys then Some 0 else map_option Suc (match_index ys xs))"

lemma cstr_bytes_prefix_iff:
  assumes "cstr m p xs" and "0 \<notin> set ys"
  shows "bytes m p (length ys) = ys \<longleftrightarrow> take (length ys) xs = ys"
  using assms
proof (induction xs arbitrary: p ys)
  case Nil
  then show ?case by (cases ys) (auto simp: bytes_Suc)
next
  case (Cons x xs)
  then show ?case by (cases ys) (auto simp: bytes_Suc)
qed

lemma strstr_loop_cstr:
  assumes "cstr m h xs" and "cstr m needle ys"
  shows "strstr_loop m h needle (of_nat (length ys))
    = Some (case match_index ys xs of None \<Rightarrow> NULL | Some i \<Rightarrow> h + of_nat i)"
  using assms(1)
proof (induction xs arbitrary: h)
  case Nil
  then show ?case by (simp add: strstr_loop.simps [of m h])
next
  case (Cons x xs)
  have n: "unat (of_nat (length ys) :: u64) = length ys"
    using cstr_length [OF assms(2)] by (simp add: unat_of_nat)
  have ys: "bytes m needle (length ys) = ys" "0 \<notin> set ys"
    using assms(2) by (simp_all add: cstr_iff)
  have "memcmp m h needle (of_nat (length ys)) = 0 \<longleftrightarrow> take (length ys) (x # xs) = ys"
    using cstr_bytes_prefix_iff [OF Cons.prems ys(2)] by (simp add: memcmp_eq_0_iff n ys(1))
  with Cons show ?case
    by (auto simp: strstr_loop.simps [of m h] add.assoc split: option.splits)
qed

lemma strstr_correct:
  assumes "cstr m h xs" and "cstr m needle ys"
  shows "strstr m h needle = Some (case match_index ys xs of None \<Rightarrow> NULL | Some i \<Rightarrow> h + of_nat i)"
  by (simp add: strstr_def strlen_cstr [OF assms(2)] strstr_loop_cstr [OF assms])

subsection \<open>Copying and appending C strings\<close>

lemma strcpy_loop_cstr:
  assumes "cstr m src xs" and "length xs < 2 ^ 31"
    and "region dest (Suc (length xs)) \<inter> region src (Suc (length xs)) = {}"
    and "k \<le> length xs" and "copied_upto m dest src k t"
  shows "\<exists>t'. strcpy_loop t dest src (int k) = Some (int (length xs), t')
    \<and> copied_upto m dest src (length xs) t'"
  using assms(4,5)
proof (induction "length xs - k" arbitrary: k t)
  case 0
  then have k: "k = length xs" by simp
  have "src + of_nat (length xs) \<notin> region dest (length xs)"
    using assms(3) region_mono [of "length xs" "Suc (length xs)" dest] by (auto simp: region_Suc)
  with 0 k assms(1) have "t (src + of_nat (length xs)) = 0"
    by (simp add: copied_upto_def cstr_iff)
  with 0 k show ?case by (simp add: strcpy_loop.simps [of t])
next
  case (Suc d)
  then have k: "k < length xs" by simp
  have src: "src + of_nat k \<notin> region dest k"
    using assms(3) k region_mono [of k "Suc (length xs)" dest] regionI [of k "Suc (length xs)" src]
    by auto
  have tk: "t (src + of_nat k) = m (src + of_nat k)"
    using Suc.prems(2) src by (simp add: copied_upto_def)
  have nz: "m (src + of_nat k) \<noteq> 0"
    using assms(1) k by (metis cstr_iff nth_bytes nth_mem)
  have d: "dest + of_nat j \<noteq> dest + of_nat k" if "j < k" for j
    using that k assms(2) ptr_add_eq_iff [of j k dest] by simp
  have "copied_upto m dest src (Suc k) (t(dest + of_nat k := t (src + of_nat k)))"
    using Suc.prems(2) tk d by (auto simp: copied_upto_def region_Suc less_Suc_eq)
  with Suc.hyps k have "\<exists>t'. strcpy_loop (t(dest + of_nat k := t (src + of_nat k))) dest src (int (Suc k))
      = Some (int (length xs), t') \<and> copied_upto m dest src (length xs) t'"
    by (simp del: of_nat_Suc)
  moreover have "int k \<noteq> 2 ^ 31 - 1" using k assms(2) by simp
  ultimately show ?case
    using nz tk by (subst strcpy_loop.simps) (simp add: add.commute)
qed

lemma strcpy_correct:
  assumes "cstr m src xs" and "length xs < 2 ^ 31"
    and "region dest (Suc (length xs)) \<inter> region src (Suc (length xs)) = {}"
  shows "\<exists>m'. strcpy m dest src = Some (dest, m') \<and> cstr m' dest xs \<and> cstr m' src xs
    \<and> (\<forall>a. a \<notin> region dest (Suc (length xs)) \<longrightarrow> m' a = m a)"
proof -
  obtain t where t: "strcpy_loop m dest src 0 = Some (int (length xs), t)"
      and c: "copied_upto m dest src (length xs) t"
    using strcpy_loop_cstr [OF assms, of 0 m] by (auto simp: copied_upto_def)
  let ?m = "t(dest + of_nat (length xs) := 0)"
  have out: "\<forall>a. a \<notin> region dest (Suc (length xs)) \<longrightarrow> ?m a = m a"
    using c by (auto simp: copied_upto_def region_Suc)
  have "dest + of_nat (length xs) \<notin> region dest (length xs)"
    using assms(2) ptr_add_eq_iff [of "length xs" _ dest] by (auto simp: region_def)
  with c assms(1) have "cstr ?m dest xs"
    by (simp add: cstr_iff copied_upto_bytes)
  moreover have "cstr ?m src xs"
    using assms(1,3) out by (intro cstr_cong [OF assms(1)]) blast
  ultimately show ?thesis
    using t out by (simp add: strcpy_def)
qed

lemma strcat_loop_cstr:
  assumes "cstr m src xs" and "region dest (length xs) \<inter> region src (Suc (length xs)) = {}"
  shows "\<exists>t. strcat_loop m dest src = Some (dest + of_nat (length xs), t)
    \<and> copied_upto m dest src (length xs) t"
  using assms
proof (induction xs arbitrary: m dest src)
  case Nil
  then show ?case by (simp add: strcat_loop.simps [of m] copied_upto_def)
next
  case (Cons x xs)
  let ?n = "length xs"
  let ?m = "m(dest := m src)"
  have disj: "dest \<notin> insert src (region (src + 1) (Suc ?n))"
      "region (dest + 1) ?n \<inter> region (src + 1) (Suc ?n) = {}"
    using Cons.prems(2) by (auto simp: region_front)
  have "cstr m (src + 1) xs" using Cons.prems(1) by simp
  then have "cstr ?m (src + 1) xs"
    by (rule cstr_cong) (use disj(1) in auto)
  then obtain t where t: "strcat_loop ?m (dest + 1) (src + 1) = Some (dest + 1 + of_nat ?n, t)"
      and c: "copied_upto ?m (dest + 1) (src + 1) ?n t"
    using Cons.IH disj(2) by blast
  have "dest \<notin> region (dest + 1) ?n"
    using region_add_disjoint [of 1 ?n dest] cstr_length [OF Cons.prems(1)]
    by (simp add: region_front)
  then have td: "t dest = m src"
    using c by (simp add: copied_upto_def)
  have "dest \<notin> region (src + 1) ?n"
    using disj(1) region_mono [of ?n "Suc ?n" "src + 1"] by auto
  then have "bytes t (dest + 1) ?n = bytes m (src + 1) ?n"
    using c by (simp add: copied_upto_bytes)
  with td c have "copied_upto m dest src (Suc ?n) t"
    by (simp add: copied_upto_bytes bytes_Suc region_front)
  with t Cons.prems(1) show ?case
    by (simp add: strcat_loop.simps [of m] add.assoc)
qed

lemma strcat_correct:
  assumes d: "cstr m dest ds" and s: "cstr m src xs"
    and len: "length ds + length xs < 2 ^ 64"
    and disj: "region dest (Suc (length ds + length xs)) \<inter> region src (Suc (length xs)) = {}"
  shows "\<exists>m'. strcat m dest src = Some (dest, m') \<and> cstr m' dest (ds @ xs) \<and> cstr m' src xs
    \<and> (\<forall>a. a \<notin> region dest (Suc (length ds + length xs)) \<longrightarrow> m' a = m a)"
proof -
  let ?e = "dest + of_nat (length ds)" and ?n = "length xs"
  have whole: "region dest (Suc (length ds + ?n)) = region dest (length ds) \<union> region ?e (Suc ?n)"
    using region_add [of dest "length ds" "Suc ?n"] by simp
  have "region ?e ?n \<inter> region src (Suc ?n) = {}"
    using disj whole region_mono [of ?n "Suc ?n" ?e] by auto
  from strcat_loop_cstr [OF s this] obtain t
    where t: "strcat_loop m ?e src = Some (?e + of_nat ?n, t)"
      and c: "copied_upto m ?e src ?n t" by blast
  let ?m = "t(?e + of_nat ?n := 0)"
  have out: "\<forall>a. a \<notin> region ?e (Suc ?n) \<longrightarrow> ?m a = m a"
    using c by (simp add: copied_upto_def region_Suc)
  have tail: "cstr ?m ?e xs"
    using c s not_in_region [of ?n ?e] len by (simp add: cstr_iff copied_upto_bytes)
  have "region dest (length ds) \<inter> region ?e (Suc ?n) = {}"
    using len by (intro region_add_disjoint) simp
  then have "bytes ?m dest (length ds) = bytes m dest (length ds)"
    using out by (intro bytes_cong) blast
  with d tail have "cstr ?m dest (ds @ xs)"
    by (simp add: cstr_append cstr_iff [of m dest ds])
  moreover have "cstr ?m src xs"
    using disj whole out by (intro cstr_cong [OF s]) blast
  moreover have "\<forall>a. a \<notin> region dest (Suc (length ds + ?n)) \<longrightarrow> ?m a = m a"
    using out whole by blast
  ultimately show ?thesis
    using t skip_to_nul_cstr [OF d] by (auto simp: strcat_def)
qed

subsection \<open>Reversing and trimming C strings\<close>

lemma strrev_loop_correct:
  assumes "0 \<le> j" and "i < 2 ^ 31"
  shows "(\<forall>k. j \<le> k \<and> k \<le> i \<longrightarrow> strrev_loop m s i j (s + of_int k) = m (s + of_int (i + j - k)))
    \<and> (\<forall>a. (\<forall>k. j \<le> k \<and> k \<le> i \<longrightarrow> a \<noteq> s + of_int k) \<longrightarrow> strrev_loop m s i j a = m a)"
proof -
  define p :: "int \<Rightarrow> ptr" where "p k = s + of_int k" for k
  have inj: "p k = p l \<longleftrightarrow> k = l" if "0 \<le> k" "k < 2 ^ 31" "0 \<le> l" "l < 2 ^ 31" for k l
    using that ptr_add_int_eq_iff [of k l s] by (simp add: p_def)
  have step: "strrev_loop m s i j =
      (if j < i then strrev_loop (m(p i := m (p j), p j := m (p i))) s (i - 1) (j + 1) else m)" for m i j
    by (simp add: p_def strrev_loop.simps [of m s i j])
  have "(\<forall>k. j \<le> k \<and> k \<le> i \<longrightarrow> strrev_loop m s i j (p k) = m (p (i + j - k)))
    \<and> (\<forall>a. (\<forall>k. j \<le> k \<and> k \<le> i \<longrightarrow> a \<noteq> p k) \<longrightarrow> strrev_loop m s i j a = m a)"
    using assms
  proof (induction "nat (i - j + 1)" arbitrary: m i j rule: less_induct)
    case less
    show ?case
    proof (cases "j < i")
      case True
      let ?m = "m(p i := m (p j), p j := m (p i))"
      have IH: "\<And>k. j + 1 \<le> k \<and> k \<le> i - 1 \<Longrightarrow> strrev_loop ?m s (i - 1) (j + 1) (p k) = ?m (p (i - 1 + (j + 1) - k))"
          "\<And>a. (\<forall>k. j + 1 \<le> k \<and> k \<le> i - 1 \<longrightarrow> a \<noteq> p k) \<Longrightarrow> strrev_loop ?m s (i - 1) (j + 1) a = ?m a"
        using less.hyps [of "i - 1" "j + 1" ?m] less.prems True by auto
      have "strrev_loop ?m s (i - 1) (j + 1) (p k) = m (p (i + j - k))" if k: "j \<le> k" "k \<le> i" for k
      proof (cases "k = i \<or> k = j")
        case True
        have "strrev_loop ?m s (i - 1) (j + 1) (p k) = ?m (p k)"
          using True \<open>j < i\<close> less.prems by (intro IH(2)) (auto simp: inj)
        then show ?thesis
          using True \<open>j < i\<close> less.prems by (auto simp: inj)
      next
        case False
        then have "strrev_loop ?m s (i - 1) (j + 1) (p k) = ?m (p (i + j - k))"
          using IH(1) [of k] k by simp
        then show ?thesis using False k \<open>j < i\<close> less.prems by (simp add: inj)
      qed
      moreover have "strrev_loop ?m s (i - 1) (j + 1) a = m a"
          if "\<forall>k. j \<le> k \<and> k \<le> i \<longrightarrow> a \<noteq> p k" for a
        using that IH(2) [of a] \<open>j < i\<close> by simp
      ultimately show ?thesis using True by (simp add: step [of m i j])
    next
      case False
      then have "strrev_loop m s i j = m" by (subst step) simp
      moreover have "i + j - k = k" if "j \<le> k" "k \<le> i" for k using that False by simp
      ultimately show ?thesis by metis
    qed
  qed
  then show ?thesis by (simp add: p_def)
qed

lemma strrev_index:
  assumes "length xs \<le> 2 ^ 31"
  shows "sint (ucast (of_nat (length xs) - 1 :: u64) :: u32) = int (length xs) - 1"
proof (cases xs)
  case Nil
  then show ?thesis by (simp add: unsigned_minus_1_eq_mask mask_eq_exp_minus_1)
next
  case (Cons x ys)
  then have "of_nat (length xs) - 1 = (of_nat (length ys) :: u64)" by simp
  moreover have "sint (ucast (of_nat (length ys) :: u64) :: u32) = int (length ys)"
    using assms Cons
    by (simp add: unsigned_of_nat signed_of_nat take_bit_nat_eq_self signed_take_bit_int_eq_self)
  ultimately show ?thesis using Cons by simp
qed

lemma strrev_correct:
  assumes "cstr m s xs" and "length xs \<le> 2 ^ 31"
  shows "\<exists>m'. strrev m s = Some (s, m') \<and> cstr m' s (rev xs)
    \<and> (\<forall>a. a \<notin> region s (length xs) \<longrightarrow> m' a = m a)"
proof -
  let ?n = "length xs"
  let ?m = "strrev_loop m s (int ?n - 1) 0"
  have inside: "?m (s + of_nat k) = m (s + of_nat (?n - 1 - k))" if "k < ?n" for k
  proof -
    have "of_int (int ?n - 1 + 0 - int k) = (of_nat (?n - 1 - k) :: ptr)"
      using that by (simp add: of_nat_diff)
    with strrev_loop_correct [of 0 "int ?n - 1" m s] assms(2) that show ?thesis
      by (auto dest!: spec [of _ "int k"] simp del: of_int_diff of_int_add)
  qed
  have outside: "?m a = m a" if "a \<notin> region s ?n" for a
  proof -
    have "a \<noteq> s + of_int k" if "0 \<le> k" "k \<le> int ?n - 1" for k
      using that \<open>a \<notin> region s ?n\<close> regionI [of "nat k" ?n s] by auto
    then show ?thesis
      using strrev_loop_correct [of 0 "int ?n - 1" m s] assms(2) by auto
  qed
  have "bytes ?m s ?n = rev xs"
  proof (rule nth_equalityI)
    fix k assume "k < length (bytes ?m s ?n)"
    then have k: "k < ?n" by simp
    have "m (s + of_nat (?n - 1 - k)) = xs ! (?n - 1 - k)"
      using assms(1) k nth_bytes [of "?n - 1 - k" ?n m s] by (simp add: cstr_iff)
    then show "bytes ?m s ?n ! k = rev xs ! k"
      using k inside [OF k] by (simp add: rev_nth)
  qed simp
  moreover have "?m (s + of_nat ?n) = m (s + of_nat ?n)"
    using not_in_region [of ?n s] assms(2) by (intro outside) simp
  ultimately have "cstr ?m s (rev xs)"
    using assms(1) by (simp add: cstr_iff)
  with outside show ?thesis
    by (simp add: strrev_def strlen_cstr [OF assms(1)] strrev_index [OF assms(2)])
qed

text \<open>The white space that the trimming functions remove, on bytes.\<close>

definition space_byte :: "u8 \<Rightarrow> bool" where
  "space_byte b \<longleftrightarrow> isspace (scast b)"

definition trim_right :: "u8 list \<Rightarrow> u8 list" where
  "trim_right xs = rev (dropWhile space_byte (rev xs))"

lemma space_byte_0 [simp]: "\<not> space_byte 0"
  and isspace_0 [simp]: "\<not> isspace 0"
  by (simp_all add: space_byte_def isspace_def)

lemma strtrim_leading_loop_cstr:
  "cstr m (s + of_int i) xs \<Longrightarrow> 0 \<le> i \<Longrightarrow> i + int (length xs) < 2 ^ 31 \<Longrightarrow>
   strtrim_leading_loop m s i = Some (i + int (length (takeWhile space_byte xs)))"
proof (induction xs arbitrary: i)
  case Nil
  then show ?case
    by (simp add: strtrim_leading_loop.simps [of m s i] space_byte_def [symmetric])
next
  case (Cons x xs)
  have "cstr m (s + of_int (i + 1)) xs" using Cons.prems(1) by (simp add: add.assoc)
  with Cons show ?case
    by (auto simp: strtrim_leading_loop.simps [of m s i] space_byte_def [symmetric])
qed

lemma strtrim_leading_correct:
  assumes "cstr m s xs" and "length xs < 2 ^ 31"
  shows "strtrim_leading m s = Some (s + of_nat (length (takeWhile space_byte xs)))"
  using strtrim_leading_loop_cstr [of m s 0 xs] assms by (simp add: strtrim_leading_def)

lemma strtrim_trailing_loop_back:
  assumes "n \<le> k" and "\<not> space_byte (m (s + of_nat n))"
    and "\<And>j. n < j \<Longrightarrow> j \<le> k \<Longrightarrow> space_byte (m (s + of_nat j))"
  shows "strtrim_trailing_loop m s (of_nat k) = Some (of_nat n)"
  using assms(1,3)
proof (induction k rule: dec_induct)
  case base
  then show ?case
    using assms(2) by (simp add: strtrim_trailing_loop.simps [of m s] space_byte_def)
next
  case (step k)
  then have "strtrim_trailing_loop m s (of_nat k) = Some (of_nat n)" by simp
  moreover have "space_byte (m (s + of_nat (Suc k)))"
    using step.prems [of "Suc k"] step.hyps(1) by (simp del: of_nat_Suc)
  ultimately show ?case
    by (subst strtrim_trailing_loop.simps) (simp add: space_byte_def)
qed

lemma trim_right_split:
  assumes "\<exists>x\<in>set xs. \<not> space_byte x"
  obtains ys c zs where "xs = ys @ c # zs" "trim_right xs = ys @ [c]" "\<not> space_byte c"
    "\<forall>z\<in>set zs. space_byte z"
proof -
  let ?d = "dropWhile space_byte (rev xs)" and ?t = "takeWhile space_byte (rev xs)"
  obtain c ys where d: "?d = c # ys" using assms by (cases ?d) auto
  have "rev xs = ?t @ c # ys" using d takeWhile_dropWhile_id [of space_byte "rev xs"] by metis
  then have "xs = rev ys @ c # rev ?t" by (metis append.assoc append_Cons append_Nil rev.simps(2) rev_append rev_rev_ident)
  moreover have "\<not> space_byte c" using d by (metis hd_dropWhile list.distinct(1) list.sel(1))
  moreover have "\<forall>z\<in>set (rev ?t). space_byte z" using set_takeWhileD by fastforce
  ultimately show thesis using that [of "rev ys" c "rev ?t"] d by (simp add: trim_right_def)
qed

lemma strtrim_trailing_correct:
  assumes "cstr m s xs" and "\<exists>x\<in>set xs. \<not> space_byte x"
  shows "\<exists>m'. strtrim_trailing m s = Some (s, m') \<and> cstr m' s (trim_right xs)
    \<and> (\<forall>a. a \<noteq> s + of_nat (length (trim_right xs)) \<longrightarrow> m' a = m a)"
proof -
  obtain ys c zs where xs: "xs = ys @ c # zs" "trim_right xs = ys @ [c]" "\<not> space_byte c"
      "\<forall>z\<in>set zs. space_byte z"
    using trim_right_split [OF assms(2)] .
  have at: "m (s + of_nat j) = xs ! j" if "j < length xs" for j
    using assms(1) that nth_bytes [of j "length xs" m s] by (simp add: cstr_iff)
  have "strtrim_trailing_loop m s (of_nat (length xs - 1)) = Some (of_nat (length ys))"
  proof (rule strtrim_trailing_loop_back)
    show "\<not> space_byte (m (s + of_nat (length ys)))" using at [of "length ys"] xs by simp
    fix j assume "length ys < j" "j \<le> length xs - 1"
    then have "j < length xs" "xs ! j \<in> set zs" using xs(1) by (auto simp: nth_append nth_Cons')
    then show "space_byte (m (s + of_nat j))" using at xs(4) by simp
  qed (simp add: xs(1))
  then have "strtrim_trailing m s = Some (s, m(s + of_nat (length (ys @ [c])) := 0))"
    using xs(1) by (simp add: strtrim_trailing_def strlen_cstr [OF assms(1)] of_nat_diff add.commute)
  moreover have "bytes m s (length (ys @ [c])) = ys @ [c]" "0 \<notin> set (ys @ [c])"
    using assms(1) cstr_append [of m s "ys @ [c]" zs] xs(1) by auto
  moreover have "length (ys @ [c]) < 2 ^ 64" using cstr_length [OF assms(1)] xs(1) by simp
  then have "s + of_nat (length (ys @ [c])) \<notin> region s (length (ys @ [c]))"
    by (rule not_in_region)
  ultimately show ?thesis
    unfolding xs(2) cstr_iff by (simp del: length_append)
qed

lemma strtrim_correct:
  assumes "cstr m s xs" and "length xs < 2 ^ 31" and "\<exists>x\<in>set xs. \<not> space_byte x"
  shows "\<exists>r m'. strtrim m s = Some (r, m') \<and> r = s + of_nat (length (takeWhile space_byte xs))
    \<and> cstr m' r (trim_right (dropWhile space_byte xs))"
proof -
  let ?n = "length (takeWhile space_byte xs)"
  have "cstr m (s + of_nat ?n) (dropWhile space_byte xs)"
    using cstr_append [of m s "takeWhile space_byte xs" "dropWhile space_byte xs"] assms(1) by simp
  moreover have "\<exists>x\<in>set (dropWhile space_byte xs). \<not> space_byte x"
    using assms(3) by (metis dropWhile_eq_Nil_conv hd_dropWhile list.set_sel(1))
  ultimately show ?thesis
    using strtrim_trailing_correct [of m "s + of_nat ?n"] strtrim_leading_correct [OF assms(1,2)]
    by (fastforce simp: strtrim_def)
qed

subsection \<open>Tokens\<close>

text \<open>
  The token sequence that successive calls of \<open>strtok\<close> are to deliver: the maximal runs of
  bytes that are not delimiters.
\<close>

function tokens :: "u8 set \<Rightarrow> u8 list \<Rightarrow> u8 list list" where
  "tokens D xs =
     (let ys = dropWhile (\<lambda>x. x \<in> D) xs
      in if ys = [] then []
         else takeWhile (\<lambda>x. x \<notin> D) ys # tokens D (dropWhile (\<lambda>x. x \<notin> D) ys))"
  by pat_completeness auto
termination
proof (relation "measure (\<lambda>(D, xs). length xs)", simp)
  fix D :: "u8 set" and xs ys
  assume y: "ys = dropWhile (\<lambda>x. x \<in> D) xs" "ys \<noteq> []"
  from y(2) obtain z zs where "ys = z # zs" by (meson list.exhaust)
  with y(1) have "z \<notin> D" by (metis hd_dropWhile list.discI list.sel(1))
  with \<open>ys = z # zs\<close> have "length (dropWhile (\<lambda>x. x \<notin> D) ys) < length ys"
    by (simp add: le_imp_less_Suc length_dropWhile_le)
  also have "\<dots> \<le> length xs" using y(1) by (simp add: length_dropWhile_le)
  finally show "((D, dropWhile (\<lambda>x. x \<notin> D) ys), D, xs) \<in> measure (\<lambda>(D, xs). length xs)" by simp
qed

declare tokens.simps [simp del]

lemma tokens_skip: "d \<in> D \<Longrightarrow> tokens D (d # xs) = tokens D xs"
  by (simp add: tokens.simps [of D])

lemma tokens_Nil [simp]: "tokens D [] = []"
  by (simp add: tokens.simps [of D])

text \<open>
  One call: \<open>cur\<close> is where the scan starts (the string given, or the saved pointer).  The
  result is the next token, terminated in place, and a saved pointer from which the rest of
  the tokens follow.
\<close>

lemma strtok_step:
  assumes x: "cstr m cur xs" and d: "cstr m delim ds"
    and cur: "(if str \<noteq> NULL then str else p) = cur"
    and nn: "NULL \<notin> region cur (Suc (length xs))" "NULL \<notin> region delim (length ds)"
    and disj: "region cur (Suc (length xs)) \<inter> region delim (Suc (length ds)) = {}"
  shows "case tokens (set ds) xs of
      [] \<Rightarrow> strtok m p str delim = Some (NULL, NULL, m)
    | t # ts \<Rightarrow> (\<exists>k r m'. strtok m p str delim = Some (cur + of_nat k, r, m') \<and> k + length t \<le> length xs
        \<and> cstr m' (cur + of_nat k) t \<and> (\<forall>a. a \<notin> region cur (k + length t + 1) \<longrightarrow> m' a = m a)
        \<and> (if k + length t = length xs then r = NULL \<and> ts = []
           else r = cur + of_nat (k + length t + 1)
             \<and> tokens (set ds) (drop (k + length t + 1) xs) = ts
             \<and> cstr m' r (drop (k + length t + 1) xs)))"
proof -
  let ?D = "set ds"
  define n where "n = length (takeWhile (\<lambda>x. x \<in> ?D) xs)"
  define ys where "ys = dropWhile (\<lambda>x. x \<in> ?D) xs"
  define t where "t = takeWhile (\<lambda>x. x \<notin> ?D) ys"
  define zs where "zs = dropWhile (\<lambda>x. x \<notin> ?D) ys"
  have xs: "xs = takeWhile (\<lambda>x. x \<in> ?D) xs @ ys" "ys = t @ zs"
    by (simp_all add: ys_def t_def zs_def)
  have ys_at: "cstr m (cur + of_nat n) ys"
    using x xs(1) cstr_append [of m cur "takeWhile (\<lambda>x. x \<in> ?D) xs" ys] by (simp add: n_def)
  have len: "length xs = n + length t + length zs"
    using arg_cong [OF xs(1), of length] xs(2) by (simp add: n_def)
  have "cur \<noteq> NULL" using nn(1) by (auto simp: region_front)
  then have scan: "strtok m p str delim =
      (let q = cur + of_nat n; r = q + of_nat (length t)
       in Some (if r = q then (NULL, NULL, m) else if m r \<noteq> 0 then (q, r + 1, m(r := 0)) else (q, NULL, m)))"
    using cur strspn_correct [OF x d nn(2)] strcspn_correct [OF ys_at d nn(2)]
    by (auto simp: strtok_def n_def [symmetric] t_def [symmetric] Let_def split: if_splits)
  show ?thesis
  proof (cases "ys = []")
    case True
    then have "tokens ?D xs = []" by (simp add: tokens.simps [of ?D xs] ys_def)
    with True xs(2) show ?thesis using scan by simp
  next
    case False
    have tk: "tokens ?D xs = t # tokens ?D zs"
      using False by (simp add: tokens.simps [of ?D xs] ys_def t_def zs_def Let_def)
    have "t \<noteq> []" using False hd_dropWhile [of "\<lambda>x. x \<in> ?D" xs]
      by (simp add: t_def ys_def takeWhile_eq_Nil_iff)
    let ?q = "cur + of_nat n"
    let ?r = "?q + of_nat (length t)"
    have lt: "length t < 2 ^ 64" using cstr_length [OF ys_at] xs(2) by simp
    have qr: "?r \<noteq> ?q"
      using \<open>t \<noteq> []\<close> lt ptr_add_eq_iff [of "length t" 0 ?q] by simp
    have tz: "bytes m ?q (length t) = t" "0 \<notin> set t" "cstr m ?r zs"
      using ys_at xs(2) cstr_append [of m ?q t zs] by auto
    have r_eq: "cur + of_nat (n + length t + 1) = ?r + 1" by simp
    have r_in: "?r \<in> region cur (n + length t + 1)"
      using regionI [of "n + length t" "n + length t + 1" cur] by (simp add: add.assoc)
    show ?thesis
    proof (cases zs)
      case Nil
      then have m0: "m ?r = 0" using tz(3) by simp
      then have c: "cstr m ?q t" using tz by (simp add: cstr_iff)
      have e: "strtok m p str delim = Some (?q, NULL, m)"
        unfolding scan Let_def using qr m0 by simp
      show ?thesis unfolding tk list.case
        by (rule exI [of _ n], rule exI [of _ NULL], rule exI [of _ m])
          (use e c len Nil in simp)
    next
      case (Cons z zs')
      then have mr: "m ?r \<noteq> 0" using tz(3) by simp
      let ?m = "m(?r := 0)"
      have "z \<in> ?D" using Cons hd_dropWhile [of "\<lambda>x. x \<notin> ?D" ys] by (simp add: zs_def)
      then have tk': "tokens ?D zs = tokens ?D zs'" using Cons by (simp add: tokens_skip)
      have "drop (n + length t + 1) (takeWhile (\<lambda>x. x \<in> ?D) xs @ t @ z # zs') = zs'"
        by (simp add: n_def)
      then have dr: "drop (n + length t + 1) xs = zs'" using xs Cons by metis
      have "?r \<notin> region ?q (length t)" using lt by (rule not_in_region)
      then have c1: "cstr ?m ?q t" using tz by (simp add: cstr_iff)
      have c2: "cstr ?m (?r + 1) zs'"
      proof (rule cstr_cong)
        show "cstr m (?r + 1) zs'" using tz(3) Cons by simp
        fix a assume "a \<in> region (?r + 1) (Suc (length zs'))"
        moreover have "Suc (Suc (length zs')) \<le> 2 ^ 64"
          using cstr_length [OF tz(3)] Cons by simp
        then have "?r \<notin> region (?r + 1) (Suc (length zs'))"
          using region_add_disjoint [of 1 "Suc (length zs')" ?r] by (simp add: region_front)
        ultimately show "?m a = m a" by auto
      qed
      have e: "strtok m p str delim = Some (?q, ?r + 1, ?m)"
        unfolding scan Let_def using qr mr by simp
      have out: "\<forall>a. a \<notin> region cur (n + length t + 1) \<longrightarrow> ?m a = m a" using r_in by auto
      show ?thesis unfolding tk list.case
        by (rule exI [of _ n], rule exI [of _ "?r + 1"], rule exI [of _ ?m], unfold dr r_eq)
          (use e c1 c2 len Cons out tk' in simp)
    qed
  qed
qed

end
