(* ===== verification/Pci.thy ===== *)
theory Pci
  imports MemMap Access CString
begin

text \<open>
  \<open>kernel/device/acpi.c\<close> (finding a table) and \<open>kernel/device/pci.c\<close>: the tables of class names,
  the enumeration of the devices of every host bridge, the lookup of a device and the decoding
  of its base address registers.

  Structures in memory that the kernel does not write (the ACPI tables, the PCI configuration
  space) are read from byte memory with \<open>mem_read_*\<close>; a read has no side effect.  A class table
  is a list of entries, and the pointer to a table is its name, a \<open>class_table\<close>.  The list of
  \<open>pci_device_node\<close>s is the sequence of its devices (theory \<open>Dll\<close>).
\<close>

subsection \<open>Finding an ACPI table\<close>

definition sizeof_acpi_header :: u64 where "sizeof_acpi_header = 36"

text \<open>
  \<open>for (int i = 0; i < entry_count; i++)\<close> over the 32-bit pointers from \<open>entry\<close> on; \<open>name\<close> is
  the address of the name's literal.
\<close>

fun find_table_loop :: "mem \<Rightarrow> ptr \<Rightarrow> ptr \<Rightarrow> nat \<Rightarrow> ptr" where
  "find_table_loop m name entry 0 = NULL"
| "find_table_loop m name entry (Suc n) =
     (let table = ucast (mem_read_32 m entry)
      in if strnequ m name table 4 then table else find_table_loop m name (entry + 4) n)"

definition acpi_entry_count :: "mem \<Rightarrow> ptr \<Rightarrow> int" where
  "acpi_entry_count m rsdt =
     sint (ucast ((ucast (mem_read_32 m (rsdt + 4)) - sizeof_acpi_header) div 4) :: 32 word)"

record acpi_state =
  acpi_rsdp :: ptr
  acpi_inited :: bool

definition rsdt_address :: "mem \<Rightarrow> acpi_state \<Rightarrow> ptr" where
  "rsdt_address m a = ucast (mem_read_32 m (acpi_rsdp a + 16))"

definition acpi_find_table :: "mem \<Rightarrow> acpi_state \<Rightarrow> ptr \<Rightarrow> ptr" where
  "acpi_find_table m a name =
     (if \<not> acpi_inited a then NULL
      else find_table_loop m name (rsdt_address m a + sizeof_acpi_header)
             (nat (acpi_entry_count m (rsdt_address m a))))"

text \<open>
  \<open>claim_range map type\<close>: the steps \<open>acpi_init\<close> and \<open>pci_init\<close> share, finding the range of an
  address, mapping it on itself and re-typing it.  The first component is the number of the step
  that failed, if one did.
\<close>

definition MEMORY_PCI_ECAM :: mem_type where "MEMORY_PCI_ECAM = 6"
definition MEMORY_ACPI :: mem_type where "MEMORY_ACPI = 10"

definition claim_range ::
  "(u64 \<Rightarrow> u64 \<Rightarrow> u64 \<Rightarrow> vm_state \<Rightarrow> (bool \<times> vm_state) result) \<Rightarrow> mem_type \<Rightarrow> u64 \<Rightarrow> mem_state \<Rightarrow>
   (nat \<times> mem_state) result" where
  "claim_range map_range type addr s =
     (case mem_find_range (mem_inited s) addr (mem_map s) of
        None \<Rightarrow> Inr (1, s)
      | Some r \<Rightarrow> bind_result (vm_op (map_range (phys_addr r) (phys_addr r) (range_size r)) s)
          (\<lambda>(ok, s). if \<not> ok then Inr (2, s)
             else bind_result (update_map (phys_addr r) (phys_addr r) (range_size r) type s)
               (\<lambda>s. Inr (0, s))))"

definition acpi_init :: "mem \<Rightarrow> ptr \<Rightarrow> mem_state \<Rightarrow> acpi_state \<Rightarrow> (mem_state \<times> acpi_state) result" where
  "acpi_init m rsdp_tag s a =
     kassert (rsdp_tag \<noteq> NULL) ''RSDP does not exist''
       (let a = a\<lparr>acpi_rsdp := rsdp_tag + 8\<rparr>
        in bind_result (claim_range mem_map_range_4k MEMORY_ACPI (rsdt_address m a) s)
             (\<lambda>(step, s). kassert (step \<noteq> 1) ''Cannot find ACPI memory range\<newline>''
               (kassert (step \<noteq> 2) ''Cannot map the ACPI memory range''
                 (Inr (s, a\<lparr>acpi_inited := True\<rparr>)))))"

definition acpi_print_info :: "mem \<Rightarrow> acpi_state \<Rightarrow> printed" where
  "acpi_print_info m a =
     (if \<not> acpi_inited a then [(''Warning: %s\<newline>'', [PStr ''ACPI subsystem not initialized''])]
      else let rsdt = rsdt_address m a; entry_count = acpi_entry_count m rsdt
      in [(''Signature: %.4s\<newline>'', [PChars rsdt]),
          (''ACPI table count: %d\<newline>'', [PNum (word_of_int entry_count)])] @
         map (\<lambda>i. let table = ucast (mem_read_32 m (rsdt + sizeof_acpi_header + 4 * of_nat i))
            in (''Table %d: %.4s, %d bytes\<newline>'',
                [PNum (of_nat (i + 1)), PChars table, PNum (ucast (mem_read_32 m (table + 4)))]))
           [0..<nat entry_count])"

subsection \<open>The class tables\<close>

datatype class_table =
    At_gClassStringList
  | At_PCIBlankEntry
  | At_PCISubClass_00
  | At_PCISubClass_01
  | At_PCISubClass_02
  | At_PCISubClass_03
  | At_PCISubClass_04
  | At_PCISubClass_05
  | At_PCISubClass_06
  | At_PCISubClass_07
  | At_PCISubClass_08
  | At_PCISubClass_09
  | At_PCISubClass_0a
  | At_PCISubClass_0b
  | At_PCISubClass_0c
  | At_PCISubClass_0d
  | At_PCISubClass_0e
  | At_PCISubClass_0f
  | At_PCISubClass_10
  | At_PCISubClass_11
  | At_PCISubClass_12
  | At_PCISubClass_13
  | At_PCIPIFClass_0100
  | At_PCIPIFClass_0101
  | At_PCIPIFClass_0105
  | At_PCIPIFClass_0106
  | At_PCIPIFClass_0107
  | At_PCIPIFClass_0108
  | At_PCIPIFClass_0109
  | At_PCIPIFClass_0300
  | At_PCIPIFClass_0604
  | At_PCIPIFClass_0609
  | At_PCIPIFClass_060b
  | At_PCIPIFClass_0700
  | At_PCIPIFClass_0701
  | At_PCIPIFClass_0703
  | At_PCIPIFClass_0800
  | At_PCIPIFClass_0801
  | At_PCIPIFClass_0802
  | At_PCIPIFClass_0803
  | At_PCIPIFClass_0904
  | At_PCIPIFClass_0c00
  | At_PCIPIFClass_0c03
  | At_PCIPIFClass_0c07
  | At_PCIPIFClass_0d01
  | At_PCIPIFClass_0e00

record PciClassEntry =
  Code :: u32
  Description :: "string option"
  LowerLevelClass :: "class_table option"

definition class_entry :: "u32 \<Rightarrow> string \<Rightarrow> class_table \<Rightarrow> PciClassEntry" where
  "class_entry c d t = \<lparr>Code = c, Description = Some d, LowerLevelClass = Some t\<rparr>"

definition class_end :: PciClassEntry where
  "class_end = \<lparr>Code = 0, Description = None, LowerLevelClass = None\<rparr>"

definition gClassStringList :: "PciClassEntry list" where
  "gClassStringList =
    [class_entry 0x00 ''Pre 2.0 device'' At_PCISubClass_00,
     class_entry 0x01 ''Mass Storage Controller'' At_PCISubClass_01,
     class_entry 0x02 ''Network Controller'' At_PCISubClass_02,
     class_entry 0x03 ''Display Controller'' At_PCISubClass_03,
     class_entry 0x04 ''Multimedia Device'' At_PCISubClass_04,
     class_entry 0x05 ''Memory Controller'' At_PCISubClass_05,
     class_entry 0x06 ''Bridge Device'' At_PCISubClass_06,
     class_entry 0x07 ''Simple Communications Controllers'' At_PCISubClass_07,
     class_entry 0x08 ''Base System Peripherals'' At_PCISubClass_08,
     class_entry 0x09 ''Input Devices'' At_PCISubClass_09,
     class_entry 0x0a ''Docking Stations'' At_PCISubClass_0a,
     class_entry 0x0b ''Processors'' At_PCISubClass_0b,
     class_entry 0x0c ''Serial Bus Controllers'' At_PCISubClass_0c,
     class_entry 0x0d ''Wireless Controllers'' At_PCISubClass_0d,
     class_entry 0x0e ''Intelligent IO Controllers'' At_PCISubClass_0e,
     class_entry 0x0f ''Satellite Communications Controllers'' At_PCISubClass_0f,
     class_entry 0x10 ''Encryption/Decryption Controllers'' At_PCISubClass_10,
     class_entry 0x11 ''Data Acquisition & Signal Processing Controllers'' At_PCISubClass_11,
     class_entry 0x12 ''Processing Accelerators'' At_PCISubClass_12,
     class_entry 0x13 ''Non-Essential Instrumentation'' At_PCISubClass_13,
     class_entry 0xff ''Device does not fit in any defined classes'' At_PCIBlankEntry,
     class_end]"

definition PCIBlankEntry :: "PciClassEntry list" where
  "PCIBlankEntry =
    [class_entry 0x00 '''' At_PCIBlankEntry,
     class_end]"

definition PCISubClass_00 :: "PciClassEntry list" where
  "PCISubClass_00 =
    [class_entry 0x00 ''All devices other than VGA'' At_PCIBlankEntry,
     class_entry 0x01 ''VGA-compatible devices'' At_PCIBlankEntry,
     class_end]"

definition PCISubClass_01 :: "PciClassEntry list" where
  "PCISubClass_01 =
    [class_entry 0x00 ''SCSI'' At_PCIPIFClass_0100,
     class_entry 0x01 ''IDE controller'' At_PCIPIFClass_0101,
     class_entry 0x02 ''Floppy disk controller'' At_PCIBlankEntry,
     class_entry 0x03 ''IPI controller'' At_PCIBlankEntry,
     class_entry 0x04 ''RAID controller'' At_PCIBlankEntry,
     class_entry 0x05 ''ATA controller with ADMA interface'' At_PCIPIFClass_0105,
     class_entry 0x06 ''Serial ATA controller'' At_PCIPIFClass_0106,
     class_entry 0x07 ''Serial Attached SCSI (SAS) controller '' At_PCIPIFClass_0107,
     class_entry 0x08 ''Non-volatile memory subsystem'' At_PCIPIFClass_0108,
     class_entry 0x09 ''Universal Flash Storage (UFS) controller '' At_PCIPIFClass_0109,
     class_entry 0x80 ''Other mass storage controller'' At_PCIBlankEntry,
     class_end]"

definition PCISubClass_02 :: "PciClassEntry list" where
  "PCISubClass_02 =
    [class_entry 0x00 ''Ethernet controller'' At_PCIBlankEntry,
     class_entry 0x01 ''Token ring controller'' At_PCIBlankEntry,
     class_entry 0x02 ''FDDI controller'' At_PCIBlankEntry,
     class_entry 0x03 ''ATM controller'' At_PCIBlankEntry,
     class_entry 0x04 ''ISDN controller'' At_PCIBlankEntry,
     class_entry 0x05 ''WorldFip controller'' At_PCIBlankEntry,
     class_entry 0x06 ''PICMG 2.14 Multi Computing'' At_PCIBlankEntry,
     class_entry 0x07 ''InfiniBand controller'' At_PCIBlankEntry,
     class_entry 0x80 ''Other network controller'' At_PCIBlankEntry,
     class_end]"

definition PCISubClass_03 :: "PciClassEntry list" where
  "PCISubClass_03 =
    [class_entry 0x00 ''VGA/8514 controller'' At_PCIPIFClass_0300,
     class_entry 0x01 ''XGA controller'' At_PCIBlankEntry,
     class_entry 0x02 ''3D controller'' At_PCIBlankEntry,
     class_entry 0x80 ''Other display controller'' At_PCIBlankEntry,
     class_end]"

definition PCISubClass_04 :: "PciClassEntry list" where
  "PCISubClass_04 =
    [class_entry 0x00 ''Video device'' At_PCIBlankEntry,
     class_entry 0x01 ''Audio device'' At_PCIBlankEntry,
     class_entry 0x02 ''Computer Telephony device'' At_PCIBlankEntry,
     class_entry 0x03 ''Mixed mode device'' At_PCIBlankEntry,
     class_entry 0x80 ''Other multimedia device'' At_PCIBlankEntry,
     class_end]"

definition PCISubClass_05 :: "PciClassEntry list" where
  "PCISubClass_05 =
    [class_entry 0x00 ''RAM memory controller'' At_PCIBlankEntry,
     class_entry 0x01 ''Flash memory controller'' At_PCIBlankEntry,
     class_entry 0x80 ''Other memory controller'' At_PCIBlankEntry,
     class_end]"

definition PCISubClass_06 :: "PciClassEntry list" where
  "PCISubClass_06 =
    [class_entry 0x00 ''Host/PCI bridge'' At_PCIBlankEntry,
     class_entry 0x01 ''PCI/ISA bridge'' At_PCIBlankEntry,
     class_entry 0x02 ''PCI/EISA bridge'' At_PCIBlankEntry,
     class_entry 0x03 ''PCI/Micro Channel bridge'' At_PCIBlankEntry,
     class_entry 0x04 ''PCI/PCI bridge'' At_PCIPIFClass_0604,
     class_entry 0x05 ''PCI/PCMCIA bridge'' At_PCIBlankEntry,
     class_entry 0x06 ''NuBus bridge'' At_PCIBlankEntry,
     class_entry 0x07 ''CardBus bridge'' At_PCIBlankEntry,
     class_entry 0x08 ''RACEway bridge'' At_PCIBlankEntry,
     class_entry 0x09 ''Semi-transparent PCI-to-PCI bridge'' At_PCIPIFClass_0609,
     class_entry 0x0a ''InfiniBand-to-PCI host bridge'' At_PCIBlankEntry,
     class_entry 0x0b ''Advanced Switching to PCI host bridge'' At_PCIPIFClass_060b,
     class_entry 0x80 ''Other bridge type'' At_PCIBlankEntry,
     class_end]"

definition PCISubClass_07 :: "PciClassEntry list" where
  "PCISubClass_07 =
    [class_entry 0x00 ''Serial controller'' At_PCIPIFClass_0700,
     class_entry 0x01 ''Parallel port'' At_PCIPIFClass_0701,
     class_entry 0x02 ''Multiport serial controller'' At_PCIBlankEntry,
     class_entry 0x03 ''Modem'' At_PCIPIFClass_0703,
     class_entry 0x04 ''GPIB (IEEE 488.1/2) controller'' At_PCIBlankEntry,
     class_entry 0x05 ''Smart Card'' At_PCIBlankEntry,
     class_entry 0x80 ''Other communication device'' At_PCIBlankEntry,
     class_end]"

definition PCISubClass_08 :: "PciClassEntry list" where
  "PCISubClass_08 =
    [class_entry 0x00 ''PIC'' At_PCIPIFClass_0800,
     class_entry 0x01 ''DMA controller'' At_PCIPIFClass_0801,
     class_entry 0x02 ''System timer'' At_PCIPIFClass_0802,
     class_entry 0x03 ''RTC controller'' At_PCIPIFClass_0803,
     class_entry 0x04 ''Generic PCI Hot-Plug controller'' At_PCIBlankEntry,
     class_entry 0x05 ''SD Host controller'' At_PCIBlankEntry,
     class_entry 0x06 ''IOMMU'' At_PCIBlankEntry,
     class_entry 0x07 ''Root Complex Event Collector'' At_PCIBlankEntry,
     class_entry 0x80 ''Other system peripheral'' At_PCIBlankEntry,
     class_end]"

definition PCISubClass_09 :: "PciClassEntry list" where
  "PCISubClass_09 =
    [class_entry 0x00 ''Keyboard controller'' At_PCIBlankEntry,
     class_entry 0x01 ''Digitizer (pen)'' At_PCIBlankEntry,
     class_entry 0x02 ''Mouse controller'' At_PCIBlankEntry,
     class_entry 0x03 ''Scanner controller'' At_PCIBlankEntry,
     class_entry 0x04 ''Gameport controller'' At_PCIPIFClass_0904,
     class_entry 0x80 ''Other input controller'' At_PCIBlankEntry,
     class_end]"

definition PCISubClass_0a :: "PciClassEntry list" where
  "PCISubClass_0a =
    [class_entry 0x00 ''Generic docking station'' At_PCIBlankEntry,
     class_entry 0x80 ''Other type of docking station'' At_PCIBlankEntry,
     class_end]"

definition PCISubClass_0b :: "PciClassEntry list" where
  "PCISubClass_0b =
    [class_entry 0x00 ''386'' At_PCIBlankEntry,
     class_entry 0x01 ''486'' At_PCIBlankEntry,
     class_entry 0x02 ''Pentium'' At_PCIBlankEntry,
     class_entry 0x10 ''Alpha'' At_PCIBlankEntry,
     class_entry 0x20 ''PowerPC'' At_PCIBlankEntry,
     class_entry 0x30 ''MIPS'' At_PCIBlankEntry,
     class_entry 0x40 ''Co-processor'' At_PCIBlankEntry,
     class_entry 0x80 ''Other processor'' At_PCIBlankEntry,
     class_end]"

definition PCISubClass_0c :: "PciClassEntry list" where
  "PCISubClass_0c =
    [class_entry 0x00 ''IEEE 1394'' At_PCIPIFClass_0c00,
     class_entry 0x01 ''ACCESS.bus'' At_PCIBlankEntry,
     class_entry 0x02 ''SSA'' At_PCIBlankEntry,
     class_entry 0x03 ''USB'' At_PCIPIFClass_0c03,
     class_entry 0x04 ''Fibre Channel'' At_PCIBlankEntry,
     class_entry 0x05 ''System Management Bus'' At_PCIBlankEntry,
     class_entry 0x06 ''InfiniBand'' At_PCIBlankEntry,
     class_entry 0x07 ''IPMI'' At_PCIPIFClass_0c07,
     class_entry 0x08 ''SERCOS Interface Standard (IEC 61491)'' At_PCIBlankEntry,
     class_entry 0x09 ''CANbus'' At_PCIBlankEntry,
     class_entry 0x80 ''Other bus type'' At_PCIBlankEntry,
     class_end]"

definition PCISubClass_0d :: "PciClassEntry list" where
  "PCISubClass_0d =
    [class_entry 0x00 ''iRDA compatible controller'' At_PCIBlankEntry,
     class_entry 0x01 '''' At_PCIPIFClass_0d01,
     class_entry 0x10 ''RF controller'' At_PCIBlankEntry,
     class_entry 0x11 ''Bluetooth'' At_PCIBlankEntry,
     class_entry 0x12 ''Broadband'' At_PCIBlankEntry,
     class_entry 0x20 ''Ethernet (802.11a - 5 GHz)'' At_PCIBlankEntry,
     class_entry 0x21 ''Ethernet (802.11b - 2.4 GHz)'' At_PCIBlankEntry,
     class_entry 0x80 ''Other type of wireless controller'' At_PCIBlankEntry,
     class_end]"

definition PCISubClass_0e :: "PciClassEntry list" where
  "PCISubClass_0e =
    [class_entry 0x00 ''I2O Architecture'' At_PCIPIFClass_0e00,
     class_end]"

definition PCISubClass_0f :: "PciClassEntry list" where
  "PCISubClass_0f =
    [class_entry 0x01 ''TV'' At_PCIBlankEntry,
     class_entry 0x02 ''Audio'' At_PCIBlankEntry,
     class_entry 0x03 ''Voice'' At_PCIBlankEntry,
     class_entry 0x04 ''Data'' At_PCIBlankEntry,
     class_entry 0x80 ''Other satellite communication controller'' At_PCIBlankEntry,
     class_end]"

definition PCISubClass_10 :: "PciClassEntry list" where
  "PCISubClass_10 =
    [class_entry 0x00 ''Network & computing Encrypt/Decrypt'' At_PCIBlankEntry,
     class_entry 0x01 ''Entertainment Encrypt/Decrypt'' At_PCIBlankEntry,
     class_entry 0x80 ''Other Encrypt/Decrypt'' At_PCIBlankEntry,
     class_end]"

definition PCISubClass_11 :: "PciClassEntry list" where
  "PCISubClass_11 =
    [class_entry 0x00 ''DPIO modules'' At_PCIBlankEntry,
     class_entry 0x01 ''Performance Counters'' At_PCIBlankEntry,
     class_entry 0x10 ''Communications synchronization plus time and frequency test/measurement '' At_PCIBlankEntry,
     class_entry 0x20 ''Management card'' At_PCIBlankEntry,
     class_entry 0x80 ''Other DAQ & SP controllers'' At_PCIBlankEntry,
     class_end]"

definition PCISubClass_12 :: "PciClassEntry list" where
  "PCISubClass_12 =
    [class_entry 0x00 ''Processing Accelerator'' At_PCIBlankEntry,
     class_end]"

definition PCISubClass_13 :: "PciClassEntry list" where
  "PCISubClass_13 =
    [class_entry 0x00 ''Non-Essential Instrumentation Function'' At_PCIBlankEntry,
     class_end]"

definition PCIPIFClass_0100 :: "PciClassEntry list" where
  "PCIPIFClass_0100 =
    [class_entry 0x00 ''SCSI controller'' At_PCIBlankEntry,
     class_entry 0x11 ''SCSI storage device SOP using PQI'' At_PCIBlankEntry,
     class_entry 0x12 ''SCSI controller SOP using PQI'' At_PCIBlankEntry,
     class_entry 0x13 ''SCSI storage device and controller SOP using PQI'' At_PCIBlankEntry,
     class_entry 0x21 ''SCSI storage device SOP using NVMe'' At_PCIBlankEntry,
     class_end]"

definition PCIPIFClass_0101 :: "PciClassEntry list" where
  "PCIPIFClass_0101 =
    [class_entry 0x00 '''' At_PCIBlankEntry,
     class_entry 0x01 ''OM-primary'' At_PCIBlankEntry,
     class_entry 0x02 ''PI-primary'' At_PCIBlankEntry,
     class_entry 0x03 ''OM/PI-primary'' At_PCIBlankEntry,
     class_entry 0x04 ''OM-secondary'' At_PCIBlankEntry,
     class_entry 0x05 ''OM-primary, OM-secondary'' At_PCIBlankEntry,
     class_entry 0x06 ''PI-primary, OM-secondary'' At_PCIBlankEntry,
     class_entry 0x07 ''OM/PI-primary, OM-secondary'' At_PCIBlankEntry,
     class_entry 0x08 ''OM-secondary'' At_PCIBlankEntry,
     class_entry 0x09 ''OM-primary, PI-secondary'' At_PCIBlankEntry,
     class_entry 0x0a ''PI-primary, PI-secondary'' At_PCIBlankEntry,
     class_entry 0x0b ''OM/PI-primary, PI-secondary'' At_PCIBlankEntry,
     class_entry 0x0c ''OM-secondary'' At_PCIBlankEntry,
     class_entry 0x0d ''OM-primary, OM/PI-secondary'' At_PCIBlankEntry,
     class_entry 0x0e ''PI-primary, OM/PI-secondary'' At_PCIBlankEntry,
     class_entry 0x0f ''OM/PI-primary, OM/PI-secondary'' At_PCIBlankEntry,
     class_entry 0x80 ''Master'' At_PCIBlankEntry,
     class_entry 0x81 ''Master, OM-primary'' At_PCIBlankEntry,
     class_entry 0x82 ''Master, PI-primary'' At_PCIBlankEntry,
     class_entry 0x83 ''Master, OM/PI-primary'' At_PCIBlankEntry,
     class_entry 0x84 ''Master, OM-secondary'' At_PCIBlankEntry,
     class_entry 0x85 ''Master, OM-primary, OM-secondary'' At_PCIBlankEntry,
     class_entry 0x86 ''Master, PI-primary, OM-secondary'' At_PCIBlankEntry,
     class_entry 0x87 ''Master, OM/PI-primary, OM-secondary'' At_PCIBlankEntry,
     class_entry 0x88 ''Master, OM-secondary'' At_PCIBlankEntry,
     class_entry 0x89 ''Master, OM-primary, PI-secondary'' At_PCIBlankEntry,
     class_entry 0x8a ''Master, PI-primary, PI-secondary'' At_PCIBlankEntry,
     class_entry 0x8b ''Master, OM/PI-primary, PI-secondary'' At_PCIBlankEntry,
     class_entry 0x8c ''Master, OM-secondary'' At_PCIBlankEntry,
     class_entry 0x8d ''Master, OM-primary, OM/PI-secondary'' At_PCIBlankEntry,
     class_entry 0x8e ''Master, PI-primary, OM/PI-secondary'' At_PCIBlankEntry,
     class_entry 0x8f ''Master, OM/PI-primary, OM/PI-secondary'' At_PCIBlankEntry,
     class_end]"

definition PCIPIFClass_0105 :: "PciClassEntry list" where
  "PCIPIFClass_0105 =
    [class_entry 0x20 ''Single stepping'' At_PCIBlankEntry,
     class_entry 0x30 ''Continuous operation'' At_PCIBlankEntry,
     class_end]"

definition PCIPIFClass_0106 :: "PciClassEntry list" where
  "PCIPIFClass_0106 =
    [class_entry 0x00 '''' At_PCIBlankEntry,
     class_entry 0x01 ''AHCI'' At_PCIBlankEntry,
     class_entry 0x02 ''Serial Storage Bus'' At_PCIBlankEntry,
     class_end]"

definition PCIPIFClass_0107 :: "PciClassEntry list" where
  "PCIPIFClass_0107 =
    [class_entry 0x00 '''' At_PCIBlankEntry,
     class_entry 0x01 ''Obsolete'' At_PCIBlankEntry,
     class_end]"

definition PCIPIFClass_0108 :: "PciClassEntry list" where
  "PCIPIFClass_0108 =
    [class_entry 0x00 '''' At_PCIBlankEntry,
     class_entry 0x01 ''NVMHCI'' At_PCIBlankEntry,
     class_entry 0x02 ''NVM Express'' At_PCIBlankEntry,
     class_end]"

definition PCIPIFClass_0109 :: "PciClassEntry list" where
  "PCIPIFClass_0109 =
    [class_entry 0x00 '''' At_PCIBlankEntry,
     class_entry 0x01 ''UFSHCI'' At_PCIBlankEntry,
     class_end]"

definition PCIPIFClass_0300 :: "PciClassEntry list" where
  "PCIPIFClass_0300 =
    [class_entry 0x00 ''VGA compatible'' At_PCIBlankEntry,
     class_entry 0x01 ''8514 compatible'' At_PCIBlankEntry,
     class_end]"

definition PCIPIFClass_0604 :: "PciClassEntry list" where
  "PCIPIFClass_0604 =
    [class_entry 0x00 '''' At_PCIBlankEntry,
     class_entry 0x01 ''Subtractive decode'' At_PCIBlankEntry,
     class_end]"

definition PCIPIFClass_0609 :: "PciClassEntry list" where
  "PCIPIFClass_0609 =
    [class_entry 0x40 ''Primary PCI bus side facing the system host processor'' At_PCIBlankEntry,
     class_entry 0x80 ''Secondary PCI bus side facing the system host processor'' At_PCIBlankEntry,
     class_end]"

definition PCIPIFClass_060b :: "PciClassEntry list" where
  "PCIPIFClass_060b =
    [class_entry 0x00 ''Custom'' At_PCIBlankEntry,
     class_entry 0x01 ''ASI-SIG Defined Portal'' At_PCIBlankEntry,
     class_end]"

definition PCIPIFClass_0700 :: "PciClassEntry list" where
  "PCIPIFClass_0700 =
    [class_entry 0x00 ''Generic XT-compatible'' At_PCIBlankEntry,
     class_entry 0x01 ''16450-compatible'' At_PCIBlankEntry,
     class_entry 0x02 ''16550-compatible'' At_PCIBlankEntry,
     class_entry 0x03 ''16650-compatible'' At_PCIBlankEntry,
     class_entry 0x04 ''16750-compatible'' At_PCIBlankEntry,
     class_entry 0x05 ''16850-compatible'' At_PCIBlankEntry,
     class_entry 0x06 ''16950-compatible'' At_PCIBlankEntry,
     class_end]"

definition PCIPIFClass_0701 :: "PciClassEntry list" where
  "PCIPIFClass_0701 =
    [class_entry 0x00 '''' At_PCIBlankEntry,
     class_entry 0x01 ''Bi-directional'' At_PCIBlankEntry,
     class_entry 0x02 ''ECP 1.X-compliant'' At_PCIBlankEntry,
     class_entry 0x03 ''IEEE 1284'' At_PCIBlankEntry,
     class_entry 0xfe ''IEEE 1284 target (not a controller)'' At_PCIBlankEntry,
     class_end]"

definition PCIPIFClass_0703 :: "PciClassEntry list" where
  "PCIPIFClass_0703 =
    [class_entry 0x00 ''Generic'' At_PCIBlankEntry,
     class_entry 0x01 ''Hayes-compatible 16450'' At_PCIBlankEntry,
     class_entry 0x02 ''Hayes-compatible 16550'' At_PCIBlankEntry,
     class_entry 0x03 ''Hayes-compatible 16650'' At_PCIBlankEntry,
     class_entry 0x04 ''Hayes-compatible 16750'' At_PCIBlankEntry,
     class_end]"

definition PCIPIFClass_0800 :: "PciClassEntry list" where
  "PCIPIFClass_0800 =
    [class_entry 0x00 ''Generic 8259'' At_PCIBlankEntry,
     class_entry 0x01 ''ISA'' At_PCIBlankEntry,
     class_entry 0x02 ''EISA'' At_PCIBlankEntry,
     class_entry 0x10 ''IO APIC'' At_PCIBlankEntry,
     class_entry 0x20 ''IO(x) APIC interrupt controller'' At_PCIBlankEntry,
     class_end]"

definition PCIPIFClass_0801 :: "PciClassEntry list" where
  "PCIPIFClass_0801 =
    [class_entry 0x00 ''Generic 8237'' At_PCIBlankEntry,
     class_entry 0x01 ''ISA'' At_PCIBlankEntry,
     class_entry 0x02 ''EISA'' At_PCIBlankEntry,
     class_end]"

definition PCIPIFClass_0802 :: "PciClassEntry list" where
  "PCIPIFClass_0802 =
    [class_entry 0x00 ''Generic 8254'' At_PCIBlankEntry,
     class_entry 0x01 ''ISA'' At_PCIBlankEntry,
     class_entry 0x02 ''EISA'' At_PCIBlankEntry,
     class_end]"

definition PCIPIFClass_0803 :: "PciClassEntry list" where
  "PCIPIFClass_0803 =
    [class_entry 0x00 ''Generic'' At_PCIBlankEntry,
     class_entry 0x01 ''ISA'' At_PCIBlankEntry,
     class_entry 0x02 ''EISA'' At_PCIBlankEntry,
     class_end]"

definition PCIPIFClass_0904 :: "PciClassEntry list" where
  "PCIPIFClass_0904 =
    [class_entry 0x00 ''Generic'' At_PCIBlankEntry,
     class_entry 0x10 '''' At_PCIBlankEntry,
     class_end]"

definition PCIPIFClass_0c00 :: "PciClassEntry list" where
  "PCIPIFClass_0c00 =
    [class_entry 0x00 '''' At_PCIBlankEntry,
     class_entry 0x10 ''Using 1394 OpenHCI spec'' At_PCIBlankEntry,
     class_end]"

definition PCIPIFClass_0c03 :: "PciClassEntry list" where
  "PCIPIFClass_0c03 =
    [class_entry 0x00 ''UHCI'' At_PCIBlankEntry,
     class_entry 0x10 ''OHCI'' At_PCIBlankEntry,
     class_entry 0x20 ''EHCI'' At_PCIBlankEntry,
     class_entry 0x30 ''xHCI'' At_PCIBlankEntry,
     class_entry 0x80 ''No specific programming interface'' At_PCIBlankEntry,
     class_entry 0xfe ''(Not Host Controller)'' At_PCIBlankEntry,
     class_end]"

definition PCIPIFClass_0c07 :: "PciClassEntry list" where
  "PCIPIFClass_0c07 =
    [class_entry 0x00 ''SMIC'' At_PCIBlankEntry,
     class_entry 0x01 ''Keyboard Controller Style'' At_PCIBlankEntry,
     class_entry 0x02 ''Block Transfer'' At_PCIBlankEntry,
     class_end]"

definition PCIPIFClass_0d01 :: "PciClassEntry list" where
  "PCIPIFClass_0d01 =
    [class_entry 0x00 ''Consumer IR controller'' At_PCIBlankEntry,
     class_entry 0x10 ''UWB Radio controller'' At_PCIBlankEntry,
     class_end]"

definition PCIPIFClass_0e00 :: "PciClassEntry list" where
  "PCIPIFClass_0e00 =
    [class_entry 0x00 ''Message FIFO at offset 40h'' At_PCIBlankEntry,
     class_entry 0x01 '''' At_PCIBlankEntry,
     class_end]"

primrec entries :: "class_table \<Rightarrow> PciClassEntry list" where
    "entries At_gClassStringList = gClassStringList"
  | "entries At_PCIBlankEntry = PCIBlankEntry"
  | "entries At_PCISubClass_00 = PCISubClass_00"
  | "entries At_PCISubClass_01 = PCISubClass_01"
  | "entries At_PCISubClass_02 = PCISubClass_02"
  | "entries At_PCISubClass_03 = PCISubClass_03"
  | "entries At_PCISubClass_04 = PCISubClass_04"
  | "entries At_PCISubClass_05 = PCISubClass_05"
  | "entries At_PCISubClass_06 = PCISubClass_06"
  | "entries At_PCISubClass_07 = PCISubClass_07"
  | "entries At_PCISubClass_08 = PCISubClass_08"
  | "entries At_PCISubClass_09 = PCISubClass_09"
  | "entries At_PCISubClass_0a = PCISubClass_0a"
  | "entries At_PCISubClass_0b = PCISubClass_0b"
  | "entries At_PCISubClass_0c = PCISubClass_0c"
  | "entries At_PCISubClass_0d = PCISubClass_0d"
  | "entries At_PCISubClass_0e = PCISubClass_0e"
  | "entries At_PCISubClass_0f = PCISubClass_0f"
  | "entries At_PCISubClass_10 = PCISubClass_10"
  | "entries At_PCISubClass_11 = PCISubClass_11"
  | "entries At_PCISubClass_12 = PCISubClass_12"
  | "entries At_PCISubClass_13 = PCISubClass_13"
  | "entries At_PCIPIFClass_0100 = PCIPIFClass_0100"
  | "entries At_PCIPIFClass_0101 = PCIPIFClass_0101"
  | "entries At_PCIPIFClass_0105 = PCIPIFClass_0105"
  | "entries At_PCIPIFClass_0106 = PCIPIFClass_0106"
  | "entries At_PCIPIFClass_0107 = PCIPIFClass_0107"
  | "entries At_PCIPIFClass_0108 = PCIPIFClass_0108"
  | "entries At_PCIPIFClass_0109 = PCIPIFClass_0109"
  | "entries At_PCIPIFClass_0300 = PCIPIFClass_0300"
  | "entries At_PCIPIFClass_0604 = PCIPIFClass_0604"
  | "entries At_PCIPIFClass_0609 = PCIPIFClass_0609"
  | "entries At_PCIPIFClass_060b = PCIPIFClass_060b"
  | "entries At_PCIPIFClass_0700 = PCIPIFClass_0700"
  | "entries At_PCIPIFClass_0701 = PCIPIFClass_0701"
  | "entries At_PCIPIFClass_0703 = PCIPIFClass_0703"
  | "entries At_PCIPIFClass_0800 = PCIPIFClass_0800"
  | "entries At_PCIPIFClass_0801 = PCIPIFClass_0801"
  | "entries At_PCIPIFClass_0802 = PCIPIFClass_0802"
  | "entries At_PCIPIFClass_0803 = PCIPIFClass_0803"
  | "entries At_PCIPIFClass_0904 = PCIPIFClass_0904"
  | "entries At_PCIPIFClass_0c00 = PCIPIFClass_0c00"
  | "entries At_PCIPIFClass_0c03 = PCIPIFClass_0c03"
  | "entries At_PCIPIFClass_0c07 = PCIPIFClass_0c07"
  | "entries At_PCIPIFClass_0d01 = PCIPIFClass_0d01"
  | "entries At_PCIPIFClass_0e00 = PCIPIFClass_0e00"

lemmas class_tables =
  gClassStringList_def PCIBlankEntry_def PCISubClass_00_def PCISubClass_01_def
  PCISubClass_02_def PCISubClass_03_def PCISubClass_04_def PCISubClass_05_def
  PCISubClass_06_def PCISubClass_07_def PCISubClass_08_def PCISubClass_09_def
  PCISubClass_0a_def PCISubClass_0b_def PCISubClass_0c_def PCISubClass_0d_def
  PCISubClass_0e_def PCISubClass_0f_def PCISubClass_10_def PCISubClass_11_def
  PCISubClass_12_def PCISubClass_13_def PCIPIFClass_0100_def PCIPIFClass_0101_def
  PCIPIFClass_0105_def PCIPIFClass_0106_def PCIPIFClass_0107_def PCIPIFClass_0108_def
  PCIPIFClass_0109_def PCIPIFClass_0300_def PCIPIFClass_0604_def PCIPIFClass_0609_def
  PCIPIFClass_060b_def PCIPIFClass_0700_def PCIPIFClass_0701_def PCIPIFClass_0703_def
  PCIPIFClass_0800_def PCIPIFClass_0801_def PCIPIFClass_0802_def PCIPIFClass_0803_def
  PCIPIFClass_0904_def PCIPIFClass_0c00_def PCIPIFClass_0c03_def PCIPIFClass_0c07_def
  PCIPIFClass_0d01_def PCIPIFClass_0e00_def


text \<open>The lookup stops at the entry without a description; there is none past the end.\<close>

fun FindClassEntry :: "u8 \<Rightarrow> PciClassEntry list \<Rightarrow> PciClassEntry option result" where
  "FindClassEntry class_code [] = Inl Undefined"
| "FindClassEntry class_code (e # es) =
     (if Description e = None then Inr None
      else if Code e = ucast class_code then Inr (Some e)
      else FindClassEntry class_code es)"

subsection \<open>Devices\<close>

record pci_device =
  bus_number :: u8
  device_number :: u8
  function_number :: u8
  vendor_id :: u16
  device_id :: u16
  header_type :: u8
  pi_class_code :: u8
  sub_class_code :: u8
  base_class_code :: u8
  ecam_adress :: u32
  bar :: "u32 list"

record pci_class_cames =
  base_class :: string
  sub_class :: string
  pif_class :: string

record pci_state =
  pci_inited :: bool
  pci_devices :: "pci_device list"

definition lower_entries :: "PciClassEntry \<Rightarrow> PciClassEntry list result" where
  "lower_entries e = (case LowerLevelClass e of None \<Rightarrow> Inl Undefined | Some t \<Rightarrow> Inr (entries t))"

text \<open>A description that is not \<open>NULL\<close>, as \<open>FindClassEntry\<close> only returns such entries.\<close>

definition description :: "PciClassEntry \<Rightarrow> string" where
  "description e = (case Description e of None \<Rightarrow> [] | Some d \<Rightarrow> d)"

definition pci_get_class_names :: "bool \<Rightarrow> pci_device \<Rightarrow> pci_class_cames \<Rightarrow> pci_class_cames result" where
  "pci_get_class_names inited device names =
     (if \<not> inited then Inr names
      else
        let names = \<lparr>base_class = ''?'', sub_class = ''?'', pif_class = ''?''\<rparr>
        in bind_result (FindClassEntry (base_class_code device) gClassStringList)
          (\<lambda>base_entry. (case base_entry of
             None \<Rightarrow> Inr names
           | Some b \<Rightarrow>
               let names = names\<lparr>base_class := description b\<rparr>
               in bind_result (bind_result (lower_entries b) (FindClassEntry (sub_class_code device)))
                 (\<lambda>sub_entry. (case sub_entry of
                    None \<Rightarrow> Inr names
                  | Some s \<Rightarrow>
                      let names = names\<lparr>sub_class := description s\<rparr>
                      in bind_result (bind_result (lower_entries s) (FindClassEntry (pi_class_code device)))
                        (\<lambda>pi_entry. (case pi_entry of
                           None \<Rightarrow> Inr names
                         | Some p \<Rightarrow> Inr (names\<lparr>pif_class := description p\<rparr>)))))))) "

fun pci_get_device_loop :: "pci_device \<Rightarrow> pci_device list \<Rightarrow> pci_device option" where
  "pci_get_device_loop device [] = None"
| "pci_get_device_loop device (d # ds) =
     (if base_class_code device = base_class_code d \<and> sub_class_code device = sub_class_code d
         \<and> pi_class_code device = pi_class_code d
      then Some d else pci_get_device_loop device ds)"

text \<open>\<open>Some d\<close>: the call returned true and left \<open>d\<close> in its argument.\<close>

definition pci_get_device :: "pci_state \<Rightarrow> pci_device \<Rightarrow> pci_device option" where
  "pci_get_device s device =
     (if \<not> pci_inited s then None else pci_get_device_loop device (pci_devices s))"

subsection \<open>Enumerating the devices\<close>

definition PCI_MAX_DEVICE :: nat where "PCI_MAX_DEVICE = 31"
definition PCI_MAX_FUNCTION :: nat where "PCI_MAX_FUNCTION = 7"
definition PCI_HEADER_TYPE_DEVICE :: u8 where "PCI_HEADER_TYPE_DEVICE = 0x00"
definition PCI_HEADER_TYPE_MULTI_FUNCTION :: u8 where "PCI_HEADER_TYPE_MULTI_FUNCTION = 0x80"

record pci_host_bridge =
  base_address :: u64
  segment_group_number :: u16
  start_bus_number :: u8
  end_bus_number :: u8

definition sizeof_pci_host_bridge :: u64 where "sizeof_pci_host_bridge = 16"

definition read_host_bridge :: "mem \<Rightarrow> ptr \<Rightarrow> nat \<Rightarrow> pci_host_bridge" where
  "read_host_bridge m mcfg i =
     (let p = mcfg + (sizeof_acpi_header + 8) + of_nat i * sizeof_pci_host_bridge
      in \<lparr>base_address = mem_read_64 m p, segment_group_number = ucast (mem_read_16 m (p + 8)),
          start_bus_number = m (p + 10), end_bus_number = m (p + 11)\<rparr>)"

text \<open>The configuration space of a function, an \<open>uint32_t\<close>.\<close>

definition ecam_of :: "pci_host_bridge \<Rightarrow> nat \<Rightarrow> nat \<Rightarrow> nat \<Rightarrow> u32" where
  "ecam_of bridge bus dev fn =
     ucast (base_address bridge + push_bit 20 (of_nat bus - ucast (start_bus_number bridge))
       + push_bit 15 (of_nat dev) + push_bit 12 (of_nat fn))"

text \<open>The fields of \<open>pci_header\<close> within its registers.\<close>

record pci_header =
  reg0 :: u32
  reg1 :: u32
  reg2 :: u32
  reg3 :: u32

definition hd_vendor_id :: "pci_header \<Rightarrow> u16" where "hd_vendor_id h = ucast (reg0 h)"
definition hd_device_id :: "pci_header \<Rightarrow> u16" where "hd_device_id h = ucast (drop_bit 16 (reg0 h))"
definition hd_pi_class_code :: "pci_header \<Rightarrow> u8" where "hd_pi_class_code h = ucast (drop_bit 8 (reg2 h))"
definition hd_sub_class_code :: "pci_header \<Rightarrow> u8" where "hd_sub_class_code h = ucast (drop_bit 16 (reg2 h))"
definition hd_base_class_code :: "pci_header \<Rightarrow> u8" where "hd_base_class_code h = ucast (drop_bit 24 (reg2 h))"
definition hd_header_type :: "pci_header \<Rightarrow> u8" where "hd_header_type h = ucast (drop_bit 16 (reg3 h))"

definition read_bars :: "mem \<Rightarrow> u32 \<Rightarrow> nat \<Rightarrow> u32 list" where
  "read_bars m addr n = map (\<lambda>i. mem_read_32 m (ucast (addr + 0x10 + of_nat i * 4))) [0..<n]"

text \<open>The node that the loop's body makes for a function that is present.\<close>

definition pci_read_header :: "mem \<Rightarrow> u32 \<Rightarrow> pci_header" where
  "pci_read_header m addr =
     \<lparr>reg0 = mem_read_32 m (ucast addr), reg1 = mem_read_32 m (ucast (addr + 0x04)),
      reg2 = mem_read_32 m (ucast (addr + 0x08)), reg3 = mem_read_32 m (ucast (addr + 0x0C))\<rparr>"

definition pci_make_device :: "mem \<Rightarrow> pci_host_bridge \<Rightarrow> nat \<Rightarrow> nat \<Rightarrow> nat \<Rightarrow> pci_device" where
  "pci_make_device m bridge bus dev fn =
     (let addr = ecam_of bridge bus dev fn; header = pci_read_header m addr
      in \<lparr>bus_number = of_nat bus, device_number = of_nat dev, function_number = of_nat fn,
          vendor_id = hd_vendor_id header, device_id = hd_device_id header,
          header_type = hd_header_type header, pi_class_code = hd_pi_class_code header,
          sub_class_code = hd_sub_class_code header, base_class_code = hd_base_class_code header,
          ecam_adress = addr,
          bar = (if hd_header_type header AND PCI_HEADER_TYPE_DEVICE \<noteq> 0
                 then read_bars m addr 6
                 else read_bars m addr 2 @ [0, 0, 0, 0])\<rparr>)"

text \<open>The three loops; each carries the sequence of the devices found so far.\<close>

definition pci_present :: "mem \<Rightarrow> pci_host_bridge \<Rightarrow> nat \<Rightarrow> nat \<Rightarrow> nat \<Rightarrow> bool" where
  "pci_present m bridge bus dev fn \<longleftrightarrow>
     (ucast (mem_read_32 m (ucast (ecam_of bridge bus dev fn))) :: u16) \<noteq> 0xffff"

fun pci_scan_functions ::
  "mem \<Rightarrow> pci_host_bridge \<Rightarrow> nat \<Rightarrow> nat \<Rightarrow> nat list \<Rightarrow> pci_device list \<Rightarrow> pci_device list" where
  "pci_scan_functions m bridge bus dev [] ds = ds"
| "pci_scan_functions m bridge bus dev (fn # fns) ds =
     (if pci_present m bridge bus dev fn
      then let d = pci_make_device m bridge bus dev fn; ds = ds @ [d]
           in if fn = 0 \<and> header_type d AND PCI_HEADER_TYPE_MULTI_FUNCTION = 0x00
              then ds else pci_scan_functions m bridge bus dev fns ds
      else pci_scan_functions m bridge bus dev fns ds)"

definition pci_scan_devices ::
  "mem \<Rightarrow> pci_host_bridge \<Rightarrow> nat \<Rightarrow> pci_device list \<Rightarrow> pci_device list" where
  "pci_scan_devices m bridge bus ds =
     fold (\<lambda>dev. pci_scan_functions m bridge bus dev [0..<Suc PCI_MAX_FUNCTION])
       [0..<Suc PCI_MAX_DEVICE] ds"

definition pci_scan_bridge :: "mem \<Rightarrow> pci_host_bridge \<Rightarrow> pci_device list \<Rightarrow> pci_device list" where
  "pci_scan_bridge m bridge ds =
     fold (pci_scan_devices m bridge)
       [unat (start_bus_number bridge)..<Suc (unat (end_bus_number bridge))] ds"

text \<open>The loop over the host bridges; it leaves with \<open>false\<close> when a bridge cannot be mapped.\<close>

fun pci_init_bridges ::
  "mem \<Rightarrow> ptr \<Rightarrow> nat list \<Rightarrow> mem_state \<Rightarrow> pci_device list \<Rightarrow>
   (bool \<times> mem_state \<times> pci_device list) result" where
  "pci_init_bridges m mcfg [] s ds = Inr (True, s, ds)"
| "pci_init_bridges m mcfg (i # is) s ds =
     (let bridge = read_host_bridge m mcfg i
      in bind_result (claim_range mem_map_range_2m MEMORY_PCI_ECAM (base_address bridge) s)
           (\<lambda>(step, s). if step \<noteq> 0 then Inr (False, s, ds)
              else pci_init_bridges m mcfg is s (pci_scan_bridge m bridge ds)))"

definition bridge_count_of :: "mem \<Rightarrow> ptr \<Rightarrow> int" where
  "bridge_count_of m mcfg =
     sint (ucast ((ucast (mem_read_32 m (mcfg + 4)) - (sizeof_acpi_header + 8))
       div sizeof_pci_host_bridge) :: 32 word)"

text \<open>\<open>mcfg_name\<close> is the address of the literal \<open>"MCFG"\<close>.\<close>

definition find_mcfg_table :: "mem \<Rightarrow> acpi_state \<Rightarrow> ptr \<Rightarrow> ptr" where
  "find_mcfg_table m a mcfg_name = acpi_find_table m a mcfg_name"

definition pci_init ::
  "mem \<Rightarrow> ptr \<Rightarrow> acpi_state \<Rightarrow> mem_state \<Rightarrow> pci_state \<Rightarrow> (bool \<times> mem_state \<times> pci_state) result" where
  "pci_init m mcfg_name a s p =
     (let mcfg = find_mcfg_table m a mcfg_name
      in if mcfg = NULL then Inr (False, s, p)
         else bind_result (pci_init_bridges m mcfg [0..<nat (bridge_count_of m mcfg)] s (pci_devices p))
           (\<lambda>(ok, s, ds). Inr (ok, s,
              p\<lparr>pci_devices := ds, pci_inited := (if ok then True else pci_inited p)\<rparr>)))"

subsection \<open>Base address registers\<close>

definition BAR_MEMORY_ADDRESS_MASK :: u32 where "BAR_MEMORY_ADDRESS_MASK = 0xFFFFFFF0"
definition BAR_IO_ADDRESS_MASK :: u32 where "BAR_IO_ADDRESS_MASK = 0xFFFFFFF3"

definition BAR_TYPE_MEMORY :: u32 where "BAR_TYPE_MEMORY = 0"
definition BAR_ANY_32_BIT :: u32 where "BAR_ANY_32_BIT = 0"
definition BAR_BELOW_1M :: u32 where "BAR_BELOW_1M = 1"
definition BAR_ANY_64_BIT :: u32 where "BAR_ANY_64_BIT = 2"

definition bar_type :: "u32 \<Rightarrow> u32" where "bar_type b = take_bit 1 b"
definition bar_locatable :: "u32 \<Rightarrow> u32" where "bar_locatable b = take_bit 2 (drop_bit 1 b)"

text \<open>\<open>device->bar[index]\<close>, an array of six.\<close>

definition bar_at :: "pci_device \<Rightarrow> nat \<Rightarrow> u32 result" where
  "bar_at device index = (if index < length (bar device) then Inr (bar device ! index) else Inl Undefined)"

definition pci_bar_addr_32 :: "pci_device \<Rightarrow> nat \<Rightarrow> u64 result" where
  "pci_bar_addr_32 device index = bind_result (bar_at device index)
     (\<lambda>b. Inr (ucast (if bar_type b = BAR_TYPE_MEMORY then b AND BAR_MEMORY_ADDRESS_MASK
                      else b AND BAR_IO_ADDRESS_MASK)))"

definition pci_bar_addr_64 :: "pci_device \<Rightarrow> nat \<Rightarrow> u64 result" where
  "pci_bar_addr_64 device index = bind_result (pci_bar_addr_32 device (index + 1))
     (\<lambda>hi. bind_result (pci_bar_addr_32 device index) (\<lambda>lo. Inr (push_bit 32 hi + lo)))"

definition pci_bar_addr :: "pci_device \<Rightarrow> nat \<Rightarrow> u64 result" where
  "pci_bar_addr device index = bind_result (bar_at device index)
     (\<lambda>b. if bar_type b = BAR_TYPE_MEMORY
          then if bar_locatable b = BAR_ANY_32_BIT \<or> bar_locatable b = BAR_BELOW_1M
               then pci_bar_addr_32 device index
               else if bar_locatable b = BAR_ANY_64_BIT then pci_bar_addr_64 device index
               else Inl (Panic ''BAR locatable type %d not supported.'')
          else Inl (Panic ''IO BARs not supported''))"

subsection \<open>The console commands\<close>

text \<open>Arguments are the strings at \<open>argv[0]\<close>, \<open>...\<close>; \<open>strequ\<close> compares them.\<close>

fun has_arg :: "string \<Rightarrow> string list \<Rightarrow> bool" where
  "has_arg arg [] = False"
| "has_arg arg (a # argv) = (if a = arg then True else has_arg arg argv)"

definition bar_locatable_types :: "string list" where
  "bar_locatable_types = [''32'', ''<1MB'', ''64'']"

definition get_locatable_str :: "u32 \<Rightarrow> string result" where
  "get_locatable_str b =
     (if bar_type b = BAR_TYPE_MEMORY
      then if unat (bar_locatable b) < length bar_locatable_types
           then Inr (bar_locatable_types ! unat (bar_locatable b)) else Inl Undefined
      else Inr '''')"

fun print_bars :: "u32 list \<Rightarrow> printed result" where
  "print_bars [] = Inr []"
| "print_bars (b # bs) =
     (if b \<noteq> 0
      then bind_result (get_locatable_str b)
        (\<lambda>l. bind_result (print_bars bs)
          (\<lambda>out. Inr ((''%x (%s %s), '', [PNum (ucast b),
             PStr (if bar_type b = BAR_TYPE_MEMORY then ''m'' else ''io''), PStr l]) # out)))
      else print_bars bs)"

definition print_device :: "string list \<Rightarrow> pci_device \<Rightarrow> printed result" where
  "print_device argv d =
     bind_result (pci_get_class_names True d \<lparr>base_class = [], sub_class = [], pif_class = []\<rparr>)
       (\<lambda>strings.
          let line = (''%.2x:%.2x.%d: %x:%.4x (%.2x:%.2x:%.2x) %s, %s, %s\<newline>'',
                [PNum (ucast (bus_number d)), PNum (ucast (device_number d)), PNum (ucast (function_number d)),
                 PNum (ucast (vendor_id d)), PNum (ucast (device_id d)),
                 PNum (ucast (base_class_code d)), PNum (ucast (sub_class_code d)), PNum (ucast (pi_class_code d)),
                 PStr (base_class strings), PStr (sub_class strings), PStr (pif_class strings)])
          in if has_arg ''bar'' argv
             then bind_result (print_bars (bar d))
               (\<lambda>out. Inr ([line, (''  BARs: '', [])] @ out @ [(''\<newline>'', [])]))
             else Inr [line])"

fun print_device_loop :: "string list \<Rightarrow> pci_device list \<Rightarrow> printed result" where
  "print_device_loop argv [] = Inr []"
| "print_device_loop argv (d # ds) =
     bind_result (print_device argv d)
       (\<lambda>out. bind_result (print_device_loop argv ds) (\<lambda>rest. Inr (out @ rest)))"

definition pci_print_devices :: "string list \<Rightarrow> pci_state \<Rightarrow> printed result" where
  "pci_print_devices argv p =
     (if \<not> pci_inited p then Inr [(''Warning: %s\<newline>'', [PStr ''PCI subsystem not initialized''])]
      else if has_arg ''-h'' argv
      then Inr [(''  pci     - prints PCI device list\<newline>'', []),
                (''  pci bar - prints PCI device list including the BARs\<newline>'', [])]
      else print_device_loop argv (pci_devices p))"

definition print_host_bridge :: "mem \<Rightarrow> ptr \<Rightarrow> nat \<Rightarrow> printed" where
  "print_host_bridge m mcfg i =
     (let bridge = read_host_bridge m mcfg i
      in [(''\<newline>PCI Host Bridge %d\<newline>'', [PNum (of_nat (i + 1))]),
          (''Base Address: 0x%lx\<newline>'', [PNum (base_address bridge)]),
          (''Segment Group Number: %d\<newline>'', [PNum (ucast (segment_group_number bridge))]),
          (''Start Bus Number: %d\<newline>'', [PNum (ucast (start_bus_number bridge))]),
          (''End Bus Number: %d\<newline>'', [PNum (ucast (end_bus_number bridge))])])"

text \<open>Without the table, which was there when PCI was initialised, NULL is read.\<close>

definition pci_print_mcfg :: "mem \<Rightarrow> ptr \<Rightarrow> acpi_state \<Rightarrow> pci_state \<Rightarrow> printed result" where
  "pci_print_mcfg m mcfg_name a p =
     (if \<not> pci_inited p then Inr [(''Warning: %s\<newline>'', [PStr ''PCI subsystem not initialized''])]
      else let mcfg = find_mcfg_table m a mcfg_name
      in if mcfg = NULL then Inl Undefined
         else Inr ([(''MCFG Addr: 0x%lx\<newline>'', [PNum mcfg]),
             (''Signature: %.4s\<newline>'', [PChars mcfg]),
             (''OEM Id: %.6s\<newline>'', [PChars (mcfg + 10)]),
             (''OEM Table Id: %.8s\<newline>'', [PChars (mcfg + 16)]),
             (''OEM Revision: %d\<newline>'', [PNum (ucast (mem_read_32 m (mcfg + 24)))]),
             (''Length: %d\<newline>'', [PNum (ucast (mem_read_32 m (mcfg + 4)))]),
             (''PCI Host Bridge Count: %d\<newline>'', [PNum (word_of_int (bridge_count_of m mcfg))])] @
           concat (map (print_host_bridge m mcfg) [0..<nat (bridge_count_of m mcfg)])))"

subsection \<open>The class tables are well formed\<close>

text \<open>
  A table is the entries with a description, each with a table below it, and then the entry
  without one; no code occurs twice.
\<close>

definition table_ok :: "PciClassEntry list \<Rightarrow> bool" where
  "table_ok es \<longleftrightarrow> es \<noteq> [] \<and> Description (last es) = None \<and>
     (\<forall>e\<in>set (butlast es). Description e \<noteq> None \<and> LowerLevelClass e \<noteq> None) \<and>
     distinct (map Code (butlast es))"

lemma class_entry_simps [simp]:
  "Code (class_entry c d t) = c" "Description (class_entry c d t) = Some d"
  "LowerLevelClass (class_entry c d t) = Some t" "Description class_end = None"
  by (simp_all add: class_entry_def class_end_def)

lemma entries_ok: "table_ok (entries t)"
  by (cases t) (simp_all add: table_ok_def class_tables)

definition in_table :: "PciClassEntry list \<Rightarrow> u8 \<Rightarrow> PciClassEntry \<Rightarrow> bool" where
  "in_table es c e \<longleftrightarrow> e \<in> set es \<and> Description e \<noteq> None \<and> Code e = ucast c"

lemma FindClassEntry_append:
  assumes "\<forall>e\<in>set es. Description e \<noteq> None" and "Description x = None"
  shows "FindClassEntry c (es @ [x]) = Inr (find (\<lambda>e. Code e = ucast c) es)"
  using assms by (induction es) auto

lemma find_Some_iff_distinct:
  "distinct (map f es) \<Longrightarrow> find (\<lambda>e. f e = c) es = Some e \<longleftrightarrow> e \<in> set es \<and> f e = c"
  by (induction es) force+

lemma FindClassEntry_total:
  assumes "table_ok es"
  shows "\<exists>r. FindClassEntry c es = Inr r \<and> (\<forall>e. r = Some e \<longleftrightarrow> in_table es c e)"
proof -
  obtain bs x where es: "es = bs @ [x]" and x: "Description x = None"
    and b: "\<forall>e\<in>set bs. Description e \<noteq> None" "distinct (map Code bs)"
    using assms by (metis table_ok_def append_butlast_last_id)
  have "FindClassEntry c es = Inr (find (\<lambda>e. Code e = ucast c) bs)"
    unfolding es by (rule FindClassEntry_append [OF b(1) x])
  moreover have "find (\<lambda>e. Code e = ucast c) bs = Some e \<longleftrightarrow> in_table es c e" for e
    unfolding find_Some_iff_distinct [OF b(2)] using b(1) x by (auto simp: in_table_def es)
  ultimately show ?thesis by blast
qed

lemma in_table_lower: "table_ok es \<Longrightarrow> in_table es c e \<Longrightarrow> \<exists>t. LowerLevelClass e = Some t"
  unfolding table_ok_def in_table_def
  by (metis append_butlast_last_id in_set_butlastD not_None_eq rotate1.simps(2) set_ConsD set_rotate1)

lemma base_table: "table_ok gClassStringList"
  using entries_ok [of At_gClassStringList] by simp

subsection \<open>Class names\<close>

text \<open>
  \<open>class_path es cs e\<close>: following the codes \<open>cs\<close> from table \<open>es\<close>, one table lower at each, ends
  at entry \<open>e\<close>.
\<close>

inductive class_path :: "PciClassEntry list \<Rightarrow> u8 list \<Rightarrow> PciClassEntry \<Rightarrow> bool" where
  path_end: "in_table es c e \<Longrightarrow> class_path es [c] e"
| path_step: "in_table es c e \<Longrightarrow> LowerLevelClass e = Some t \<Longrightarrow> class_path (entries t) cs e' \<Longrightarrow>
     class_path es (c # cs) e'"

inductive_simps class_path_Nil [simp]: "class_path es [] e"
inductive_simps class_path_Cons: "class_path es (c # cs) e"

lemma class_path_single: "class_path es [c] e \<longleftrightarrow> in_table es c e"
  by (auto simp: class_path_Cons)

text \<open>What the lookup along \<open>cs\<close> may answer: the description found there, or the question mark.\<close>

definition names_path :: "u8 list \<Rightarrow> string \<Rightarrow> bool" where
  "names_path cs s \<longleftrightarrow>
     (\<forall>e. class_path gClassStringList cs e \<longrightarrow> Description e = Some s) \<and>
     ((\<nexists>e. class_path gClassStringList cs e) \<longrightarrow> s = ''?'')"

lemma in_table_unique: "table_ok es \<Longrightarrow> in_table es c e \<Longrightarrow> in_table es c e' \<Longrightarrow> e = e'"
  by (metis FindClassEntry_total option.inject)

lemma class_path_unique:
  "class_path es cs e \<Longrightarrow> table_ok es \<Longrightarrow> class_path es cs e' \<Longrightarrow> e = e'"
proof (induction arbitrary: e' rule: class_path.induct)
  case (path_end es c e)
  then show ?case using in_table_unique by (simp add: class_path_single)
next
  case (path_step es c e t cs e1)
  from path_step.hyps(3) have "cs \<noteq> []" by (auto elim: class_path.cases)
  then obtain e2 t2 where "in_table es c e2" "LowerLevelClass e2 = Some t2" "class_path (entries t2) cs e'"
    using path_step.prems(2) by (auto simp: class_path_Cons)
  moreover from this have "e2 = e"
    using in_table_unique [OF path_step.prems(1)] path_step.hyps(1) by blast
  ultimately show ?case using path_step by (simp add: entries_ok)
qed

lemma description_eq: "in_table es c e \<Longrightarrow> Description e = Some (description e)"
  by (auto simp: in_table_def description_def)

lemma names_path_Some:
  assumes "class_path gClassStringList cs e" shows "names_path cs (description e)"
proof -
  have "Description e = Some (description e)"
    using assms by (induction rule: class_path.induct) (auto intro: description_eq)
  then show ?thesis
    unfolding names_path_def using class_path_unique [OF assms base_table] assms by blast
qed

lemma names_path_None: "(\<nexists>e. class_path gClassStringList cs e) \<Longrightarrow> names_path cs ''?''"
  by (simp add: names_path_def)

lemma FindClassEntry_split [consumes 1, case_names none some]:
  assumes "table_ok es"
  obtains (none) "FindClassEntry c es = Inr None" and "\<And>e. \<not> in_table es c e"
  | (some) e t where "FindClassEntry c es = Inr (Some e)" and "\<And>e'. in_table es c e' \<longleftrightarrow> e' = e"
      and "LowerLevelClass e = Some t"
proof -
  obtain r where r: "FindClassEntry c es = Inr r" "\<forall>e. r = Some e \<longleftrightarrow> in_table es c e"
    using FindClassEntry_total [OF assms] by blast
  show thesis
  proof (cases r)
    case None
    then show thesis using none r by simp
  next
    case (Some e)
    then have "in_table es c e" using r by blast
    then show thesis using some in_table_lower [OF assms] r Some by force
  qed
qed

text \<open>
  C14.  Naming a device never runs past a class table: each of the three names is the description
  its codes lead to, or a question mark when they lead nowhere; before initialisation the names
  are left alone.
\<close>
theorem pci_get_class_names_correct:
  "(\<exists>n. pci_get_class_names True d names = Inr n \<and>
      names_path [base_class_code d] (base_class n) \<and>
      names_path [base_class_code d, sub_class_code d] (sub_class n) \<and>
      names_path [base_class_code d, sub_class_code d, pi_class_code d] (pif_class n)) \<and>
   pci_get_class_names False d names = Inr names"
proof -
  let ?n = "\<lambda>cs s. names_path (take cs [base_class_code d, sub_class_code d, pi_class_code d]) s"
  have "\<exists>n. pci_get_class_names True d names = Inr n \<and>
      ?n 1 (base_class n) \<and> ?n 2 (sub_class n) \<and> ?n 3 (pif_class n)"
    using base_table
  proof (cases rule: FindClassEntry_split [where c = "base_class_code d"])
    case none
    then show ?thesis by (simp add: pci_get_class_names_def names_path_None class_path_Cons)
  next
    case b: (some b t)
    have nb: "?n 1 (description b)" using names_path_Some b(2) by (simp add: class_path_single)
    show ?thesis
      using entries_ok [of t]
    proof (cases rule: FindClassEntry_split [where c = "sub_class_code d"])
      case none
      then show ?thesis
        using b nb by (simp add: pci_get_class_names_def names_path_None class_path_Cons lower_entries_def)
    next
      case s: (some s u)
      have ns: "?n 2 (description s)" using s b by (simp add: names_path_Some class_path_Cons)
      show ?thesis
        using entries_ok [of u]
      proof (cases rule: FindClassEntry_split [where c = "pi_class_code d"])
        case none
        then show ?thesis using b s nb ns
          by (simp add: pci_get_class_names_def names_path_None class_path_Cons lower_entries_def)
      next
        case p: (some p v)
        have "?n 3 (description p)" using b s p by (simp add: names_path_Some class_path_Cons)
        then show ?thesis using b s p nb ns by (simp add: pci_get_class_names_def lower_entries_def)
      qed
    qed
  qed
  then show ?thesis by (simp add: pci_get_class_names_def)
qed

subsection \<open>Enumeration\<close>

text \<open>The functions of a slot that the scan records.\<close>

definition single_function :: "mem \<Rightarrow> pci_host_bridge \<Rightarrow> nat \<Rightarrow> nat \<Rightarrow> bool" where
  "single_function m b bus dev \<longleftrightarrow> pci_present m b bus dev 0 \<and>
     header_type (pci_make_device m b bus dev 0) AND PCI_HEADER_TYPE_MULTI_FUNCTION = 0"

definition slot_functions :: "mem \<Rightarrow> pci_host_bridge \<Rightarrow> nat \<Rightarrow> nat \<Rightarrow> nat list" where
  "slot_functions m b bus dev =
     (if single_function m b bus dev then [0] else filter (pci_present m b bus dev) [0..<8])"

lemma scan_functions_later:
  "0 \<notin> set fns \<Longrightarrow> pci_scan_functions m b bus dev fns ds =
     ds @ map (pci_make_device m b bus dev) (filter (pci_present m b bus dev) fns)"
  by (induction fns arbitrary: ds) (auto simp: Let_def)

lemma scan_functions:
  "pci_scan_functions m b bus dev [0..<Suc PCI_MAX_FUNCTION] ds =
     ds @ map (pci_make_device m b bus dev) (slot_functions m b bus dev)"
proof -
  have u: "[0..<Suc PCI_MAX_FUNCTION] = 0 # [1..<8]"
    by (simp add: PCI_MAX_FUNCTION_def upt_conv_Cons)
  have v: "[0..<8] = (0::nat) # [1..<8]" by (simp add: upt_conv_Cons)
  have z: "0 \<notin> set [Suc 0..<8]" by simp
  show ?thesis
    unfolding u slot_functions_def v
    by (simp add: Let_def scan_functions_later [OF z] single_function_def)
qed

lemma fold_append: "(\<And>x ds. f x ds = ds @ g x) \<Longrightarrow> fold f xs ds = ds @ concat (map g xs)"
  by (induction xs arbitrary: ds) simp_all

definition bus_devices :: "mem \<Rightarrow> pci_host_bridge \<Rightarrow> nat \<Rightarrow> pci_device list" where
  "bus_devices m b bus =
     concat (map (\<lambda>dev. map (pci_make_device m b bus dev) (slot_functions m b bus dev)) [0..<32])"

definition bridge_devices :: "mem \<Rightarrow> pci_host_bridge \<Rightarrow> pci_device list" where
  "bridge_devices m b =
     concat (map (bus_devices m b) [unat (start_bus_number b)..<Suc (unat (end_bus_number b))])"

lemma scan_devices: "pci_scan_devices m b bus ds = ds @ bus_devices m b bus"
  unfolding pci_scan_devices_def bus_devices_def
  by (subst fold_append [OF scan_functions]) (simp add: PCI_MAX_DEVICE_def)

lemma scan_bridge: "pci_scan_bridge m b ds = ds @ bridge_devices m b"
  unfolding pci_scan_bridge_def bridge_devices_def by (rule fold_append [OF scan_devices])















text \<open>
  The header type of a plain device is 0, so the test for it never holds: the scan records
  the first two base address registers of a function and takes the other four for empty.
\<close>
theorem pci_two_bars_only:
  "bar (pci_make_device m b bus dev fn) =
     map (\<lambda>i. mem_read_32 m (ucast (ecam_of b bus dev fn + 0x10 + of_nat i * 4))) [0..<2] @ [0, 0, 0, 0]"
  by (simp add: pci_make_device_def PCI_HEADER_TYPE_DEVICE_def read_bars_def Let_def)

subsection \<open>Initialisation\<close>

lemma init_bridges_devices:
  "pci_init_bridges m mcfg is s ds = Inr (ok, s', ds') \<Longrightarrow>
     \<exists>k\<le>length is. (ok \<longleftrightarrow> k = length is) \<and>
       ds' = ds @ concat (map (\<lambda>i. bridge_devices m (read_host_bridge m mcfg i)) (take k is))"
proof (induction "is" arbitrary: s ds)
  case Nil
  then show ?case by simp
next
  case (Cons i "is")
  let ?b = "read_host_bridge m mcfg i"
  obtain step t where c: "claim_range mem_map_range_2m MEMORY_PCI_ECAM (base_address ?b) s = Inr (step, t)"
    using Cons.prems by (cases "claim_range mem_map_range_2m MEMORY_PCI_ECAM (base_address ?b) s") auto
  show ?case
  proof (cases "step = 0")
    case True
    with c Cons.prems have "pci_init_bridges m mcfg is t (ds @ bridge_devices m ?b) = Inr (ok, s', ds')"
      by (simp add: scan_bridge)
    from Cons.IH [OF this] obtain k where k: "k \<le> length is" "ok \<longleftrightarrow> k = length is"
      "ds' = (ds @ bridge_devices m ?b) @
         concat (map (\<lambda>i. bridge_devices m (read_host_bridge m mcfg i)) (take k is))"
      by blast
    then show ?thesis by (intro exI [of _ "Suc k"]) simp
  next
    case False
    with c Cons.prems have "\<not> ok" "ds' = ds" by simp_all
    then show ?thesis by (intro exI [of _ 0]) simp
  qed
qed

text \<open>
  \<open>pci_init\<close> returns true exactly when it has found the MCFG table and set up every bridge of
  it; then the devices of all bridges follow those known before, in the order of the bridges, and
  the subsystem is initialised.  When it gives up at a bridge the devices of the earlier bridges
  stay in the list.
\<close>
theorem pci_init_correct:
  assumes "pci_init m name a s p = Inr (ok, s', p')"
  shows "\<exists>mcfg k. mcfg = acpi_find_table m a name \<and> k \<le> nat (bridge_count_of m mcfg) \<and>
     (ok \<longleftrightarrow> mcfg \<noteq> NULL \<and> k = nat (bridge_count_of m mcfg)) \<and> (mcfg = NULL \<longrightarrow> k = 0) \<and>
     pci_devices p' = pci_devices p @
       concat (map (\<lambda>i. bridge_devices m (read_host_bridge m mcfg i)) [0..<k]) \<and>
     (pci_inited p' \<longleftrightarrow> ok \<or> pci_inited p)"
proof (cases "acpi_find_table m a name = NULL")
  case True
  with assms show ?thesis by (intro exI [of _ "NULL"] exI [of _ 0]) (auto simp: pci_init_def find_mcfg_table_def)
next
  case False
  let ?m = "acpi_find_table m a name"
  obtain ds where ds: "pci_init_bridges m ?m [0..<nat (bridge_count_of m ?m)] s (pci_devices p) = Inr (ok, s', ds)"
    and p': "p' = p\<lparr>pci_devices := ds, pci_inited := (if ok then True else pci_inited p)\<rparr>"
    using assms False
    by (cases "pci_init_bridges m ?m [0..<nat (bridge_count_of m ?m)] s (pci_devices p)")
       (auto simp: pci_init_def find_mcfg_table_def Let_def)
  obtain k where k: "k \<le> nat (bridge_count_of m ?m)" "ok \<longleftrightarrow> k = nat (bridge_count_of m ?m)"
    "ds = pci_devices p @ concat (map (\<lambda>i. bridge_devices m (read_host_bridge m ?m i))
       (take k [0..<nat (bridge_count_of m ?m)]))"
    using init_bridges_devices [OF ds] by auto
  then show ?thesis using False p' by (intro exI [of _ ?m] exI [of _ k]) (auto simp: take_upt)
qed

subsection \<open>Base address registers\<close>

lemma mask_memory: "unat (b AND BAR_MEMORY_ADDRESS_MASK) = 16 * (unat b div 16)"
proof -
  have e: "BAR_MEMORY_ADDRESS_MASK = NOT (mask 4)"
    by (simp add: BAR_MEMORY_ADDRESS_MASK_def mask_eq_exp_minus_1)
  have "b AND BAR_MEMORY_ADDRESS_MASK = push_bit 4 (drop_bit 4 b)"
    unfolding e by (rule and_not_mask_word)
  then have "unat (b AND BAR_MEMORY_ADDRESS_MASK) = take_bit 32 (push_bit 4 (drop_bit 4 (unat b)))"
    by (simp only: unsigned_push_bit_eq unat_drop_bit_eq len_of_numeral_defs) simp
  moreover have "16 * (unat b div 16) < 2 ^ 32"
    using unsigned_less [of b, where 'a = nat] by simp
  ultimately show ?thesis
    by (simp add: push_bit_eq_mult drop_bit_eq_div take_bit_nat_eq_self)
qed

lemma take_bit_1_word: "take_bit 1 (b :: u32) = 0 \<longleftrightarrow> even b"
  by (simp add: even_iff_mod_2_eq_zero take_bit_eq_mod)

lemma even_unat_u32: "even (unat (b :: u32)) \<longleftrightarrow> even b"
  using bit_unsigned_iff [where 'a = nat, of b 0] by (simp add: bit_0)

lemma bar_addr_32_memory:
  assumes "i < length (bar d)" and "even (bar d ! i)"
  shows "\<exists>a. pci_bar_addr_32 d i = Inr a \<and> unat a = 16 * (unat (bar d ! i) div 16)"
proof -
  have "pci_bar_addr_32 d i = Inr (ucast (bar d ! i AND BAR_MEMORY_ADDRESS_MASK))"
    using assms take_bit_1_word
    by (simp add: pci_bar_addr_32_def bar_at_def bar_type_def BAR_TYPE_MEMORY_def)
  moreover have "unat (ucast x :: u64) = unat x" for x :: u32
    using unsigned_less [of x, where 'a = nat] by (simp add: unsigned_ucast_eq take_bit_nat_eq_self)
  ultimately show ?thesis by (simp add: mask_memory)
qed

lemma bar_addr_64_memory:
  assumes "Suc i < length (bar d)" and "even (bar d ! i)" and "unat (bar d ! Suc i) mod 16 = 0"
  shows "\<exists>a. pci_bar_addr_64 d i = Inr a \<and>
    unat a = 2 ^ 32 * unat (bar d ! Suc i) + 16 * (unat (bar d ! i) div 16)"
proof -
  have "even (unat (bar d ! Suc i))" using assms(3) by presburger
  then have "even (bar d ! Suc i)" by (simp add: even_unat_u32)
  then obtain hi where hi: "pci_bar_addr_32 d (Suc i) = Inr hi" "unat hi = unat (bar d ! Suc i)"
    using bar_addr_32_memory [of "Suc i" d] assms(1,3) by auto
  obtain lo where lo: "pci_bar_addr_32 d i = Inr lo" "unat lo = 16 * (unat (bar d ! i) div 16)"
    using bar_addr_32_memory [of i d] assms(1,2) by auto
  have "unat hi < 2 ^ 32" "unat lo < 2 ^ 32"
    using unsigned_less [of "bar d ! Suc i", where 'a = nat] unsigned_less [of "bar d ! i", where 'a = nat]
    by (simp_all add: hi lo)
  then have "unat (push_bit 32 hi + lo) = 2 ^ 32 * unat hi + unat lo"
    by (simp add: push_bit_eq_mult unat_word_ariths)
  then show ?thesis using hi lo by (simp add: pci_bar_addr_64_def)
qed

text \<open>
  \<open>pci_bar_addr\<close> of a memory register: a 32-bit one holds an address aligned to 16, a 64-bit
  one with the next register its upper half (the code masks the low four bits of the upper
  half too, so it is right when these are zero); a 64-bit one in the last place reads past the
  array.  An I/O register and the reserved memory type panic.
\<close>
theorem pci_bar_addr_correct:
  assumes "length (bar d) = 6" and "i < 6"
  shows "(odd (bar d ! i) \<longrightarrow> pci_bar_addr d i = Inl (Panic ''IO BARs not supported'')) \<and>
    (even (bar d ! i) \<longrightarrow>
       (case unat (bar_locatable (bar d ! i)) of
          0 \<Rightarrow> \<exists>a. pci_bar_addr d i = Inr a \<and> unat a = 16 * (unat (bar d ! i) div 16)
        | Suc 0 \<Rightarrow> \<exists>a. pci_bar_addr d i = Inr a \<and> unat a = 16 * (unat (bar d ! i) div 16)
        | Suc (Suc 0) \<Rightarrow>
            (i = 5 \<longrightarrow> pci_bar_addr d i = Inl Undefined) \<and>
            (i < 5 \<and> unat (bar d ! Suc i) mod 16 = 0 \<longrightarrow>
              (\<exists>a. pci_bar_addr d i = Inr a \<and>
                 unat a = 2 ^ 32 * unat (bar d ! Suc i) + 16 * (unat (bar d ! i) div 16)))
        | _ \<Rightarrow> pci_bar_addr d i = Inl (Panic ''BAR locatable type %d not supported.'')))"
proof -
  let ?b = "bar d ! i"
  have t: "bar_type ?b = BAR_TYPE_MEMORY \<longleftrightarrow> even ?b"
    using take_bit_1_word by (simp add: bar_type_def BAR_TYPE_MEMORY_def)
  have l: "bar_locatable ?b = BAR_ANY_32_BIT \<longleftrightarrow> unat (bar_locatable ?b) = 0"
    "bar_locatable ?b = BAR_BELOW_1M \<longleftrightarrow> unat (bar_locatable ?b) = 1"
    "bar_locatable ?b = BAR_ANY_64_BIT \<longleftrightarrow> unat (bar_locatable ?b) = 2"
    by (simp_all add: word_unat_eq_iff BAR_ANY_32_BIT_def BAR_BELOW_1M_def BAR_ANY_64_BIT_def)
  have past: "pci_bar_addr_64 d 5 = Inl Undefined"
    using assms(1) by (simp add: pci_bar_addr_64_def pci_bar_addr_32_def bar_at_def)
  show ?thesis
    using assms t l bar_addr_32_memory [of i d] bar_addr_64_memory [of i d] past
    by (cases "i = 5") (auto simp: pci_bar_addr_def bar_at_def split: nat.splits)
qed

definition empty_device :: pci_device where
  "empty_device = \<lparr>bus_number = 0, device_number = 0, function_number = 0, vendor_id = 0,
     device_id = 0, header_type = 0, pi_class_code = 0, sub_class_code = 0, base_class_code = 0,
     ecam_adress = 0, bar = []\<rparr>"

theorem pci_bar_addr_correct_witness:
  "\<exists>a. pci_bar_addr (empty_device\<lparr>bar := [0xFE000004, 1, 0xC0000004, 0x10, 0, 0]\<rparr>) 2 = Inr a \<and>
     unat a = 2 ^ 32 * 16 + 0xC0000000"
proof -
  let ?d = "empty_device\<lparr>bar := [0xFE000004, 1, 0xC0000004, 0x10, 0, 0]\<rparr>"
  have "length (bar ?d) = 6" "(2::nat) < 6" "unat (bar_locatable (bar ?d ! 2)) = 2"
    by (simp_all add: bar_locatable_def)
  from pci_bar_addr_correct [OF this(1,2)] this(3) show ?thesis by simp
qed

subsection \<open>Finding a table\<close>

text \<open>
  What \<open>strnequ (name, table, 4)\<close> really decides: the signatures agree, or they agree on the
  character after the first one that differs (\<open>strncmp\<close> steps on before it subtracts).
\<close>

definition signature_match :: "mem \<Rightarrow> ptr \<Rightarrow> ptr \<Rightarrow> bool" where
  "signature_match m x y \<longleftrightarrow> bytes m x 4 = bytes m y 4 \<or>
     (\<exists>i<4. bytes m x i = bytes m y i \<and> m (x + of_nat i) \<noteq> m (y + of_nat i) \<and>
        m (x + of_nat (Suc i)) = m (y + of_nat (Suc i)))"

lemma strnequ_4: "strnequ m x y 4 \<longleftrightarrow> signature_match m x y"
proof -
  have all: "(\<exists>i<(4::nat). P i) \<longleftrightarrow> P 0 \<or> P 1 \<or> P 2 \<or> P 3" for P
    by (auto simp: numeral_eq_Suc less_Suc_eq)
  have b: "bytes m p (Suc 0) = [m p]" "bytes m p 2 = [m p, m (p + 1)]" "bytes m p 3 = [m p, m (p + 1), m (p + 2)]"
    "bytes m p 4 = [m p, m (p + 1), m (p + 2), m (p + 3)]" for p
    by (simp_all add: bytes_def upt_rec)
  show ?thesis
    unfolding strnequ_def strncmp_def signature_match_def all
    by (auto simp: strncmp_loop.simps [of m _ _ 4] uint_eq_iff b add.assoc)
qed

lemma find_table_loop_find:
  "find_table_loop m name entry n =
     (case find (signature_match m name) (map (\<lambda>i. ucast (mem_read_32 m (entry + 4 * of_nat i))) [0..<n]) of
        None \<Rightarrow> NULL | Some t \<Rightarrow> t)"
proof (induction n arbitrary: entry)
  case 0
  then show ?case by simp
next
  case (Suc n)
  have "map (\<lambda>i. ucast (mem_read_32 m (entry + 4 * of_nat i))) [0..<Suc n] =
      (ucast (mem_read_32 m entry) :: ptr) #
        map (\<lambda>i. ucast (mem_read_32 m (entry + 4 + 4 * of_nat i))) [0..<n]"
    by (simp add: upt_conv_Cons map_Suc_upt [symmetric] algebra_simps del: upt_Suc)
  then show ?case using Suc by (simp add: strnequ_4 Let_def)
qed

text \<open>
  C15.  \<open>acpi_find_table\<close> returns the first table of the root table whose signature \<open>strnequ\<close>
  accepts, and \<open>NULL\<close> when there is none or ACPI is not initialised.  A table that carries the
  wanted signature is accepted, but so is one whose signature differs in a character and agrees
  in the next.
\<close>
theorem acpi_find_table_correct:
  "acpi_find_table m a name =
     (if acpi_inited a
      then case find (signature_match m name)
             (map (\<lambda>i. ucast (mem_read_32 m (rsdt_address m a + 36 + 4 * of_nat i)))
                [0..<nat (acpi_entry_count m (rsdt_address m a))]) of
             None \<Rightarrow> NULL | Some t \<Rightarrow> t
      else NULL)"
  by (simp add: acpi_find_table_def find_table_loop_find sizeof_acpi_header_def)

subsection \<open>Printing the devices\<close>

lemma has_arg_iff: "has_arg arg argv \<longleftrightarrow> arg \<in> set argv"
  by (induction argv) auto

lemma get_locatable_str_Inr: "(\<exists>s. get_locatable_str b = Inr s) \<longleftrightarrow> odd b \<or> bar_locatable b \<noteq> 3"
proof -
  have "bar_locatable b = take_bit 2 (drop_bit 1 b)" by (simp add: bar_locatable_def)
  then have "unat (bar_locatable b) < 4"
    using unat_drop_bit_eq take_bit_nat_less_exp [of 2 "unat (drop_bit 1 b)"]
    by (simp add: unsigned_take_bit_eq)
  then have "unat (bar_locatable b) < 3 \<longleftrightarrow> bar_locatable b \<noteq> 3"
    by (auto simp: word_unat_eq_iff)
  then show ?thesis
    using take_bit_1_word by (auto simp: get_locatable_str_def bar_type_def BAR_TYPE_MEMORY_def bar_locatable_types_def)
qed

text \<open>A root table at 0x200 with one entry, an MCFG table at 0x300 without bridges.\<close>

definition example_acpi_mem :: mem where
  "example_acpi_mem =
     (\<lambda>_. 0)(64 := byte CHR ''M'', 65 := byte CHR ''C'', 66 := byte CHR ''F'', 67 := byte CHR ''G'',
       0x111 := 2, 0x204 := 40, 0x225 := 3,
       0x300 := byte CHR ''M'', 0x301 := byte CHR ''C'', 0x302 := byte CHR ''F'', 0x303 := byte CHR ''G'',
       0x304 := 44)"

theorem pci_init_correct_witness:
  "\<forall>s. \<exists>s' p'. pci_init example_acpi_mem 64 \<lparr>acpi_rsdp = 0x100, acpi_inited = True\<rparr> s
     \<lparr>pci_inited = False, pci_devices = []\<rparr> = Inr (True, s', p') \<and> pci_inited p' \<and> pci_devices p' = []"
proof
  fix s
  let ?a = "\<lparr>acpi_rsdp = 0x100, acpi_inited = True\<rparr>"
  let ?p = "\<lparr>pci_inited = False, pci_devices = []\<rparr>"
  have b: "bytes example_acpi_mem 64 4 = bytes example_acpi_mem 0x300 4"
    by (simp add: example_acpi_mem_def bytes_def upt_rec)
  have r: "rsdt_address example_acpi_mem ?a = 0x200"
    "acpi_entry_count example_acpi_mem 0x200 = 1" "mem_read_32 example_acpi_mem 0x224 = 0x300"
    "bridge_count_of example_acpi_mem 0x300 = 0"
    by (simp_all add: rsdt_address_def acpi_entry_count_def bridge_count_of_def sizeof_acpi_header_def
        sizeof_pci_host_bridge_def mem_read_32_def example_acpi_mem_def)
  have "strnequ example_acpi_mem 64 0x300 4"
    unfolding strnequ_4 signature_match_def using b by blast
  then have t: "acpi_find_table example_acpi_mem ?a 64 = 0x300"
    using find_table_loop.simps(2) [of example_acpi_mem 64 "0x224" 0]
    by (simp add: acpi_find_table_def r sizeof_acpi_header_def)
  have i: "pci_init example_acpi_mem 64 ?a s ?p = Inr (True, s, ?p\<lparr>pci_inited := True\<rparr>)"
    by (simp add: pci_init_def find_mcfg_table_def t r)
  then show "\<exists>s' p'. pci_init example_acpi_mem 64 ?a s ?p = Inr (True, s', p') \<and> pci_inited p' \<and> pci_devices p' = []"
    using pci_init_correct [OF i] by simp
qed

end
