(* ===== verification/Allocator.thy ===== *)
theory Allocator
  imports CMem
begin

text \<open>
  The contract of a memory allocator, as its clients in \<open>libc\<close> use it.  \<open>holds s L\<close> says that in
  state \<open>s\<close> exactly the blocks \<open>L\<close> (address and usable size) are handed out.  The theory \<open>Heap\<close>
  interprets the contract on \<open>kmalloc\<close>, \<open>kfree\<close> and \<open>krealloc\<close>; the theories of the clients prove
  their lemmas once, inside it.
\<close>

lemma bytes_outside:
  "(\<forall>a. a \<notin> region p n \<longrightarrow> m' a = m a) \<Longrightarrow> region p n \<inter> region q l = {} \<Longrightarrow> bytes m' q l = bytes m q l"
  by (intro bytes_cong) auto

locale allocator =
  fixes alloc :: "u64 \<Rightarrow> 's \<Rightarrow> (ptr \<times> 's) result"
    and release :: "ptr \<Rightarrow> 's \<Rightarrow> 's result"
    and holds :: "'s \<Rightarrow> (ptr \<times> nat) set \<Rightarrow> bool"
  assumes alloc_step: "holds s L \<Longrightarrow> unat n + 3 < 2 ^ 64 \<Longrightarrow>
      alloc n s = Inr (NULL, s) \<or>
      (\<exists>p s' k. alloc n s = Inr (p, s') \<and> p \<noteq> NULL \<and> unat n \<le> k \<and> p \<notin> fst ` L \<and> holds s' (insert (p, k) L))"
    and release_step: "holds s L \<Longrightarrow> (p, k) \<in> L \<Longrightarrow> \<exists>s'. release p s = Inr s' \<and> holds s' (L - {(p, k)})"
    and held_apart: "holds s L \<Longrightarrow> (p, k) \<in> L \<Longrightarrow> (q, l) \<in> L \<Longrightarrow> (p, k) \<noteq> (q, l) \<Longrightarrow>
      unat p + k \<le> unat q \<or> unat q + l \<le> unat p"
    and held_fits: "holds s L \<Longrightarrow> (p, k) \<in> L \<Longrightarrow> fits p k \<and> p \<noteq> NULL"
begin

lemma held_disjoint:
  "holds s L \<Longrightarrow> (p, k) \<in> L \<Longrightarrow> (q, l) \<in> L \<Longrightarrow> (p, k) \<noteq> (q, l) \<Longrightarrow> region p k \<inter> region q l = {}"
  by (rule fits_disjoint) (use held_fits held_apart in blast)+

text \<open>Writing inside one block leaves every other block alone.\<close>

lemma held_untouched:
  assumes "holds s L" and "(p, k) \<in> L" and "(q, l) \<in> L" and "(p, k) \<noteq> (q, l)" and "n \<le> k"
    and "\<forall>a. a \<notin> region p n \<longrightarrow> m' a = m a"
  shows "bytes m' q l = bytes m q l"
proof (rule bytes_outside [OF assms(6)])
  show "region p n \<inter> region q l = {}"
    using held_disjoint [OF assms(1-4)] region_mono [OF assms(5)] by blast
qed

lemma alloc_release:
  assumes "holds s L" and "unat n + 3 < 2 ^ 64" and "alloc n s = Inr (p, s')" and "p \<noteq> NULL"
  shows "\<exists>s''. release p s' = Inr s'' \<and> holds s'' L"
proof -
  obtain k where k: "p \<notin> fst ` L" "holds s' (insert (p, k) L)"
    using alloc_step [OF assms(1,2)] assms(3,4) by auto
  then have "insert (p, k) L - {(p, k)} = L" by force
  then show ?thesis using release_step [OF k(2), of p k] by auto
qed

lemma alloc_fresh:
  assumes "holds s L" and "unat n + 3 < 2 ^ 64" and "alloc n s = Inr (p, s')" and "p \<noteq> NULL"
  shows "\<exists>k\<ge>unat n. holds s' (insert (p, k) L) \<and> p \<notin> fst ` L \<and>
    (\<forall>(q, l)\<in>L. region p k \<inter> region q l = {})"
proof -
  obtain k where k: "unat n \<le> k" "p \<notin> fst ` L" "holds s' (insert (p, k) L)"
    using alloc_step [OF assms(1,2)] assms(3,4) by auto
  moreover have "region p k \<inter> region q l = {}" if "(q, l) \<in> L" for q l
    using held_disjoint [OF k(3), of p k q l] that k(2) by force
  ultimately show ?thesis by blast
qed

end

text \<open>With \<open>realloc\<close>: the contents up to the smaller size survive, and so does every other block.\<close>

locale reallocator = allocator alloc release holds
  for alloc :: "u64 \<Rightarrow> 's \<Rightarrow> (ptr \<times> 's) result" and release :: "ptr \<Rightarrow> 's \<Rightarrow> 's result"
    and holds :: "'s \<Rightarrow> (ptr \<times> nat) set \<Rightarrow> bool" +
  fixes resize :: "ptr \<Rightarrow> u64 \<Rightarrow> mem \<Rightarrow> 's \<Rightarrow> (ptr \<times> mem \<times> 's) result"
  assumes resize_step: "holds s L \<Longrightarrow> (p, k) \<in> L \<Longrightarrow> 0 < n \<Longrightarrow> unat n + 3 < 2 ^ 64 \<Longrightarrow>
      resize p n m s = Inr (NULL, m, s) \<or>
      (\<exists>p' k' m' s'. resize p n m s = Inr (p', m', s') \<and> p' \<noteq> NULL \<and> unat n \<le> k' \<and>
         holds s' (insert (p', k') (L - {(p, k)})) \<and> p' \<notin> fst ` (L - {(p, k)}) \<and>
         bytes m' p' (min k k') = bytes m p (min k k') \<and>
         (\<forall>(q, l)\<in>L - {(p, k)}. bytes m' q l = bytes m q l))"
begin

lemma resize_grow:
  assumes "holds s L" and "(p, k) \<in> L" and "0 < n" and "unat n + 3 < 2 ^ 64"
    and "resize p n m s = Inr (p', m', s')" and "p' \<noteq> NULL" and "j \<le> k" and "j \<le> unat n"
  shows "bytes m' p' j = bytes m p j"
proof -
  obtain k' where k': "unat n \<le> k'" "bytes m' p' (min k k') = bytes m p (min k k')"
    using resize_step [OF assms(1-4), of m] assms(5,6) by auto
  have "bytes m' p' (j + (min k k' - j)) = bytes m p (j + (min k k' - j))" using k' assms(7,8) by simp
  then show ?thesis unfolding bytes_add by (simp add: append_eq_append_conv)
qed

end

end
