(* ===== verification/Heap.thy ===== *)
theory Heap
  imports Allocator
begin

text \<open>
  The kernel heap of \<open>kernel/mem/heap.c\<close>, behind \<open>malloc\<close>, \<open>calloc\<close>, \<open>realloc\<close> and \<open>free\<close> of
  \<open>libc/stdlib/malloc.c\<close>.

  A \<open>heap_chunk\<close> is named by its address; its \<open>dlist\<close> \<open>all\<close> is at the same address, the \<open>dlist\<close>
  \<open>free\<close> 24 bytes further on, where the data of a used chunk begins.  \<open>dl_next\<close> and \<open>dl_prev\<close> are
  the fields of the \<open>dlist\<close> at an address.  What a program writes into its block may overwrite
  the \<open>free\<close> links of a used chunk; the code never reads them before it has set them again, and
  the invariant says nothing about them.

  An index of \<open>free_chunk\<close> outside its 32 entries is \<open>Undefined\<close>.
\<close>

unbundle bit_operations_syntax

subsection \<open>State\<close>

record heap =
  dl_next :: "ptr \<Rightarrow> ptr"
  dl_prev :: "ptr \<Rightarrow> ptr"
  ch_used :: "ptr \<Rightarrow> int"
  free_chunk :: "nat \<Rightarrow> ptr"
  mem_free :: u64
  mem_used :: u64
  mem_meta :: u64
  heap_head :: ptr
  heap_tail :: ptr

definition NUM_SIZES :: nat where "NUM_SIZES = 32"
definition ALIGN :: u64 where "ALIGN = 4"
definition MIN_SIZE :: u64 where "MIN_SIZE = 16"
definition HEADER_SIZE :: u64 where "HEADER_SIZE = 24"
definition sizeof_heap_chunk :: u64 where "sizeof_heap_chunk = 40"

abbreviation (input) free_of :: "ptr \<Rightarrow> ptr" where
  "free_of chunk \<equiv> chunk + HEADER_SIZE"

definition set_dl_next :: "ptr \<Rightarrow> ptr \<Rightarrow> heap \<Rightarrow> heap" where
  "set_dl_next d v h = h\<lparr>dl_next := (dl_next h)(d := v)\<rparr>"

definition set_dl_prev :: "ptr \<Rightarrow> ptr \<Rightarrow> heap \<Rightarrow> heap" where
  "set_dl_prev d v h = h\<lparr>dl_prev := (dl_prev h)(d := v)\<rparr>"

definition set_used :: "ptr \<Rightarrow> int \<Rightarrow> heap \<Rightarrow> heap" where
  "set_used c v h = h\<lparr>ch_used := (ch_used h)(c := v)\<rparr>"

definition set_free_chunk :: "nat \<Rightarrow> ptr \<Rightarrow> heap \<Rightarrow> heap" where
  "set_free_chunk n v h = h\<lparr>free_chunk := (free_chunk h)(n := v)\<rparr>"

named_theorems heap_sets "the field updates of the heap's state"

lemmas [heap_sets] = set_dl_next_def set_dl_prev_def set_used_def set_free_chunk_def

subsection \<open>Circular lists\<close>

definition dlist_init :: "ptr \<Rightarrow> heap \<Rightarrow> heap" where
  "dlist_init d h = set_dl_prev d d (set_dl_next d d h)"

definition dlist_insert_after :: "ptr \<Rightarrow> ptr \<Rightarrow> heap \<Rightarrow> heap" where
  "dlist_insert_after d1 d2 h =
     (let n1 = dl_next h d1; e2 = dl_prev h d2;
          h = set_dl_next d1 d2 h;
          h = set_dl_prev d2 d1 h;
          h = set_dl_next e2 n1 h
      in set_dl_prev n1 e2 h)"

definition dlist_insert_before :: "ptr \<Rightarrow> ptr \<Rightarrow> heap \<Rightarrow> heap" where
  "dlist_insert_before d1 d2 h =
     (let e1 = dl_prev h d1; e2 = dl_prev h d2;
          h = set_dl_next e1 d2 h;
          h = set_dl_prev d2 e1 h;
          h = set_dl_next e2 d1 h
      in set_dl_prev d1 e2 h)"

definition dlist_remove :: "ptr \<Rightarrow> heap \<Rightarrow> heap" where
  "dlist_remove d h =
     (let h = set_dl_next (dl_prev h d) (dl_next h d) h;
          h = set_dl_prev (dl_next h d) (dl_prev h d) h;
          h = set_dl_next d d h
      in set_dl_prev d d h)"

text \<open>The operations on a list head \<open>d1p\<close> return its new value.\<close>

definition dlist_push :: "ptr \<Rightarrow> ptr \<Rightarrow> heap \<Rightarrow> ptr \<times> heap" where
  "dlist_push d1p d2 h = (d2, if d1p \<noteq> NULL then dlist_insert_before d1p d2 h else h)"

definition dlist_pop :: "ptr \<Rightarrow> heap \<Rightarrow> ptr \<times> ptr \<times> heap" where
  "dlist_pop d1 h = (let d2 = dl_next h d1 in (d1, if d1 = d2 then NULL else d2, dlist_remove d1 h))"

definition dlist_remove_from :: "ptr \<Rightarrow> ptr \<Rightarrow> heap \<Rightarrow> ptr \<times> heap" where
  "dlist_remove_from d1p d2 h =
     (if d1p = d2 then (let (_, d1p, h) = dlist_pop d1p h in (d1p, h)) else (d1p, dlist_remove d2 h))"

text \<open>The macros, for the head \<open>free_chunk[n]\<close> and the member \<open>free\<close>.\<close>

definition DLIST_PUSH :: "nat \<Rightarrow> ptr \<Rightarrow> heap \<Rightarrow> heap" where
  "DLIST_PUSH n v h =
     (let head = (if free_chunk h n = NULL then NULL else free_of (free_chunk h n));
          (head, h) = dlist_push head (free_of v) h
      in set_free_chunk n (head - HEADER_SIZE) h)"

definition DLIST_POP :: "nat \<Rightarrow> heap \<Rightarrow> ptr \<times> heap" where
  "DLIST_POP n h =
     (let (res, head, h) = dlist_pop (free_of (free_chunk h n)) h
      in (res - HEADER_SIZE, set_free_chunk n (if head = NULL then NULL else head - HEADER_SIZE) h))"

definition DLIST_REMOVE_FROM :: "nat \<Rightarrow> ptr \<Rightarrow> heap \<Rightarrow> heap" where
  "DLIST_REMOVE_FROM n d h =
     (let (head, h) = dlist_remove_from (free_of (free_chunk h n)) (free_of d) h
      in set_free_chunk n (if head = NULL then NULL else head - HEADER_SIZE) h)"

subsection \<open>Chunks\<close>

definition heap_chunk_init :: "ptr \<Rightarrow> heap \<Rightarrow> heap" where
  "heap_chunk_init chunk h = dlist_init (free_of chunk) (set_used chunk 0 (dlist_init chunk h))"

definition heap_chunk_size :: "heap \<Rightarrow> ptr \<Rightarrow> u64" where
  "heap_chunk_size h chunk = (dl_next h chunk - chunk) - HEADER_SIZE"

function slot_loop :: "u64 \<Rightarrow> int \<Rightarrow> int" where
  "slot_loop sz n = (if sz > 0 then slot_loop (sz div 2) (n + 1) else n)"
  by pat_completeness auto
termination
  by (relation "measure (\<lambda>(sz, n). unat sz)")
     (auto simp: unat_div word_less_nat_alt)

declare slot_loop.simps [simp del]

definition heap_chunk_slot :: "u64 \<Rightarrow> int" where
  "heap_chunk_slot sz = slot_loop sz (-1)"

definition slot_index :: "int \<Rightarrow> nat result" where
  "slot_index n = (if 0 \<le> n \<and> n < int NUM_SIZES then Inr (nat n) else Inl Undefined)"

definition mrvn_heap_init :: "u64 \<Rightarrow> u64 \<Rightarrow> heap \<Rightarrow> heap result" where
  "mrvn_heap_init mem sz h =
     (let mem_start = (mem + ALIGN - 1) AND NOT (ALIGN - 1);
          mem_end = (mem + sz) AND NOT (ALIGN - 1);
          head = mem_start;
          first = head + sizeof_heap_chunk;
          tail = mem_end - sizeof_heap_chunk;
          h = h\<lparr>heap_head := head, heap_tail := tail\<rparr>;
          h = heap_chunk_init tail (heap_chunk_init first (heap_chunk_init head h));
          h = dlist_insert_after head first h;
          h = dlist_insert_after first tail h;
          h = set_used tail 1 (set_used head 1 h);
          len = heap_chunk_size h first
      in bind_result (slot_index (heap_chunk_slot len))
           (\<lambda>n. Inr ((DLIST_PUSH n first h)
              \<lparr>mem_free := len - HEADER_SIZE, mem_meta := sizeof_heap_chunk * 2 + HEADER_SIZE\<rparr>)))"

definition heap_remove_free :: "ptr \<Rightarrow> heap \<Rightarrow> heap result" where
  "heap_remove_free chunk h =
     (let len = heap_chunk_size h chunk
      in bind_result (slot_index (heap_chunk_slot len))
           (\<lambda>n. let h = DLIST_REMOVE_FROM n chunk h
                in Inr (h\<lparr>mem_free := mem_free h - (len - HEADER_SIZE)\<rparr>)))"

definition heap_push_free :: "ptr \<Rightarrow> heap \<Rightarrow> heap result" where
  "heap_push_free chunk h =
     (let len = heap_chunk_size h chunk
      in bind_result (slot_index (heap_chunk_slot len))
           (\<lambda>n. let h = DLIST_PUSH n chunk h
                in Inr (h\<lparr>mem_free := mem_free h + (len - HEADER_SIZE)\<rparr>)))"

subsection \<open>Allocating and freeing\<close>

text \<open>\<open>while (!free_chunk[n]) { ++n; if (n >= NUM_SIZES) return NULL; }\<close>\<close>

function find_slot :: "(nat \<Rightarrow> ptr) \<Rightarrow> nat \<Rightarrow> nat option" where
  "find_slot fc n =
     (if fc n \<noteq> NULL then Some n
      else if Suc n \<ge> NUM_SIZES then None else find_slot fc (Suc n))"
  by pat_completeness auto
termination
  by (relation "measure (\<lambda>(fc, n). NUM_SIZES - n)") auto

declare find_slot.simps [simp del]

definition round_size :: "u64 \<Rightarrow> u64" where
  "round_size sz = (let sz = (sz + ALIGN - 1) AND NOT (ALIGN - 1) in if sz < MIN_SIZE then MIN_SIZE else sz)"

text \<open>Splitting \<open>chunk\<close> behind \<open>size\<close> bytes of data; the first component is \<open>len\<close>.\<close>

definition split_chunk :: "ptr \<Rightarrow> u64 \<Rightarrow> heap \<Rightarrow> (u64 \<times> heap) result" where
  "split_chunk chunk sz h =
     (let chunk2 = chunk + HEADER_SIZE + sz;
          h = heap_chunk_init chunk2 h;
          h = dlist_insert_after chunk chunk2 h;
          len = heap_chunk_size h chunk2
      in bind_result (slot_index (heap_chunk_slot len))
           (\<lambda>slot. let h = DLIST_PUSH slot chunk2 h
              in Inr (len, h\<lparr>mem_meta := mem_meta h + HEADER_SIZE,
                             mem_free := mem_free h + (len - HEADER_SIZE)\<rparr>)))"

definition kmalloc :: "u64 \<Rightarrow> heap \<Rightarrow> (ptr \<times> heap) result" where
  "kmalloc sz h =
     (let sz = round_size sz; n = heap_chunk_slot (sz - 1) + 1
      in if n \<ge> int NUM_SIZES then Inr (NULL, h)
         else case find_slot (free_chunk h) (nat n) of
           None \<Rightarrow> Inr (NULL, h)
         | Some n \<Rightarrow>
             let (chunk, h) = DLIST_POP n h;
                 size2 = heap_chunk_size h chunk
             in bind_result
                  (if sz + sizeof_heap_chunk \<le> size2 then split_chunk chunk sz h else Inr (0, h))
                  (\<lambda>(len, h). let h = set_used chunk 1 h
                     in Inr (chunk + HEADER_SIZE,
                             h\<lparr>mem_free := mem_free h - size2,
                               mem_used := mem_used h + (size2 - len - HEADER_SIZE)\<rparr>)))"

text \<open>The two merges of \<open>kfree\<close>.\<close>

definition unlink_merged :: "ptr \<Rightarrow> heap \<Rightarrow> heap" where
  "unlink_merged chunk h =
     (let h = dlist_remove chunk h
      in h\<lparr>mem_meta := mem_meta h - HEADER_SIZE, mem_free := mem_free h + HEADER_SIZE\<rparr>)"

definition merge_next :: "ptr \<Rightarrow> heap \<Rightarrow> heap result" where
  "merge_next nxt h =
     (if ch_used h nxt = 0
      then bind_result (heap_remove_free nxt h) (\<lambda>h. Inr (unlink_merged nxt h)) else Inr h)"

definition merge_prev :: "ptr \<Rightarrow> ptr \<Rightarrow> heap \<Rightarrow> heap result" where
  "merge_prev prv chunk h =
     (if ch_used h prv = 0
      then bind_result (heap_remove_free prv h)
             (\<lambda>h. bind_result (heap_push_free prv (dlist_remove chunk h))
               (\<lambda>h. Inr (h\<lparr>mem_meta := mem_meta h - HEADER_SIZE, mem_free := mem_free h + HEADER_SIZE\<rparr>)))
      else heap_push_free chunk (dlist_init (free_of chunk) (set_used chunk 0 h)))"

definition kfree :: "ptr \<Rightarrow> heap \<Rightarrow> heap result" where
  "kfree p h =
     (let chunk = p - HEADER_SIZE;
          nxt = dl_next h chunk;
          prv = dl_prev h chunk;
          h = h\<lparr>mem_used := mem_used h - heap_chunk_size h chunk\<rparr>
      in bind_result (merge_next nxt h) (merge_prev prv chunk))"

text \<open>\<open>kcalloc\<close> and \<open>krealloc\<close> also write the data; the byte memory is passed along.\<close>

definition kcalloc :: "u64 \<Rightarrow> u64 \<Rightarrow> mem \<Rightarrow> heap \<Rightarrow> (ptr \<times> mem \<times> heap) result" where
  "kcalloc nmemb sz m h =
     (let alloc_size = nmemb * sz
      in bind_result (kmalloc alloc_size h)
           (\<lambda>(new, h). if new \<noteq> NULL then Inr (new, snd (memset m new 0 alloc_size), h)
                       else Inr (NULL, m, h)))"

definition krealloc :: "ptr \<Rightarrow> u64 \<Rightarrow> mem \<Rightarrow> heap \<Rightarrow> (ptr \<times> mem \<times> heap) result" where
  "krealloc p sz m h =
     (if sz = 0 then bind_result (kfree p h) (\<lambda>h. Inr (NULL, m, h))
      else if p = NULL then bind_result (kmalloc sz h) (\<lambda>(new, h). Inr (new, m, h))
      else
        let chunk = p - HEADER_SIZE; old_size = heap_chunk_size h chunk
        in if sz \<le> old_size then Inr (p, m, h)
           else bind_result (kmalloc sz h)
             (\<lambda>(new_ptr, h).
                if new_ptr \<noteq> NULL
                then let m = snd (memcpy m new_ptr p old_size)
                     in bind_result (kfree p h) (\<lambda>h. Inr (new_ptr, m, h))
                else Inr (new_ptr, m, h)))"

definition kgetused :: "heap \<Rightarrow> u64" where "kgetused h = mem_used h"
definition kgetfree :: "heap \<Rightarrow> u64" where "kgetfree h = mem_free h"

definition heap_init :: "u64 \<Rightarrow> u64 \<Rightarrow> heap \<Rightarrow> heap result" where
  "heap_init addr sz h = mrvn_heap_init addr sz h"

definition malloc :: "u64 \<Rightarrow> heap \<Rightarrow> (ptr \<times> heap) result" where
  "malloc sz h = kmalloc sz h"
definition free :: "ptr \<Rightarrow> heap \<Rightarrow> heap result" where
  "free p h = kfree p h"
definition calloc :: "u64 \<Rightarrow> u64 \<Rightarrow> mem \<Rightarrow> heap \<Rightarrow> (ptr \<times> mem \<times> heap) result" where
  "calloc nmemb sz m h = kcalloc nmemb sz m h"
definition realloc :: "ptr \<Rightarrow> u64 \<Rightarrow> mem \<Rightarrow> heap \<Rightarrow> (ptr \<times> mem \<times> heap) result" where
  "realloc p sz m h = krealloc p sz m h"

subsection \<open>Circular lists as sequences\<close>

definition dlinked :: "heap \<Rightarrow> ptr \<Rightarrow> ptr \<Rightarrow> bool" where
  "dlinked h a b \<longleftrightarrow> dl_next h a = b \<and> dl_prev h b = a"

definition circle :: "heap \<Rightarrow> ptr list \<Rightarrow> bool" where
  "circle h xs \<longleftrightarrow> distinct xs \<and> (xs = [] \<or> successively (dlinked h) (xs @ [hd xs]))"

lemma circle_Nil [simp]: "circle h []"
  by (simp add: circle_def)

lemma circle_Cons: "circle h (x # xs) \<longleftrightarrow> distinct (x # xs) \<and> successively (dlinked h) (x # xs @ [x])"
  by (simp add: circle_def)

lemma circle_rotate: "circle h (as @ d # bs) \<longleftrightarrow> circle h (d # bs @ as)"
proof (cases as)
  case Nil
  then show ?thesis by simp
next
  case (Cons a as')
  then show ?thesis
    by (auto simp: circle_Cons successively_append_iff successively_Cons hd_append)
qed

text \<open>Links that agree at the members keep a circle.\<close>

definition same_links :: "ptr set \<Rightarrow> heap \<Rightarrow> heap \<Rightarrow> bool" where
  "same_links X h h' \<longleftrightarrow> (\<forall>x\<in>X. dl_next h' x = dl_next h x \<and> dl_prev h' x = dl_prev h x)"

lemma same_links_refl [simp]: "same_links X h h"
  and same_links_sym: "same_links X h h' \<Longrightarrow> same_links X h' h"
  and same_links_trans: "same_links X h h' \<Longrightarrow> same_links X h' h'' \<Longrightarrow> same_links X h h''"
  and same_links_mono: "same_links X h h' \<Longrightarrow> Y \<subseteq> X \<Longrightarrow> same_links Y h h'"
  by (auto simp: same_links_def)

lemma circle_cong:
  assumes "same_links (set xs) h h'" and "circle h xs" shows "circle h' xs"
proof (cases xs)
  case Nil
  then show ?thesis by simp
next
  case (Cons x ys)
  have "successively (dlinked h') (x # ys @ [x])"
    by (rule successively_mono [of "dlinked h"])
       (use assms Cons in \<open>auto simp: circle_Cons same_links_def dlinked_def\<close>)
  then show ?thesis using assms(2) Cons by (simp add: circle_Cons)
qed

lemma circle_next: "circle h (d # xs) \<Longrightarrow> dl_next h d = hd (xs @ [d])"
  by (cases xs) (auto simp: circle_Cons dlinked_def)

lemma circle_prev: "circle h (d # xs) \<Longrightarrow> dl_prev h d = last (d # xs)"
  by (cases xs rule: rev_cases) (auto simp: circle_Cons dlinked_def successively_append_iff successively_Cons)

lemma circle_single: "circle h [d] \<longleftrightarrow> dl_next h d = d \<and> dl_prev h d = d"
  by (auto simp: circle_Cons dlinked_def)

lemma circle_two: "a \<noteq> b \<Longrightarrow> circle h [a, b] \<longleftrightarrow> dl_next h a = b \<and> dl_prev h b = a \<and> dl_next h b = a \<and> dl_prev h a = b"
  by (auto simp: circle_Cons dlinked_def)

text \<open>What each operation leaves of the links, and the rest of the state.\<close>

definition dl_only :: "heap \<Rightarrow> heap \<Rightarrow> bool" where
  "dl_only h h' \<longleftrightarrow> (\<exists>n p. h' = h\<lparr>dl_next := n, dl_prev := p\<rparr>)"

lemma dl_only_ops [simp]:
  "dl_only h (dlist_init d h)" "dl_only h (dlist_insert_after a b h)"
  "dl_only h (dlist_insert_before a b h)" "dl_only h (dlist_remove d h)"
  by (auto simp: dl_only_def dlist_init_def dlist_insert_after_def dlist_insert_before_def dlist_remove_def
      Let_def heap_sets intro: exI)

lemma dl_only_fields:
  "dl_only h h' \<Longrightarrow> ch_used h' = ch_used h" "dl_only h h' \<Longrightarrow> free_chunk h' = free_chunk h"
  "dl_only h h' \<Longrightarrow> mem_free h' = mem_free h" "dl_only h h' \<Longrightarrow> mem_used h' = mem_used h"
  "dl_only h h' \<Longrightarrow> mem_meta h' = mem_meta h"
  by (auto simp: dl_only_def)

lemmas dl_fields [simp] = dl_only_ops [THEN dl_only_fields(1)] dl_only_ops [THEN dl_only_fields(2)]
  dl_only_ops [THEN dl_only_fields(3)] dl_only_ops [THEN dl_only_fields(4)]
  dl_only_ops [THEN dl_only_fields(5)]

lemma dlist_init_ok: "circle (dlist_init d h) [d]" "d \<notin> X \<Longrightarrow> same_links X h (dlist_init d h)"
  by (auto simp: circle_single dlist_init_def same_links_def heap_sets)

lemma remove_links: "circle h (d # xs) \<Longrightarrow> same_links (- set (d # xs)) h (dlist_remove d h)"
  using circle_next [of h d xs] circle_prev [of h d xs] hd_in_set [of "xs @ [d]"] last_in_set [of "d # xs"]
  by (auto simp: same_links_def dlist_remove_def Let_def heap_sets)

lemma remove_single: "circle (dlist_remove d h) [d]"
  by (simp add: circle_single dlist_remove_def Let_def heap_sets)

lemma remove_circle:
  assumes "circle h (d # xs)" shows "circle (dlist_remove d h) xs"
proof -
  consider "xs = []" | x where "xs = [x]" | x y ys where "xs = x # ys @ [y]"
    by (metis append_butlast_last_id list.exhaust)
  then show ?thesis
  proof cases
    case 1
    then show ?thesis by simp
  next
    case (2 x)
    with assms show ?thesis
      by (auto simp: circle_Cons dlinked_def dlist_remove_def Let_def heap_sets)
  next
    case (3 x y ys)
    have l: "dl_next h d = x" "dl_prev h d = y" "d \<noteq> x" "d \<noteq> y" "x \<noteq> y" "d \<notin> set ys" "x \<notin> set ys" "y \<notin> set ys"
      "successively (dlinked h) (x # ys @ [y])" "distinct ys" "dl_prev h x = d" "dl_next h y = d"
      using assms 3 circle_next [OF assms] circle_prev [OF assms]
        successively_append_iff [of "dlinked h" "[d]" "(x # ys @ [y]) @ [d]"]
        successively_append_iff [of "dlinked h" "x # ys @ [y]" "[d]"]
      by (auto simp: circle_Cons dlinked_def)
    have "successively (dlinked (dlist_remove d h)) (x # ys @ [y])"
      by (rule successively_mono [OF l(9)])
         (use l in \<open>auto simp: dlinked_def dlist_remove_def Let_def heap_sets\<close>)
    moreover have "dlinked (dlist_remove d h) y x"
      using l by (simp add: dlinked_def dlist_remove_def Let_def heap_sets)
    ultimately have "successively (dlinked (dlist_remove d h)) ((x # ys @ [y]) @ [x])"
      unfolding successively_append_iff by simp
    then show ?thesis using 3 l by (auto simp: circle_Cons)
  qed
qed

lemma successively_inner:
  "successively P xs \<Longrightarrow> (\<And>x y. x \<in> set (butlast xs) \<Longrightarrow> y \<in> set (tl xs) \<Longrightarrow> P x y \<Longrightarrow> Q x y) \<Longrightarrow>
     successively Q xs"
proof (induction xs rule: induct_list012)
  case (3 x y zs)
  then show ?case by (cases zs) (auto simp: successively_Cons)
qed simp_all

lemma insert_before_ok:
  assumes "circle h (a # xs)" and "circle h [d]" and "d \<notin> set (a # xs)"
  shows "circle (dlist_insert_before a d h) (d # a # xs)"
    and "same_links (- insert d (set (a # xs))) h (dlist_insert_before a d h)"
proof -
  let ?h = "dlist_insert_before a d h"
  have d: "dl_next h d = d" "dl_prev h d = d" using assms(2) by (simp_all add: circle_single)
  show "same_links (- insert d (set (a # xs))) h ?h"
    using circle_prev [OF assms(1)] last_in_set [of "a # xs"] d
    by (auto simp: same_links_def dlist_insert_before_def Let_def heap_sets)
  show "circle ?h (d # a # xs)"
  proof (cases xs rule: rev_cases)
    case Nil
    with assms d show ?thesis
      by (auto simp: circle_Cons dlinked_def dlist_insert_before_def Let_def heap_sets)
  next
    case (snoc ys y)
    have y: "dl_prev h a = y" "dl_next h y = a" "y \<noteq> a" "d \<noteq> a" "d \<noteq> y"
      using assms snoc circle_prev [OF assms(1)]
        successively_append_iff [of "dlinked h" "a # ys @ [y]" "[a]"]
      by (auto simp: circle_Cons dlinked_def)
    have c: "successively (dlinked h) (a # ys @ [y])" "distinct (a # ys @ [y])" "d \<notin> set ys"
      using assms snoc successively_append_iff [of "dlinked h" "a # ys @ [y]" "[a]"]
      by (auto simp: circle_Cons)
    have "successively (dlinked ?h) (a # ys @ [y])"
      by (rule successively_inner [OF c(1)])
         (use y c in \<open>auto simp: dlinked_def dlist_insert_before_def Let_def heap_sets d\<close>)
    moreover have "dlinked ?h d a" "dlinked ?h y d"
      using y by (simp_all add: dlinked_def dlist_insert_before_def Let_def heap_sets d)
    ultimately have "successively (dlinked ?h) ([d] @ (a # ys @ [y]) @ [d])"
      unfolding successively_append_iff by simp
    then show ?thesis using snoc c y by (simp add: circle_Cons)
  qed
qed

text \<open>Inserting \<open>d\<close> behind \<open>a\<close> is inserting it before the successor of \<open>a\<close>.\<close>

lemma insert_after_before:
  assumes "circle h (a # xs)" and "circle h [d]" and "d \<notin> set (a # xs)"
  shows "dlist_insert_after a d h = dlist_insert_before (hd (xs @ [a])) d h"
proof -
  let ?b = "hd (xs @ [a])"
  have "dl_next h a = ?b" by (rule circle_next [OF assms(1)])
  moreover have "dl_prev h ?b = a"
    using assms(1) by (cases xs) (auto simp: circle_Cons dlinked_def)
  moreover have "dl_next h d = d" "dl_prev h d = d" using assms(2) by (simp_all add: circle_single)
  moreover have "?b \<noteq> d" using assms(3) hd_in_set [of "xs @ [a]"] by auto
  ultimately show ?thesis
    using assms(3) by (simp add: dlist_insert_after_def dlist_insert_before_def Let_def heap_sets fun_upd_twist)
qed

lemma insert_after_ok:
  assumes "circle h (a # xs)" and "circle h [d]" and "d \<notin> set (a # xs)"
  shows "circle (dlist_insert_after a d h) (a # d # xs)"
    and "same_links (- insert d (set (a # xs))) h (dlist_insert_after a d h)"
proof -
  have "circle (dlist_insert_after a d h) (a # d # xs) \<and>
      same_links (- insert d (set (a # xs))) h (dlist_insert_after a d h)"
  proof (cases xs)
    case Nil
    then show ?thesis
      using insert_after_before [OF assms] insert_before_ok [OF assms] circle_rotate [of _ "[a]" d "[]"]
      by simp
  next
    case (Cons x ys)
    have c: "circle h (x # ys @ [a])"
      using assms(1) Cons circle_rotate [of h "[a]" x ys] by simp
    have n: "d \<notin> set (x # ys @ [a])" using assms(3) Cons by simp
    have "circle (dlist_insert_before x d h) ([a] @ d # x # ys)"
      unfolding circle_rotate using insert_before_ok(1) [OF c assms(2) n] by simp
    moreover have "insert d (set (x # ys @ [a])) = insert d (set (a # xs))" using Cons by auto
    ultimately show ?thesis
      using insert_after_before [OF assms] insert_before_ok(2) [OF c assms(2) n] Cons by simp
  qed
  then show "circle (dlist_insert_after a d h) (a # d # xs)"
    and "same_links (- insert d (set (a # xs))) h (dlist_insert_after a d h)" by simp_all
qed

subsection \<open>Free lists\<close>

definition free_list :: "heap \<Rightarrow> nat \<Rightarrow> ptr list \<Rightarrow> bool" where
  "free_list h n xs \<longleftrightarrow> circle h (map (\<lambda>c. free_of c) xs) \<and>
     free_chunk h n = (if xs = [] then NULL else hd xs) \<and> (\<forall>x\<in>set xs. x \<noteq> NULL \<and> free_of x \<noteq> NULL)"

text \<open>What the macros leave alone: all but the links at \<open>X\<close> and the head of list \<open>n\<close>.\<close>

definition list_op :: "nat \<Rightarrow> ptr set \<Rightarrow> heap \<Rightarrow> heap \<Rightarrow> bool" where
  "list_op n X h h' \<longleftrightarrow> same_links (- X) h h' \<and> (\<forall>k. k \<noteq> n \<longrightarrow> free_chunk h' k = free_chunk h k) \<and>
     ch_used h' = ch_used h \<and> mem_free h' = mem_free h \<and> mem_used h' = mem_used h \<and> mem_meta h' = mem_meta h"

lemma list_opD:
  assumes "list_op n X h h'"
  shows "same_links (- X) h h'" and "k \<noteq> n \<Longrightarrow> free_chunk h' k = free_chunk h k"
    and "ch_used h' = ch_used h" and "mem_free h' = mem_free h" and "mem_used h' = mem_used h"
    and "mem_meta h' = mem_meta h" and "x \<notin> X \<Longrightarrow> dl_next h' x = dl_next h x"
  using assms by (auto simp: list_op_def same_links_def)

lemma list_op_mono: "list_op n X h h' \<Longrightarrow> X \<subseteq> Y \<Longrightarrow> list_op n Y h h'"
  by (auto simp: list_op_def same_links_def)

lemma same_links_set_free_chunk [simp]: "same_links X h (set_free_chunk n v h') \<longleftrightarrow> same_links X h h'"
  "circle (set_free_chunk n v h) xs \<longleftrightarrow> circle h xs"
  by (auto simp: same_links_def set_free_chunk_def circle_def dlinked_def)

lemma list_opI:
  assumes "same_links (- X) h h'" and "dl_only h h'"
  shows "list_op n X h (set_free_chunk n v h')"
  using assms by (auto simp: list_op_def set_free_chunk_def dl_only_fields same_links_def)

lemma free_of_inj [simp]: "inj_on (\<lambda>c :: ptr. free_of c) X"
  by (simp add: inj_on_def)

lemma in_free_of_image [simp]: "free_of x \<in> (\<lambda>c. free_of c) ` X \<longleftrightarrow> x \<in> X"
  by auto

lemma push_list:
  assumes "free_list h n xs" and "circle h [free_of v]" and "v \<notin> set xs" and "v \<noteq> NULL" and "free_of v \<noteq> NULL"
  shows "free_list (DLIST_PUSH n v h) n (v # xs)"
    and "list_op n ((\<lambda>c. free_of c) ` set (v # xs)) h (DLIST_PUSH n v h)"
proof -
  have "free_list (DLIST_PUSH n v h) n (v # xs) \<and>
      list_op n ((\<lambda>c. free_of c) ` set (v # xs)) h (DLIST_PUSH n v h)"
  proof (cases xs)
    case Nil
    then have p: "DLIST_PUSH n v h = set_free_chunk n v h"
      using assms(1) by (simp add: DLIST_PUSH_def free_list_def dlist_push_def)
    show ?thesis
      unfolding p using Nil assms
      by (auto simp: free_list_def list_op_def set_free_chunk_def circle_single same_links_def)
  next
    case (Cons x ys)
    have x: "free_chunk h n = x" "x \<noteq> NULL" "free_of x \<noteq> NULL" "circle h (free_of x # map (\<lambda>c. free_of c) ys)"
      using assms(1) Cons by (auto simp: free_list_def)
    have n: "free_of v \<notin> set (free_of x # map (\<lambda>c. free_of c) ys)"
      using assms(3) Cons by auto
    have p: "DLIST_PUSH n v h = set_free_chunk n v (dlist_insert_before (free_of x) (free_of v) h)"
      using x by (simp add: DLIST_PUSH_def dlist_push_def)
    note i = insert_before_ok [OF x(4) assms(2) n]
    have "list_op n ((\<lambda>c. free_of c) ` set (v # xs)) h (DLIST_PUSH n v h)"
      unfolding p by (rule list_opI) (use i(2) Cons in simp_all)
    moreover have "free_list (DLIST_PUSH n v h) n (v # xs)"
      unfolding p using i(1) Cons assms by (simp add: free_list_def set_free_chunk_def)
        (auto simp: circle_def dlinked_def)
    ultimately show ?thesis by blast
  qed
  then show "free_list (DLIST_PUSH n v h) n (v # xs)"
    and "list_op n ((\<lambda>c. free_of c) ` set (v # xs)) h (DLIST_PUSH n v h)" by simp_all
qed

lemma pop_list:
  assumes "free_list h n (c # xs)"
  shows "\<exists>h'. DLIST_POP n h = (c, h') \<and> free_list h' n xs \<and> circle h' [free_of c] \<and>
    list_op n ((\<lambda>c. free_of c) ` set (c # xs)) h h'"
proof -
  let ?h = "dlist_remove (free_of c) h"
  let ?v = "if xs = [] then NULL else hd xs"
  have c: "free_chunk h n = c" "circle h (free_of c # map (\<lambda>c. free_of c) xs)"
    "\<forall>x\<in>set xs. x \<noteq> NULL \<and> free_of x \<noteq> NULL"
    using assms by (auto simp: free_list_def)
  have nx: "dl_next h (free_of c) = (if xs = [] then free_of c else free_of (hd xs))"
    using circle_next [OF c(2)] by (cases xs) auto
  have ne: "c \<notin> set xs" using c(2) by (auto simp: circle_Cons)
  have p: "DLIST_POP n h = (c, set_free_chunk n ?v ?h)"
    using nx ne c(3) by (cases xs) (auto simp: DLIST_POP_def dlist_pop_def c(1) Let_def)
  have "list_op n ((\<lambda>c. free_of c) ` set (c # xs)) h (set_free_chunk n ?v ?h)"
    by (rule list_opI) (use remove_links [OF c(2)] in simp_all)
  moreover have "free_list (set_free_chunk n ?v ?h) n xs"
    using remove_circle [OF c(2)] c(3) by (simp add: free_list_def set_free_chunk_def)
      (auto simp: circle_def dlinked_def)
  ultimately show ?thesis using p remove_single [of "free_of c" h] by simp
qed

lemma remove_list:
  assumes "free_list h n (as @ c # bs)"
  shows "free_list (DLIST_REMOVE_FROM n c h) n (as @ bs)" and "circle (DLIST_REMOVE_FROM n c h) [free_of c]"
    and "list_op n ((\<lambda>c. free_of c) ` set (as @ c # bs)) h (DLIST_REMOVE_FROM n c h)"
proof -
  have "free_list (DLIST_REMOVE_FROM n c h) n (as @ bs) \<and> circle (DLIST_REMOVE_FROM n c h) [free_of c] \<and>
    list_op n ((\<lambda>c. free_of c) ` set (as @ c # bs)) h (DLIST_REMOVE_FROM n c h)"
  proof (cases as)
    case Nil
    have c: "free_chunk h n = c" using assms Nil by (simp add: free_list_def)
    have "DLIST_REMOVE_FROM n c h = snd (DLIST_POP n h)"
      by (simp add: DLIST_REMOVE_FROM_def DLIST_POP_def dlist_remove_from_def c dlist_pop_def Let_def)
    then show ?thesis using pop_list [of h n c bs] assms Nil by auto
  next
    case (Cons a as')
    let ?h = "dlist_remove (free_of c) h"
    have a: "free_chunk h n = a" "a \<noteq> c" "free_of a \<noteq> NULL"
      using assms Cons by (auto simp: free_list_def circle_Cons)
    have p: "DLIST_REMOVE_FROM n c h = set_free_chunk n a ?h"
      using a by (simp add: DLIST_REMOVE_FROM_def dlist_remove_from_def)
    have ci: "circle h (free_of c # map (\<lambda>c. free_of c) (bs @ as))"
      using assms circle_rotate [of h "map (\<lambda>c. free_of c) as" "free_of c"] by (simp add: free_list_def)
    have "circle ?h (map (\<lambda>c. free_of c) (bs @ as))" by (rule remove_circle [OF ci])
    then have "circle ?h (map (\<lambda>c. free_of c) (as @ bs))"
      using circle_rotate [of ?h "map (\<lambda>c. free_of c) bs" "free_of a"] Cons by simp
    then have "free_list (set_free_chunk n a ?h) n (as @ bs)"
      using assms Cons by (simp add: free_list_def set_free_chunk_def) (auto simp: circle_def dlinked_def)
    moreover have "set (free_of c # map (\<lambda>c. free_of c) (bs @ as)) = (\<lambda>c. free_of c) ` set (as @ c # bs)"
      by auto
    then have "list_op n ((\<lambda>c. free_of c) ` set (as @ c # bs)) h (set_free_chunk n a ?h)"
      using remove_links [OF ci] by (intro list_opI) simp_all
    ultimately show ?thesis unfolding p using remove_single by simp
  qed
  then show "free_list (DLIST_REMOVE_FROM n c h) n (as @ bs)" and "circle (DLIST_REMOVE_FROM n c h) [free_of c]"
    and "list_op n ((\<lambda>c. free_of c) ` set (as @ c # bs)) h (DLIST_REMOVE_FROM n c h)" by simp_all
qed

lemma free_list_cong:
  assumes "free_list h n xs" and "same_links ((\<lambda>c. free_of c) ` set xs) h h'" and "free_chunk h' n = free_chunk h n"
  shows "free_list h' n xs"
  using assms circle_cong [of "map (\<lambda>c. free_of c) xs" h h'] by (simp add: free_list_def)

subsection \<open>Slots\<close>

lemma slot_loop_bounds:
  "0 \<le> n \<Longrightarrow> (sz = 0 \<and> slot_loop sz n = n) \<or>
     (0 < sz \<and> (\<exists>k. slot_loop sz n = n + int (Suc k) \<and> 2 ^ k \<le> unat sz \<and> unat sz < 2 ^ Suc k))"
proof (induction sz n rule: slot_loop.induct)
  case (1 sz n)
  show ?case
  proof (cases "sz = 0")
    case True
    then show ?thesis by (simp add: slot_loop.simps [of 0])
  next
    case False
    then have pos: "sz > 0" by (simp add: word_gt_0)
    have u: "unat (sz div 2) = unat sz div 2" by (simp add: unat_div)
    have s: "slot_loop sz n = slot_loop (sz div 2) (n + 1)" using pos by (simp add: slot_loop.simps [of sz n])
    from 1(1) [OF pos] 1(2) consider "sz div 2 = 0" "slot_loop (sz div 2) (n + 1) = n + 1"
      | k where "slot_loop (sz div 2) (n + 1) = n + 1 + int (Suc k)" "2 ^ k \<le> unat (sz div 2)"
          "unat (sz div 2) < 2 ^ Suc k"
      by fastforce
    then show ?thesis
    proof cases
      case 1
      then have "unat sz div 2 = 0" using u by simp
      moreover have "unat sz \<noteq> 0" using False by (simp add: unat_eq_0)
      ultimately have "unat sz = 1" by simp
      then show ?thesis using 1 s pos by (intro disjI2 conjI exI [of _ 0]) auto
    next
      case (2 k)
      then show ?thesis using s u pos by (intro disjI2 conjI exI [of _ "Suc k"]) auto
    qed
  qed
qed

lemma slot_bounds:
  assumes "0 < sz"
  shows "\<exists>k. heap_chunk_slot sz = int k \<and> 2 ^ k \<le> unat sz \<and> unat sz < 2 ^ Suc k"
proof -
  have e: "heap_chunk_slot sz = slot_loop (sz div 2) 0"
    using assms by (simp add: heap_chunk_slot_def slot_loop.simps [of sz])
  have u: "unat (sz div 2) = unat sz div 2" by (simp add: unat_div)
  have nz: "unat sz \<noteq> 0" using assms by (simp add: unat_eq_0 word_gt_0)
  from slot_loop_bounds [where n = 0 and sz = "sz div 2", OF order_refl] show ?thesis
  proof (elim disjE conjE exE)
    assume "sz div 2 = 0" "slot_loop (sz div 2) 0 = 0"
    moreover from this have "unat sz div 2 = 0" using u by simp
    ultimately show ?thesis using e nz by (intro exI [of _ 0]) auto
  next
    fix k
    assume "slot_loop (sz div 2) 0 = 0 + int (Suc k)" "2 ^ k \<le> unat (sz div 2)" "unat (sz div 2) < 2 ^ Suc k"
    then show ?thesis using e u by (intro exI [of _ "Suc k"]) auto
  qed
qed

lemma slot_index_small:
  assumes "0 < sz" and "unat sz < 2 ^ 32"
  shows "\<exists>n<32. heap_chunk_slot sz = int n \<and> slot_index (heap_chunk_slot sz) = Inr n"
proof -
  obtain k where k: "heap_chunk_slot sz = int k" "2 ^ k \<le> unat sz" using slot_bounds [OF assms(1)] by blast
  have "(2::nat) ^ k < 2 ^ 32" by (rule le_less_trans [OF k(2) assms(2)])
  then have "k < 32" by (rule power_less_imp_less_exp [rotated]) simp
  then show ?thesis using k by (simp add: slot_index_def NUM_SIZES_def)
qed

text \<open>A chunk of a higher slot is at least as large as the request that asked for it.\<close>

lemma slot_covers:
  assumes "0 < sz" and "heap_chunk_slot (sz - 1) + 1 \<le> heap_chunk_slot sz2" and "1 < sz" and "0 < sz2"
  shows "unat sz \<le> unat sz2"
proof -
  have p: "0 < sz - 1" using assms(3) by (metis diff_eq_eq add.left_neutral word_gt_0 less_irrefl)
  obtain k where k: "heap_chunk_slot (sz - 1) = int k" "unat (sz - 1) < 2 ^ Suc k"
    using slot_bounds [OF p] by blast
  obtain l where l: "heap_chunk_slot sz2 = int l" "2 ^ l \<le> unat sz2" using slot_bounds [OF assms(4)] by blast
  have "Suc k \<le> l" using assms(2) k l by simp
  then have "(2::nat) ^ Suc k \<le> 2 ^ l" by (rule power_increasing) simp
  moreover have "unat (sz - 1) = unat sz - 1" using assms(1) by (simp add: unat_minus_one word_gt_0)
  ultimately show ?thesis using k l by linarith
qed

subsection \<open>The free lists hold the free chunks\<close>

definition slot_list :: "heap \<Rightarrow> ptr set \<Rightarrow> nat \<Rightarrow> ptr list \<Rightarrow> bool" where
  "slot_list h A n xs \<longleftrightarrow> free_list h n xs \<and>
     set xs = {c \<in> A. heap_chunk_slot (heap_chunk_size h c) = int n}"

definition slots_ok :: "heap \<Rightarrow> ptr set \<Rightarrow> bool" where
  "slots_ok h A \<longleftrightarrow> (\<forall>n<32. \<exists>xs. slot_list h A n xs) \<and>
     (\<forall>c\<in>A. \<exists>n<32. heap_chunk_slot (heap_chunk_size h c) = int n)"

text \<open>No chunk address is the address of a \<open>free\<close> member.\<close>

definition apart :: "ptr set \<Rightarrow> bool" where
  "apart K \<longleftrightarrow> (\<forall>a\<in>K. \<forall>b\<in>K. a \<noteq> free_of b)"

lemma size_cong: "dl_next h' c = dl_next h c \<Longrightarrow> heap_chunk_size h' c = heap_chunk_size h c"
  by (simp add: heap_chunk_size_def)

lemma slots_cong:
  assumes "slots_ok h A" and "same_links ((\<lambda>c. free_of c) ` A) h h'" and "free_chunk h' = free_chunk h"
    and "\<forall>a\<in>A. dl_next h' a = dl_next h a"
  shows "slots_ok h' A"
proof -
  have s: "heap_chunk_size h' c = heap_chunk_size h c" if "c \<in> A" for c
    using assms(4) that size_cong by blast
  have "\<exists>xs. slot_list h' A n xs" if n: "n < 32" for n
  proof -
    obtain xs where xs: "slot_list h A n xs" using assms(1) n unfolding slots_ok_def by blast
    then have "set xs \<subseteq> A" by (auto simp: slot_list_def)
    then have "free_list h' n xs"
      using xs assms(2,3) free_list_cong [of h n xs h'] same_links_mono [OF assms(2)] by (simp add: slot_list_def image_mono)
    then show ?thesis using xs s unfolding slot_list_def by (intro exI [of _ xs]) auto
  qed
  then show ?thesis using assms(1) s unfolding slots_ok_def by auto
qed

text \<open>An operation on list \<open>n\<close> that keeps the other free chunks where they are.\<close>

lemma slots_update:
  assumes "slots_ok h A" and "list_op n ((\<lambda>c. free_of c) ` X) h h'" and "n < 32"
    and "X = {c \<in> A \<union> B. heap_chunk_slot (heap_chunk_size h c) = int n}"
    and "apart K" and "A \<subseteq> K" and "B \<subseteq> K"
    and "A - X \<subseteq> A'" and "A' \<subseteq> A \<union> X"
    and "free_list h' n ys" and "set ys = A' \<inter> X"
  shows "slots_ok h' A'"
proof -
  have nx: "dl_next h' c = dl_next h c" if "c \<in> K" for c
  proof (rule list_opD(7) [OF assms(2)])
    show "c \<notin> (\<lambda>c. free_of c) ` X" using that assms(4-7) by (auto simp: apart_def)
  qed
  then have s: "heap_chunk_size h' c = heap_chunk_size h c" if "c \<in> K" for c
    using that size_cong by blast
  have K: "A' \<subseteq> K" "X \<subseteq> K" using assms(4,6,7,9) by auto
  have X: "c \<in> X \<longleftrightarrow> heap_chunk_slot (heap_chunk_size h c) = int n" if "c \<in> A \<union> B" for c
    using that assms(4) by auto
  have AB: "A' \<subseteq> A \<union> B" using assms(4,9) by auto
  have s': "heap_chunk_size h' c = heap_chunk_size h c" if "c \<in> A'" for c
    using s K that by blast
  have X': "c \<in> X \<longleftrightarrow> heap_chunk_slot (heap_chunk_size h c) = int n" if "c \<in> A'" for c
    using X AB that by blast
  have "\<exists>xs. slot_list h' A' k xs" if k: "k < 32" for k
  proof (cases "k = n")
    case True
    have "set ys = {c \<in> A'. heap_chunk_slot (heap_chunk_size h' c) = int n}"
      using assms(11) X' s' by auto
    then show ?thesis using True assms(10) by (auto simp: slot_list_def)
  next
    case False
    obtain xs where xs: "slot_list h A k xs" using assms(1) k unfolding slots_ok_def by blast
    then have sx: "set xs = {c \<in> A. heap_chunk_slot (heap_chunk_size h c) = int k}" by (simp add: slot_list_def)
    have disj: "set xs \<inter> X = {}" using sx X False by auto
    have "same_links ((\<lambda>c. free_of c) ` set xs) h h'"
      by (rule same_links_mono [OF list_opD(1) [OF assms(2)]]) (use disj in auto)
    then have "free_list h' k xs"
      using xs free_list_cong list_opD(2) [OF assms(2) False] by (auto simp: slot_list_def)
    moreover have "set xs = {c \<in> A'. heap_chunk_slot (heap_chunk_size h' c) = int k}"
    proof -
      have "c \<in> A \<longleftrightarrow> c \<in> A'" if "heap_chunk_slot (heap_chunk_size h c) = int k" "c \<in> A \<union> B" for c
        using that X [of c] False assms(8,9) by auto
      then show ?thesis using sx s' AB by auto
    qed
    ultimately show ?thesis by (auto simp: slot_list_def)
  qed
  moreover have "\<exists>k<32. heap_chunk_slot (heap_chunk_size h' c) = int k" if "c \<in> A'" for c
    using that s' [OF that] X' [OF that] assms(1,3,9) by (cases "c \<in> X") (auto simp: slots_ok_def subset_iff)
  ultimately show ?thesis by (simp add: slots_ok_def)
qed


lemma slot_listD:
  assumes "slots_ok h A" and "c \<in> A"
  shows "\<exists>n<32. \<exists>as bs. slot_list h A n (as @ c # bs) \<and> slot_index (heap_chunk_slot (heap_chunk_size h c)) = Inr n"
proof -
  obtain n where n: "n < 32" "heap_chunk_slot (heap_chunk_size h c) = int n"
    using assms by (auto simp: slots_ok_def)
  obtain xs where xs: "slot_list h A n xs" using assms(1) n(1) unfolding slots_ok_def by blast
  then have "c \<in> set xs" using assms(2) n by (simp add: slot_list_def)
  then obtain as bs where "xs = as @ c # bs" by (auto simp: in_set_conv_decomp)
  then show ?thesis using xs n by (auto simp: slot_index_def NUM_SIZES_def)
qed

lemma distinct_free_list: "free_list h n xs \<Longrightarrow> distinct xs"
  by (auto simp: free_list_def circle_def distinct_map)

text \<open>The frame of the three operations: links of free members, list heads, and the counters.\<close>

definition free_frame :: "ptr set \<Rightarrow> heap \<Rightarrow> heap \<Rightarrow> bool" where
  "free_frame K h h' \<longleftrightarrow> same_links (- (\<lambda>c. free_of c) ` K) h h' \<and> ch_used h' = ch_used h"

lemma free_frame_list_op:
  assumes "list_op n ((\<lambda>c. free_of c) ` X) h h'" and "X \<subseteq> K" shows "free_frame K h h'"
  unfolding free_frame_def
proof
  show "same_links (- (\<lambda>c. free_of c) ` K) h h'"
    by (rule same_links_mono [OF list_opD(1) [OF assms(1)]]) (use assms(2) in blast)
qed (rule list_opD(3) [OF assms(1)])

lemma free_frame_mem [simp]: "free_frame K h (h'\<lparr>mem_free := x\<rparr>) \<longleftrightarrow> free_frame K h h'"
  "slots_ok (h\<lparr>mem_free := x\<rparr>) A \<longleftrightarrow> slots_ok h A" "circle (h\<lparr>mem_free := x\<rparr>) xs \<longleftrightarrow> circle h xs"
  by (auto simp: free_frame_def same_links_def slots_ok_def slot_list_def free_list_def circle_def dlinked_def
      heap_chunk_size_def)

lemma push_free_ok:
  assumes "slots_ok h A" and "circle h [free_of c]" and "c \<notin> A" and "apart K" and "insert c A \<subseteq> K"
    and "c \<noteq> NULL" and "free_of c \<noteq> NULL" and "0 < heap_chunk_size h c" and "unat (heap_chunk_size h c) < 2 ^ 32"
  shows "\<exists>n h'. slot_index (heap_chunk_slot (heap_chunk_size h c)) = Inr n \<and> DLIST_PUSH n c h = h' \<and>
    slots_ok h' (insert c A) \<and> free_frame K h h' \<and> mem_free h' = mem_free h \<and>
    mem_used h' = mem_used h \<and> mem_meta h' = mem_meta h"
proof -
  obtain n where n: "n < 32" "heap_chunk_slot (heap_chunk_size h c) = int n"
    "slot_index (heap_chunk_slot (heap_chunk_size h c)) = Inr n"
    using slot_index_small [OF assms(8,9)] by blast
  obtain xs where xs: "slot_list h A n xs" using assms(1) n(1) unfolding slots_ok_def by blast
  have sx: "set xs = {c \<in> A. heap_chunk_slot (heap_chunk_size h c) = int n}" using xs by (simp add: slot_list_def)
  have fl: "free_list h n xs" using xs by (simp add: slot_list_def)
  have nin: "c \<notin> set xs" using sx assms(3) by simp
  note p = push_list [OF fl assms(2) nin assms(6,7)]
  have "slots_ok (DLIST_PUSH n c h) (insert c A)"
    by (rule slots_update [OF assms(1) p(2) n(1) _ assms(4) _ _ _ _ p(1), where B = "{c}"])
       (use sx n assms(5) in auto)
  moreover have "free_frame K h (DLIST_PUSH n c h)"
    by (rule free_frame_list_op [OF p(2)]) (use sx assms(5) in auto)
  ultimately show ?thesis using n(3) list_opD(4-6) [OF p(2)] by auto
qed

lemma remove_free_ok:
  assumes "slots_ok h A" and "c \<in> A" and "apart K" and "A \<subseteq> K"
  shows "\<exists>n h'. slot_index (heap_chunk_slot (heap_chunk_size h c)) = Inr n \<and> DLIST_REMOVE_FROM n c h = h' \<and>
    slots_ok h' (A - {c}) \<and> circle h' [free_of c] \<and> free_frame K h h' \<and> mem_free h' = mem_free h \<and>
    mem_used h' = mem_used h \<and> mem_meta h' = mem_meta h"
proof -
  obtain n as bs where n: "n < 32" "slot_list h A n (as @ c # bs)"
    "slot_index (heap_chunk_slot (heap_chunk_size h c)) = Inr n"
    using slot_listD [OF assms(1,2)] by blast
  have fl: "free_list h n (as @ c # bs)" using n(2) by (simp add: slot_list_def)
  have sx: "set (as @ c # bs) = {c \<in> A. heap_chunk_slot (heap_chunk_size h c) = int n}"
    using n(2) by (simp only: slot_list_def)
  have d: "set (as @ bs) = set (as @ c # bs) - {c}" using distinct_free_list [OF fl] by auto
  note p = remove_list [OF fl]
  have "slots_ok (DLIST_REMOVE_FROM n c h) (A - {c})"
    by (rule slots_update [OF assms(1) p(3) n(1) _ assms(3) _ _ _ _ p(1), where B = "{}"])
       (use sx d assms(4) in auto)
  moreover have "free_frame K h (DLIST_REMOVE_FROM n c h)"
    by (rule free_frame_list_op [OF p(3)]) (use sx assms(4) in auto)
  ultimately show ?thesis using n(3) p(2) list_opD(4-6) [OF p(3)] by auto
qed

lemma pop_free_ok:
  assumes "slots_ok h A" and "n < 32" and "free_chunk h n \<noteq> NULL" and "apart K" and "A \<subseteq> K"
  shows "\<exists>c\<in>A. \<exists>h'. heap_chunk_slot (heap_chunk_size h c) = int n \<and> DLIST_POP n h = (c, h') \<and>
    slots_ok h' (A - {c}) \<and> circle h' [free_of c] \<and> free_frame K h h' \<and> mem_free h' = mem_free h \<and>
    mem_used h' = mem_used h \<and> mem_meta h' = mem_meta h"
proof -
  obtain xs where xs: "slot_list h A n xs" using assms(1,2) unfolding slots_ok_def by blast
  then obtain c ys where ys: "xs = c # ys" using assms(3) by (cases xs) (auto simp: slot_list_def free_list_def)
  have fl: "free_list h n (c # ys)" using xs ys by (simp add: slot_list_def)
  have sx: "set (c # ys) = {c \<in> A. heap_chunk_slot (heap_chunk_size h c) = int n}"
    using xs ys by (simp only: slot_list_def)
  have d: "c \<notin> set ys" using distinct_free_list [OF fl] by simp
  obtain h' where p: "DLIST_POP n h = (c, h')" "free_list h' n ys" "circle h' [free_of c]"
    "list_op n ((\<lambda>c. free_of c) ` set (c # ys)) h h'"
    using pop_list [OF fl] by blast
  have "slots_ok h' (A - {c})"
    by (rule slots_update [OF assms(1) p(4) assms(2) _ assms(4) _ _ _ _ p(2), where B = "{}"])
       (use sx d assms(5) in auto)
  moreover have "free_frame K h h'"
    by (rule free_frame_list_op [OF p(4)]) (use sx assms(5) in auto)
  moreover have "c \<in> A" "heap_chunk_slot (heap_chunk_size h c) = int n" using sx by auto
  ultimately show ?thesis
    using p(1,3) list_opD(4-6) [OF p(4)] by (intro bexI [of _ c] exI [of _ h']) simp_all
qed

subsection \<open>The invariant\<close>

text \<open>
  \<open>C\<close> lists all chunks in the order of their addresses, the sentinels \<open>head\<close> and \<open>tail\<close> first
  and last; \<open>A\<close> is the set of the free ones.  \<open>layout\<close> is what holds of them as addresses:
  room for a header and 16 bytes between neighbours, aligned addresses, sentinels in use, no two
  free neighbours.
\<close>

definition spaced :: "ptr list \<Rightarrow> bool" where
  "spaced C \<longleftrightarrow> sorted_wrt (\<lambda>a b. unat a + 40 \<le> unat b) C \<and>
     (\<forall>c\<in>set C. 0 < unat c \<and> 4 dvd unat c \<and> unat c + 40 \<le> 2 ^ 64)"

definition layout :: "ptr list \<Rightarrow> ptr set \<Rightarrow> bool" where
  "layout C A \<longleftrightarrow> 3 \<le> length C \<and> unat (hd (tl C)) = unat (hd C) + 40 \<and> spaced C \<and> A \<subseteq> set C \<and> hd C \<notin> A \<and> last C \<notin> A \<and>
     unat (last C) - unat (hd C) < 2 ^ 32 \<and> successively (\<lambda>a b. a \<notin> A \<or> b \<notin> A) C"

definition heap_ok :: "heap \<Rightarrow> ptr list \<Rightarrow> ptr set \<Rightarrow> bool" where
  "heap_ok h C A \<longleftrightarrow> layout C A \<and> circle h C \<and> slots_ok h A \<and>
     (\<forall>c\<in>set C. ch_used h c = 0 \<longleftrightarrow> c \<in> A)"

text \<open>The live blocks: address and size of the data of every used chunk between the sentinels.\<close>

fun blocks :: "ptr set \<Rightarrow> ptr list \<Rightarrow> (ptr \<times> nat) set" where
  "blocks A (c # d # cs) =
     (if c \<in> A then {} else {(free_of c, unat d - unat c - 24)}) \<union> blocks A (d # cs)"
| "blocks A _ = {}"

definition live :: "ptr list \<Rightarrow> ptr set \<Rightarrow> (ptr \<times> nat) set" where
  "live C A = blocks A (tl C)"

lemma blocks_append: "blocks A (as @ c # bs) = blocks A (as @ [c]) \<union> blocks A (c # bs)"
  by (induction A as rule: blocks.induct) (auto split: list.splits)

lemma blocks_cong: "(\<And>x. x \<in> set (butlast xs) \<Longrightarrow> x \<in> A \<longleftrightarrow> x \<in> A') \<Longrightarrow> blocks A xs = blocks A' xs"
  by (induction A xs rule: blocks.induct) auto

lemma HEADER_SIZE_24: "HEADER_SIZE = 24" by (rule HEADER_SIZE_def)

lemma unat_free_of: "unat c + 40 \<le> 2 ^ 64 \<Longrightarrow> unat (free_of c) = unat c + 24"
  by (simp add: HEADER_SIZE_def unat_word_ariths)

lemma spaced_append:
  "spaced (xs @ ys) \<longleftrightarrow> spaced xs \<and> spaced ys \<and> (\<forall>x\<in>set xs. \<forall>y\<in>set ys. unat x + 40 \<le> unat y)"
  by (auto simp: spaced_def sorted_wrt_append)

lemma spaced_Cons:
  "spaced (x # xs) \<longleftrightarrow> (0 < unat x \<and> 4 dvd unat x \<and> unat x + 40 \<le> 2 ^ 64) \<and> spaced xs \<and>
     (\<forall>y\<in>set xs. unat x + 40 \<le> unat y)"
  by (auto simp: spaced_def)

lemma spaced_Nil [simp]: "spaced []"
  by (simp add: spaced_def)

lemma spaced_member: "spaced C \<Longrightarrow> c \<in> set C \<Longrightarrow> 0 < unat c \<and> 4 dvd unat c \<and> unat c + 40 \<le> 2 ^ 64"
  by (simp add: spaced_def)

lemma spaced_pair:
  "spaced C \<Longrightarrow> a \<in> set C \<Longrightarrow> b \<in> set C \<Longrightarrow> a = b \<or> unat a + 40 \<le> unat b \<or> unat b + 40 \<le> unat a"
  by (induction C) (auto simp: spaced_Cons)

lemma spaced_apart: "spaced C \<Longrightarrow> apart (set C)"
  unfolding apart_def
proof (intro ballI notI)
  fix a b assume s: "spaced C" and ab: "a \<in> set C" "b \<in> set C" "a = free_of b"
  have "unat a = unat b + 24" using ab(3) unat_free_of spaced_member [OF s ab(2)] by simp
  then show False using spaced_pair [OF s ab(1,2)] by auto
qed

lemma spaced_nonzero: "spaced C \<Longrightarrow> c \<in> set C \<Longrightarrow> c \<noteq> NULL \<and> free_of c \<noteq> NULL"
  using spaced_member [of C c] unat_free_of [of c] by (metis add_gr_0 less_numeral_extra(3) unat_0)

text \<open>The size of a chunk that another one follows.\<close>

lemma circle_successor: "circle h (as @ c # d # bs) \<Longrightarrow> dl_next h c = d"
  using circle_next [of h c "d # bs @ as"] circle_rotate [of h as c "d # bs"] by simp

lemma circle_predecessor: "circle h (as @ c # d # bs) \<Longrightarrow> dl_prev h d = c"
  using circle_rotate [of h as c "d # bs"] by (simp add: circle_Cons dlinked_def)

lemma size_between:
  assumes "dl_next h c = d" and "unat c + 40 \<le> unat d"
  shows "unat (heap_chunk_size h c) = unat d - unat c - 24" and "heap_chunk_size h c = d - c - 24"
proof -
  show e: "heap_chunk_size h c = d - c - 24"
    by (simp add: heap_chunk_size_def assms(1) HEADER_SIZE_def)
  have "c \<le> d" using assms(2) by (simp add: word_le_nat_alt)
  then have "unat (d - c) = unat d - unat c" by (rule unat_sub)
  moreover have "24 \<le> d - c" using calculation assms(2) by (simp add: word_le_nat_alt)
  ultimately show "unat (heap_chunk_size h c) = unat d - unat c - 24"
    unfolding e by (simp add: unat_sub)
qed

lemma layout_span:
  assumes "layout C A" and "a \<in> set C" and "b \<in> set C"
  shows "unat b - unat a < 2 ^ 32"
proof -
  have s: "spaced C" and l: "3 \<le> length C" "unat (last C) - unat (hd C) < 2 ^ 32"
    using assms(1) by (simp_all add: layout_def)
  then obtain x ys where C: "C = x # ys" by (cases C) auto
  have "unat (hd C) \<le> unat a" using s assms(2) C by (auto simp: spaced_Cons)
  moreover have "unat b \<le> unat (last C)"
  proof -
    obtain zs z where "C = zs @ [z]" using C by (metis rev_exhaust list.distinct(1))
    then show ?thesis using s assms(3) by (auto simp: spaced_append)
  qed
  ultimately show ?thesis using l(2) by linarith
qed

lemma heap_okD:
  assumes "heap_ok h C A"
  shows "layout C A" and "circle h C" and "slots_ok h A" and "spaced C" and "A \<subseteq> set C"
    and "c \<in> set C \<Longrightarrow> ch_used h c = 0 \<longleftrightarrow> c \<in> A"
  using assms by (auto simp: heap_ok_def layout_def)

text \<open>A chunk other than the sentinels has neighbours.\<close>

lemma inner_split:
  assumes "c \<in> set C" and "c \<noteq> last C" and "c \<noteq> hd C"
  shows "\<exists>as p d bs. C = as @ p # c # d # bs"
proof -
  obtain us vs where C: "C = us @ c # vs" using assms(1) by (auto simp: in_set_conv_decomp)
  then obtain d bs where "vs = d # bs" using assms(2) by (cases vs) auto
  moreover obtain as p where "us = as @ [p]" using assms(3) C by (cases us rule: rev_cases) auto
  ultimately show ?thesis using C by auto
qed

subsection \<open>\<open>kmalloc\<close>\<close>

lemma align_mask: "NOT (ALIGN - 1) = NOT (mask 2)"
  by (simp add: ALIGN_def mask_eq_exp_minus_1)

lemma round_size_ok:
  "4 dvd unat (round_size sz) \<and> 16 \<le> unat (round_size sz)"
  by (auto simp: round_size_def align_mask unat_and_not_mask MIN_SIZE_def word_less_nat_alt Let_def)

lemma round_size_ge:
  assumes "unat sz + 3 < 2 ^ 64" shows "unat sz \<le> unat (round_size sz)"
proof -
  have "unat (sz + ALIGN - 1) = unat sz + 3"
    using assms by (simp add: ALIGN_def unat_word_ariths)
  then have "unat ((sz + ALIGN - 1) AND NOT (ALIGN - 1)) = 4 * ((unat sz + 3) div 4)"
    by (simp add: align_mask unat_and_not_mask)
  moreover have "unat sz \<le> 4 * ((unat sz + 3) div 4)" by linarith
  ultimately show ?thesis
    by (auto simp: round_size_def Let_def word_less_nat_alt)
qed

lemma find_slot_Some:
  "find_slot fc n = Some k \<Longrightarrow> n < 32 \<Longrightarrow> n \<le> k \<and> k < 32 \<and> fc k \<noteq> NULL"
proof (induction fc n rule: find_slot.induct)
  case (1 fc n)
  then show ?case
    by (auto simp: find_slot.simps [of fc n] NUM_SIZES_def split: if_splits)
qed

lemma find_slot_None:
  "find_slot fc n = None \<Longrightarrow> n \<le> k \<Longrightarrow> k < 32 \<Longrightarrow> fc k = NULL"
proof (induction fc n rule: find_slot.induct)
  case (1 fc n)
  then show ?case
    by (cases "k = n") (auto simp: find_slot.simps [of fc n] NUM_SIZES_def split: if_splits)
qed

text \<open>What only a change of flags or counters leaves alone.\<close>

lemma heap_field_simps [simp]:
  "slots_ok (set_used c v h) A \<longleftrightarrow> slots_ok h A" "circle (set_used c v h) xs \<longleftrightarrow> circle h xs"
  "slots_ok (h\<lparr>mem_used := x\<rparr>) A \<longleftrightarrow> slots_ok h A" "circle (h\<lparr>mem_used := x\<rparr>) xs \<longleftrightarrow> circle h xs"
  "slots_ok (h\<lparr>mem_meta := x\<rparr>) A \<longleftrightarrow> slots_ok h A" "circle (h\<lparr>mem_meta := x\<rparr>) xs \<longleftrightarrow> circle h xs"
  "dl_next (set_used c v h) = dl_next h" "dl_prev (set_used c v h) = dl_prev h"
  "ch_used (set_used c v h) = (ch_used h)(c := v)" "free_chunk (set_used c v h) = free_chunk h"
  by (auto simp: slots_ok_def slot_list_def free_list_def circle_def dlinked_def heap_chunk_size_def set_used_def)

lemma heap_ok_counters [simp]:
  "heap_ok (h\<lparr>mem_free := x\<rparr>) C A \<longleftrightarrow> heap_ok h C A" "heap_ok (h\<lparr>mem_used := x\<rparr>) C A \<longleftrightarrow> heap_ok h C A"
  "heap_ok (h\<lparr>mem_meta := x\<rparr>) C A \<longleftrightarrow> heap_ok h C A"
  by (simp_all add: heap_ok_def)

text \<open>An operation on the free lists keeps the list of all chunks.\<close>

lemma free_frame_all:
  assumes "free_frame (set C) h h'" and "spaced C"
  shows "circle h C \<Longrightarrow> circle h' C" and "c \<in> set C \<Longrightarrow> dl_next h' c = dl_next h c"
    and "c \<in> set C \<Longrightarrow> dl_prev h' c = dl_prev h c" and "ch_used h' = ch_used h"
proof -
  have s: "same_links (set C) h h'"
    by (rule same_links_mono [of "- (\<lambda>c. free_of c) ` set C"])
       (use assms spaced_apart [OF assms(2)] in \<open>auto simp: free_frame_def apart_def\<close>)
  then show "circle h C \<Longrightarrow> circle h' C" and "c \<in> set C \<Longrightarrow> dl_next h' c = dl_next h c"
    and "c \<in> set C \<Longrightarrow> dl_prev h' c = dl_prev h c"
    using circle_cong [of C h h'] by (auto simp: same_links_def)
  show "ch_used h' = ch_used h" using assms(1) by (simp add: free_frame_def)
qed

lemma layout_take:
  "layout C A \<Longrightarrow> layout C (A - {c})"
  by (auto simp: layout_def intro: successively_mono)

lemma layout_split:
  assumes "layout (as @ c # d # bs) A" and "c \<in> A" and "unat c + 40 \<le> unat c2" and "unat c2 + 40 \<le> unat d"
    and "4 dvd unat c2"
  shows "layout (as @ c # c2 # d # bs) (insert c2 (A - {c}))"
proof -
  have sp: "spaced (as @ c # d # bs)" and n: "successively (\<lambda>a b. a \<notin> A \<or> b \<notin> A) (as @ c # d # bs)"
    using assms(1) by (auto simp: layout_def)
  have s: "spaced (as @ c # c2 # d # bs)"
    using sp assms(3-5) by (fastforce simp: spaced_append spaced_Cons)
  have as: "as \<noteq> []" using assms(1,2) by (cases as) (auto simp: layout_def)
  have c2: "c2 \<notin> set (as @ c # d # bs)" using s by (auto simp: spaced_append spaced_Cons)
  have d: "d \<notin> A" using n assms(2) by (simp add: successively_append_iff successively_Cons)
  have p: "last as \<notin> A" using n assms(2) as by (simp add: successively_append_iff)
  have "successively (\<lambda>a b. a \<notin> insert c2 (A - {c}) \<or> b \<notin> insert c2 (A - {c})) (as @ [c])"
    using n as c2 by (auto simp: successively_append_iff elim!: successively_mono)
  moreover have "successively (\<lambda>a b. a \<notin> insert c2 (A - {c}) \<or> b \<notin> insert c2 (A - {c})) (d # bs)"
    using n c2 by (auto simp: successively_append_iff successively_Cons elim!: successively_mono)
  moreover have "d \<noteq> c2" "c2 \<noteq> c" using c2 by auto
  ultimately have "successively (\<lambda>a b. a \<notin> insert c2 (A - {c}) \<or> b \<notin> insert c2 (A - {c})) (as @ c # c2 # d # bs)"
    using d successively_append_iff [of _ "as @ [c]" "c2 # d # bs"] by (simp add: successively_Cons)
  moreover have "unat (hd (tl (as @ c # c2 # d # bs))) = unat (hd (as @ c # c2 # d # bs)) + 40"
  proof -
    have o: "unat (hd (tl (as @ c # d # bs))) = unat (hd (as @ c # d # bs)) + 40"
      using assms(1) unfolding layout_def by blast
    obtain x xs where x: "as = x # xs" using as by (cases as) auto
    show ?thesis using o unfolding x by (cases xs) simp_all
  qed
  ultimately show ?thesis
    using assms(1) s as c2 by (auto simp: layout_def)
qed

lemma live_split:
  assumes "as \<noteq> []" and "c \<in> A" and "unat c2 = unat c + 24 + r" and "c2 \<notin> set (as @ c # d # bs)"
    and "distinct (as @ c # d # bs)"
  shows "live (as @ c # c2 # d # bs) (insert c2 (A - {c})) = insert (free_of c, r) (live (as @ c # d # bs) A)"
proof -
  let ?A = "insert c2 (A - {c})"
  obtain x as' where as: "as = x # as'" using assms(1) by (cases as) auto
  have 1: "blocks ?A (as' @ [c]) = blocks A (as' @ [c])"
    by (rule blocks_cong) (use assms(4,5) as in auto)
  have 2: "blocks ?A (d # bs) = blocks A (d # bs)"
    by (rule blocks_cong, drule in_set_butlastD) (use assms(4,5) in auto)
  have "c \<noteq> c2" using assms(4) by auto
  then show ?thesis
    using assms(2,3) 1 2 blocks_append [of ?A as' c "c2 # d # bs"] blocks_append [of A as' c "d # bs"]
    by (simp add: live_def as)
qed

lemma live_take:
  assumes "as \<noteq> []" and "c \<in> A" and "distinct (as @ c # d # bs)"
  shows "live (as @ c # d # bs) (A - {c}) = insert (free_of c, unat d - unat c - 24) (live (as @ c # d # bs) A)"
proof -
  obtain x as' where as: "as = x # as'" using assms(1) by (cases as) auto
  have 1: "blocks (A - {c}) (as' @ [c]) = blocks A (as' @ [c])"
    by (rule blocks_cong) (use assms(3) as in auto)
  have 2: "blocks (A - {c}) (d # bs) = blocks A (d # bs)"
    by (rule blocks_cong, drule in_set_butlastD) (use assms(3) in auto)
  show ?thesis
    using assms(2) 1 2 blocks_append [of "A - {c}" as' c "d # bs"] blocks_append [of A as' c "d # bs"]
    by (simp add: live_def as)
qed

lemma chunk_init_ok:
  "circle (heap_chunk_init c h) [c]" "circle (heap_chunk_init c h) [free_of c]"
  "c \<notin> X \<Longrightarrow> free_of c \<notin> X \<Longrightarrow> same_links X h (heap_chunk_init c h)"
  "ch_used (heap_chunk_init c h) = (ch_used h)(c := 0)" "free_chunk (heap_chunk_init c h) = free_chunk h"
  "mem_free (heap_chunk_init c h) = mem_free h" "mem_used (heap_chunk_init c h) = mem_used h"
  "mem_meta (heap_chunk_init c h) = mem_meta h"
proof -
  have "free_of c \<noteq> c" by (simp add: HEADER_SIZE_def)
  then show "circle (heap_chunk_init c h) [c]"
    by (simp add: heap_chunk_init_def circle_single dlist_init_def heap_sets)
qed (auto simp: heap_chunk_init_def circle_single same_links_def dlist_init_def heap_sets)

lemma insert_after_next:
  "dl_prev h d = d \<Longrightarrow> dl_next (dlist_insert_after c d h) = (dl_next h)(c := d, d := dl_next h c)"
  by (simp add: dlist_insert_after_def Let_def heap_sets)

lemma new_chunk_fresh:
  assumes "spaced (as @ c # c2 # d # bs)"
  shows "c2 \<notin> set (as @ c # d # bs)" and "free_of c2 \<notin> set (as @ c # d # bs)"
    and "c2 \<notin> (\<lambda>c. free_of c) ` set (as @ c # d # bs)"
    and "free_of c2 \<notin> (\<lambda>c. free_of c) ` set (as @ c # d # bs)"
proof -
  have "apart (set (as @ c # c2 # d # bs))" by (rule spaced_apart [OF assms])
  moreover show "c2 \<notin> set (as @ c # d # bs)" using assms by (auto simp: spaced_append spaced_Cons)
  ultimately show "free_of c2 \<notin> set (as @ c # d # bs)" "c2 \<notin> (\<lambda>c. free_of c) ` set (as @ c # d # bs)"
    "free_of c2 \<notin> (\<lambda>c. free_of c) ` set (as @ c # d # bs)"
    by (auto simp: apart_def)
qed

lemma split_chunk_ok:
  fixes as bs :: "ptr list" and c d r :: u64
  defines "C \<equiv> as @ c # d # bs" and "c2 \<equiv> c + HEADER_SIZE + r"
  assumes lay: "layout C A" and cA: "c \<in> A" and ci: "circle h C" and sl: "slots_ok h (A - {c})"
    and r: "4 dvd unat r" "16 \<le> unat r" "unat r + 40 \<le> unat d - unat c - 24"
  shows "\<exists>h'. split_chunk c r h = Inr (d - c2 - 24, h') \<and> circle h' (as @ c # c2 # d # bs) \<and>
    slots_ok h' (insert c2 (A - {c})) \<and> ch_used h' = (ch_used h)(c2 := 0) \<and> mem_used h' = mem_used h \<and>
    unat c2 = unat c + 24 + unat r \<and> unat c2 + 40 \<le> unat d \<and> dl_next h' c = c2"
proof -
  have sp: "spaced C" using lay by (simp add: layout_def)
  have cC: "unat c + 40 \<le> unat d" "unat c + 40 \<le> 2 ^ 64" "unat d + 40 \<le> 2 ^ 64" "4 dvd unat c"
    using sp by (auto simp: C_def spaced_append spaced_Cons)
  have u2: "unat c2 = unat c + 24 + unat r"
    using r(3) cC by (simp add: c2_def HEADER_SIZE_def unat_word_ariths)
  have o2: "unat c + 40 \<le> unat c2" "unat c2 + 40 \<le> unat d" "4 dvd unat c2"
    using u2 r cC by simp_all
  let ?C = "as @ c # c2 # d # bs"
  have lay2: "layout ?C (insert c2 (A - {c}))"
    using layout_split [OF _ cA o2] lay by (simp add: C_def)
  then have sp2: "spaced ?C" by (simp add: layout_def)
  note fresh = new_chunk_fresh [OF sp2, folded C_def]
  have setC: "set ?C = insert c2 (set C)" by (auto simp: C_def)
  have A: "A \<subseteq> set C" using lay by (simp add: layout_def)
  let ?a = "heap_chunk_init c2 h" and ?b = "dlist_insert_after c c2 (heap_chunk_init c2 h)"
  have la: "same_links (set C \<union> (\<lambda>c. free_of c) ` set C) h ?a"
    using chunk_init_ok(3) fresh by auto
  have "circle ?a C" by (rule circle_cong [OF same_links_mono [OF la] ci]) auto
  then have ca: "circle ?a (c # (d # bs @ as))" using circle_rotate [of ?a as c "d # bs"] by (simp add: C_def)
  have n2: "c2 \<notin> set (c # (d # bs @ as))" using fresh(1) by (auto simp: C_def)
  have cb: "circle ?b ?C"
    using insert_after_ok(1) [OF ca chunk_init_ok(1) n2] circle_rotate [of ?b as c "c2 # d # bs"] by simp
  have lb: "same_links (- insert c2 (set C)) ?a ?b"
    by (rule same_links_mono [OF insert_after_ok(2) [OF ca chunk_init_ok(1) n2]]) (auto simp: C_def)
  have ap: "apart (set ?C)" by (rule spaced_apart [OF sp2])
  have sf: "same_links ((\<lambda>c. free_of c) ` set C) h ?b"
  proof (rule same_links_trans [OF same_links_mono [OF la] same_links_mono [OF lb]])
    show "(\<lambda>c. free_of c) ` set C \<subseteq> - insert c2 (set C)"
      using ap unfolding setC by (auto simp: apart_def)
  qed simp
  have nb: "dl_next ?b = (dl_next ?a)(c := c2, c2 := d)"
    using insert_after_next [of ?a c2 c] chunk_init_ok(1) [of c2 h] circle_next [OF ca] by (simp add: circle_single)
  have sb: "slots_ok ?b (A - {c})"
  proof (rule slots_cong [OF sl])
    show "same_links ((\<lambda>c. free_of c) ` (A - {c})) h ?b"
      by (rule same_links_mono [OF sf]) (use A in auto)
    show "\<forall>a\<in>A - {c}. dl_next ?b a = dl_next h a"
      using A la fresh(1) by (auto simp: nb same_links_def)
  qed (simp add: chunk_init_ok)
  have fb: "circle ?b [free_of c2]"
  proof (rule circle_cong [OF same_links_mono [OF lb] chunk_init_ok(2)])
    show "set [free_of c2] \<subseteq> - insert c2 (set C)" using fresh(2) by (simp add: HEADER_SIZE_def)
  qed
  have len: "heap_chunk_size ?b c2 = d - c2 - 24" "unat (heap_chunk_size ?b c2) = unat d - unat c2 - 24"
    using size_between [of ?b c2 d] o2(2) nb by simp_all
  have small: "unat (heap_chunk_size ?b c2) < 2 ^ 32"
    using len(2) layout_span [OF lay2, of c2 d] by simp
  have pos: "0 < heap_chunk_size ?b c2"
    using len(2) o2(2) by (simp add: word_less_nat_alt)
  obtain n h' where n: "slot_index (heap_chunk_slot (heap_chunk_size ?b c2)) = Inr n" "DLIST_PUSH n c2 ?b = h'"
    "slots_ok h' (insert c2 (A - {c}))" "free_frame (set ?C) ?b h'" "mem_used h' = mem_used ?b"
    using push_free_ok [OF sb fb _ ap _ _ _ pos small] A fresh(1) setC spaced_nonzero [OF sp2, of c2] by auto
  note fr = free_frame_all [OF n(4) sp2]
  have e: "split_chunk c r h = Inr (d - c2 - 24, h'\<lparr>mem_meta := mem_meta h' + HEADER_SIZE,
      mem_free := mem_free h' + (d - c2 - 24 - HEADER_SIZE)\<rparr>)"
    using n(1,2) by (simp add: split_chunk_def Let_def c2_def [symmetric] len(1))
  have "dl_next h' c = c2" using fr(2) [of c] nb by (simp add: n2 [unfolded c2_def]) (use n2 in auto)
  then show ?thesis
    unfolding e using fr(1) [OF cb] fr(4) n(3,5) u2 o2(2) by (simp add: chunk_init_ok)
qed

lemma live_member: "(p, k) \<in> live C A \<Longrightarrow> \<exists>c\<in>set C. c \<notin> A \<and> p = free_of c"
proof -
  have "(p, k) \<in> blocks A xs \<Longrightarrow> \<exists>c\<in>set xs. c \<notin> A \<and> p = free_of c" for xs
    by (induction A xs rule: blocks.induct) (auto split: if_splits)
  then show "(p, k) \<in> live C A \<Longrightarrow> \<exists>c\<in>set C. c \<notin> A \<and> p = free_of c"
    unfolding live_def using list.set_sel(2) by (metis tl_Nil list.set(1) empty_iff)
qed

lemma live_fresh: "c \<in> A \<Longrightarrow> free_of c \<notin> fst ` live C A"
  using live_member by fastforce

text \<open>The exponent of the slot the search begins at: the least power of two that holds the request.\<close>

definition request_class :: "u64 \<Rightarrow> nat" where
  "request_class sz = nat (heap_chunk_slot (round_size sz - 1) + 1)"

lemma request_class_bounds:
  "int (request_class sz) = heap_chunk_slot (round_size sz - 1) + 1"
  "unat (round_size sz) \<le> 2 ^ request_class sz" "2 ^ request_class sz < 2 * unat (round_size sz)"
proof -
  let ?r = "round_size sz"
  have r: "16 \<le> unat ?r" using round_size_ok by simp
  then have u: "unat (?r - 1) = unat ?r - 1" by (intro unat_minus_one) auto
  then have "0 < ?r - 1" using r by (simp add: word_less_nat_alt)
  then obtain k where k: "heap_chunk_slot (?r - 1) = int k" "2 ^ k \<le> unat (?r - 1)" "unat (?r - 1) < 2 ^ Suc k"
    using slot_bounds by blast
  have c: "request_class sz = Suc k" using k by (simp add: request_class_def)
  show "int (request_class sz) = heap_chunk_slot (?r - 1) + 1" using k c by simp
  show "unat ?r \<le> 2 ^ request_class sz" "2 ^ request_class sz < 2 * unat ?r"
    unfolding c using k u r by auto
qed

lemma slot_ge_iff:
  assumes "0 < sz" and "heap_chunk_slot sz = int k"
  shows "n \<le> k \<longleftrightarrow> 2 ^ n \<le> unat sz"
proof
  obtain l where l: "heap_chunk_slot sz = int l" "2 ^ l \<le> unat sz" "unat sz < 2 ^ Suc l"
    using slot_bounds [OF assms(1)] by blast
  then have k: "l = k" using assms(2) by simp
  {
    assume "n \<le> k"
    then have "(2::nat) ^ n \<le> 2 ^ k" by (rule power_increasing) simp
    then show "2 ^ n \<le> unat sz" by (rule le_trans) (use l(2) k in simp)
  }
  assume "2 ^ n \<le> unat sz"
  then have "(2::nat) ^ n < 2 ^ Suc k" by (rule le_less_trans) (use l(3) k in simp)
  then have "n < Suc k" by (rule power_less_imp_less_exp [rotated]) simp
  then show "n \<le> k" by simp
qed

text \<open>What the invariant says of one free chunk.\<close>

lemma free_chunk_shape:
  assumes "heap_ok h C A" and "c \<in> A"
  shows "\<exists>as d bs. C = as @ c # d # bs \<and> as \<noteq> [] \<and> distinct C \<and> unat c + 40 \<le> unat d \<and>
    unat (heap_chunk_size h c) = unat d - unat c - 24 \<and> heap_chunk_size h c = d - c - 24"
proof -
  note D = heap_okD [OF assms(1)]
  have "hd C \<notin> A" "last C \<notin> A" using D(1) by (simp_all add: layout_def)
  then have "c \<noteq> last C" "c \<noteq> hd C" using assms(2) by blast+
  then obtain as p d bs where C: "C = as @ p # c # d # bs" using inner_split [OF subsetD [OF D(5) assms(2)]] by blast
  have n: "dl_next h c = d" using circle_successor [of h "as @ [p]" c d bs] D(2) C by simp
  have s: "unat c + 40 \<le> unat d" using D(4) C by (auto simp: spaced_append spaced_Cons)
  have "distinct C" using D(2) by (auto simp: circle_def)
  then show ?thesis
    using C s size_between [OF n s] by (intro exI [of _ "as @ [p]"] exI [of _ d] exI [of _ bs] conjI) simp_all
qed

lemma free_chunk_size_pos: "heap_ok h C A \<Longrightarrow> c \<in> A \<Longrightarrow> 0 < heap_chunk_size h c"
  using free_chunk_shape [of h C A c] by (auto simp: word_less_nat_alt)

text \<open>The chunk the search finds.\<close>

lemma kmalloc_found:
  assumes ok: "heap_ok h C A" and fs: "find_slot (free_chunk h) (request_class sz) = Some k"
    and n: "request_class sz < 32"
  shows "\<exists>c\<in>A. \<exists>h1. request_class sz \<le> k \<and> heap_chunk_slot (heap_chunk_size h c) = int k \<and>
    DLIST_POP k h = (c, h1) \<and> slots_ok h1 (A - {c}) \<and> free_frame (set C) h h1 \<and> mem_used h1 = mem_used h"
proof -
  note D = heap_okD [OF ok]
  have k: "request_class sz \<le> k" "k < 32" "free_chunk h k \<noteq> NULL"
    using find_slot_Some [OF fs n] by auto
  then show ?thesis using pop_free_ok [OF D(3) k(2,3) spaced_apart [OF D(4)] D(5)] by blast
qed

lemma kmalloc_take:
  assumes ok: "heap_ok h C A" and fs: "find_slot (free_chunk h) (request_class sz) = Some k"
    and n: "request_class sz < 32"
  shows "\<exists>c h1 as d bs. DLIST_POP k h = (c, h1) \<and> C = as @ c # d # bs \<and> as \<noteq> [] \<and> c \<in> A \<and>
    circle h1 C \<and> slots_ok h1 (A - {c}) \<and> ch_used h1 = ch_used h \<and> heap_chunk_size h1 c = d - c - 24 \<and>
    unat (d - c - 24) = unat d - unat c - 24 \<and> unat c + 40 \<le> unat d \<and>
    unat (round_size sz) \<le> unat d - unat c - 24 \<and> mem_used h1 = mem_used h"
proof -
  note D = heap_okD [OF ok]
  obtain c h1 where k: "request_class sz \<le> k" and p: "c \<in> A" "heap_chunk_slot (heap_chunk_size h c) = int k" "DLIST_POP k h = (c, h1)"
    "slots_ok h1 (A - {c})" "free_frame (set C) h h1" "mem_used h1 = mem_used h"
    using kmalloc_found [OF ok fs n] by blast
  obtain as d bs where C: "C = as @ c # d # bs" "as \<noteq> []" "unat c + 40 \<le> unat d"
    "unat (heap_chunk_size h c) = unat d - unat c - 24" "heap_chunk_size h c = d - c - 24"
    using free_chunk_shape [OF ok p(1)] by blast
  note f = free_frame_all [OF p(5) D(4)]
  have "2 ^ request_class sz \<le> unat (heap_chunk_size h c)"
    using slot_ge_iff [OF free_chunk_size_pos [OF ok p(1)] p(2)] k by blast
  then have "unat (round_size sz) \<le> unat d - unat c - 24"
    using request_class_bounds(2) [of sz] C(4) by linarith
  moreover have "heap_chunk_size h1 c = d - c - 24"
    using C f(2) [of c] size_cong [of h1 c h] by simp
  ultimately show ?thesis
    using p C f(1) [OF D(2)] f(4)
    by (intro exI [of _ c] exI [of _ h1] exI [of _ as] exI [of _ d] exI [of _ bs] conjI) simp_all
qed

lemma kmalloc_eq:
  "kmalloc sz h =
     (if 32 \<le> request_class sz then Inr (NULL, h)
      else case find_slot (free_chunk h) (request_class sz) of
        None \<Rightarrow> Inr (NULL, h)
      | Some k \<Rightarrow> (let (chunk, h) = DLIST_POP k h; size2 = heap_chunk_size h chunk
          in bind_result
               (if round_size sz + sizeof_heap_chunk \<le> size2 then split_chunk chunk (round_size sz) h else Inr (0, h))
               (\<lambda>(len, h). let h = set_used chunk 1 h
                  in Inr (chunk + HEADER_SIZE,
                          h\<lparr>mem_free := mem_free h - size2,
                            mem_used := mem_used h + (size2 - len - HEADER_SIZE)\<rparr>))))"
proof -
  have "heap_chunk_slot (round_size sz - 1) + 1 = int (request_class sz)"
    by (simp only: request_class_bounds(1))
  then show ?thesis by (simp only: kmalloc_def Let_def NUM_SIZES_def nat_int) simp
qed

lemma kmalloc_fails:
  assumes ok: "heap_ok h C A"
    and "32 \<le> request_class sz \<or> find_slot (free_chunk h) (request_class sz) = None"
  shows "kmalloc sz h = Inr (NULL, h) \<and> (\<forall>a\<in>A. unat (heap_chunk_size h a) < 2 ^ request_class sz)"
proof (intro conjI ballI)
  note D = heap_okD [OF ok]
  show "kmalloc sz h = Inr (NULL, h)" using assms(2) by (auto simp: kmalloc_eq)
  fix a assume a: "a \<in> A"
  then obtain k where k: "k < 32" "heap_chunk_slot (heap_chunk_size h a) = int k"
    using D(3) by (auto simp: slots_ok_def)
  obtain xs where xs: "slot_list h A k xs" using D(3) k(1) unfolding slots_ok_def by blast
  then have "xs \<noteq> []" "NULL \<notin> set xs" using a k by (auto simp: slot_list_def free_list_def)
  then have "free_chunk h k \<noteq> NULL" using xs by (auto simp: slot_list_def free_list_def)
  then have "k < request_class sz"
    using assms(2) k(1) find_slot_None [of "free_chunk h" "request_class sz" k] by fastforce
  then show "unat (heap_chunk_size h a) < 2 ^ request_class sz"
    using slot_ge_iff [OF free_chunk_size_pos [OF ok a] k(2), of "request_class sz"] by (meson not_le)
qed

lemma kmalloc_whole:
  assumes ok: "heap_ok h C A" and cA: "c \<in> A" and C: "C = as @ c # d # bs" "as \<noteq> []"
    and h1: "circle h1 C" "slots_ok h1 (A - {c})" "ch_used h1 = ch_used h"
  shows "heap_ok (set_used c 1 h1) C (A - {c}) \<and>
    live C (A - {c}) = insert (free_of c, unat d - unat c - 24) (live C A)"
proof -
  note D = heap_okD [OF ok]
  have "distinct C" using D(2) by (auto simp: circle_def)
  then show ?thesis
    using D(1,6) h1 layout_take [of C A c] live_take [OF C(2) cA] C(1) by (auto simp: heap_ok_def)
qed

lemma kmalloc_part:
  assumes ok: "heap_ok h C A" and cA: "c \<in> A" and C: "C = as @ c # d # bs" "as \<noteq> []"
    and h1: "circle h1 C" "slots_ok h1 (A - {c})" "ch_used h1 = ch_used h"
    and r: "4 dvd unat r" "16 \<le> unat r" "unat r + 40 \<le> unat d - unat c - 24"
  shows "\<exists>h2 C' A'. split_chunk c r h1 = Inr (d - (c + HEADER_SIZE + r) - 24, h2) \<and>
    heap_ok (set_used c 1 h2) C' A' \<and> live C' A' = insert (free_of c, unat r) (live C A) \<and>
    hd C' = hd C \<and> last C' = last C \<and> C' \<noteq> C \<and> mem_used h2 = mem_used h1"
proof -
  note D = heap_okD [OF ok]
  let ?c2 = "c + HEADER_SIZE + r"
  let ?C = "as @ c # ?c2 # d # bs" and ?A = "insert ?c2 (A - {c})"
  obtain h2 where h2: "split_chunk c r h1 = Inr (d - ?c2 - 24, h2)" "circle h2 ?C" "slots_ok h2 ?A"
    "ch_used h2 = (ch_used h1)(?c2 := 0)" "unat ?c2 = unat c + 24 + unat r" "unat ?c2 + 40 \<le> unat d"
    "mem_used h2 = mem_used h1"
    using split_chunk_ok [OF D(1) [unfolded C(1)] cA h1(1,2) [unfolded C(1)] r] by blast
  have cd: "unat c + 40 \<le> unat ?c2" "4 dvd unat ?c2"
    using h2(5) r spaced_member [OF D(4), of c] C(1) by auto
  have lay: "layout ?C ?A" using layout_split [OF D(1) [unfolded C(1)] cA cd(1) h2(6) cd(2)] .
  then have "spaced ?C" unfolding layout_def by blast
  then have fresh: "?c2 \<notin> set C" using new_chunk_fresh(1) unfolding C(1) by blast
  have dist: "distinct C" using D(2) by (auto simp: circle_def)
  have "heap_ok (set_used c 1 h2) ?C ?A"
    using lay h2(2,3,4) h1(3) D(6) fresh C(1) by (auto simp: heap_ok_def)
  moreover have "live ?C ?A = insert (free_of c, unat r) (live C A)"
    using live_split [OF C(2) cA h2(5)] fresh dist C(1) by simp
  ultimately show ?thesis
    using h2(1,7) C by (intro exI [of _ h2] exI [of _ ?C] exI [of _ ?A]) auto
qed

lemma kmalloc_ok:
  assumes ok: "heap_ok h C A"
  shows "(kmalloc sz h = Inr (NULL, h) \<and> (\<forall>a\<in>A. unat (heap_chunk_size h a) < 2 ^ request_class sz)) \<or>
    (\<exists>p h' C' A' k. kmalloc sz h = Inr (p, h') \<and> p \<noteq> NULL \<and> heap_ok h' C' A' \<and>
       live C' A' = insert (p, k) (live C A) \<and> p \<notin> fst ` live C A \<and> unat (round_size sz) \<le> k \<and>
       hd C' = hd C \<and> last C' = last C \<and>
       mem_used h' = mem_used h + of_nat k - (if C' = C then HEADER_SIZE else 0))"
proof (cases "32 \<le> request_class sz \<or> find_slot (free_chunk h) (request_class sz) = None")
  case True
  then show ?thesis using kmalloc_fails [OF ok] by blast
next
  case False
  let ?r = "round_size sz"
  note D = heap_okD [OF ok]
  from False obtain k where k: "request_class sz < 32" "find_slot (free_chunk h) (request_class sz) = Some k"
    by (auto simp: not_le)
  obtain c h1 as d bs where t: "DLIST_POP k h = (c, h1)" "C = as @ c # d # bs" "as \<noteq> []" "c \<in> A"
    "circle h1 C" "slots_ok h1 (A - {c})" "ch_used h1 = ch_used h" "heap_chunk_size h1 c = d - c - 24"
    "unat (d - c - 24) = unat d - unat c - 24" "unat c + 40 \<le> unat d" "unat ?r \<le> unat d - unat c - 24"
    "mem_used h1 = mem_used h"
    using kmalloc_take [OF ok k(2,1)] by blast
  have p: "free_of c \<noteq> NULL" "free_of c \<notin> fst ` live C A"
    using spaced_nonzero [OF D(4), of c] t(2) live_fresh [OF t(4)] by auto
  have "unat (?r + sizeof_heap_chunk) = unat ?r + 40"
    using t(11) unat64(1) [of d] layout_span [OF D(1), of c d] t(2)
    by (simp add: sizeof_heap_chunk_def unat_word_ariths)
  then have cond: "?r + sizeof_heap_chunk \<le> d - c - 24 \<longleftrightarrow> unat ?r + 40 \<le> unat d - unat c - 24"
    using t(9) by (simp add: word_le_nat_alt)
  show ?thesis
  proof (cases "unat ?r + 40 \<le> unat d - unat c - 24")
    case False
    let ?g = "set_used c 1 h1"
    let ?h = "?g\<lparr>mem_free := mem_free ?g - (d - c - 24), mem_used := mem_used ?g + (d - c - 24 - HEADER_SIZE)\<rparr>"
    have "kmalloc sz h = Inr (free_of c, ?h)"
      using k t(1,8) False cond by (simp add: kmalloc_eq Let_def)
    moreover have "heap_ok ?h C (A - {c})" "live C (A - {c}) = insert (free_of c, unat d - unat c - 24) (live C A)"
      using kmalloc_whole [OF ok t(4,2,3,5,6,7)] by simp_all
    moreover have "(of_nat (unat (d - c - 24)) :: u64) = d - c - 24" by simp
    then have "mem_used ?h = mem_used h + of_nat (unat d - unat c - 24) - (if C = C then HEADER_SIZE else 0)"
      unfolding t(9) using t(12) by (simp add: set_used_def)
    ultimately show ?thesis using p t(11) by blast
  next
    case True
    let ?len = "d - (c + HEADER_SIZE + ?r) - 24"
    obtain h2 C' A' where s: "split_chunk c ?r h1 = Inr (?len, h2)" "heap_ok (set_used c 1 h2) C' A'"
      "live C' A' = insert (free_of c, unat ?r) (live C A)" "hd C' = hd C" "last C' = last C"
      "mem_used h2 = mem_used h1" "C' \<noteq> C"
      using kmalloc_part [OF ok t(4,2,3,5,6,7)] round_size_ok [of sz] True by blast
    let ?g = "set_used c 1 h2"
    let ?h = "?g\<lparr>mem_free := mem_free ?g - (d - c - 24),
        mem_used := mem_used ?g + (d - c - 24 - ?len - HEADER_SIZE)\<rparr>"
    have "kmalloc sz h = Inr (free_of c, ?h)"
      using k t(1,8) True cond s(1) by (simp add: kmalloc_eq Let_def)
    moreover have "heap_ok ?h C' A'" using s(2) by simp
    moreover have "mem_used ?h = mem_used h + of_nat (unat ?r) - (if C' = C then HEADER_SIZE else 0)"
      using s(6,7) t(12) by (simp add: set_used_def HEADER_SIZE_def)
    ultimately show ?thesis using s(3-5) p by blast
  qed
qed

subsection \<open>\<open>kfree\<close>\<close>

text \<open>The live blocks around a used chunk \<open>c\<close>.\<close>

definition around :: "ptr set \<Rightarrow> ptr list \<Rightarrow> ptr \<Rightarrow> ptr list \<Rightarrow> (ptr \<times> nat) set" where
  "around A as c ds = blocks A (tl as @ [c]) \<union> blocks A ds"

lemma live_around:
  "as \<noteq> [] \<Longrightarrow> live (as @ c # d # bs) A =
     (if c \<in> A then {} else {(free_of c, unat d - unat c - 24)}) \<union> around A as c (d # bs)"
  using blocks_append [of A "tl as" c "d # bs"] by (auto simp: live_def around_def)

lemma blocks_fst: "(p, k) \<in> blocks A xs \<Longrightarrow> \<exists>c\<in>set (butlast xs). p = free_of c"
  by (induction A xs rule: blocks.induct) (auto split: if_splits)

lemma around_fresh:
  assumes "distinct (as @ c # ds)" shows "(free_of c, k) \<notin> around A as c ds"
proof
  assume "(free_of c, k) \<in> around A as c ds"
  then obtain e where "e \<in> set (tl as) \<or> e \<in> set ds" "free_of c = free_of e"
    unfolding around_def using blocks_fst [of "free_of c" k A] in_set_butlastD
    by (metis Un_iff butlast_snoc)
  then have "c \<in> set as \<or> c \<in> set ds" using list.set_sel(2) by (metis add_right_cancel tl_Nil)
  then show False using assms by auto
qed

lemma live_decomp:
  assumes "(p, k) \<in> live C A"
  shows "\<exists>as c d bs. C = as @ c # d # bs \<and> as \<noteq> [] \<and> c \<notin> A \<and> p = free_of c \<and> k = unat d - unat c - 24"
proof -
  have "(p, k) \<in> blocks A xs \<Longrightarrow>
      \<exists>as c d bs. xs = as @ c # d # bs \<and> c \<notin> A \<and> p = free_of c \<and> k = unat d - unat c - 24" for xs
  proof (induction A xs rule: blocks.induct)
    case (1 A c d cs)
    show ?case
    proof (cases "c \<notin> A \<and> (p, k) = (free_of c, unat d - unat c - 24)")
      case True
      then show ?thesis by (intro exI [of _ "[]"] exI [of _ c] exI [of _ d] exI [of _ cs]) simp
    next
      case False
      then have "(p, k) \<in> blocks A (d # cs)" using "1.prems" by (auto split: if_splits)
      from "1.IH" [OF this] obtain as c' d' bs where "d # cs = as @ c' # d' # bs" "c' \<notin> A" "p = free_of c'"
        "k = unat d' - unat c' - 24" by blast
      then show ?thesis by (intro exI [of _ "c # as"] exI [of _ c'] exI [of _ d'] exI [of _ bs]) simp
    qed
  qed simp_all
  from this [of "tl C"] assms obtain as c d bs where "tl C = as @ c # d # bs" "c \<notin> A" "p = free_of c"
    "k = unat d - unat c - 24" by (auto simp: live_def)
  moreover from this have "C = (hd C # as) @ c # d # bs" by (cases C) auto
  ultimately show ?thesis by blast
qed

text \<open>Unlinking a chunk that is not free from the list of all chunks.\<close>

lemma unlink_ok:
  assumes ci: "circle h (as @ c # d # bs)" and as: "as \<noteq> []" and sl: "slots_ok h A"
    and A: "A \<subseteq> set (as @ c # d # bs)" and nA: "c \<notin> A" "last as \<notin> A"
    and sp: "spaced (as @ c # d # bs)"
  shows "circle (dlist_remove c h) (as @ d # bs)" and "slots_ok (dlist_remove c h) A"
    and "same_links ((\<lambda>c. free_of c) ` set (as @ c # d # bs)) h (dlist_remove c h)"
proof -
  let ?C = "as @ c # d # bs"
  have rot: "circle h (c # d # bs @ as)" using ci circle_rotate [of h as c "d # bs"] by simp
  have set: "set (c # d # bs @ as) = set ?C" by auto
  show "circle (dlist_remove c h) (as @ d # bs)"
    using remove_circle [OF rot] circle_rotate [of "dlist_remove c h" as d bs] by simp
  have li: "same_links (- set ?C) h (dlist_remove c h)" using remove_links [OF rot] by (simp only: set)
  have ap: "apart (set ?C)" by (rule spaced_apart [OF sp])
  have "dl_prev h c = last as"
    using circle_prev [OF rot] as by simp
  then have nx: "dl_next (dlist_remove c h) x = dl_next h x" if "x \<noteq> c" "x \<noteq> last as" for x
    using that by (simp add: dlist_remove_def Let_def heap_sets)
  show "slots_ok (dlist_remove c h) A"
  proof (rule slots_cong [OF sl])
    have "(\<lambda>c. free_of c) ` A \<subseteq> - set ?C" using A ap unfolding apart_def by blast
    then show "same_links ((\<lambda>c. free_of c) ` A) h (dlist_remove c h)"
      by (rule same_links_mono [OF li])
    show "\<forall>a\<in>A. dl_next (dlist_remove c h) a = dl_next h a" using nx nA by metis
  qed simp
  have "(\<lambda>c. free_of c) ` set ?C \<subseteq> - set ?C" using ap unfolding apart_def by blast
  then show "same_links ((\<lambda>c. free_of c) ` set ?C) h (dlist_remove c h)" by (rule same_links_mono [OF li])
qed

lemma layout_unlink:
  assumes lay: "layout (as @ c # d # bs) A" and as: "2 \<le> length as" and "c \<notin> A'" and "A' \<subseteq> A" and "last as \<notin> A' \<or> d \<notin> A'"
  shows "layout (as @ d # bs) A'"
proof -
  have n: "successively (\<lambda>a b. a \<notin> A \<or> b \<notin> A) (as @ c # d # bs)" and sp: "spaced (as @ c # d # bs)"
    using lay by (simp_all add: layout_def)
  have "successively (\<lambda>a b. a \<notin> A' \<or> b \<notin> A') as" "successively (\<lambda>a b. a \<notin> A' \<or> b \<notin> A') (d # bs)"
    using n assms(4) by (auto simp: successively_append_iff successively_Cons elim!: successively_mono)
  then have "successively (\<lambda>a b. a \<notin> A' \<or> b \<notin> A') (as @ d # bs)"
    using assms(5) by (simp add: successively_append_iff)
  moreover have "spaced (as @ d # bs)" using sp by (auto simp: spaced_append spaced_Cons)
  moreover have "A' \<subseteq> set (as @ d # bs)" using lay assms(3,4) by (auto simp: layout_def)
  moreover obtain x y zs where "as = x # y # zs"
    using as by (cases as; cases "tl as") auto
  ultimately show ?thesis using lay assms(4) by (auto simp: layout_def)
qed

text \<open>Taking a free chunk off its list.\<close>

lemma heap_remove_free_ok:
  assumes "spaced C" and "A \<subseteq> set C" and "slots_ok h A" and "circle h C" and "c \<in> A"
  shows "\<exists>h'. heap_remove_free c h = Inr h' \<and> circle h' C \<and> slots_ok h' (A - {c}) \<and>
    circle h' [free_of c] \<and> ch_used h' = ch_used h \<and> mem_used h' = mem_used h"
proof -
  obtain n g where n: "slot_index (heap_chunk_slot (heap_chunk_size h c)) = Inr n" "DLIST_REMOVE_FROM n c h = g"
    "slots_ok g (A - {c})" "circle g [free_of c]" "free_frame (set C) h g" "mem_used g = mem_used h"
    using remove_free_ok [OF assms(3,5) spaced_apart [OF assms(1)] assms(2)] by blast
  note f = free_frame_all [OF n(5) assms(1)]
  have "heap_remove_free c h = Inr (g\<lparr>mem_free := mem_free g - (heap_chunk_size h c - HEADER_SIZE)\<rparr>)"
    using n(1,2) by (simp add: heap_remove_free_def Let_def)
  then show ?thesis using n(3,4,6) f(1) [OF assms(4)] f(4) by simp
qed

text \<open>Putting a chunk on the list of its slot.\<close>

lemma heap_push_free_ok:
  assumes "layout C A'" and "slots_ok h A" and "circle h C" and "C = as @ c # d # bs" and "c \<notin> A"
    and "A \<subseteq> set C" and "circle h [free_of c]"
  shows "\<exists>h'. heap_push_free c h = Inr h' \<and> circle h' C \<and> slots_ok h' (insert c A) \<and>
    ch_used h' = ch_used h \<and> mem_used h' = mem_used h"
proof -
  have sp: "spaced C" using assms(1) by (simp add: layout_def)
  have cd: "unat c + 40 \<le> unat d" using sp assms(4) by (auto simp: spaced_append spaced_Cons)
  have "dl_next h c = d" using circle_successor assms(3,4) by blast
  note s = size_between(1) [OF this cd]
  have small: "unat (heap_chunk_size h c) < 2 ^ 32"
    using s layout_span [OF assms(1), of c d] assms(4) by simp
  have pos: "0 < heap_chunk_size h c" using s cd by (simp add: word_less_nat_alt)
  have nz: "c \<noteq> NULL" "free_of c \<noteq> NULL" using spaced_nonzero [OF sp, of c] assms(4) by auto
  have ins: "insert c A \<subseteq> set C" using assms(4,6) by auto
  obtain n g where n: "slot_index (heap_chunk_slot (heap_chunk_size h c)) = Inr n" "DLIST_PUSH n c h = g"
    "slots_ok g (insert c A)" "free_frame (set C) h g" "mem_used g = mem_used h"
    using push_free_ok [OF assms(2,7,5) spaced_apart [OF sp] ins nz pos small] by blast
  note f = free_frame_all [OF n(4) sp]
  have "heap_push_free c h = Inr (g\<lparr>mem_free := mem_free g + (heap_chunk_size h c - HEADER_SIZE)\<rparr>)"
    using n(1,2) by (simp add: heap_push_free_def Let_def)
  then show ?thesis using n(3,5) f(1) [OF assms(3)] f(4) by simp
qed

lemma merge_next_ok:
  assumes ok: "heap_ok h (as @ c # d # bs) A" and as: "as \<noteq> []" and cA: "c \<notin> A"
  shows "\<exists>h' A' d' bs'. merge_next d h = Inr h' \<and> heap_ok h' (as @ c # d' # bs') A' \<and> d' \<notin> A' \<and> c \<notin> A' \<and>
    around A' as c (d' # bs') = around A as c (d # bs) \<and> last (as @ c # d' # bs') = last (as @ c # d # bs) \<and>
    mem_used h' = mem_used h"
proof (cases "d \<in> A")
  case False
  then have "ch_used h d \<noteq> 0" using heap_okD(6) [OF ok, of d] by simp
  then show ?thesis
    using ok False cA by (intro exI [of _ h] exI [of _ A] exI [of _ d] exI [of _ bs]) (simp add: merge_next_def)
next
  case True
  note D = heap_okD [OF ok]
  have "last (as @ c # d # bs) \<notin> A" using D(1) unfolding layout_def by blast
  then obtain d' bs' where bs: "bs = d' # bs'" using True by (cases bs) auto
  let ?C = "(as @ [c]) @ d # d' # bs'"
  have C: "as @ c # d # bs = ?C" using bs by simp
  note E = D(1) [unfolded C] D(2) [unfolded C] D(4) [unfolded C] D(5) [unfolded C]
  obtain g where g: "heap_remove_free d h = Inr g" "circle g ?C" "slots_ok g (A - {d})"
    "ch_used g = ch_used h" "mem_used g = mem_used h"
    using heap_remove_free_ok [OF E(3,4) D(3) E(2) True] by blast
  have A1: "A - {d} \<subseteq> set ?C" "d \<notin> A - {d}" "last (as @ [c]) \<notin> A - {d}" "as @ [c] \<noteq> []"
    using E(4) cA by auto
  note u = unlink_ok [OF g(2) A1(4) g(3) A1(1-3) E(3)]
  have d': "d' \<notin> A"
    using E(1) True by (auto simp: layout_def successively_append_iff successively_Cons)
  have lay: "layout ((as @ [c]) @ d' # bs') (A - {d})"
    using layout_unlink [OF E(1) _ A1(2)] as d' by (simp add: Suc_le_eq)
  have m: "merge_next d h = Inr (unlink_merged d g)"
    using True g(1) D(6) [of d] by (simp add: merge_next_def)
  have dist: "distinct ?C" using E(2) by (simp add: circle_def)
  have "heap_ok (unlink_merged d g) (as @ c # d' # bs') (A - {d})"
    using lay u(1,2) g(4) D(6) bs dist by (auto simp: heap_ok_def unlink_merged_def Let_def)
  moreover have "around (A - {d}) as c (d' # bs') = around A as c (d # bs)"
  proof -
    have "blocks (A - {d}) (tl as @ [c]) = blocks A (tl as @ [c])"
      by (rule blocks_cong) (use dist as list.set_sel(2) in \<open>fastforce\<close>)
    moreover have "blocks (A - {d}) (d' # bs') = blocks A (d' # bs')"
      by (rule blocks_cong, drule in_set_butlastD) (use dist in auto)
    ultimately show ?thesis using True by (simp add: around_def bs)
  qed
  ultimately show ?thesis
    using m d' cA bs g(5)
    by (intro exI [of _ "unlink_merged d g"] exI [of _ "A - {d}"] exI [of _ d'] exI [of _ bs'])
       (simp add: unlink_merged_def Let_def)
qed

lemma merge_prev_join:
  assumes ok: "heap_ok h (as @ p # c # d # bs) A" and pA: "p \<in> A" and cA: "c \<notin> A" and dA: "d \<notin> A"
  shows "\<exists>h'. merge_prev p c h = Inr h' \<and> heap_ok h' (as @ p # d # bs) A \<and>
    live (as @ p # d # bs) A = around A (as @ [p]) c (d # bs) \<and> mem_used h' = mem_used h"
proof -
  note D = heap_okD [OF ok]
  let ?C = "(as @ [p]) @ c # d # bs"
  have C: "as @ p # c # d # bs = ?C" by simp
  note E = D(1) [unfolded C] D(2) [unfolded C] D(4) [unfolded C] D(5) [unfolded C]
  have as: "as \<noteq> []" using E(1) pA by (cases as) (auto simp: layout_def)
  have dist: "distinct ?C" using E(2) by (simp add: circle_def)
  obtain g where g: "heap_remove_free p h = Inr g" "circle g ?C" "slots_ok g (A - {p})"
    "circle g [free_of p]" "ch_used g = ch_used h" "mem_used g = mem_used h"
    using heap_remove_free_ok [OF E(3,4) D(3) E(2) pA] by blast
  have A1: "A - {p} \<subseteq> set ?C" "c \<notin> A - {p}" "last (as @ [p]) \<notin> A - {p}" "as @ [p] \<noteq> []"
    using E(4) cA by auto
  let ?u = "dlist_remove c g"
  note u = unlink_ok [OF g(2) A1(4) g(3) A1(1-3) E(3)]
  have lay: "layout ((as @ [p]) @ d # bs) A"
    by (rule layout_unlink [OF E(1) _ cA order_refl]) (use dA as in \<open>simp_all add: Suc_le_eq\<close>)
  have fp: "circle ?u [free_of p]"
    by (rule circle_cong [OF same_links_mono [OF u(3)] g(4)]) auto
  have sub: "A - {p} \<subseteq> set ((as @ [p]) @ d # bs)" "p \<notin> A - {p}" using E(4) cA by auto
  obtain h' where h': "heap_push_free p ?u = Inr h'" "circle h' ((as @ [p]) @ d # bs)"
    "slots_ok h' (insert p (A - {p}))" "ch_used h' = ch_used ?u" "mem_used h' = mem_used ?u"
    using heap_push_free_ok [OF lay u(2) u(1) _ sub(2,1) fp, of as d bs] by auto
  let ?h = "h'\<lparr>mem_meta := mem_meta h' - HEADER_SIZE, mem_free := mem_free h' + HEADER_SIZE\<rparr>"
  have m: "merge_prev p c h = Inr ?h"
    using pA g(1) h'(1) D(6) [of p] by (simp add: merge_prev_def)
  have ins: "insert p (A - {p}) = A" using pA by auto
  have "heap_ok ?h (as @ p # d # bs) A"
    using lay h'(2,4) h'(3) [unfolded ins] g(5) D(6) by (auto simp: heap_ok_def)
  moreover have "live (as @ p # d # bs) A = around A (as @ [p]) c (d # bs)"
    using live_around [OF as, of p d bs A] blocks_append [of A "tl as" p "[c]"] pA as
    by (simp add: around_def)
  ultimately show ?thesis using m h'(5) g(6) by (intro exI [of _ ?h]) simp
qed

lemma merge_prev_keep:
  assumes ok: "heap_ok h (as @ p # c # d # bs) A" and pA: "p \<notin> A" and cA: "c \<notin> A" and dA: "d \<notin> A"
  shows "\<exists>h'. merge_prev p c h = Inr h' \<and> heap_ok h' (as @ p # c # d # bs) (insert c A) \<and>
    live (as @ p # c # d # bs) (insert c A) = around A (as @ [p]) c (d # bs) \<and> mem_used h' = mem_used h"
proof -
  note D = heap_okD [OF ok]
  let ?C = "as @ p # c # d # bs"
  have dist: "distinct ?C" using D(2) by (simp add: circle_def)
  have ap: "apart (set ?C)" by (rule spaced_apart [OF D(4)])
  let ?u = "dlist_init (free_of c) (set_used c 0 h)"
  have fc: "free_of c \<notin> set ?C" using ap unfolding apart_def by auto
  have li: "same_links (- {free_of c}) h ?u"
    by (auto simp: same_links_def dlist_init_def heap_sets)
  have cu: "circle ?u ?C"
    by (rule circle_cong [OF same_links_mono [OF li] D(2)]) (use fc in auto)
  have "slots_ok ?u A"
  proof (rule slots_cong [OF D(3)])
    show "same_links ((\<lambda>c. free_of c) ` A) h ?u"
      by (rule same_links_mono [OF li]) (use cA in auto)
    show "\<forall>a\<in>A. dl_next ?u a = dl_next h a" using fc D(5) by (auto simp: dlist_init_def heap_sets)
  qed simp
  have n: "successively (\<lambda>a b. a \<notin> A \<or> b \<notin> A) ?C" using D(1) unfolding layout_def by blast
  have lay: "layout ?C (insert c A)"
  proof -
    have s: "successively (\<lambda>a b. a \<notin> insert c A \<or> b \<notin> insert c A) (as @ [p])"
      "successively (\<lambda>a b. a \<notin> insert c A \<or> b \<notin> insert c A) (d # bs)"
      using n dist by (auto simp: successively_append_iff successively_Cons elim!: successively_mono)
    have "successively (\<lambda>a b. a \<notin> insert c A \<or> b \<notin> insert c A) ((as @ [p]) @ c # d # bs)"
      using s(2) pA dA dist by (subst successively_append_iff, intro conjI s(1)) (auto simp: successively_Cons)
    moreover have "hd ?C \<noteq> c" "last ?C \<noteq> c" using dist by (cases as; auto)+
    ultimately show ?thesis using D(1) by (simp add: layout_def)
  qed
  have C2: "?C = (as @ [p]) @ c # d # bs" by simp
  obtain h' where h': "heap_push_free c ?u = Inr h'" "circle h' ?C" "slots_ok h' (insert c A)"
    "ch_used h' = ch_used ?u" "mem_used h' = mem_used ?u"
    using heap_push_free_ok [OF lay \<open>slots_ok ?u A\<close> cu C2 cA D(5) dlist_init_ok(1)] by blast
  have m: "merge_prev p c h = Inr h'"
    using pA h'(1) D(6) [of p] by (simp add: merge_prev_def)
  have "heap_ok h' ?C (insert c A)"
    using lay h'(2-4) D(6) dist by (auto simp: heap_ok_def)
  moreover have "live ?C (insert c A) = around A (as @ [p]) c (d # bs)"
  proof -
    have "blocks (insert c A) (tl (as @ [p]) @ [c]) = blocks A (tl (as @ [p]) @ [c])"
      by (rule blocks_cong) (use dist list.set_sel(2) [of as] in \<open>cases as; auto simp: butlast_append\<close>)
    moreover have "blocks (insert c A) (d # bs) = blocks A (d # bs)"
      by (rule blocks_cong, drule in_set_butlastD) (use dist in auto)
    ultimately show ?thesis
      using live_around [of "as @ [p]" c d bs "insert c A"] by (simp add: around_def)
  qed
  ultimately show ?thesis using m h'(5) by (intro exI [of _ h']) (simp add: set_used_def)
qed

lemma kfree_ok:
  assumes ok: "heap_ok h C A" and lv: "(p, k) \<in> live C A"
  shows "\<exists>h' C' A'. kfree p h = Inr h' \<and> heap_ok h' C' A' \<and> live C' A' = live C A - {(p, k)} \<and>
    hd C' = hd C \<and> last C' = last C \<and> mem_used h' = mem_used h - of_nat k"
proof -
  obtain bs0 c d bs where C0: "C = bs0 @ c # d # bs" "bs0 \<noteq> []" "c \<notin> A" "p = free_of c" "k = unat d - unat c - 24"
    using live_decomp [OF lv] by blast
  then obtain as q where as: "bs0 = as @ [q]" by (metis rev_exhaust)
  note D = heap_okD [OF ok]
  have C: "C = (as @ [q]) @ c # d # bs" using C0 as by simp
  have dist: "distinct C" using D(2) by (simp add: circle_def)
  have nx: "dl_next h c = d" using circle_successor D(2) C by blast
  have pv: "dl_prev h c = q" using circle_predecessor [of h as q c "d # bs"] D(2) C by simp
  have cd: "unat c + 40 \<le> unat d" using D(4) C by (auto simp: spaced_append spaced_Cons)
  have ks: "heap_chunk_size h c = of_nat k"
  proof -
    have "(of_nat (unat (heap_chunk_size h c)) :: u64) = of_nat k"
      using size_between(1) [OF nx cd] C0(5) by simp
    then show ?thesis by simp
  qed
  let ?h = "h\<lparr>mem_used := mem_used h - heap_chunk_size h c\<rparr>"
  have ok1: "heap_ok ?h ((as @ [q]) @ c # d # bs) A" using ok C by simp
  obtain g A' d' bs' where g: "merge_next d ?h = Inr g" "heap_ok g ((as @ [q]) @ c # d' # bs') A'" "d' \<notin> A'"
    "c \<notin> A'" "around A' (as @ [q]) c (d' # bs') = around A (as @ [q]) c (d # bs)"
    "last ((as @ [q]) @ c # d' # bs') = last ((as @ [q]) @ c # d # bs)" "mem_used g = mem_used ?h"
    using merge_next_ok [OF ok1 _ C0(3)] by blast
  have kf: "kfree p h = merge_prev q c g"
    using nx pv g(1) C0(4) by (simp add: kfree_def Let_def)
  have lv': "live C A - {(p, k)} = around A (as @ [q]) c (d # bs)"
  proof -
    have "(p, k) \<notin> around A (as @ [q]) c (d # bs)" using around_fresh dist C C0(4) by blast
    then show ?thesis using live_around [of "as @ [q]" c d bs A] C C0(3,4,5) by auto
  qed
  have ok2: "heap_ok g (as @ q # c # d' # bs') A'" using g(2) by simp
  show ?thesis
  proof (cases "q \<in> A'")
    case True
    obtain h' where "merge_prev q c g = Inr h'" "heap_ok h' (as @ q # d' # bs') A'"
      "live (as @ q # d' # bs') A' = around A' (as @ [q]) c (d' # bs')" "mem_used h' = mem_used g"
      using merge_prev_join [OF ok2 True g(4,3)] by blast
    moreover have "hd (as @ q # d' # bs') = hd C" using C by (cases as) auto
    ultimately show ?thesis
      using kf lv' g(5-7) C ks by (intro exI [of _ h'] exI [of _ "as @ q # d' # bs'"] exI [of _ A']) auto
  next
    case False
    obtain h' where "merge_prev q c g = Inr h'" "heap_ok h' (as @ q # c # d' # bs') (insert c A')"
      "live (as @ q # c # d' # bs') (insert c A') = around A' (as @ [q]) c (d' # bs')" "mem_used h' = mem_used g"
      using merge_prev_keep [OF ok2 False g(4,3)] by blast
    moreover have "hd (as @ q # c # d' # bs') = hd C" using C by (cases as) auto
    ultimately show ?thesis
      using kf lv' g(5-7) C ks
      by (intro exI [of _ h'] exI [of _ "as @ q # c # d' # bs'"] exI [of _ "insert c A'"]) auto
  qed
qed

subsection \<open>Initialisation\<close>

lemma init_chunks:
  assumes sp: "spaced [a, b, t]" and g: "g = heap_chunk_init t (heap_chunk_init b (heap_chunk_init a h))"
  shows "circle g [a]" "circle g [b]" "circle g [t]" "circle g [free_of b]" "free_chunk g = free_chunk h"
    "ch_used g = (ch_used h)(a := 0, b := 0, t := 0)"
proof -
  have ap: "apart {a, b, t}" using spaced_apart [OF sp] by simp
  have ne: "a \<noteq> b" "a \<noteq> t" "b \<noteq> t" using sp by (auto simp: spaced_Cons)
  have n: "x \<noteq> free_of y" "free_of x \<noteq> y" if "x \<in> {a, b, t}" "y \<in> {a, b, t}" for x y
    using ap that unfolding apart_def by metis+
  have s1: "same_links {a, free_of a} (heap_chunk_init a h) (heap_chunk_init b (heap_chunk_init a h))"
    using ne n by (intro chunk_init_ok(3)) auto
  have s2: "same_links {a, free_of a, b, free_of b} (heap_chunk_init b (heap_chunk_init a h)) g"
    unfolding g using ne n by (intro chunk_init_ok(3)) auto
  have ab: "same_links {a} (heap_chunk_init a h) g"
    by (rule same_links_trans [OF same_links_mono [OF s1] same_links_mono [OF s2]]) auto
  show "circle g [a]" by (rule circle_cong [OF _ chunk_init_ok(1)]) (use ab in simp)
  show "circle g [b]" by (rule circle_cong [OF same_links_mono [OF s2] chunk_init_ok(1)]) simp
  show "circle g [free_of b]" by (rule circle_cong [OF same_links_mono [OF s2] chunk_init_ok(2)]) simp
  show "circle g [t]" unfolding g by (rule chunk_init_ok(1))
  show "free_chunk g = free_chunk h" "ch_used g = (ch_used h)(a := 0, b := 0, t := 0)"
    by (simp_all add: g chunk_init_ok)
qed

lemma slots_empty: "(\<forall>n<32. free_chunk h n = NULL) \<Longrightarrow> slots_ok h {}"
  unfolding slots_ok_def by (auto simp: slot_list_def free_list_def intro!: exI [of _ "[]"])

lemma init_lists:
  assumes sp: "spaced [a, b, t]" and g: "g = heap_chunk_init t (heap_chunk_init b (heap_chunk_init a h))"
    and e: "e = dlist_insert_after b t (dlist_insert_after a b g)"
  shows "circle e [a, b, t]" and "circle e [free_of b]"
proof -
  have ne: "a \<noteq> b" "a \<noteq> t" "b \<noteq> t" using sp by (auto simp: spaced_Cons)
  have fb: "free_of b \<notin> {a, b, t}" using spaced_apart [OF sp] by (auto simp: apart_def)
  note i = init_chunks [OF sp g]
  let ?f = "dlist_insert_after a b g"
  have b: "b \<notin> set [a]" and t: "t \<notin> set [b, a]" using ne by auto
  have f1: "circle ?f [b, a]" and f2: "same_links (- {a, b}) g ?f"
    using insert_after_ok [OF i(1,2) b] circle_rotate [of ?f "[a]" b "[]"] by (simp_all add: insert_commute)
  have ft: "circle ?f [t]" by (rule circle_cong [OF same_links_mono [OF f2] i(3)]) (use ne in auto)
  have e1: "circle e [b, t, a]" and e2: "same_links (- {a, b, t}) ?f e"
    unfolding e using insert_after_ok [OF f1 ft t] by (simp_all add: insert_commute)
  show "circle e [a, b, t]" using e1 circle_rotate [of e "[b, t]" a "[]"] by simp
  have "circle ?f [free_of b]" by (rule circle_cong [OF same_links_mono [OF f2] i(4)]) (use fb in auto)
  then show "circle e [free_of b]" by (rule circle_cong [OF same_links_mono [OF e2], rotated]) (use fb in auto)
qed

lemma heap_init_ok:
  fixes addr sz :: u64
  defines "s \<equiv> 4 * ((unat addr + 3) div 4)" and "e \<equiv> 4 * ((unat addr + unat sz) div 4)"
  assumes fresh: "\<forall>n<32. free_chunk h n = NULL" and nz: "0 < unat addr" and fit: "unat addr + unat sz < 2 ^ 64"
    and room: "s + 120 \<le> e" "e < s + 2 ^ 32"
  shows "\<exists>h' a b t. heap_init addr sz h = Inr h' \<and> heap_ok h' [a, b, t] {b} \<and>
    live [a, b, t] {b} = {} \<and> unat a = s \<and> unat t = e - 40"
proof -
  have l: "e \<le> unat addr + unat sz" unfolding e_def by simp
  have l2: "unat addr + 3 < 2 ^ 64" "unat addr \<le> s" using room(1) l fit unfolding s_def by linarith+
  define a where "a = (addr + ALIGN - 1) AND NOT (ALIGN - 1)"
  define en where "en = (addr + sz) AND NOT (ALIGN - 1)"
  define b where "b = a + sizeof_heap_chunk"
  define t where "t = en - sizeof_heap_chunk"
  have "unat (addr + ALIGN - 1) = unat addr + 3"
    using l2(1) by (simp add: ALIGN_def unat_word_ariths)
  then have ua: "unat a = s" by (simp add: a_def align_mask unat_and_not_mask s_def)
  have "unat (addr + sz) = unat addr + unat sz" using fit by (simp add: unat_word_ariths)
  then have ue: "unat en = e" by (simp add: en_def align_mask unat_and_not_mask e_def)
  have ub: "unat b = s + 40"
    using ua room(1) l fit by (simp add: b_def sizeof_heap_chunk_def unat_word_ariths)
  have ut: "unat t = e - 40"
    using ue room(1) by (simp add: t_def sizeof_heap_chunk_def unat_sub word_le_nat_alt)
  have d4: "4 dvd s" "4 dvd e" by (simp_all add: s_def e_def)
  have sp: "spaced [a, b, t]"
    using ua ub ut room(1) l fit nz l2(2) d4 by (auto simp: spaced_Cons)
  have lay: "layout [a, b, t] {b}"
    using sp ua ub ut room by (auto simp: layout_def spaced_Cons)
  define g where "g = heap_chunk_init t (heap_chunk_init b (heap_chunk_init a (h\<lparr>heap_head := a, heap_tail := t\<rparr>)))"
  define f where "f = dlist_insert_after b t (dlist_insert_after a b g)"
  define u where "u = set_used t 1 (set_used a 1 f)"
  note i = init_chunks [OF sp g_def] and c = init_lists [OF sp g_def f_def]
  have fr: "free_chunk f = free_chunk h" "ch_used f = (ch_used h)(a := 0, b := 0, t := 0)"
    using i(5,6) by (simp_all add: f_def)
  have su: "slots_ok u {}" unfolding u_def by (simp add: slots_empty fr fresh)
  have nb: "dl_next u b = t" using circle_successor [of f "[a]" b t "[]"] c(1) by (simp add: u_def)
  have bt: "unat b + 40 \<le> unat t" using ub ut room(1) by simp
  note len = size_between [OF nb bt]
  have small: "unat (heap_chunk_size u b) < 2 ^ 32" using len(1) ub ut room(2) by simp
  have pos: "0 < heap_chunk_size u b" using len(1) bt by (simp add: word_less_nat_alt)
  have cb: "circle u [free_of b]" and cC: "circle u [a, b, t]" using c by (simp_all add: u_def)
  have nzb: "b \<noteq> NULL" "free_of b \<noteq> NULL" using spaced_nonzero [OF sp, of b] by auto
  have sub: "insert b {} \<subseteq> set [a, b, t]" "b \<notin> {}" by auto
  obtain n h' where n: "slot_index (heap_chunk_slot (heap_chunk_size u b)) = Inr n" "DLIST_PUSH n b u = h'"
    "slots_ok h' (insert b {})" "free_frame (set [a, b, t]) u h'"
    using push_free_ok [OF su cb sub(2) spaced_apart [OF sp] sub(1) nzb pos small] by blast
  note ff = free_frame_all [OF n(4) sp]
  let ?h = "h'\<lparr>mem_free := heap_chunk_size u b - HEADER_SIZE, mem_meta := sizeof_heap_chunk * 2 + HEADER_SIZE\<rparr>"
  have "heap_init addr sz h = Inr ?h"
    using n(1,2) unfolding heap_init_def mrvn_heap_init_def
    by (simp add: Let_def a_def [symmetric] en_def [symmetric] b_def [symmetric] t_def [symmetric]
        g_def [symmetric] f_def [symmetric] u_def [symmetric])
  moreover have "a \<noteq> b" "b \<noteq> t" using sp by (auto simp: spaced_Cons)
  then have "heap_ok ?h [a, b, t] {b}"
    using lay n(3) ff(1) [OF cC] ff(4) fr(2) by (auto simp: heap_ok_def u_def)
  ultimately show ?thesis
    using ua ut by (intro exI [of _ ?h] exI [of _ a] exI [of _ b] exI [of _ t]) (simp add: live_def)
qed

subsection \<open>The live blocks\<close>

lemma adjacent_le:
  "spaced (as @ c # d # bs) \<Longrightarrow> e \<in> set (as @ c # d # bs) \<Longrightarrow> unat c < unat e \<Longrightarrow> unat d \<le> unat e"
  by (fastforce simp: spaced_append spaced_Cons)

lemma live_shape:
  assumes "heap_ok h C A" and "(p, k) \<in> live C A"
  shows "\<exists>c d. c \<in> set C \<and> d \<in> set C \<and> c \<notin> A \<and> p = free_of c \<and> unat p = unat c + 24 \<and> unat p + k = unat d \<and>
    16 \<le> k \<and> unat (heap_chunk_size h c) = k \<and> c \<noteq> hd C \<and> (\<forall>e\<in>set C. unat c < unat e \<longrightarrow> unat d \<le> unat e)"
proof -
  note D = heap_okD [OF assms(1)]
  obtain as c d bs where C: "C = as @ c # d # bs" "as \<noteq> []" "c \<notin> A" "p = free_of c" "k = unat d - unat c - 24"
    using live_decomp [OF assms(2)] by blast
  have cd: "unat c + 40 \<le> unat d" "unat c + 40 \<le> 2 ^ 64" using D(4) C(1) by (auto simp: spaced_append spaced_Cons)
  have "dl_next h c = d" using circle_successor D(2) C(1) by blast
  then have sz: "unat (heap_chunk_size h c) = k" using size_between(1) cd(1) C(5) by simp
  have "distinct C" using D(2) by (simp add: circle_def)
  then have "c \<noteq> hd C" using C(1,2) by (cases as) auto
  moreover have "\<forall>e\<in>set C. unat c < unat e \<longrightarrow> unat d \<le> unat e"
    using adjacent_le D(4) C(1) by blast
  moreover have "unat p = unat c + 24" using unat_free_of [OF cd(2)] C(4) by simp
  ultimately show ?thesis
    using C cd sz by (intro exI [of _ c] exI [of _ d]) simp
qed

lemma live_disjoint:
  assumes "heap_ok h C A" and "(p, k) \<in> live C A" and "(q, l) \<in> live C A" and "(p, k) \<noteq> (q, l)"
  shows "unat p + k \<le> unat q \<or> unat q + l \<le> unat p"
proof -
  obtain c d :: ptr where c: "c \<in> set C" "p = free_of c" "unat p = unat c + 24" "unat p + k = unat d"
    "unat (heap_chunk_size h c) = k" "\<forall>e\<in>set C. unat c < unat e \<longrightarrow> unat d \<le> unat e"
    using live_shape [OF assms(1,2)] by blast
  obtain c' d' :: ptr where c': "c' \<in> set C" "q = free_of c'" "unat q = unat c' + 24" "unat q + l = unat d'"
    "unat (heap_chunk_size h c') = l" "\<forall>e\<in>set C. unat c' < unat e \<longrightarrow> unat d' \<le> unat e"
    using live_shape [OF assms(1,3)] by blast
  have "c \<noteq> c'" using assms(4) c c' by auto
  then have "unat c < unat c' \<or> unat c' < unat c" by (metis linorder_neqE_nat word_unat_eq_iff)
  then show ?thesis using c(1,3,4,6) c'(1,3,4,6) by fastforce
qed

lemma live_size: "heap_ok h C A \<Longrightarrow> (p, k) \<in> live C A \<Longrightarrow> unat (heap_chunk_size h (p - HEADER_SIZE)) = k"
  using live_shape [of h C A p k] by auto

subsection \<open>The heap is an allocator\<close>

definition heap_holds :: "heap \<Rightarrow> (ptr \<times> nat) set \<Rightarrow> bool" where
  "heap_holds h L \<longleftrightarrow> (\<exists>C A. heap_ok h C A \<and> live C A = L)"

lemma heap_alloc_step:
  assumes "heap_holds h L" and "unat n + 3 < 2 ^ 64"
  shows "kmalloc n h = Inr (NULL, h) \<or>
    (\<exists>p h' k. kmalloc n h = Inr (p, h') \<and> p \<noteq> NULL \<and> unat n \<le> k \<and> p \<notin> fst ` L \<and> heap_holds h' (insert (p, k) L))"
proof -
  obtain C A where C: "heap_ok h C A" "live C A = L" using assms(1) by (auto simp: heap_holds_def)
  show ?thesis using kmalloc_ok [OF C(1), of n] round_size_ge [OF assms(2)] C(2)
    unfolding heap_holds_def by (meson order_trans)
qed

lemma heap_release_step:
  assumes "heap_holds h L" and "(p, k) \<in> L"
  shows "\<exists>h'. kfree p h = Inr h' \<and> heap_holds h' (L - {(p, k)})"
  using assms kfree_ok unfolding heap_holds_def by blast

lemma heap_held_apart:
  assumes "heap_holds h L" and "(p, k) \<in> L" and "(q, l) \<in> L" and "(p, k) \<noteq> (q, l)"
  shows "unat p + k \<le> unat q \<or> unat q + l \<le> unat p"
  using assms live_disjoint unfolding heap_holds_def by blast

lemma heap_held_fits:
  assumes "heap_holds h L" and "(p, k) \<in> L"
  shows "fits p k \<and> p \<noteq> NULL"
proof -
  obtain C A where C: "heap_ok h C A" "live C A = L" using assms(1) by (auto simp: heap_holds_def)
  then obtain c d :: ptr where "d \<in> set C" "unat p = unat c + 24" "unat p + k = unat d"
    using live_shape [OF C(1)] assms(2) by blast
  moreover have "unat d + 40 \<le> 2 ^ 64" using spaced_member [OF heap_okD(4) [OF C(1)]] calculation(1) by blast
  ultimately show ?thesis by (auto simp: fits_def)
qed

interpretation kernel_heap: allocator kmalloc kfree heap_holds
  by unfold_locales
     ((rule heap_alloc_step heap_release_step heap_held_apart heap_held_fits; assumption)+)

lemma heap_holds_size: "heap_holds h L \<Longrightarrow> (p, k) \<in> L \<Longrightarrow> unat (heap_chunk_size h (p - HEADER_SIZE)) = k"
  using live_size unfolding heap_holds_def by blast

lemma krealloc_step:
  assumes h: "heap_holds h L" and p: "(p, k) \<in> L" and n: "0 < n" "unat n + 3 < 2 ^ 64"
  shows "krealloc p n m h = Inr (NULL, m, h) \<or>
    (\<exists>p' k' m' h'. krealloc p n m h = Inr (p', m', h') \<and> p' \<noteq> NULL \<and> unat n \<le> k' \<and>
       heap_holds h' (insert (p', k') (L - {(p, k)})) \<and> p' \<notin> fst ` (L - {(p, k)}) \<and>
       bytes m' p' (min k k') = bytes m p (min k k') \<and>
       (\<forall>(q, l)\<in>L - {(p, k)}. bytes m' q l = bytes m q l))"
proof -
  let ?old = "heap_chunk_size h (p - HEADER_SIZE)"
  have old: "unat ?old = k" by (rule heap_holds_size [OF h p])
  have nz: "p \<noteq> NULL" "n \<noteq> 0" using heap_held_fits [OF h p] n(1) by auto
  have unique: "p \<notin> fst ` (L - {(p, k)})"
  proof
    assume "p \<in> fst ` (L - {(p, k)})"
    then obtain x where x: "x \<in> L - {(p, k)}" "p = fst x" by blast
    then have "(p, snd x) \<in> L" "snd x \<noteq> k" by (cases x; simp)+
    then show False using heap_holds_size [OF h, of p "snd x"] old by simp
  qed
  show ?thesis
  proof (cases "n \<le> ?old")
    case True
    then have "krealloc p n m h = Inr (p, m, h)" using nz by (simp add: krealloc_def Let_def)
    moreover have "unat n \<le> k" using True old by (simp add: word_le_nat_alt)
    moreover have "insert (p, k) (L - {(p, k)}) = L" using p by auto
    ultimately show ?thesis using nz h unique by (intro disjI2 exI [of _ p] exI [of _ k] exI [of _ m] exI [of _ h]) auto
  next
    case False
    then have kr: "krealloc p n m h = bind_result (kmalloc n h)
        (\<lambda>(new_ptr, h). if new_ptr \<noteq> NULL
           then bind_result (kfree p h) (\<lambda>h. Inr (new_ptr, snd (memcpy m new_ptr p ?old), h))
           else Inr (new_ptr, m, h))"
      using nz unfolding krealloc_def Let_def by simp
    from kernel_heap.alloc_step [OF h n(2)] show ?thesis
    proof (elim disjE exE conjE)
      assume "kmalloc n h = Inr (NULL, h)"
      then show ?thesis by (simp add: kr)
    next
      fix q g l
      assume q: "kmalloc n h = Inr (q, g)" "q \<noteq> NULL" "unat n \<le> l" "q \<notin> fst ` L" "heap_holds g (insert (q, l) L)"
      let ?m = "snd (memcpy m q p ?old)"
      have kl: "k < l" using False q(3) old by (simp add: word_le_nat_alt)
      have ne: "(q, l) \<noteq> (p, k)" "q \<noteq> p" using q(4) p by force+
      have "region q l \<inter> region p k = {}" using kernel_heap.held_disjoint [OF q(5)] p ne by blast
      then have dis: "region q (unat ?old) \<inter> region p (unat ?old) = {}"
        using old kl region_mono [of k l q] by auto
      have mc: "bytes ?m q k = bytes m p k" "\<forall>a. a \<notin> region q k \<longrightarrow> ?m a = m a"
        using memcpy_correct [OF dis, of m "fst (memcpy m q p ?old)" ?m] old by auto
      obtain g' where g': "kfree p g = Inr g'" "heap_holds g' (insert (q, l) L - {(p, k)})"
        using kernel_heap.release_step [OF q(5), of p k] p by auto
      have "insert (q, l) L - {(p, k)} = insert (q, l) (L - {(p, k)})" using ne by auto
      moreover have "bytes ?m r j = bytes m r j" if "(r, j) \<in> L" for r j
        using kernel_heap.held_untouched [OF q(5), of q l r j k ?m m] that q(4) kl mc(2) by force
      ultimately show ?thesis
        using q(1-4) g' kl mc(1)
        by (intro disjI2 exI [of _ q] exI [of _ l] exI [of _ ?m] exI [of _ g']) (auto simp: kr)
    qed
  qed
qed

interpretation kernel_heap: reallocator kmalloc kfree heap_holds krealloc
  by unfold_locales (rule krealloc_step)

subsection \<open>Runs of the heap\<close>

text \<open>
  A run: initialisation, then allocations, frees of live blocks, and stores into live blocks
  (which may overwrite the \<open>free\<close> links at the beginning of the block).  The second argument
  records the live blocks.
\<close>

inductive heap_reach :: "u64 \<Rightarrow> u64 \<Rightarrow> heap \<Rightarrow> (ptr \<times> nat) set \<Rightarrow> bool" for addr sz :: u64 where
  reach_init: "\<forall>n<32. free_chunk h n = NULL \<Longrightarrow> heap_init addr sz h = Inr h' \<Longrightarrow> heap_reach addr sz h' {}"
| reach_alloc: "heap_reach addr sz h L \<Longrightarrow> kmalloc n h = Inr (p, h') \<Longrightarrow> p \<noteq> NULL \<Longrightarrow>
    heap_reach addr sz h' (insert (p, unat (heap_chunk_size h' (p - HEADER_SIZE))) L)"
| reach_fail: "heap_reach addr sz h L \<Longrightarrow> kmalloc n h = Inr (NULL, h') \<Longrightarrow> heap_reach addr sz h' L"
| reach_free: "heap_reach addr sz h L \<Longrightarrow> (p, k) \<in> L \<Longrightarrow> kfree p h = Inr h' \<Longrightarrow>
    heap_reach addr sz h' (L - {(p, k)})"
| reach_store: "heap_reach addr sz h L \<Longrightarrow> (p, k) \<in> L \<Longrightarrow>
    heap_reach addr sz (set_dl_prev p y (set_dl_next p x h)) L"

definition good_area :: "u64 \<Rightarrow> u64 \<Rightarrow> bool" where
  "good_area addr sz \<longleftrightarrow> 0 < unat addr \<and> unat addr + unat sz < 2 ^ 64 \<and>
     4 * ((unat addr + 3) div 4) + 120 \<le> 4 * ((unat addr + unat sz) div 4) \<and>
     4 * ((unat addr + unat sz) div 4) < 4 * ((unat addr + 3) div 4) + 2 ^ 32"

definition heap_within :: "u64 \<Rightarrow> u64 \<Rightarrow> heap \<Rightarrow> (ptr \<times> nat) set \<Rightarrow> bool" where
  "heap_within addr sz h L \<longleftrightarrow> (\<exists>C A. heap_ok h C A \<and> live C A = L \<and>
     unat (hd C) = 4 * ((unat addr + 3) div 4) \<and> unat (last C) + 40 = 4 * ((unat addr + unat sz) div 4))"

lemma store_ok:
  assumes ok: "heap_ok h C A" and lv: "(p, k) \<in> live C A"
  shows "heap_ok (set_dl_prev p y (set_dl_next p x h)) C A"
proof -
  let ?h = "set_dl_prev p y (set_dl_next p x h)"
  note D = heap_okD [OF ok]
  obtain c where c: "c \<in> set C" "c \<notin> A" "p = free_of c" using live_member [OF lv] by blast
  have p: "p \<notin> set C" using spaced_apart [OF D(4)] c unfolding apart_def by blast
  have li: "same_links (- {p}) h ?h" by (simp add: same_links_def heap_sets)
  have "circle ?h C" by (rule circle_cong [OF same_links_mono [OF li] D(2)]) (use p in auto)
  moreover have "slots_ok ?h A"
  proof (rule slots_cong [OF D(3)])
    show "same_links ((\<lambda>c. free_of c) ` A) h ?h" by (rule same_links_mono [OF li]) (use c in auto)
    show "\<forall>a\<in>A. dl_next ?h a = dl_next h a" using p D(5) by (auto simp: heap_sets)
  qed (simp add: heap_sets)
  ultimately show ?thesis using D(1,6) by (simp add: heap_ok_def heap_sets)
qed

lemma reach_within: "heap_reach addr sz h L \<Longrightarrow> good_area addr sz \<Longrightarrow> heap_within addr sz h L"
proof (induction rule: heap_reach.induct)
  case (reach_init h h')
  let ?s = "4 * ((unat addr + 3) div 4)" and ?e = "4 * ((unat addr + unat sz) div 4)"
  have g: "0 < unat addr" "unat addr + unat sz < 2 ^ 64" "?s + 120 \<le> ?e" "?e < ?s + 2 ^ 32"
    using reach_init.prems by (simp_all only: good_area_def)
  obtain g' a b t where i: "heap_init addr sz h = Inr g'" "heap_ok g' [a, b, t] {b}" "live [a, b, t] {b} = {}"
    "unat a = ?s" "unat t = ?e - 40"
    using heap_init_ok [OF reach_init.hyps(1) g] by blast
  have "unat (hd [a, b, t]) = ?s" "unat (last [a, b, t]) + 40 = ?e"
    using i(4,5) g(3) by simp_all
  then show ?case using i(1-3) reach_init.hyps(2) unfolding heap_within_def by force
next
  case (reach_alloc h L n p h')
  then obtain C A where C: "heap_ok h C A" "live C A = L" "unat (hd C) = 4 * ((unat addr + 3) div 4)"
    "unat (last C) + 40 = 4 * ((unat addr + unat sz) div 4)" unfolding heap_within_def by blast
  obtain C' A' k where C': "heap_ok h' C' A'" "live C' A' = insert (p, k) L" "hd C' = hd C" "last C' = last C"
    using kmalloc_ok [OF C(1), of n] reach_alloc.hyps(2,3) C(2) by auto
  then have "unat (heap_chunk_size h' (p - HEADER_SIZE)) = k" using live_size [OF C'(1), of p k] by simp
  then show ?case using C' C(3,4) unfolding heap_within_def by metis
next
  case (reach_fail h L n h')
  then obtain C A where C: "heap_ok h C A" "live C A = L" "unat (hd C) = 4 * ((unat addr + 3) div 4)"
    "unat (last C) + 40 = 4 * ((unat addr + unat sz) div 4)" unfolding heap_within_def by blast
  have "h' = h" using kmalloc_ok [OF C(1), of n] reach_fail.hyps(2) by auto
  then show ?case using reach_fail by simp
next
  case (reach_free h L p k h')
  then obtain C A where C: "heap_ok h C A" "live C A = L" "unat (hd C) = 4 * ((unat addr + 3) div 4)"
    "unat (last C) + 40 = 4 * ((unat addr + unat sz) div 4)" unfolding heap_within_def by blast
  obtain C' A' where C': "heap_ok h' C' A'" "live C' A' = L - {(p, k)}" "hd C' = hd C" "last C' = last C"
    using kfree_ok [OF C(1), of p k] reach_free.hyps(2,3) C(2) by auto
  then show ?case using C(3,4) unfolding heap_within_def by metis
next
  case (reach_store h L p k x y)
  then obtain C A where C: "heap_ok h C A" "live C A = L" "unat (hd C) = 4 * ((unat addr + 3) div 4)"
    "unat (last C) + 40 = 4 * ((unat addr + unat sz) div 4)" unfolding heap_within_def by blast
  then show ?case using store_ok [OF C(1), of p k x y] reach_store.hyps(2) unfolding heap_within_def by metis
qed

lemma within_block:
  assumes "heap_within addr sz h L" and "(p, k) \<in> L"
  shows "unat addr < unat p \<and> unat p + k \<le> unat addr + unat sz \<and> 4 dvd unat p \<and> 16 \<le> k"
proof -
  obtain C A where C: "heap_ok h C A" "live C A = L" "unat (hd C) = 4 * ((unat addr + 3) div 4)"
    "unat (last C) + 40 = 4 * ((unat addr + unat sz) div 4)" using assms(1) unfolding heap_within_def by blast
  note D = heap_okD [OF C(1)]
  have sp: "spaced C" and ne: "C \<noteq> []" using D(1) by (auto simp: layout_def)
  obtain c d :: ptr where c: "c \<in> set C" "d \<in> set C" "unat p = unat c + 24" "unat p + k = unat d" "16 \<le> k"
    using live_shape [OF C(1)] assms(2) C(2) by blast
  have "unat (hd C) \<le> unat c" using sp c(1) by (cases C) (auto simp: spaced_Cons)
  moreover have "unat d \<le> unat (last C)"
    using sp c(2) ne by (cases C rule: rev_cases) (auto simp: spaced_append)
  moreover have "4 dvd unat c" using spaced_member [OF sp c(1)] by simp
  moreover have "unat addr \<le> 4 * ((unat addr + 3) div 4)"
    "4 * ((unat addr + unat sz) div 4) \<le> unat addr + unat sz" by linarith+
  ultimately show ?thesis using c C(3,4) by auto
qed

lemma within_holds: "heap_within addr sz h L \<Longrightarrow> heap_holds h L"
  by (auto simp: heap_within_def heap_holds_def)

definition empty_heap :: heap where
  "empty_heap = \<lparr>dl_next = (\<lambda>_. 0), dl_prev = (\<lambda>_. 0), ch_used = (\<lambda>_. 0), free_chunk = (\<lambda>_. 0),
     mem_free = 0, mem_used = 0, mem_meta = 0, heap_head = 0, heap_tail = 0\<rparr>"

subsection \<open>Properties\<close>

text \<open>
  C16.  Whatever sequence of allocations, frees and stores the kernel runs, the live blocks are
  aligned, at least 16 bytes long, inside the heap's area and disjoint; no allocation and no free
  of a live block is ever undefined.
\<close>
theorem heap_safe:
  assumes "good_area addr sz" and "heap_reach addr sz h L"
  shows "(\<forall>(p, k)\<in>L. unat addr < unat p \<and> unat p + k \<le> unat addr + unat sz \<and> 4 dvd unat p \<and> 16 \<le> k) \<and>
    (\<forall>(p, k)\<in>L. \<forall>(q, l)\<in>L. (p, k) \<noteq> (q, l) \<longrightarrow> unat p + k \<le> unat q \<or> unat q + l \<le> unat p) \<and>
    (\<forall>n. \<exists>p h'. kmalloc n h = Inr (p, h')) \<and> (\<forall>(p, k)\<in>L. \<exists>h'. kfree p h = Inr h')"
proof -
  have w: "heap_within addr sz h L" by (rule reach_within [OF assms(2,1)])
  then obtain C A where C: "heap_ok h C A" by (auto simp: heap_within_def)
  have "\<exists>p h'. kmalloc n h = Inr (p, h')" for n using kmalloc_ok [OF C, of n] by blast
  moreover have "\<exists>h'. kfree p h = Inr h'" if "(p, k) \<in> L" for p k
    using heap_release_step [OF within_holds [OF w] that] by blast
  ultimately show ?thesis
    using within_block [OF w] heap_held_apart [OF within_holds [OF w]] by fast
qed

text \<open>
  C17.  \<open>kmalloc\<close> fails exactly when no free chunk has the size of the least power of two that
  holds the rounded request, and then changes nothing; otherwise it hands out a new block at
  least as large as the request, keeps the invariant and all other blocks, and its count of
  the used bytes is the size of the block, 24 too little when it does not split the chunk.
\<close>
theorem kmalloc_correct:
  assumes "heap_ok h C A" and "unat n + 3 < 2 ^ 64"
  shows "(\<forall>a\<in>A. unat (heap_chunk_size h a) < 2 ^ request_class n) \<and> kmalloc n h = Inr (NULL, h) \<or>
    \<not> (\<forall>a\<in>A. unat (heap_chunk_size h a) < 2 ^ request_class n) \<and>
    (\<exists>p h' C' A' k. kmalloc n h = Inr (p, h') \<and> p \<noteq> NULL \<and> heap_ok h' C' A' \<and>
       live C' A' = insert (p, k) (live C A) \<and> p \<notin> fst ` live C A \<and> unat n \<le> k \<and>
       mem_used h' = mem_used h + of_nat k - (if C' = C then 24 else 0))"
proof (cases "\<forall>a\<in>A. unat (heap_chunk_size h a) < 2 ^ request_class n")
  case True
  have "32 \<le> request_class n \<or> find_slot (free_chunk h) (request_class n) = None"
  proof (rule ccontr)
    assume "\<not> ?thesis"
    then obtain k where k: "request_class n < 32" "find_slot (free_chunk h) (request_class n) = Some k"
      by (auto simp: not_le)
    obtain c where "c \<in> A" "request_class n \<le> k" "heap_chunk_slot (heap_chunk_size h c) = int k"
      using kmalloc_found [OF assms(1) k(2,1)] by blast
    then show False
      using slot_ge_iff [OF free_chunk_size_pos [OF assms(1)], of c k "request_class n"] True by (meson not_le)
  qed
  then show ?thesis using kmalloc_fails [OF assms(1)] True by blast
next
  case False
  obtain p h' C' A' k where r: "kmalloc n h = Inr (p, h')" "p \<noteq> NULL" "heap_ok h' C' A'"
    "live C' A' = insert (p, k) (live C A)" "p \<notin> fst ` live C A" "unat (round_size n) \<le> k"
    "mem_used h' = mem_used h + of_nat k - (if C' = C then HEADER_SIZE else 0)"
    using kmalloc_ok [OF assms(1), of n] False by blast
  moreover have "unat n \<le> k" using round_size_ge [OF assms(2)] r(6) by linarith
  ultimately show ?thesis using False unfolding HEADER_SIZE_24 by blast
qed

lemma example_heap_fresh: "\<forall>n<32. free_chunk empty_heap n = NULL"
  by (simp add: empty_heap_def)

lemma example_heap_holds: "\<exists>h C A. heap_init 0x1000 0x1000 empty_heap = Inr h \<and> heap_ok h C A \<and> live C A = {} \<and>
    heap_reach 0x1000 0x1000 h {}"
proof -
  obtain h a b t where "heap_init 0x1000 0x1000 empty_heap = Inr h" "heap_ok h [a, b, t] {b}" "live [a, b, t] {b} = {}"
    using heap_init_ok [OF example_heap_fresh, of "0x1000" "0x1000"] by auto
  then show ?thesis using reach_init [OF example_heap_fresh] by blast
qed

lemma round_size_100: "unat (round_size 100) = 100"
  by (simp add: round_size_def align_mask unat_and_not_mask MIN_SIZE_def ALIGN_def word_less_nat_alt Let_def)

lemma example_block:
  "\<exists>h C A p k. heap_ok h C A \<and> (p, k) \<in> live C A \<and> 100 \<le> k"
proof -
  obtain h a b t where i: "heap_init 0x1000 0x1000 empty_heap = Inr h" "heap_ok h [a, b, t] {b}"
    "live [a, b, t] {b} = {}" "unat a = 4096" "unat t = 8152"
    using heap_init_ok [OF example_heap_fresh, of "0x1000" "0x1000"] by auto
  have "unat b = 4136" using heap_okD(1) [OF i(2)] i(4) by (simp add: layout_def)
  moreover have "dl_next h b = t" using circle_successor [of h "[a]" b t "[]"] heap_okD(2) [OF i(2)] by simp
  ultimately have "unat (heap_chunk_size h b) = 3992" using size_between(1) [of h b t] i(5) by simp
  moreover have "(2::nat) ^ request_class 100 < 200"
    using request_class_bounds(3) [of 100] by (simp add: round_size_100)
  ultimately have "\<not> (\<forall>c\<in>{b}. unat (heap_chunk_size h c) < 2 ^ request_class 100)" by simp
  then obtain p h' C' A' k where "heap_ok h' C' A'" "live C' A' = insert (p, k) (live [a, b, t] {b})"
    "unat (round_size 100) \<le> k"
    using kmalloc_ok [OF i(2), of 100] by blast
  then show ?thesis using round_size_100 by (intro exI [of _ h'] exI [of _ C'] exI [of _ A']) auto
qed

theorem heap_safe_witness:
  "\<exists>h p h'. heap_init 0x1000 0x1000 empty_heap = Inr h \<and> kmalloc 100 h = Inr (p, h')"
proof -
  obtain h where h: "heap_init 0x1000 0x1000 empty_heap = Inr h" "heap_reach 0x1000 0x1000 h {}"
    using example_heap_holds by blast
  have "good_area 0x1000 0x1000" by (simp add: good_area_def)
  then show ?thesis using heap_safe [OF _ h(2)] h(1) by blast
qed

theorem kmalloc_correct_witness:
  "\<exists>h C A. heap_init 0x1000 0x1000 empty_heap = Inr h \<and> heap_ok h C A \<and>
     (kmalloc 100 h = Inr (NULL, h) \<or> (\<exists>p h' C' A' k. kmalloc 100 h = Inr (p, h') \<and> heap_ok h' C' A' \<and> live C' A' = insert (p, k) (live C A) \<and> 100 \<le> k))"
proof -
  obtain h C A where h: "heap_init 0x1000 0x1000 empty_heap = Inr h" "heap_ok h C A"
    using example_heap_holds by blast
  have "unat (100 :: u64) + 3 < 2 ^ 64" by simp
  from kmalloc_correct [OF h(2) this] show ?thesis using h by fastforce
qed

text \<open>
  C18.  \<open>kfree\<close> of a live block takes exactly this block away, merges the chunk with its free
  neighbours (the invariant has no two of them side by side) and subtracts the block's size from
  the count of the used bytes.
\<close>
theorem kfree_correct:
  assumes "heap_ok h C A" and "(p, k) \<in> live C A"
  shows "\<exists>h' C' A'. kfree p h = Inr h' \<and> heap_ok h' C' A' \<and> live C' A' = live C A - {(p, k)} \<and>
    successively (\<lambda>a b. a \<notin> A' \<or> b \<notin> A') C' \<and> mem_used h' = mem_used h - of_nat k"
proof -
  obtain h' C' A' where r: "kfree p h = Inr h'" "heap_ok h' C' A'" "live C' A' = live C A - {(p, k)}"
    "mem_used h' = mem_used h - of_nat k"
    using kfree_ok [OF assms] by blast
  moreover have "successively (\<lambda>a b. a \<notin> A' \<or> b \<notin> A') C'"
    using heap_okD(1) [OF r(2)] unfolding layout_def by blast
  ultimately show ?thesis by blast
qed

theorem kfree_correct_witness:
  "\<exists>h C A p k h' C' A'. (p, k) \<in> live C A \<and> 100 \<le> k \<and> kfree p h = Inr h' \<and> heap_ok h' C' A' \<and>
     live C' A' = live C A - {(p, k)}"
proof -
  obtain h C A p k where e: "heap_ok h C A" "(p, k) \<in> live C A" "(100::nat) \<le> k" using example_block by blast
  obtain h' C' A' where "kfree p h = Inr h'" "heap_ok h' C' A'" "live C' A' = live C A - {(p, k)}"
    using kfree_correct [OF e(1,2)] by (elim exE conjE)
  then show ?thesis using e(2,3)
    by (intro exI [of _ h] exI [of _ C] exI [of _ A] exI [of _ p] exI [of _ k] exI [of _ h'] exI [of _ C']
        exI [of _ A'] conjI)
qed

text \<open>When nothing is live the heap is one free chunk.\<close>

lemma none_live:
  assumes "heap_ok h C A" and "live C A = {}"
  shows "\<exists>a b t. C = [a, b, t] \<and> A = {b}"
proof -
  have lay: "layout C A" by (rule heap_okD(1) [OF assms(1)])
  then have len: "3 \<le> length C" and ends: "hd C \<notin> A" "last C \<notin> A" and sub: "A \<subseteq> set C"
    and n: "successively (\<lambda>a b. a \<notin> A \<or> b \<notin> A) C" and sp: "spaced C"
    unfolding layout_def by blast+
  obtain a b t ys where C: "C = a # b # t # ys"
    using len by (cases C; cases "tl C"; cases "tl (tl C)") auto
  have b: "b \<in> A" using assms(2) C by (auto simp: live_def split: if_splits)
  then have t: "t \<notin> A" using n C by simp
  have "ys = []"
  proof (rule ccontr)
    assume "ys \<noteq> []"
    then obtain z zs where "ys = z # zs" by (cases ys) auto
    then show False using assms(2) C b t by (simp add: live_def)
  qed
  then show ?thesis using C b t ends sub by auto
qed

text \<open>
  C19.  Nothing leaks: when every block has been freed, whatever calls were made before, the heap
  is again one free chunk \<open>b\<close> between its two sentinels, whose data fill the area from
  \<open>heap_init\<close> but for the three headers, and every request succeeds whose size, rounded up to a
  power of two, is at most the size of this chunk.
\<close>
theorem heap_all_freed:
  assumes "good_area addr sz" and "heap_reach addr sz h {}"
  shows "\<exists>a b t. heap_ok h [a, b, t] {b} \<and>
    unat a = 4 * ((unat addr + 3) div 4) \<and> unat b = unat a + 40 \<and>
    unat t + 40 = 4 * ((unat addr + unat sz) div 4) \<and>
    unat (heap_chunk_size h b) + 104 + unat a = unat t + 40 \<and>
    (\<forall>n. 2 ^ request_class n \<le> unat (heap_chunk_size h b) \<longrightarrow> (\<exists>p h'. kmalloc n h = Inr (p, h') \<and> p \<noteq> NULL))"
proof -
  have "heap_within addr sz h {}" by (rule reach_within [OF assms(2,1)])
  then obtain C A where C: "heap_ok h C A" "live C A = {}" "unat (hd C) = 4 * ((unat addr + 3) div 4)"
    "unat (last C) + 40 = 4 * ((unat addr + unat sz) div 4)" unfolding heap_within_def by blast
  obtain a b t where abt: "C = [a, b, t]" "A = {b}" using none_live [OF C(1,2)] by blast
  have b: "unat b = unat a + 40" using heap_okD(1) [OF C(1)] abt by (simp add: layout_def)
  have le: "unat b + 40 \<le> unat t" using heap_okD(4) [OF C(1)] abt(1) by (simp add: spaced_Cons)
  have "dl_next h b = t" using circle_successor [of h "[a]" b t "[]"] heap_okD(2) [OF C(1)] abt(1) by simp
  then have "unat (heap_chunk_size h b) = unat t - unat b - 24" by (rule size_between(1)) (rule le)
  then have "unat (heap_chunk_size h b) + 104 + unat a = unat t + 40" using b le by simp
  moreover have "\<exists>p h'. kmalloc n h = Inr (p, h') \<and> p \<noteq> NULL"
    if "2 ^ request_class n \<le> unat (heap_chunk_size h b)" for n
  proof -
    have "\<not> (\<forall>a\<in>A. unat (heap_chunk_size h a) < 2 ^ request_class n)" using abt(2) that by auto
    then show ?thesis using kmalloc_ok [OF C(1), of n] by blast
  qed
  ultimately show ?thesis using C(1,3,4) b abt by (intro exI [of _ a] exI [of _ b] exI [of _ t]) simp
qed

theorem heap_all_freed_witness:
  "\<exists>h p h' b. heap_init 0x1000 0x1000 empty_heap = Inr h \<and> unat (heap_chunk_size h b) = 0xF98 \<and>
     kmalloc 100 h = Inr (p, h') \<and> p \<noteq> NULL"
proof -
  obtain h where h: "heap_init 0x1000 0x1000 empty_heap = Inr h" "heap_reach 0x1000 0x1000 h {}"
    using example_heap_holds by blast
  have "good_area 0x1000 0x1000" by (simp add: good_area_def)
  then obtain a b t :: ptr where b: "unat a = 4 * ((unat (0x1000 :: u64) + 3) div 4)"
    "unat t + 40 = 4 * ((unat (0x1000 :: u64) + unat (0x1000 :: u64)) div 4)"
    "unat (heap_chunk_size h b) + 104 + unat a = unat t + 40"
    "\<forall>n. 2 ^ request_class n \<le> unat (heap_chunk_size h b) \<longrightarrow> (\<exists>p h'. kmalloc n h = Inr (p, h') \<and> p \<noteq> NULL)"
    using heap_all_freed [OF _ h(2)] by blast
  have s: "unat (heap_chunk_size h b) = 0xF98" using b(1-3) by simp
  have "(2::nat) ^ request_class 100 < 200"
    using request_class_bounds(3) [of 100] by (simp add: round_size_100)
  then show ?thesis using b(4) s h(1) by (auto intro!: exI [of _ b] dest: spec [of _ 100])
qed

text \<open>
  C20.  \<open>krealloc\<close> of a live block to a size that is not 0 either fails and leaves everything as it
  was, or returns a block of the new size that holds the old contents, in place of the old one;
  no other block changes.
\<close>
theorem krealloc_correct:
  assumes "heap_holds h L" and "(p, k) \<in> L" and "0 < n" and "unat n + 3 < 2 ^ 64"
  shows "krealloc p n m h = Inr (NULL, m, h) \<or>
    (\<exists>p' k' m' h'. krealloc p n m h = Inr (p', m', h') \<and> p' \<noteq> NULL \<and> unat n \<le> k' \<and>
       heap_holds h' (insert (p', k') (L - {(p, k)})) \<and> p' \<notin> fst ` (L - {(p, k)}) \<and>
       bytes m' p' (min k k') = bytes m p (min k k') \<and>
       (\<forall>(q, l)\<in>L - {(p, k)}. bytes m' q l = bytes m q l))"
  by (rule kernel_heap.resize_step [OF assms])

theorem krealloc_correct_witness:
  "\<forall>m. \<exists>h p k. (100::nat) \<le> k \<and> (krealloc p 50 m h = Inr (NULL, m, h) \<or>
     (\<exists>p' k' m' h'. krealloc p 50 m h = Inr (p', m', h') \<and> bytes m' p' (min k k') = bytes m p (min k k') \<and> 50 \<le> k'))"
  (is "\<forall>m. ?Q m")
proof
  fix m :: mem
  obtain h C A p k where e: "heap_ok h C A" "(p, k) \<in> live C A" "(100::nat) \<le> k" using example_block by blast
  then have "heap_holds h (live C A)" by (auto simp: heap_holds_def)
  moreover have "unat (50 :: u64) + 3 < 2 ^ 64" "(0 :: u64) < 50" by simp_all
  ultimately show "?Q m" using krealloc_correct [of h "live C A" p k 50 m] e(2,3)
    by (intro exI [of _ h] exI [of _ p] exI [of _ k]) fastforce
qed

text \<open>
  The rounding of a request wraps: a request of one of the last three sizes is served as a
  request of 16 bytes.
\<close>
theorem kmalloc_wraps:
  assumes "2 ^ 64 \<le> unat n + 3" shows "kmalloc n h = kmalloc 16 h"
proof -
  have "(unat n - 18446744073709551613) mod 18446744073709551616 = unat n - 18446744073709551613"
    using unat64(2) [of n] by (intro mod_less) linarith
  then have "unat (n + ALIGN - 1) = unat n + 3 - 2 ^ 64"
    using assms by (simp add: ALIGN_def unat_word_ariths le_mod_geq)
  moreover have "(unat n - 18446744073709551613) div 4 < 4"
    using unat64(2) [of n] by linarith
  ultimately have "unat ((n + ALIGN - 1) AND NOT (ALIGN - 1)) < 16"
    by (simp add: align_mask unat_and_not_mask)
  then have "round_size n = round_size 16"
    by (simp add: round_size_def MIN_SIZE_def word_less_nat_alt ALIGN_def Let_def)
  then show ?thesis by (simp add: kmalloc_def)
qed

theorem kmalloc_wraps_witness: "\<forall>h. kmalloc 0xFFFFFFFFFFFFFFFF h = kmalloc 16 h"
  by (rule allI, rule kmalloc_wraps) simp

end
