(* ===== verification/Containers.thy ===== *)
theory Containers
  imports Heap CString Access
begin

text \<open>
  The clients of \<open>malloc\<close> in \<open>libc\<close>: \<open>strdup.c\<close>, \<open>vector.c\<close> and \<open>strsplit.c\<close>.  Their operations take
  the allocator's functions as arguments; what they do is proved in the locales of the theory
  \<open>Allocator\<close>, for every allocator that keeps the contract, and holds on the kernel's heap by its
  interpretation.  The struct \<open>vector\<close> is a record, its items are 64-bit words of the byte memory.
\<close>

subsection \<open>Duplicating strings\<close>

definition strdup ::
  "(u64 \<Rightarrow> 's \<Rightarrow> (ptr \<times> 's) result) \<Rightarrow> mem \<Rightarrow> ptr \<Rightarrow> 's \<Rightarrow> (ptr \<times> mem \<times> 's) result" where
  "strdup alloc m s h =
     bind_result (run (strlen m s)) (\<lambda>len.
     bind_result (alloc (len + 1) h) (\<lambda>(dup, h).
       if dup = NULL then Inr (NULL, m, h)
       else let (r, m) = memcpy m dup s (len + 1) in Inr (r, m, h)))"

definition strndup ::
  "(u64 \<Rightarrow> 's \<Rightarrow> (ptr \<times> 's) result) \<Rightarrow> mem \<Rightarrow> ptr \<Rightarrow> u64 \<Rightarrow> 's \<Rightarrow> (ptr \<times> mem \<times> 's) result" where
  "strndup alloc m s n h =
     (let len = strnlen m s n
      in bind_result (alloc (len + 1) h) (\<lambda>(dup, h).
        if dup = NULL then Inr (NULL, m, h)
        else let (r, m) = memcpy m dup s len in Inr (dup, m(dup + len := 0), h)))"

subsection \<open>Vectors\<close>

definition VECTOR_INIT_CAPACITY :: int where "VECTOR_INIT_CAPACITY = 1"
definition sizeof_vector :: u64 where "sizeof_vector = 16"

record vector =
  vec_items :: ptr
  vec_capacity :: int
  vec_length :: int

definition store_ptr :: "ptr \<Rightarrow> u64 \<Rightarrow> mem \<Rightarrow> mem" where
  "store_ptr p v m = poke m p (map (\<lambda>i. ucast (drop_bit (8 * i) v)) [0..<8])"

definition item_ptr :: "vector \<Rightarrow> int \<Rightarrow> ptr" where
  "item_ptr v i = vec_items v + word_of_int (8 * i)"

text \<open>The items are allocated without looking at the result; so is the struct, through whose pointer \<open>vector_init\<close> writes.\<close>

definition vector_init :: "(u64 \<Rightarrow> 's \<Rightarrow> (ptr \<times> 's) result) \<Rightarrow> 's \<Rightarrow> (vector \<times> 's) result" where
  "vector_init alloc h =
     bind_result (alloc (8 * word_of_int VECTOR_INIT_CAPACITY) h) (\<lambda>(items, h).
       Inr (\<lparr>vec_items = items, vec_capacity = VECTOR_INIT_CAPACITY, vec_length = 0\<rparr>, h))"

definition vector_new :: "(u64 \<Rightarrow> 's \<Rightarrow> (ptr \<times> 's) result) \<Rightarrow> 's \<Rightarrow> (ptr \<times> vector \<times> 's) result" where
  "vector_new alloc h =
     bind_result (alloc sizeof_vector h) (\<lambda>(vec, h).
       if vec = NULL then Inl Undefined
       else bind_result (vector_init alloc h) (\<lambda>(v, h). Inr (vec, v, h)))"

definition vector_free :: "(ptr \<Rightarrow> 's \<Rightarrow> 's result) \<Rightarrow> ptr \<Rightarrow> vector \<Rightarrow> 's \<Rightarrow> 's result" where
  "vector_free release vec v h = bind_result (release (vec_items v) h) (release vec)"

type_synonym 's resizer = "ptr \<Rightarrow> u64 \<Rightarrow> mem \<Rightarrow> 's \<Rightarrow> (ptr \<times> mem \<times> 's) result"

definition vector_resize :: "'s resizer \<Rightarrow> int \<Rightarrow> mem \<Rightarrow> vector \<Rightarrow> 's \<Rightarrow> (mem \<times> vector \<times> 's) result" where
  "vector_resize resize capacity m v h =
     bind_result (resize (vec_items v) (8 * word_of_int capacity) m h) (\<lambda>(items, m, h).
       Inr (m, if items \<noteq> NULL then v\<lparr>vec_items := items, vec_capacity := capacity\<rparr> else v, h))"

text \<open>Doubling overflows an \<open>int\<close> from 2^30 on; the item is stored even when there was no room for it.\<close>

definition vector_add :: "'s resizer \<Rightarrow> u64 \<Rightarrow> mem \<Rightarrow> vector \<Rightarrow> 's \<Rightarrow> (mem \<times> vector \<times> 's) result" where
  "vector_add resize item m v h =
     bind_result
       (if vec_capacity v = vec_length v
        then if 2 ^ 31 \<le> vec_capacity v * 2 then Inl Undefined
             else vector_resize resize (vec_capacity v * 2) m v h
        else Inr (m, v, h))
       (\<lambda>(m, v, h). if vec_capacity v \<le> vec_length v then Inl Undefined
          else Inr (store_ptr (item_ptr v (vec_length v)) item m, v\<lparr>vec_length := vec_length v + 1\<rparr>, h))"



definition move_item :: "vector \<Rightarrow> int \<Rightarrow> mem \<Rightarrow> mem" where
  "move_item v i m =
     store_ptr (item_ptr v (i + 1)) NULL (store_ptr (item_ptr v i) (mem_read_64 m (item_ptr v (i + 1))) m)"

definition vector_delete :: "'s resizer \<Rightarrow> int \<Rightarrow> mem \<Rightarrow> vector \<Rightarrow> 's \<Rightarrow> (mem \<times> vector \<times> 's) result" where
  "vector_delete resize idx m v h =
     (if idx < 0 \<or> idx \<ge> vec_length v then Inr (m, v, h)
      else let m = store_ptr (item_ptr v idx) NULL m;
               m = fold (\<lambda>i. move_item v (int i)) [nat idx..<nat (vec_length v - 1)] m;
               v = v\<lparr>vec_length := vec_length v - 1\<rparr>
           in if vec_length v > 0 \<and> vec_length v = vec_capacity v div 4
              then vector_resize resize (vec_capacity v div 2) m v h
              else Inr (m, v, h))"

subsection \<open>Splitting a string into words\<close>

text \<open>\<open>p\<close> is the pointer \<open>strtok\<close> keeps between its calls.\<close>

partial_function (option) split_loop ::
  "'s resizer \<Rightarrow> ptr \<Rightarrow> ptr \<Rightarrow> ptr \<Rightarrow> mem \<Rightarrow> vector \<Rightarrow> 's \<Rightarrow> (mem \<times> vector \<times> 's) result option" where
  "split_loop resize delim token p m v h =
     (if token = NULL then Some (Inr (m, v, h))
      else case vector_add resize token m v h of
          Inl e \<Rightarrow> Some (Inl e)
        | Inr (m, v, h) \<Rightarrow> do { (token, p, m) \<leftarrow> strtok m p NULL delim; split_loop resize delim token p m v h })"

definition strsplit ::
  "(u64 \<Rightarrow> 's \<Rightarrow> (ptr \<times> 's) result) \<Rightarrow> 's resizer \<Rightarrow> ptr \<Rightarrow> ptr \<Rightarrow> ptr \<Rightarrow> mem \<Rightarrow> 's \<Rightarrow>
    (ptr \<times> mem \<times> vector \<times> 's) result" where
  "strsplit alloc resize str delim p m h =
     bind_result (vector_new alloc h) (\<lambda>(vec, v, h).
       bind_result (run (do { (token, p, m) \<leftarrow> strtok m p str delim; split_loop resize delim token p m v h }))
         (\<lambda>r. bind_result r (\<lambda>(m, v, h). Inr (vec, m, v, h))))"

subsection \<open>Words in byte memory\<close>

lemma store_ptr_outside: "a \<notin> region p 8 \<Longrightarrow> store_ptr p v m a = m a"
  by (simp add: store_ptr_def poke_outside)

lemma load_store_ptr [simp]: "mem_read_64 (store_ptr p v m) p = v"
proof -
  let ?xs = "map (\<lambda>i. ucast (drop_bit (8 * i) v)) [0..<8] :: u8 list"
  have "bytes (store_ptr p v m) p 8 = ?xs"
    using poke_bytes [of ?xs m p] by (simp add: store_ptr_def)
  then have "bytes (store_ptr p v m) p 8 ! i = ?xs ! i" for i by (rule arg_cong)
  then have "store_ptr p v m (p + of_nat i) = ucast (drop_bit (8 * i) v)" if "i < 8" for i
    using that by (metis (no_types, lifting) nth_bytes nth_map_upt add_0 minus_nat.diff_0)
  from this [of 0] this [of 1] this [of 2] this [of 3] this [of 4] this [of 5] this [of 6] this [of 7]
  have b: "store_ptr p v m p = ucast v" "store_ptr p v m (p + 1) = ucast (drop_bit 8 v)"
    "store_ptr p v m (p + 2) = ucast (drop_bit 16 v)" "store_ptr p v m (p + 3) = ucast (drop_bit 24 v)"
    "store_ptr p v m (p + 4) = ucast (drop_bit 32 v)" "store_ptr p v m (5 + p) = ucast (drop_bit 40 v)"
    "store_ptr p v m (6 + p) = ucast (drop_bit 48 v)" "store_ptr p v m (7 + p) = ucast (drop_bit 56 v)"
    by (simp_all add: add.commute)
  have "mem_read_32 (store_ptr p v m) p = ucast v"
    using le32_word [of v] by (simp add: mem_read_32_bits b)
  moreover have "mem_read_32 (store_ptr p v m) (p + 4) = ucast (drop_bit 32 v)"
    using le32_word [of "drop_bit 32 v"] by (simp add: mem_read_32_bits b)
  moreover have "ucast (ucast v :: u32) OR push_bit 32 (ucast (ucast (drop_bit 32 v) :: u32)) = v"
    by (rule bit_word_eqI) (auto simp: bit_simps)
  ultimately show ?thesis by (simp add: mem_read_64_bits)
qed

text \<open>An array of words, and storing into it.\<close>

definition words :: "mem \<Rightarrow> ptr \<Rightarrow> nat \<Rightarrow> u64 list" where
  "words m p n = map (\<lambda>i. mem_read_64 m (p + of_nat (8 * i))) [0..<n]"

lemma length_words [simp]: "length (words m p n) = n"
  by (simp add: words_def)

lemma words_nth [simp]: "i < n \<Longrightarrow> words m p n ! i = mem_read_64 m (p + of_nat (8 * i))"
  by (simp add: words_def)

lemma word_region: "i < n \<Longrightarrow> region (p + of_nat (8 * i)) 8 \<subseteq> region p (8 * n)"
  using region_add [of p "8 * i" 8] region_mono [of "8 * i + 8" "8 * n" p] by auto

lemma words_cong: "bytes m p (8 * n) = bytes m' q (8 * n) \<Longrightarrow> words m p n = words m' q n"
proof (rule nth_equalityI)
  fix i assume e: "bytes m p (8 * n) = bytes m' q (8 * n)" and "i < length (words m p n)"
  then have i: "8 * i + 8 \<le> 8 * n" by simp
  have n: "8 * n = 8 * i + (8 + (8 * n - (8 * i + 8)))" using i by simp
  from e have "bytes m (p + of_nat (8 * i)) 8 = bytes m' (q + of_nat (8 * i)) 8"
    by (subst (asm) (1 2) n) (simp add: bytes_add del: of_nat_mult)
  then show "words m p n ! i = words m' q n ! i"
    using mem_read_64_bytes [of m "p + of_nat (8 * i)"] i by simp
qed simp

lemma words_store:
  assumes "i < n" and "8 * n \<le> 2 ^ 64"
  shows "words (store_ptr (p + of_nat (8 * i)) x m) p n = (words m p n)[i := x]"
proof (rule nth_equalityI)
  fix j assume "j < length (words (store_ptr (p + of_nat (8 * i)) x m) p n)"
  then have j: "j < n" by simp
  show "words (store_ptr (p + of_nat (8 * i)) x m) p n ! j = (words m p n)[i := x] ! j"
  proof (cases "i = j")
    case True
    then show ?thesis using j by simp
  next
    case False
    have "region (p + of_nat (8 * a)) 8 \<inter> region (p + of_nat (8 * b)) 8 = {}" if "a < b" "b < n" for a b
    proof -
      have "8 * (b - a) + 8 \<le> 2 ^ 64" using that assms(2) by simp
      from region_add_disjoint [OF this, of "p + of_nat (8 * a)"]
      have "region (p + of_nat (8 * a)) (8 * (b - a)) \<inter> region (p + of_nat (8 * b)) 8 = {}"
        using that by (simp add: of_nat_diff algebra_simps)
      moreover have "region (p + of_nat (8 * a)) 8 \<subseteq> region (p + of_nat (8 * a)) (8 * (b - a))"
        using that by (intro region_mono) simp
      ultimately show ?thesis by blast
    qed
    then have "region (p + of_nat (8 * i)) 8 \<inter> region (p + of_nat (8 * j)) 8 = {}"
      using False j assms(1) by (metis inf_commute linorder_neqE_nat)
    then have "bytes (store_ptr (p + of_nat (8 * i)) x m) (p + of_nat (8 * j)) 8 = bytes m (p + of_nat (8 * j)) 8"
      by (intro bytes_cong store_ptr_outside) blast
    from mem_read_64_bytes [OF this] show ?thesis using False j by simp
  qed
qed simp

subsection \<open>Vectors as lists\<close>

definition vec_list :: "mem \<Rightarrow> vector \<Rightarrow> u64 list" where
  "vec_list m v = words m (vec_items v) (nat (vec_length v))"

text \<open>The vector's items are \<open>k\<close> bytes of memory with room for its capacity.\<close>

definition vec_ok :: "vector \<Rightarrow> nat \<Rightarrow> bool" where
  "vec_ok v k \<longleftrightarrow> 0 \<le> vec_length v \<and> vec_length v \<le> vec_capacity v \<and> 1 \<le> vec_capacity v \<and>
     vec_capacity v < 2 ^ 31 \<and> 8 * nat (vec_capacity v) \<le> k \<and> k \<le> 2 ^ 64"

lemma length_vec_list [simp]: "length (vec_list m v) = nat (vec_length v)"
  by (simp add: vec_list_def)

lemma item_ptr_nat: "item_ptr v (int i) = vec_items v + of_nat (8 * i)"
  by (simp add: item_ptr_def)

lemma store_item_outside:
  assumes "vec_ok v k" and "i < nat (vec_capacity v)" and "a \<notin> region (vec_items v) k"
  shows "store_ptr (item_ptr v (int i)) x m a = m a"
proof (rule store_ptr_outside)
  have "region (vec_items v + of_nat (8 * i)) 8 \<subseteq> region (vec_items v) (8 * nat (vec_capacity v))"
    by (rule word_region [OF assms(2)])
  moreover have "region (vec_items v) (8 * nat (vec_capacity v)) \<subseteq> region (vec_items v) k"
    using assms(1) by (intro region_mono) (simp add: vec_ok_def)
  ultimately show "a \<notin> region (item_ptr v (int i)) 8" using assms(3) unfolding item_ptr_nat by blast
qed

lemma store_item_words:
  assumes "vec_ok v k" and "i < n" and "n \<le> nat (vec_capacity v)"
  shows "words (store_ptr (item_ptr v (int i)) x m) (vec_items v) n = (words m (vec_items v) n)[i := x]"
  unfolding item_ptr_nat using assms by (intro words_store) (simp_all add: vec_ok_def)



text \<open>Deleting moves the items behind up by one.\<close>

definition move_up :: "nat \<Rightarrow> u64 list \<Rightarrow> u64 list" where
  "move_up i ws = ws[i := ws ! Suc i, Suc i := 0]"

lemma move_item_words:
  assumes "vec_ok v k" and "Suc i < n" and "n \<le> nat (vec_capacity v)"
  shows "words (move_item v (int i) m) (vec_items v) n = move_up i (words m (vec_items v) n)"
proof -
  have e: "int i + 1 = int (Suc i)" by simp
  have "mem_read_64 m (item_ptr v (int (Suc i))) = words m (vec_items v) n ! Suc i"
    unfolding item_ptr_nat using assms(2) by (simp del: of_nat_mult)
  then show ?thesis
    using assms(2) store_item_words [OF assms(1) _ assms(3)] unfolding move_item_def e move_up_def
    by (simp del: of_nat_Suc)
qed

lemma move_item_outside:
  assumes "vec_ok v k" and "Suc i < nat (vec_capacity v)" and "a \<notin> region (vec_items v) k"
  shows "move_item v (int i) m a = m a"
proof -
  have e: "int i + 1 = int (Suc i)" by simp
  show ?thesis using assms(2) store_item_outside [OF assms(1) _ assms(3)] unfolding move_item_def e
    by (simp del: of_nat_Suc)
qed

lemma move_up_all:
  assumes "d \<le> j" and "j < length ws"
  shows "fold move_up [d..<j] (ws[d := 0]) = take d ws @ take (j - d) (drop (Suc d) ws) @ 0 # drop (Suc j) ws"
  using assms
proof (induction j rule: dec_induct)
  case base
  then show ?case by (simp add: upd_conv_take_nth_drop)
next
  case (step j)
  have "drop (Suc j) ws = ws ! Suc j # drop (Suc (Suc j)) ws" using step.prems by (simp add: Cons_nth_drop_Suc)
  moreover have "take (Suc j - d) (drop (Suc d) ws) = take (j - d) (drop (Suc d) ws) @ [ws ! Suc j]"
    using step by (simp add: Suc_diff_le take_Suc_conv_app_nth)
  ultimately show ?case
    using step by (simp add: move_up_def nth_append list_update_append Suc_diff_le)
qed

lemma fold_move_items:
  assumes "vec_ok v k" and "j < n" and "n \<le> nat (vec_capacity v)"
  shows "words (fold (\<lambda>i. move_item v (int i)) [d..<j] m) (vec_items v) n = fold move_up [d..<j] (words m (vec_items v) n)"
    and "a \<notin> region (vec_items v) k \<Longrightarrow> fold (\<lambda>i. move_item v (int i)) [d..<j] m a = m a"
  using assms(2) by (induction j) (simp_all add: move_item_words [OF assms(1) _ assms(3)] move_item_outside [OF assms(1)] assms(3) less_le_trans [OF _ assms(3)])

text \<open>What \<open>vector_delete\<close> leaves before it shrinks the vector.\<close>

lemma vector_delete_items:
  fixes m :: mem
  assumes "vec_ok v k" and "0 \<le> idx" and "idx < vec_length v"
  defines "m' \<equiv> fold (\<lambda>i. move_item v (int i)) [nat idx..<nat (vec_length v - 1)] (store_ptr (item_ptr v idx) NULL m)"
    and "v' \<equiv> v\<lparr>vec_length := vec_length v - 1\<rparr>"
  shows "vec_list m' v' = take (nat idx) (vec_list m v) @ drop (Suc (nat idx)) (vec_list m v)"
    and "a \<notin> region (vec_items v) k \<Longrightarrow> m' a = m a" and "vec_ok v' k"
proof -
  let ?n = "nat (vec_length v)" and ?i = "nat idx"
  let ?ws = "vec_list m v"
  have i: "idx = int ?i" "?i < ?n" using assms(2,3) by auto
  have n: "?n \<le> nat (vec_capacity v)" using assms(1) by (intro nat_mono) (simp add: vec_ok_def)
  have last: "nat (vec_length v - 1) = ?n - 1" by (simp add: nat_diff_distrib')
  have j: "?i \<le> ?n - 1" "?n - 1 < length ?ws" "?n - 1 < ?n" using i(2) by auto
  have "words m' (vec_items v) ?n = fold move_up [?i..<?n - 1] (?ws[?i := 0])"
    unfolding m'_def last fold_move_items(1) [OF assms(1) j(3) n]
    using store_item_words [OF assms(1) i(2) n, of NULL m] assms(2) by (simp add: vec_list_def)
  also have "\<dots> = take ?i ?ws @ take (?n - 1 - ?i) (drop (Suc ?i) ?ws) @ 0 # drop (Suc (?n - 1)) ?ws"
    by (rule move_up_all [OF j(1,2)])
  also have "\<dots> = take ?i ?ws @ drop (Suc ?i) ?ws @ [0]" using i(2) by simp
  finally have all: "words m' (vec_items v) ?n = take ?i ?ws @ drop (Suc ?i) ?ws @ [0]" .
  have "vec_list m' v' = take (?n - 1) (words m' (vec_items v) ?n)"
    by (simp add: vec_list_def v'_def words_def last take_map)
  then show "vec_list m' v' = take ?i ?ws @ drop (Suc ?i) ?ws"
    unfolding all using i(2) by simp
  show "m' a = m a" if "a \<notin> region (vec_items v) k"
  proof -
    have "?i < nat (vec_capacity v)" using i(2) n by linarith
    from store_item_outside [OF assms(1) this that, of NULL m] show ?thesis
      unfolding m'_def last fold_move_items(2) [OF assms(1) j(3) n that] using i(1) by simp
  qed
  show "vec_ok v' k" using assms(1-3) by (simp add: vec_ok_def v'_def)
qed

text \<open>The items of the vector are a block of their own; \<open>L\<close> are the other blocks.\<close>

definition vec_held :: "('s \<Rightarrow> (ptr \<times> nat) set \<Rightarrow> bool) \<Rightarrow> 's \<Rightarrow> (ptr \<times> nat) set \<Rightarrow> vector \<Rightarrow> nat \<Rightarrow> bool" where
  "vec_held holds s L v k \<longleftrightarrow> holds s (insert (vec_items v, k) L) \<and> (vec_items v, k) \<notin> L \<and> vec_ok v k"

definition same_blocks :: "(ptr \<times> nat) set \<Rightarrow> mem \<Rightarrow> mem \<Rightarrow> bool" where
  "same_blocks L m m' \<longleftrightarrow> (\<forall>(q, l)\<in>L. bytes m' q l = bytes m q l)"

lemma same_blocks_refl [simp]: "same_blocks L m m"
  by (simp add: same_blocks_def)

lemma same_blocks_trans: "same_blocks L m m' \<Longrightarrow> same_blocks L m' m'' \<Longrightarrow> same_blocks L m m''"
  by (fastforce simp: same_blocks_def)

context reallocator
begin

lemma vec_held_fits: "vec_held holds s L v k \<Longrightarrow> vec_items v \<noteq> NULL \<and> fits (vec_items v) k"
  using held_fits [of s "insert (vec_items v, k) L" "vec_items v" k] by (simp add: vec_held_def)

lemma vec_writes_same:
  assumes "vec_held holds s L v k" and "\<And>a. a \<notin> region (vec_items v) k \<Longrightarrow> m' a = m a"
  shows "same_blocks L m m'"
  unfolding same_blocks_def
proof clarify
  fix q l assume q: "(q, l) \<in> L"
  show "bytes m' q l = bytes m q l"
  proof (rule held_untouched [of s "insert (vec_items v, k) L" "vec_items v" k q l k])
    show "(vec_items v, k) \<noteq> (q, l)" using q assms(1) by (auto simp: vec_held_def)
  qed (use assms q in \<open>auto simp: vec_held_def\<close>)
qed

lemma vector_resize_ok:
  assumes "vec_held holds s L v k" and "vec_length v \<le> c" and "1 \<le> c" and "c < 2 ^ 31"
  shows "vector_resize resize c m v s = Inr (m, v, s) \<or>
    (\<exists>m' v' s' k'. vector_resize resize c m v s = Inr (m', v', s') \<and> vec_held holds s' L v' k' \<and>
       vec_list m' v' = vec_list m v \<and> vec_length v' = vec_length v \<and> vec_capacity v' = c \<and> same_blocks L m m')"
proof -
  let ?n = "8 * word_of_int c :: u64"
  have h: "holds s (insert (vec_items v, k) L)" "(vec_items v, k) \<notin> L" "vec_ok v k"
    using assms(1) by (simp_all add: vec_held_def)
  have L: "insert (vec_items v, k) L - {(vec_items v, k)} = L" using h(2) by blast
  have c: "word_of_int c = (of_nat (nat c) :: u64)" "nat c < 2 ^ 31" "1 \<le> nat c" using assms(3,4) by simp_all
  have n: "unat ?n = 8 * nat c" using c(2) unfolding c(1) by (simp add: unat_word_ariths unat_of_nat)
  have pos: "0 < ?n" "unat ?n + 3 < 2 ^ 64" using n c(2,3) by (simp_all add: word_less_nat_alt)
  from resize_step [OF h(1) _ pos, of "vec_items v" k m] L
  consider "resize (vec_items v) ?n m s = Inr (NULL, m, s)"
    | p' k' m' s' where "resize (vec_items v) ?n m s = Inr (p', m', s')" "p' \<noteq> NULL" "unat ?n \<le> k'"
        "holds s' (insert (p', k') L)" "p' \<notin> fst ` L" "bytes m' p' (min k k') = bytes m (vec_items v) (min k k')"
        "\<forall>(q, l)\<in>L. bytes m' q l = bytes m q l"
    by fastforce
  then show ?thesis
  proof cases
    case 1
    then show ?thesis by (simp add: vector_resize_def)
  next
    case (2 p' k' m' s')
    let ?v = "v\<lparr>vec_items := p', vec_capacity := c\<rparr>"
    have "fits p' k'" using held_fits [OF 2(4)] by blast
    then have "k' \<le> 2 ^ 64" by (simp add: fits_def)
    then have "vec_ok ?v k'" using h(3) assms(2-4) 2(3) n by (simp add: vec_ok_def)
    moreover have "(p', k') \<notin> L" using 2(5) by force
    moreover have "8 * nat (vec_length v) \<le> min k k'"
    proof -
      have "nat (vec_length v) \<le> nat c" "nat (vec_length v) \<le> nat (vec_capacity v)" "8 * nat (vec_capacity v) \<le> k"
        using assms(2) h(3) by (auto simp: vec_ok_def intro!: nat_mono)
      then show ?thesis using 2(3) n by linarith
    qed
    then have "bytes m' p' (8 * nat (vec_length v)) = bytes m (vec_items v) (8 * nat (vec_length v))"
      using 2(6) by (metis bytes_add length_bytes append_eq_append_conv le_Suc_ex)
    then have "vec_list m' ?v = vec_list m v"
      unfolding vec_list_def by (simp, intro words_cong)
    ultimately show ?thesis using 2 by (auto simp: vector_resize_def vec_held_def same_blocks_def)
  qed
qed

lemma vector_add_ok:
  assumes "vec_held holds s L v k" and "vec_capacity v < 2 ^ 30"
  shows "vec_length v = vec_capacity v \<and> vector_resize resize (vec_capacity v * 2) m v s = Inr (m, v, s) \<and>
      vector_add resize item m v s = Inl Undefined \<or>
    (\<exists>m' v' s' k'. vector_add resize item m v s = Inr (m', v', s') \<and> vec_held holds s' L v' k' \<and>
       vec_list m' v' = vec_list m v @ [item] \<and> vec_length v' = vec_length v + 1 \<and>
       vec_capacity v' = (if vec_capacity v = vec_length v then vec_capacity v * 2 else vec_capacity v) \<and> same_blocks L m m')"
proof -
  have ok: "0 \<le> vec_length v" "vec_length v \<le> vec_capacity v" "1 \<le> vec_capacity v"
    using assms(1) by (simp_all add: vec_held_def vec_ok_def)
  define c where "c = (if vec_capacity v = vec_length v then vec_capacity v * 2 else vec_capacity v)"
  have put: "\<exists>k'. vec_held holds s' L (v'\<lparr>vec_length := vec_length v' + 1\<rparr>) k' \<and>
      vec_list (store_ptr (item_ptr v' (vec_length v')) item m') (v'\<lparr>vec_length := vec_length v' + 1\<rparr>) = vec_list m' v' @ [item] \<and>
      same_blocks L m' (store_ptr (item_ptr v' (vec_length v')) item m')"
    if h: "vec_held holds s' L v' k'" and room: "vec_length v' < vec_capacity v'" for s' m' v' k'
  proof -
    let ?n = "nat (vec_length v')" and ?m = "store_ptr (item_ptr v' (vec_length v')) item m'"
    have vo: "vec_ok v' k'" using h by (simp add: vec_held_def)
    then have l: "vec_length v' = int ?n" "nat (vec_length v' + 1) = Suc ?n" by (auto simp: vec_ok_def)
    have r: "?n < nat (vec_capacity v')" "Suc ?n \<le> nat (vec_capacity v')" using room l(1) by linarith+
    have "words ?m (vec_items v') (Suc ?n) = (words m' (vec_items v') (Suc ?n))[?n := item]"
      using store_item_words [OF vo lessI r(2), of item m'] l(1) by simp
    then have "vec_list ?m (v'\<lparr>vec_length := vec_length v' + 1\<rparr>) = vec_list m' v' @ [item]"
      by (simp add: vec_list_def l(2)) (simp add: words_def list_update_append)
    moreover have "vec_held holds s' L (v'\<lparr>vec_length := vec_length v' + 1\<rparr>) k'"
      using h room by (simp add: vec_held_def vec_ok_def)
    moreover have "same_blocks L m' ?m"
      using store_item_outside [OF vo r(1), of _ item m'] l(1) by (intro vec_writes_same [OF h]) simp
    ultimately show ?thesis by blast
  qed
  show ?thesis
  proof (cases "vec_capacity v = vec_length v")
    case False
    then have add: "vector_add resize item m v s =
        Inr (store_ptr (item_ptr v (vec_length v)) item m, v\<lparr>vec_length := vec_length v + 1\<rparr>, s)"
      using ok by (simp add: vector_add_def)
    obtain k' where "vec_held holds s L (v\<lparr>vec_length := vec_length v + 1\<rparr>) k'"
      "vec_list (store_ptr (item_ptr v (vec_length v)) item m) (v\<lparr>vec_length := vec_length v + 1\<rparr>) = vec_list m v @ [item]"
      "same_blocks L m (store_ptr (item_ptr v (vec_length v)) item m)"
      using put [OF assms(1), of m] ok False by auto
    then show ?thesis using add False by (intro disjI2 exI conjI) (rule refl | assumption | simp)+
  next
    case True
    have small: "\<not> 2 ^ 31 \<le> vec_capacity v * 2" "vec_capacity v * 2 < 2 ^ 31" using assms(2) by simp_all
    have add: "vector_add resize item m v s = bind_result (vector_resize resize (vec_capacity v * 2) m v s)
       (\<lambda>(m, v, h). if vec_capacity v \<le> vec_length v then Inl Undefined
          else Inr (store_ptr (item_ptr v (vec_length v)) item m, v\<lparr>vec_length := vec_length v + 1\<rparr>, h))"
      using True small(1) by (simp add: vector_add_def)
    have "vec_length v \<le> vec_capacity v * 2" "1 \<le> vec_capacity v * 2" using ok by linarith+
    from vector_resize_ok [OF assms(1) this small(2), of m]
    consider "vector_resize resize (vec_capacity v * 2) m v s = Inr (m, v, s)"
      | m' v' s' k' where "vector_resize resize (vec_capacity v * 2) m v s = Inr (m', v', s')" "vec_held holds s' L v' k'"
        "vec_list m' v' = vec_list m v" "vec_length v' = vec_length v" "vec_capacity v' = vec_capacity v * 2" "same_blocks L m m'"
      by blast
    then show ?thesis
    proof cases
      case 1
      then show ?thesis using True by (simp add: add)
    next
      case (2 m' v' s' k')
      then have room: "vec_length v' < vec_capacity v'" using True ok by simp
      obtain k'' where p: "vec_held holds s' L (v'\<lparr>vec_length := vec_length v' + 1\<rparr>) k''"
        "vec_list (store_ptr (item_ptr v' (vec_length v')) item m') (v'\<lparr>vec_length := vec_length v' + 1\<rparr>) = vec_list m' v' @ [item]"
        "same_blocks L m' (store_ptr (item_ptr v' (vec_length v')) item m')"
        using put [OF 2(2) room, of m'] by blast
      have "vector_add resize item m v s =
          Inr (store_ptr (item_ptr v' (vec_length v')) item m', v'\<lparr>vec_length := vec_length v' + 1\<rparr>, s')"
        using room by (simp add: add 2(1))
      then show ?thesis using p 2 True same_blocks_trans [OF 2(6) p(3)]
        by (intro disjI2 exI conjI) (rule refl | assumption | simp)+
    qed
  qed
qed

lemma vector_delete_ok:
  assumes "vec_held holds s L v k" and "0 \<le> idx" and "idx < vec_length v"
  shows "\<exists>m' v' s' k'. vector_delete resize idx m v s = Inr (m', v', s') \<and> vec_held holds s' L v' k' \<and>
     vec_list m' v' = take (nat idx) (vec_list m v) @ drop (Suc (nat idx)) (vec_list m v) \<and> same_blocks L m m'"
proof -
  have vo: "vec_ok v k" using assms(1) by (simp add: vec_held_def)
  let ?m = "fold (\<lambda>i. move_item v (int i)) [nat idx..<nat (vec_length v - 1)] (store_ptr (item_ptr v idx) NULL m)"
  let ?v = "v\<lparr>vec_length := vec_length v - 1\<rparr>"
  note d = vector_delete_items(1,2) [OF vo assms(2,3), where m = m] vector_delete_items(3) [OF vo assms(2,3)]
  have held: "vec_held holds s L ?v k" using assms(1) d(3) by (simp add: vec_held_def)
  have same: "same_blocks L m ?m" by (rule vec_writes_same [OF assms(1) d(2)])
  have e: "vector_delete resize idx m v s =
      (if vec_length ?v > 0 \<and> vec_length ?v = vec_capacity ?v div 4
       then vector_resize resize (vec_capacity ?v div 2) ?m ?v s else Inr (?m, ?v, s))"
    using assms(2,3) by (simp add: vector_delete_def Let_def del: vector.simps)
  show ?thesis
  proof (cases "vec_length ?v > 0 \<and> vec_length ?v = vec_capacity ?v div 4")
    case False
    then have "vector_delete resize idx m v s = Inr (?m, ?v, s)" unfolding e by (rule if_not_P)
    then show ?thesis using held d(1) same by blast
  next
    case True
    then have r: "vector_delete resize idx m v s = vector_resize resize (vec_capacity ?v div 2) ?m ?v s"
      unfolding e by (rule if_P)
    have "vec_length ?v \<le> vec_capacity ?v div 2" "1 \<le> vec_capacity ?v div 2" "vec_capacity ?v div 2 < 2 ^ 31"
      using True vo by (auto simp: vec_ok_def)
    from vector_resize_ok [OF held this, of ?m] show ?thesis
    proof
      assume "vector_resize resize (vec_capacity ?v div 2) ?m ?v s = Inr (?m, ?v, s)"
      then show ?thesis using r held d(1) same by metis
    next
      assume "\<exists>m' v' s' k'. vector_resize resize (vec_capacity ?v div 2) ?m ?v s = Inr (m', v', s') \<and>
        vec_held holds s' L v' k' \<and> vec_list m' v' = vec_list ?m ?v \<and> vec_length v' = vec_length ?v \<and>
        vec_capacity v' = vec_capacity ?v div 2 \<and> same_blocks L ?m m'"
      then show ?thesis using r d(1) same_blocks_trans [OF same] by metis
    qed
  qed
qed

end

subsection \<open>Copies of strings\<close>

lemma memcpy_string:
  assumes "cstr m s xs" and "j \<le> Suc (length xs)" and "region p j \<inter> region s (Suc (length xs)) = {}"
    and "length xs + 4 < 2 ^ 64" and "memcpy m p s (of_nat j) = (r, m')"
  shows "r = p \<and> bytes m' p j = take j (xs @ [0]) \<and> (\<forall>a. a \<notin> region p j \<longrightarrow> m' a = m a)"
proof -
  have j: "unat (of_nat j :: u64) = j" using assms(2,4) by (simp add: unat_of_nat take_bit_nat_eq_self)
  have "region s j \<subseteq> region s (Suc (length xs))" using assms(2) by (rule region_mono)
  then have d: "region p (unat (of_nat j :: u64)) \<inter> region s (unat (of_nat j :: u64)) = {}"
    unfolding j using assms(3) by blast
  have "bytes m s (length xs + 1) = xs @ [0]" using assms(1) unfolding bytes_add by (simp add: cstr_iff bytes_Suc)
  then have "bytes m s (j + (Suc (length xs) - j)) = xs @ [0]" using assms(2) by simp
  from arg_cong [OF this, of "take j"] have "bytes m s j = take j (xs @ [0])"
    unfolding bytes_add by simp
  then show ?thesis using memcpy_correct [OF d assms(5), unfolded j] by simp
qed

lemma strnlen_cstr:
  assumes "cstr m s xs" and "NULL \<notin> region s (Suc (length xs))"
  shows "strnlen m s n = of_nat (min (unat n) (length xs))"
proof (cases "length xs < unat n")
  case True
  let ?r = "bytes m (s + of_nat (length xs) + 1) (unat n - length xs - 1)"
  have "bytes m s (length xs + Suc (unat n - length xs - 1)) = xs @ 0 # ?r"
    unfolding bytes_add bytes_Suc using assms(1) by (simp add: cstr_iff)
  then have b: "bytes m s (unat n) = xs @ 0 # ?r" using True by simp
  have "takeWhile (\<lambda>x. x \<noteq> 0) (bytes m s (unat n)) = xs"
    unfolding b using assms(1) by (subst takeWhile_append2) (auto simp: cstr_iff)
  then have "memchr m s 0 n = s + of_nat (length xs)" by (simp add: memchr_correct Let_def b)
  moreover have "s + of_nat (length xs) \<noteq> NULL" using assms(2) regionI [of "length xs" "Suc (length xs)" s] by auto
  ultimately show ?thesis using True by (simp add: strnlen_def min_def)
next
  case False
  have "bytes m s (unat n + (length xs - unat n)) = xs" using False assms(1) by (simp add: cstr_iff)
  then have "set (bytes m s (unat n)) \<subseteq> set xs" unfolding bytes_add by (metis set_append Un_upper1)
  then have "0 \<notin> set (bytes m s (unat n))" using assms(1) by (auto simp: cstr_iff)
  then have "memchr m s 0 n = NULL" by (simp add: memchr_correct Let_def)
  then show ?thesis using False by (simp add: strnlen_def min_def)
qed

context allocator
begin

text \<open>The first \<open>j\<close> characters of a string in a live block, copied to a new block.\<close>

lemma held_not_null: "holds s L \<Longrightarrow> (q, l) \<in> L \<Longrightarrow> NULL \<notin> region q l"
proof
  assume h: "holds s L" "(q, l) \<in> L" and "NULL \<in> region q l"
  then obtain i where "i < l" "q + of_nat i = NULL" by (auto simp: region_def)
  then have "unat q + i = 0" using held_fits [OF h] unat_ptr_add [of q l i] by simp
  then show False using held_fits [OF h] by (simp add: unat_eq_zero)
qed

lemma alloc_copy:
  assumes "holds s L" and "(q, l) \<in> L" and "region str (Suc (length xs)) \<subseteq> region q l"
    and "j \<le> length xs" and "length xs + 4 < 2 ^ 64"
  shows "alloc (of_nat j + 1) s = Inr (NULL, s) \<or>
    (\<exists>p s' k. alloc (of_nat j + 1) s = Inr (p, s') \<and> p \<noteq> NULL \<and> j < k \<and> holds s' (insert (p, k) L) \<and> p \<notin> fst ` L \<and>
       region p (Suc j) \<inter> region str (Suc (length xs)) = {} \<and>
       (\<forall>m m'. (\<forall>a. a \<notin> region p (Suc j) \<longrightarrow> m' a = m a) \<longrightarrow> same_blocks L m m'))"
proof -
  have u: "unat (of_nat j + 1 :: u64) = Suc j" using assms(4,5) by (simp add: unat_word_ariths unat_of_nat take_bit_nat_eq_self)
  have "unat (of_nat j + 1 :: u64) + 3 < 2 ^ 64" unfolding u using assms(4,5) by simp
  from alloc_step [OF assms(1) this] show ?thesis
  proof
    assume "\<exists>p s' k. alloc (of_nat j + 1) s = Inr (p, s') \<and> p \<noteq> NULL \<and> unat (of_nat j + 1 :: u64) \<le> k \<and>
      p \<notin> fst ` L \<and> holds s' (insert (p, k) L)"
    then obtain p s' k where a: "alloc (of_nat j + 1) s = Inr (p, s')" "p \<noteq> NULL" "Suc j \<le> k" "p \<notin> fst ` L"
      "holds s' (insert (p, k) L)" unfolding u by blast
    have ne: "(p, k) \<noteq> (q', l')" if "(q', l') \<in> L" for q' l' using a(4) that by force
    have sub: "region p (Suc j) \<subseteq> region p k" using a(3) by (rule region_mono)
    have "region p k \<inter> region q l = {}" using held_disjoint [OF a(5) _ _ ne [OF assms(2)]] assms(2) by blast
    then have d: "region p (Suc j) \<inter> region str (Suc (length xs)) = {}" using sub assms(3) by blast
    have same: "same_blocks L m m'" if "\<forall>a. a \<notin> region p (Suc j) \<longrightarrow> m' a = m a" for m m'
      unfolding same_blocks_def using held_untouched [OF a(5) _ _ ne a(3) that] by blast
    have "j < k" using a(3) by simp
    with same d a(1,2,4,5) show ?thesis
      by (intro disjI2 exI [of _ p] exI [of _ s'] exI [of _ k] conjI allI impI) blast+
  qed simp
qed

lemma strdup_ok:
  assumes "holds s L" and "(q, l) \<in> L" and "region str (Suc (length xs)) \<subseteq> region q l" and "cstr m str xs"
    and "length xs + 4 < 2 ^ 64"
  shows "strdup alloc m str s = Inr (NULL, m, s) \<or>
    (\<exists>p m' s' k. strdup alloc m str s = Inr (p, m', s') \<and> p \<noteq> NULL \<and> length xs < k \<and> holds s' (insert (p, k) L) \<and>
       p \<notin> fst ` L \<and> cstr m' p xs \<and> same_blocks L m m')"
proof -
  let ?n = "of_nat (length xs) + 1 :: u64"
  have dup: "strdup alloc m str s = bind_result (alloc ?n s) (\<lambda>(dup, h).
       if dup = NULL then Inr (NULL, m, h) else let (r, m) = memcpy m dup str ?n in Inr (r, m, h))"
    by (simp add: strdup_def strlen_cstr [OF assms(4)] run_def)
  from alloc_copy [OF assms(1-3) order_refl assms(5)] show ?thesis
  proof
    assume "\<exists>p s' k. alloc ?n s = Inr (p, s') \<and> p \<noteq> NULL \<and> length xs < k \<and> holds s' (insert (p, k) L) \<and> p \<notin> fst ` L \<and>
       region p (Suc (length xs)) \<inter> region str (Suc (length xs)) = {} \<and>
       (\<forall>m m'. (\<forall>a. a \<notin> region p (Suc (length xs)) \<longrightarrow> m' a = m a) \<longrightarrow> same_blocks L m m')"
    then obtain p s' k where a: "alloc ?n s = Inr (p, s')" "p \<noteq> NULL" "length xs < k" "holds s' (insert (p, k) L)" "p \<notin> fst ` L"
      and d: "region p (Suc (length xs)) \<inter> region str (Suc (length xs)) = {}"
      and same: "\<And>m m'. \<forall>a. a \<notin> region p (Suc (length xs)) \<longrightarrow> m' a = m a \<Longrightarrow> same_blocks L m m'" by blast
    obtain r m' where c: "memcpy m p str ?n = (r, m')" by (cases "memcpy m p str ?n") simp
    then have mc: "r = p" "bytes m' p (Suc (length xs)) = xs @ [0]" "\<forall>a. a \<notin> region p (Suc (length xs)) \<longrightarrow> m' a = m a"
      using memcpy_string [OF assms(4) order_refl d assms(5), of r m'] by (simp_all add: add.commute)
    have "bytes m' p (length xs + 1) = xs @ [0]" using mc(2) by simp
    then have "cstr m' p xs" unfolding bytes_add using assms(4) by (simp add: cstr_iff bytes_Suc)
    moreover have "strdup alloc m str s = Inr (p, m', s')" using a(1,2) c mc(1) by (simp add: dup)
    ultimately show ?thesis using a(2-5) same [OF mc(3)] by blast
  qed (simp add: dup)
qed

lemma strndup_ok:
  assumes "holds s L" and "(q, l) \<in> L" and "region str (Suc (length xs)) \<subseteq> region q l" and "cstr m str xs"
    and "length xs + 4 < 2 ^ 64"
  shows "strndup alloc m str n s = Inr (NULL, m, s) \<or>
    (\<exists>p m' s' k. strndup alloc m str n s = Inr (p, m', s') \<and> p \<noteq> NULL \<and> min (unat n) (length xs) < k \<and>
       holds s' (insert (p, k) L) \<and> p \<notin> fst ` L \<and> cstr m' p (take (unat n) xs) \<and> same_blocks L m m')"
proof -
  let ?j = "min (unat n) (length xs)"
  have "NULL \<notin> region str (Suc (length xs))" using held_not_null [OF assms(1,2)] assms(3) by blast
  then have "strnlen m str n = of_nat ?j" by (rule strnlen_cstr [OF assms(4)])
  then have dup: "strndup alloc m str n s = bind_result (alloc (of_nat ?j + 1) s) (\<lambda>(dup, h).
       if dup = NULL then Inr (NULL, m, h)
       else let (r, m) = memcpy m dup str (of_nat ?j) in Inr (dup, m(dup + of_nat ?j := 0), h))"
    by (simp only: strndup_def Let_def)
  have j: "?j \<le> length xs" "?j \<le> Suc (length xs)" by simp_all
  from alloc_copy [OF assms(1-3) j(1) assms(5)] show ?thesis
  proof
    assume "\<exists>p s' k. alloc (of_nat ?j + 1) s = Inr (p, s') \<and> p \<noteq> NULL \<and> ?j < k \<and> holds s' (insert (p, k) L) \<and> p \<notin> fst ` L \<and>
       region p (Suc ?j) \<inter> region str (Suc (length xs)) = {} \<and>
       (\<forall>m m'. (\<forall>a. a \<notin> region p (Suc ?j) \<longrightarrow> m' a = m a) \<longrightarrow> same_blocks L m m')"
    then obtain p s' k where a: "alloc (of_nat ?j + 1) s = Inr (p, s')" "p \<noteq> NULL" "?j < k" "holds s' (insert (p, k) L)" "p \<notin> fst ` L"
      and d: "region p (Suc ?j) \<inter> region str (Suc (length xs)) = {}"
      and same: "\<And>m m'. \<forall>a. a \<notin> region p (Suc ?j) \<longrightarrow> m' a = m a \<Longrightarrow> same_blocks L m m'" by blast
    have sub: "region p ?j \<subseteq> region p (Suc ?j)" "p + of_nat ?j \<in> region p (Suc ?j)"
      by (simp_all add: region_mono regionI del: of_nat_min)
    then have d': "region p ?j \<inter> region str (Suc (length xs)) = {}" using d by blast
    obtain r m' where c: "memcpy m p str (of_nat ?j) = (r, m')" by (cases "memcpy m p str (of_nat ?j)") simp
    note mc = memcpy_string [OF assms(4) j(2) d' assms(5) c]
    let ?m = "m'(p + of_nat ?j := 0)"
    have "bytes ?m p ?j = bytes m' p ?j"
    proof (rule bytes_cong)
      fix a assume "a \<in> region p ?j"
      moreover have "p + of_nat ?j \<notin> region p ?j"
        using region_add_disjoint [of ?j 1 p] assms(5) by (auto simp: region_front)
      ultimately show "?m a = m' a" by auto
    qed
    then have "bytes ?m p ?j = take (unat n) xs" using mc by (simp add: min_def)
    moreover have "length (take (unat n) xs) = ?j" by (simp add: min.commute)
    moreover have "0 \<notin> set (take (unat n) xs)" using assms(4) by (auto simp: cstr_iff dest: in_set_takeD)
    ultimately have "cstr ?m p (take (unat n) xs)" by (simp only: cstr_iff) simp
    moreover have "same_blocks L m ?m" using mc sub by (intro same) auto
    moreover have "strndup alloc m str n s = Inr (p, ?m, s')" using a(1,2) c unfolding dup by simp
    ultimately show ?thesis using a(2-5) by blast
  qed (simp add: dup)
qed

end

subsection \<open>On the kernel's heap\<close>

lemma malloc_kmalloc: "malloc = kmalloc" "realloc = krealloc"
  by (simp_all add: fun_eq_iff malloc_def realloc_def)

text \<open>
  \<open>strdup\<close> and \<open>strndup\<close> of a string that lies in a live block of the kernel's heap: either
  there is no memory, and nothing changes, or the result is a new live block that holds the string
  (its first \<open>n\<close> characters) and its NUL, and no live block changes.
\<close>
theorem strdup_correct:
  assumes "heap_holds h L" and "(q, l) \<in> L" and "region str (Suc (length xs)) \<subseteq> region q l" and "cstr m str xs"
    and "length xs + 4 < 2 ^ 64"
  shows "(strdup malloc m str h = Inr (NULL, m, h) \<or>
      (\<exists>p m' h' k. strdup malloc m str h = Inr (p, m', h') \<and> p \<noteq> NULL \<and> length xs < k \<and>
         heap_holds h' (insert (p, k) L) \<and> p \<notin> fst ` L \<and> cstr m' p xs \<and> same_blocks L m m')) \<and>
    (strndup malloc m str n h = Inr (NULL, m, h) \<or>
      (\<exists>p m' h' k. strndup malloc m str n h = Inr (p, m', h') \<and> p \<noteq> NULL \<and> min (unat n) (length xs) < k \<and>
         heap_holds h' (insert (p, k) L) \<and> p \<notin> fst ` L \<and> cstr m' p (take (unat n) xs) \<and> same_blocks L m m'))"
  unfolding malloc_kmalloc by (rule conjI [OF kernel_heap.strdup_ok [OF assms] kernel_heap.strndup_ok [OF assms]])

theorem strdup_correct_witness:
  "\<exists>h q m. cstr m q [104, 105] \<and> (strdup malloc m q h = Inr (NULL, m, h) \<or>
     (\<exists>p m' h'. strdup malloc m q h = Inr (p, m', h') \<and> p \<noteq> q \<and> cstr m' p [104, 105])) \<and>
     (strndup malloc m q 1 h = Inr (NULL, m, h) \<or>
     (\<exists>p m' h'. strndup malloc m q 1 h = Inr (p, m', h') \<and> p \<noteq> q \<and> cstr m' p [104]))"
proof -
  obtain h C A q l where e: "heap_ok h C A" "(q, l) \<in> live C A" "(100::nat) \<le> l" using example_block by blast
  then have h: "heap_holds h (live C A)" by (auto simp: heap_holds_def)
  define m :: mem where "m = poke (\<lambda>_. 0) q [104, 105]"
  have c: "cstr m q [104, 105]" by (simp add: m_def)
  have "region q (Suc (length [104, 105 :: u8])) \<subseteq> region q l" using e(3) by (intro region_mono) simp
  note w = strdup_correct [OF h e(2) this c, of 1]
  have "q \<in> fst ` live C A" using e(2) by force
  then show ?thesis using w c by (intro exI [of _ h] exI [of _ q] exI [of _ m]) fastforce
qed



end
