(* ===== verification/Boot.thy ===== *)
theory Boot
  imports MemMap Access
begin

text \<open>
  What the boot loader passes: \<open>kernel/boot/mb2_info.c\<close> walks the tags of the multiboot 2
  information structure and remembers where each of them is, \<open>kernel/boot/elf.c\<close> finds the end of
  the kernel's image in its sections, and \<open>mem_init\<close> reads the memory map.  The structs of
  \<open>mb2_type.h\<close> are records, read from byte memory.
\<close>

subsection \<open>Tags\<close>

definition MB2_BOOTLOADER_MAGIC :: u64 where "MB2_BOOTLOADER_MAGIC = 0x36d76289"

definition MB2_TAG_TYPE_END :: u32 where "MB2_TAG_TYPE_END = 0"
definition MB2_TAG_TYPE_CMDLINE :: u32 where "MB2_TAG_TYPE_CMDLINE = 1"
definition MB2_TAG_TYPE_BOOT_LOADER_NAME :: u32 where "MB2_TAG_TYPE_BOOT_LOADER_NAME = 2"
definition MB2_TAG_TYPE_BASIC_MEMINFO :: u32 where "MB2_TAG_TYPE_BASIC_MEMINFO = 4"
definition MB2_TAG_TYPE_BOOTDEV :: u32 where "MB2_TAG_TYPE_BOOTDEV = 5"
definition MB2_TAG_TYPE_MMAP :: u32 where "MB2_TAG_TYPE_MMAP = 6"
definition MB2_TAG_TYPE_VBE :: u32 where "MB2_TAG_TYPE_VBE = 7"
definition MB2_TAG_TYPE_FRAMEBUFFER :: u32 where "MB2_TAG_TYPE_FRAMEBUFFER = 8"
definition MB2_TAG_TYPE_ELF_SECTIONS :: u32 where "MB2_TAG_TYPE_ELF_SECTIONS = 9"
definition MB2_TAG_TYPE_APM :: u32 where "MB2_TAG_TYPE_APM = 10"
definition MB2_TAG_TYPE_ACPI_OLD :: u32 where "MB2_TAG_TYPE_ACPI_OLD = 14"
definition MB2_TAG_TYPE_ACPI_NEW :: u32 where "MB2_TAG_TYPE_ACPI_NEW = 15"
definition MB2_TAG_TYPE_LOAD_BASE_ADDR :: u32 where "MB2_TAG_TYPE_LOAD_BASE_ADDR = 21"

definition MB2_FRAMEBUFFER_TYPE_INDEXED :: u8 where "MB2_FRAMEBUFFER_TYPE_INDEXED = 0"
definition MB2_FRAMEBUFFER_TYPE_RGB :: u8 where "MB2_FRAMEBUFFER_TYPE_RGB = 1"
definition MB2_FRAMEBUFFER_TYPE_EGA_TEXT :: u8 where "MB2_FRAMEBUFFER_TYPE_EGA_TEXT = 2"

definition tag_type :: "mem \<Rightarrow> ptr \<Rightarrow> u32" where "tag_type m t = mem_read_32 m t"
definition tag_size :: "mem \<Rightarrow> ptr \<Rightarrow> u32" where "tag_size m t = mem_read_32 m (t + 4)"

definition tag_string :: "ptr \<Rightarrow> ptr" where "tag_string t = t + 8"
definition tag_load_base_addr :: "mem \<Rightarrow> ptr \<Rightarrow> u32" where "tag_load_base_addr m t = mem_read_32 m (t + 8)"

text \<open>\<open>mem_lower\<close> and \<open>mem_upper\<close>.\<close>

definition tag_basic_meminfo :: "mem \<Rightarrow> ptr \<Rightarrow> u32 \<times> u32" where
  "tag_basic_meminfo m t = (mem_read_32 m (t + 8), mem_read_32 m (t + 12))"

text \<open>\<open>biosdev\<close>, \<open>slice\<close> and \<open>part\<close>.\<close>

definition tag_bootdev :: "mem \<Rightarrow> ptr \<Rightarrow> u32 \<times> u32 \<times> u32" where
  "tag_bootdev m t = (mem_read_32 m (t + 8), mem_read_32 m (t + 12), mem_read_32 m (t + 16))"

definition tag_mmap_entry_size :: "mem \<Rightarrow> ptr \<Rightarrow> u32" where "tag_mmap_entry_size m t = mem_read_32 m (t + 8)"
definition tag_mmap_entries :: "ptr \<Rightarrow> ptr" where "tag_mmap_entries t = t + 16"

definition read_mmap_entry :: "mem \<Rightarrow> ptr \<Rightarrow> mb2_mmap_entry" where
  "read_mmap_entry m p =
     \<lparr>mmap_addr = mem_read_64 m p, mmap_len = mem_read_64 m (p + 8), mmap_type = mem_read_32 m (p + 16)\<rparr>"

definition tag_vbe_mode :: "mem \<Rightarrow> ptr \<Rightarrow> u16" where "tag_vbe_mode m t = ucast (mem_read_16 m (t + 8))"
definition tag_vbe_control_info :: "ptr \<Rightarrow> ptr" where "tag_vbe_control_info t = t + 16"

record mb2_tag_framebuffer_common =
  framebuffer_addr :: u64
  framebuffer_pitch :: u32
  framebuffer_width :: u32
  framebuffer_height :: u32
  framebuffer_bpp :: u8
  framebuffer_type :: u8

definition tag_framebuffer :: "mem \<Rightarrow> ptr \<Rightarrow> mb2_tag_framebuffer_common" where
  "tag_framebuffer m t =
     \<lparr>framebuffer_addr = mem_read_64 m (t + 8), framebuffer_pitch = mem_read_32 m (t + 16),
      framebuffer_width = mem_read_32 m (t + 20), framebuffer_height = mem_read_32 m (t + 24),
      framebuffer_bpp = m (t + 28), framebuffer_type = m (t + 29)\<rparr>"

record mb2_tag_elf_sections =
  elf_count :: u32
  elf_entry_size :: u32
  section_name_table_index :: u32
  elf_sections_addr :: ptr

definition tag_elf_sections :: "mem \<Rightarrow> ptr \<Rightarrow> mb2_tag_elf_sections" where
  "tag_elf_sections m t =
     \<lparr>elf_count = mem_read_32 m (t + 8), elf_entry_size = mem_read_32 m (t + 12),
      section_name_table_index = mem_read_32 m (t + 16), elf_sections_addr = t + 20\<rparr>"

record mb2_tag_apm =
  apm_cseg :: u16
  apm_dseg :: u16
  apm_cseg_len :: u16
  apm_dseg_len :: u16

definition tag_apm :: "mem \<Rightarrow> ptr \<Rightarrow> mb2_tag_apm" where
  "tag_apm m t =
     \<lparr>apm_cseg = ucast (mem_read_16 m (t + 10)), apm_dseg = ucast (mem_read_16 m (t + 18)),
      apm_cseg_len = ucast (mem_read_16 m (t + 22)), apm_dseg_len = ucast (mem_read_16 m (t + 26))\<rparr>"

subsection \<open>The walk over the tags\<close>

record mb2_info =
  bootloader_name :: ptr
  kernel_cmd_line :: ptr
  kernel_base_addr :: u64
  basic_meminfo_tag :: ptr
  mem_map_tag :: ptr
  rsdp_tag :: ptr
  bootdev_tag :: ptr
  elf_sections_tag :: ptr
  framebuffer_tag :: ptr
  vbe_tag :: ptr
  apm_tag :: ptr

definition mbi_zero :: mb2_info where
  "mbi_zero = \<lparr>bootloader_name = NULL, kernel_cmd_line = NULL, kernel_base_addr = 0, basic_meminfo_tag = NULL,
     mem_map_tag = NULL, rsdp_tag = NULL, bootdev_tag = NULL, elf_sections_tag = NULL, framebuffer_tag = NULL,
     vbe_tag = NULL, apm_tag = NULL\<rparr>"

text \<open>The body of the loop: the \<open>switch\<close>, and the tag behind, whose offset is computed in 32 bits.\<close>

definition mb2_record :: "mem \<Rightarrow> ptr \<Rightarrow> mb2_info \<Rightarrow> mb2_info" where
  "mb2_record m t mbi =
     (let ty = tag_type m t
      in if ty = MB2_TAG_TYPE_CMDLINE then mbi\<lparr>kernel_cmd_line := tag_string t\<rparr>
         else if ty = MB2_TAG_TYPE_BOOT_LOADER_NAME then mbi\<lparr>bootloader_name := tag_string t\<rparr>
         else if ty = MB2_TAG_TYPE_BASIC_MEMINFO then mbi\<lparr>basic_meminfo_tag := t\<rparr>
         else if ty = MB2_TAG_TYPE_MMAP then mbi\<lparr>mem_map_tag := t\<rparr>
         else if ty = MB2_TAG_TYPE_VBE then mbi\<lparr>vbe_tag := t\<rparr>
         else if ty = MB2_TAG_TYPE_BOOTDEV then mbi\<lparr>bootdev_tag := t\<rparr>
         else if ty = MB2_TAG_TYPE_FRAMEBUFFER then mbi\<lparr>framebuffer_tag := t\<rparr>
         else if ty = MB2_TAG_TYPE_LOAD_BASE_ADDR then mbi\<lparr>kernel_base_addr := ucast (tag_load_base_addr m t)\<rparr>
         else if ty = MB2_TAG_TYPE_APM then mbi\<lparr>apm_tag := t\<rparr>
         else if ty = MB2_TAG_TYPE_ELF_SECTIONS then mbi\<lparr>elf_sections_tag := t\<rparr>
         else if ty = MB2_TAG_TYPE_ACPI_OLD \<or> ty = MB2_TAG_TYPE_ACPI_NEW then mbi\<lparr>rsdp_tag := t\<rparr>
         else mbi)"

definition mb2_next :: "mem \<Rightarrow> ptr \<Rightarrow> ptr" where
  "mb2_next m t = t + ucast ((tag_size m t + 7) AND NOT 7)"

partial_function (option) mb2_walk :: "mem \<Rightarrow> ptr \<Rightarrow> mb2_info \<Rightarrow> mb2_info option" where
  "mb2_walk m t mbi =
     (if tag_type m t = MB2_TAG_TYPE_END then Some mbi
      else mb2_walk m (mb2_next m t) (mb2_record m t mbi))"

definition mb2_info_init :: "mem \<Rightarrow> u64 \<Rightarrow> mb2_info \<Rightarrow> mb2_info option" where
  "mb2_info_init m kernel_addr mbi = mb2_walk m (kernel_addr + 8) mbi"

text \<open>The console commands.  The tags they print are dereferenced unchecked.\<close>

definition mb2_info_print :: "mem \<Rightarrow> mb2_info \<Rightarrow> printed result" where
  "mb2_info_print m mbi =
     (if bootdev_tag mbi = NULL \<or> apm_tag mbi = NULL \<or> elf_sections_tag mbi = NULL \<or> framebuffer_tag mbi = NULL
      then Inl Undefined
      else let (biosdev, slice, part) = tag_bootdev m (bootdev_tag mbi);
               apm = tag_apm m (apm_tag mbi);
               fb = tag_framebuffer m (framebuffer_tag mbi)
           in Inr
             [(''Boot loader name = %s\<newline>'', [PChars (bootloader_name mbi)]),
              (''Boot device 0x%x,%u,%u\<newline>'', [PNum (ucast biosdev), PNum (ucast slice), PNum (ucast part)]),
              (''Load base addr 0x%lx\<newline>'', [PNum (kernel_base_addr mbi)]),
              (''APM cseg=%d:%d, dseg=%d:%d\<newline>'',
                 [PNum (ucast (apm_cseg apm)), PNum (ucast (apm_cseg_len apm)), PNum (ucast (apm_dseg apm)),
                  PNum (ucast (apm_dseg_len apm))]),
              (''ELF sections: %d\<newline>'', [PNum (ucast (elf_count (tag_elf_sections m (elf_sections_tag mbi))))]),
              (''Screen %d x %d\<newline>'', [PNum (ucast (framebuffer_width fb)), PNum (ucast (framebuffer_height fb))]),
              (''Command line = %s\<newline>'', [PChars (kernel_cmd_line mbi)])])"

definition mb2_fb_info_print :: "mem \<Rightarrow> mb2_info \<Rightarrow> printed result" where
  "mb2_fb_info_print m mbi =
     (if framebuffer_tag mbi = NULL then Inl Undefined
      else let fb = tag_framebuffer m (framebuffer_tag mbi);
               rgb = framebuffer_type fb = MB2_FRAMEBUFFER_TYPE_RGB
           in if rgb \<and> vbe_tag mbi = NULL then Inl Undefined
              else Inr
                ((if rgb
                  then [(''Type: VBE RGB Mode\<newline>'', []),
                        (''VBE Mode: 0x%x\<newline>'', [PNum (ucast (tag_vbe_mode m (vbe_tag mbi)))]),
                        (''VBE Control Info: %s\<newline>'', [PChars (tag_vbe_control_info (vbe_tag mbi))])]
                  else [(''Type: VGA Text Mode\<newline>'', [])]) @
                 (let fb_size = ucast (framebuffer_width fb * framebuffer_height fb) * 4
                  in [(''FB Address: 0x%.12lx - 0x%.12lx\<newline>'', [PNum (framebuffer_addr fb), PNum (framebuffer_addr fb + fb_size)]),
                      (''Width: %d\<newline>'', [PNum (ucast (framebuffer_width fb))]),
                      (''Height: %d\<newline>'', [PNum (ucast (framebuffer_height fb))]),
                      (''Bits Per Pixel: %d\<newline>'', [PNum (ucast (framebuffer_bpp fb))])])))"

subsection \<open>The memory map\<close>

text \<open>The loops over the memory map run from its first entry to the end of the tag.\<close>

partial_function (option) mmap_loop :: "mem \<Rightarrow> ptr \<Rightarrow> ptr \<Rightarrow> mb2_mmap_entry list option" where
  "mmap_loop m t p =
     (if p < t + ucast (tag_size m t)
      then do { es \<leftarrow> mmap_loop m t (p + ucast (tag_mmap_entry_size m t)); Some (read_mmap_entry m p # es) }
      else Some [])"

subsection \<open>ELF sections\<close>

definition KERNEL_LOAD_ADDR :: u64 where "KERNEL_LOAD_ADDR = 0x100000"

record elf_section =
  section_name :: u32
  section_type :: u32
  section_addr :: u64
  section_size :: u64

definition read_section :: "mem \<Rightarrow> ptr \<Rightarrow> elf_section" where
  "read_section m p =
     \<lparr>section_name = mem_read_32 m p, section_type = mem_read_32 m (p + 4),
      section_addr = mem_read_64 m (p + 16), section_size = mem_read_64 m (p + 32)\<rparr>"

text \<open>The offset of a section is computed in 32 bits.\<close>

definition section_ptr :: "mb2_tag_elf_sections \<Rightarrow> u32 \<Rightarrow> ptr" where
  "section_ptr tag i = elf_sections_addr tag + ucast (i * elf_entry_size tag)"

definition section_ptrs :: "mb2_tag_elf_sections \<Rightarrow> ptr list" where
  "section_ptrs tag = map (\<lambda>i. section_ptr tag (of_nat i)) [0..<unat (elf_count tag)]"

definition elf_init :: "mem \<Rightarrow> ptr \<Rightarrow> u64 \<Rightarrow> u64 result" where
  "elf_init m sections_tag max_kernel_addr =
     (if sections_tag = NULL then Inl Undefined
      else Inr (fold (\<lambda>p a. let s = read_section m p; e = section_addr s + section_size s in if a > e then a else e)
             (section_ptrs (tag_elf_sections m sections_tag)) max_kernel_addr))"

definition find_section :: "mem \<Rightarrow> mb2_tag_elf_sections \<Rightarrow> u32 \<Rightarrow> ptr" where
  "find_section m tag ty =
     (case find (\<lambda>p. section_type (read_section m p) = ty) (section_ptrs tag) of None \<Rightarrow> NULL | Some p \<Rightarrow> p)"

definition elf_print_info :: "mem \<Rightarrow> mb2_tag_elf_sections \<Rightarrow> u64 \<Rightarrow> printed" where
  "elf_print_info m tag max_kernel_addr =
     (let str = read_section m (section_ptr tag (section_name_table_index tag))
      in [(''  %2s  %2s  %9s  %6s\<newline>'', [PStr ''#'', PStr ''Type'', PStr ''Addr'', PStr ''Size'']),
          (''  ==  ====       ====    ====\<newline>'', [])] @
         map (\<lambda>(i, p). let s = read_section m p
            in (''  %2d    %2d  %9lx  %6ld  %s\<newline>'',
                [PNum (of_nat i), PNum (ucast (section_type s)), PNum (section_addr s), PNum (section_size s),
                 PChars (ucast (section_name s) + section_addr str)]))
           (enumerate 0 (section_ptrs tag)) @
         [(''  Kernel Range: %lx - %lx (%ld Kb)'',
             [PNum KERNEL_LOAD_ADDR, PNum max_kernel_addr, PNum ((max_kernel_addr - KERNEL_LOAD_ADDR) div 1024)])])"

subsection \<open>From the boot information to the memory system\<close>

definition validate_boot :: "u64 \<Rightarrow> u64 \<Rightarrow> unit result" where
  "validate_boot magic kernel_addr =
     kassert (magic = MB2_BOOTLOADER_MAGIC) ''Invalid magic number: 0x%x\<newline>''
    (kassert (kernel_addr AND 7 = 0) ''Unaligned kernel_init: 0x%lx\<newline>'' (Inr ()))"

text \<open>
  The call of \<open>mem_init\<close> in \<open>kernel_init\<close> with the tags the boot loader passed.  A walk over the
  memory map that does not end is \<open>None\<close>; the map is read at once, while the code walks it once for
  each of its three loops.  The information structure is not part of the memory \<open>mem_init\<close> writes.
\<close>

definition boot_mem_init ::
  "mem \<Rightarrow> (u64 \<Rightarrow> u64 \<Rightarrow> vm_state \<Rightarrow> (unit \<times> vm_state) result) \<Rightarrow> u64 \<Rightarrow> mb2_info \<Rightarrow> mem_state \<Rightarrow>
    mem_state result option" where
  "boot_mem_init m heap_init max_kernel_addr mbi s =
     (let mm = mem_map_tag mbi; bm = basic_meminfo_tag mbi
      in do {
        mmaps \<leftarrow> (if mm = NULL then Some None else if bm = NULL then Some (Some [])
                  else map_option Some (mmap_loop m mm (tag_mmap_entries mm)));
        Some (mem_init max_kernel_addr heap_init (if bm = NULL then None else Some (tag_basic_meminfo m bm)) mmaps s) })"

subsection \<open>When the walk ends\<close>

fun tag_chain :: "mem \<Rightarrow> ptr \<Rightarrow> ptr list \<Rightarrow> bool" where
  "tag_chain m t [] \<longleftrightarrow> tag_type m t = MB2_TAG_TYPE_END"
| "tag_chain m t (u # us) \<longleftrightarrow> u = t \<and> tag_type m t \<noteq> MB2_TAG_TYPE_END \<and> tag_chain m (mb2_next m t) us"

lemma mb2_walk_chain: "tag_chain m t ts \<Longrightarrow> mb2_walk m t mbi = Some (fold (mb2_record m) ts mbi)"
  by (induction ts arbitrary: t mbi) (auto simp: mb2_walk.simps [of m t for t])

lemma mb2_walk_returns: "mb2_walk m t mbi = Some r \<Longrightarrow> \<exists>ts. tag_chain m t ts"
proof (induction rule: mb2_walk.raw_induct [rotated, consumes 1])
  case (1 walk m t mbi r)
  then show ?case
  proof (cases "tag_type m t = MB2_TAG_TYPE_END")
    case True
    then have "tag_chain m t []" by simp
    then show ?thesis ..
  next
    case False
    then have "walk m (mb2_next m t) (mb2_record m t mbi) = Some r" using 1(2) by simp
    from 1(1) [OF this] obtain ts where "tag_chain m (mb2_next m t) ts" ..
    then have "tag_chain m t (t # ts)" using False by simp
    then show ?thesis ..
  qed
qed

text \<open>A tag whose size rounds to 0 is its own successor.\<close>

lemma unat_round_tag: "unat ((w + 7) AND NOT 7) = 8 * (unat (w + 7) div 8)" for w :: u32
  using unat_and_not_mask [of "w + 7" 3] by (simp add: mask_eq_exp_minus_1)

lemma mb2_next_stuck: "tag_size m t = 0 \<or> tag_size m t > 0xFFFFFFF8 \<Longrightarrow> mb2_next m t = t"
proof -
  assume s: "tag_size m t = 0 \<or> tag_size m t > 0xFFFFFFF8"
  have "unat (tag_size m t + 7) < 8"
  proof (cases "tag_size m t = 0")
    case False
    then have "0xFFFFFFF8 < unat (tag_size m t)" using s by (simp add: word_less_nat_alt)
    then have "(unat (tag_size m t) + 7) mod 2 ^ 32 < 8"
      using unsigned_less [of "tag_size m t", where 'a = nat] by (simp add: le_mod_geq)
    then show ?thesis by (simp add: unat_word_ariths)
  qed simp
  then have "unat ((tag_size m t + 7) AND NOT 7) = 0" unfolding unat_round_tag by simp
  then have "(tag_size m t + 7) AND NOT 7 = 0" by (simp only: unat_eq_zero)
  then show ?thesis by (simp add: mb2_next_def)
qed

lemma mb2_next_size:
  assumes "unat (tag_size m t) \<le> 2 ^ 32 - 8"
  shows "mb2_next m t = t + of_nat (8 * ((unat (tag_size m t) + 7) div 8))"
proof -
  have "unat (tag_size m t + 7) = unat (tag_size m t) + 7"
    using assms by (simp add: unat_word_ariths)
  then have "unat ((tag_size m t + 7) AND NOT 7) = 8 * ((unat (tag_size m t) + 7) div 8)"
    unfolding unat_round_tag by simp
  then show ?thesis unfolding mb2_next_def by (metis of_nat_unat)
qed

text \<open>
  The tags \<open>ts\<close> from \<open>p\<close> on, each at the multiple of 8 bytes behind the one before it, and \<open>e\<close>
  behind the last one; a tag with a size that rounds to 0 in 32 bits is none of them.
\<close>

definition stuck_size :: "mem \<Rightarrow> ptr \<Rightarrow> bool" where
  "stuck_size m t \<longleftrightarrow> unat (tag_size m t) = 0 \<or> 2 ^ 32 - 8 < unat (tag_size m t)"

fun sized_tags :: "mem \<Rightarrow> ptr \<Rightarrow> ptr list \<Rightarrow> ptr \<Rightarrow> bool" where
  "sized_tags m p [] e \<longleftrightarrow> e = p"
| "sized_tags m p (t # ts) e \<longleftrightarrow>
     t = p \<and> tag_type m t \<noteq> MB2_TAG_TYPE_END \<and> 0 < unat (tag_size m t) \<and> unat (tag_size m t) \<le> 2 ^ 32 - 8 \<and>
     sized_tags m (t + of_nat (8 * ((unat (tag_size m t) + 7) div 8))) ts e"

lemma sized_tags_chain:
  "sized_tags m p ts e \<Longrightarrow> tag_type m e = MB2_TAG_TYPE_END \<Longrightarrow> tag_chain m p ts"
  by (induction ts arbitrary: p) (simp_all add: mb2_next_size)

lemma stuck_no_chain:
  assumes "stuck_size m t"
  shows "tag_type m t \<noteq> MB2_TAG_TYPE_END \<Longrightarrow> \<not> tag_chain m t us"
proof (induction us)
  case (Cons u us)
  have "mb2_next m t = t" using assms
    by (intro mb2_next_stuck) (simp add: stuck_size_def word_less_nat_alt unat_eq_zero)
  then show ?case using Cons by simp
qed simp

lemma sized_tags_stuck:
  "sized_tags m p ts e \<Longrightarrow> tag_type m e \<noteq> MB2_TAG_TYPE_END \<and> stuck_size m e \<Longrightarrow> \<nexists>us. tag_chain m p us"
proof (induction ts arbitrary: p)
  case Nil
  then show ?case using stuck_no_chain by simp
next
  case (Cons t ts)
  have z: "unat (tag_size m t) \<le> 2 ^ 32 - 8" "sized_tags m (t + of_nat (8 * ((unat (tag_size m t) + 7) div 8))) ts e"
    using Cons.prems(1) by auto
  have "sized_tags m (mb2_next m t) ts e" using z(2) unfolding mb2_next_size [OF z(1)] .
  then have "\<nexists>us. tag_chain m (mb2_next m t) us" using Cons.IH Cons.prems(2) by blast
  moreover have "t = p" "tag_type m p \<noteq> MB2_TAG_TYPE_END" using Cons.prems by auto
  ultimately have "\<not> tag_chain m p us" for us by (cases us) simp_all
  then show ?case by blast
qed

lemma chain_sized_tags:
  "tag_chain m p ts \<Longrightarrow> \<exists>e. sized_tags m p ts e \<and> tag_type m e = MB2_TAG_TYPE_END"
proof (induction ts arbitrary: p)
  case (Cons t ts)
  then have t: "t = p" "tag_type m p \<noteq> MB2_TAG_TYPE_END" by simp_all
  then have "\<not> stuck_size m p" using stuck_no_chain Cons.prems by blast
  then have z: "0 < unat (tag_size m p)" "unat (tag_size m p) \<le> 2 ^ 32 - 8"
    unfolding stuck_size_def by linarith+
  then show ?case using Cons t by (auto simp: mb2_next_size)
qed simp

subsection \<open>Conforming information\<close>

text \<open>A tag is its type and what follows type and size; behind it is padding up to a multiple of 8.\<close>

type_synonym boot_tag = "u32 \<times> u8 list"

definition tag_bytes :: "boot_tag \<Rightarrow> u8 list" where
  "tag_bytes t = le32 (fst t) @ le32 (of_nat (8 + length (snd t))) @ snd t @ replicate ((8 - length (snd t) mod 8) mod 8) 0"

definition info_bytes :: "boot_tag list \<Rightarrow> u8 list" where
  "info_bytes tags = concat (map tag_bytes tags) @ le32 MB2_TAG_TYPE_END @ le32 8"

definition tag_ok :: "boot_tag \<Rightarrow> bool" where
  "tag_ok t \<longleftrightarrow> fst t \<noteq> MB2_TAG_TYPE_END \<and> length (snd t) + 16 < 2 ^ 32"

text \<open>Where the tags are, and the last of them with one of the types \<open>T\<close>.\<close>

fun located :: "ptr \<Rightarrow> boot_tag list \<Rightarrow> (ptr \<times> u32) list" where
  "located p [] = []"
| "located p (t # ts) = (p, fst t) # located (p + of_nat (length (tag_bytes t))) ts"

definition latest :: "u32 set \<Rightarrow> ptr \<Rightarrow> boot_tag list \<Rightarrow> ptr option" where
  "latest T p tags =
     (case filter (\<lambda>(q, ty). ty \<in> T) (located p tags) of [] \<Rightarrow> None | us \<Rightarrow> Some (fst (last us)))"

lemma length_tag_bytes: "length (tag_bytes t) = 8 * ((length (snd t) + 15) div 8)"
proof -
  have "n + (8 - n mod 8) mod 8 = 8 * ((n + 7) div 8)" for n :: nat
  proof -
    obtain a b where n: "n = 8 * a + b" "b < 8" by (metis mult_div_mod_eq mod_less_divisor zero_less_numeral)
    have "n mod 8 = b" using n by simp
    moreover have "(n + 7) div 8 = a + (b + 7) div 8"
      using div_mult_self2 [of 8 "b + 7" a] unfolding n(1) by (simp add: ac_simps)
    moreover have "b \<in> {0, 1, 2, 3, 4, 5, 6, 7}" using n(2) by auto
    then have "b + (8 - b) mod 8 = 8 * ((b + 7) div 8)" by (elim insertE) simp_all
    ultimately show ?thesis using n(1) by simp
  qed
  from this [of "length (snd t)"] have "length (tag_bytes t) = 8 * ((length (snd t) + 7) div 8 + 1)"
    by (simp add: tag_bytes_def)
  then show ?thesis using div_add_self2 [of 8 "length (snd t) + 7"] by (simp add: ac_simps)
qed

lemma tag_bytes_read:
  assumes "bytes m p (length (tag_bytes t)) = tag_bytes t" and "tag_ok t"
  shows "tag_type m p = fst t" and "mb2_next m p = p + of_nat (length (tag_bytes t))"
proof -
  let ?n = "length (snd t)"
  have "length (tag_bytes t) = 4 + (4 + (length (tag_bytes t) - 8))" by (simp add: tag_bytes_def)
  with assms(1) have "bytes m p (4 + (4 + (length (tag_bytes t) - 8))) = tag_bytes t" by simp
  then have b: "bytes m p 4 = le32 (fst t)" "bytes m (p + 4) 4 = le32 (of_nat (8 + ?n))"
    unfolding bytes_add tag_bytes_def by simp_all
  show "tag_type m p = fst t" unfolding tag_type_def by (rule read_le32 [OF b(1)])
  have s: "tag_size m p = of_nat (8 + ?n)" unfolding tag_size_def by (rule read_le32 [OF b(2)])
  have "unat (of_nat (15 + ?n) :: u32) = 15 + ?n" unfolding unat_of_nat using assms(2) by (simp add: tag_ok_def)
  moreover have "tag_size m p + 7 = of_nat (15 + ?n)" unfolding s by simp
  ultimately have "unat ((tag_size m p + 7) AND NOT 7) = 8 * ((15 + ?n) div 8)"
    unfolding unat_round_tag by simp
  then show "mb2_next m p = p + of_nat (length (tag_bytes t))"
    unfolding mb2_next_def length_tag_bytes
    by (metis add.commute of_nat_unat)
qed

lemma info_chain:
  assumes "bytes m p (length (info_bytes tags)) = info_bytes tags" and "\<forall>t\<in>set tags. tag_ok t"
  shows "tag_chain m p (map fst (located p tags)) \<and> (\<forall>(q, ty)\<in>set (located p tags). tag_type m q = ty)"
  using assms
proof (induction tags arbitrary: p)
  case Nil
  then have "bytes m p (4 + 4) = le32 MB2_TAG_TYPE_END @ le32 8" by (simp add: info_bytes_def)
  then have "bytes m p 4 = le32 MB2_TAG_TYPE_END" unfolding bytes_add by simp
  then show ?case using read_le32 by (simp add: tag_type_def)
next
  case (Cons t ts)
  have "bytes m p (length (tag_bytes t) + length (info_bytes ts)) = tag_bytes t @ info_bytes ts"
    using Cons.prems(1) by (simp add: info_bytes_def add.assoc)
  then have b: "bytes m p (length (tag_bytes t)) = tag_bytes t"
    "bytes m (p + of_nat (length (tag_bytes t))) (length (info_bytes ts)) = info_bytes ts"
    unfolding bytes_add by simp_all
  have ok: "tag_ok t" "\<forall>t\<in>set ts. tag_ok t" using Cons.prems(2) by simp_all
  show ?case using Cons.IH [OF b(2) ok(2)] tag_bytes_read [OF b(1) ok(1)] ok(1)
    by (simp add: tag_ok_def)
qed

text \<open>A field of the result that the tags of the types \<open>T\<close> set.\<close>

lemma fold_record_field:
  assumes "\<And>t mbi. g (mb2_record m t mbi) = (if tag_type m t \<in> T then f t else g mbi)"
    and "\<forall>(q, ty)\<in>set us. tag_type m q = ty"
  shows "g (fold (mb2_record m) (map fst us) mbi) =
    (case filter (\<lambda>(q, ty). ty \<in> T) us of [] \<Rightarrow> g mbi | vs \<Rightarrow> f (fst (last vs)))"
  using assms(2)
proof (induction us arbitrary: mbi)
  case (Cons u us)
  obtain q ty where u: "u = (q, ty)" by (cases u)
  then have ty: "tag_type m q = ty" using Cons.prems by simp
  show ?case using Cons.IH [of "mb2_record m q mbi"] Cons.prems assms(1) [of q mbi] ty
    by (auto simp: u split: list.split)
qed simp

lemma info_init_field:
  assumes "\<And>t mbi. g (mb2_record m t mbi) = (if tag_type m t \<in> T then f t else g mbi)"
    and "bytes m (addr + 8) (length (info_bytes tags)) = info_bytes tags" and "\<forall>t\<in>set tags. tag_ok t"
    and "mb2_info_init m addr mbi_zero = Some mbi"
  shows "g mbi = (case latest T (addr + 8) tags of None \<Rightarrow> g mbi_zero | Some t \<Rightarrow> f t)"
proof -
  note c = info_chain [OF assms(2,3)]
  have "mbi = fold (mb2_record m) (map fst (located (addr + 8) tags)) mbi_zero"
    using assms(4) mb2_walk_chain [of m "addr + 8" "map fst (located (addr + 8) tags)" mbi_zero] c
    by (simp add: mb2_info_init_def)
  then show ?thesis
    using fold_record_field [OF assms(1), of "located (addr + 8) tags" mbi_zero] c
    by (auto simp: latest_def split: list.split)
qed

lemmas tag_types = MB2_TAG_TYPE_END_def MB2_TAG_TYPE_CMDLINE_def MB2_TAG_TYPE_BOOT_LOADER_NAME_def
  MB2_TAG_TYPE_BASIC_MEMINFO_def MB2_TAG_TYPE_BOOTDEV_def MB2_TAG_TYPE_MMAP_def MB2_TAG_TYPE_VBE_def
  MB2_TAG_TYPE_FRAMEBUFFER_def MB2_TAG_TYPE_ELF_SECTIONS_def MB2_TAG_TYPE_APM_def MB2_TAG_TYPE_ACPI_OLD_def
  MB2_TAG_TYPE_ACPI_NEW_def MB2_TAG_TYPE_LOAD_BASE_ADDR_def

lemma mb2_record_fields:
  "kernel_cmd_line (mb2_record m t mbi) = (if tag_type m t \<in> {MB2_TAG_TYPE_CMDLINE} then t + 8 else kernel_cmd_line mbi)"
  "bootloader_name (mb2_record m t mbi) = (if tag_type m t \<in> {MB2_TAG_TYPE_BOOT_LOADER_NAME} then t + 8 else bootloader_name mbi)"
  "kernel_base_addr (mb2_record m t mbi) =
     (if tag_type m t \<in> {MB2_TAG_TYPE_LOAD_BASE_ADDR} then ucast (mem_read_32 m (t + 8)) else kernel_base_addr mbi)"
  "basic_meminfo_tag (mb2_record m t mbi) = (if tag_type m t \<in> {MB2_TAG_TYPE_BASIC_MEMINFO} then t else basic_meminfo_tag mbi)"
  "mem_map_tag (mb2_record m t mbi) = (if tag_type m t \<in> {MB2_TAG_TYPE_MMAP} then t else mem_map_tag mbi)"
  "rsdp_tag (mb2_record m t mbi) =
     (if tag_type m t \<in> {MB2_TAG_TYPE_ACPI_OLD, MB2_TAG_TYPE_ACPI_NEW} then t else rsdp_tag mbi)"
  "bootdev_tag (mb2_record m t mbi) = (if tag_type m t \<in> {MB2_TAG_TYPE_BOOTDEV} then t else bootdev_tag mbi)"
  "elf_sections_tag (mb2_record m t mbi) = (if tag_type m t \<in> {MB2_TAG_TYPE_ELF_SECTIONS} then t else elf_sections_tag mbi)"
  "framebuffer_tag (mb2_record m t mbi) = (if tag_type m t \<in> {MB2_TAG_TYPE_FRAMEBUFFER} then t else framebuffer_tag mbi)"
  "vbe_tag (mb2_record m t mbi) = (if tag_type m t \<in> {MB2_TAG_TYPE_VBE} then t else vbe_tag mbi)"
  "apm_tag (mb2_record m t mbi) = (if tag_type m t \<in> {MB2_TAG_TYPE_APM} then t else apm_tag mbi)"
  by (simp_all add: mb2_record_def tag_types tag_string_def tag_load_base_addr_def Let_def)

subsection \<open>The memory map and the sections\<close>

lemma mmap_loop_correct:
  assumes "tag_mmap_entry_size m t = e" and "0 < e" and "unat (tag_size m t) = 16 + n * unat e"
    and "unat t + unat (tag_size m t) < 2 ^ 64"
  shows "mmap_loop m t (tag_mmap_entries t) =
    Some (map (\<lambda>i. read_mmap_entry m (tag_mmap_entries t + of_nat (i * unat e))) [0..<n])"
proof -
  have e: "0 < unat e" using assms(2) by (simp add: word_less_nat_alt)
  have end_: "unat (t + ucast (tag_size m t)) = unat t + unat (tag_size m t)"
    using assms(4) by (simp add: unat_word_ariths unsigned_ucast_eq take_bit_nat_eq_self)
  have at: "unat (t + 16 + of_nat (k * unat e)) = unat t + 16 + k * unat e" if "k \<le> n" for k
  proof -
    have "k * unat e \<le> n * unat e" using that by simp
    then have "unat t + (16 + k * unat e) < 2 ^ 64" using assms(3,4) by linarith
    then have "unat (t + of_nat (16 + k * unat e)) = unat t + (16 + k * unat e)"
      by (simp only: unat_word_ariths unat_of_nat mod_add_right_eq) simp
    then show ?thesis by (simp add: add.assoc)
  qed
  have "mmap_loop m t (t + 16 + of_nat (k * unat e)) =
      Some (map (\<lambda>i. read_mmap_entry m (t + 16 + of_nat (i * unat e))) [k..<n])" if "k \<le> n" for k
    using that
  proof (induction k rule: inc_induct)
    case base
    have "\<not> t + 16 + of_nat (n * unat e) < t + ucast (tag_size m t)"
      using at [OF order_refl] end_ assms(3) by (simp add: word_less_nat_alt del: of_nat_mult)
    then show ?case by (subst mmap_loop.simps) (simp del: of_nat_mult)
  next
    case (step k)
    have "Suc k * unat e \<le> n * unat e" using step.hyps by (simp only: mult_le_mono1 Suc_leI)
    then have "unat t + 16 + k * unat e < unat t + unat (tag_size m t)"
      using assms(3) e step.hyps by simp
    then have less: "t + 16 + of_nat (k * unat e) < t + ucast (tag_size m t)"
      using at [of k] step.hyps end_ by (simp add: word_less_nat_alt del: of_nat_mult)
    have nxt: "t + 16 + of_nat (k * unat e) + ucast (tag_mmap_entry_size m t) = t + 16 + of_nat (Suc k * unat e)"
      by (simp add: assms(1) of_nat_unat)
    show ?case using step.hyps
      by (subst mmap_loop.simps) (simp only: less if_True nxt step.IH, simp add: upt_conv_Cons)
  qed
  from this [of 0] show ?thesis by (simp add: tag_mmap_entries_def)
qed

text \<open>\<open>elf_init\<close> computes the least address that no section's end (in 64 bits) exceeds.\<close>

lemma elf_init_correct:
  assumes "sections_tag \<noteq> NULL"
  shows "elf_init m sections_tag a = Inr (Max (insert a ((\<lambda>p. section_addr (read_section m p) + section_size (read_section m p)) `
    set (section_ptrs (tag_elf_sections m sections_tag)))))"
proof -
  have "fold (\<lambda>p a. let e = f p in if a > e then a else e) ps a = Max (insert a (f ` set ps))" for f :: "ptr \<Rightarrow> u64" and ps
  proof (induction ps arbitrary: a)
    case (Cons p ps)
    have "Max (insert (max a (f p)) (f ` set ps)) = Max (insert a (insert (f p) (f ` set ps)))"
      by (cases "set ps = {}") (simp_all add: max.assoc max.left_commute)
    moreover have "(let e = f p in if a > e then a else e) = max a (f p)" by (auto simp: Let_def max_def)
    ultimately show ?case by (simp only: fold.simps o_apply Cons.IH list.set image_insert)
  qed simp
  then show ?thesis using assms by (simp add: elf_init_def Let_def)
qed

lemma find_section_correct:
  "find_section m tag ty = NULL \<and> (\<forall>p\<in>set (section_ptrs tag). section_type (read_section m p) \<noteq> ty) \<or>
   find_section m tag ty \<in> set (section_ptrs tag) \<and> section_type (read_section m (find_section m tag ty)) = ty"
proof (cases "find (\<lambda>p. section_type (read_section m p) = ty) (section_ptrs tag)")
  case None
  then have "\<forall>p\<in>set (section_ptrs tag). section_type (read_section m p) \<noteq> ty" by (auto simp: find_None_iff)
  then show ?thesis using None by (simp add: find_section_def)
next
  case (Some p)
  then have "p \<in> set (section_ptrs tag) \<and> section_type (read_section m p) = ty"
    by (auto simp: find_Some_iff)
  then show ?thesis using Some by (simp add: find_section_def)
qed

subsection \<open>Properties\<close>

text \<open>
  C31.  When the walk over the tags ends.  Let the tags \<open>ts\<close> follow each other from \<open>addr + 8\<close> on,
  none of them an end tag, each of a size from 1 to \<open>2^32 - 8\<close> and at the next multiple of 8 bytes
  behind the one before it, and let \<open>e\<close> be the place behind the last one.  If an end tag is at
  \<open>e\<close>, the walk returns, having recorded exactly the tags \<open>ts\<close>, in their order.  If another tag is
  there whose size is 0 or above \<open>2^32 - 8\<close>, it never returns.  And it returns only in the first
  case.
\<close>
theorem mb2_info_init_terminates:
  assumes "sized_tags m (addr + 8) ts e"
  shows "(tag_type m e = MB2_TAG_TYPE_END \<longrightarrow> mb2_info_init m addr mbi = Some (fold (mb2_record m) ts mbi)) \<and>
    (tag_type m e \<noteq> MB2_TAG_TYPE_END \<and> (unat (tag_size m e) = 0 \<or> 2 ^ 32 - 8 < unat (tag_size m e)) \<longrightarrow>
       mb2_info_init m addr mbi = None) \<and>
    ((\<exists>r. mb2_info_init m addr mbi = Some r) \<longleftrightarrow>
       (\<exists>us f. sized_tags m (addr + 8) us f \<and> tag_type m f = MB2_TAG_TYPE_END))"
proof (intro conjI impI)
  assume "tag_type m e = MB2_TAG_TYPE_END"
  then show "mb2_info_init m addr mbi = Some (fold (mb2_record m) ts mbi)"
    using mb2_walk_chain sized_tags_chain assms by (simp add: mb2_info_init_def)
next
  assume "tag_type m e \<noteq> MB2_TAG_TYPE_END \<and> (unat (tag_size m e) = 0 \<or> 2 ^ 32 - 8 < unat (tag_size m e))"
  then have "\<nexists>us. tag_chain m (addr + 8) us"
    using sized_tags_stuck [OF assms] by (simp add: stuck_size_def)
  then show "mb2_info_init m addr mbi = None"
    using mb2_walk_returns [of m "addr + 8" mbi] by (cases "mb2_info_init m addr mbi") (auto simp: mb2_info_init_def)
next
  show "(\<exists>r. mb2_info_init m addr mbi = Some r) \<longleftrightarrow>
      (\<exists>us f. sized_tags m (addr + 8) us f \<and> tag_type m f = MB2_TAG_TYPE_END)"
    using mb2_walk_returns mb2_walk_chain sized_tags_chain chain_sized_tags
    unfolding mb2_info_init_def by meson
qed

text \<open>A tag of 9 bytes, and behind its padding an end tag or a tag of size 0.\<close>

definition example_tags :: "u32 \<Rightarrow> u32 \<Rightarrow> mem" where
  "example_tags ty sz = poke (\<lambda>_. 0) 0x10008 (le32 1 @ le32 9 @ replicate 8 0x61 @ le32 ty @ le32 sz)"

lemma example_tags_read:
  "tag_type (example_tags ty sz) 0x10008 = 1" "tag_size (example_tags ty sz) 0x10008 = 9"
  "tag_type (example_tags ty sz) 0x10018 = ty" "tag_size (example_tags ty sz) 0x10018 = sz"
proof -
  let ?m = "example_tags ty sz" and ?xs = "le32 1 @ le32 9 @ replicate 8 0x61 @ le32 ty @ le32 sz"
  have l: "length (le32 w) = 4" for w by (simp add: le32_def)
  have "bytes ?m 0x10008 (length ?xs) = ?xs" unfolding example_tags_def by (rule poke_bytes) (simp add: l)
  moreover have "length ?xs = 4 + (4 + (8 + (4 + 4)))" by (simp add: l)
  ultimately have "bytes ?m 0x10008 (4 + (4 + (8 + (4 + 4)))) = ?xs" by metis
  then have b: "bytes ?m 0x10008 4 = le32 1" "bytes ?m (0x10008 + 4) 4 = le32 9"
    "bytes ?m 0x10018 4 = le32 ty" "bytes ?m (0x10018 + 4) 4 = le32 sz"
    unfolding bytes_add by (simp_all add: l)
  show "tag_type ?m 0x10008 = 1" "tag_size ?m 0x10008 = 9" "tag_type ?m 0x10018 = ty" "tag_size ?m 0x10018 = sz"
    using b [THEN read_le32] by (simp_all add: tag_type_def tag_size_def)
qed

theorem mb2_info_init_terminates_witness:
  "mb2_info_init (example_tags 0 8) 0x10000 mbi_zero = Some (mbi_zero\<lparr>kernel_cmd_line := 0x10010\<rparr>) \<and>
   mb2_info_init (example_tags 2 0) 0x10000 mbi_zero = None"
proof -
  have s: "sized_tags (example_tags ty sz) (0x10000 + 8) [0x10008] 0x10018" for ty sz
    by (simp add: example_tags_read tag_types)
  show ?thesis
    using mb2_info_init_terminates [OF s [of 0 8], of mbi_zero] mb2_info_init_terminates [OF s [of 2 0], of mbi_zero]
    by (simp add: example_tags_read tag_types mb2_record_def tag_string_def)
qed

text \<open>
  C32.  For every information structure that the specification allows, the walk returns, and every
  field of the result points to the last tag of its kind (or to the string in it), and is NULL if
  there is none.
\<close>
theorem mb2_info_init_correct:
  assumes "bytes m (addr + 8) (length (info_bytes tags)) = info_bytes tags" and "\<forall>t\<in>set tags. tag_ok t"
  defines "found T \<equiv> latest T (addr + 8) tags"
  shows "\<exists>mbi. mb2_info_init m addr mbi_zero = Some mbi \<and>
     kernel_cmd_line mbi = (case found {MB2_TAG_TYPE_CMDLINE} of None \<Rightarrow> NULL | Some t \<Rightarrow> t + 8) \<and>
     bootloader_name mbi = (case found {MB2_TAG_TYPE_BOOT_LOADER_NAME} of None \<Rightarrow> NULL | Some t \<Rightarrow> t + 8) \<and>
     kernel_base_addr mbi = (case found {MB2_TAG_TYPE_LOAD_BASE_ADDR} of None \<Rightarrow> 0 | Some t \<Rightarrow> ucast (mem_read_32 m (t + 8))) \<and>
     basic_meminfo_tag mbi = (case found {MB2_TAG_TYPE_BASIC_MEMINFO} of None \<Rightarrow> NULL | Some t \<Rightarrow> t) \<and>
     mem_map_tag mbi = (case found {MB2_TAG_TYPE_MMAP} of None \<Rightarrow> NULL | Some t \<Rightarrow> t) \<and>
     rsdp_tag mbi = (case found {MB2_TAG_TYPE_ACPI_OLD, MB2_TAG_TYPE_ACPI_NEW} of None \<Rightarrow> NULL | Some t \<Rightarrow> t) \<and>
     bootdev_tag mbi = (case found {MB2_TAG_TYPE_BOOTDEV} of None \<Rightarrow> NULL | Some t \<Rightarrow> t) \<and>
     elf_sections_tag mbi = (case found {MB2_TAG_TYPE_ELF_SECTIONS} of None \<Rightarrow> NULL | Some t \<Rightarrow> t) \<and>
     framebuffer_tag mbi = (case found {MB2_TAG_TYPE_FRAMEBUFFER} of None \<Rightarrow> NULL | Some t \<Rightarrow> t) \<and>
     vbe_tag mbi = (case found {MB2_TAG_TYPE_VBE} of None \<Rightarrow> NULL | Some t \<Rightarrow> t) \<and>
     apm_tag mbi = (case found {MB2_TAG_TYPE_APM} of None \<Rightarrow> NULL | Some t \<Rightarrow> t)"
proof -
  obtain mbi where r: "mb2_info_init m addr mbi_zero = Some mbi"
    using mb2_walk_chain info_chain [OF assms(1,2)] unfolding mb2_info_init_def by blast
  note f = mb2_record_fields [THEN info_init_field [OF _ assms(1,2) r], unfolded mbi_zero_def mb2_info.simps]
  show ?thesis unfolding found_def by (intro exI [of _ mbi] conjI) (rule r [unfolded mbi_zero_def] r f)+
qed

theorem mb2_info_init_correct_witness:
  "let tags = [(1, [0x6b, 0]), (21, [0, 0, 16, 0]), (4, [127, 2, 0, 0, 0, 0, 1, 0])];
       m = poke (\<lambda>_. 0) 0x10008 (info_bytes tags)
   in \<exists>mbi. mb2_info_init m 0x10000 mbi_zero = Some mbi \<and> kernel_cmd_line mbi = 0x10010 \<and>
        kernel_base_addr mbi = 0x100000 \<and> basic_meminfo_tag mbi = 0x10028 \<and> mem_map_tag mbi = NULL"
proof -
  let ?tags = "[(1, [0x6b, 0]), (21, [0, 0, 16, 0]), (4, [127, 2, 0, 0, 0, 0, 1, 0])] :: boot_tag list"
  let ?m = "poke (\<lambda>_. 0) 0x10008 (info_bytes ?tags)"
  have b: "bytes ?m (0x10000 + 8) (length (info_bytes ?tags)) = info_bytes ?tags"
    using poke_bytes [of "info_bytes ?tags" "\<lambda>_. 0" "0x10008"] by (simp add: info_bytes_def tag_bytes_def)
  have "mem_read_32 ?m 0x10020 = 0x100000" by code_simp
  then show ?thesis using mb2_info_init_correct [OF b]
    by (simp add: tag_ok_def latest_def tag_types length_tag_bytes Let_def) blast
qed

end
