(* ===== verification/CStdlib.thy ===== *)
theory CStdlib
  imports CString "HOL-Library.Signed_Division"
begin

text \<open>
  Number parsing and printing of \<open>libc/stdlib\<close>: \<open>strtoimax.c\<close>, \<open>strtol.c\<close>, \<open>strtoul.c\<close>,
  \<open>atoi.c\<close> and \<open>itoa.c\<close>.  \<open>intmax_t\<close>, \<open>long\<close> and \<open>long long\<close> are 64 bits wide.  The
  signed accumulator of \<open>strtoimax\<close> is an \<open>int\<close>: the correctness theorem shows that it never
  leaves the 64-bit range, so no signed overflow occurs.  C's truncating \<open>/\<close> and \<open>%\<close> on
  signed operands are \<open>sdiv\<close> and \<open>smod\<close>.
\<close>

subsection \<open>Parsing\<close>

definition INTMAX_MIN :: int where "INTMAX_MIN = - (2 ^ 63)"
definition INTMAX_MAX :: int where "INTMAX_MAX = 2 ^ 63 - 1"
definition UINTMAX_MAX :: u64 where "UINTMAX_MAX = - 1"

text \<open>
  The head of both parsers: skip white space (reading \<open>unsigned char\<close>s), read the sign,
  and settle the base.  After a sign or a \<open>0x\<close> prefix the next character is read as a plain
  (signed) \<open>char\<close>.  The result is the current character, the position after it, the sign and
  the base.
\<close>

partial_function (option) strto_skip :: "mem \<Rightarrow> ptr \<Rightarrow> (int \<times> ptr) option" where
  "strto_skip m s =
     (if isspace (ucast (m s)) then strto_skip m (s + 1) else Some (uint (m s), s + 1))"

definition strto_sign :: "mem \<Rightarrow> int \<Rightarrow> ptr \<Rightarrow> bool \<times> int \<times> ptr" where
  "strto_sign m c s =
     (if c = 45 then (True, sint (m s), s + 1)
      else if c = 43 then (False, sint (m s), s + 1)
      else (False, c, s))"

definition strto_base :: "mem \<Rightarrow> int \<Rightarrow> ptr \<Rightarrow> int \<Rightarrow> int \<times> ptr \<times> int" where
  "strto_base m c s base =
     (let (c, s, base) =
            (if (base = 0 \<or> base = 16) \<and> c = 48 \<and> (m s = 120 \<or> m s = 88)
             then (sint (m (s + 1)), s + 2, 16)
             else (c, s, base))
      in (c, s, if base = 0 then if c = 48 then 8 else 10 else base))"

definition strtoimax_limits :: "bool \<Rightarrow> int \<Rightarrow> int \<times> int" where
  "strtoimax_limits neg base =
     (let (cutlim, cutoff) =
            (if base = 4 then if neg then (INTMAX_MIN smod 4, INTMAX_MIN sdiv 4)
                              else (INTMAX_MAX smod 4, INTMAX_MAX sdiv 4)
             else if base = 8 then if neg then (INTMAX_MIN smod 8, INTMAX_MIN sdiv 8)
                              else (INTMAX_MAX smod 8, INTMAX_MAX sdiv 8)
             else if base = 10 then if neg then (INTMAX_MIN smod 10, INTMAX_MIN sdiv 10)
                              else (INTMAX_MAX smod 10, INTMAX_MAX sdiv 10)
             else if base = 16 then if neg then (INTMAX_MIN smod 16, INTMAX_MIN sdiv 16)
                              else (INTMAX_MAX smod 16, INTMAX_MAX sdiv 16)
             else let cutoff = if neg then INTMAX_MIN else INTMAX_MAX
                  in (cutoff smod base, cutoff sdiv base))
      in if neg
         then let (cutlim, cutoff) =
                    (if cutlim > 0 then (cutlim - base, cutoff + 1) else (cutlim, cutoff))
              in (- cutlim, cutoff)
         else (cutlim, cutoff))"

text \<open>
  The value of a character as a digit, \<open>None\<close> where the loop breaks because the character is
  neither a digit nor a letter.
\<close>

definition strto_digit :: "int \<Rightarrow> int option" where
  "strto_digit c =
     (let u = word_of_int c
      in if isdigit u then Some (c - 48)
         else if isalpha u then Some (c - (if isupper u then 65 - 10 else 97 - 10))
         else None)"

text \<open>
  The digit loops.  The state is the accumulator, \<open>any\<close> (0 before the first digit, 1 after
  it, -1 after an overflow) and whether \<open>errno\<close> was set to \<open>ERANGE\<close>; \<open>strtoimax_step\<close> is
  the part of the body that handles a valid digit \<open>d\<close>.  In the loop \<open>s\<close> points behind the
  current character \<open>c\<close>.
\<close>

type_synonym strto_state = "int \<times> int \<times> bool"

fun strtoimax_step :: "bool \<Rightarrow> int \<Rightarrow> int \<Rightarrow> int \<Rightarrow> int \<Rightarrow> strto_state \<Rightarrow> strto_state" where
  "strtoimax_step neg base cutoff cutlim d (acc, any, erange) =
     (if any < 0 then (acc, any, erange)
      else if neg
        then if acc < cutoff \<or> acc = cutoff \<and> d > cutlim then (INTMAX_MIN, -1, True)
             else (acc * base - d, 1, erange)
        else if acc > cutoff \<or> acc = cutoff \<and> d > cutlim then (INTMAX_MAX, -1, True)
             else (acc * base + d, 1, erange))"

partial_function (option) strtoimax_loop ::
  "mem \<Rightarrow> ptr \<Rightarrow> int \<Rightarrow> strto_state \<Rightarrow> bool \<Rightarrow> int \<Rightarrow> int \<Rightarrow> int \<Rightarrow> (strto_state \<times> ptr) option" where
  "strtoimax_loop m s c st neg base cutoff cutlim =
     (case strto_digit c of
        None \<Rightarrow> Some (st, s)
      | Some d \<Rightarrow>
          if d \<ge> base then Some (st, s)
          else strtoimax_loop m (s + 1) (uint (m s)) (strtoimax_step neg base cutoff cutlim d st)
                 neg base cutoff cutlim)"

text \<open>The result: the value, what \<open>*endptr\<close> is set to, and whether \<open>errno = ERANGE\<close>.\<close>

definition strtoimax :: "mem \<Rightarrow> ptr \<Rightarrow> int \<Rightarrow> (int \<times> ptr \<times> bool) option" where
  "strtoimax m nptr base =
     do { (c, s) \<leftarrow> strto_skip m nptr;
          let (neg, c, s) = strto_sign m c s;
          let (c, s, base) = strto_base m c s base;
          let (cutlim, cutoff) = strtoimax_limits neg base;
          ((acc, any, erange), s) \<leftarrow> strtoimax_loop m s c (0, 0, False) neg base cutoff cutlim;
          Some (acc, if any \<noteq> 0 then s - 1 else nptr, erange) }"

definition strtoumax_limits :: "int \<Rightarrow> int \<times> u64" where
  "strtoumax_limits base =
     (if base = 8 then (uint (UINTMAX_MAX mod 8), UINTMAX_MAX div 8)
      else if base = 10 then (uint (UINTMAX_MAX mod 10), UINTMAX_MAX div 10)
      else if base = 16 then (uint (UINTMAX_MAX mod 16), UINTMAX_MAX div 16)
      else (sint (ucast (UINTMAX_MAX mod word_of_int base) :: u32), UINTMAX_MAX div word_of_int base))"

type_synonym strtou_state = "u64 \<times> int \<times> bool"

fun strtoumax_step :: "int \<Rightarrow> u64 \<Rightarrow> int \<Rightarrow> int \<Rightarrow> strtou_state \<Rightarrow> strtou_state" where
  "strtoumax_step base cutoff cutlim d (acc, any, erange) =
     (if any < 0 then (acc, any, erange)
      else if acc > cutoff \<or> acc = cutoff \<and> d > cutlim then (UINTMAX_MAX, -1, True)
      else (acc * word_of_int base + word_of_int d, 1, erange))"

partial_function (option) strtoumax_loop ::
  "mem \<Rightarrow> ptr \<Rightarrow> int \<Rightarrow> strtou_state \<Rightarrow> int \<Rightarrow> u64 \<Rightarrow> int \<Rightarrow> (strtou_state \<times> ptr) option" where
  "strtoumax_loop m s c st base cutoff cutlim =
     (case strto_digit c of
        None \<Rightarrow> Some (st, s)
      | Some d \<Rightarrow>
          if d \<ge> base then Some (st, s)
          else strtoumax_loop m (s + 1) (uint (m s)) (strtoumax_step base cutoff cutlim d st)
                 base cutoff cutlim)"

definition strtoumax :: "mem \<Rightarrow> ptr \<Rightarrow> int \<Rightarrow> (u64 \<times> ptr \<times> bool) option" where
  "strtoumax m nptr base =
     do { (c, s) \<leftarrow> strto_skip m nptr;
          let (neg, c, s) = strto_sign m c s;
          let (c, s, base) = strto_base m c s base;
          let (cutlim, cutoff) = strtoumax_limits base;
          ((acc, any, erange), s) \<leftarrow> strtoumax_loop m s c (0, 0, False) base cutoff cutlim;
          Some (if neg \<and> any > 0 then - acc else acc, if any \<noteq> 0 then s - 1 else nptr, erange) }"

definition strtol :: "mem \<Rightarrow> ptr \<Rightarrow> int \<Rightarrow> (int \<times> ptr \<times> bool) option" where
  "strtol m nptr base = strtoimax m nptr base"

definition strtoll :: "mem \<Rightarrow> ptr \<Rightarrow> int \<Rightarrow> (int \<times> ptr \<times> bool) option" where
  "strtoll m nptr base = strtoimax m nptr base"

definition strtoul :: "mem \<Rightarrow> ptr \<Rightarrow> int \<Rightarrow> (u64 \<times> ptr \<times> bool) option" where
  "strtoul m nptr base = strtoumax m nptr base"

definition strtoull :: "mem \<Rightarrow> ptr \<Rightarrow> int \<Rightarrow> (u64 \<times> ptr \<times> bool) option" where
  "strtoull m nptr base = strtoumax m nptr base"

text \<open>\<open>atoi\<close> truncates the \<open>long\<close> to 32 bits.\<close>

definition atoi :: "mem \<Rightarrow> ptr \<Rightarrow> int option" where
  "atoi m nptr = map_option (\<lambda>(v, _, _). sint (word_of_int v :: u32)) (strtol m nptr 10)"

definition atol :: "mem \<Rightarrow> ptr \<Rightarrow> int option" where
  "atol m nptr = map_option fst (strtol m nptr 10)"

definition atoll :: "mem \<Rightarrow> ptr \<Rightarrow> int option" where
  "atoll m nptr = map_option fst (strtoll m nptr 10)"

subsection \<open>Printing\<close>

text \<open>
  \<open>uvalue % base\<close> and \<open>uvalue / base\<close> convert \<open>base\<close> to an unsigned 64-bit value; a zero
  base traps, and the base 1 never ends: both are \<open>None\<close>.
\<close>

partial_function (option) lltoa_loop :: "mem \<Rightarrow> ptr \<Rightarrow> u64 \<Rightarrow> int \<Rightarrow> int \<Rightarrow> (int \<times> mem) option" where
  "lltoa_loop m str uvalue base i =
     (if uvalue \<noteq> 0
      then if word_of_int base = (0 :: u64) then None
           else let rem = sint (ucast (uvalue mod word_of_int base) :: u32);
                    ch = (if rem > 9 then rem - 10 + 97 else rem + 48)
                in lltoa_loop (m(str + of_int i := word_of_int ch)) str
                     (uvalue div word_of_int base) base (i + 1)
      else Some (i, m))"

text \<open>
  \<open>value\<close> is the 64-bit pattern of the signed argument.  In base 10 \<open>uvalue = -value\<close> negates the
  signed argument, which has no result for the least \<open>long long\<close>: the call is then undefined.
\<close>

definition lltoa :: "mem \<Rightarrow> u64 \<Rightarrow> ptr \<Rightarrow> int \<Rightarrow> (ptr \<times> mem) option" where
  "lltoa m val str base =
     (if val = 0 then Some (str, m(str := 48, str + 1 := 0))
      else let isNegative = (sint val < 0 \<and> base = 10);
               uvalue = (if isNegative then - val else val)
           in if isNegative \<and> sint val = INTMAX_MIN then None else
              do { (i, m) \<leftarrow> lltoa_loop m str uvalue base 0;
                   let (i, m) = (if isNegative then (i + 1, m(str + of_int i := 45)) else (i, m));
                   (_, m) \<leftarrow> strrev (m(str + of_int i := 0)) str;
                   Some (str, m) })"

definition ltoa :: "mem \<Rightarrow> u64 \<Rightarrow> ptr \<Rightarrow> int \<Rightarrow> (ptr \<times> mem) option" where
  "ltoa m val str base = lltoa m val str base"

definition itoa :: "mem \<Rightarrow> u32 \<Rightarrow> ptr \<Rightarrow> int \<Rightarrow> (ptr \<times> mem) option" where
  "itoa m val str base = lltoa m (scast val) str base"

subsection \<open>Digits\<close>

text \<open>The digit values the parsers accept, as a table over bytes.\<close>

definition digit_of :: "u8 \<Rightarrow> nat option" where
  "digit_of b =
     (let n = unat b
      in if 48 \<le> n \<and> n < 58 then Some (n - 48)
         else if 65 \<le> n \<and> n < 91 then Some (n - 55)
         else if 97 \<le> n \<and> n < 123 then Some (n - 87)
         else None)"

lemma isalpha_bytes:
  "\<forall>n\<in>set [0..<128]. isalpha (of_nat n) \<longleftrightarrow> 65 \<le> n \<and> n < 91 \<or> 97 \<le> n \<and> n < 123"
  by code_simp

lemma isalpha_high:
  assumes "128 \<le> unat c"
  shows "\<not> isalpha c"
proof -
  have "unat c \<le> unat (c OR 32)"
    using le_word_or2 [of c 32] by (simp add: word_le_nat_alt)
  with assms have "\<not> (c OR 32) < 123" by (simp add: word_less_nat_alt)
  then show ?thesis by (simp add: isalpha_def sub_less_iff)
qed

lemma strto_digit_byte:
  "strto_digit (uint b) = map_option int (digit_of b)"
proof -
  define n where "n = unat b"
  have n: "n < 256" using unsigned_less [of b, where 'a = nat] by (simp add: n_def)
  have u: "uint b = int n" by (simp add: n_def)
  have w: "unat (of_nat n :: u32) = n" using n by (simp add: unat_of_nat)
  have al: "isalpha (of_nat n) \<longleftrightarrow> 65 \<le> n \<and> n < 91 \<or> 97 \<le> n \<and> n < 123"
  proof (cases "n < 128")
    case True
    then show ?thesis using isalpha_bytes by simp
  next
    case False
    then show ?thesis using isalpha_high [of "of_nat n"] by (simp add: w)
  qed
  have "isdigit (of_nat n) \<longleftrightarrow> 48 \<le> n \<and> n < 58"
    and "isupper (of_nat n) \<longleftrightarrow> 65 \<le> n \<and> n < 91"
    by (simp_all add: ctype_ranges word_le_nat_alt word_less_nat_alt w)
  with al show ?thesis
    unfolding u strto_digit_def digit_of_def Let_def of_int_of_nat_eq n_def [symmetric]
    by (auto simp: of_nat_diff)
qed

lemma odd_div_128: "0 \<le> u \<Longrightarrow> u < 256 \<Longrightarrow> odd (u div 128) \<longleftrightarrow> 128 \<le> (u :: int)"
proof -
  assume "0 \<le> u" "u < 256"
  then have "u div 128 = (if 128 \<le> u then 1 else 0)" by auto
  then show ?thesis by simp
qed

lemma byte_low_iff: "unat (b :: u8) < 128 \<longleftrightarrow> uint b < 128"
  using of_nat_less_iff [of "unat b" 128, where 'a = int] by simp

lemma sint_byte: "sint (b :: u8) = (if unat b < 128 then uint b else uint b - 256)"
proof -
  have r: "0 \<le> uint b" "uint b < 256" using unsigned_less [of b, where 'a = int] by simp_all
  have "sint b = take_bit 8 (uint b) - 256 * of_bool (bit (uint b) 7)"
    by (simp add: sint_uint signed_take_bit_eq_take_bit_minus)
  also have "take_bit 8 (uint b) = uint b" using r by (simp add: take_bit_int_eq_self)
  also have "bit (uint b) 7 \<longleftrightarrow> 128 \<le> uint b"
    using odd_div_128 [OF r] by (simp add: bit_iff_odd)
  also have "128 \<le> uint b \<longleftrightarrow> \<not> unat b < 128" by (simp only: byte_low_iff not_less)
  finally show ?thesis by simp
qed

lemma strto_digit_high:
  assumes "128 \<le> unat (word_of_int c :: u32)"
  shows "strto_digit c = None"
  using assms isalpha_high [OF assms]
  by (simp add: strto_digit_def ctype_ranges word_less_nat_alt)

lemma strto_digit_signed_byte:
  "strto_digit (sint b) = map_option int (digit_of b)"
proof (cases "unat b < 128")
  case True
  then show ?thesis using strto_digit_byte [of b] by (simp add: sint_byte)
next
  case False
  have r: "0 \<le> uint b" using unsigned_greater_eq by blast
  have h: "128 \<le> uint b" "uint b < 256"
    using False unsigned_less [of b, where 'a = int] by (simp_all add: byte_low_iff)
  have "(uint b - 256) mod 2 ^ 32 = (uint b - 256 + 2 ^ 32) mod 2 ^ 32"
    by (simp only: mod_add_self2)
  also have "\<dots> = uint b - 256 + 2 ^ 32" by (rule mod_pos_pos_trivial) (use h in simp_all)
  finally have "take_bit 32 (uint b - 256) = uint b - 256 + 2 ^ 32" by (simp add: take_bit_eq_mod)
  moreover have "sint b = uint b - 256" using False by (simp add: sint_byte)
  ultimately have "unat (word_of_int (sint b) :: u32) = nat (uint b - 256 + 2 ^ 32)"
    by (simp only: unsigned_of_int) simp
  moreover have "(128 :: nat) \<le> nat (uint b - 256 + 2 ^ 32)" by (rule nat_int_comparison(3)[THEN iffD2]) (use h in simp)
  ultimately have "128 \<le> unat (word_of_int (sint b) :: u32)" by (simp only:)
  moreover have "digit_of b = None" using False by (simp add: digit_of_def)
  ultimately show ?thesis by (simp add: strto_digit_high)
qed

subsection \<open>The digit loops\<close>

text \<open>
  Reference semantics: a byte is a digit of \<open>base\<close> if its table value is below it, and a digit
  string is read most significant digit first.
\<close>

definition base_digit :: "nat \<Rightarrow> u8 \<Rightarrow> bool" where
  "base_digit base b = (case digit_of b of None \<Rightarrow> False | Some d \<Rightarrow> d < base)"

definition digit_val :: "u8 \<Rightarrow> nat" where
  "digit_val b = the (digit_of b)"

definition number :: "nat \<Rightarrow> u8 list \<Rightarrow> nat" where
  "number base ds = foldl (\<lambda>v b. v * base + digit_val b) 0 ds"

lemma number_simps [simp]:
  "number base [] = 0"
  "number base (ds @ [b]) = number base ds * base + digit_val b"
  by (simp_all add: number_def)

lemma base_digit_0 [simp]: "\<not> base_digit base 0"
  by (simp add: base_digit_def digit_of_def)

lemma base_digitE:
  assumes "base_digit base b"
  obtains d where "digit_of b = Some d" "digit_val b = d" "d < base"
  using assms by (auto simp: base_digit_def digit_val_def split: option.splits)

lemma unat_ucast_byte: "unat (ucast (b :: u8) :: u32) = unat b"
  using unsigned_less [of b, where 'a = nat]
  by (simp add: unsigned_ucast_eq take_bit_nat_eq_self)

lemma base_digit_not_space: "base_digit base b \<Longrightarrow> \<not> isspace (ucast b)"
  by (auto simp: base_digit_def digit_of_def Let_def ctype_ranges word_le_nat_alt word_less_nat_alt
      unat_ucast_byte dest: arg_cong [of _ _ unat] split: if_splits)

lemma base_digit_not_sign: "base_digit base b \<Longrightarrow> b \<noteq> 45 \<and> b \<noteq> 43"
  by (auto simp: base_digit_def digit_of_def)

text \<open>The current character of the parsers is a byte, read unsigned or signed.\<close>

definition char_is :: "int \<Rightarrow> u8 \<Rightarrow> bool" where
  "char_is c b \<longleftrightarrow> c = uint b \<or> c = sint b"

lemma strto_digit_char: "char_is c b \<Longrightarrow> strto_digit c = map_option int (digit_of b)"
  by (auto simp: char_is_def strto_digit_byte strto_digit_signed_byte)

lemma char_is_uint [simp]: "char_is (uint b) b"
  and char_is_sint [simp]: "char_is (sint b) b"
  by (simp_all add: char_is_def)

lemma char_is_low: "char_is c b \<Longrightarrow> unat b < 128 \<Longrightarrow> c = uint b"
  by (auto simp: char_is_def sint_byte)

lemma strtoimax_loop_digits:
  assumes "cstr m p (ds @ rest)" and "\<forall>b\<in>set ds. base_digit base b"
    and "rest = [] \<or> \<not> base_digit base (hd rest)" and "char_is c (m p)"
  shows "strtoimax_loop m (p + 1) c st neg (int base) cutoff cutlim =
     Some (fold (\<lambda>b. strtoimax_step neg (int base) cutoff cutlim (int (digit_val b))) ds st,
           p + of_nat (length ds) + 1)"
  using assms
proof (induction ds arbitrary: p c st)
  case Nil
  then have "\<not> base_digit base (m p)" by (cases rest) auto
  with Nil show ?case
    by (auto simp: strtoimax_loop.simps [of m "p + 1" c] strto_digit_char base_digit_def
        split: option.splits)
next
  case (Cons b ds)
  obtain d where d: "digit_of b = Some d" "digit_val b = d" "d < base"
    using Cons.prems by (auto elim: base_digitE)
  from Cons.prems have "m p = b" and c: "cstr m (p + 1) (ds @ rest)" by auto
  with d Cons.prems Cons.IH [of "p + 1" "uint (m (p + 1))"] show ?case
    by (simp add: strtoimax_loop.simps [of m "p + 1" c] strto_digit_char add.assoc)
qed

lemma strtoumax_loop_digits:
  assumes "cstr m p (ds @ rest)" and "\<forall>b\<in>set ds. base_digit base b"
    and "rest = [] \<or> \<not> base_digit base (hd rest)" and "char_is c (m p)"
  shows "strtoumax_loop m (p + 1) c st (int base) cutoff cutlim =
     Some (fold (\<lambda>b. strtoumax_step (int base) cutoff cutlim (int (digit_val b))) ds st,
           p + of_nat (length ds) + 1)"
  using assms
proof (induction ds arbitrary: p c st)
  case Nil
  then have "\<not> base_digit base (m p)" by (cases rest) auto
  with Nil show ?case
    by (auto simp: strtoumax_loop.simps [of m "p + 1" c] strto_digit_char base_digit_def
        split: option.splits)
next
  case (Cons b ds)
  obtain d where d: "digit_of b = Some d" "digit_val b = d" "d < base"
    using Cons.prems by (auto elim: base_digitE)
  from Cons.prems have "m p = b" and c: "cstr m (p + 1) (ds @ rest)" by auto
  with d Cons.prems Cons.IH [of "p + 1" "uint (m (p + 1))"] show ?case
    by (simp add: strtoumax_loop.simps [of m "p + 1" c] strto_digit_char add.assoc)
qed

text \<open>The overflow test: the next digit leaves the range exactly if the code says so.\<close>

lemma cutoff_iff:
  assumes "0 < base" and "0 \<le> d" and "d < base"
  shows "v > L div base \<or> v = L div base \<and> d > L mod base \<longleftrightarrow> v * base + d > (L :: int)"
proof -
  define q r where "q = L div base" and "r = L mod base"
  have L: "L = q * base + r" by (simp add: q_def r_def)
  have m: "0 \<le> r" "r < base" using assms by (simp_all add: r_def)
  have "v > q \<or> v = q \<and> d > r \<longleftrightarrow> v * base + d > q * base + r"
  proof -
    consider "v < q" | "v = q" | "v > q" by linarith
    then show ?thesis
    proof cases
      case 1
      then have "(v + 1) * base \<le> q * base" using assms by (intro mult_right_mono) auto
      then show ?thesis using m assms 1 by (simp add: algebra_simps)
    next
      case 2
      then show ?thesis by auto
    next
      case 3
      then have "(q + 1) * base \<le> v * base" using assms by (intro mult_right_mono) auto
      then show ?thesis using m assms 3 by (simp add: algebra_simps)
    qed
  qed
  then show ?thesis by (simp add: q_def r_def)
qed

text \<open>The two limits \<open>strtoimax\<close> uses, in terms of the largest magnitude it accepts.\<close>

definition max_magnitude :: "bool \<Rightarrow> int" where
  "max_magnitude neg = (if neg then 2 ^ 63 else 2 ^ 63 - 1)"

lemma strtoimax_limits_eq:
  assumes "2 \<le> base"
  shows "strtoimax_limits neg base =
     (max_magnitude neg mod base,
      if neg then - (max_magnitude neg div base) else max_magnitude neg div base)"
proof -
  have n: "INTMAX_MIN smod b = - (2 ^ 63 mod b)" "INTMAX_MIN sdiv b = - (2 ^ 63 div b)"
    "INTMAX_MAX smod b = (2 ^ 63 - 1) mod b" "INTMAX_MAX sdiv b = (2 ^ 63 - 1) div b"
    if "2 \<le> b" for b :: int
    using that by (simp_all add: INTMAX_MIN_def INTMAX_MAX_def signed_divide_int_def
        signed_modulo_int_def sgn_if minus_mod_eq_div_mult)
  have m: "0 \<le> 9223372036854775808 mod base" using assms by simp
  then show ?thesis
    using n [OF assms] n [of 4] n [of 8] n [of 10] n [of 16]
    by (simp add: strtoimax_limits_def max_magnitude_def)
qed

subsection \<open>Overflow and the value read\<close>

lemma number_int: "int (number base (ds @ [b])) = int (number base ds) * int base + int (digit_val b)"
  by simp

lemma number_mono_snoc: "0 < base \<Longrightarrow> number base ds \<le> number base (ds @ [b])"
  by (simp add: trans_le_add1)

text \<open>
  What the digit loop of \<open>strtoimax\<close> has computed after the digits \<open>ds\<close>: the value as long
  as it fits, the limit and \<open>ERANGE\<close> from the first digit that overflows.
\<close>

definition parsed :: "bool \<Rightarrow> nat \<Rightarrow> u8 list \<Rightarrow> strto_state" where
  "parsed neg base ds =
     (let v = int (number base ds)
       in if v \<le> max_magnitude neg then (if neg then - v else v, if ds = [] then 0 else 1, False)
         else (if neg then INTMAX_MIN else INTMAX_MAX, -1, True))"

lemma strtoimax_step_value:
  fixes neg :: bool and base d v any :: int
  assumes "0 < base" and "0 \<le> d" and "d < base" and "0 \<le> any"
  defines "q \<equiv> max_magnitude neg div base" and "r \<equiv> max_magnitude neg mod base"
  shows "strtoimax_step neg base (if neg then - q else q) r d (if neg then - v else v, any, e) =
     (if v * base + d \<le> max_magnitude neg then (if neg then - (v * base + d) else v * base + d, 1, e)
      else (if neg then INTMAX_MIN else INTMAX_MAX, -1, True))"
proof -
  have "v > q \<or> v = q \<and> d > r \<longleftrightarrow> \<not> v * base + d \<le> max_magnitude neg"
    using cutoff_iff [OF assms(1-3), of "max_magnitude neg" v] by (simp only: q_def r_def not_le)
  then show ?thesis using assms(4) by (cases neg) auto
qed

lemma strtoimax_step_parsed:
  assumes "base_digit base b"
  shows "strtoimax_step neg (int base)
       (if neg then - (max_magnitude neg div int base) else max_magnitude neg div int base)
       (max_magnitude neg mod int base) (int (digit_val b)) (parsed neg base ds)
     = parsed neg base (ds @ [b])"
proof (cases "int (number base ds) \<le> max_magnitude neg")
  case True
  have "digit_val b < base" using assms by (auto elim: base_digitE)
  then show ?thesis
    using True strtoimax_step_value [of "int base" "int (digit_val b)" "if ds = [] then 0 else 1" neg
        "int (number base ds)" False]
    by (simp add: parsed_def Let_def number_int del: number_simps(2) strtoimax_step.simps)
next
  case False
  moreover have "int (number base ds) \<le> int (number base (ds @ [b]))"
    using assms number_mono_snoc [of base ds b] by (auto elim: base_digitE simp del: number_simps)
  ultimately show ?thesis by (simp add: parsed_def Let_def del: number_simps)
qed

lemma strtoimax_fold_parsed:
  assumes "\<forall>b\<in>set ds. base_digit base b"
  shows "fold (\<lambda>b. strtoimax_step neg (int base)
       (if neg then - (max_magnitude neg div int base) else max_magnitude neg div int base)
       (max_magnitude neg mod int base) (int (digit_val b))) ds (0, 0, False) = parsed neg base ds"
  using assms
proof (induction ds rule: rev_induct)
  case Nil
  then show ?case by (simp add: parsed_def max_magnitude_def)
next
  case (snoc b ds)
  then show ?case
    using strtoimax_step_parsed [of base b neg ds] by simp
qed

definition uparsed :: "nat \<Rightarrow> u8 list \<Rightarrow> strtou_state" where
  "uparsed base ds =
     (let v = number base ds
      in if v < 2 ^ 64 then (of_nat v, if ds = [] then 0 else 1, False)
         else (UINTMAX_MAX, -1, True))"

lemma uint_UINTMAX_MAX: "uint UINTMAX_MAX = 2 ^ 64 - 1"
  by (simp add: UINTMAX_MAX_def unsigned_minus_1_eq_mask mask_eq_exp_minus_1)

lemma strtoumax_limits_eq:
  assumes "2 \<le> base" and "base \<le> 36"
  shows "fst (strtoumax_limits base) = (2 ^ 64 - 1) mod base"
    and "uint (snd (strtoumax_limits base)) = (2 ^ 64 - 1) div base"
proof -
  have b: "uint (word_of_int base :: u64) = base"
    using assms by (simp add: unsigned_of_int take_bit_int_eq_self)
  have m: "uint (UINTMAX_MAX mod (word_of_int base :: u64)) = (2 ^ 64 - 1) mod base"
    by (simp add: uint_mod uint_UINTMAX_MAX b)
  define x where "x = (2 ^ 64 - 1 :: int) mod base"
  have "0 \<le> x" "x < base" using assms by (simp_all add: x_def)
  then have x: "take_bit 32 x = x" "signed_take_bit 31 x = x"
    using assms by (simp_all add: take_bit_int_eq_self signed_take_bit_int_eq_self)
  have s: "sint (ucast (UINTMAX_MAX mod (word_of_int base :: u64)) :: u32) = (2 ^ 64 - 1) mod base"
    using x by (simp only: sint_uint unsigned_ucast_eq m x_def [symmetric]) simp
  show "fst (strtoumax_limits base) = (2 ^ 64 - 1) mod base"
    using s by (simp add: strtoumax_limits_def uint_mod uint_UINTMAX_MAX)
  show "uint (snd (strtoumax_limits base)) = (2 ^ 64 - 1) div base"
    by (simp add: strtoumax_limits_def uint_div uint_UINTMAX_MAX b)
qed

lemma strtoumax_step_value:
  assumes "2 \<le> base" and "base \<le> 36" and "0 \<le> d" and "d < base" and "v < 2 ^ 64" and "0 \<le> any"
  shows "strtoumax_step base (snd (strtoumax_limits base)) (fst (strtoumax_limits base)) d
       (of_nat v, any, e) =
     (if int v * base + d \<le> 2 ^ 64 - 1 then (of_int (int v * base + d), 1, e)
      else (UINTMAX_MAX, -1, True))"
proof -
  let ?q = "snd (strtoumax_limits base)" and ?r = "fst (strtoumax_limits base)"
  have u: "uint (of_nat v :: u64) = int v"
    using assms(5) by (simp add: unsigned_of_nat take_bit_nat_eq_self)
  have "of_nat v > ?q \<or> of_nat v = ?q \<and> d > ?r \<longleftrightarrow>
      int v > (2 ^ 64 - 1) div base \<or> int v = (2 ^ 64 - 1) div base \<and> d > (2 ^ 64 - 1) mod base"
    by (simp only: word_less_def uint_eq_iff [symmetric] u strtoumax_limits_eq [OF assms(1,2)])
  also have "\<dots> \<longleftrightarrow> \<not> int v * base + d \<le> 2 ^ 64 - 1"
    using cutoff_iff [of base d "2 ^ 64 - 1" "int v"] assms by (simp only: not_le)
  finally have c: "(of_nat v > ?q \<or> of_nat v = ?q \<and> d > ?r) = (\<not> int v * base + d \<le> 2 ^ 64 - 1)" .
  have w: "of_nat v * word_of_int base + word_of_int d = (of_int (int v * base + d) :: u64)" by simp
  show ?thesis
    using assms(6) by (simp only: strtoumax_step.simps c w) (simp del: of_int_add of_int_mult)
qed

lemma strtoumax_step_parsed:
  assumes "base_digit base b" and "2 \<le> base" and "base \<le> 36"
  shows "strtoumax_step (int base) (snd (strtoumax_limits (int base)))
       (fst (strtoumax_limits (int base))) (int (digit_val b)) (uparsed base ds)
     = uparsed base (ds @ [b])"
proof (cases "number base ds < 2 ^ 64")
  case True
  have d: "digit_val b < base" using assms by (auto elim: base_digitE)
  have "(int (number base (ds @ [b])) \<le> 2 ^ 64 - 1) = (number base (ds @ [b]) < 2 ^ 64)"
    by (simp del: number_simps) linarith
  then show ?thesis
    using True d assms(2,3) strtoumax_step_value [of "int base" "int (digit_val b)" "number base ds"
        "if ds = [] then 0 else 1" False]
    unfolding uparsed_def Let_def
    by (simp only: number_int [symmetric] of_int_of_nat_eq if_True) simp
next
  case False
  moreover have "number base ds \<le> number base (ds @ [b])"
    using assms number_mono_snoc [of base ds b] by (auto elim: base_digitE simp del: number_simps)
  ultimately have "\<not> number base (ds @ [b]) < 2 ^ 64" by linarith
  with False show ?thesis by (simp add: uparsed_def Let_def del: number_simps)
qed

lemma strtoumax_fold_parsed:
  assumes "\<forall>b\<in>set ds. base_digit base b" and "2 \<le> base" and "base \<le> 36"
  shows "fold (\<lambda>b. strtoumax_step (int base) (snd (strtoumax_limits (int base)))
       (fst (strtoumax_limits (int base))) (int (digit_val b))) ds (0, 0, False) = uparsed base ds"
  using assms(1)
proof (induction ds rule: rev_induct)
  case Nil
  then show ?case by (simp add: uparsed_def)
next
  case (snoc b ds)
  then show ?case
    using strtoumax_step_parsed [OF _ assms(2,3), of b ds] by simp
qed

subsection \<open>White space, sign and prefix\<close>

lemma strto_skip_spaces:
  assumes "cstr m p (ws @ ys)" and "\<forall>b\<in>set ws. isspace (ucast b)"
    and "ys = [] \<or> \<not> isspace (ucast (hd ys))"
  shows "strto_skip m p = Some (uint (m (p + of_nat (length ws))), p + of_nat (length ws) + 1)"
  using assms
proof (induction ws arbitrary: p)
  case Nil
  then have "\<not> isspace (ucast (m p))" by (cases ys) auto
  then show ?case by (simp add: strto_skip.simps [of m p])
next
  case (Cons w ws)
  then have "m p = w" and "cstr m (p + 1) (ws @ ys)" by simp_all
  with Cons show ?case by (simp add: strto_skip.simps [of m p] add.assoc)
qed

text \<open>
  \<open>numeral_at m p base ws sg ds rest\<close>: the C string at \<open>p\<close> is white space, an optional sign,
  digits of the base and a rest that does not continue the digits.  In base 16 the digits must
  not be the \<open>0\<close> of a \<open>0x\<close> prefix.
\<close>

definition numeral_at ::
  "mem \<Rightarrow> ptr \<Rightarrow> nat \<Rightarrow> u8 list \<Rightarrow> u8 list \<Rightarrow> u8 list \<Rightarrow> u8 list \<Rightarrow> bool" where
  "numeral_at m p base ws sg ds rest \<longleftrightarrow>
     cstr m p (ws @ sg @ ds @ rest) \<and> (\<forall>b\<in>set ws. isspace (ucast b)) \<and>
     (sg = [] \<or> sg = [43] \<or> sg = [45]) \<and>
     ds \<noteq> [] \<and> (\<forall>b\<in>set ds. base_digit base b) \<and>
     (rest = [] \<or> \<not> base_digit base (hd rest)) \<and>
     (base = 16 \<longrightarrow> ds = [48] \<longrightarrow> rest = [] \<or> hd rest \<noteq> 120 \<and> hd rest \<noteq> 88)"

lemma no_prefix:
  assumes "cstr m p (ds @ rest)" and "ds \<noteq> []" and "\<forall>b\<in>set ds. base_digit base b" and "0 < base"
    and "base = 16 \<longrightarrow> ds = [48] \<longrightarrow> rest = [] \<or> hd rest \<noteq> 120 \<and> hd rest \<noteq> 88"
    and "char_is c (m p)"
  shows "strto_base m c (p + 1) (int base) = (c, p + 1, int base)"
proof -
  have "\<not> (base = 16 \<and> c = 48 \<and> (m (p + 1) = 120 \<or> m (p + 1) = 88))"
  proof
    assume a: "base = 16 \<and> c = 48 \<and> (m (p + 1) = 120 \<or> m (p + 1) = 88)"
    obtain d ds' where ds: "ds = d # ds'" using assms(2) by (cases ds) auto
    then have d: "m p = d" "base_digit 16 d" using assms(1,3) a by auto
    have "digit_of 120 = Some 33" "digit_of 88 = Some 33" by (simp_all add: digit_of_def)
    then have "\<not> base_digit 16 (m (p + 1))" using a by (auto simp: base_digit_def)
    then have ds': "ds' = []"
      using ds assms(1,3) a by (cases ds') auto
    have "uint d = 48"
      using a d assms(6) unfolding char_is_def by (auto simp: sint_byte base_digit_def digit_of_def Let_def split: if_splits)
    then have "ds = [48]" using ds ds' uint_eq_iff [of d 48] by simp
    then show False using assms(1,5) a by (cases rest) auto
  qed
  then show ?thesis using assms(4) by (auto simp: strto_base_def)
qed

lemma numeral_head:
  assumes "numeral_at m p base ws sg ds rest" and "0 < base"
  defines "q \<equiv> p + of_nat (length (ws @ sg))"
  obtains c0 s0 c where "strto_skip m p = Some (c0, s0)"
    and "strto_sign m c0 s0 = (sg = [45], c, q + 1)"
    and "strto_base m c (q + 1) (int base) = (c, q + 1, int base)"
    and "char_is c (m q)" and "cstr m q (ds @ rest)"
proof -
  note n = assms(1) [unfolded numeral_at_def]
  obtain d ds' where ds: "ds = d # ds'" using n by (cases ds) auto
  have bd: "base_digit base d" using n ds by auto
  have cq: "cstr m q (ds @ rest)"
    using n cstr_append [of m p "ws @ sg" "ds @ rest"] by (simp add: q_def)
  then have mq: "m q = d" using ds by simp
  let ?ys = "sg @ ds @ rest" and ?s = "p + of_nat (length ws)"
  have "?ys = [] \<or> \<not> isspace (ucast (hd ?ys))"
    using n ds bd base_digit_not_space [OF bd] by (auto simp: ctype_ranges)
  then have skip: "strto_skip m p = Some (uint (m ?s), ?s + 1)"
    using n strto_skip_spaces [of m p ws ?ys] by blast
  have ms: "cstr m ?s ?ys" using n cstr_append [of m p ws ?ys] by simp
  define c where "c = (if sg = [] then uint (m q) else sint (m q))"
  have "uint d \<noteq> 45" "uint d \<noteq> 43"
    using base_digit_not_sign [OF bd] uint_eq_iff [of d 45] uint_eq_iff [of d 43] by auto
  then have "strto_sign m (uint (m ?s)) (?s + 1) = (sg = [45], c, q + 1)"
    using n ms mq by (auto simp: strto_sign_def q_def c_def add.assoc)
  moreover have "char_is c (m q)" by (simp add: c_def)
  moreover have "strto_base m c (q + 1) (int base) = (c, q + 1, int base)"
    using n cq \<open>char_is c (m q)\<close> assms(2) by (intro no_prefix) auto
  ultimately show thesis using that skip cq by blast
qed

text \<open>The specification of the parsers' results.\<close>

definition clamp_signed :: "int \<Rightarrow> int" where
  "clamp_signed v = min INTMAX_MAX (max INTMAX_MIN v)"

lemma strtoimax_numeral:
  assumes "numeral_at m p base ws sg ds rest" and "2 \<le> base" and "base \<le> 36"
  defines "v \<equiv> (if sg = [45] then - int (number base ds) else int (number base ds))"
  shows "strtoimax m p (int base) =
     Some (clamp_signed v, p + of_nat (length (ws @ sg @ ds)), clamp_signed v \<noteq> v)"
proof -
  define q where "q = p + of_nat (length (ws @ sg))"
  obtain c0 s0 c where h: "strto_skip m p = Some (c0, s0)"
    "strto_sign m c0 s0 = (sg = [45], c, q + 1)"
    "strto_base m c (q + 1) (int base) = (c, q + 1, int base)"
    "char_is c (m q)" "cstr m q (ds @ rest)"
    using numeral_head [OF assms(1)] assms(2) unfolding q_def by auto
  have n: "\<forall>b\<in>set ds. base_digit base b" "rest = [] \<or> \<not> base_digit base (hd rest)" "ds \<noteq> []"
    using assms(1) by (simp_all add: numeral_at_def)
  have l: "strtoimax_limits (sg = [45]) (int base) =
     (max_magnitude (sg = [45]) mod int base,
      if sg = [45] then - (max_magnitude (sg = [45]) div int base)
      else max_magnitude (sg = [45]) div int base)"
    using assms(2) by (intro strtoimax_limits_eq) simp
  have e: "p + of_nat (length (ws @ sg @ ds)) = q + of_nat (length ds)"
    by (simp add: q_def)
  obtain cutlim cutoff where l': "strtoimax_limits (sg = [45]) (int base) = (cutlim, cutoff)"
    by fastforce
  obtain acc any erange where pr: "parsed (sg = [45]) base ds = (acc, any, erange)"
    using prod_cases3 by blast
  have "strtoimax_loop m (q + 1) c (0, 0, False) (sg = [45]) (int base) cutoff cutlim
      = Some (parsed (sg = [45]) base ds, q + of_nat (length ds) + 1)"
    using strtoimax_loop_digits [OF h(5) n(1,2) h(4)] strtoimax_fold_parsed [OF n(1)] l l'
    by simp
  then have "strtoimax m p (int base) =
      (let (acc, any, erange) = parsed (sg = [45]) base ds
       in Some (acc, if any \<noteq> 0 then q + of_nat (length ds) else p, erange))"
    unfolding strtoimax_def h(1) bind.bind_lunit
    by (simp add: h(2) h(3) l' pr)
  then show ?thesis
    using n(3) unfolding e
    by (auto simp: parsed_def Let_def v_def clamp_signed_def max_magnitude_def INTMAX_MAX_def
        INTMAX_MIN_def)
qed

lemma strtoumax_numeral:
  assumes "numeral_at m p base ws sg ds rest" and "2 \<le> base" and "base \<le> 36"
  defines "v \<equiv> number base ds"
  shows "strtoumax m p (int base) =
     Some (if v < 2 ^ 64 then if sg = [45] then - of_nat v else of_nat v else UINTMAX_MAX,
           p + of_nat (length (ws @ sg @ ds)), \<not> v < 2 ^ 64)"
proof -
  define q where "q = p + of_nat (length (ws @ sg))"
  obtain c0 s0 c where h: "strto_skip m p = Some (c0, s0)"
    "strto_sign m c0 s0 = (sg = [45], c, q + 1)"
    "strto_base m c (q + 1) (int base) = (c, q + 1, int base)"
    "char_is c (m q)" "cstr m q (ds @ rest)"
    using numeral_head [OF assms(1)] assms(2) unfolding q_def by auto
  have n: "\<forall>b\<in>set ds. base_digit base b" "rest = [] \<or> \<not> base_digit base (hd rest)" "ds \<noteq> []"
    using assms(1) by (simp_all add: numeral_at_def)
  obtain cutlim cutoff where l: "strtoumax_limits (int base) = (cutlim, cutoff)" by fastforce
  have e: "p + of_nat (length (ws @ sg @ ds)) = q + of_nat (length ds)"
    by (simp add: q_def)
  have "strtoumax_loop m (q + 1) c (0, 0, False) (int base) cutoff cutlim
      = Some (uparsed base ds, q + of_nat (length ds) + 1)"
    using strtoumax_loop_digits [OF h(5) n(1,2) h(4)] strtoumax_fold_parsed [OF n(1) assms(2,3)]
    by (simp add: l)
  then show ?thesis
    using n(3) unfolding e strtoumax_def h(1) bind.bind_lunit
    by (simp add: h(2) h(3) l uparsed_def Let_def v_def)
qed

subsection \<open>Printing: the digits written\<close>

definition digit_char :: "nat \<Rightarrow> u8" where
  "digit_char d = (if d > 9 then of_nat (d + 87) else of_nat (d + 48))"

text \<open>The digits of a number in a base, least significant first.\<close>

function radix :: "nat \<Rightarrow> nat \<Rightarrow> u8 list" where
  "radix base v = (if base < 2 \<or> v = 0 then [] else digit_char (v mod base) # radix base (v div base))"
  by pat_completeness auto
termination by (relation "measure snd") auto

declare radix.simps [simp del]

lemma radix_0 [simp]: "radix base 0 = []"
  by (simp add: radix.simps [of base 0])

lemma radix_step: "2 \<le> base \<Longrightarrow> v \<noteq> 0 \<Longrightarrow> radix base v = digit_char (v mod base) # radix base (v div base)"
  by (simp add: radix.simps [of base v])

lemma unat_digit_char: "d < 36 \<Longrightarrow> unat (digit_char d) = (if d > 9 then d + 87 else d + 48)"
  by (simp add: digit_char_def unat_of_nat take_bit_nat_eq_self del: of_nat_add)

lemma digit_of_digit_char: "d < 36 \<Longrightarrow> digit_of (digit_char d) = Some d"
  by (simp add: digit_of_def Let_def unat_digit_char)

lemma digit_char_facts:
  assumes "d < base" and "base \<le> 36"
  shows "base_digit base (digit_char d)" and "digit_val (digit_char d) = d"
  using assms digit_of_digit_char [of d] by (simp_all add: base_digit_def digit_val_def)

lemma radix_digits:
  assumes "2 \<le> base" and "base \<le> 36" and "b \<in> set (radix base v)"
  shows "base_digit base b"
  using assms
proof (induction base v rule: radix.induct)
  case (1 base v)
  then show ?case
    by (cases "v = 0") (auto simp: radix_step digit_char_facts)
qed

lemma radix_not_nul: "2 \<le> base \<Longrightarrow> base \<le> 36 \<Longrightarrow> 0 \<notin> set (radix base v)"
  using radix_digits by fastforce

lemma number_radix:
  assumes "2 \<le> base" and "base \<le> 36"
  shows "number base (rev (radix base v)) = v"
  using assms
proof (induction base v rule: radix.induct)
  case (1 base v)
  then show ?case
    using div_mult_mod_eq [of v base] digit_char_facts(2) [of "v mod base" base]
    by (cases "v = 0") (simp_all add: radix_step)
qed

lemma radix_Nil_iff: "2 \<le> base \<Longrightarrow> radix base v = [] \<longleftrightarrow> v = 0"
  by (cases "v = 0") (simp_all add: radix_step)

lemma length_radix: "2 \<le> base \<Longrightarrow> v < 2 ^ k \<Longrightarrow> length (radix base v) \<le> k"
proof (induction k arbitrary: v)
  case 0
  then show ?case by simp
next
  case (Suc k)
  have "v div base \<le> v div 2" using Suc.prems(1) by (rule div_le_mono2 [rotated]) simp
  then have "v div base < 2 ^ k" using Suc.prems(2) by auto
  then show ?case using Suc.IH [of "v div base"] Suc.prems(1)
    by (cases "v = 0") (simp_all add: radix_step)
qed

lemma lltoa_loop_digits:
  assumes "2 \<le> base" and "base \<le> 36" and "0 \<le> i"
  shows "\<exists>m'. lltoa_loop m s u (int base) i = Some (i + int (length (radix base (unat u))), m') \<and>
     (length (radix base (unat u)) \<le> 64 \<longrightarrow>
        bytes m' (s + of_int i) (length (radix base (unat u))) = radix base (unat u)) \<and>
     (\<forall>a. a \<notin> region (s + of_int i) (length (radix base (unat u))) \<longrightarrow> m' a = m a)"
  using assms(3)
proof (induction "unat u" arbitrary: u i m rule: less_induct)
  case less
  have b: "unat (word_of_int (int base) :: u64) = base"
    using assms by (simp add: unat_of_nat)
  show ?case
  proof (cases "u = 0")
    case True
    then show ?thesis by (simp add: lltoa_loop.simps [of m s 0])
  next
    case False
    let ?d = "unat u mod base" and ?u = "u div word_of_int (int base)"
    have u: "unat u \<noteq> 0" using False by (simp add: unat_eq_0)
    have q: "unat ?u = unat u div base" by (simp only: unat_div b)
    have d: "unat (u mod word_of_int (int base)) = ?d" by (simp only: unat_mod b)
    have "?d < 36" using assms mod_less_divisor [of base "unat u"] by linarith
    then have t: "take_bit 32 ?d = ?d" "signed_take_bit 31 (int ?d) = int ?d"
      by (simp_all add: take_bit_nat_eq_self signed_take_bit_int_eq_self)
    have rem: "sint (ucast (u mod word_of_int (int base)) :: u32) = int ?d"
      using t by (simp only: sint_uint unsigned_ucast_eq uint_nat d) simp
    have lt: "unat ?u < unat u" using u assms by (simp only: q) simp
    let ?m = "m(s + of_int i := digit_char ?d)"
    have nz: "word_of_int (int base) \<noteq> (0 :: u64)" using b assms by auto
    have ch: "(word_of_int (if 9 < int ?d then int ?d - 10 + 97 else int ?d + 48) :: u8) = digit_char ?d"
      by (simp add: digit_char_def)
    have step: "lltoa_loop m s u (int base) i = lltoa_loop ?m s ?u (int base) (i + 1)"
      by (subst lltoa_loop.simps)
         (simp only: False nz rem ch Let_def not_False_eq_True if_True if_False)
    obtain m' where m': "lltoa_loop ?m s ?u (int base) (i + 1)
          = Some (i + 1 + int (length (radix base (unat ?u))), m')"
      "length (radix base (unat ?u)) \<le> 64 \<longrightarrow>
        bytes m' (s + of_int (i + 1)) (length (radix base (unat ?u))) = radix base (unat ?u)"
      "\<forall>a. a \<notin> region (s + of_int (i + 1)) (length (radix base (unat ?u))) \<longrightarrow> m' a = ?m a"
      using less.hyps [OF lt, of "i + 1" ?m] less.prems by auto
    have r: "radix base (unat u) = digit_char ?d # radix base (unat ?u)"
      unfolding q by (rule radix_step [OF assms(1) u])
    have "s + of_int i \<notin> region (s + of_int i + 1) n" if "n \<le> 64" for n
      using region_add_disjoint [of 1 n "s + of_int i"] that by (simp add: region_Suc [of _ 0, simplified])
    then show ?thesis
      using step m' unfolding r by (auto simp: bytes_Suc region_front add.assoc)
  qed
qed

subsection \<open>Printing: the string written\<close>

definition is_negative :: "u64 \<Rightarrow> nat \<Rightarrow> bool" where
  "is_negative val base \<longleftrightarrow> sint val < 0 \<and> base = 10"

definition magnitude :: "u64 \<Rightarrow> nat \<Rightarrow> nat" where
  "magnitude val base = unat (if is_negative val base then - val else val)"

definition sign_text :: "u64 \<Rightarrow> nat \<Rightarrow> u8 list" where
  "sign_text val base = (if is_negative val base then [45] else [])"

definition digits_text :: "u64 \<Rightarrow> nat \<Rightarrow> u8 list" where
  "digits_text val base = (if val = 0 then [48] else rev (radix base (magnitude val base)))"

lemma length_digits_text: "2 \<le> base \<Longrightarrow> length (digits_text val base) \<le> 64"
  using length_radix [of base "magnitude val base" 64]
  by (simp add: digits_text_def magnitude_def del: One_nat_def)

lemma length_sign_text: "length (sign_text val base) \<le> 1"
  by (simp add: sign_text_def)

lemma lltoa_text:
  assumes "2 \<le> base" and "base \<le> 36" and defd: "base \<noteq> 10 \<or> sint val \<noteq> INTMAX_MIN"
  shows "\<exists>m'. lltoa m val str (int base) = Some (str, m') \<and>
     cstr m' str (sign_text val base @ digits_text val base) \<and>
     (\<forall>a. a \<notin> region str (Suc (length (sign_text val base @ digits_text val base))) \<longrightarrow> m' a = m a)"
proof (cases "val = 0")
  case True
  have "str + 1 \<noteq> str" by simp
  then show ?thesis using True
    by (auto simp: lltoa_def sign_text_def digits_text_def is_negative_def region_Suc)
next
  case False
  let ?neg = "is_negative val base"
  define u where "u = (if ?neg then - val else val)"
  define ds where "ds = radix base (unat u)"
  define xs where "xs = ds @ (if ?neg then [45] else [])"
  have len: "length ds \<le> 64"
    using length_radix [of base "unat u" 64] assms(1) by (simp add: ds_def)
  then have lx: "length xs \<le> 65" by (simp add: xs_def)
  obtain m1 where m1: "lltoa_loop m str u (int base) 0 = Some (int (length ds), m1)"
    "bytes m1 str (length ds) = ds" "\<forall>a. a \<notin> region str (length ds) \<longrightarrow> m1 a = m a"
    using lltoa_loop_digits [OF assms(1,2) order_refl, of m str u] len by (auto simp: ds_def)
  define m2 where "m2 = (if ?neg then m1(str + of_nat (length ds) := 45) else m1)"
  have nr: "str + of_nat (length ds) \<notin> region str (length ds)"
    using len by (intro not_in_region) simp
  then have b2: "bytes m2 str (length xs) = xs"
    using m1(2) by (simp add: m2_def xs_def bytes_snoc)
  have f2: "m2 a = m a" if "a \<notin> region str (length xs)" for a
    using that m1(3) by (auto simp: m2_def xs_def region_Suc split: if_splits)
  have nz: "0 \<notin> set xs"
    using radix_not_nul [OF assms(1,2), of "unat u"] by (simp add: xs_def ds_def)
  have nx: "str + of_nat (length xs) \<notin> region str (length xs)"
    using lx by (intro not_in_region) simp
  then have c3: "cstr (m2(str + of_nat (length xs) := 0)) str xs"
    using b2 nz by (simp add: cstr_iff)
  obtain m4 where m4: "strrev (m2(str + of_nat (length xs) := 0)) str = Some (str, m4)"
    "cstr m4 str (rev xs)"
    "\<forall>a. a \<notin> region str (length xs) \<longrightarrow> m4 a = (m2(str + of_nat (length xs) := 0)) a"
    using strrev_correct [OF c3] lx by auto
  have l: "lltoa m val str (int base) = Some (str, m4)"
  proof (cases "?neg")
    case True
    then show ?thesis
      using False m1(1) m4(1) defd
      by (auto simp: lltoa_def is_negative_def u_def m2_def xs_def add.commute Let_def)
  next
    case no: False
    then have "\<not> (sint val < 0 \<and> int base = 10)" by (auto simp: is_negative_def)
    then show ?thesis
      using False no m1(1) m4(1)
      unfolding lltoa_def Let_def u_def m2_def xs_def by (simp only: if_False) simp
  qed
  have t: "rev xs = sign_text val base @ digits_text val base"
    using False by (simp add: xs_def ds_def u_def sign_text_def digits_text_def magnitude_def)
  have f4: "m4 a = m a" if "a \<notin> region str (Suc (length xs))" for a
    using that m4(3) f2 by (auto simp: region_Suc)
  have "length (sign_text val base @ digits_text val base) = length xs"
    by (simp flip: t)
  then show ?thesis using l m4(2) f4 by (simp flip: t)
qed

lemma digits_text_numeral:
  assumes "2 \<le> base" and "base \<le> 36" and "cstr m str (sign_text val base @ digits_text val base)"
  shows "numeral_at m str base [] (sign_text val base) (digits_text val base) []"
proof -
  have "base_digit base 48" using assms by (simp add: base_digit_def digit_of_def)
  moreover have "radix base (magnitude val base) \<noteq> []" if "val \<noteq> 0"
    using that assms radix_Nil_iff [of base "magnitude val base"]
    by (simp add: magnitude_def unat_eq_0)
  ultimately show ?thesis
    using assms radix_digits [of base _ "magnitude val base"]
    by (auto simp: numeral_at_def sign_text_def digits_text_def)
qed

lemma number_digits_text:
  assumes "2 \<le> base" and "base \<le> 36"
  shows "number base (digits_text val base) = magnitude val base"
proof (cases "val = 0")
  case True
  then show ?thesis
    by (simp add: digits_text_def number_def digit_val_def digit_of_def magnitude_def is_negative_def)
next
  case False
  then show ?thesis using number_radix [OF assms] by (simp add: digits_text_def)
qed

lemma uint_neg_word: "(x :: u64) \<noteq> 0 \<Longrightarrow> uint (- x) = 2 ^ 64 - uint x"
  using uint_word_ariths(4) [of x] unsigned_less [of x, where 'a = int] uint_pos_iff [of x]
  by (simp add: zmod_zminus1_eq_if)

lemma sint_word64: "sint (x :: u64) = (if uint x < 2 ^ 63 then uint x else uint x - 2 ^ 64)"
proof -
  have r: "0 \<le> uint x" "uint x < 2 ^ 64" using unsigned_less [of x, where 'a = int] by simp_all
  then have "uint x div 2 ^ 63 = (if 2 ^ 63 \<le> uint x then 1 else 0)" by auto
  then have "bit (uint x) 63 \<longleftrightarrow> 2 ^ 63 \<le> uint x" by (simp add: bit_iff_odd)
  moreover have "sint x = take_bit 64 (uint x) - 2 ^ 64 * of_bool (bit (uint x) 63)"
    by (simp add: sint_uint signed_take_bit_eq_take_bit_minus)
  moreover have "take_bit 64 (uint x) = uint x" using r by (simp add: take_bit_int_eq_self)
  ultimately show ?thesis by simp
qed

lemma magnitude_signed:
  "(if sign_text val 10 = [45] then - int (magnitude val 10) else int (magnitude val 10)) = sint val"
proof -
  have r: "0 \<le> uint val" "uint val < 2 ^ 64" using unsigned_less [of val, where 'a = int] by simp_all
  then show ?thesis
    using uint_neg_word [of val]
    by (cases "val = 0") (auto simp: sign_text_def is_negative_def magnitude_def sint_word64 uint_nat [symmetric] split: if_splits)
qed

lemma lltoa_least: "sint val = INTMAX_MIN \<Longrightarrow> lltoa m val str 10 = None"
  by (auto simp: lltoa_def INTMAX_MIN_def)

lemma lltoa_strtoimax:
  assumes "sint val \<noteq> INTMAX_MIN"
  shows "\<exists>m'. lltoa m val str 10 = Some (str, m') \<and>
     strtoimax m' str 10 =
       Some (sint val, str + of_nat (length (sign_text val 10 @ digits_text val 10)), False)"
proof -
  obtain m' where m': "lltoa m val str 10 = Some (str, m')"
    "cstr m' str (sign_text val 10 @ digits_text val 10)"
    using lltoa_text [of 10 val m str] assms by auto
  have "clamp_signed (sint val) = sint val"
    using sint_greater_eq [of val] sint_less [of val]
    by (simp add: clamp_signed_def INTMAX_MAX_def INTMAX_MIN_def)
  then show ?thesis
    using m' strtoimax_numeral [OF digits_text_numeral [of 10 m' str val]] number_digits_text [of 10 val]
      magnitude_signed [of val]
    by (simp split: if_splits)
qed

subsection \<open>Properties\<close>

text \<open>
  C2.  \<open>strtol\<close> and \<open>strtoll\<close> read a numeral as documented: the value is clamped to the
  64-bit range, \<open>*endptr\<close> points behind the last digit, and \<open>errno\<close> becomes \<open>ERANGE\<close>
  exactly if the value was out of range.
\<close>
theorem strtol_correct:
  assumes "numeral_at m p base ws sg ds rest" and "2 \<le> base" and "base \<le> 36"
  defines "v \<equiv> (if sg = [45] then - int (number base ds) else int (number base ds))"
  shows "strtol m p (int base) =
       Some (clamp_signed v, p + of_nat (length (ws @ sg @ ds)), clamp_signed v \<noteq> v) \<and>
     strtoll m p (int base) = strtol m p (int base)"
  using strtoimax_numeral [OF assms(1-3)] by (simp_all add: v_def strtol_def strtoll_def)

definition example_numeral :: mem where
  "example_numeral = poke (\<lambda>_. 0) 4096 (bytes_of ''  -7fg'')"

theorem strtol_correct_witness:
  "strtol example_numeral 4096 16 = Some (-127, 4101, False)"
proof -
  have "numeral_at example_numeral 4096 16 [32, 32] [45] [55, 102] [103]"
    by (simp add: numeral_at_def example_numeral_def bytes_of_def byte_def isspace_def
        base_digit_def digit_of_def of_char_def)
  from strtol_correct [OF this] show ?thesis
    by (simp add: number_def digit_val_def digit_of_def clamp_signed_def INTMAX_MAX_def INTMAX_MIN_def)
qed

text \<open>
  \<open>strtoul\<close> and \<open>strtoull\<close> read a numeral: a value below \<open>2^64\<close> is returned as it is,
  or negated modulo \<open>2^64\<close> after a minus sign; a larger one gives \<open>UINTMAX_MAX\<close> and \<open>ERANGE\<close>.
\<close>
theorem strtoul_correct:
  assumes "numeral_at m p base ws sg ds rest" and "2 \<le> base" and "base \<le> 36"
  defines "v \<equiv> number base ds"
  shows "strtoul m p (int base) =
       Some (if v < 2 ^ 64 then if sg = [45] then - of_nat v else of_nat v else UINTMAX_MAX,
             p + of_nat (length (ws @ sg @ ds)), \<not> v < 2 ^ 64) \<and>
     strtoull m p (int base) = strtoul m p (int base)"
  using strtoumax_numeral [OF assms(1-3)] by (simp_all add: v_def strtoul_def strtoull_def)

theorem strtoul_correct_witness:
  "strtoul example_numeral 4096 16 = Some (- 127, 4101, False)"
proof -
  have "numeral_at example_numeral 4096 16 [32, 32] [45] [55, 102] [103]"
    by (simp add: numeral_at_def example_numeral_def bytes_of_def byte_def isspace_def
        base_digit_def digit_of_def of_char_def)
  from strtoul_correct [OF this] show ?thesis
    by (simp add: number_def digit_val_def digit_of_def)
qed

text \<open>
  Printing and parsing decimals are inverse to each other at both widths: \<open>strtoimax\<close> reads back
  what \<open>lltoa\<close> wrote, without an overflow and up to the terminating NUL, for every value but the
  least \<open>long long\<close>, on which \<open>lltoa\<close> is undefined; \<open>atoi\<close> reads back what \<open>itoa\<close> wrote for
  every \<open>int\<close>.
\<close>
theorem decimal_roundtrip:
  assumes "sint val \<noteq> INTMAX_MIN"
  shows "(\<exists>m' k. lltoa m val str 10 = Some (str, m') \<and>
     strtoimax m' str 10 = Some (sint val, str + of_nat k, False) \<and> m' (str + of_nat k) = 0) \<and>
   (\<exists>m'. itoa m val32 str 10 = Some (str, m') \<and> atoi m' str = Some (sint val32))"
proof
  let ?k = "length (sign_text val 10 @ digits_text val 10)"
  obtain m' where m': "lltoa m val str 10 = Some (str, m')"
    "cstr m' str (sign_text val 10 @ digits_text val 10)"
    using lltoa_text [of 10 val m str] assms by auto
  then have "m' (str + of_nat ?k) = 0" by (simp only: cstr_iff)
  moreover have "strtoimax m' str 10 = Some (sint val, str + of_nat ?k, False)"
    using lltoa_strtoimax [OF assms, of m str] m'(1) by auto
  ultimately show "\<exists>m' k. lltoa m val str 10 = Some (str, m') \<and>
     strtoimax m' str 10 = Some (sint val, str + of_nat k, False) \<and> m' (str + of_nat k) = 0"
    using m'(1) by blast
next
  have "sint (scast val32 :: u64) = sint val32"
    using sint_greater_eq [of val32] sint_less [of val32]
    by (simp add: signed_scast_eq signed_take_bit_int_eq_self)
  then obtain m' where "lltoa m (scast val32) str 10 = Some (str, m')"
    "strtoimax m' str 10 = Some (sint val32,
       str + of_nat (length (sign_text (scast val32) 10 @ digits_text (scast val32) 10)), False)"
    using lltoa_strtoimax [of "scast val32" m str] sint_greater_eq [of val32]
    by (auto simp: INTMAX_MIN_def)
  then show "\<exists>m'. itoa m val32 str 10 = Some (str, m') \<and> atoi m' str = Some (sint val32)"
    by (auto simp: itoa_def atoi_def strtol_def)
qed

text \<open>
  C3.  In every base from 2 to 36, \<open>strtoumax\<close> reads back the 64-bit pattern \<open>lltoa\<close> wrote, and
  \<open>lltoa\<close> writes at most 66 bytes, all from \<open>str\<close> on; the one exception is the least
  \<open>long long\<close> in base 10, for which \<open>-value\<close> overflows and the call is undefined.
\<close>
theorem lltoa_strtoumax_roundtrip:
  assumes "2 \<le> base" and "base \<le> 36"
  shows "if base = 10 \<and> sint val = INTMAX_MIN then lltoa m val str (int base) = None
     else \<exists>m' k. lltoa m val str (int base) = Some (str, m') \<and> k \<le> 65 \<and>
       strtoumax m' str (int base) = Some (val, str + of_nat k, False) \<and>
       m' (str + of_nat k) = 0 \<and> (\<forall>a. a \<notin> region str (k + 1) \<longrightarrow> m' a = m a)"
proof (cases "base = 10 \<and> sint val = INTMAX_MIN")
  case True
  then show ?thesis by (simp add: lltoa_least)
next
  case False
  then have defd: "base \<noteq> 10 \<or> sint val \<noteq> INTMAX_MIN" by simp
  let ?t = "sign_text val base @ digits_text val base"
  obtain m' where m': "lltoa m val str (int base) = Some (str, m')" "cstr m' str ?t"
    "\<forall>a. a \<notin> region str (Suc (length ?t)) \<longrightarrow> m' a = m a"
    using lltoa_text [OF assms defd, of m str] by auto
  have lt: "magnitude val base < 2 ^ 64" by (simp add: magnitude_def)
  have v: "sign_text val base = [45] \<longrightarrow> - of_nat (magnitude val base) = val"
    "sign_text val base \<noteq> [45] \<longrightarrow> of_nat (magnitude val base) = val"
    by (simp_all add: sign_text_def magnitude_def)
  have "length ?t \<le> 65"
    using length_digits_text [OF assms(1), of val] length_sign_text [of val base] by simp
  moreover have "strtoumax m' str (int base) = Some (val, str + of_nat (length ?t), False)"
    using strtoumax_numeral [OF digits_text_numeral [OF assms m'(2)] assms]
    by (simp add: number_digits_text [OF assms] lt [simplified] v)
  moreover have "m' (str + of_nat (length ?t)) = 0" using m'(2) by (simp only: cstr_iff)
  ultimately have "\<exists>m' k. lltoa m val str (int base) = Some (str, m') \<and> k \<le> 65 \<and>
       strtoumax m' str (int base) = Some (val, str + of_nat k, False) \<and>
       m' (str + of_nat k) = 0 \<and> (\<forall>a. a \<notin> region str (k + 1) \<longrightarrow> m' a = m a)"
    using m'(1,3) unfolding Suc_eq_plus1 by blast
  with False show ?thesis by (simp only: if_False)
qed

theorem lltoa_strtoumax_roundtrip_witness:
  "\<exists>m' k. lltoa (\<lambda>_. 7) 255 4096 2 = Some (4096, m') \<and> k \<le> 65 \<and>
     strtoumax m' 4096 2 = Some (255, 4096 + of_nat k, False)"
  using lltoa_strtoumax_roundtrip [of 2 255 "\<lambda>_. 7" 4096] by auto

end
