(* ===== verification/MemInfo.thy ===== *)
theory MemInfo
  imports MemMap Access CStdlib Heap
begin

text \<open>
  The console commands that show the memory: the rest of \<open>kernel/mem/mem.c\<close> and \<open>heap_print_info\<close> of
  \<open>kernel/mem/heap.c\<close>.
\<close>

definition mem_type_names :: "string list" where
  "mem_type_names =
     ['''', ''Available'', ''Reserved'', ''ACPI Reclaimable'', ''NVS'', ''Bad'', ''PCIe Config'', ''USB (xHCI)'', ''Kernel Heap'',
      ''Frame Buffer'', ''ACPI'', ''LAPIC'', ''Process Stacks'', ''EBDA'', ''Motherboard BIOS'', ''SMP Trampoline'', ''Page Table'',
      ''Page Manager'', ''Kernel'']"

definition mem_warning :: printed where
  "mem_warning = [(''Warning: %s\<newline>'', [PStr ''Memory subsystem not initialized''])]"

text \<open>A type behind the table of names is read out of its bounds.\<close>

definition mem_print_range :: "mem_range \<Rightarrow> printed result" where
  "mem_print_range r =
     (if unat (range_type r) \<ge> length mem_type_names then Inl Undefined
      else Inr [('' %12lx %12lx %16lx %12ld %8ld  %s\<newline>'',
             [PNum (phys_addr r), PNum (phys_addr r + range_size r),
              PNum (if virt_addr r = MAX_VIRTUAL_ADDR then 0 else virt_addr r), PNum (range_size r),
              PNum (range_size r div PAGE_SIZE_4K), PStr (mem_type_names ! unat (range_type r))])])"

fun mem_print_ranges :: "mem_range list \<Rightarrow> printed result" where
  "mem_print_ranges [] = Inr []"
| "mem_print_ranges (r # rs) =
     bind_result (mem_print_range r) (\<lambda>l. bind_result (mem_print_ranges rs) (\<lambda>ls. Inr (l @ ls)))"

definition mem_print_map :: "mem_state \<Rightarrow> printed result" where
  "mem_print_map s =
     (if \<not> mem_inited s then Inr mem_warning
      else bind_result (mem_print_ranges (mem_map s)) (\<lambda>ls. Inr (
        [('' %12s %12s %16s %12s %8s  %s\<newline>'',
          [PStr ''Phys Start'', PStr ''Phys End'', PStr ''Virtual Addr'', PStr ''Size'', PStr ''Pages'', PStr ''Type'']),
         ('' %12s %12s %16s %12s %8s  %s\<newline>'',
          [PStr ''=========='', PStr ''========'', PStr ''============'', PStr ''===='', PStr ''====='', PStr ''===='']) ] @ ls @
        [('' lower %dKB, upper %dKB\<newline>'', [PNum (ucast (mem_lower s)), PNum (ucast (mem_upper s))])])))"

definition mem_print_pages :: "u64 \<Rightarrow> mem_state \<Rightarrow> printed" where
  "mem_print_pages handle s =
     (if \<not> mem_inited s then mem_warning
      else [(''Pages: %ld, Used: %ld, Free: %ld\<newline>'',
             [PNum (pgm_total_pages handle (vm_mem s)), PNum (pgm_used_pages handle (vm_mem s)),
              PNum (pgm_free_pages handle (vm_mem s))])])"

definition mem_print_pt_pgm :: "mem_state \<Rightarrow> printed" where
  "mem_print_pt_pgm s = mem_print_pages (mem_low_pgm_handle s) s"

definition mem_print_main_pgm :: "mem_state \<Rightarrow> printed" where
  "mem_print_main_pgm s = mem_print_pages (mem_main_pgm_handle s) s"

text \<open>\<open>argv\<close> are the addresses of the arguments; \<open>None\<close> is a call of \<open>strtoull\<close> that has no value.\<close>

definition mem_memdump :: "mem \<Rightarrow> ptr list \<Rightarrow> printed option" where
  "mem_memdump m argv =
     (if length argv = 3
      then do { (addr, _, _) \<leftarrow> strtoull m (argv ! 1) 16;
                (sz, _, _) \<leftarrow> strtoull m (argv ! 2) 10;
                Some (map (\<lambda>i. (''%.2x '', [PNum (ucast (m (addr + of_nat i)))])) [0..<unat sz] @ [(''\<newline>'', [])]) }
      else Some [(''Usage: memdump [addr] [size]'', [])])"

definition heap_print_info :: "heap \<Rightarrow> printed" where
  "heap_print_info h =
     [(''Total: %10ld\<newline>'', [PNum (mem_free h + mem_used h)]), (''Free : %10ld\<newline>'', [PNum (mem_free h)]),
      (''Used : %10ld\<newline>'', [PNum (mem_used h)])]"

lemma length_mem_type_names: "length mem_type_names = 19"
  by (simp add: mem_type_names_def)

text \<open>The map is printed exactly when every type has a name.\<close>

lemma mem_print_ranges_defined:
  "(\<exists>ls. mem_print_ranges rs = Inr ls) \<longleftrightarrow> (\<forall>r\<in>set rs. range_type r < 19)"
proof (induction rs)
  case (Cons r rs)
  have n: "unat (range_type r) < length mem_type_names \<longleftrightarrow> range_type r < 19"
    by (simp add: length_mem_type_names word_less_nat_alt)
  show ?case
  proof (cases "range_type r < 19")
    case True
    then have "mem_print_range r \<noteq> Inl Undefined" "\<exists>l. mem_print_range r = Inr l"
      using n by (auto simp: mem_print_range_def)
    then show ?thesis using Cons.IH True by (cases "mem_print_ranges rs") auto
  next
    case False
    then show ?thesis using n by (simp add: mem_print_range_def)
  qed
qed simp

text \<open>The ranges the kernel itself makes have a name; those of the boot loader keep its types.\<close>

lemma kernel_types_named:
  "\<forall>t\<in>{MEMORY_AVAILABLE, MEMORY_HEAP, MEMORY_USB_DEVICE, MEMORY_FRAME_BUFFER, MEMORY_LAPIC, MEMORY_STACKS, MEMORY_EBDA,
      MEMORY_MOTHERBOARD_BIOS, MEMORY_SMP_TRAMPOLINE, MEMORY_PAGE_TABLE, MEMORY_PGM, MEMORY_KERNEL}.
     unat t < length mem_type_names \<and> t \<noteq> 0"
  by (simp add: length_mem_type_names MEMORY_AVAILABLE_def MEMORY_HEAP_def MEMORY_USB_DEVICE_def MEMORY_FRAME_BUFFER_def
      MEMORY_LAPIC_def MEMORY_STACKS_def MEMORY_EBDA_def MEMORY_MOTHERBOARD_BIOS_def MEMORY_SMP_TRAMPOLINE_def
      MEMORY_PAGE_TABLE_def MEMORY_PGM_def MEMORY_KERNEL_def)

end
