(* ===== verification/Font.thy ===== *)
theory Font
  imports CString Access
begin

text \<open>
  The bitmap fonts of \<open>kernel/font/psf_font.c\<close>.  A font file is linked into the kernel; the
  addresses of the files (the linker's symbols) and of the string literals are arguments.  The
  fields of the struct \<open>psf_fonts\<close> are the constructors of \<open>font_name\<close>, in the order of the
  struct; a pointer to one of them is its name.
\<close>

subsection \<open>Data\<close>

definition PSF1_MAGIC :: u32 where "PSF1_MAGIC = 0x0436"
definition PSF2_MAGIC :: u32 where "PSF2_MAGIC = 0x864AB572"
definition PSF1_MODE512 :: u8 where "PSF1_MODE512 = 0x01"
definition PSF1_CHAR_WIDTH :: u32 where "PSF1_CHAR_WIDTH = 8"
definition PSF2_CHAR_WIDTH :: u32 where "PSF2_CHAR_WIDTH = 16"

record psf_font =
  psf_version :: u8
  psf_header :: ptr
  glyph_width :: u8
  glyph_height :: u8
  glyph_size :: u32
  num_glyphs :: u32
  glyphs :: ptr

datatype font_name =
  Default | Fixed13 | Fixed14 | Fixed15 | Fixed16 | Fixed18 | Terminus12x6 | Terminus14 | Terminus16
  | Terminus18x10 | Terminus20x10 | Terminus22x11 | Terminus24x12 | Terminus28x14 | Terminus32x16
  | TerminusBold14 | TerminusBold16 | TerminusBold18x10 | TerminusBold20x10 | TerminusBold22x11
  | TerminusBold24x12 | TerminusBold28x14 | TerminusBold32x16 | TerminusBoldVGA14 | TerminusBoldVGA16

type_synonym psf_fonts = "font_name \<Rightarrow> psf_font"

definition font_names :: "(string \<times> font_name) list" where
  "font_names =
     [(''Default'', Default), (''Fixed13'', Fixed13), (''Fixed14'', Fixed14), (''Fixed15'', Fixed15),
      (''Fixed16'', Fixed16), (''Fixed18'', Fixed18), (''Terminus12x6'', Terminus12x6),
      (''Terminus14'', Terminus14), (''Terminus16'', Terminus16), (''Terminus18x10'', Terminus18x10),
      (''Terminus20x10'', Terminus20x10), (''Terminus22x11'', Terminus22x11),
      (''Terminus24x12'', Terminus24x12), (''Terminus28x14'', Terminus28x14),
      (''Terminus32x16'', Terminus32x16), (''TerminusBold14'', TerminusBold14),
      (''TerminusBold16'', TerminusBold16), (''TerminusBold18x10'', TerminusBold18x10),
      (''TerminusBold20x10'', TerminusBold20x10), (''TerminusBold22x11'', TerminusBold22x11),
      (''TerminusBold24x12'', TerminusBold24x12), (''TerminusBold28x14'', TerminusBold28x14),
      (''TerminusBold32x16'', TerminusBold32x16), (''TerminusBoldVGA14'', TerminusBoldVGA14),
      (''TerminusBoldVGA16'', TerminusBoldVGA16)]"

text \<open>The two headers.\<close>

record psf1_header =
  psf1_magic :: u32
  psf1_mode :: u8
  psf1_charsize :: u8

record psf2_header =
  psf2_magic :: u32
  psf2_version :: u32
  psf2_headersize :: u32
  psf2_flags :: u32
  psf2_length :: u32
  psf2_charsize :: u32
  psf2_height :: u32
  psf2_width :: u32

definition read_psf1 :: "mem \<Rightarrow> ptr \<Rightarrow> psf1_header" where
  "read_psf1 m p = \<lparr>psf1_magic = mem_read_16 m p, psf1_mode = m (p + 2), psf1_charsize = m (p + 3)\<rparr>"

definition read_psf2 :: "mem \<Rightarrow> ptr \<Rightarrow> psf2_header" where
  "read_psf2 m p =
     \<lparr>psf2_magic = mem_read_32 m p, psf2_version = mem_read_32 m (p + 4), psf2_headersize = mem_read_32 m (p + 8),
      psf2_flags = mem_read_32 m (p + 12), psf2_length = mem_read_32 m (p + 16), psf2_charsize = mem_read_32 m (p + 20),
      psf2_height = mem_read_32 m (p + 24), psf2_width = mem_read_32 m (p + 28)\<rparr>"

subsection \<open>Registering\<close>

text \<open>
  The rows of a PSF2 glyph are two bytes, high byte first; registering swaps them.  The header is
  read once: the glyphs lie behind it.
\<close>

definition swap_bytes :: "ptr \<Rightarrow> mem \<Rightarrow> mem" where
  "swap_bytes p m = m(p := m (p + 1), p + 1 := m p)"

definition swap_glyph :: "u32 \<Rightarrow> ptr \<Rightarrow> mem \<Rightarrow> mem" where
  "swap_glyph height glyph m =
     fold (\<lambda>k. swap_bytes (glyph + of_nat (2 * k))) [0..<unat (2 * height) div 2] m"

definition psf_register_font :: "psf_font \<Rightarrow> ptr \<Rightarrow> mem \<Rightarrow> psf_font \<times> mem" where
  "psf_register_font font p m =
     (let h1 = read_psf1 m p; h2 = read_psf2 m p
      in if psf1_magic h1 = PSF1_MAGIC
         then (\<lparr>psf_version = 1, psf_header = p, glyph_width = ucast PSF1_CHAR_WIDTH,
                glyph_height = psf1_charsize h1, glyph_size = ucast (psf1_charsize h1),
                num_glyphs = (if psf1_mode h1 AND PSF1_MODE512 \<noteq> 0 then 512 else 256), glyphs = p + 4\<rparr>, m)
         else if psf2_magic h2 = PSF2_MAGIC
         then let gs = p + ucast (psf2_headersize h2)
              in (\<lparr>psf_version = 2, psf_header = p, glyph_width = ucast (psf2_width h2),
                   glyph_height = ucast (psf2_height h2), glyph_size = psf2_charsize h2,
                   num_glyphs = psf2_length h2, glyphs = gs\<rparr>,
                  fold (\<lambda>i. swap_glyph (psf2_height h2) (gs + ucast (of_nat i * psf2_charsize h2)))
                    [0..<unat (psf2_length h2)] m)
         else (font, m))"

text \<open>The fonts are registered in order; the active font is the pointer that is returned.\<close>

definition psf_init_fonts :: "(font_name \<Rightarrow> ptr) \<Rightarrow> psf_fonts \<Rightarrow> mem \<Rightarrow> font_name \<times> psf_fonts \<times> mem" where
  "psf_init_fonts start fonts m =
     (let (fonts, m) = fold (\<lambda>(_, f) (fonts, m). let (font, m) = psf_register_font (fonts f) (start f) m in (fonts(f := font), m))
        font_names (fonts, m)
      in (Terminus18x10, fonts, m))"

subsection \<open>Looking up and printing\<close>

text \<open>\<open>psf_active_font\<close> is the name of the font; the setter and the getter.\<close>

definition psf_set_active_font :: "font_name \<Rightarrow> font_name \<Rightarrow> font_name" where
  "psf_set_active_font font psf_active_font = font"

definition psf_get_active_font :: "font_name \<Rightarrow> font_name" where
  "psf_get_active_font psf_active_font = psf_active_font"

definition psf_get_available_fonts :: "psf_fonts \<Rightarrow> psf_fonts" where
  "psf_get_available_fonts psf_available_fonts = psf_available_fonts"

fun name2font_chain :: "mem \<Rightarrow> (string \<Rightarrow> ptr) \<Rightarrow> ptr \<Rightarrow> (string \<times> font_name) list \<Rightarrow> font_name option option" where
  "name2font_chain m lit name [] = Some None"
| "name2font_chain m lit name ((s, f) # rest) =
     do { e \<leftarrow> strequ m name (lit s); if e then Some (Some f) else name2font_chain m lit name rest }"

definition psf_name2font :: "mem \<Rightarrow> (string \<Rightarrow> ptr) \<Rightarrow> ptr \<Rightarrow> font_name option option" where
  "psf_name2font m lit name = name2font_chain m lit name font_names"

definition glyph_row :: "mem \<Rightarrow> psf_font \<Rightarrow> ptr \<Rightarrow> nat \<Rightarrow> u16" where
  "glyph_row m f glyph j =
     (if ucast (glyph_width f) \<le> PSF1_CHAR_WIDTH then ucast (m (glyph + of_nat j))
      else ucast (mem_read_16 m (glyph + of_nat (2 * j))))"

definition psf_font_info_print_x :: "mem \<Rightarrow> psf_font \<Rightarrow> printed" where
  "psf_font_info_print_x m f =
     [(''PSF version: %d\<newline>'', [PNum (ucast (psf_version f))])] @
     (if psf_version f = 1
      then let h = read_psf1 m (psf_header f)
           in [(''PSF1 magic: 0x%x\<newline>'', [PNum (ucast (psf1_magic h))]),
               (''PSF1 flags: %d\<newline>'', [PNum (ucast (psf1_mode h))]),
               (''Character width: %d\<newline>'', [PNum (ucast PSF1_CHAR_WIDTH)]),
               (''Character height: %d\<newline>'', [PNum (ucast (psf1_charsize h))]),
               (''Character size (in bytes): %d\<newline>'', [PNum (ucast (psf1_charsize h))])]
      else if psf_version f = 2
      then let h = read_psf2 m (psf_header f)
           in [(''PSF2 magic: 0x%x\<newline>'', [PNum (ucast (psf2_magic h))]),
               (''PSF2 flags: %d\<newline>'', [PNum (ucast (psf2_flags h))]),
               (''PSF2 header size: %d\<newline>'', [PNum (ucast (psf2_headersize h))]),
               (''Number of glyphs: %d\<newline>'', [PNum (ucast (psf2_length h))]),
               (''Character width: %d\<newline>'', [PNum (ucast (psf2_width h))]),
               (''Character height: %d\<newline>'', [PNum (ucast (psf2_height h))]),
               (''Character size (in bytes): %d\<newline>'', [PNum (ucast (psf2_charsize h))])]
      else []) @
     [(''Sample glyph bitmap (\"W\"): \<newline>'', [])] @
     (let glyph = glyphs f + ucast (0x57 * glyph_size f)
      in map (\<lambda>j. (if ucast (glyph_width f) \<le> PSF1_CHAR_WIDTH then '' %.8b\<newline>'' else '' %.16b\<newline>'',
                   [PNum (ucast (glyph_row m f glyph j))])) [0..<unat (glyph_height f)])"

text \<open>The console command \<open>font\<close>; \<open>None\<close> is a comparison that runs off the end of \<open>argv[1]\<close>.\<close>

definition psf_font_info_print :: "mem \<Rightarrow> (string \<Rightarrow> ptr) \<Rightarrow> psf_fonts \<Rightarrow> font_name \<Rightarrow> ptr list \<Rightarrow> printed option" where
  "psf_font_info_print m lit fonts active argv =
     (if 1 < length argv
      then do { font \<leftarrow> psf_name2font m lit (argv ! 1);
                Some (case font of
                    Some f \<Rightarrow> psf_font_info_print_x m (fonts f)
                  | None \<Rightarrow> [(''Error: font %s not found'', [PChars (argv ! 1)])]) }
      else Some (psf_font_info_print_x m (fonts active)))"

subsection \<open>Swapping\<close>

lemma swap_bytes_at:
  "swap_bytes p m p = m (p + 1)" "swap_bytes p m (p + 1) = m p" "a \<notin> region p 2 \<Longrightarrow> swap_bytes p m a = m a"
  by (simp_all add: swap_bytes_def numeral_2_eq_2 region_front)

lemma swap_all:
  assumes "2 * n \<le> 2 ^ 64"
  shows "(\<forall>k<n. fold (\<lambda>k. swap_bytes (g + of_nat (2 * k))) [0..<n] m (g + of_nat (2 * k)) = m (g + of_nat (2 * k) + 1) \<and>
      fold (\<lambda>k. swap_bytes (g + of_nat (2 * k))) [0..<n] m (g + of_nat (2 * k) + 1) = m (g + of_nat (2 * k))) \<and>
    (\<forall>a. a \<notin> region g (2 * n) \<longrightarrow> fold (\<lambda>k. swap_bytes (g + of_nat (2 * k))) [0..<n] m a = m a)"
  using assms
proof (induction n)
  case (Suc n)
  let ?f = "\<lambda>n. fold (\<lambda>k. swap_bytes (g + of_nat (2 * k))) [0..<n] m"
  let ?p = "g + of_nat (2 * n) :: ptr"
  have disj: "region g (2 * n) \<inter> region ?p 2 = {}" using Suc.prems by (intro region_add_disjoint) simp
  have p: "?p \<in> region ?p 2" "?p + 1 \<in> region ?p 2"
    using regionI [of 0 2 ?p] regionI [of 1 2 ?p] by simp_all
  have IH: "\<And>k. k < n \<Longrightarrow> ?f n (g + of_nat (2 * k)) = m (g + of_nat (2 * k) + 1) \<and> ?f n (g + of_nat (2 * k) + 1) = m (g + of_nat (2 * k))"
    "\<And>a. a \<notin> region g (2 * n) \<Longrightarrow> ?f n a = m a"
    using Suc.IH Suc.prems by simp_all
  have step: "?f (Suc n) a = swap_bytes ?p (?f n) a" for a by simp
  have old: "?f n ?p = m ?p" "?f n (?p + 1) = m (?p + 1)" using IH(2) disj p by blast+
  have "?f (Suc n) (g + of_nat (2 * k)) = m (g + of_nat (2 * k) + 1) \<and> ?f (Suc n) (g + of_nat (2 * k) + 1) = m (g + of_nat (2 * k))"
    if "k < Suc n" for k
  proof (cases "k = n")
    case True
    show ?thesis unfolding True step swap_bytes_at old by simp
  next
    case False
    then have k: "k < n" using that by simp
    have "g + of_nat (2 * k) \<in> region g (2 * n)" "g + of_nat (2 * k) + 1 \<in> region g (2 * n)"
      using regionI [of "2 * k" "2 * n" g] regionI [of "2 * k + 1" "2 * n" g] k by (simp_all add: add.assoc add.commute [of 1])
    then have out: "g + of_nat (2 * k) \<notin> region ?p 2" "g + of_nat (2 * k) + 1 \<notin> region ?p 2" using disj by blast+
    show ?thesis unfolding step swap_bytes_at(3) [OF out(1)] swap_bytes_at(3) [OF out(2)] by (rule IH(1) [OF k])
  qed
  moreover have "?f (Suc n) a = m a" if "a \<notin> region g (2 * Suc n)" for a
  proof -
    have "region g (2 * Suc n) = region g (2 * n) \<union> region ?p 2" using region_add [of g "2 * n" 2] by simp
    then have out: "a \<notin> region g (2 * n)" "a \<notin> region ?p 2" using that by blast+
    show ?thesis unfolding step swap_bytes_at(3) [OF out(2)] by (rule IH(2) [OF out(1)])
  qed
  ultimately show ?case by blast
qed simp

lemma fold_blocks: "fold (\<lambda>i. fold (\<lambda>k. f (i * h + k)) [0..<h]) [0..<n] = fold f [0..<n * h]"
proof (induction n)
  case (Suc n)
  have "[0..<Suc n * h] = [0..<n * h] @ map (\<lambda>k. n * h + k) [0..<h]"
    using upt_add_eq_append [of 0 "n * h" h] map_add_upt [of "n * h" h] by (simp add: add.commute)
  then show ?case using Suc by (simp add: fold_map o_def fun_eq_iff)
qed simp

text \<open>A PSF2 font whose rows are two bytes: all rows of all glyphs are swapped.\<close>

lemma register_swaps:
  assumes "psf1_magic (read_psf1 m p) \<noteq> PSF1_MAGIC" and "psf2_magic h = PSF2_MAGIC" and "h = read_psf2 m p"
    and "unat (psf2_charsize h) = 2 * unat (psf2_height h)" and "unat (psf2_length h) * unat (psf2_charsize h) < 2 ^ 32"
    and "psf_register_font f0 p m = (f, m')"
  defines "g \<equiv> p + ucast (psf2_headersize h)" and "n \<equiv> unat (psf2_length h) * unat (psf2_height h)"
  shows "m' = fold (\<lambda>k. swap_bytes (g + of_nat (2 * k))) [0..<n] m" and "glyphs f = g"
    and "glyph_width f = ucast (psf2_width h)" and "glyph_height f = ucast (psf2_height h)"
    and "glyph_size f = psf2_charsize h" and "num_glyphs f = psf2_length h"
proof -
  let ?l = "unat (psf2_length h)" and ?h = "unat (psf2_height h)"
  have r: "psf_register_font f0 p m = (\<lparr>psf_version = 2, psf_header = p, glyph_width = ucast (psf2_width h),
      glyph_height = ucast (psf2_height h), glyph_size = psf2_charsize h, num_glyphs = psf2_length h, glyphs = g\<rparr>,
      fold (\<lambda>i. swap_glyph (psf2_height h) (g + ucast (of_nat i * psf2_charsize h))) [0..<?l] m)"
    using assms(1,2) by (simp add: psf_register_font_def Let_def assms(3) g_def)
  have c: "psf2_charsize h = of_nat (2 * ?h)" using assms(4) by (metis of_nat_unat ucast_id)
  have "2 * ?h < 2 ^ 32" using assms(4) unsigned_less [of "psf2_charsize h", where 'a = nat] by simp
  then have n2: "unat (2 * psf2_height h) div 2 = ?h" by (simp add: unat_word_ariths)
  have at: "ucast (of_nat i * psf2_charsize h) = (of_nat (2 * (i * ?h)) :: u64)" if "i < ?l" for i
  proof -
    have "i * (2 * ?h) \<le> ?l * (2 * ?h)" using that by (intro mult_le_mono1) simp
    moreover have "?l * (2 * ?h) < 2 ^ 32" using assms(4,5) by simp
    ultimately have "i * (2 * ?h) < 2 ^ 32" by (rule le_less_trans)
    moreover have "of_nat i * psf2_charsize h = (of_nat (i * (2 * ?h)) :: u32)" unfolding c by simp
    ultimately have "unat (of_nat i * psf2_charsize h) = i * (2 * ?h)" by (simp add: unat_of_nat take_bit_nat_eq_self del: of_nat_mult)
    then show ?thesis by (metis mult.left_commute of_nat_unat)
  qed
  have "fold (\<lambda>i. swap_glyph (psf2_height h) (g + ucast (of_nat i * psf2_charsize h))) [0..<?l] m =
      fold (\<lambda>i. fold (\<lambda>k. swap_bytes (g + of_nat (2 * (i * ?h + k)))) [0..<?h]) [0..<?l] m"
  proof (rule fold_cong [OF refl refl])
    fix i assume "i \<in> set [0..<?l]"
    then have "i < ?l" by simp
    from at [OF this] show "swap_glyph (psf2_height h) (g + ucast (of_nat i * psf2_charsize h)) =
        fold (\<lambda>k. swap_bytes (g + of_nat (2 * (i * ?h + k)))) [0..<?h]"
      unfolding fun_eq_iff swap_glyph_def n2 by (simp add: algebra_simps)
  qed
  then show "m' = fold (\<lambda>k. swap_bytes (g + of_nat (2 * k))) [0..<n] m"
    using assms(6) r fold_blocks [of "\<lambda>k. swap_bytes (g + of_nat (2 * k))" ?h ?l] by (simp add: n_def)
  show "glyphs f = g" "glyph_width f = ucast (psf2_width h)" "glyph_height f = ucast (psf2_height h)"
    "glyph_size f = psf2_charsize h" "num_glyphs f = psf2_length h"
    using assms(6) r by auto
qed

subsection \<open>Properties\<close>

text \<open>
  C34.  Registering a PSF2 font whose rows are two bytes (more than 8 columns): afterwards every row
  of every glyph reads as the big-endian word the file holds, so that the bits of the row, highest
  first, are its pixels; no byte outside the glyphs changes.
\<close>
theorem psf_register_font_rows:
  assumes "psf1_magic (read_psf1 m p) \<noteq> PSF1_MAGIC" and "psf2_magic h = PSF2_MAGIC" and "h = read_psf2 m p"
    and "unat (psf2_charsize h) = 2 * unat (psf2_height h)" and "unat (psf2_length h) * unat (psf2_charsize h) < 2 ^ 32"
    and "8 < unat (psf2_width h)" and "unat (psf2_width h) < 256" and "unat (psf2_height h) < 256"
    and "psf_register_font f0 p m = (f, m')"
  defines "g \<equiv> p + ucast (psf2_headersize h)"
  shows "unat (glyph_width f) = unat (psf2_width h) \<and> unat (glyph_height f) = unat (psf2_height h) \<and>
    (\<forall>c j. c < unat (psf2_length h) \<longrightarrow> j < unat (psf2_height h) \<longrightarrow>
       (let row = g + of_nat (2 * (c * unat (psf2_height h) + j))
        in glyph_row m' f (glyphs f + ucast (of_nat c * glyph_size f)) j = 256 * ucast (m row) + ucast (m (row + 1)))) \<and>
    (\<forall>a. a \<notin> region g (unat (psf2_length h) * unat (psf2_charsize h)) \<longrightarrow> m' a = m a)"
proof (intro conjI allI impI)
  let ?l = "unat (psf2_length h)" and ?h = "unat (psf2_height h)"
  note r = register_swaps [OF assms(1-5,9), folded g_def]
  show w: "unat (glyph_width f) = unat (psf2_width h)" "unat (glyph_height f) = ?h"
    using assms(7,8) unfolding r(3,4) by (simp_all add: unsigned_ucast_eq take_bit_nat_eq_self)
  have n: "2 * (?l * ?h) = ?l * unat (psf2_charsize h)" using assms(4) by simp
  have "2 * (?l * ?h) \<le> 2 ^ 64" unfolding n using assms(5) by simp
  note s = swap_all [OF this, of g m, folded r(1)]
  show "m' a = m a" if "a \<notin> region g (?l * unat (psf2_charsize h))" for a
    using s that unfolding n by blast
  fix c j assume cj: "c < ?l" "j < ?h"
  have "c * ?h + j < (c + 1) * ?h" using cj by simp
  also have "(c + 1) * ?h \<le> ?l * ?h" using cj by (intro mult_le_mono1) simp
  finally have k: "c * ?h + j < ?l * ?h" .
  let ?row = "g + of_nat (2 * (c * ?h + j)) :: ptr"
  have "m' ?row = m (?row + 1) \<and> m' (?row + 1) = m ?row" using s k by blast
  then have sw: "m' ?row = m (?row + 1)" "m' (?row + 1) = m ?row" by simp_all
  have pos: "glyphs f + ucast (of_nat c * glyph_size f) + of_nat (2 * j) = ?row"
  proof -
    have "c * (2 * ?h) \<le> ?l * (2 * ?h)" using cj by (intro mult_le_mono1) simp
    moreover have "?l * (2 * ?h) < 2 ^ 32" using assms(4,5) by simp
    ultimately have "c * (2 * ?h) < 2 ^ 32" by (rule le_less_trans)
    moreover have "of_nat c * psf2_charsize h = (of_nat (c * (2 * ?h)) :: u32)"
      using assms(4) by (metis of_nat_mult of_nat_unat ucast_id)
    ultimately have "unat (of_nat c * psf2_charsize h) = c * (2 * ?h)" by (simp add: unat_of_nat take_bit_nat_eq_self del: of_nat_mult)
    then have "ucast (of_nat c * psf2_charsize h) = (of_nat (c * (2 * ?h)) :: ptr)" by (metis of_nat_unat)
    then show ?thesis unfolding r(2,5) by (simp add: algebra_simps)
  qed
  have wide: "\<not> ucast (glyph_width f) \<le> PSF1_CHAR_WIDTH"
    using w(1) assms(6) unsigned_less [of "glyph_width f", where 'a = nat]
    by (simp add: PSF1_CHAR_WIDTH_def word_le_nat_alt unsigned_ucast_eq take_bit_nat_eq_self)
  have rd: "ucast (mem_read_16 m' ?row) = (ucast (m' ?row) + 256 * ucast (m' (?row + 1)) :: u16)"
    using unsigned_less [of "m' ?row", where 'a = nat] unsigned_less [of "m' (?row + 1)", where 'a = nat]
    by (simp add: mem_read_16_def word_unat_eq_iff unat_word_ariths unsigned_ucast_eq take_bit_eq_mod)
  show "let row = ?row in glyph_row m' f (glyphs f + ucast (of_nat c * glyph_size f)) j = 256 * ucast (m row) + ucast (m (row + 1))"
    unfolding glyph_row_def Let_def if_not_P [OF wide] pos rd sw by (rule add.commute)
qed

text \<open>A font of one glyph with one row, 0x1234.\<close>

definition example_font :: mem where
  "example_font = poke (\<lambda>_. 0) 0x1000
     (le32 PSF2_MAGIC @ le32 0 @ le32 32 @ le32 0 @ le32 1 @ le32 2 @ le32 1 @ le32 16 @ [0x12, 0x34])"

lemma example_font_fields:
  "read_psf2 example_font 0x1000 =
     \<lparr>psf2_magic = PSF2_MAGIC, psf2_version = 0, psf2_headersize = 32, psf2_flags = 0, psf2_length = 1, psf2_charsize = 2,
      psf2_height = 1, psf2_width = 16\<rparr>"
  "psf1_magic (read_psf1 example_font 0x1000) \<noteq> PSF1_MAGIC"
  "example_font 0x1020 = 0x12" "example_font 0x1021 = 0x34"
proof -
  let ?xs = "le32 PSF2_MAGIC @ le32 0 @ le32 32 @ le32 0 @ le32 1 @ le32 2 @ le32 1 @ le32 16 @ [0x12, 0x34]"
  have "bytes example_font 0x1000 (4 + (4 + (4 + (4 + (4 + (4 + (4 + (4 + 2)))))))) = ?xs"
    using poke_bytes [of ?xs "\<lambda>_. 0" "0x1000"] by (simp add: example_font_def)
  then have b: "bytes example_font 0x1000 4 = le32 PSF2_MAGIC" "bytes example_font 0x1004 4 = le32 0"
    "bytes example_font 0x1008 4 = le32 32" "bytes example_font 0x100C 4 = le32 0" "bytes example_font 0x1010 4 = le32 1"
    "bytes example_font 0x1014 4 = le32 2" "bytes example_font 0x1018 4 = le32 1" "bytes example_font 0x101C 4 = le32 16"
    "bytes example_font 0x1020 2 = [0x12, 0x34]"
    unfolding bytes_add by simp_all
  show "read_psf2 example_font 0x1000 =
     \<lparr>psf2_magic = PSF2_MAGIC, psf2_version = 0, psf2_headersize = 32, psf2_flags = 0, psf2_length = 1, psf2_charsize = 2,
      psf2_height = 1, psf2_width = 16\<rparr>"
    using b(1-8) [THEN read_le32] by (simp add: read_psf2_def)
  show "example_font 0x1020 = 0x12" "example_font 0x1021 = 0x34" using b(9) by (simp_all add: bytes_def upt_rec)
  have "example_font 0x1000 = 0x72" "example_font 0x1001 = 0xb5"
    using b(1) by (simp_all add: bytes_def upt_rec le32_def PSF2_MAGIC_def)
  then show "psf1_magic (read_psf1 example_font 0x1000) \<noteq> PSF1_MAGIC"
    by (simp add: read_psf1_def mem_read_16_def PSF1_MAGIC_def)
qed

theorem psf_register_font_rows_witness:
  "\<forall>f0. let (f, m') = psf_register_font f0 0x1000 example_font in glyph_row m' f (glyphs f + ucast (0 * glyph_size f)) 0 = 0x1234"
proof
  fix f0
  obtain f m' where r: "psf_register_font f0 0x1000 example_font = (f, m')"
    by (cases "psf_register_font f0 0x1000 example_font")
  note e = example_font_fields
  have "psf2_magic (read_psf2 example_font 0x1000) = PSF2_MAGIC" by (simp add: e)
  from psf_register_font_rows [OF e(2) this refl _ _ _ _ _ r] show "let (f, m') = psf_register_font f0 0x1000 example_font
      in glyph_row m' f (glyphs f + ucast (0 * glyph_size f)) 0 = 0x1234"
    by (simp add: e r)
qed

end
