(* ===== verification/Pic.thy ===== *)
theory Pic
  imports Prelude
begin

text \<open>
  Port input and output (\<open>libc/include/sys/io.h\<close>) and the interrupt controllers
  (\<open>kernel/cpu/pic.c\<close>, \<open>pic.h\<close>), with \<open>kernel/device/pit.c\<close>.  The machine behind the ports is no
  part of the kernel: it is the argument \<open>ports\<close> of every operation, with what \<open>inb\<close>, \<open>outb\<close> and
  \<open>STI\<close> do to the state \<open>'d\<close> of the devices.  What the data sheet of the 8259A says of the two
  controllers at 0x20 and 0xA0 is the hypothesis \<open>pic_pair\<close> of the properties; \<open>i8259_ports\<close> is a
  machine that has them.
\<close>

subsection \<open>Ports\<close>

record 'd ports =
  inb :: "u16 \<Rightarrow> 'd \<Rightarrow> u8 \<times> 'd"
  outb :: "u16 \<Rightarrow> u8 \<Rightarrow> 'd \<Rightarrow> 'd"
  STI :: "'d \<Rightarrow> 'd"

definition io_wait :: "'d ports \<Rightarrow> 'd \<Rightarrow> 'd" where
  "io_wait P d = outb P 0x80 0 d"

subsection \<open>Constants\<close>

definition PIC1 :: u16 where "PIC1 = 0x20"
definition PIC2 :: u16 where "PIC2 = 0xA0"
definition PIC1_COMMAND :: u16 where "PIC1_COMMAND = PIC1"
definition PIC1_DATA :: u16 where "PIC1_DATA = PIC1 + 1"
definition PIC2_COMMAND :: u16 where "PIC2_COMMAND = PIC2"
definition PIC2_DATA :: u16 where "PIC2_DATA = PIC2 + 1"
definition PIC_EOI :: u8 where "PIC_EOI = 0x20"
definition PIC_READ_IRR :: u8 where "PIC_READ_IRR = 0x0a"
definition PIC_READ_ISR :: u8 where "PIC_READ_ISR = 0x0b"
definition PIC1_START_VECTOR :: int where "PIC1_START_VECTOR = 0x20"
definition PIC2_START_VECTOR :: int where "PIC2_START_VECTOR = 0x28"
definition PIC_PIT_IRQ :: u8 where "PIC_PIT_IRQ = 0"
definition PIC_KEYBOARD_IRQ :: u8 where "PIC_KEYBOARD_IRQ = 1"
definition PIC1_SPURIOUS_IRQ :: u8 where "PIC1_SPURIOUS_IRQ = 7"
definition PIC2_SPURIOUS_IRQ :: u8 where "PIC2_SPURIOUS_IRQ = 15"
definition PIC_ICW1_ICW4 :: u8 where "PIC_ICW1_ICW4 = 0x01"
definition PIC_ICW1_INIT :: u8 where "PIC_ICW1_INIT = 0x10"
definition PIC_ICW4_8086 :: u8 where "PIC_ICW4_8086 = 0x01"

lemmas pic_ports = PIC1_COMMAND_def PIC1_DATA_def PIC2_COMMAND_def PIC2_DATA_def PIC1_def PIC2_def

subsection \<open>Operations\<close>

definition pic_remap :: "'d ports \<Rightarrow> int \<Rightarrow> int \<Rightarrow> 'd \<Rightarrow> 'd" where
  "pic_remap P vec_offset1 vec_offset2 d =
     (let (a1, d) = inb P PIC1_DATA d;
          (a2, d) = inb P PIC2_DATA d;
          d = io_wait P d;
          d = io_wait P (outb P PIC1_COMMAND (PIC_ICW1_INIT OR PIC_ICW1_ICW4) d);
          d = io_wait P (outb P PIC2_COMMAND (PIC_ICW1_INIT OR PIC_ICW1_ICW4) d);
          d = io_wait P (outb P PIC1_DATA (word_of_int vec_offset1) d);
          d = io_wait P (outb P PIC2_DATA (word_of_int vec_offset2) d);
          d = io_wait P (outb P PIC1_DATA 4 d);
          d = io_wait P (outb P PIC2_DATA 2 d);
          d = io_wait P (outb P PIC1_DATA PIC_ICW4_8086 d);
          d = io_wait P (outb P PIC2_DATA PIC_ICW4_8086 d);
          d = outb P PIC1_DATA a1 d
      in outb P PIC2_DATA a2 d)"

definition pic_eoi :: "'d ports \<Rightarrow> u8 \<Rightarrow> 'd \<Rightarrow> 'd" where
  "pic_eoi P irq d =
     (let d = (if irq \<ge> 8 then outb P PIC2_COMMAND PIC_EOI d else d)
      in outb P PIC1_COMMAND PIC_EOI d)"

text \<open>The port and the line of an interrupt request; shifting 1 by 32 or more is undefined.\<close>

definition irq_line :: "u8 \<Rightarrow> u16 \<times> u8" where
  "irq_line irq = (if irq < 8 then (PIC1_DATA, irq) else (PIC2_DATA, irq - 8))"

definition pic_disable_irq :: "'d ports \<Rightarrow> u8 \<Rightarrow> 'd \<Rightarrow> 'd result" where
  "pic_disable_irq P irq d =
     (let (port, irq) = irq_line irq
      in if irq \<ge> 32 then Inl Undefined
         else let (v, d) = inb P port d; v = v OR push_bit (unat irq) 1
              in Inr (outb P port v d))"

definition pic_enable_irq :: "'d ports \<Rightarrow> u8 \<Rightarrow> 'd \<Rightarrow> 'd result" where
  "pic_enable_irq P irq d =
     (let (port, irq) = irq_line irq
      in if irq \<ge> 32 then Inl Undefined
         else let (v, d) = inb P port d; v = v AND NOT (push_bit (unat irq) 1)
              in Inr (outb P port v d))"

text \<open>The operands of \<open>|\<close> in the source have no order; here the slave is read first.\<close>

definition pic_get_irq_reg :: "'d ports \<Rightarrow> u8 \<Rightarrow> 'd \<Rightarrow> u16 \<times> 'd" where
  "pic_get_irq_reg P ocw3 d =
     (let d = outb P PIC1_COMMAND ocw3 d;
          d = outb P PIC2_COMMAND ocw3 d;
          (v2, d) = inb P PIC2_COMMAND d;
          (v1, d) = inb P PIC1_COMMAND d
      in (push_bit 8 (ucast v2) OR ucast v1, d))"

definition pic_get_irr :: "'d ports \<Rightarrow> 'd \<Rightarrow> u16 \<times> 'd" where
  "pic_get_irr P d = pic_get_irq_reg P PIC_READ_IRR d"

definition pic_get_isr :: "'d ports \<Rightarrow> 'd \<Rightarrow> u16 \<times> 'd" where
  "pic_get_isr P d = pic_get_irq_reg P PIC_READ_ISR d"

definition pic_init :: "'d ports \<Rightarrow> 'd \<Rightarrow> 'd result" where
  "pic_init P d =
     (let d = pic_remap P PIC1_START_VECTOR PIC2_START_VECTOR d
      in bind_result (pic_enable_irq P PIC1_SPURIOUS_IRQ d) (\<lambda>d.
         bind_result (pic_enable_irq P PIC2_SPURIOUS_IRQ d) (\<lambda>d. Inr (STI P d))))"

definition pit_init :: "'d ports \<Rightarrow> 'd \<Rightarrow> 'd result" where
  "pit_init P d = pic_enable_irq P PIC_PIT_IRQ d"

subsection \<open>The data sheet of the 8259A\<close>

text \<open>
  One controller: its mask register, the upper five bits of its vectors, the third initialisation
  word, the request and in-service registers, which of them the command port reads, and where in
  the initialisation sequence it is (0: operating, \<open>n\<close>: waiting for ICW\<open>n\<close>).
\<close>

record i8259 =
  imr :: u8
  vectors :: u8
  icw3 :: u8
  requests :: u8
  in_service :: u8
  read_in_service :: bool
  expects :: nat
  single :: bool
  needs_icw4 :: bool

definition i8259_command :: "u8 \<Rightarrow> i8259 \<Rightarrow> i8259" where
  "i8259_command v c =
     (if bit v 4
      then c\<lparr>imr := 0, read_in_service := False, expects := 2,
             single := bit v 1, needs_icw4 := bit v 0\<rparr>
      else if bit v 3
      then (if bit v 1 then c\<lparr>read_in_service := bit v 0\<rparr> else c)
      else if v = 0x20 then c\<lparr>in_service := in_service c AND (in_service c - 1)\<rparr>
      else c)"

definition i8259_data :: "u8 \<Rightarrow> i8259 \<Rightarrow> i8259" where
  "i8259_data v c =
     (if expects c = 2
      then c\<lparr>vectors := v AND 0xF8, expects := if \<not> single c then 3 else if needs_icw4 c then 4 else 0\<rparr>
      else if expects c = 3 then c\<lparr>icw3 := v, expects := if needs_icw4 c then 4 else 0\<rparr>
      else if expects c = 4 then c\<lparr>expects := 0\<rparr>
      else c\<lparr>imr := v\<rparr>)"

definition i8259_register :: "i8259 \<Rightarrow> u8" where
  "i8259_register c = (if read_in_service c then in_service c else requests c)"

fun pair_write :: "u16 \<Rightarrow> u8 \<Rightarrow> i8259 \<times> i8259 \<Rightarrow> i8259 \<times> i8259" where
  "pair_write port v (c1, c2) =
     (if port = 0x20 then (i8259_command v c1, c2)
      else if port = 0x21 then (i8259_data v c1, c2)
      else if port = 0xA0 then (c1, i8259_command v c2)
      else if port = 0xA1 then (c1, i8259_data v c2)
      else (c1, c2))"

fun pair_read :: "u16 \<Rightarrow> i8259 \<times> i8259 \<Rightarrow> u8" where
  "pair_read port (c1, c2) =
     (if port = 0x20 then i8259_register c1
      else if port = 0x21 then imr c1
      else if port = 0xA0 then i8259_register c2
      else if port = 0xA1 then imr c2
      else 0)"

text \<open>\<open>view\<close> finds the two controllers in the state of the devices.\<close>

definition pic_pair :: "'d ports \<Rightarrow> ('d \<Rightarrow> i8259 \<times> i8259) \<Rightarrow> bool" where
  "pic_pair P view \<longleftrightarrow>
     (\<forall>port v d. view (outb P port v d) = pair_write port v (view d)) \<and>
     (\<forall>port d. view (snd (inb P port d)) = view d) \<and>
     (\<forall>port\<in>{0x20, 0x21, 0xA0, 0xA1}. \<forall>d. fst (inb P port d) = pair_read port (view d)) \<and>
     (\<forall>d. view (STI P d) = view d)"

definition i8259_ports :: "(i8259 \<times> i8259) ports" where
  "i8259_ports = \<lparr>inb = (\<lambda>port d. (pair_read port d, d)), outb = pair_write, STI = (\<lambda>d. d)\<rparr>"

definition i8259_reset :: "u8 \<Rightarrow> i8259" where
  "i8259_reset masks = \<lparr>imr = masks, vectors = 8, icw3 = 0, requests = 0, in_service = 0,
     read_in_service = False, expects = 0, single = False, needs_icw4 = False\<rparr>"

lemma i8259_ports_pair: "pic_pair i8259_ports (\<lambda>d. d)"
  by (simp add: pic_pair_def i8259_ports_def)

subsection \<open>What the operations do to the controllers\<close>

lemma pic_pairD:
  assumes "pic_pair P view"
  shows "view (outb P port v d) = pair_write port v (view d)"
    and "view (snd (inb P port d)) = view d"
    and "fst (inb P 0x21 d) = imr (fst (view d))"
    and "fst (inb P 0xA1 d) = imr (snd (view d))"
    and "fst (inb P 0x20 d) = i8259_register (fst (view d))"
    and "fst (inb P 0xA0 d) = i8259_register (snd (view d))"
    and "view (STI P d) = view d"
  using assms unfolding pic_pair_def by (cases "view d"; simp)+

lemma pic_remap_view:
  assumes "pic_pair P view" and "view d = (c1, c2)"
  shows "view (pic_remap P v1 v2 d) =
    (c1\<lparr>vectors := word_of_int v1 AND 0xF8, icw3 := 4, read_in_service := False,
        expects := 0, single := False, needs_icw4 := True\<rparr>,
     c2\<lparr>vectors := word_of_int v2 AND 0xF8, icw3 := 2, read_in_service := False,
        expects := 0, single := False, needs_icw4 := True\<rparr>)"
proof -
  have icw1: "i8259_command (PIC_ICW1_INIT OR PIC_ICW1_ICW4) c =
      c\<lparr>imr := 0, read_in_service := False, expects := 2, single := False, needs_icw4 := True\<rparr>" for c
    by (simp add: i8259_command_def PIC_ICW1_INIT_def PIC_ICW1_ICW4_def bit_simps)
  show ?thesis
    by (simp add: pic_remap_def pic_ports io_wait_def pic_pairD [OF assms(1)] assms(2) icw1
        i8259_data_def split_beta Let_def)
qed

text \<open>The line of interrupt request \<open>irq\<close>: whether it is masked.\<close>

definition masked :: "nat \<Rightarrow> i8259 \<times> i8259 \<Rightarrow> bool" where
  "masked irq c = (if irq < 8 then bit (imr (fst c)) irq else bit (imr (snd c)) (irq - 8))"

definition operating :: "i8259 \<times> i8259 \<Rightarrow> bool" where
  "operating c \<longleftrightarrow> expects (fst c) = 0 \<and> expects (snd c) = 0"

definition set_masks :: "(u8 \<Rightarrow> u8) \<Rightarrow> i8259 \<Rightarrow> i8259" where
  "set_masks f c = c\<lparr>imr := f (imr c)\<rparr>"

lemma irq_update_view:
  assumes "pic_pair P view" and "operating (view d)" and "irq < 16"
  shows "\<exists>d'. pic_enable_irq P irq d = Inr d' \<and>
      view d' = (if irq < 8 then map_prod (set_masks (\<lambda>v. v AND NOT (push_bit (unat irq) 1))) id (view d)
                 else map_prod id (set_masks (\<lambda>v. v AND NOT (push_bit (unat (irq - 8)) 1))) (view d))"
    and "\<exists>d'. pic_disable_irq P irq d = Inr d' \<and>
      view d' = (if irq < 8 then map_prod (set_masks (\<lambda>v. v OR push_bit (unat irq) 1)) id (view d)
                 else map_prod id (set_masks (\<lambda>v. v OR push_bit (unat (irq - 8)) 1)) (view d))"
proof -
  have small: "\<not> 32 \<le> snd (irq_line irq)"
  proof (cases "irq < 8")
    case True
    then show ?thesis by (simp add: irq_line_def word_le_nat_alt word_less_nat_alt)
  next
    case False
    then have "unat (irq - 8) = unat irq - 8" by (simp add: word_less_nat_alt unat_sub_if')
    with assms(3) False show ?thesis by (simp add: irq_line_def word_le_nat_alt word_less_nat_alt)
  qed
  obtain c1 c2 where v: "view d = (c1, c2)" by fastforce
  show "\<exists>d'. pic_enable_irq P irq d = Inr d' \<and>
      view d' = (if irq < 8 then map_prod (set_masks (\<lambda>v. v AND NOT (push_bit (unat irq) 1))) id (view d)
                 else map_prod id (set_masks (\<lambda>v. v AND NOT (push_bit (unat (irq - 8)) 1))) (view d))"
    using small assms(2) unfolding pic_enable_irq_def Let_def irq_line_def
    by (auto simp: pic_ports pic_pairD [OF assms(1)] v i8259_data_def operating_def set_masks_def split_beta split: if_splits)
  show "\<exists>d'. pic_disable_irq P irq d = Inr d' \<and>
      view d' = (if irq < 8 then map_prod (set_masks (\<lambda>v. v OR push_bit (unat irq) 1)) id (view d)
                 else map_prod id (set_masks (\<lambda>v. v OR push_bit (unat (irq - 8)) 1)) (view d))"
    using small assms(2) unfolding pic_disable_irq_def Let_def irq_line_def
    by (auto simp: pic_ports pic_pairD [OF assms(1)] v i8259_data_def operating_def set_masks_def split_beta split: if_splits)
qed

lemma bit_set_one: "bit ((v :: u8) OR 2 ^ k) n \<longleftrightarrow> bit v n \<or> (n = k \<and> n < 8)"
  by (auto simp: bit_simps)

lemma bit_clear_one: "bit ((v :: u8) AND NOT (2 ^ k)) n \<longleftrightarrow> bit v n \<and> n \<noteq> k"
  using bit_imp_le_length [of v n] by (auto simp: bit_simps)

lemma irq_masks:
  assumes "pic_pair P view" and "operating (view d)" and "irq < 16"
  shows "\<exists>d'. pic_enable_irq P irq d = Inr d' \<and> operating (view d') \<and>
      (\<forall>j<16. masked j (view d') \<longleftrightarrow> masked j (view d) \<and> j \<noteq> unat irq)"
    and "\<exists>d'. pic_disable_irq P irq d = Inr d' \<and> operating (view d') \<and>
      (\<forall>j<16. masked j (view d') \<longleftrightarrow> masked j (view d) \<or> j = unat irq)"
proof -
  obtain c1 c2 where v: "view d = (c1, c2)" by fastforce
  have u: "unat (irq - 8) = unat irq - 8" if "\<not> irq < 8"
    using that by (simp add: word_less_nat_alt unat_sub_if')
  have i: "unat irq < 16" "irq < 8 \<longleftrightarrow> unat irq < 8" using assms(3) by (simp_all add: word_less_nat_alt)
  show "\<exists>d'. pic_enable_irq P irq d = Inr d' \<and> operating (view d') \<and>
      (\<forall>j<16. masked j (view d') \<longleftrightarrow> masked j (view d) \<and> j \<noteq> unat irq)"
    using irq_update_view(1) [OF assms] assms(2) u i
    by (auto simp: v operating_def masked_def set_masks_def bit_clear_one split: if_splits)
  show "\<exists>d'. pic_disable_irq P irq d = Inr d' \<and> operating (view d') \<and>
      (\<forall>j<16. masked j (view d') \<longleftrightarrow> masked j (view d) \<or> j = unat irq)"
    using irq_update_view(2) [OF assms] assms(2) u i
    by (auto simp: v operating_def masked_def set_masks_def bit_set_one split: if_splits)
qed

subsection \<open>Properties\<close>

text \<open>
  For each of the 16 lines \<open>pic_enable_irq\<close> and \<open>pic_disable_irq\<close> change the mask of this line
  and of no other one.
\<close>
theorem pic_irq_masks:
  assumes "pic_pair P view" and "operating (view d)" and "irq < 16"
  shows "(\<exists>d'. pic_enable_irq P irq d = Inr d' \<and> operating (view d') \<and>
      (\<forall>j<16. masked j (view d') \<longleftrightarrow> masked j (view d) \<and> j \<noteq> unat irq)) \<and>
    (\<exists>d'. pic_disable_irq P irq d = Inr d' \<and> operating (view d') \<and>
      (\<forall>j<16. masked j (view d') \<longleftrightarrow> masked j (view d) \<or> j = unat irq))"
  using irq_masks [OF assms] by blast

theorem pic_irq_masks_witness:
  "\<exists>d'. pic_enable_irq i8259_ports 9 (i8259_reset 0xFF, i8259_reset 0xFF) = Inr d' \<and>
     (\<forall>j<16. masked j d' \<longleftrightarrow> j \<noteq> 9)"
proof -
  let ?d = "(i8259_reset 0xFF, i8259_reset 0xFF)"
  have "masked j ?d" if "j < 16" for j
  proof -
    have "bit (255 :: u8) k" if "k < 8" for k
      using that bit_mask_iff [of 8 k, where 'a = "8 word"] by (simp add: mask_eq_exp_minus_1)
    then show ?thesis using that by (auto simp: masked_def i8259_reset_def)
  qed
  moreover have "operating ?d" by (simp add: operating_def i8259_reset_def)
  ultimately show ?thesis
    using pic_irq_masks [OF i8259_ports_pair, of ?d 9] by (auto simp: unat_of_nat)
qed

text \<open>
  C27.  \<open>pic_init\<close> moves the master's vectors to 0x20 and the slave's to 0x28, wires the slave to
  line 2 of the master and leaves both controllers operating with the masks they had, only the
  two lines of the spurious interrupts are let through; the in-service registers are not touched.
\<close>
theorem pic_init_correct:
  assumes "pic_pair P view"
  shows "\<exists>d'. pic_init P d = Inr d' \<and> operating (view d') \<and>
    vectors (fst (view d')) = 0x20 \<and> vectors (snd (view d')) = 0x28 \<and>
    icw3 (fst (view d')) = 2 ^ 2 \<and> icw3 (snd (view d')) = 2 \<and>
    in_service (fst (view d')) = in_service (fst (view d)) \<and> in_service (snd (view d')) = in_service (snd (view d)) \<and>
    (\<forall>j<16. masked j (view d') \<longleftrightarrow> masked j (view d) \<and> j \<noteq> 7 \<and> j \<noteq> 15)"
proof -
  obtain c1 c2 where v: "view d = (c1, c2)" by fastforce
  let ?d = "pic_remap P PIC1_START_VECTOR PIC2_START_VECTOR d"
  note r = pic_remap_view [OF assms v, of PIC1_START_VECTOR PIC2_START_VECTOR]
  have "operating (view ?d)" by (simp add: r operating_def)
  with irq_update_view(1) [OF assms, of ?d PIC1_SPURIOUS_IRQ]
  obtain d1 where d1: "pic_enable_irq P PIC1_SPURIOUS_IRQ ?d = Inr d1"
    "view d1 = map_prod (set_masks (\<lambda>v. v AND NOT (2 ^ 7))) id (view ?d)"
    by (auto simp: PIC1_SPURIOUS_IRQ_def)
  have "operating (view d1)" by (simp add: d1(2) r operating_def set_masks_def)
  with irq_update_view(1) [OF assms, of d1 PIC2_SPURIOUS_IRQ]
  obtain d2 where d2: "pic_enable_irq P PIC2_SPURIOUS_IRQ d1 = Inr d2"
    "view d2 = map_prod id (set_masks (\<lambda>v. v AND NOT (2 ^ 7))) (view d1)"
    by (auto simp: PIC2_SPURIOUS_IRQ_def)
  have view: "view d2 = (c1\<lparr>imr := imr c1 AND - 129, vectors := 0x20, icw3 := 4,
        read_in_service := False, expects := 0, single := False, needs_icw4 := True\<rparr>,
     c2\<lparr>imr := imr c2 AND - 129, vectors := 0x28, icw3 := 2, read_in_service := False,
        expects := 0, single := False, needs_icw4 := True\<rparr>)"
    unfolding d2(2) d1(2) r by (simp add: set_masks_def PIC1_START_VECTOR_def PIC2_START_VECTOR_def)
  have bit: "bit (v AND - 129) j \<longleftrightarrow> bit v j \<and> j \<noteq> 7" for v :: u8 and j
    using bit_clear_one [of v 7 j] by simp
  have "pic_init P d = Inr (STI P d2)" by (simp add: pic_init_def Let_def d1(1) d2(1))
  then show ?thesis by (auto simp: pic_pairD(7) [OF assms] view v operating_def masked_def bit)
qed

theorem pic_init_correct_witness:
  "\<exists>d'. pic_init i8259_ports (i8259_reset 0xB8, i8259_reset 0x8E) = Inr d' \<and> vectors (fst d') = 0x20 \<and>
     (\<forall>j<16. masked j d' \<longleftrightarrow> masked j (i8259_reset 0xB8, i8259_reset 0x8E) \<and> j \<noteq> 7 \<and> j \<noteq> 15)"
  using pic_init_correct [OF i8259_ports_pair, of "(i8259_reset 0xB8, i8259_reset 0x8E)"] by blast

end
