(* ===== verification/Display.thy ===== *)
theory Display
  imports Font Pic
begin

text \<open>
  The display devices: \<open>kernel/tty/vga_ttyd.c\<close> writes 16-bit entries of the text mode's frame
  buffer, \<open>kernel/tty/vbe_ttyd.c\<close> draws the glyphs of a font into the pixels of a graphics mode.
  The struct \<open>tty_device\<close> of function pointers is the record \<open>tty_device\<close> of functions on the
  device's state, and the frame buffers are functions from their indices.  The locale \<open>tty_display\<close>
  is what the terminal needs of a device; both devices interpret it.
\<close>

subsection \<open>The interface\<close>

type_synonym tty_color = u32

definition COLOR_BLACK :: tty_color where "COLOR_BLACK = 0"
definition COLOR_BLUE :: tty_color where "COLOR_BLUE = 1"
definition COLOR_GREEN :: tty_color where "COLOR_GREEN = 2"
definition COLOR_CYAN :: tty_color where "COLOR_CYAN = 3"
definition COLOR_RED :: tty_color where "COLOR_RED = 4"
definition COLOR_MAGENTA :: tty_color where "COLOR_MAGENTA = 5"
definition COLOR_BROWN :: tty_color where "COLOR_BROWN = 6"
definition COLOR_LIGHT_GREY :: tty_color where "COLOR_LIGHT_GREY = 7"
definition COLOR_DARK_GREY :: tty_color where "COLOR_DARK_GREY = 8"
definition COLOR_LIGHT_BLUE :: tty_color where "COLOR_LIGHT_BLUE = 9"
definition COLOR_LIGHT_GREEN :: tty_color where "COLOR_LIGHT_GREEN = 10"
definition COLOR_LIGHT_CYAN :: tty_color where "COLOR_LIGHT_CYAN = 11"
definition COLOR_LIGHT_RED :: tty_color where "COLOR_LIGHT_RED = 12"
definition COLOR_LIGHT_MAGENTA :: tty_color where "COLOR_LIGHT_MAGENTA = 13"
definition COLOR_YELLOW :: tty_color where "COLOR_YELLOW = 14"
definition COLOR_WHITE :: tty_color where "COLOR_WHITE = 15"

text \<open>A width or height whose division traps is \<open>None\<close>.\<close>

record 'd tty_device =
  dev_get_width :: "'d \<Rightarrow> u32 option"
  dev_get_height :: "'d \<Rightarrow> u32 option"
  dev_put_char :: "u32 \<Rightarrow> u32 \<Rightarrow> u8 \<Rightarrow> 'd \<Rightarrow> 'd"
  dev_set_fg :: "tty_color \<Rightarrow> 'd \<Rightarrow> 'd"
  dev_set_bg :: "tty_color \<Rightarrow> 'd \<Rightarrow> 'd"
  dev_enable_cursor :: "'d \<Rightarrow> 'd"
  dev_disable_cursor :: "'d \<Rightarrow> 'd"
  dev_set_cursor :: "u32 \<Rightarrow> u32 \<Rightarrow> 'd \<Rightarrow> 'd"
  dev_clear :: "'d \<Rightarrow> 'd"

subsection \<open>Text mode\<close>

definition VGA_TEXT_MODE_WIDTH :: u32 where "VGA_TEXT_MODE_WIDTH = 80"
definition VGA_TEXT_MODE_HEIGHT :: u32 where "VGA_TEXT_MODE_HEIGHT = 25"
definition VGA_TEXT_MODE_PHYS_ADDR :: u64 where "VGA_TEXT_MODE_PHYS_ADDR = 0xB8000"

text \<open>The union with the bit fields \<open>ch\<close>, \<open>fg\<close> and \<open>bg\<close>; the colours keep their low four bits.\<close>

definition vga_ttyd_entry :: "u8 \<Rightarrow> u8 \<Rightarrow> u8 \<Rightarrow> u16" where
  "vga_ttyd_entry ch fg bg = ucast ch OR push_bit 8 (take_bit 4 (ucast fg)) OR push_bit 12 (take_bit 4 (ucast bg))"

text \<open>\<open>'p\<close> is the state of the machine behind the ports (theory \<open>Pic\<close>).\<close>

record 'p vga =
  vga_fb :: "u32 \<Rightarrow> u16"
  vga_tty_fg :: u8
  vga_tty_bg :: u8
  vga_machine :: 'p

definition vga_ttyd_get_width :: "'p vga \<Rightarrow> u32 option" where "vga_ttyd_get_width d = Some VGA_TEXT_MODE_WIDTH"
definition vga_ttyd_get_height :: "'p vga \<Rightarrow> u32 option" where "vga_ttyd_get_height d = Some VGA_TEXT_MODE_HEIGHT"

definition vga_ttyd_put_char :: "u32 \<Rightarrow> u32 \<Rightarrow> u8 \<Rightarrow> 'p vga \<Rightarrow> 'p vga" where
  "vga_ttyd_put_char x y ch d =
     d\<lparr>vga_fb := (vga_fb d)(y * VGA_TEXT_MODE_WIDTH + x := vga_ttyd_entry ch (vga_tty_fg d) (vga_tty_bg d))\<rparr>"

definition vga_ttyd_set_fg :: "tty_color \<Rightarrow> 'p vga \<Rightarrow> 'p vga" where "vga_ttyd_set_fg fg d = d\<lparr>vga_tty_fg := ucast fg\<rparr>"
definition vga_ttyd_set_bg :: "tty_color \<Rightarrow> 'p vga \<Rightarrow> 'p vga" where "vga_ttyd_set_bg bg d = d\<lparr>vga_tty_bg := ucast bg\<rparr>"

definition vga_ttyd_enable_cursor :: "'p ports \<Rightarrow> 'p vga \<Rightarrow> 'p vga" where
  "vga_ttyd_enable_cursor P d =
     (let p = outb P 0x3D4 0x0A (vga_machine d);
          (v, p) = inb P 0x3D5 p;
          p = outb P 0x3D5 ((v AND 0xC0) OR 14) p;
          p = outb P 0x3D4 0x0B p;
          (v, p) = inb P 0x3D5 p;
          p = outb P 0x3D5 ((v AND 0xE0) OR 15) p
      in d\<lparr>vga_machine := p\<rparr>)"

definition vga_ttyd_disable_cursor :: "'p ports \<Rightarrow> 'p vga \<Rightarrow> 'p vga" where
  "vga_ttyd_disable_cursor P d = d\<lparr>vga_machine := outb P 0x3D5 0x20 (outb P 0x3D4 0x0A (vga_machine d))\<rparr>"

definition vga_ttyd_set_cursor :: "'p ports \<Rightarrow> u32 \<Rightarrow> u32 \<Rightarrow> 'p vga \<Rightarrow> 'p vga" where
  "vga_ttyd_set_cursor P x y d =
     (let pos = ucast (y * VGA_TEXT_MODE_WIDTH + x) :: u16;
          p = outb P 0x3D4 0x0F (vga_machine d);
          p = outb P 0x3D5 (ucast (pos AND 0xFF)) p;
          p = outb P 0x3D4 0x0E p;
          p = outb P 0x3D5 (ucast (drop_bit 8 pos AND 0xFF)) p
      in d\<lparr>vga_machine := p\<rparr>)"

text \<open>\<open>fb_64[i] = v\<close> writes four entries.\<close>

definition vga_store64 :: "u32 \<Rightarrow> u64 \<Rightarrow> (u32 \<Rightarrow> u16) \<Rightarrow> u32 \<Rightarrow> u16" where
  "vga_store64 i v fb =
     fb(4 * i := ucast v, 4 * i + 1 := ucast (drop_bit 16 v), 4 * i + 2 := ucast (drop_bit 32 v),
        4 * i + 3 := ucast (drop_bit 48 v))"

definition vga_ttyd_clear :: "'p vga \<Rightarrow> 'p vga" where
  "vga_ttyd_clear d =
     (let raw_entry = ucast (vga_ttyd_entry 0x20 (vga_tty_fg d) (vga_tty_bg d)) :: u64;
          v = push_bit 48 raw_entry OR push_bit 32 raw_entry OR push_bit 16 raw_entry OR raw_entry
      in d\<lparr>vga_fb := fold (\<lambda>i. vga_store64 (of_nat i) v)
             [0..<unat (VGA_TEXT_MODE_WIDTH * VGA_TEXT_MODE_HEIGHT div 4)] (vga_fb d)\<rparr>)"

definition vga_ttyd_init :: "'p ports \<Rightarrow> 'p vga tty_device" where
  "vga_ttyd_init P =
     \<lparr>dev_get_width = vga_ttyd_get_width, dev_get_height = vga_ttyd_get_height, dev_put_char = vga_ttyd_put_char,
      dev_set_fg = vga_ttyd_set_fg, dev_set_bg = vga_ttyd_set_bg, dev_enable_cursor = vga_ttyd_enable_cursor P,
      dev_disable_cursor = vga_ttyd_disable_cursor P, dev_set_cursor = vga_ttyd_set_cursor P,
      dev_clear = vga_ttyd_clear\<rparr>"

subsection \<open>Graphics mode\<close>

record vbe =
  vbe_fb :: "u32 \<Rightarrow> u32"
  vbe_screen_width :: u32
  vbe_screen_height :: u32
  vbe_tty_fg :: u32
  vbe_tty_bg :: u32
  vbe_tty_font :: psf_font
  vbe_tty_cursor_enabled :: bool
  vbe_tty_cursor_x :: u32
  vbe_tty_cursor_y :: u32

definition vbe_ttyd_convert_color :: "tty_color \<Rightarrow> u32" where
  "vbe_ttyd_convert_color color =
     (if color = COLOR_BLACK then 0x000000
      else if color = COLOR_BLUE then 0x0000AA
      else if color = COLOR_GREEN then 0x00AA00
      else if color = COLOR_CYAN then 0x00AAAA
      else if color = COLOR_RED then 0xAA0000
      else if color = COLOR_MAGENTA then 0xAA00AA
      else if color = COLOR_BROWN then 0xAA5500
      else if color = COLOR_LIGHT_GREY then 0xAAAAAA
      else if color = COLOR_DARK_GREY then 0x555555
      else if color = COLOR_LIGHT_BLUE then 0x5555FF
      else if color = COLOR_LIGHT_GREEN then 0x55FF55
      else if color = COLOR_LIGHT_CYAN then 0x55FFFF
      else if color = COLOR_LIGHT_RED then 0xFF5555
      else if color = COLOR_LIGHT_MAGENTA then 0xFF55FF
      else if color = COLOR_YELLOW then 0xFFFF00
      else if color = COLOR_WHITE then 0xFFFFFF
      else 0x000000)"

definition vbe_ttyd_get_width :: "vbe \<Rightarrow> u32 option" where
  "vbe_ttyd_get_width d =
     (if glyph_width (vbe_tty_font d) = 0 then None else Some (vbe_screen_width d div ucast (glyph_width (vbe_tty_font d))))"

definition vbe_ttyd_get_height :: "vbe \<Rightarrow> u32 option" where
  "vbe_ttyd_get_height d =
     (if glyph_height (vbe_tty_font d) = 0 then None else Some (vbe_screen_height d div ucast (glyph_height (vbe_tty_font d))))"

text \<open>
  One row of a glyph: the mask moves right with every pixel.  The two branches of the loop differ
  in the width of the row and of its mask.
\<close>

definition vbe_put_row :: "vbe \<Rightarrow> u16 \<Rightarrow> u32 \<Rightarrow> (u32 \<Rightarrow> u32) \<Rightarrow> u32 \<Rightarrow> u32" where
  "vbe_put_row d row pos fb =
     (let gw = ucast (glyph_width (vbe_tty_font d)) :: u32;
          top = (if gw \<le> PSF1_CHAR_WIDTH then PSF1_CHAR_WIDTH - 1 else PSF2_CHAR_WIDTH - 1)
      in snd (fold (\<lambda>i (mask, fb). (drop_bit 1 mask,
                fb(pos + of_nat i := if row AND mask \<noteq> 0 then vbe_tty_fg d else vbe_tty_bg d)))
           [0..<unat gw] (push_bit (unat top) 1 :: u16, fb)))"

definition vbe_ttyd_put_char :: "mem \<Rightarrow> u32 \<Rightarrow> u32 \<Rightarrow> u8 \<Rightarrow> vbe \<Rightarrow> vbe" where
  "vbe_ttyd_put_char m x y ch d =
     (let f = vbe_tty_font d;
          glyph = glyphs f + ucast (ucast ch * glyph_size f);
          screen_x = x * ucast (glyph_width f);
          screen_y = y * ucast (glyph_height f)
      in d\<lparr>vbe_fb := fold (\<lambda>j. vbe_put_row d (glyph_row m f glyph j) ((screen_y + of_nat j) * vbe_screen_width d + screen_x))
             [0..<unat (glyph_height f)] (vbe_fb d)\<rparr>)"

definition vbe_ttyd_set_fg :: "tty_color \<Rightarrow> vbe \<Rightarrow> vbe" where "vbe_ttyd_set_fg fg d = d\<lparr>vbe_tty_fg := vbe_ttyd_convert_color fg\<rparr>"
definition vbe_ttyd_set_bg :: "tty_color \<Rightarrow> vbe \<Rightarrow> vbe" where "vbe_ttyd_set_bg bg d = d\<lparr>vbe_tty_bg := vbe_ttyd_convert_color bg\<rparr>"
definition vbe_ttyd_enable_cursor :: "vbe \<Rightarrow> vbe" where "vbe_ttyd_enable_cursor d = d\<lparr>vbe_tty_cursor_enabled := True\<rparr>"
definition vbe_ttyd_disable_cursor :: "vbe \<Rightarrow> vbe" where "vbe_ttyd_disable_cursor d = d\<lparr>vbe_tty_cursor_enabled := False\<rparr>"

definition vbe_ttyd_set_cursor :: "u32 \<Rightarrow> u32 \<Rightarrow> vbe \<Rightarrow> vbe" where
  "vbe_ttyd_set_cursor x y d = d\<lparr>vbe_tty_cursor_x := x, vbe_tty_cursor_y := y\<rparr>"

definition vbe_ttyd_clear :: "vbe \<Rightarrow> vbe" where
  "vbe_ttyd_clear d =
     (let v = push_bit 32 (ucast (vbe_tty_bg d)) OR ucast (vbe_tty_bg d) :: u64
      in d\<lparr>vbe_fb := fold (\<lambda>i fb. fb(2 * of_nat i := ucast v, 2 * of_nat i + 1 := ucast (drop_bit 32 v)))
             [0..<unat (vbe_screen_width d * vbe_screen_height d div 2)] (vbe_fb d)\<rparr>)"

definition vbe_ttyd_functions :: "mem \<Rightarrow> vbe tty_device" where
  "vbe_ttyd_functions m =
     \<lparr>dev_get_width = vbe_ttyd_get_width, dev_get_height = vbe_ttyd_get_height, dev_put_char = vbe_ttyd_put_char m,
      dev_set_fg = vbe_ttyd_set_fg, dev_set_bg = vbe_ttyd_set_bg, dev_enable_cursor = vbe_ttyd_enable_cursor,
      dev_disable_cursor = vbe_ttyd_disable_cursor, dev_set_cursor = vbe_ttyd_set_cursor, dev_clear = vbe_ttyd_clear\<rparr>"

text \<open>The fonts are registered here; the memory with the swapped glyphs is part of the result.\<close>

definition vbe_ttyd_init ::
  "(font_name \<Rightarrow> ptr) \<Rightarrow> u32 \<Rightarrow> u32 \<Rightarrow> psf_fonts \<Rightarrow> vbe \<Rightarrow> mem \<Rightarrow> vbe tty_device \<times> vbe \<times> psf_fonts \<times> mem" where
  "vbe_ttyd_init start screen_width screen_height fonts d m =
     (let (font, fonts, m) = psf_init_fonts start fonts m
      in (vbe_ttyd_functions m,
          d\<lparr>vbe_screen_width := screen_width, vbe_screen_height := screen_height, vbe_tty_font := fonts font\<rparr>, fonts, m))"

subsection \<open>The contract\<close>

text \<open>
  \<open>cell d x y\<close> is what the display shows at a place of the text, \<open>image d c\<close> what it shows for the
  character \<open>c\<close> in its colours, \<open>blank d\<close> what a cleared display shows.  \<open>same d d'\<close>: the geometry and
  the images are those of \<open>d\<close>.
\<close>

locale tty_display =
  fixes dev :: "'d tty_device" and ok :: "'d \<Rightarrow> bool" and cols :: "'d \<Rightarrow> nat" and rows :: "'d \<Rightarrow> nat"
    and cell :: "'d \<Rightarrow> nat \<Rightarrow> nat \<Rightarrow> 'c" and image :: "'d \<Rightarrow> u8 \<Rightarrow> 'c" and blank :: "'d \<Rightarrow> 'c"
  assumes geometry: "ok d \<Longrightarrow> dev_get_width dev d = Some (of_nat (cols d)) \<and> dev_get_height dev d = Some (of_nat (rows d)) \<and>
      0 < cols d \<and> 0 < rows d \<and> rows d < 2 ^ 31 \<and> cols d * rows d < 2 ^ 32"
    and put_char: "ok d \<Longrightarrow> x < cols d \<Longrightarrow> y < rows d \<Longrightarrow> d' = dev_put_char dev (of_nat x) (of_nat y) c d \<Longrightarrow>
      ok d' \<and> cols d' = cols d \<and> rows d' = rows d \<and> image d' = image d \<and> blank d' = blank d \<and>
      (\<forall>x' y'. x' < cols d \<longrightarrow> y' < rows d \<longrightarrow>
         cell d' x' y' = (if x' = x \<and> y' = y then image d c else cell d x' y'))"
    and set_cursor: "ok d \<Longrightarrow> d' = dev_set_cursor dev u v d \<Longrightarrow>
      ok d' \<and> cols d' = cols d \<and> rows d' = rows d \<and> image d' = image d \<and> blank d' = blank d \<and>
      (\<forall>x' y'. x' < cols d \<longrightarrow> y' < rows d \<longrightarrow> cell d' x' y' = cell d x' y')"
    and clear: "ok d \<Longrightarrow> d' = dev_clear dev d \<Longrightarrow>
      ok d' \<and> cols d' = cols d \<and> rows d' = rows d \<and> image d' = image d \<and> blank d' = blank d \<and>
      (\<forall>x' y'. x' < cols d \<longrightarrow> y' < rows d \<longrightarrow> cell d' x' y' = blank d)"

subsection \<open>Folds of updates\<close>

lemma fold_updates:
  "distinct (map fst kvs) \<Longrightarrow>
     fold (\<lambda>(k, v) f. f(k := v)) kvs f q = (case map_of kvs q of None \<Rightarrow> f q | Some v \<Rightarrow> v)"
proof (induction kvs arbitrary: f)
  case (Cons kv kvs)
  obtain k v where "kv = (k, v)" by (cases kv)
  moreover have "map_of kvs k = None" using Cons.prems \<open>kv = (k, v)\<close> by (simp add: map_of_eq_None_iff)
  ultimately show ?case using Cons by (auto split: option.split)
qed simp

lemma fold_map_updates:
  assumes "inj_on key (set xs)" and "distinct xs"
  shows "x \<in> set xs \<Longrightarrow> fold (\<lambda>x f. f(key x := val x)) xs f (key x) = val x"
    and "q \<notin> key ` set xs \<Longrightarrow> fold (\<lambda>x f. f(key x := val x)) xs f q = f q"
proof -
  have e: "fold (\<lambda>x f. f(key x := val x)) xs f = fold (\<lambda>(k, v) f. f(k := v)) (map (\<lambda>x. (key x, val x)) xs) f"
    by (simp add: fold_map o_def)
  have d: "distinct (map fst (map (\<lambda>x. (key x, val x)) xs))" using assms by (simp add: o_def distinct_map)
  have "map_of (map (\<lambda>x. (key x, val x)) xs) (key x) = Some (val x)" if "x \<in> set xs"
    using d that by (intro map_of_is_SomeI) auto
  then show "x \<in> set xs \<Longrightarrow> fold (\<lambda>x f. f(key x := val x)) xs f (key x) = val x"
    unfolding e fold_updates [OF d] by simp
  have "map_of (map (\<lambda>x. (key x, val x)) xs) q = None" if "q \<notin> key ` set xs"
    using that by (auto simp: map_of_eq_None_iff)
  then show "q \<notin> key ` set xs \<Longrightarrow> fold (\<lambda>x f. f(key x := val x)) xs f q = f q"
    unfolding e fold_updates [OF d] by simp
qed

lemma fold_nested: "fold (\<lambda>j. fold (g j) (h j)) js s = fold (\<lambda>(j, i). g j i) (concat (map (\<lambda>j. map (Pair j) (h j)) js)) s"
  by (induction js arbitrary: s) (simp_all add: fold_map o_def)

text \<open>Row-major positions below \<open>2^32\<close>.\<close>

lemma position_inj:
  assumes "x < w" and "x' < w" and "y < h" and "y' < h" and "w * h < 2 ^ 32"
  shows "(of_nat (y * w + x) :: u32) = of_nat (y' * w + x') \<longleftrightarrow> x = x' \<and> y = y'"
proof -
  have less: "b * w + a < 2 ^ 32" if "a < w" "b < h" for a b
  proof -
    have "b * w + a < (b + 1) * w" using that by simp
    also have "(b + 1) * w \<le> h * w" using that by (intro mult_le_mono1) simp
    finally show ?thesis using assms(5) by (simp add: mult.commute)
  qed
  have "(of_nat (y * w + x) :: u32) = of_nat (y' * w + x') \<longleftrightarrow> y * w + x = y' * w + x'"
    using less [OF assms(1,3)] less [OF assms(2,4)] by (simp add: word_of_nat_eq_iff take_bit_nat_eq_self del: of_nat_add of_nat_mult)
  also have "\<dots> \<longleftrightarrow> x = x' \<and> y = y'"
    using assms(1,2) by (metis add.commute div_mult_self3 div_less add_cancel_right_left mod_less mod_mult_self1 not_less_zero)
  finally show ?thesis .
qed

subsection \<open>Text mode\<close>

definition vga_cell :: "'p vga \<Rightarrow> nat \<Rightarrow> nat \<Rightarrow> u16" where
  "vga_cell d x y = vga_fb d (of_nat (y * 80 + x))"

lemma vga_position: "(of_nat y * VGA_TEXT_MODE_WIDTH + of_nat x :: u32) = of_nat (y * 80 + x)"
  by (simp add: VGA_TEXT_MODE_WIDTH_def)

lemma vga_put_cell:
  "x < 80 \<Longrightarrow> y < 25 \<Longrightarrow> x' < 80 \<Longrightarrow> y' < 25 \<Longrightarrow>
     vga_cell (vga_ttyd_put_char (of_nat x) (of_nat y) c d) x' y' =
       (if x' = x \<and> y' = y then vga_ttyd_entry c (vga_tty_fg d) (vga_tty_bg d) else vga_cell d x' y')"
  using position_inj [of x 80 x' y 25 y'] unfolding vga_cell_def vga_ttyd_put_char_def vga_position
  by (auto simp del: of_nat_add of_nat_mult)

lemma vga_store_words:
  fixes e :: u16
  defines "r \<equiv> ucast e :: u64"
  defines "v \<equiv> push_bit 48 r OR push_bit 32 r OR push_bit 16 r OR r"
  shows "ucast v = e" and "ucast (drop_bit 16 v) = e" and "ucast (drop_bit 32 v) = e" and "ucast (drop_bit 48 v) = e"
  unfolding v_def r_def by (rule bit_word_eqI; auto simp: bit_simps dest: bit_imp_le_length)+

lemma vga_clear_cell:
  assumes "x < 80" and "y < 25"
  shows "vga_cell (vga_ttyd_clear d) x y = vga_ttyd_entry 0x20 (vga_tty_fg d) (vga_tty_bg d)"
proof -
  define e where "e = vga_ttyd_entry 0x20 (vga_tty_fg d) (vga_tty_bg d)"
  define v where "v = push_bit 48 (ucast e :: u64) OR push_bit 32 (ucast e) OR push_bit 16 (ucast e) OR ucast e"
  have st: "vga_store64 i v fb q = (if q = 4 * i \<or> q = 4 * i + 1 \<or> q = 4 * i + 2 \<or> q = 4 * i + 3 then e else fb q)" for i fb q
    using vga_store_words [of e] by (simp add: vga_store64_def v_def)
  have "fold (\<lambda>i. vga_store64 (of_nat i) v) [0..<n] fb (of_nat k) = (if k < 4 * n then e else fb (of_nat k))"
    if "n \<le> 500" "k < 2000" for n k fb
    using that(1)
  proof (induction n)
    case (Suc n)
    have eq: "(of_nat k :: u32) = of_nat a \<longleftrightarrow> k = a" if "a < 4000" for a
      using that \<open>k < 2000\<close> by (simp add: word_of_nat_eq_iff take_bit_nat_eq_self)
    have "(of_nat k :: u32) = 4 * of_nat n \<longleftrightarrow> k = 4 * n" "(of_nat k :: u32) = 4 * of_nat n + 1 \<longleftrightarrow> k = 4 * n + 1"
      "(of_nat k :: u32) = 4 * of_nat n + 2 \<longleftrightarrow> k = 4 * n + 2" "(of_nat k :: u32) = 4 * of_nat n + 3 \<longleftrightarrow> k = 4 * n + 3"
      using eq [of "4 * n"] eq [of "4 * n + 1"] eq [of "4 * n + 2"] eq [of "4 * n + 3"] Suc.prems by (simp_all add: add.commute)
    then show ?case using Suc by (auto simp: st)
  qed simp
  from this [of 500 "y * 80 + x" "vga_fb d"] assms show ?thesis
    by (simp add: vga_cell_def vga_ttyd_clear_def Let_def e_def [symmetric] v_def [symmetric] VGA_TEXT_MODE_WIDTH_def VGA_TEXT_MODE_HEIGHT_def del: of_nat_add of_nat_mult)
qed

lemmas vga_device_defs = vga_ttyd_init_def vga_ttyd_get_width_def vga_ttyd_get_height_def VGA_TEXT_MODE_WIDTH_def
  VGA_TEXT_MODE_HEIGHT_def

definition vga_image :: "'p vga \<Rightarrow> u8 \<Rightarrow> u16" where
  "vga_image d c = vga_ttyd_entry c (vga_tty_fg d) (vga_tty_bg d)"

interpretation vga_display: tty_display "vga_ttyd_init P" "\<lambda>_. True" "\<lambda>_. 80" "\<lambda>_. 25" vga_cell vga_image
  "\<lambda>d. vga_image d 0x20" for P
proof
  fix d d' :: "'a vga" and x y c
  assume "x < (80 :: nat)" "y < (25 :: nat)" "d' = dev_put_char (vga_ttyd_init P) (of_nat x) (of_nat y) c d"
  moreover have "vga_image (vga_ttyd_put_char u v c d) = vga_image d" for u v
    by (simp add: fun_eq_iff vga_image_def vga_ttyd_put_char_def)
  ultimately show "True \<and> (80 :: nat) = 80 \<and> (25 :: nat) = 25 \<and> vga_image d' = vga_image d \<and> vga_image d' 0x20 = vga_image d 0x20 \<and>
      (\<forall>x' y'. x' < 80 \<longrightarrow> y' < 25 \<longrightarrow> vga_cell d' x' y' = (if x' = x \<and> y' = y then vga_image d c else vga_cell d x' y'))"
    using vga_put_cell [of x y _ _ c d] by (simp add: vga_ttyd_init_def vga_image_def)
next
  fix d d' :: "'a vga" and u v
  assume "d' = dev_set_cursor (vga_ttyd_init P) u v d"
  then show "True \<and> (80 :: nat) = 80 \<and> (25 :: nat) = 25 \<and> vga_image d' = vga_image d \<and> vga_image d' 0x20 = vga_image d 0x20 \<and>
      (\<forall>x' y'. x' < 80 \<longrightarrow> y' < 25 \<longrightarrow> vga_cell d' x' y' = vga_cell d x' y')"
    by (simp add: fun_eq_iff vga_ttyd_init_def vga_ttyd_set_cursor_def vga_image_def vga_cell_def Let_def)
next
  fix d d' :: "'a vga"
  assume "d' = dev_clear (vga_ttyd_init P) d"
  then show "True \<and> (80 :: nat) = 80 \<and> (25 :: nat) = 25 \<and> vga_image d' = vga_image d \<and> vga_image d' 0x20 = vga_image d 0x20 \<and>
      (\<forall>x' y'. x' < 80 \<longrightarrow> y' < 25 \<longrightarrow> vga_cell d' x' y' = vga_image d 0x20)"
    using vga_clear_cell [of _ _ d]
    by (simp add: fun_eq_iff vga_ttyd_init_def vga_ttyd_clear_def vga_image_def Let_def)
qed (simp add: vga_device_defs)

subsection \<open>Graphics mode\<close>

definition vbe_gw :: "vbe \<Rightarrow> nat" where "vbe_gw d = unat (glyph_width (vbe_tty_font d))"
definition vbe_gh :: "vbe \<Rightarrow> nat" where "vbe_gh d = unat (glyph_height (vbe_tty_font d))"
definition vbe_w :: "vbe \<Rightarrow> nat" where "vbe_w d = unat (vbe_screen_width d)"
definition vbe_h :: "vbe \<Rightarrow> nat" where "vbe_h d = unat (vbe_screen_height d)"

lemmas vbe_sizes = vbe_gw_def vbe_gh_def vbe_w_def vbe_h_def

text \<open>Screens on which a character fits, with an even number of pixels; glyphs of at most 16 columns.\<close>

definition vbe_ok :: "vbe \<Rightarrow> bool" where
  "vbe_ok d \<longleftrightarrow> 1 \<le> vbe_gw d \<and> vbe_gw d \<le> 16 \<and> 1 \<le> vbe_gh d \<and> vbe_gw d \<le> vbe_w d \<and> vbe_gh d \<le> vbe_h d \<and>
     vbe_h d < 2 ^ 31 \<and> vbe_w d * vbe_h d < 2 ^ 32 \<and> even (vbe_w d * vbe_h d)"

definition vbe_cols :: "vbe \<Rightarrow> nat" where "vbe_cols d = vbe_w d div vbe_gw d"
definition vbe_rows :: "vbe \<Rightarrow> nat" where "vbe_rows d = vbe_h d div vbe_gh d"

text \<open>The pixel in row \<open>Y\<close> and column \<open>X\<close>; what a place of the text shows is its block of pixels.\<close>

definition vbe_pixel :: "vbe \<Rightarrow> nat \<Rightarrow> nat \<Rightarrow> u32" where
  "vbe_pixel d X Y = vbe_fb d (of_nat (Y * vbe_w d + X))"

definition vbe_cell :: "vbe \<Rightarrow> nat \<Rightarrow> nat \<Rightarrow> nat \<Rightarrow> nat \<Rightarrow> u32" where
  "vbe_cell d x y = (\<lambda>i j. if i < vbe_gw d \<and> j < vbe_gh d
     then vbe_pixel d (x * vbe_gw d + i) (y * vbe_gh d + j) else 0)"

text \<open>The image of a character: the bits of its glyph's rows, highest first.\<close>

definition glyph_bit :: "mem \<Rightarrow> psf_font \<Rightarrow> u8 \<Rightarrow> nat \<Rightarrow> nat \<Rightarrow> bool" where
  "glyph_bit m f c i j \<longleftrightarrow>
     bit (glyph_row m f (glyphs f + ucast (ucast c * glyph_size f)) j) ((if unat (glyph_width f) \<le> 8 then 7 else 15) - i)"

definition vbe_image :: "mem \<Rightarrow> vbe \<Rightarrow> u8 \<Rightarrow> nat \<Rightarrow> nat \<Rightarrow> u32" where
  "vbe_image m d c = (\<lambda>i j. if i < vbe_gw d \<and> j < vbe_gh d
     then (if glyph_bit m (vbe_tty_font d) c i j then vbe_tty_fg d else vbe_tty_bg d) else 0)"

definition vbe_blank :: "vbe \<Rightarrow> nat \<Rightarrow> nat \<Rightarrow> u32" where
  "vbe_blank d = (\<lambda>i j. if i < vbe_gw d \<and> j < vbe_gh d then vbe_tty_bg d else 0)"

lemma mask_bit: "i \<le> t \<Longrightarrow> t < 16 \<Longrightarrow> (row AND drop_bit i (push_bit t 1) \<noteq> (0 :: u16)) \<longleftrightarrow> bit row (t - i)"
proof -
  assume "i \<le> t" "t < 16"
  then have "drop_bit i (push_bit t 1 :: u16) = push_bit (t - i) 1"
    by (intro bit_word_eqI) (auto simp: bit_simps)
  then show ?thesis using \<open>t < 16\<close> by (simp add: bit_iff_and_push_bit_not_eq_0)
qed

lemma vbe_put_row_fold:
  assumes "vbe_gw d \<le> 16"
  defines "t \<equiv> (if vbe_gw d \<le> 8 then 7 else 15) :: nat"
  shows "vbe_put_row d row pos fb =
    fold (\<lambda>i fb. fb(pos + of_nat i := if bit row (t - i) then vbe_tty_fg d else vbe_tty_bg d)) [0..<vbe_gw d] fb"
proof -
  have g: "ucast (glyph_width (vbe_tty_font d)) = (of_nat (vbe_gw d) :: u32)"
    by (simp add: vbe_gw_def of_nat_unat)
  have n: "unat (of_nat (vbe_gw d) :: u32) = vbe_gw d"
    using assms(1) by (simp add: unat_of_nat take_bit_nat_eq_self)
  have le: "(of_nat (vbe_gw d) :: u32) \<le> 8 \<longleftrightarrow> vbe_gw d \<le> 8" using n by (simp add: word_le_nat_alt)
  have loop: "fold (\<lambda>i (mask, fb). (drop_bit 1 mask, fb(pos + of_nat i := if row AND mask \<noteq> 0 then vbe_tty_fg d else vbe_tty_bg d)))
      [0..<k] (push_bit t 1 :: u16, fb) =
    (drop_bit k (push_bit t 1), fold (\<lambda>i fb. fb(pos + of_nat i := if bit row (t - i) then vbe_tty_fg d else vbe_tty_bg d)) [0..<k] fb)"
    if "k \<le> Suc t" for k
    using that
  proof (induction k)
    case (Suc k)
    have "(row AND drop_bit k (push_bit t 1) \<noteq> (0 :: u16)) \<longleftrightarrow> bit row (t - k)"
      using Suc.prems by (intro mask_bit) (auto simp: t_def split: if_splits)
    then show ?case using Suc by (simp add: drop_bit_drop_bit del: push_bit_of_1)
  qed simp
  have "vbe_gw d \<le> Suc t" using assms(1) by (simp add: t_def)
  note l = loop [OF this]
  have "unat (if (of_nat (vbe_gw d) :: u32) \<le> PSF1_CHAR_WIDTH then PSF1_CHAR_WIDTH - 1 else PSF2_CHAR_WIDTH - 1) = t"
    by (simp add: PSF1_CHAR_WIDTH_def PSF2_CHAR_WIDTH_def le t_def)
  then show ?thesis unfolding vbe_put_row_def Let_def g n by (simp only: l snd_conv)
qed

text \<open>Where a pixel of a character lies.\<close>

lemma block_in_range: "x < w div g \<Longrightarrow> i < g \<Longrightarrow> x * g + i < (w :: nat)"
proof -
  assume "x < w div g" "i < g"
  then have "x * g + i < (x + 1) * g" by simp
  also have "(x + 1) * g \<le> (w div g) * g" using \<open>x < w div g\<close> by (intro mult_le_mono1) simp
  also have "\<dots> \<le> w" by simp
  finally show ?thesis .
qed

lemma block_unique: "i < g \<Longrightarrow> i' < g \<Longrightarrow> x * g + i = x' * g + (i' :: nat) \<longleftrightarrow> x = x' \<and> i = i'"
  by (metis add.commute div_mult_self3 div_less add_cancel_right_left mod_less mod_mult_self1 not_less_zero)

lemma vbe_put_fold:
  assumes "vbe_ok d"
  shows "vbe_fb (vbe_ttyd_put_char m (of_nat x) (of_nat y) c d) =
    fold (\<lambda>(j, i) fb. fb(of_nat ((y * vbe_gh d + j) * vbe_w d + (x * vbe_gw d + i)) :=
        if glyph_bit m (vbe_tty_font d) c i j then vbe_tty_fg d else vbe_tty_bg d))
      (concat (map (\<lambda>j. map (Pair j) [0..<vbe_gw d]) [0..<vbe_gh d])) (vbe_fb d)"
proof -
  have g: "ucast (glyph_width (vbe_tty_font d)) = (of_nat (vbe_gw d) :: u32)"
    "ucast (glyph_height (vbe_tty_font d)) = (of_nat (vbe_gh d) :: u32)" "vbe_screen_width d = of_nat (vbe_w d)"
    by (simp_all add: vbe_sizes of_nat_unat)
  have pos: "(of_nat y * of_nat (vbe_gh d) + of_nat j) * of_nat (vbe_w d) + of_nat x * of_nat (vbe_gw d) + of_nat i =
      (of_nat ((y * vbe_gh d + j) * vbe_w d + (x * vbe_gw d + i)) :: u32)" for i j
    by (simp add: algebra_simps)
  let ?glyph = "glyphs (vbe_tty_font d) + ucast (ucast c * glyph_size (vbe_tty_font d))"
  have "vbe_gw d \<le> 16" using assms by (simp add: vbe_ok_def)
  from vbe_put_row_fold [OF this]
  have "vbe_put_row d (glyph_row m (vbe_tty_font d) ?glyph j)
      ((of_nat y * of_nat (vbe_gh d) + of_nat j) * of_nat (vbe_w d) + of_nat x * of_nat (vbe_gw d)) =
    fold (\<lambda>i fb. fb(of_nat ((y * vbe_gh d + j) * vbe_w d + (x * vbe_gw d + i)) :=
        if glyph_bit m (vbe_tty_font d) c i j then vbe_tty_fg d else vbe_tty_bg d)) [0..<vbe_gw d]" for j
    unfolding fun_eq_iff glyph_bit_def vbe_gw_def [symmetric] by (simp add: algebra_simps)
  then show ?thesis
    unfolding vbe_ttyd_put_char_def Let_def g fold_nested [symmetric]
    by (simp add: vbe_gh_def [symmetric] del: of_nat_add of_nat_mult)
qed

lemma vbe_put_pixel:
  assumes "vbe_ok d" and "x < vbe_cols d" and "y < vbe_rows d" and "X < vbe_w d" and "Y < vbe_h d"
  shows "vbe_pixel (vbe_ttyd_put_char m (of_nat x) (of_nat y) c d) X Y =
    (if X div vbe_gw d = x \<and> Y div vbe_gh d = y
     then (if glyph_bit m (vbe_tty_font d) c (X mod vbe_gw d) (Y mod vbe_gh d) then vbe_tty_fg d else vbe_tty_bg d)
     else vbe_pixel d X Y)"
proof -
  let ?d = "vbe_ttyd_put_char m (of_nat x) (of_nat y) c d"
  let ?ps = "concat (map (\<lambda>j. map (Pair j) [0..<vbe_gw d]) [0..<vbe_gh d])"
  let ?at = "\<lambda>X Y. of_nat (Y * vbe_w d + X) :: u32"
  define key where "key = (\<lambda>(j, i). ?at (x * vbe_gw d + i) (y * vbe_gh d + j))"
  define val where "val = (\<lambda>(j, i). if glyph_bit m (vbe_tty_font d) c i j then vbe_tty_fg d else vbe_tty_bg d)"
  have g: "0 < vbe_gw d" "0 < vbe_gh d" "vbe_w d * vbe_h d < 2 ^ 32" using assms(1) by (auto simp: vbe_ok_def)
  have in_r: "x * vbe_gw d + i < vbe_w d" "y * vbe_gh d + j < vbe_h d" if "i < vbe_gw d" "j < vbe_gh d" for i j
    using that assms(2,3) by (auto intro!: block_in_range simp: vbe_cols_def vbe_rows_def)
  have set: "set ?ps = {..<vbe_gh d} \<times> {..<vbe_gw d}" by auto
  have key_eq: "key (j, i) = ?at X Y \<longleftrightarrow> x * vbe_gw d + i = X \<and> y * vbe_gh d + j = Y"
    if "i < vbe_gw d" "j < vbe_gh d" "X < vbe_w d" "Y < vbe_h d" for i j X Y
    unfolding key_def using position_inj [OF in_r(1) _ in_r(2) _ g(3)] that by (simp del: of_nat_add of_nat_mult)
  have inj: "inj_on key (set ?ps)"
  proof (rule inj_onI)
    fix p q assume pq: "p \<in> set ?ps" "q \<in> set ?ps" "key p = key q"
    obtain j i j' i' where e: "p = (j, i)" "q = (j', i')" by (cases p, cases q)
    then have "i < vbe_gw d" "j < vbe_gh d" "i' < vbe_gw d" "j' < vbe_gh d" using pq(1,2) unfolding set by auto
    then show "p = q" using key_eq [OF _ _ in_r, of i j i' j'] pq(3) unfolding e by (simp add: key_def)
  qed
  have dist: "distinct ?ps" using distinct_product [of "[0..<vbe_gh d]" "[0..<vbe_gw d]"] by (simp add: product_concat_map)
  have fb: "vbe_fb ?d = fold (\<lambda>p fb. fb(key p := val p)) ?ps (vbe_fb d)"
    unfolding vbe_put_fold [OF assms(1)] key_def val_def by (intro fold_cong) auto
  have w: "vbe_w ?d = vbe_w d" by (simp add: vbe_w_def vbe_ttyd_put_char_def Let_def)
  show ?thesis
  proof (cases "X div vbe_gw d = x \<and> Y div vbe_gh d = y")
    case True
    have i: "X mod vbe_gw d < vbe_gw d" "Y mod vbe_gh d < vbe_gh d" using g by simp_all
    then have "key (Y mod vbe_gh d, X mod vbe_gw d) = ?at X Y"
      using True assms(4,5) by (subst key_eq) (auto simp: mult.commute)
    moreover have "fold (\<lambda>p fb. fb(key p := val p)) ?ps (vbe_fb d) (key (Y mod vbe_gh d, X mod vbe_gw d)) = val (Y mod vbe_gh d, X mod vbe_gw d)"
      by (rule fold_map_updates(1) [OF inj dist]) (use i set in auto)
    ultimately show ?thesis using True unfolding vbe_pixel_def w fb by (simp add: val_def)
  next
    case False
    have "?at X Y \<notin> key ` set ?ps"
    proof
      assume "?at X Y \<in> key ` set ?ps"
      then obtain j i where ji: "i < vbe_gw d" "j < vbe_gh d" "key (j, i) = ?at X Y" unfolding set by auto
      then have "x * vbe_gw d + i = X" "y * vbe_gh d + j = Y" using key_eq assms(4,5) by blast+
      then have "X div vbe_gw d = x" "Y div vbe_gh d = y" using ji(1,2) by auto
      then show False using False by blast
    qed
    then show ?thesis unfolding if_not_P [OF False] vbe_pixel_def w fb by (rule fold_map_updates(2) [OF inj dist])
  qed
qed

lemma vbe_clear_pixel:
  assumes "vbe_ok d" and "X < vbe_w d" and "Y < vbe_h d"
  shows "vbe_pixel (vbe_ttyd_clear d) X Y = vbe_tty_bg d"
proof -
  let ?p = "Y * vbe_w d + X" and ?N = "vbe_w d * vbe_h d"
  have N: "?N < 2 ^ 32" "even ?N" using assms(1) by (simp_all add: vbe_ok_def)
  have "?p < Suc Y * vbe_w d" using assms(2) by simp
  also have "\<dots> \<le> vbe_h d * vbe_w d" using assms(3) by (intro mult_le_mono1) simp
  finally have p: "?p < ?N" by (simp add: mult.commute)
  define v where "v = push_bit 32 (ucast (vbe_tty_bg d)) OR (ucast (vbe_tty_bg d) :: u64)"
  have v: "ucast v = vbe_tty_bg d" "ucast (drop_bit 32 v) = vbe_tty_bg d"
    unfolding v_def by (rule bit_word_eqI; auto simp: bit_simps dest: bit_imp_le_length)+
  have "fold (\<lambda>i fb. fb(2 * of_nat i := ucast v, 2 * of_nat i + 1 := ucast (drop_bit 32 v))) [0..<n] fb (of_nat k) =
      (if k < 2 * n then vbe_tty_bg d else fb (of_nat k))" if "2 * n \<le> ?N" "k < ?N" for n k and fb :: "u32 \<Rightarrow> u32"
    using that(1)
  proof (induction n)
    case (Suc n)
    have eq: "(of_nat k :: u32) = of_nat a \<longleftrightarrow> k = a" if "a < ?N" for a
      using that \<open>k < ?N\<close> N(1) by (simp add: word_of_nat_eq_iff take_bit_nat_eq_self del: of_nat_mult)
    have "(of_nat k :: u32) = 2 * of_nat n \<longleftrightarrow> k = 2 * n" "(of_nat k :: u32) = 2 * of_nat n + 1 \<longleftrightarrow> k = 2 * n + 1"
      using eq [of "2 * n"] eq [of "2 * n + 1"] Suc.prems by (simp_all add: add.commute)
    then show ?case using Suc v by auto
  qed simp
  moreover have "2 * (?N div 2) = ?N" using N(2) by simp
  moreover have "unat (vbe_screen_width d * vbe_screen_height d div 2) = ?N div 2"
    using N(1) by (simp add: unat_div unat_word_ariths vbe_sizes)
  ultimately have "vbe_fb (vbe_ttyd_clear d) (of_nat ?p) = vbe_tty_bg d"
    using p by (simp add: vbe_ttyd_clear_def Let_def v_def [symmetric] del: of_nat_add of_nat_mult)
  moreover have "vbe_w (vbe_ttyd_clear d) = vbe_w d" by (simp add: vbe_w_def vbe_ttyd_clear_def Let_def)
  ultimately show ?thesis by (simp add: vbe_pixel_def del: of_nat_add of_nat_mult)
qed

text \<open>Drawing, clearing and moving the cursor change neither the geometry nor the images.\<close>

definition vbe_same :: "vbe \<Rightarrow> vbe \<Rightarrow> bool" where
  "vbe_same d d' \<longleftrightarrow> vbe_gw d' = vbe_gw d \<and> vbe_gh d' = vbe_gh d \<and> vbe_w d' = vbe_w d \<and> vbe_h d' = vbe_h d \<and>
     vbe_tty_font d' = vbe_tty_font d \<and> vbe_tty_fg d' = vbe_tty_fg d \<and> vbe_tty_bg d' = vbe_tty_bg d"

lemma vbe_same_ops:
  "vbe_same d (vbe_ttyd_put_char m u v c d)" "vbe_same d (vbe_ttyd_set_cursor u v d)" "vbe_same d (vbe_ttyd_clear d)"
  by (simp_all add: vbe_same_def vbe_sizes vbe_ttyd_put_char_def vbe_ttyd_set_cursor_def vbe_ttyd_clear_def Let_def)

lemma vbe_same_view:
  "vbe_same d d' \<Longrightarrow> vbe_ok d \<Longrightarrow> vbe_ok d' \<and> vbe_cols d' = vbe_cols d \<and> vbe_rows d' = vbe_rows d \<and>
     vbe_image m d' = vbe_image m d \<and> vbe_blank d' = vbe_blank d"
  by (simp add: vbe_same_def vbe_ok_def vbe_cols_def vbe_rows_def vbe_image_def vbe_blank_def fun_eq_iff)

lemma vbe_in_screen:
  assumes "x < vbe_cols d" and "y < vbe_rows d" and "i < vbe_gw d" and "j < vbe_gh d"
  shows "x * vbe_gw d + i < vbe_w d" and "y * vbe_gh d + j < vbe_h d"
  using assms by (auto intro!: block_in_range simp: vbe_cols_def vbe_rows_def)

lemma unat_div_small: "unat (a :: u32) div n mod 2 ^ 32 = unat a div n"
proof (rule mod_less)
  show "unat a div n < 2 ^ 32"
    using unsigned_less [of a, where 'a = nat] by (intro le_less_trans [OF div_le_dividend]) simp
qed

interpretation vbe_display: tty_display "vbe_ttyd_functions m" vbe_ok vbe_cols vbe_rows vbe_cell "vbe_image m" vbe_blank
  for m
proof
  fix d :: vbe assume ok: "vbe_ok d"
  then have pos: "0 < vbe_gw d" "0 < vbe_gh d" "vbe_gw d \<le> vbe_w d" "vbe_gh d \<le> vbe_h d" by (auto simp: vbe_ok_def)
  have "vbe_rows d \<le> vbe_h d" by (simp add: vbe_rows_def)
  then have high: "vbe_rows d < 2 ^ 31" using ok by (simp add: vbe_ok_def)
  have small: "vbe_cols d * vbe_rows d \<le> vbe_w d * vbe_h d"
    by (intro mult_le_mono) (simp_all add: vbe_cols_def vbe_rows_def)
  have some: "0 < vbe_cols d" "0 < vbe_rows d" using pos by (simp_all add: vbe_cols_def vbe_rows_def div_greater_zero_iff)
  have "unat (ucast (glyph_width (vbe_tty_font d)) :: u32) = vbe_gw d" "unat (ucast (glyph_height (vbe_tty_font d)) :: u32) = vbe_gh d"
    using unsigned_less [of "glyph_width (vbe_tty_font d)", where 'a = nat] unsigned_less [of "glyph_height (vbe_tty_font d)", where 'a = nat]
    by (simp_all add: vbe_sizes unsigned_ucast_eq take_bit_nat_eq_self)
  then have "vbe_ttyd_get_width d = Some (of_nat (vbe_cols d))" "vbe_ttyd_get_height d = Some (of_nat (vbe_rows d))"
    using pos by (simp_all add: vbe_ttyd_get_width_def vbe_ttyd_get_height_def vbe_cols_def vbe_rows_def word_unat_eq_iff
        unat_div unat_of_nat unat_div_small [simplified] vbe_sizes)
  then show "dev_get_width (vbe_ttyd_functions m) d = Some (of_nat (vbe_cols d)) \<and>
      dev_get_height (vbe_ttyd_functions m) d = Some (of_nat (vbe_rows d)) \<and> 0 < vbe_cols d \<and> 0 < vbe_rows d \<and>
      vbe_rows d < 2 ^ 31 \<and> vbe_cols d * vbe_rows d < 2 ^ 32"
    using ok small some high by (simp add: vbe_ttyd_functions_def vbe_ok_def)
next
  fix d d' x y c
  assume ok: "vbe_ok d" and xy: "x < vbe_cols d" "y < vbe_rows d"
    and "d' = dev_put_char (vbe_ttyd_functions m) (of_nat x) (of_nat y) c d"
  then have d': "d' = vbe_ttyd_put_char m (of_nat x) (of_nat y) c d" by (simp add: vbe_ttyd_functions_def)
  have same: "vbe_same d d'" unfolding d' by (rule vbe_same_ops)
  have "vbe_cell d' x' y' = (if x' = x \<and> y' = y then vbe_image m d c else vbe_cell d x' y')"
    if "x' < vbe_cols d" "y' < vbe_rows d" for x' y'
  proof (intro ext)
    fix i j
    show "vbe_cell d' x' y' i j = (if x' = x \<and> y' = y then vbe_image m d c else vbe_cell d x' y') i j"
    proof (cases "i < vbe_gw d \<and> j < vbe_gh d")
      case True
      then have "x' * vbe_gw d + i < vbe_w d" "y' * vbe_gh d + j < vbe_h d" using vbe_in_screen that by blast+
      from vbe_put_pixel [OF ok xy this, of m c] True show ?thesis using same
        by (simp add: vbe_cell_def vbe_image_def vbe_same_def d')
    next
      case False
      then show ?thesis using same by (auto simp: vbe_cell_def vbe_image_def vbe_same_def)
    qed
  qed
  then show "vbe_ok d' \<and> vbe_cols d' = vbe_cols d \<and> vbe_rows d' = vbe_rows d \<and> vbe_image m d' = vbe_image m d \<and>
      vbe_blank d' = vbe_blank d \<and> (\<forall>x' y'. x' < vbe_cols d \<longrightarrow> y' < vbe_rows d \<longrightarrow>
        vbe_cell d' x' y' = (if x' = x \<and> y' = y then vbe_image m d c else vbe_cell d x' y'))"
    using vbe_same_view [OF same ok] by simp
next
  fix d d' u v assume ok: "vbe_ok d" and "d' = dev_set_cursor (vbe_ttyd_functions m) u v d"
  then have d': "d' = vbe_ttyd_set_cursor u v d" by (simp add: vbe_ttyd_functions_def)
  have "vbe_cell d' = vbe_cell d"
    by (simp add: fun_eq_iff d' vbe_cell_def vbe_pixel_def vbe_sizes vbe_ttyd_set_cursor_def)
  then show "vbe_ok d' \<and> vbe_cols d' = vbe_cols d \<and> vbe_rows d' = vbe_rows d \<and> vbe_image m d' = vbe_image m d \<and>
      vbe_blank d' = vbe_blank d \<and> (\<forall>x' y'. x' < vbe_cols d \<longrightarrow> y' < vbe_rows d \<longrightarrow> vbe_cell d' x' y' = vbe_cell d x' y')"
    using vbe_same_view [OF vbe_same_ops(2) ok] by (simp add: d')
next
  fix d d' assume ok: "vbe_ok d" and "d' = dev_clear (vbe_ttyd_functions m) d"
  then have d': "d' = vbe_ttyd_clear d" by (simp add: vbe_ttyd_functions_def)
  have same: "vbe_same d d'" unfolding d' by (rule vbe_same_ops)
  then have "vbe_cell d' x' y' = vbe_blank d" if "x' < vbe_cols d" "y' < vbe_rows d" for x' y'
    using vbe_clear_pixel [OF ok vbe_in_screen [OF that]]
    by (intro ext) (auto simp: vbe_cell_def vbe_blank_def vbe_same_def d')
  then show "vbe_ok d' \<and> vbe_cols d' = vbe_cols d \<and> vbe_rows d' = vbe_rows d \<and> vbe_image m d' = vbe_image m d \<and>
      vbe_blank d' = vbe_blank d \<and> (\<forall>x' y'. x' < vbe_cols d \<longrightarrow> y' < vbe_rows d \<longrightarrow> vbe_cell d' x' y' = vbe_blank d)"
    using vbe_same_view [OF same ok] by simp
qed

subsection \<open>Clearing the text mode\<close>

lemma of_nat_eq_index: "a < 4000 \<Longrightarrow> (q :: u32) = of_nat a \<longleftrightarrow> unat q = a"
  by (simp add: word_unat_eq_iff unat_of_nat take_bit_nat_eq_self)

lemma fold_store64:
  fixes e :: u16
  assumes "\<And>i fb q. vga_store64 i v fb q = (if q = 4 * i \<or> q = 4 * i + 1 \<or> q = 4 * i + 2 \<or> q = 4 * i + 3 then e else fb q)"
    and "n \<le> 500"
  shows "fold (\<lambda>i. vga_store64 (of_nat i) v) [0..<n] fb q = (if unat q < 4 * n then e else fb q)"
  using assms(2)
proof (induction n)
  case (Suc n)
  have eq: "q = of_nat a \<longleftrightarrow> unat q = a" if "a < 4000" for a
    using of_nat_eq_index [of a q] that by simp
  have "q = 4 * of_nat n \<longleftrightarrow> unat q = 4 * n" "q = 4 * of_nat n + 1 \<longleftrightarrow> unat q = 4 * n + 1"
    "q = 4 * of_nat n + 2 \<longleftrightarrow> unat q = 4 * n + 2" "q = 4 * of_nat n + 3 \<longleftrightarrow> unat q = 4 * n + 3"
    using eq [of "4 * n"] eq [of "4 * n + 1"] eq [of "4 * n + 2"] eq [of "4 * n + 3"] Suc.prems by (simp_all add: add.commute)
  then show ?case using Suc by (auto simp: assms(1))
qed simp

text \<open>
  C35.  \<open>vga_ttyd_clear\<close>, which stores 500 words of four entries, has the effect of its reference, 2000
  calls of \<open>vga_ttyd_put_char\<close> that put a space in every place row by row: the frame buffer is the
  same at every index, so nothing is missed at the end and nothing behind it is written.
\<close>
theorem vga_ttyd_clear_equivalent:
  "vga_ttyd_clear d =
     fold (\<lambda>k. vga_ttyd_put_char (of_nat (k mod 80)) (of_nat (k div 80)) 0x20) [0..<2000] d"
proof -
  define e where "e = vga_ttyd_entry 0x20 (vga_tty_fg d) (vga_tty_bg d)"
  define v where "v = push_bit 48 (ucast e :: u64) OR push_bit 32 (ucast e) OR push_bit 16 (ucast e) OR ucast e"
  have st: "vga_store64 i v fb q = (if q = 4 * i \<or> q = 4 * i + 1 \<or> q = 4 * i + 2 \<or> q = 4 * i + 3 then e else fb q)" for i fb q
    using vga_store_words [of e] by (simp add: vga_store64_def v_def)
  have "unat (VGA_TEXT_MODE_WIDTH * VGA_TEXT_MODE_HEIGHT div 4) = 500"
    by (simp add: VGA_TEXT_MODE_WIDTH_def VGA_TEXT_MODE_HEIGHT_def)
  then have c: "vga_ttyd_clear d = d\<lparr>vga_fb := \<lambda>q. if unat q < 2000 then e else vga_fb d q\<rparr>"
    using fold_store64 [OF st, of 500] by (simp add: vga_ttyd_clear_def Let_def e_def [symmetric] v_def [symmetric] fun_eq_iff)
  have "fold (\<lambda>k. vga_ttyd_put_char (of_nat (k mod 80)) (of_nat (k div 80)) 0x20) [0..<n] d =
      d\<lparr>vga_fb := \<lambda>q. if unat q < n then e else vga_fb d q\<rparr>" if "n \<le> 2000" for n
    using that
  proof (induction n)
    case (Suc n)
    have "of_nat (n div 80) * 80 + of_nat (n mod 80) = (of_nat n :: u32)"
      by (metis div_mult_mod_eq of_nat_add of_nat_mult of_nat_numeral)
    moreover have "unat (of_nat n :: u32) = n" using Suc.prems by (simp add: unat_of_nat take_bit_nat_eq_self)
    moreover have "(\<lambda>q. if unat q < n then e else vga_fb d q)(of_nat n := e) = (\<lambda>q. if unat q < Suc n then e else vga_fb d q)"
      using of_nat_eq_index [of n] Suc.prems by (auto simp: fun_eq_iff)
    ultimately show ?case
      using Suc by (simp add: vga_ttyd_put_char_def VGA_TEXT_MODE_WIDTH_def e_def)
  qed simp
  from this [of 2000] c show ?thesis by simp
qed

end
