(* ===== verification/Tty.thy ===== *)
theory Tty
  imports Display CircBuf Containers Boot
begin

text \<open>
  The terminal of \<open>kernel/tty/tty.c\<close>.  What is written is kept in a ring of characters; a second
  ring holds the addresses at which its lines start, and a cursor into it says which line is at the
  top of the screen.  The globals are the record \<open>tty\<close> with the display's state in it; the display's
  functions are the argument \<open>dev\<close>.  Besides the globals it holds the addresses of the array
  \<open>tty_line_buf\<close> and of the local variable whose address \<open>tty_buf_enqueue_line\<close> passes on.

  A result of \<open>None\<close> is a division by zero, a NULL pointer that is read, or a call that does not
  return.
\<close>

subsection \<open>State\<close>

definition TTY_BUFFER_SIZE :: u64 where "TTY_BUFFER_SIZE = 65535"
definition TTY_LINE_LIMIT :: u64 where "TTY_LINE_LIMIT = 1000"
definition TAB_LENGTH :: u32 where "TAB_LENGTH = 8"

record 'd tty =
  tty_mem :: mem
  tty_buf :: ptr
  tty_line_buf :: ptr
  tty_line_slot :: ptr
  tty_buf_wptr :: circ_buf_ptr
  tty_circ_line_buf :: circ_buf
  tty_line_buf_rptr :: circ_buf_ptr
  tty_screen :: 'd
  tty_line :: u32
  tty_cursorx :: u32
  tty_cursory :: u32
  tty_width :: u32
  tty_height :: u32

definition tty_store :: "ptr \<Rightarrow> u8 \<Rightarrow> 'd tty \<Rightarrow> 'd tty" where
  "tty_store p c t = t\<lparr>tty_mem := (tty_mem t)(p := c)\<rparr>"

text \<open>An access to the ring of lines: the operation works on the memory and the struct.\<close>

definition tty_lines :: "'d tty \<Rightarrow> cb_state" where
  "tty_lines t = (tty_mem t, tty_circ_line_buf t)"

definition tty_set_lines :: "cb_state \<Rightarrow> 'd tty \<Rightarrow> 'd tty" where
  "tty_set_lines s t = t\<lparr>tty_mem := fst s, tty_circ_line_buf := snd s\<rparr>"

text \<open>The address at which the line in row \<open>y\<close> of the screen starts.\<close>

definition tty_row_start :: "int \<Rightarrow> 'd tty \<Rightarrow> ptr option" where
  "tty_row_start y t =
     do { p \<leftarrow> circ_buf_ptr_getoffset (tty_line_buf_rptr t) y; Some (mem_read_64 (tty_mem t) p) }"

definition tty_char_ptr :: "ptr \<Rightarrow> 'd tty \<Rightarrow> circ_buf_ptr" where
  "tty_char_ptr line t = circ_buf_ptr_init line (tty_buf t) TTY_BUFFER_SIZE 1"

definition tty_cursorxy_to_buf_wptr :: "u32 \<Rightarrow> u32 \<Rightarrow> 'd tty \<Rightarrow> ptr option" where
  "tty_cursorxy_to_buf_wptr x y t =
     do { line \<leftarrow> tty_row_start (sint y) t; Some (cp_ptr (circ_buf_ptr_add (tty_char_ptr line t) (ucast x))) }"

definition tty_cursor_to_buf_wptr :: "u32 \<Rightarrow> 'd tty \<Rightarrow> ptr option" where
  "tty_cursor_to_buf_wptr pos t =
     (if tty_width t = 0 then None else tty_cursorxy_to_buf_wptr (pos mod tty_width t) (pos div tty_width t) t)"

definition tty_buf_dequeue_line :: "'d tty \<Rightarrow> (ptr \<times> 'd tty) option" where
  "tty_buf_dequeue_line t =
     do { (p, s) \<leftarrow> circ_buf_dequeue (tty_lines t);
          if p = NULL then None else Some (mem_read_64 (fst s) p, tty_set_lines s t) }"

definition tty_buf_read_line :: "u64 \<Rightarrow> 'd tty \<Rightarrow> ptr option" where
  "tty_buf_read_line n t = do { p \<leftarrow> circ_buf_peekn (tty_circ_line_buf t) n; Some (mem_read_64 (tty_mem t) p) }"

text \<open>The oldest line goes when the write pointer runs into it.\<close>

definition tty_drop_line :: "'d tty \<Rightarrow> 'd tty option" where
  "tty_drop_line t =
     (if cb_size (tty_circ_line_buf t) > 1
      then do { first \<leftarrow> tty_buf_read_line 0 t;
                if cp_ptr (tty_buf_wptr t) = first then map_option snd (tty_buf_dequeue_line t) else Some t }
      else Some t)"

definition tty_buf_write_null_terminator :: "'d tty \<Rightarrow> 'd tty option" where
  "tty_buf_write_null_terminator t =
     do { t \<leftarrow> tty_drop_line t; Some (tty_store (cp_ptr (tty_buf_wptr t)) 0 t) }"

definition tty_buf_enqueue_line :: "ptr \<Rightarrow> 'd tty \<Rightarrow> 'd tty option" where
  "tty_buf_enqueue_line line t =
     do { let t = t\<lparr>tty_mem := store_ptr (tty_line_slot t) line (tty_mem t)\<rparr>;
          s \<leftarrow> circ_buf_enqueue (tty_lines t) (tty_line_slot t);
          tty_buf_write_null_terminator (tty_set_lines s t) }"

subsection \<open>The cursor\<close>

definition tty_set_cursor_pos_xy :: "'d tty_device \<Rightarrow> u32 \<Rightarrow> u32 \<Rightarrow> 'd tty \<Rightarrow> 'd tty option" where
  "tty_set_cursor_pos_xy dev x y t =
     do { let t = t\<lparr>tty_cursorx := x, tty_cursory := y\<rparr>;
          p \<leftarrow> tty_cursorxy_to_buf_wptr x y t;
          Some (t\<lparr>tty_buf_wptr := (tty_buf_wptr t)\<lparr>cp_ptr := p\<rparr>, tty_screen := dev_set_cursor dev x y (tty_screen t)\<rparr>) }"

definition tty_set_cursor_pos :: "'d tty_device \<Rightarrow> u64 \<Rightarrow> 'd tty \<Rightarrow> 'd tty option" where
  "tty_set_cursor_pos dev pos t =
     (if tty_width t = 0 then None
      else tty_set_cursor_pos_xy dev (ucast (pos mod ucast (tty_width t))) (ucast (pos div ucast (tty_width t))) t)"

definition tty_get_cursor_pos :: "'d tty \<Rightarrow> u32" where
  "tty_get_cursor_pos t = tty_cursory t * tty_width t + tty_cursorx t"

definition tty_setcolor :: "'d tty_device \<Rightarrow> tty_color \<Rightarrow> tty_color \<Rightarrow> 'd tty \<Rightarrow> 'd tty" where
  "tty_setcolor dev fg bg t = t\<lparr>tty_screen := dev_set_bg dev bg (dev_set_fg dev fg (tty_screen t))\<rparr>"

definition tty_get_width :: "'d tty \<Rightarrow> u32" where "tty_get_width t = tty_width t"
definition tty_get_height :: "'d tty \<Rightarrow> u32" where "tty_get_height t = tty_height t"
definition tty_getline :: "'d tty \<Rightarrow> u32" where "tty_getline t = tty_line t"

definition tty_enable_cursor :: "'d tty_device \<Rightarrow> 'd tty \<Rightarrow> 'd tty" where
  "tty_enable_cursor dev t = t\<lparr>tty_screen := dev_enable_cursor dev (tty_screen t)\<rparr>"

definition tty_disable_cursor :: "'d tty_device \<Rightarrow> 'd tty \<Rightarrow> 'd tty" where
  "tty_disable_cursor dev t = t\<lparr>tty_screen := dev_disable_cursor dev (tty_screen t)\<rparr>"

subsection \<open>Drawing\<close>

text \<open>The loop of a tab, which runs until the next column is a multiple of 8.\<close>

function tty_tab_loop :: "u32 \<Rightarrow> u32" where
  "tty_tab_loop x = (if (x + 1) mod TAB_LENGTH \<noteq> 0 then tty_tab_loop (x + 1) else x)"
  by pat_completeness auto
termination
proof (relation "measure (\<lambda>x. 7 - unat x mod 8)")
  fix x :: u32
  assume a: "(x + 1) mod TAB_LENGTH \<noteq> 0"
  have "unat ((x + 1) mod 8) = (unat x + 1) mod 8" by (simp add: unat_mod unat_word_ariths mod_mod_cancel)
  moreover have "unat (x + 1) mod 8 = unat ((x + 1) mod 8)" by (simp add: unat_mod)
  moreover have "(unat x + 1) mod 8 \<noteq> 0"
  proof
    assume "(unat x + 1) mod 8 = 0"
    then have "unat ((x + 1) mod 8) = 0" using calculation(1) by simp
    then show False using a by (simp add: TAB_LENGTH_def unat_eq_zero)
  qed
  ultimately have "unat (x + 1) mod 8 = unat x mod 8 + 1" by (metis Suc_eq_plus1 mod_Suc)
  moreover have "unat (x + 1) mod 8 < 8" by simp
  ultimately show "(x + 1, x) \<in> measure (\<lambda>x. 7 - unat x mod 8)" by simp
qed simp

declare tty_tab_loop.simps [simp del]

text \<open>
  \<open>tty_putchar_raw\<close> and \<open>tty_flush\<close> call each other: a character may scroll the screen, which draws
  its characters anew.  They are the two jobs of one function.  \<open>Flush i p\<close> draws the rest of the
  line in row \<open>i\<close>, from the pointer \<open>p\<close>, and the rows below.
\<close>

datatype tty_job = Put u8 | Flush u64 circ_buf_ptr

definition tty_scroll_begin :: "'d tty_device \<Rightarrow> 'd tty \<Rightarrow> 'd tty option" where
  "tty_scroll_begin dev t = tty_set_cursor_pos_xy dev 0 0 (t\<lparr>tty_screen := dev_clear dev (tty_screen t)\<rparr>)"

partial_function (option) tty_exec :: "'d tty_device \<Rightarrow> tty_job \<Rightarrow> 'd tty \<Rightarrow> 'd tty option" where
  "tty_exec dev job t =
     (case job of
        Put c \<Rightarrow>
          do { t \<leftarrow>
                 (if c = 9
                  then (let x = tty_tab_loop (tty_cursorx t)
                        in Some (t\<lparr>tty_cursorx := if x < tty_width t - 1 then x + 1 else x\<rparr>))
                  else if c = 8 then Some (t\<lparr>tty_cursorx := tty_cursorx t - (if tty_cursorx t = 0 then 0 else 1)\<rparr>)
                  else do { t \<leftarrow>
                    (if c = 10 \<or> tty_cursorx t = tty_width t
                     then let t = t\<lparr>tty_cursorx := 0\<rparr>
                          in if tty_cursory t = tty_height t - 1
                             then do { let t = t\<lparr>tty_line := tty_line t + 1,
                                         tty_line_buf_rptr := circ_buf_ptr_increment (tty_line_buf_rptr t)\<rparr>;
                                       let (x, y) = (tty_cursorx t, tty_cursory t);
                                       t \<leftarrow> tty_scroll_begin dev t;
                                       t \<leftarrow> (if tty_height t = 0 then Some t
                                         else do { line \<leftarrow> tty_row_start 0 t; tty_exec dev (Flush 0 (tty_char_ptr line t)) t });
                                       tty_set_cursor_pos_xy dev x y t }
                             else Some (t\<lparr>tty_cursory := tty_cursory t + 1\<rparr>)
                     else Some t);
                    Some (if c = 10 then t
                      else t\<lparr>tty_screen := dev_put_char dev (tty_cursorx t) (tty_cursory t) c (tty_screen t),
                             tty_cursorx := tty_cursorx t + 1\<rparr>) });
               tty_set_cursor_pos_xy dev (tty_cursorx t) (tty_cursory t) t }
      | Flush i p \<Rightarrow>
          if tty_mem t (cp_ptr p) \<noteq> 0
          then do { t \<leftarrow> tty_exec dev (Put (tty_mem t (cp_ptr p))) t;
                    tty_exec dev (Flush i (circ_buf_ptr_increment p)) t }
          else do { t \<leftarrow> (if i \<noteq> ucast (tty_height t - 1) then tty_exec dev (Put 10) t else Some t);
                    if i + 1 < ucast (tty_height t)
                    then do { line \<leftarrow> tty_row_start (sint (ucast (i + 1) :: u32)) t;
                              tty_exec dev (Flush (i + 1) (p\<lparr>cp_ptr := line\<rparr>)) t }
                    else Some t })"

definition tty_putchar_raw :: "'d tty_device \<Rightarrow> u8 \<Rightarrow> 'd tty \<Rightarrow> 'd tty option" where
  "tty_putchar_raw dev c t = tty_exec dev (Put c) t"

definition tty_flush :: "'d tty_device \<Rightarrow> 'd tty \<Rightarrow> 'd tty option" where
  "tty_flush dev t =
     do { let (x, y) = (tty_cursorx t, tty_cursory t);
          t \<leftarrow> tty_scroll_begin dev t;
          t \<leftarrow> (if tty_height t = 0 then Some t
            else do { line \<leftarrow> tty_row_start 0 t; tty_exec dev (Flush 0 (tty_char_ptr line t)) t });
          tty_set_cursor_pos_xy dev x y t }"

definition tty_scroll_up_force :: "'d tty_device \<Rightarrow> 'd tty \<Rightarrow> 'd tty option" where
  "tty_scroll_up_force dev t =
     tty_flush dev (t\<lparr>tty_line := tty_line t - 1, tty_line_buf_rptr := circ_buf_ptr_decrement (tty_line_buf_rptr t)\<rparr>)"

definition tty_scroll_down_force :: "'d tty_device \<Rightarrow> 'd tty \<Rightarrow> 'd tty option" where
  "tty_scroll_down_force dev t =
     tty_flush dev (t\<lparr>tty_line := tty_line t + 1, tty_line_buf_rptr := circ_buf_ptr_increment (tty_line_buf_rptr t)\<rparr>)"

definition tty_scroll_up :: "'d tty_device \<Rightarrow> 'd tty \<Rightarrow> 'd tty option" where
  "tty_scroll_up dev t =
     (if cp_ptr (tty_line_buf_rptr t) \<noteq> tty_line_buf t + 8 * cb_head (tty_circ_line_buf t)
      then tty_scroll_up_force dev t else Some t)"

definition tty_scroll_down :: "'d tty_device \<Rightarrow> 'd tty \<Rightarrow> 'd tty option" where
  "tty_scroll_down dev t =
     do { p \<leftarrow> circ_buf_ptr_getoffset (tty_line_buf_rptr t) (sint (tty_cursory t));
          if p \<noteq> tty_line_buf t + 8 * (cb_tail (tty_circ_line_buf t) - 1) then tty_scroll_down_force dev t else Some t }"

subsection \<open>Writing\<close>

definition tty_clear :: "'d tty_device \<Rightarrow> 'd tty \<Rightarrow> 'd tty option" where
  "tty_clear dev t =
     do { let t = t\<lparr>tty_circ_line_buf := circ_buf_init (tty_line_buf t) TTY_LINE_LIMIT 8,
                    tty_buf_wptr := circ_buf_ptr_init (tty_buf t) (tty_buf t) TTY_BUFFER_SIZE 1,
                    tty_line_buf_rptr := circ_buf_ptr_init (tty_line_buf t) (tty_line_buf t) TTY_LINE_LIMIT 8\<rparr>;
          t \<leftarrow> tty_buf_enqueue_line (cp_ptr (tty_buf_wptr t)) t;
          t \<leftarrow> tty_set_cursor_pos_xy dev 0 0 (t\<lparr>tty_screen := dev_clear dev (tty_screen t)\<rparr>);
          Some (t\<lparr>tty_line := 0\<rparr>) }"

text \<open>\<open>tail_ptr\<close> is the start of the last line; \<open>circ_buf_peek_tail\<close> is read as it is.\<close>

fun tty_delete_loop :: "'d tty_device \<Rightarrow> nat \<Rightarrow> ptr \<Rightarrow> 'd tty \<Rightarrow> 'd tty option" where
  "tty_delete_loop dev 0 tail_ptr t = Some t"
| "tty_delete_loop dev (Suc n) tail_ptr t =
     do { (tail_ptr, t) \<leftarrow>
            (if cp_ptr (tty_buf_wptr t) = tail_ptr
             then do { (_, s) \<leftarrow> circ_buf_dequeue_tail (tty_lines t);
                       let t = tty_set_lines s t;
                       Some (mem_read_64 (tty_mem t) (circ_buf_peek_tail (tty_circ_line_buf t)), t) }
             else Some (tail_ptr, t));
          t \<leftarrow> tty_set_cursor_pos dev (ucast (tty_get_cursor_pos t - 1)) t;
          let t = t\<lparr>tty_screen := dev_put_char dev (tty_cursorx t) (tty_cursory t) 0x20 (tty_screen t)\<rparr>;
          tty_delete_loop dev n tail_ptr (tty_store (cp_ptr (tty_buf_wptr t)) 0 t) }"

definition tty_delete :: "'d tty_device \<Rightarrow> u64 \<Rightarrow> 'd tty \<Rightarrow> 'd tty option" where
  "tty_delete dev n t =
     tty_delete_loop dev (unat n) (mem_read_64 (tty_mem t) (circ_buf_peek_tail (tty_circ_line_buf t))) t"

definition tty_wptr_increment :: "'d tty \<Rightarrow> 'd tty" where
  "tty_wptr_increment t = t\<lparr>tty_buf_wptr := circ_buf_ptr_increment (tty_buf_wptr t)\<rparr>"

definition tty_buf_write :: "u8 \<Rightarrow> 'd tty \<Rightarrow> 'd tty option" where
  "tty_buf_write c t =
     do { t \<leftarrow> tty_drop_line t;
          if c = 10
          then (let t = tty_wptr_increment (tty_store (cp_ptr (tty_buf_wptr t)) 0 t)
                in tty_buf_enqueue_line (cp_ptr (tty_buf_wptr t)) t)
          else do { t \<leftarrow> (if tty_cursorx t = tty_width t
                          then let t = tty_wptr_increment t in tty_buf_enqueue_line (cp_ptr (tty_buf_wptr t)) t
                          else Some t);
                    tty_buf_write_null_terminator (tty_wptr_increment (tty_store (cp_ptr (tty_buf_wptr t)) c t)) } }"

definition tty_putchar :: "'d tty_device \<Rightarrow> u8 \<Rightarrow> 'd tty \<Rightarrow> 'd tty option" where
  "tty_putchar dev c t = do { t \<leftarrow> tty_buf_write c t; tty_putchar_raw dev c t }"

text \<open>The loops over the characters; the data is read from the memory as they go.\<close>

fun tty_write_loop :: "(u8 \<Rightarrow> 'd tty \<Rightarrow> 'd tty option) \<Rightarrow> ptr \<Rightarrow> nat \<Rightarrow> 'd tty \<Rightarrow> 'd tty option" where
  "tty_write_loop put data 0 t = Some t"
| "tty_write_loop put data (Suc n) t =
     do { t \<leftarrow> put (tty_mem t data) t; tty_write_loop put (data + 1) n t }"

definition tty_write :: "'d tty_device \<Rightarrow> ptr \<Rightarrow> u64 \<Rightarrow> 'd tty \<Rightarrow> 'd tty option" where
  "tty_write dev data n t = tty_write_loop (tty_putchar dev) data (unat n) t"

definition tty_writestring :: "'d tty_device \<Rightarrow> ptr \<Rightarrow> 'd tty \<Rightarrow> 'd tty option" where
  "tty_writestring dev data t = do { n \<leftarrow> strlen (tty_mem t) data; tty_write dev data n t }"

definition tty_write_raw :: "'d tty_device \<Rightarrow> ptr \<Rightarrow> u64 \<Rightarrow> 'd tty \<Rightarrow> 'd tty option" where
  "tty_write_raw dev data n t = tty_write_loop (tty_putchar_raw dev) data (unat n) t"

definition tty_writestring_raw :: "'d tty_device \<Rightarrow> ptr \<Rightarrow> 'd tty \<Rightarrow> 'd tty option" where
  "tty_writestring_raw dev data t = do { n \<leftarrow> strlen (tty_mem t) data; tty_write_raw dev data n t }"

text \<open>\<open>tty_flush_line\<close> draws one line in its row.\<close>

partial_function (option) tty_flush_line_loop :: "'d tty_device \<Rightarrow> circ_buf_ptr \<Rightarrow> 'd tty \<Rightarrow> 'd tty option" where
  "tty_flush_line_loop dev p t =
     (if tty_mem t (cp_ptr p) \<noteq> 0
      then do { t \<leftarrow> tty_putchar_raw dev (tty_mem t (cp_ptr p)) t;
                tty_flush_line_loop dev (circ_buf_ptr_increment p) t }
      else Some t)"

definition tty_flush_line :: "'d tty_device \<Rightarrow> u64 \<Rightarrow> 'd tty \<Rightarrow> 'd tty option" where
  "tty_flush_line dev y t =
     do { let (cx, cy) = (tty_cursorx t, tty_cursory t);
          t \<leftarrow> tty_set_cursor_pos_xy dev 0 (ucast y) t;
          line \<leftarrow> tty_row_start (sint (ucast y :: u32)) t;
          t \<leftarrow> tty_flush_line_loop dev (tty_char_ptr line t) t;
          tty_set_cursor_pos_xy dev cx cy t }"

subsection \<open>Initialisation\<close>

text \<open>
  \<open>*ttyd\<close> is assigned one of the two structs of functions: the display is one of the two devices.
\<close>

definition either_device :: "'a tty_device \<Rightarrow> 'b tty_device \<Rightarrow> ('a + 'b) tty_device" where
  "either_device a b =
     \<lparr>dev_get_width = case_sum (dev_get_width a) (dev_get_width b),
      dev_get_height = case_sum (dev_get_height a) (dev_get_height b),
      dev_put_char = (\<lambda>x y c. map_sum (dev_put_char a x y c) (dev_put_char b x y c)),
      dev_set_fg = (\<lambda>c. map_sum (dev_set_fg a c) (dev_set_fg b c)),
      dev_set_bg = (\<lambda>c. map_sum (dev_set_bg a c) (dev_set_bg b c)),
      dev_enable_cursor = map_sum (dev_enable_cursor a) (dev_enable_cursor b),
      dev_disable_cursor = map_sum (dev_disable_cursor a) (dev_disable_cursor b),
      dev_set_cursor = (\<lambda>x y. map_sum (dev_set_cursor a x y) (dev_set_cursor b x y)),
      dev_clear = map_sum (dev_clear a) (dev_clear b)\<rparr>"

type_synonym 'p display = "'p vga + vbe"

text \<open>
  \<open>None\<close> is the \<open>false\<close> of a frame buffer that cannot be mapped.  The result carries the functions,
  the state of the display and the memory with the registered fonts.
\<close>

definition ttyd_init ::
  "'p ports \<Rightarrow> (font_name \<Rightarrow> ptr) \<Rightarrow> mb2_tag_framebuffer_common \<Rightarrow> 'p vga \<Rightarrow> vbe \<Rightarrow> psf_fonts \<Rightarrow> mem \<Rightarrow> mem_state \<Rightarrow>
    (('p display tty_device \<times> 'p display \<times> psf_fonts \<times> mem) option \<times> mem_state) result" where
  "ttyd_init P start fb_info vga vbe fonts m s =
     (if framebuffer_type fb_info = MB2_FRAMEBUFFER_TYPE_RGB
      then let fb_size = ucast (framebuffer_width fb_info * framebuffer_height fb_info) * 4
           in bind_result (map_device MEMORY_FRAME_BUFFER (framebuffer_addr fb_info) fb_size s)
                (\<lambda>(ok, s). if \<not> ok then Inr (None, s)
                   else let (dev, d, fonts, m) =
                          vbe_ttyd_init start (framebuffer_width fb_info) (framebuffer_height fb_info) fonts vbe m
                        in Inr (Some (either_device (vga_ttyd_init P) dev, Inr d, fonts, m), s))
      else Inr (Some (either_device (vga_ttyd_init P) (vbe_ttyd_functions m), Inl vga, fonts, m), s))"

text \<open>The rest of \<open>tty_init\<close>; \<open>buf\<close> is what \<open>malloc\<close> returned.\<close>

definition tty_init :: "'d tty_device \<Rightarrow> ptr \<Rightarrow> 'd tty \<Rightarrow> 'd tty option" where
  "tty_init dev buf t =
     do { let t = t\<lparr>tty_buf := buf\<rparr>;
          w \<leftarrow> dev_get_width dev (tty_screen t);
          h \<leftarrow> dev_get_height dev (tty_screen t);
          let t = t\<lparr>tty_width := w, tty_height := h\<rparr>;
          tty_clear dev (tty_setcolor dev COLOR_LIGHT_GREEN COLOR_BLACK t) }"

subsection \<open>Character output\<close>

text \<open>\<open>putchar\<close> of \<open>libc/stdio/putchar.c\<close>; \<open>c\<close> is the address of its local variable.\<close>

definition putchar :: "'d tty_device \<Rightarrow> ptr \<Rightarrow> u32 \<Rightarrow> 'd tty \<Rightarrow> (u32 \<times> 'd tty) option" where
  "putchar dev c ic t = map_option (\<lambda>t. (ic, t)) (tty_write dev c 1 (tty_store c (ucast ic) t))"

lemma tty_write_loop_0: "tty_write_loop put p 0 = Some"
  by (rule ext) simp

lemma putchar_tty_putchar:
  "putchar dev c ic t = map_option (\<lambda>t. (ic, t)) (tty_putchar dev (ucast ic) (tty_store c (ucast ic) t))"
  by (simp add: putchar_def tty_write_def tty_store_def tty_write_loop_0)

subsection \<open>The column of the cursor\<close>

lemma tab_loop_value:
  "unat (tty_tab_loop x) = 8 * (unat x div 8) + 7"
proof (induction x rule: tty_tab_loop.induct)
  case (1 x)
  have u: "unat ((x + 1) mod TAB_LENGTH) = (unat x + 1) mod 8"
    by (simp add: TAB_LENGTH_def unat_mod unat_word_ariths mod_mod_cancel)
  show ?case
  proof (cases "(x + 1) mod TAB_LENGTH = 0")
    case True
    then have "(unat x + 1) mod 8 = 0" using u by simp
    then have "unat x mod 8 = 7" by presburger
    then have "unat x = 8 * (unat x div 8) + 7" using mult_div_mod_eq [of 8 "unat x"] by simp
    then show ?thesis using True by (subst tty_tab_loop.simps) simp
  next
    case False
    then have m: "(unat x + 1) mod 8 \<noteq> 0" using u by (metis unat_eq_zero)
    have "x + 1 \<noteq> 0" using False by (auto simp: TAB_LENGTH_def)
    then have "unat (x + 1) = unat x + 1" by (simp add: unatSuc add.commute)
    moreover have "(unat x + 1) div 8 = unat x div 8" using m by (simp add: div_Suc mod_Suc split: if_splits)
    ultimately show ?thesis using 1 False by (subst tty_tab_loop.simps) simp
  qed
qed

lemma getoffset_None: "circ_buf_ptr_getoffset c n = None \<longleftrightarrow> n = - (2 ^ 31)"
  by (simp add: circ_buf_ptr_getoffset_def Let_def)

text \<open>Moving the cursor: everything but the write pointer and the display's cursor is explicit.\<close>

lemma set_cursor_xy:
  assumes "sint y \<noteq> - (2 ^ 31)"
  obtains p where "tty_set_cursor_pos_xy dev x y t =
    Some (t\<lparr>tty_cursorx := x, tty_cursory := y, tty_buf_wptr := (tty_buf_wptr t)\<lparr>cp_ptr := p\<rparr>,
            tty_screen := dev_set_cursor dev x y (tty_screen t)\<rparr>)"
proof -
  obtain q where "circ_buf_ptr_getoffset (tty_line_buf_rptr t) (sint y) = Some q"
    using assms getoffset_None by (metis option.exhaust)
  then show ?thesis
    by (intro that) (simp add: tty_set_cursor_pos_xy_def tty_cursorxy_to_buf_wptr_def tty_row_start_def Let_def)
qed

lemma sint_small: "n < 2 ^ 31 \<Longrightarrow> sint (of_nat n :: u32) \<noteq> - (2 ^ 31)"
proof -
  assume "n < 2 ^ 31"
  then have "sint (of_nat n :: u32) = int n" by (simp add: signed_of_nat signed_take_bit_int_eq_self)
  then show ?thesis by simp
qed

definition printable :: "u8 \<Rightarrow> bool" where
  "printable c \<longleftrightarrow> c \<noteq> 8 \<and> c \<noteq> 9 \<and> c \<noteq> 10"

definition tty_pos :: "'d tty \<Rightarrow> nat" where
  "tty_pos t = unat (tty_cursory t) * unat (tty_width t) + unat (tty_cursorx t)"

text \<open>
  \<open>tty_at\<close>: the terminal has the size of its display, and its cursor is on the screen or one place
  behind the end of a line.
\<close>

definition tty_at :: "nat \<Rightarrow> nat \<Rightarrow> 'd tty \<Rightarrow> bool" where
  "tty_at w h t \<longleftrightarrow> tty_width t = of_nat w \<and> tty_height t = of_nat h \<and>
     unat (tty_cursorx t) \<le> w \<and> unat (tty_cursory t) < h"

lemma tty_put_printable:
  assumes "printable c" and "tty_at w h t" and "0 < w" and "h < 2 ^ 31" and "w * h < 2 ^ 32" and "tty_pos t < w * h"
  obtains x y p where "x < w" "y < h" "y * w + x = tty_pos t"
    "tty_putchar_raw dev c t = Some (t\<lparr>tty_cursorx := of_nat (x + 1), tty_cursory := of_nat y,
       tty_buf_wptr := (tty_buf_wptr t)\<lparr>cp_ptr := p\<rparr>,
       tty_screen := dev_set_cursor dev (of_nat (x + 1)) (of_nat y) (dev_put_char dev (of_nat x) (of_nat y) c (tty_screen t))\<rparr>)"
    "tty_at w h (t\<lparr>tty_cursorx := of_nat (x + 1), tty_cursory := of_nat y\<rparr>)"
    "unat (of_nat (x + 1) :: u32) = x + 1" "unat (of_nat y :: u32) = y"
proof -
  let ?cx = "unat (tty_cursorx t)" and ?cy = "unat (tty_cursory t)"
  have s: "tty_width t = of_nat w" "tty_height t = of_nat h" "?cx \<le> w" "?cy < h" using assms(2) by (simp_all add: tty_at_def)
  have "w * 1 \<le> w * h" using s(4) by (intro mult_le_mono2) simp
  then have w1: "w < 2 ^ 32" using assms(5) by linarith
  have w: "w < 2 ^ 32" "unat (of_nat w :: u32) = w" "unat (of_nat h :: u32) = h"
    using w1 assms(4) by (simp_all add: unat_of_nat take_bit_nat_eq_self)
  then have pos: "tty_pos t = ?cy * w + ?cx" by (simp add: tty_pos_def s)
  have nt: "c \<noteq> 9" "c \<noteq> 8" "c \<noteq> 10" using assms(1) by (auto simp: printable_def)
  define x where "x = (if ?cx = w then 0 else ?cx)"
  define y where "y = (if ?cx = w then ?cy + 1 else ?cy)"
  have xy: "x < w" "y * w + x = tty_pos t" using s(3) assms(3) by (auto simp: x_def y_def pos)
  have "y < h"
  proof (rule ccontr)
    assume "\<not> y < h"
    then have "h * w \<le> y * w" by (intro mult_le_mono1) simp
    then show False using xy(2) assms(6) mult.commute [of w h] by linarith
  qed
  have n: "unat (of_nat (x + 1) :: u32) = x + 1" "unat (of_nat y :: u32) = y"
    using xy(1) w(1) \<open>y < h\<close> assms(4) by (simp_all add: unat_of_nat take_bit_nat_eq_self del: of_nat_add of_nat_Suc)
  have full: "tty_cursorx t = tty_width t \<longleftrightarrow> ?cx = w" unfolding s(1) by (metis w(2) word_unat_eq_iff)
  have "?cx = w \<Longrightarrow> tty_cursory t \<noteq> tty_height t - 1"
  proof
    assume "?cx = w" "tty_cursory t = tty_height t - 1"
    then have "?cy = h - 1" using s(4) w(3) by (metis s(2) not_less_zero unat_gt_0 unat_minus_one gr_zeroI)
    then show False using \<open>?cx = w\<close> \<open>y < h\<close> by (simp add: y_def)
  qed
  then have nl: "tty_cursorx t = tty_width t \<Longrightarrow> tty_cursory t \<noteq> tty_height t - 1" using full by blast
  have x_word: "of_nat x = (if tty_cursorx t = tty_width t then 0 else tty_cursorx t)"
    and y_word: "of_nat y = (if tty_cursorx t = tty_width t then tty_cursory t + 1 else tty_cursory t)"
    using full by (auto simp: x_def y_def of_nat_unat)
  obtain p where p: "tty_set_cursor_pos_xy dev (of_nat x + 1) (of_nat y)
      (t\<lparr>tty_cursorx := of_nat x + 1, tty_cursory := of_nat y, tty_screen := dev_put_char dev (of_nat x) (of_nat y) c (tty_screen t)\<rparr>) =
    Some (t\<lparr>tty_cursorx := of_nat x + 1, tty_cursory := of_nat y, tty_buf_wptr := (tty_buf_wptr t)\<lparr>cp_ptr := p\<rparr>,
      tty_screen := dev_set_cursor dev (of_nat x + 1) (of_nat y) (dev_put_char dev (of_nat x) (of_nat y) c (tty_screen t))\<rparr>)"
    using set_cursor_xy [OF sint_small, of y dev "of_nat x + 1"
        "t\<lparr>tty_cursorx := of_nat x + 1, tty_cursory := of_nat y, tty_screen := dev_put_char dev (of_nat x) (of_nat y) c (tty_screen t)\<rparr>"]
      \<open>y < h\<close> assms(4) by force
  have order: "t\<lparr>tty_cursory := b, tty_screen := e, tty_cursorx := a\<rparr> = t\<lparr>tty_cursorx := a, tty_cursory := b, tty_screen := e\<rparr>"
    "t\<lparr>tty_screen := e, tty_cursorx := a\<rparr> = t\<lparr>tty_cursorx := a, tty_cursory := tty_cursory t, tty_screen := e\<rparr>" for a b e
    by (cases t; simp)+
  show ?thesis
  proof (rule that [of x y p])
    show "tty_putchar_raw dev c t = Some (t\<lparr>tty_cursorx := of_nat (x + 1), tty_cursory := of_nat y,
       tty_buf_wptr := (tty_buf_wptr t)\<lparr>cp_ptr := p\<rparr>,
       tty_screen := dev_set_cursor dev (of_nat (x + 1)) (of_nat y) (dev_put_char dev (of_nat x) (of_nat y) c (tty_screen t))\<rparr>)"
    proof (cases "tty_cursorx t = tty_width t")
      case True
      then have xw: "of_nat x = (0 :: u32)" "of_nat y = tty_cursory t + 1" "of_nat (x + 1) = (1 :: u32)"
        using x_word y_word by simp_all
      show ?thesis using p nl [OF True] True unfolding xw
        by (subst tty_putchar_raw_def, subst tty_exec.simps) (simp add: nt order)
    next
      case False
      then have xw: "of_nat x = tty_cursorx t" "of_nat y = tty_cursory t" "of_nat (x + 1) = tty_cursorx t + 1"
        using x_word y_word by simp_all
      show ?thesis using p False unfolding xw
        by (subst tty_putchar_raw_def, subst tty_exec.simps) (simp add: nt order)
    qed
    show "tty_at w h (t\<lparr>tty_cursorx := of_nat (x + 1), tty_cursory := of_nat y\<rparr>)"
      using s xy(1) \<open>y < h\<close> n by (simp add: tty_at_def del: of_nat_add of_nat_Suc)
  qed (use xy \<open>y < h\<close> n in simp_all)
qed

subsection \<open>Writing text on any display\<close>

definition tty_on :: "('d \<Rightarrow> bool) \<Rightarrow> ('d \<Rightarrow> nat) \<Rightarrow> ('d \<Rightarrow> nat) \<Rightarrow> 'd tty \<Rightarrow> bool" where
  "tty_on ok cols rows t \<longleftrightarrow> ok (tty_screen t) \<and> tty_at (cols (tty_screen t)) (rows (tty_screen t)) t"

text \<open>The images \<open>is\<close> in the places of the text from \<open>p\<close> on, row by row; the other places are \<open>old\<close>.\<close>

definition overlay :: "nat \<Rightarrow> nat \<Rightarrow> 'c list \<Rightarrow> (nat \<Rightarrow> nat \<Rightarrow> 'c) \<Rightarrow> nat \<Rightarrow> nat \<Rightarrow> 'c" where
  "overlay w p is old x y = (if p \<le> y * w + x \<and> y * w + x < p + length is then is ! (y * w + x - p) else old x y)"

lemma overlay_Nil [simp]: "overlay w p [] old x y = old x y"
  by (auto simp: overlay_def)

lemma overlay_Cons:
  assumes "\<And>x y. P x y \<Longrightarrow> mid x y = (if y * w + x = p then i else old x y)" and "P x y"
  shows "overlay w (p + 1) is mid x y = overlay w p (i # is) old x y"
proof -
  consider "y * w + x = p" | "p < y * w + x" | "y * w + x < p" by linarith
  then show ?thesis
  proof cases
    case 2
    then have "y * w + x - p = Suc (y * w + x - (p + 1))" by simp
    then show ?thesis using 2 assms(1) [OF assms(2)] by (auto simp: overlay_def)
  qed (use assms(1) [OF assms(2)] in \<open>simp_all add: overlay_def\<close>)
qed

context tty_display
begin

lemma put_printable:
  assumes "tty_on ok cols rows t" and "printable c" and "tty_pos t < cols (tty_screen t) * rows (tty_screen t)"
  shows "\<exists>t'. tty_putchar_raw dev c t = Some t' \<and> tty_on ok cols rows t' \<and> tty_pos t' = tty_pos t + 1 \<and> tty_mem t' = tty_mem t \<and>
     cols (tty_screen t') = cols (tty_screen t) \<and> rows (tty_screen t') = rows (tty_screen t) \<and>
     image (tty_screen t') = image (tty_screen t) \<and>
     (\<forall>x y. x < cols (tty_screen t) \<longrightarrow> y < rows (tty_screen t) \<longrightarrow>
        cell (tty_screen t') x y = (if y * cols (tty_screen t) + x = tty_pos t then image (tty_screen t) c else cell (tty_screen t) x y))"
proof -
  let ?d = "tty_screen t"
  have d: "ok ?d" and a: "tty_at (cols ?d) (rows ?d) t" using assms(1) by (simp_all add: tty_on_def)
  have g: "0 < cols ?d" "rows ?d < 2 ^ 31" "cols ?d * rows ?d < 2 ^ 32" using geometry [OF d] by simp_all
  obtain x y p where xy: "x < cols ?d" "y < rows ?d" "y * cols ?d + x = tty_pos t"
    and run: "tty_putchar_raw dev c t = Some (t\<lparr>tty_cursorx := of_nat (x + 1), tty_cursory := of_nat y,
       tty_buf_wptr := (tty_buf_wptr t)\<lparr>cp_ptr := p\<rparr>,
       tty_screen := dev_set_cursor dev (of_nat (x + 1)) (of_nat y) (dev_put_char dev (of_nat x) (of_nat y) c ?d)\<rparr>)"
      (is "_ = Some ?t")
    and at: "tty_at (cols ?d) (rows ?d) (t\<lparr>tty_cursorx := of_nat (x + 1), tty_cursory := of_nat y\<rparr>)"
    and u: "unat (of_nat (x + 1) :: u32) = x + 1" "unat (of_nat y :: u32) = y"
    by (rule tty_put_printable [OF assms(2) a g assms(3)])
  let ?d1 = "dev_put_char dev (of_nat x) (of_nat y) c ?d"
  let ?d2 = "dev_set_cursor dev (of_nat (x + 1)) (of_nat y) ?d1"
  note p1 = put_char [OF d xy(1,2) refl, of c]
  then have "ok ?d1" by blast
  note p2 = set_cursor [OF this refl, of "of_nat (x + 1)" "of_nat y"]
  have "cell ?d2 x' y' = (if y' * cols ?d + x' = tty_pos t then image ?d c else cell ?d x' y')"
    if "x' < cols ?d" "y' < rows ?d" for x' y'
  proof -
    have "y' * cols ?d + x' = tty_pos t \<longleftrightarrow> x' = x \<and> y' = y"
      unfolding xy(3) [symmetric] using block_unique [OF that(1) xy(1), of y' y] by blast
    then show ?thesis using p1 p2 that by simp
  qed
  moreover have "tty_on ok cols rows ?t" using p1 p2 at by (simp add: tty_on_def tty_at_def)
  moreover have "tty_pos ?t = tty_pos t + 1"
  proof -
    have "tty_width t = of_nat (cols ?d)" using a by (simp add: tty_at_def)
    moreover have "unat (of_nat (cols ?d) :: u32) = cols ?d"
    proof -
      have "cols ?d * 1 \<le> cols ?d * rows ?d" using xy(2) by (intro mult_le_mono2) simp
      then have "cols ?d < 2 ^ 32" using g(3) by linarith
      then show ?thesis by (simp add: unat_of_nat take_bit_nat_eq_self)
    qed
    ultimately show ?thesis using xy(3) u by (simp add: tty_pos_def del: of_nat_add of_nat_Suc)
  qed
  ultimately show ?thesis using run p1 p2 by (intro exI [of _ ?t]) simp
qed

lemma write_raw_text:
  assumes "tty_on ok cols rows t" and "\<forall>c\<in>set (bytes (tty_mem t) data n). printable c"
    and "tty_pos t + n \<le> cols (tty_screen t) * rows (tty_screen t)"
  shows "\<exists>t'. tty_write_loop (tty_putchar_raw dev) data n t = Some t' \<and> tty_on ok cols rows t' \<and> tty_pos t' = tty_pos t + n \<and>
     tty_mem t' = tty_mem t \<and> cols (tty_screen t') = cols (tty_screen t) \<and> rows (tty_screen t') = rows (tty_screen t) \<and>
     image (tty_screen t') = image (tty_screen t) \<and>
     (\<forall>x y. x < cols (tty_screen t) \<longrightarrow> y < rows (tty_screen t) \<longrightarrow>
        cell (tty_screen t') x y =
          overlay (cols (tty_screen t)) (tty_pos t) (map (image (tty_screen t)) (bytes (tty_mem t) data n)) (cell (tty_screen t)) x y)"
  using assms
proof (induction n arbitrary: data t)
  case 0
  then show ?case by (auto simp: bytes_def)
next
  case (Suc n)
  let ?d = "tty_screen t"
  let ?cs = "bytes (tty_mem t) (data + 1) n"
  have cs: "bytes (tty_mem t) data (Suc n) = tty_mem t data # ?cs" by (rule bytes_Suc)
  obtain t1 where t1: "tty_putchar_raw dev (tty_mem t data) t = Some t1" "tty_on ok cols rows t1" "tty_pos t1 = tty_pos t + 1" "tty_mem t1 = tty_mem t"
    "cols (tty_screen t1) = cols ?d" "rows (tty_screen t1) = rows ?d" "image (tty_screen t1) = image ?d"
    and c1: "\<And>x y. x < cols ?d \<Longrightarrow> y < rows ?d \<Longrightarrow>
        cell (tty_screen t1) x y = (if y * cols ?d + x = tty_pos t then image ?d (tty_mem t data) else cell ?d x y)"
    using put_printable [OF Suc.prems(1), of "tty_mem t data"] Suc.prems(2,3) unfolding cs by auto
  obtain t2 where t2: "tty_write_loop (tty_putchar_raw dev) (data + 1) n t1 = Some t2" "tty_on ok cols rows t2" "tty_pos t2 = tty_pos t1 + n"
    "tty_mem t2 = tty_mem t1" "cols (tty_screen t2) = cols ?d" "rows (tty_screen t2) = rows ?d" "image (tty_screen t2) = image ?d"
    and c2: "\<And>x y. x < cols ?d \<Longrightarrow> y < rows ?d \<Longrightarrow>
        cell (tty_screen t2) x y = overlay (cols ?d) (tty_pos t + 1) (map (image ?d) ?cs) (cell (tty_screen t1)) x y"
    using Suc.IH [OF t1(2), of "data + 1"] Suc.prems(2,3) t1 unfolding cs by auto
  have "cell (tty_screen t2) x y = overlay (cols ?d) (tty_pos t) (image ?d (tty_mem t data) # map (image ?d) ?cs) (cell ?d) x y"
    if "x < cols ?d" "y < rows ?d" for x y
    unfolding c2 [OF that] using c1 that
    by (intro overlay_Cons [where P = "\<lambda>x y. x < cols ?d \<and> y < rows ?d"]) auto
  then show ?case using t1 t2 unfolding cs by (intro exI [of _ t2]) simp
qed

end

text \<open>
  C36.  Text that fits on a graphics screen appears on it: writing characters without control
  characters returns, moves the cursor on by their number, and draws at each place of the text the
  glyph of its character, in the foreground and background colours, while every other place keeps
  its pixels.
\<close>
theorem tty_write_raw_draws:
  assumes "tty_on vbe_ok vbe_cols vbe_rows t" and "\<forall>c\<in>set (bytes (tty_mem t) data (unat n)). printable c"
    and "tty_pos t + unat n \<le> vbe_cols (tty_screen t) * vbe_rows (tty_screen t)"
  shows "\<exists>t'. tty_write_raw (vbe_ttyd_functions m) data n t = Some t' \<and> tty_on vbe_ok vbe_cols vbe_rows t' \<and>
    tty_pos t' = tty_pos t + unat n \<and>
    (\<forall>x y. x < vbe_cols (tty_screen t) \<longrightarrow> y < vbe_rows (tty_screen t) \<longrightarrow>
      vbe_cell (tty_screen t') x y =
        overlay (vbe_cols (tty_screen t)) (tty_pos t) (map (vbe_image m (tty_screen t)) (bytes (tty_mem t) data (unat n)))
          (vbe_cell (tty_screen t)) x y)"
  unfolding tty_write_raw_def using vbe_display.write_raw_text [OF assms] by blast

text \<open>An 80 by 25 screen of 8 by 16 characters: two characters that begin a line at the end of the one above.\<close>

definition example_tty :: "vbe tty" where
  "example_tty =
     \<lparr>tty_mem = poke (\<lambda>_. 0) 0x5000 [104, 105], tty_buf = 0x10000, tty_line_buf = 0x8000, tty_line_slot = 0x7000,
      tty_buf_wptr = circ_buf_ptr_init 0x10000 0x10000 TTY_BUFFER_SIZE 1,
      tty_circ_line_buf = circ_buf_init 0x8000 TTY_LINE_LIMIT 8,
      tty_line_buf_rptr = circ_buf_ptr_init 0x8000 0x8000 TTY_LINE_LIMIT 8,
      tty_screen = \<lparr>vbe_fb = (\<lambda>_. 0), vbe_screen_width = 640, vbe_screen_height = 400, vbe_tty_fg = 0xFFFFFF,
        vbe_tty_bg = 0, vbe_tty_font = \<lparr>psf_version = 1, psf_header = 0x20000, glyph_width = 8, glyph_height = 16,
          glyph_size = 16, num_glyphs = 256, glyphs = 0x20004\<rparr>,
        vbe_tty_cursor_enabled = True, vbe_tty_cursor_x = 0, vbe_tty_cursor_y = 0\<rparr>,
      tty_line = 0, tty_cursorx = 79, tty_cursory = 0, tty_width = 80, tty_height = 25\<rparr>"

theorem tty_write_raw_draws_witness:
  "\<forall>m. \<exists>t'. tty_write_raw (vbe_ttyd_functions m) 0x5000 2 example_tty = Some t' \<and> tty_pos t' = 81 \<and>
     vbe_cell (tty_screen t') 79 0 = vbe_image m (tty_screen example_tty) 104 \<and>
     vbe_cell (tty_screen t') 0 1 = vbe_image m (tty_screen example_tty) 105"
proof
  fix m
  let ?d = "tty_screen example_tty"
  have v: "vbe_gw ?d = 8" "vbe_gh ?d = 16" "vbe_w ?d = 640" "vbe_h ?d = 400"
    by (simp_all add: vbe_sizes example_tty_def)
  then have c: "vbe_cols ?d = 80" "vbe_rows ?d = 25" by (simp_all add: vbe_cols_def vbe_rows_def)
  have on: "tty_on vbe_ok vbe_cols vbe_rows example_tty"
    by (simp add: tty_on_def tty_at_def c vbe_ok_def v) (simp add: example_tty_def)
  have p: "tty_pos example_tty = 79" by (simp add: tty_pos_def example_tty_def)
  have b: "bytes (tty_mem example_tty) 0x5000 2 = [104, 105]" by (simp add: example_tty_def bytes_def upt_rec)
  obtain t' where t': "tty_write_raw (vbe_ttyd_functions m) 0x5000 2 example_tty = Some t'" "tty_pos t' = 81"
    "\<And>x y. x < 80 \<Longrightarrow> y < 25 \<Longrightarrow> vbe_cell (tty_screen t') x y =
        overlay 80 79 (map (vbe_image m ?d) [104, 105]) (vbe_cell ?d) x y"
    using tty_write_raw_draws [OF on, of "0x5000" 2 m] by (auto simp: b p c printable_def)
  then show "\<exists>t'. tty_write_raw (vbe_ttyd_functions m) 0x5000 2 example_tty = Some t' \<and> tty_pos t' = 81 \<and>
     vbe_cell (tty_screen t') 79 0 = vbe_image m ?d 104 \<and> vbe_cell (tty_screen t') 0 1 = vbe_image m ?d 105"
    using t'(3) [of 79 0] t'(3) [of 0 1] by (intro exI [of _ t']) (simp add: overlay_def)
qed

subsection \<open>The cursor after a character\<close>

text \<open>What a character does to the size and the cursor of the terminal, whether it scrolls or not.\<close>

definition same_size :: "'d tty \<Rightarrow> 'd tty \<Rightarrow> bool" where
  "same_size t t' \<longleftrightarrow> tty_width t' = tty_width t \<and> tty_height t' = tty_height t"

lemma same_size_trans: "same_size t t1 \<Longrightarrow> same_size t1 t2 \<Longrightarrow> same_size t t2"
  by (simp add: same_size_def)

lemma set_cursor_result:
  assumes "tty_set_cursor_pos_xy dev x y t = Some t'"
  shows "same_size t t'" "tty_cursorx t' = x" "tty_cursory t' = y"
  using assms by (auto simp: tty_set_cursor_pos_xy_def same_size_def bind_eq_Some_conv Let_def)

lemma scroll_begin_size: "tty_scroll_begin dev t = Some t' \<Longrightarrow> same_size t t'"
  unfolding tty_scroll_begin_def by (drule set_cursor_result(1)) (simp add: same_size_def)

text \<open>The part of \<open>tty_exec\<close> that begins a new line, and what it does before it.\<close>

definition scroll_with ::
  "('d tty_device \<Rightarrow> tty_job \<Rightarrow> 'd tty \<Rightarrow> 'd tty option) \<Rightarrow> 'd tty_device \<Rightarrow> 'd tty \<Rightarrow> 'd tty option" where
  "scroll_with exec dev t =
     do { let t = t\<lparr>tty_line := tty_line t + 1, tty_line_buf_rptr := circ_buf_ptr_increment (tty_line_buf_rptr t)\<rparr>;
          let (x, y) = (tty_cursorx t, tty_cursory t);
          t \<leftarrow> tty_scroll_begin dev t;
          t \<leftarrow> (if tty_height t = 0 then Some t
            else do { line \<leftarrow> tty_row_start 0 t; exec dev (Flush 0 (tty_char_ptr line t)) t });
          tty_set_cursor_pos_xy dev x y t }"

definition newline_with ::
  "('d tty_device \<Rightarrow> tty_job \<Rightarrow> 'd tty \<Rightarrow> 'd tty option) \<Rightarrow> 'd tty_device \<Rightarrow> u8 \<Rightarrow> 'd tty \<Rightarrow> 'd tty option" where
  "newline_with exec dev c t =
     (if c = 10 \<or> tty_cursorx t = tty_width t
      then let t = t\<lparr>tty_cursorx := 0\<rparr>
           in if tty_cursory t = tty_height t - 1 then scroll_with exec dev t
              else Some (t\<lparr>tty_cursory := tty_cursory t + 1\<rparr>)
      else Some t)"

definition put_glyph :: "'d tty_device \<Rightarrow> u8 \<Rightarrow> 'd tty \<Rightarrow> 'd tty" where
  "put_glyph dev c t =
     (if c = 10 then t
      else t\<lparr>tty_screen := dev_put_char dev (tty_cursorx t) (tty_cursory t) c (tty_screen t),
             tty_cursorx := tty_cursorx t + 1\<rparr>)"

lemma put_glyph_fields:
  "same_size t (put_glyph dev c t)" "tty_cursory (put_glyph dev c t) = tty_cursory t"
  "tty_cursorx (put_glyph dev c t) = (if c = 10 then tty_cursorx t else tty_cursorx t + 1)"
  by (simp_all add: put_glyph_def same_size_def)

lemma scroll_with_result:
  assumes "scroll_with exec dev t = Some u"
    and ih: "\<forall>job t t'. exec dev job t = Some t' \<longrightarrow> same_size t t'"
  shows "same_size t u" "tty_cursorx u = tty_cursorx t" "tty_cursory u = tty_cursory t"
proof -
  obtain t1 t2 where r: "tty_scroll_begin dev (t\<lparr>tty_line := tty_line t + 1,
       tty_line_buf_rptr := circ_buf_ptr_increment (tty_line_buf_rptr t)\<rparr>) = Some t1"
    "(if tty_height t1 = 0 then Some t1
      else do { line \<leftarrow> tty_row_start 0 t1; exec dev (Flush 0 (tty_char_ptr line t1)) t1 }) = Some t2"
    "tty_set_cursor_pos_xy dev (tty_cursorx t) (tty_cursory t) t2 = Some u"
    using assms(1) by (auto simp: scroll_with_def Let_def bind_eq_Some_conv split del: if_split)
  have "same_size t1 t2" using r(2) ih by (auto simp: bind_eq_Some_conv same_size_def split: if_splits)
  then show "same_size t u" "tty_cursorx u = tty_cursorx t" "tty_cursory u = tty_cursory t"
    using scroll_begin_size [OF r(1)] set_cursor_result [OF r(3)] by (simp_all add: same_size_def)
qed

lemma newline_with_result:
  assumes "newline_with exec dev c t = Some u"
    and ih: "\<forall>job t t'. exec dev job t = Some t' \<longrightarrow> same_size t t'"
  shows "same_size t u" "tty_cursorx u = (if c = 10 \<or> tty_cursorx t = tty_width t then 0 else tty_cursorx t)"
    "tty_cursory u = (if (c = 10 \<or> tty_cursorx t = tty_width t) \<and> tty_cursory t \<noteq> tty_height t - 1
       then tty_cursory t + 1 else tty_cursory t)"
proof -
  have "same_size t u \<and> tty_cursorx u = (if c = 10 \<or> tty_cursorx t = tty_width t then 0 else tty_cursorx t) \<and>
    tty_cursory u = (if (c = 10 \<or> tty_cursorx t = tty_width t) \<and> tty_cursory t \<noteq> tty_height t - 1
       then tty_cursory t + 1 else tty_cursory t)"
  proof (cases "(c = 10 \<or> tty_cursorx t = tty_width t) \<and> tty_cursory t = tty_height t - 1")
    case True
    then have "scroll_with exec dev (t\<lparr>tty_cursorx := 0\<rparr>) = Some u"
      using assms(1) by (simp add: newline_with_def Let_def)
    from scroll_with_result [OF this ih] show ?thesis using True by (simp add: same_size_def)
  next
    case False
    then show ?thesis using assms(1) by (auto simp: newline_with_def same_size_def Let_def split: if_splits)
  qed
  then show "same_size t u" "tty_cursorx u = (if c = 10 \<or> tty_cursorx t = tty_width t then 0 else tty_cursorx t)"
    "tty_cursory u = (if (c = 10 \<or> tty_cursorx t = tty_width t) \<and> tty_cursory t \<noteq> tty_height t - 1
       then tty_cursory t + 1 else tty_cursory t)" by simp_all
qed

lemma exec_size: "tty_exec dev job t = Some t' \<Longrightarrow> same_size t t'"
proof (induction rule: tty_exec.raw_induct [rotated, consumes 1])
  case (1 exec dev job t t')
  note ih = 1(1) and run = 1(2)
  then have all: "\<forall>job t t'. exec dev job t = Some t' \<longrightarrow> same_size t t'" by blast
  show ?case
  proof (cases job)
    case (Put c)
    show ?thesis
    proof (cases "c = 9 \<or> c = 8")
      case True
      with run Put show ?thesis
        by (auto simp: Let_def same_size_def dest!: set_cursor_result(1) split: if_splits)
    next
      case False
      then have n: "c \<noteq> 9" "c \<noteq> 8" by simp_all
      obtain u where u: "newline_with exec dev c t = Some u"
        "tty_set_cursor_pos_xy dev (tty_cursorx (put_glyph dev c u)) (tty_cursory (put_glyph dev c u)) (put_glyph dev c u) = Some t'"
        using run unfolding Put tty_job.case if_not_P [OF n(1)] if_not_P [OF n(2)]
          newline_with_def scroll_with_def put_glyph_def
        by (auto simp only: bind_eq_Some_conv option.inject)
      show ?thesis
        using newline_with_result(1) [OF u(1) all] put_glyph_fields(1) set_cursor_result(1) [OF u(2)] same_size_trans by blast
    qed
  next
    case (Flush i p)
    show ?thesis
    proof (cases "tty_mem t (cp_ptr p) \<noteq> 0")
      case True
      with run Flush show ?thesis using ih same_size_trans by (auto simp: bind_eq_Some_conv) blast
    next
      case False
      with run Flush obtain u where "(if i \<noteq> ucast (tty_height t - 1) then exec dev (Put 10) t else Some t) = Some u"
        and r: "(if i + 1 < ucast (tty_height u)
                    then do { line \<leftarrow> tty_row_start (sint (ucast (i + 1) :: u32)) u;
                              exec dev (Flush (i + 1) (p\<lparr>cp_ptr := line\<rparr>)) u }
                    else Some u) = Some t'"
        by (auto simp: bind_eq_Some_conv split del: if_split)
      then have "same_size t u" using ih by (auto simp: same_size_def split: if_splits)
      moreover have "same_size u t'" using r ih by (auto simp: bind_eq_Some_conv same_size_def split: if_splits)
      ultimately show ?thesis by (rule same_size_trans)
    qed
  qed
qed

lemma exec_sizes: "\<forall>job t t'. tty_exec dev job t = Some t' \<longrightarrow> same_size t t'"
  using exec_size by blast

lemma putchar_raw_visible:
  assumes "c \<noteq> 9" and "c \<noteq> 8"
  shows "tty_putchar_raw dev c t = do { u \<leftarrow> newline_with tty_exec dev c t;
     let u = put_glyph dev c u; tty_set_cursor_pos_xy dev (tty_cursorx u) (tty_cursory u) u }"
  unfolding tty_putchar_raw_def
  by (subst tty_exec.simps) (simp only: tty_job.case if_not_P [OF assms(1)] if_not_P [OF assms(2)]
    newline_with_def scroll_with_def put_glyph_def Option.bind_assoc bind.bind_lunit Let_def)

text \<open>The cursor before it is set: where a call that returns leaves it.\<close>

definition next_cursor :: "u8 \<Rightarrow> 'd tty \<Rightarrow> u32 \<times> u32" where
  "next_cursor c t =
     (if c = 9 then (let x = tty_tab_loop (tty_cursorx t) in if x < tty_width t - 1 then x + 1 else x, tty_cursory t)
      else if c = 8 then (tty_cursorx t - (if tty_cursorx t = 0 then 0 else 1), tty_cursory t)
      else (let nl = c = 10 \<or> tty_cursorx t = tty_width t
            in ((if nl then 0 else tty_cursorx t) + (if c = 10 then 0 else 1),
                if nl \<and> tty_cursory t \<noteq> tty_height t - 1 then tty_cursory t + 1 else tty_cursory t)))"

lemma putchar_raw_cursor:
  assumes "tty_putchar_raw dev c t = Some t'"
  shows "same_size t t' \<and> (tty_cursorx t', tty_cursory t') = next_cursor c t"
proof (cases "c = 9 \<or> c = 8")
  case True
  then obtain u where "tty_set_cursor_pos_xy dev (fst (next_cursor c t)) (snd (next_cursor c t)) u = Some t'" "same_size t u"
    using assms unfolding tty_putchar_raw_def
    by (subst (asm) tty_exec.simps) (auto simp: next_cursor_def same_size_def Let_def split: if_splits)
  from set_cursor_result [OF this(1)] this(2) show ?thesis by (simp add: same_size_def)
next
  case False
  then obtain u where u: "newline_with tty_exec dev c t = Some u"
    "tty_set_cursor_pos_xy dev (tty_cursorx (put_glyph dev c u)) (tty_cursory (put_glyph dev c u)) (put_glyph dev c u) = Some t'"
    using assms by (auto simp: putchar_raw_visible bind_eq_Some_conv Let_def)
  note n = newline_with_result [OF u(1) exec_sizes]
  show ?thesis
    using n set_cursor_result [OF u(2)] put_glyph_fields [where t = u and dev = dev and c = c] False
    by (simp add: next_cursor_def same_size_def Let_def)
qed

lemma set_cursor_returns:
  assumes "sint y \<noteq> - (2 ^ 31)"
  shows "\<exists>t'. tty_set_cursor_pos_xy dev x y t = Some t'"
  by (rule set_cursor_xy [OF assms, of dev x t]) (rule exI)

text \<open>A character that need not scroll is drawn: such a call returns.\<close>

lemma putchar_raw_returns:
  assumes "\<not> (c = 10 \<or> c \<noteq> 8 \<and> c \<noteq> 9 \<and> tty_cursorx t = tty_width t) \<or> tty_cursory t \<noteq> tty_height t - 1"
    and "sint (snd (next_cursor c t)) \<noteq> - (2 ^ 31)"
  shows "\<exists>t'. tty_putchar_raw dev c t = Some t'"
proof (cases "c = 9 \<or> c = 8")
  case True
  have "\<exists>t'. tty_set_cursor_pos_xy dev x (tty_cursory t) u = Some t'" for x u
    by (rule set_cursor_returns) (use True assms(2) in \<open>auto simp: next_cursor_def\<close>)
  then show ?thesis using True unfolding tty_putchar_raw_def
    by (subst tty_exec.simps) (auto simp: Let_def)
next
  case False
  then have "\<exists>u. newline_with tty_exec dev c t = Some u"
    using assms(1) by (auto simp: newline_with_def Let_def)
  then obtain u where u: "newline_with tty_exec dev c t = Some u" ..
  have "tty_cursory (put_glyph dev c u) = snd (next_cursor c t)"
    using newline_with_result(3) [OF u exec_sizes] put_glyph_fields(2) [where t = u and dev = dev and c = c] False
    by (simp add: next_cursor_def Let_def)
  then have "\<exists>t'. tty_set_cursor_pos_xy dev (tty_cursorx (put_glyph dev c u)) (tty_cursory (put_glyph dev c u)) (put_glyph dev c u) = Some t'"
    using assms(2) by (intro set_cursor_returns) simp
  then show ?thesis using u False by (simp add: putchar_raw_visible Let_def)
qed

lemma next_cursor_tab:
  assumes "tty_at w h t" and "0 < w" and "w < 2 ^ 31"
  defines "x \<equiv> unat (tty_cursorx t)" and "stop \<equiv> 8 * (unat (tty_cursorx t) div 8) + 7"
  shows "tty_tab_loop (tty_cursorx t) = of_nat stop" "unat (of_nat stop :: u32) = stop"
    "stop < 2 ^ 31 + 8" "of_nat stop < tty_width t - 1 \<longleftrightarrow> stop + 1 < w" "tty_cursorx t = tty_width t \<longleftrightarrow> x = w"
proof -
  have at: "tty_width t = of_nat w" "x \<le> w" using assms(1) by (simp_all add: tty_at_def x_def)
  have n: "unat (of_nat k :: u32) = k" if "k < 2 ^ 31 + 8" for k
    using that by (simp add: unat_of_nat take_bit_nat_eq_self)
  show stop: "stop < 2 ^ 31 + 8"
    using at(2) assms(3) times_div_less_eq_dividend [of 8 x] unfolding stop_def x_def by linarith
  then show ns: "unat (of_nat stop :: u32) = stop" by (rule n)
  show "tty_tab_loop (tty_cursorx t) = of_nat stop"
    using tab_loop_value [of "tty_cursorx t"] ns by (simp add: stop_def word_unat_eq_iff)
  have "unat (tty_width t - 1) = w - 1"
    using at(1) assms(2,3) n [of w] by (metis le_add1 less_le_trans unat_0 unat_minus_one not_less_zero)
  then show "of_nat stop < tty_width t - 1 \<longleftrightarrow> stop + 1 < w" using ns by (auto simp: word_less_nat_alt)
  show "tty_cursorx t = tty_width t \<longleftrightarrow> x = w"
    using n [of w] assms(3) at(1) by (simp add: x_def word_unat_eq_iff)
qed

lemma next_cursor_numbers:
  assumes "tty_at w h t" and "0 < w" and "w < 2 ^ 31" and "h < 2 ^ 31"
  defines "x \<equiv> unat (tty_cursorx t)" and "y \<equiv> unat (tty_cursory t)" and "stop \<equiv> 8 * (unat (tty_cursorx t) div 8) + 7"
  shows "unat (fst (next_cursor c t)) =
      (if c = 9 then (if stop + 1 < w then stop + 1 else stop)
       else if c = 8 then x - 1 else if c = 10 then 0 else if x = w then 1 else x + 1)"
    "unat (snd (next_cursor c t)) = (if (c = 10 \<or> c \<noteq> 8 \<and> c \<noteq> 9 \<and> x = w) \<and> y + 1 < h then y + 1 else y)"
    "tty_cursory t = tty_height t - 1 \<longleftrightarrow> y + 1 = h"
proof -
  note tab = next_cursor_tab [OF assms(1-3), folded x_def stop_def]
  have at: "tty_height t = of_nat h" "x \<le> w" "y < h" using assms(1) by (simp_all add: tty_at_def x_def y_def)
  have inc: "unat (tty_cursorx t + 1) = x + 1" "unat (tty_cursory t + 1) = y + 1" "unat (of_nat (stop + 1) :: u32) = stop + 1"
    using at(2,3) assms(3,4) tab(3) by (simp_all add: x_def y_def unat_word_ariths unat_of_nat take_bit_nat_eq_self)
  have "unat (tty_height t - 1) = h - 1"
    using at(1,3) assms(4) unat_minus_one [of "tty_height t"]
    by (auto simp: unat_of_nat take_bit_nat_eq_self word_unat_eq_iff)
  then show row: "tty_cursory t = tty_height t - 1 \<longleftrightarrow> y + 1 = h"
    using at(3) by (auto simp: word_unat_eq_iff y_def)
  have "fst (next_cursor c t) =
      (if c = 9 then (if stop + 1 < w then of_nat (stop + 1) else of_nat stop)
       else if c = 8 then (if tty_cursorx t = 0 then 0 else tty_cursorx t - 1)
       else if c = 10 then 0 else if x = w then 1 else tty_cursorx t + 1)"
    using tab by (simp add: next_cursor_def Let_def add.commute)
  then show "unat (fst (next_cursor c t)) =
      (if c = 9 then (if stop + 1 < w then stop + 1 else stop)
       else if c = 8 then x - 1 else if c = 10 then 0 else if x = w then 1 else x + 1)"
    using inc tab(2) by (auto simp: x_def unat_minus_one)
  show "unat (snd (next_cursor c t)) = (if (c = 10 \<or> c \<noteq> 8 \<and> c \<noteq> 9 \<and> x = w) \<and> y + 1 < h then y + 1 else y)"
    using tab(5) row at(3) inc(2) by (auto simp: next_cursor_def Let_def y_def)
qed

lemma next_row_defined:
  assumes "tty_at w h t" and "0 < w" and "w < 2 ^ 31" and "h < 2 ^ 31"
  shows "sint (snd (next_cursor c t)) \<noteq> - (2 ^ 31)"
proof -
  have "unat (snd (next_cursor c t)) < 2 ^ 31"
    unfolding next_cursor_numbers(2) [OF assms] using assms by (auto simp: tty_at_def)
  from sint_small [OF this] show ?thesis by simp
qed

text \<open>A character behind the end of the line is drawn there.\<close>

lemma putchar_raw_beyond:
  assumes "tty_cursorx t \<noteq> tty_width t" and "c \<noteq> 9" and "c \<noteq> 8" and "c \<noteq> 10" and "sint (tty_cursory t) \<noteq> - (2 ^ 31)"
  shows "\<exists>t'. tty_putchar_raw dev c t = Some t' \<and>
    tty_screen t' = dev_set_cursor dev (tty_cursorx t + 1) (tty_cursory t)
      (dev_put_char dev (tty_cursorx t) (tty_cursory t) c (tty_screen t))"
proof -
  obtain t' where t': "tty_set_cursor_pos_xy dev (tty_cursorx t + 1) (tty_cursory t) (put_glyph dev c t) = Some t'"
    using set_cursor_returns [OF assms(5)] by blast
  then have "tty_screen t' = dev_set_cursor dev (tty_cursorx t + 1) (tty_cursory t) (tty_screen (put_glyph dev c t))"
    by (auto simp: tty_set_cursor_pos_xy_def bind_eq_Some_conv Let_def)
  moreover have "tty_putchar_raw dev c t = Some t'"
    using t' assms put_glyph_fields [where t = t and dev = dev and c = c]
    by (simp add: putchar_raw_visible newline_with_def Let_def)
  ultimately show ?thesis using assms(4) by (simp add: put_glyph_def)
qed

text \<open>
  C37.  Where \<open>tty_putchar_raw\<close> leaves the cursor, on every row, from a cursor on the screen or one
  place behind the end of its line.  Any call that returns moves it to the column and the row
  stated (a new line in the last row scrolls and stays there); a call that need not scroll does
  return.  The cursor is on the screen or one place behind its line again, except after a tab whose
  stop lies behind that place.  Such a tab moves the cursor past the width, where the test for the
  end of the line no longer sees it: a character printed then is drawn outside the line.
\<close>
theorem tty_putchar_raw_column:
  fixes c :: u8
  assumes "tty_at w h t" and "0 < w" and "w < 2 ^ 31" and "h < 2 ^ 31"
  defines "x \<equiv> unat (tty_cursorx t)" and "y \<equiv> unat (tty_cursory t)"
    and "stop \<equiv> 8 * (unat (tty_cursorx t) div 8) + 7"
    and "breaks \<equiv> c = 10 \<or> c \<noteq> 8 \<and> c \<noteq> 9 \<and> unat (tty_cursorx t) = w"
  shows "(\<forall>t'. tty_putchar_raw dev c t = Some t' \<longrightarrow>
      unat (tty_cursorx t') =
        (if c = 9 then (if stop + 1 < w then stop + 1 else stop)
         else if c = 8 then x - 1 else if c = 10 then 0 else if x = w then 1 else x + 1) \<and>
      unat (tty_cursory t') = (if breaks \<and> y + 1 < h then y + 1 else y) \<and>
      (tty_at w h t' \<longleftrightarrow> (if c = 9 then stop \<le> w else True)) \<and>
      (c = 9 \<and> w < stop \<longrightarrow> (\<exists>t2. tty_putchar_raw dev 65 t' = Some t2 \<and>
         tty_screen t2 = dev_set_cursor dev (of_nat (stop + 1)) (tty_cursory t)
           (dev_put_char dev (of_nat stop) (tty_cursory t) 65 (tty_screen t'))))) \<and>
    (\<not> breaks \<or> y + 1 < h \<longrightarrow> (\<exists>t'. tty_putchar_raw dev c t = Some t'))"
proof (intro conjI allI impI)
  note nums = next_cursor_numbers [OF assms(1-4), folded x_def y_def stop_def]
  note tab = next_cursor_tab [OF assms(1-3), folded x_def stop_def]
  have at: "tty_width t = of_nat w" "tty_height t = of_nat h" "x \<le> w" "y < h"
    using assms(1) by (simp_all add: tty_at_def x_def y_def)
  show "\<exists>t'. tty_putchar_raw dev c t = Some t'" if "\<not> breaks \<or> y + 1 < h"
    using that nums(3) tab(5) by (intro putchar_raw_returns next_row_defined [OF assms(1-4)]) (auto simp: breaks_def x_def)
  fix t' assume t': "tty_putchar_raw dev c t = Some t'"
  have s: "same_size t t'" "tty_cursorx t' = fst (next_cursor c t)" "tty_cursory t' = snd (next_cursor c t)"
    using putchar_raw_cursor [OF t'] by (auto simp: prod_eq_iff)
  show col: "unat (tty_cursorx t') =
        (if c = 9 then (if stop + 1 < w then stop + 1 else stop)
         else if c = 8 then x - 1 else if c = 10 then 0 else if x = w then 1 else x + 1)"
    unfolding s(2) by (rule nums(1))
  show row: "unat (tty_cursory t') = (if breaks \<and> y + 1 < h then y + 1 else y)"
    unfolding s(3) nums(2) by (simp add: breaks_def x_def)
  show "tty_at w h t' \<longleftrightarrow> (if c = 9 then stop \<le> w else True)"
    using s(1) at assms(2) unfolding tty_at_def col row same_size_def by auto
  assume far: "c = 9 \<and> w < stop"
  then have e: "tty_cursorx t' = of_nat stop" "tty_cursory t' = tty_cursory t"
    using s(2,3) tab by (simp_all add: next_cursor_def Let_def)
  have w: "unat (of_nat w :: u32) = w" using assms(3) by (simp add: unat_of_nat take_bit_nat_eq_self)
  have "tty_cursorx t' \<noteq> tty_width t'"
  proof
    assume "tty_cursorx t' = tty_width t'"
    then have "(of_nat stop :: u32) = of_nat w" using e(1) s(1) at(1) by (simp add: same_size_def)
    then show False using tab(2) w far by simp
  qed
  moreover have "sint (tty_cursory t') \<noteq> - (2 ^ 31)"
    using next_row_defined [OF assms(1-4), of c] s(3) by simp
  moreover have "(65 :: u8) \<noteq> 9" "(65 :: u8) \<noteq> 8" "(65 :: u8) \<noteq> 10" by simp_all
  ultimately show "\<exists>t2. tty_putchar_raw dev 65 t' = Some t2 \<and>
         tty_screen t2 = dev_set_cursor dev (of_nat (stop + 1)) (tty_cursory t)
           (dev_put_char dev (of_nat stop) (tty_cursory t) 65 (tty_screen t'))"
    using putchar_raw_beyond [of t' 65 dev] e by (simp only: of_nat_add of_nat_1) blast
qed

theorem tty_putchar_raw_column_witness:
  "\<exists>t'. tty_putchar_raw (vbe_ttyd_functions (\<lambda>_. 0)) 9 (example_tty\<lparr>tty_cursorx := 80\<rparr>) = Some t' \<and> unat (tty_cursorx t') = 87 \<and>
     \<not> tty_at 80 25 t'"
proof -
  have at: "tty_at 80 25 (example_tty\<lparr>tty_cursorx := 80\<rparr>)" by (simp add: tty_at_def example_tty_def)
  from tty_putchar_raw_column [OF at, of "vbe_ttyd_functions (\<lambda>_. 0)" 9]
  show ?thesis by auto
qed

end
