(* ===== verification/Keyboard.thy ===== *)
theory Keyboard
  imports CircBuf Access Pic
begin

text \<open>
  The keyboard driver, \<open>kernel/device/kb.c\<close> and \<open>kb.h\<close>.  The interrupt handler puts scan codes into
  a ring buffer, \<open>kb_getchar\<close> takes them out and translates them.  The state is the array of the
  keys held down, the three locks and the queue with the memory it lives in.

  \<open>kb_getchar\<close> spins on an empty queue until an interrupt changes it.  Two views of this: the loop
  itself as a partial function whose environment changes the keyboard between two rounds, and
  sequences of events (a scan code arrives, the loop goes round once), for which \<open>kb_decode\<close>, a
  function on scan codes without queue or memory, is the specification.
\<close>

subsection \<open>Keys\<close>

definition KB_PS2_DATA :: u16 where "KB_PS2_DATA = 0x60"
definition KB_CONTROL :: int where "KB_CONTROL = 128"
definition KB_OPTION :: int where "KB_OPTION = 129"
definition KB_LEFT_COMMAND :: int where "KB_LEFT_COMMAND = 130"
definition KB_RIGHT_COMMAND :: int where "KB_RIGHT_COMMAND = 131"
definition KB_LEFT_SHIFT :: int where "KB_LEFT_SHIFT = 132"
definition KB_RIGHT_SHIFT :: int where "KB_RIGHT_SHIFT = 133"
definition KB_CAPS_LOCK :: int where "KB_CAPS_LOCK = 134"
definition KB_NUM_LOCK :: int where "KB_NUM_LOCK = 135"
definition KB_SCROLL_LOCK :: int where "KB_SCROLL_LOCK = 136"
definition KB_INSERT :: int where "KB_INSERT = 137"
definition KB_DELETE :: int where "KB_DELETE = 138"
definition KB_ESC :: int where "KB_ESC = 139"
definition KB_HOME :: int where "KB_HOME = 140"
definition KB_END :: int where "KB_END = 141"
definition KB_PAGE_UP :: int where "KB_PAGE_UP = 142"
definition KB_PAGE_DOWN :: int where "KB_PAGE_DOWN = 143"
definition KB_RIGHT_ARROW :: int where "KB_RIGHT_ARROW = 144"
definition KB_UP_ARROW :: int where "KB_UP_ARROW = 145"
definition KB_LEFT_ARROW :: int where "KB_LEFT_ARROW = 146"
definition KB_DOWN_ARROW :: int where "KB_DOWN_ARROW = 147"
definition KB_F1 :: int where "KB_F1 = 148"
definition KB_F2 :: int where "KB_F2 = 149"
definition KB_F3 :: int where "KB_F3 = 150"
definition KB_F4 :: int where "KB_F4 = 151"
definition KB_F5 :: int where "KB_F5 = 152"
definition KB_F6 :: int where "KB_F6 = 153"
definition KB_F7 :: int where "KB_F7 = 154"
definition KB_F8 :: int where "KB_F8 = 155"
definition KB_F9 :: int where "KB_F9 = 156"
definition KB_F10 :: int where "KB_F10 = 157"
definition KB_F11 :: int where "KB_F11 = 158"
definition KB_F12 :: int where "KB_F12 = 159"

text \<open>
  \<open>kb_us_layout\<close>: a row of ten keys to a line and a half; the upper half holds the characters typed
  with shift.
\<close>

definition kb_us_layout :: "int list" where
  "kb_us_layout =
    [0, 139, 49, 50, 51, 52, 53, 54, 55, 56, 57, 48, 45, 61, 8, 9, 113, 119, 101, 114, 116,
     121, 117, 105, 111, 112, 91, 93, 10, 128, 97, 115, 100, 102, 103, 104, 106, 107, 108, 59,
     39, 96, 132, 92, 122, 120, 99, 118, 98, 110, 109, 44, 46, 47, 133, 42, 129, 32, 134, 148,
     149, 150, 151, 152, 153, 154, 155, 156, 157, 135, 136, 140, 145, 142, 45, 146, 0, 144, 43,
     141, 147, 143, 137, 138, 0, 0, 0, 158, 159, 0, 0, 130, 131, 0, 0, 0, 0, 0, 0, 0, 0, 0, 0,
     0, 0, 0, 0, 0, 0, 0, 0, 0, 0, 0, 0, 0, 0, 0, 0, 0, 0, 0, 0, 0, 0, 0, 0, 0, 0, 139, 33, 64,
     35, 36, 37, 94, 38, 42, 40, 41, 95, 43, 8, 9, 81, 87, 69, 82, 84, 89, 85, 73, 79, 80, 123,
     125, 10, 128, 65, 83, 68, 70, 71, 72, 74, 75, 76, 58, 34, 126, 132, 124, 90, 88, 67, 86,
     66, 78, 77, 60, 62, 63, 133, 42, 129, 32, 134, 148, 149, 150, 151, 152, 153, 154, 155,
     156, 157, 135, 136, 140, 145, 142, 45, 146, 0, 144, 43, 141, 147, 143, 137, 138, 0, 0, 0,
     158, 159, 0, 0, 130, 131, 0, 0, 0, 0, 0, 0, 0, 0, 0, 0, 0, 0, 0, 0, 0, 0, 0, 0, 0, 0, 0,
     0, 0, 0, 0, 0, 0, 0, 0, 0, 0, 0, 0, 0, 0]"

subsection \<open>State and operations\<close>

record kb_keys =
  kb_pressed :: "int \<Rightarrow> bool"
  kb_num_lock :: bool
  kb_caps_lock :: bool
  kb_scroll_lock :: bool

record keyboard = kb_keys +
  kb_event_queue :: cb_state

definition kb_is_pressed :: "'k kb_keys_scheme \<Rightarrow> int \<Rightarrow> bool" where
  "kb_is_pressed kb ch \<longleftrightarrow> kb_pressed kb ch"

definition kb_is_released :: "'k kb_keys_scheme \<Rightarrow> int \<Rightarrow> bool" where
  "kb_is_released kb ch \<longleftrightarrow> \<not> kb_pressed kb ch"

definition kb_set_pressed :: "int \<Rightarrow> 'k kb_keys_scheme \<Rightarrow> 'k kb_keys_scheme" where
  "kb_set_pressed ch kb = kb\<lparr>kb_pressed := (kb_pressed kb)(ch := True)\<rparr>"

definition kb_set_released :: "int \<Rightarrow> 'k kb_keys_scheme \<Rightarrow> 'k kb_keys_scheme" where
  "kb_set_released ch kb = kb\<lparr>kb_pressed := (kb_pressed kb)(ch := False)\<rparr>"

text \<open>
  The queue is allocated by \<open>circ_buf_new\<close>, whose \<open>malloc\<close> is an argument.  The pending scan code
  is read and thrown away.
\<close>

definition kb_init ::
  "('h \<Rightarrow> u64 \<Rightarrow> ptr \<times> 'h) \<Rightarrow> 'd ports \<Rightarrow> mem \<Rightarrow> keyboard \<Rightarrow> 'h \<Rightarrow> 'd \<Rightarrow> (ptr \<times> keyboard \<times> 'h \<times> 'd) result" where
  "kb_init malloc P m kb h d =
     (let ((p, cb), h) = circ_buf_new malloc h 16 1
      in bind_result (pic_enable_irq P PIC_KEYBOARD_IRQ d) (\<lambda>d.
         let (scan, d) = inb P KB_PS2_DATA d
         in Inr (p, kb\<lparr>kb_event_queue := (m, cb)\<rparr>, h, pic_eoi P PIC_KEYBOARD_IRQ d)))"

definition kb_readscan :: "'d ports \<Rightarrow> 'd \<Rightarrow> u32 \<times> 'd" where
  "kb_readscan P d = (let (scan, d) = inb P KB_PS2_DATA d in (ucast scan, d))"

text \<open>
  The handler's \<open>int scan\<close> is four bytes of its stack, at \<open>sp\<close>; the queue takes the first one.
\<close>

definition store_int :: "ptr \<Rightarrow> u32 \<Rightarrow> mem \<Rightarrow> mem" where
  "store_int p v m = poke m p [ucast v, ucast (drop_bit 8 v), ucast (drop_bit 16 v), ucast (drop_bit 24 v)]"

definition kb_enqueue_scan :: "ptr \<Rightarrow> u32 \<Rightarrow> keyboard \<Rightarrow> keyboard option" where
  "kb_enqueue_scan sp scan kb =
     do { let (m, cb) = kb_event_queue kb;
          q \<leftarrow> circ_buf_enqueue (store_int sp scan m, cb) sp;
          Some (kb\<lparr>kb_event_queue := q\<rparr>) }"

definition kb_enqueue_event :: "'d ports \<Rightarrow> ptr \<Rightarrow> keyboard \<Rightarrow> 'd \<Rightarrow> (keyboard \<times> 'd) option" where
  "kb_enqueue_event P sp kb d =
     do { let (scan, d) = kb_readscan P d;
          kb \<leftarrow> kb_enqueue_scan sp scan kb;
          Some (kb, d) }"

text \<open>The queue's elements are bytes, the event is read as an \<open>int\<close>: the three bytes behind it come along.\<close>

definition kb_dequeue_event :: "keyboard \<Rightarrow> (u32 \<times> keyboard) option" where
  "kb_dequeue_event kb =
     do { (p, q) \<leftarrow> circ_buf_dequeue (kb_event_queue kb);
          Some (mem_read_32 (fst q) p, kb\<lparr>kb_event_queue := q\<rparr>) }"

definition kb_scan2release :: "u32 \<Rightarrow> u32" where
  "kb_scan2release scan = scan AND 0x80"

definition kb_scan2ch :: "'k kb_keys_scheme \<Rightarrow> u32 \<Rightarrow> int" where
  "kb_scan2ch kb scan =
     (let scan_offset = unat (scan AND 0x7F)
      in if kb_is_pressed kb KB_LEFT_SHIFT \<or> kb_is_pressed kb KB_RIGHT_SHIFT \<or> kb_caps_lock kb
         then kb_us_layout ! (scan_offset + 128)
         else kb_us_layout ! scan_offset)"

text \<open>What \<open>kb_getchar\<close> does with an event: the character it returns, if it returns one.\<close>

definition kb_handle_event :: "u32 \<Rightarrow> 'k kb_keys_scheme \<Rightarrow> int option \<times> 'k kb_keys_scheme" where
  "kb_handle_event scan kb =
     (let ch = kb_scan2ch kb scan
      in if kb_scan2release scan \<noteq> 0 then (None, kb_set_released ch kb)
         else if kb_is_released kb ch
         then (let kb = kb_set_pressed ch kb
               in (Some ch,
                   if ch = KB_NUM_LOCK then kb\<lparr>kb_num_lock := \<not> kb_num_lock kb\<rparr>
                   else if ch = KB_CAPS_LOCK then kb\<lparr>kb_caps_lock := \<not> kb_caps_lock kb\<rparr>
                   else if ch = KB_SCROLL_LOCK then kb\<lparr>kb_scroll_lock := \<not> kb_scroll_lock kb\<rparr>
                   else kb))
         else (Some ch, kb))"

text \<open>One round of the loop of \<open>kb_getchar\<close>.\<close>

definition kb_poll :: "keyboard \<Rightarrow> (int option \<times> keyboard) option" where
  "kb_poll kb =
     (if cb_size (snd (kb_event_queue kb)) > 0
      then do { (scan, kb) \<leftarrow> kb_dequeue_event kb; Some (kb_handle_event scan kb) }
      else Some (None, kb))"

text \<open>\<open>env t\<close> is what the interrupts between round \<open>t - 1\<close> and round \<open>t\<close> do to the keyboard.\<close>

partial_function (option) kb_getchar ::
  "(nat \<Rightarrow> keyboard \<Rightarrow> keyboard option) \<Rightarrow> nat \<Rightarrow> keyboard \<Rightarrow> (int \<times> keyboard) option" where
  "kb_getchar env t kb =
     do { kb \<leftarrow> env t kb;
          (r, kb) \<leftarrow> kb_poll kb;
          case r of Some ch \<Rightarrow> Some (ch, kb) | None \<Rightarrow> kb_getchar env (t + 1) kb }"

subsection \<open>Events and the specification\<close>

datatype kb_event = Scan u8 | Poll

fun kb_step :: "ptr \<Rightarrow> kb_event \<Rightarrow> keyboard \<Rightarrow> (int list \<times> keyboard) option" where
  "kb_step sp (Scan c) kb = do { kb \<leftarrow> kb_enqueue_scan sp (ucast c) kb; Some ([], kb) }"
| "kb_step sp Poll kb =
     do { (r, kb) \<leftarrow> kb_poll kb; Some (case r of None \<Rightarrow> [] | Some ch \<Rightarrow> [ch], kb) }"

primrec kb_run :: "ptr \<Rightarrow> kb_event list \<Rightarrow> keyboard \<Rightarrow> (int list \<times> keyboard) option" where
  "kb_run sp [] kb = Some ([], kb)"
| "kb_run sp (e # es) kb =
     do { (cs, kb) \<leftarrow> kb_step sp e kb; (cs', kb) \<leftarrow> kb_run sp es kb; Some (cs @ cs', kb) }"

primrec kb_decode :: "u8 list \<Rightarrow> 'k kb_keys_scheme \<Rightarrow> int list \<times> 'k kb_keys_scheme" where
  "kb_decode [] kb = ([], kb)"
| "kb_decode (c # cs) kb =
     (case kb_handle_event (ucast c) kb of (r, kb) \<Rightarrow>
      case kb_decode cs kb of (chs, kb) \<Rightarrow> ((case r of None \<Rightarrow> chs | Some ch \<Rightarrow> ch # chs), kb))"

definition scan_codes :: "kb_event list \<Rightarrow> u8 list" where
  "scan_codes es = concat (map (\<lambda>e. case e of Scan c \<Rightarrow> [c] | Poll \<Rightarrow> []) es)"

text \<open>\<open>keeps_up c n es\<close>: with \<open>n\<close> codes waiting, the queue of \<open>c\<close> places never overflows.\<close>

fun keeps_up :: "nat \<Rightarrow> nat \<Rightarrow> kb_event list \<Rightarrow> bool" where
  "keeps_up c n [] \<longleftrightarrow> True"
| "keeps_up c n (Scan _ # es) \<longleftrightarrow> n < c \<and> keeps_up c (Suc n) es"
| "keeps_up c n (Poll # es) \<longleftrightarrow> keeps_up c (n - 1) es"

lemma length_layout [simp]: "length kb_us_layout = 256"
  by (simp add: kb_us_layout_def)

subsection \<open>The queue of scan codes\<close>

lemma items_cong:
  assumes "cb_inv (m, cb)" and "\<And>a. a \<in> cb_region cb \<Longrightarrow> m' a = m a"
  shows "items (m', cb) = items (m, cb)"
proof -
  have "cb_entry m' cb j = cb_entry m cb j" if "j < unat (cb_capacity cb)" for j
    unfolding cb_entry_def using slot_region [OF that] assms(2) by (intro bytes_cong) blast
  moreover have "0 < unat (cb_capacity cb)" using assms(1) by (simp add: cb_ok_def)
  ultimately show ?thesis by simp
qed

definition codes :: "keyboard \<Rightarrow> u8 list" where
  "codes kb = map hd (items (kb_event_queue kb))"

definition kb_ok :: "ptr \<Rightarrow> keyboard \<Rightarrow> bool" where
  "kb_ok sp kb \<longleftrightarrow> cb_inv (kb_event_queue kb) \<and> cb_granularity (snd (kb_event_queue kb)) = 1 \<and>
     region sp 4 \<inter> cb_region (snd (kb_event_queue kb)) = {}"

definition kb_room :: "keyboard \<Rightarrow> nat" where
  "kb_room kb = limit (kb_event_queue kb)"

definition keys :: "keyboard \<Rightarrow> kb_keys" where
  "keys kb = kb_keys.truncate kb"

lemma store_int_simps:
  "store_int sp v m sp = ucast v" "a \<notin> region sp 4 \<Longrightarrow> store_int sp v m a = m a"
proof -
  have "sp \<noteq> sp + 1" "sp \<noteq> sp + 1 + 1" "sp \<noteq> sp + 1 + 1 + 1"
    using ptr_add_eq_iff [of 0 1 sp] ptr_add_eq_iff [of 0 2 sp] ptr_add_eq_iff [of 0 3 sp] by simp_all
  then show "store_int sp v m sp = ucast v" by (simp add: store_int_def)
  have "region sp 4 = {sp, sp + 1, sp + 2, sp + 3}"
    by (simp add: region_def numeral_eq_Suc lessThan_Suc insert_commute)
  then show "store_int sp v m a = m a" if "a \<notin> region sp 4"
    using that by (simp add: store_int_def add.commute)
qed

lemma kb_enqueue_scan_ok:
  assumes "kb_ok sp kb" and "length (codes kb) < kb_room kb"
  shows "\<exists>kb'. kb_enqueue_scan sp (ucast (c :: u8)) kb = Some kb' \<and> kb_ok sp kb' \<and> kb_room kb' = kb_room kb \<and>
    codes kb' = codes kb @ [c] \<and> keys kb' = keys kb"
proof -
  obtain m cb where q: "kb_event_queue kb = (m, cb)" by fastforce
  let ?m = "store_int sp (ucast c) m"
  have ok: "cb_inv (m, cb)" "cb_granularity cb = 1" "region sp 4 \<inter> cb_region cb = {}"
    using assms(1) by (simp_all add: kb_ok_def q)
  have "items (?m, cb) = items (m, cb)"
    using ok by (intro items_cong store_int_simps(2)) auto
  moreover have "cb_inv (?m, cb)" using ok(1) by simp
  moreover have "separate (?m, cb) sp"
    using ok(2,3) region_mono [of 1 4 sp] by auto
  moreover have "val_at (?m, cb) sp = [c]"
    by (simp add: ok(2) bytes_def store_int_simps(1)) (rule bit_word_eqI, auto simp: bit_simps dest: bit_imp_le_length)
  ultimately obtain m' cb' where e: "circ_buf_enqueue (?m, cb) sp = Some (m', cb')" "same_geometry cb cb'"
    "cb_inv (m', cb')" "items (m', cb') = suffix_of (unat (cb_capacity cb)) (items (m, cb) @ [[c]])"
    using enqueue_tail_refines [of "(?m, cb)" sp] by (auto simp: circ_buf_enqueue_def simp del: cb_inv.simps items.simps)
  have "length (items (m, cb)) < unat (cb_capacity cb)"
    using assms(2) by (simp add: codes_def kb_room_def q)
  then have "items (m', cb') = items (m, cb) @ [[c]]" using e(4) by (simp del: items.simps)
  then show ?thesis
    using e(1,2,3) ok by (simp add: kb_enqueue_scan_def q kb_ok_def codes_def kb_room_def keys_def
        kb_keys.truncate_def same_geometry_simps(2) del: items.simps cb_inv.simps) (simp add: same_geometry_def)
qed

text \<open>Only the lowest byte of what \<open>kb_dequeue_event\<close> reads matters.\<close>

lemma mem_read_32_low: "take_bit 8 (mem_read_32 m p) = ucast (m p)"
proof -
  let ?y = "ucast (m (p + 1)) + 2 ^ 8 * ucast (m (p + 2)) + 2 ^ 16 * ucast (m (p + 3)) :: u32"
  have "mem_read_32 m p = ucast (m p) + push_bit 8 ?y"
    by (simp add: mem_read_32_def push_bit_eq_mult algebra_simps)
  also have "\<dots> = ucast (m p) OR push_bit 8 ?y"
    by (rule disjunctive_add) (auto simp: bit_simps dest: bit_imp_le_length)
  finally show ?thesis
    by (simp only:) (rule bit_word_eqI, auto simp: bit_simps dest: bit_imp_le_length)
qed

lemma kb_handle_event_low: "kb_handle_event (mem_read_32 m p) kb = kb_handle_event (ucast (m p)) kb"
proof -
  have low: "v AND x = take_bit 8 v AND x" if "x = take_bit 8 x" for v x :: u32
    by (metis and.assoc and.commute take_bit_eq_mask that)
  have "mem_read_32 m p AND 0x7F = ucast (m p) AND 0x7F" "mem_read_32 m p AND 0x80 = ucast (m p) AND 0x80"
    using low [of "0x7F" "mem_read_32 m p"] low [of "0x80" "mem_read_32 m p"] mem_read_32_low [of m p]
    by simp_all
  then show ?thesis by (simp add: kb_handle_event_def kb_scan2ch_def kb_scan2release_def)
qed

text \<open>Handling an event neither looks at the queue nor touches it.\<close>

lemma kb_handle_event_keys:
  "kb_handle_event scan (keys kb) = map_prod id keys (kb_handle_event scan kb)"
  "kb_event_queue (snd (kb_handle_event scan kb)) = kb_event_queue kb"
  by (cases kb; simp add: kb_handle_event_def kb_scan2ch_def keys_def kb_keys.defs kb_is_pressed_def
      kb_is_released_def kb_set_pressed_def kb_set_released_def Let_def)+

lemma kb_poll_empty: "codes kb = [] \<Longrightarrow> kb_poll kb = Some (None, kb)"
  by (cases "kb_event_queue kb") (simp add: codes_def kb_poll_def unat_eq_zero)

lemma kb_poll_code:
  assumes "kb_ok sp kb" and "codes kb = c # cs"
  shows "\<exists>r kb'. kb_poll kb = Some (r, kb') \<and> kb_ok sp kb' \<and> kb_room kb' = kb_room kb \<and> codes kb' = cs \<and>
    kb_handle_event (ucast c) (keys kb) = (r, keys kb')"
proof -
  obtain m cb where q: "kb_event_queue kb = (m, cb)" by fastforce
  have ok: "cb_inv (m, cb)" "cb_granularity cb = 1" "region sp 4 \<inter> cb_region cb = {}"
    using assms(1) by (simp_all add: kb_ok_def q)
  obtain x xs where xs: "items (m, cb) = x # xs" "c = hd x" "cs = map hd xs"
    using assms(2) by (auto simp: codes_def q simp del: items.simps)
  from dequeue_head_refines [OF ok(1) xs(1)] obtain p cb' where
    e: "circ_buf_dequeue (m, cb) = Some (p, m, cb')" "same_geometry cb cb'" "cb_inv (m, cb')"
      "val_at (m, cb') p = x" "items (m, cb') = xs"
    unfolding circ_buf_dequeue_def by (auto simp del: cb_inv.simps items.simps val_at.simps circ_buf_dequeue_head.simps)
  have "m p = c" using e(2,4) ok(2) xs(2) by (auto simp: same_geometry_def bytes_def)
  have "0 < cb_size cb" using arg_cong [OF xs(1), of length] by (simp add: word_less_nat_alt)
  let ?kb = "kb\<lparr>kb_event_queue := (m, cb')\<rparr>"
  obtain r kb' where h: "kb_handle_event (mem_read_32 m p) ?kb = (r, kb')" by fastforce
  have poll: "kb_poll kb = Some (r, kb')"
    using \<open>0 < cb_size cb\<close> e(1) h by (simp add: kb_poll_def q kb_dequeue_event_def)
  have q': "kb_event_queue kb' = (m, cb')" using kb_handle_event_keys(2) [of "mem_read_32 m p" ?kb] by (simp add: h)
  have "keys ?kb = keys kb" by (simp add: keys_def kb_keys.defs)
  then have "kb_handle_event (ucast c) (keys kb) = (r, keys kb')"
    using kb_handle_event_keys(1) [of "ucast c" ?kb] h \<open>m p = c\<close> by (simp add: kb_handle_event_low)
  moreover have "kb_ok sp kb' \<and> kb_room kb' = kb_room kb"
    using ok e(2,3) by (simp add: kb_ok_def q q' kb_room_def same_geometry_simps(2) del: cb_inv.simps)
      (simp add: same_geometry_def)
  moreover have "codes kb' = cs" using e(5) xs(3) by (simp add: codes_def q' del: items.simps)
  ultimately show ?thesis using poll by blast
qed

text \<open>Any interleaving of interrupts and rounds of the loop decodes the codes in their order.\<close>

lemma kb_decode_append:
  "kb_decode (cs @ cs') kb =
     (case kb_decode cs kb of (chs, kb) \<Rightarrow> case kb_decode cs' kb of (chs', kb) \<Rightarrow> (chs @ chs', kb))"
  by (induction cs arbitrary: kb) (simp_all split: prod.splits option.splits)

lemma kb_run_decodes:
  "kb_ok sp kb \<Longrightarrow> keeps_up (kb_room kb) (length (codes kb)) es \<Longrightarrow>
   \<exists>out kb'. kb_run sp es kb = Some (out, kb') \<and> kb_ok sp kb' \<and> kb_room kb' = kb_room kb \<and>
     (\<exists>handled. codes kb @ scan_codes es = handled @ codes kb' \<and> kb_decode handled (keys kb) = (out, keys kb'))"
proof (induction es arbitrary: kb)
  case Nil
  then show ?case by (simp add: scan_codes_def)
next
  case (Cons e es)
  show ?case
  proof (cases e)
    case (Scan c)
    then obtain k where k: "kb_enqueue_scan sp (ucast c) kb = Some k" "kb_ok sp k" "kb_room k = kb_room kb"
      "codes k = codes kb @ [c]" "keys k = keys kb"
      using kb_enqueue_scan_ok [OF Cons.prems(1), of c] Cons.prems(2) by auto
    then show ?thesis
      using Cons.IH [OF k(2)] Cons.prems(2) Scan by (fastforce simp: scan_codes_def)
  next
    case Poll
    show ?thesis
    proof (cases "codes kb")
      case Nil
      then show ?thesis
        using Cons.IH [OF Cons.prems(1)] Cons.prems(2) Poll kb_poll_empty [OF Nil] by (simp add: scan_codes_def)
    next
      case (Cons c cs)
      obtain r k where k: "kb_poll kb = Some (r, k)" "kb_ok sp k" "kb_room k = kb_room kb" "codes k = cs"
        "kb_handle_event (ucast c) (keys kb) = (r, keys k)"
        using kb_poll_code [OF Cons.prems(1) Cons] by blast
      have "keeps_up (kb_room k) (length (codes k)) es"
        using Cons.prems(2) Poll k(3,4) Cons by simp
      then obtain out kb' handled where h: "kb_run sp es k = Some (out, kb')" "kb_ok sp kb'" "kb_room kb' = kb_room k"
        "codes k @ scan_codes es = handled @ codes kb'" "kb_decode handled (keys k) = (out, keys kb')"
        using Cons.IH [OF k(2)] by blast
      have "kb_run sp (e # es) kb = Some ((case r of None \<Rightarrow> [] | Some ch \<Rightarrow> [ch]) @ out, kb')"
        using Poll k(1) h(1) by simp
      moreover have "codes kb @ scan_codes (e # es) = (c # handled) @ codes kb'"
        using Cons h(4) k(4) Poll by (simp add: scan_codes_def)
      moreover have "kb_decode (c # handled) (keys kb) = ((case r of None \<Rightarrow> [] | Some ch \<Rightarrow> [ch]) @ out, keys kb')"
        using k(5) h(5) by (simp split: option.split)
      ultimately show ?thesis using h(2,3) k(3) by metis
    qed
  qed
qed

subsection \<open>The specification of the driver\<close>

text \<open>Every scan code has a place in the layout, and its key a place in \<open>kb_pressed\<close>.\<close>

lemma scan_offset: "unat (scan AND 0x7F :: u32) < 128"
proof -
  have "scan AND 0x7F = take_bit 7 scan" by (simp add: take_bit_eq_mask mask_eq_exp_minus_1)
  then show ?thesis using take_bit_nat_less_exp [of 7 "unat scan"] by (simp add: unsigned_take_bit_eq)
qed

lemma layout_bounds: "k \<in> set kb_us_layout \<Longrightarrow> 0 \<le> k \<and> k < 160"
  by (simp add: kb_us_layout_def)  auto

lemma kb_scan2ch_bounds: "0 \<le> kb_scan2ch kb scan \<and> kb_scan2ch kb scan < 160"
proof -
  have "kb_us_layout ! (unat (scan AND 0x7F) + 128) \<in> set kb_us_layout"
    "kb_us_layout ! unat (scan AND 0x7F) \<in> set kb_us_layout"
    using scan_offset [of scan] by simp_all
  then show ?thesis using layout_bounds by (simp add: kb_scan2ch_def Let_def)
qed

text \<open>
  The keys from 128 on, the modifiers and locks among them, are the same with and without shift, so
  that such a key is held down exactly when the last of its codes is not a release.
\<close>

lemma layout_halves:
  "list_all2 (\<lambda>a b. a = b \<or> a < 128 \<and> b < 128) (take 128 kb_us_layout) (drop 128 kb_us_layout)"
  by (simp add: kb_us_layout_def)

definition layout_key :: "u8 \<Rightarrow> int" where
  "layout_key c = kb_us_layout ! unat (c AND 0x7F)"

lemma ucast_offset: "unat ((ucast (c :: u8) :: u32) AND 0x7F) = unat (c AND 0x7F)"
proof -
  have "(ucast c :: u32) AND 0x7F = ucast (c AND 0x7F)"
    by (rule bit_word_eqI) (auto simp: bit_simps dest: bit_imp_le_length)
  then show ?thesis by (simp add: unsigned_ucast_eq take_bit_nat_eq_self_iff less_le_trans [OF unsigned_less])
qed

lemma kb_scan2ch_special:
  assumes "128 \<le> k"
  shows "kb_scan2ch kb (ucast c) = k \<longleftrightarrow> layout_key c = k"
proof -
  let ?n = "unat (c AND 0x7F)"
  have n: "?n < 128" using scan_offset [of "ucast c"] by (simp add: ucast_offset)
  then have "kb_us_layout ! ?n = kb_us_layout ! (?n + 128) \<or> kb_us_layout ! ?n < 128 \<and> kb_us_layout ! (?n + 128) < 128"
    using layout_halves by (auto simp: list_all2_conv_all_nth add.commute)
  then show ?thesis
    using assms by (auto simp: kb_scan2ch_def layout_key_def ucast_offset Let_def)
qed

definition key_codes :: "int \<Rightarrow> u8 list \<Rightarrow> u8 list" where
  "key_codes k cs = filter (\<lambda>c. layout_key c = k) cs"

definition is_release :: "u8 \<Rightarrow> bool" where
  "is_release c \<longleftrightarrow> bit c 7"

definition held :: "int \<Rightarrow> u8 list \<Rightarrow> bool" where
  "held k cs \<longleftrightarrow> key_codes k cs \<noteq> [] \<and> \<not> is_release (last (key_codes k cs))"

text \<open>How often a key went down: codes of a key that is held already only repeat it.\<close>

fun presses :: "bool \<Rightarrow> u8 list \<Rightarrow> nat" where
  "presses down [] = 0"
| "presses down (c # cs) =
     (if is_release c then presses False cs else (if down then 0 else 1) + presses True cs)"

lemma scan2release: "kb_scan2release (ucast c) \<noteq> 0 \<longleftrightarrow> is_release c"
proof -
  have "kb_scan2release (ucast c) = (if bit c 7 then 0x80 else 0)"
  proof -
    have "bit (0x80 :: u32) n \<longleftrightarrow> n = 7" if "n < 32" for n
      using that bit_push_bit_iff [of 7 "1 :: u32" n] by (auto simp: bit_1_iff)
    then show ?thesis unfolding kb_scan2release_def
      by (intro bit_word_eqI) (auto simp: bit_simps)
  qed
  then show ?thesis by (simp add: is_release_def)
qed

lemma presses_snoc:
  "presses down (cs @ [c]) = presses down cs +
     (if is_release c \<or> (if cs = [] then down else \<not> is_release (last cs)) then 0 else 1)"
  by (induction cs arbitrary: down) auto

definition kb_fresh :: kb_keys where
  "kb_fresh = \<lparr>kb_pressed = (\<lambda>_. False), kb_num_lock = False, kb_caps_lock = False, kb_scroll_lock = False\<rparr>"

definition shifted :: "u8 list \<Rightarrow> bool" where
  "shifted cs \<longleftrightarrow> held KB_LEFT_SHIFT cs \<or> held KB_RIGHT_SHIFT cs \<or> odd (presses False (key_codes KB_CAPS_LOCK cs))"

definition typed :: "u8 list \<Rightarrow> u8 \<Rightarrow> int" where
  "typed cs c = kb_us_layout ! (unat (c AND 0x7F) + (if shifted cs then 128 else 0))"

lemma kb_decode_state:
  "(\<forall>k\<ge>128. kb_pressed (snd (kb_decode cs kb_fresh)) k \<longleftrightarrow> held k cs) \<and>
   (kb_caps_lock (snd (kb_decode cs kb_fresh)) \<longleftrightarrow> odd (presses False (key_codes KB_CAPS_LOCK cs)))"
proof (induction cs rule: rev_induct)
  case Nil
  then show ?case by (simp add: kb_fresh_def held_def key_codes_def)
next
  case (snoc c cs)
  obtain chs kb where d: "kb_decode cs kb_fresh = (chs, kb)" by fastforce
  let ?ch = "kb_scan2ch kb (ucast c)"
  have ch: "?ch = k \<longleftrightarrow> layout_key c = k" if "128 \<le> k" for k by (rule kb_scan2ch_special [OF that])
  have pressed: "kb_pressed kb k \<longleftrightarrow> held k cs" if "128 \<le> k" for k using snoc that by (simp add: d)
  have caps: "kb_caps_lock kb \<longleftrightarrow> odd (presses False (key_codes KB_CAPS_LOCK cs))" using snoc by (simp add: d)
  have s: "snd (kb_decode (cs @ [c]) kb_fresh) = snd (kb_handle_event (ucast c) kb)"
    by (simp add: kb_decode_append d split: prod.split)
  have "kb_pressed (snd (kb_handle_event (ucast c) kb)) k \<longleftrightarrow> held k (cs @ [c])" if k: "128 \<le> k" for k
    using ch [OF k] pressed [OF k]
    by (auto simp: kb_handle_event_def scan2release held_def key_codes_def kb_set_released_def kb_set_pressed_def
        kb_is_released_def Let_def)
  moreover have "kb_caps_lock (snd (kb_handle_event (ucast c) kb)) \<longleftrightarrow>
      odd (presses False (key_codes KB_CAPS_LOCK (cs @ [c])))"
    using ch [of KB_CAPS_LOCK] pressed [of KB_CAPS_LOCK] caps
    by (auto simp: kb_handle_event_def scan2release held_def key_codes_def kb_set_released_def kb_set_pressed_def
        kb_is_released_def presses_snoc KB_CAPS_LOCK_def KB_NUM_LOCK_def Let_def)
  ultimately show ?case by (simp add: s)
qed

lemma kb_decode_typed:
  "fst (kb_decode (cs @ [c]) kb_fresh) =
     fst (kb_decode cs kb_fresh) @ (if is_release c then [] else [typed cs c])"
proof -
  obtain chs kb where d: "kb_decode cs kb_fresh = (chs, kb)" by fastforce
  have "kb_scan2ch kb (ucast c) = typed cs c"
    using kb_decode_state [of cs]
    by (simp add: d kb_scan2ch_def typed_def shifted_def kb_is_pressed_def ucast_offset KB_LEFT_SHIFT_def
        KB_RIGHT_SHIFT_def Let_def)
  then show ?thesis
    by (simp add: kb_decode_append d kb_handle_event_def scan2release Let_def split: prod.split)
qed

subsection \<open>Waiting for a key\<close>

text \<open>
  The environment of \<open>kb_getchar\<close> in which the keyboard sends the code \<open>arr t\<close>, if any, between the
  rounds \<open>t - 1\<close> and \<open>t\<close>.
\<close>

definition kb_arrivals :: "ptr \<Rightarrow> (nat \<Rightarrow> u8 option) \<Rightarrow> nat \<Rightarrow> keyboard \<Rightarrow> keyboard option" where
  "kb_arrivals sp arr t kb = (case arr t of None \<Rightarrow> Some kb | Some c \<Rightarrow> kb_enqueue_scan sp (ucast c) kb)"

lemma kb_arrivals_ok:
  assumes "kb_ok sp kb" and "length (codes kb) < kb_room kb"
  shows "\<exists>kb'. kb_arrivals sp arr t kb = Some kb' \<and> kb_ok sp kb' \<and> kb_room kb' = kb_room kb \<and>
    codes kb' = codes kb @ (case arr t of None \<Rightarrow> [] | Some c \<Rightarrow> [c])"
proof (cases "arr t")
  case None
  then show ?thesis using assms(1) by (simp add: kb_arrivals_def)
next
  case (Some c)
  then show ?thesis using kb_enqueue_scan_ok [OF assms, of c] by (auto simp: kb_arrivals_def)
qed

lemma kb_handle_event_result: "fst (kb_handle_event (ucast c) kb) = None \<longleftrightarrow> is_release c"
  by (auto simp: kb_handle_event_def scan2release Let_def)

text \<open>A round either returns a character or leaves fewer codes than the queue has places.\<close>

lemma kb_round:
  fixes arr :: "nat \<Rightarrow> u8 option" and t :: nat
  assumes "kb_ok sp kb" and "length (codes kb) < kb_room kb"
  defines "cs \<equiv> codes kb @ (case arr t of None \<Rightarrow> [] | Some c \<Rightarrow> [c])"
  shows "(\<exists>ch kb'. cs \<noteq> [] \<and> \<not> is_release (hd cs) \<and> kb_getchar (kb_arrivals sp arr) t kb = Some (ch, kb')) \<or>
    (\<exists>kb'. kb_ok sp kb' \<and> length (codes kb') < kb_room kb' \<and> codes kb' = tl cs \<and> (cs \<noteq> [] \<longrightarrow> is_release (hd cs)) \<and>
       kb_getchar (kb_arrivals sp arr) t kb = kb_getchar (kb_arrivals sp arr) (t + 1) kb')"
proof -
  obtain k where k: "kb_arrivals sp arr t kb = Some k" "kb_ok sp k" "kb_room k = kb_room kb" "codes k = cs"
    using kb_arrivals_ok [OF assms(1,2), of arr t] unfolding cs_def by blast
  have room: "length cs \<le> kb_room kb" "0 < kb_room kb" using assms(2) by (auto simp: cs_def split: option.split)
  show ?thesis
  proof (cases cs)
    case Nil
    then have "kb_getchar (kb_arrivals sp arr) t kb = kb_getchar (kb_arrivals sp arr) (t + 1) k"
      using kb_poll_empty [of k] k by (simp add: kb_getchar.simps [of _ t])
    then show ?thesis using k Nil room by auto
  next
    case (Cons c ds)
    obtain r k' where k': "kb_poll k = Some (r, k')" "kb_ok sp k'" "kb_room k' = kb_room k" "codes k' = ds"
      "kb_handle_event (ucast c) (keys k) = (r, keys k')"
      using kb_poll_code [OF k(2)] k(4) Cons by blast
    have r: "r = None \<longleftrightarrow> is_release c" using kb_handle_event_result [of c "keys k"] k'(5) by simp
    show ?thesis
    proof (cases r)
      case None
      then have "kb_getchar (kb_arrivals sp arr) t kb = kb_getchar (kb_arrivals sp arr) (t + 1) k'"
        using k(1) k'(1) by (simp add: kb_getchar.simps [of _ t])
      then show ?thesis using k'(2-4) r None Cons room k(3) by auto
    next
      case (Some ch)
      then have "kb_getchar (kb_arrivals sp arr) t kb = Some (ch, k')"
        using k(1) k'(1) by (simp add: kb_getchar.simps [of _ t])
      then show ?thesis using r Some Cons by auto
    qed
  qed
qed

lemma kb_getchar_pending:
  "kb_ok sp kb \<Longrightarrow> length (codes kb) < kb_room kb \<Longrightarrow> codes kb = rs @ c # cs \<Longrightarrow> \<not> is_release c \<Longrightarrow>
   \<exists>ch kb'. kb_getchar (kb_arrivals sp arr) t kb = Some (ch, kb')"
proof (induction rs arbitrary: kb cs t)
  case Nil
  then show ?case using kb_round [OF Nil(1,2), of arr t] by auto
next
  case (Cons d rs)
  from kb_round [OF Cons.prems(1,2), of arr t] show ?case
  proof
    assume "\<exists>kb'. kb_ok sp kb' \<and> length (codes kb') < kb_room kb' \<and>
      codes kb' = tl (codes kb @ (case arr t of None \<Rightarrow> [] | Some c \<Rightarrow> [c])) \<and>
      (codes kb @ (case arr t of None \<Rightarrow> [] | Some c \<Rightarrow> [c]) \<noteq> [] \<longrightarrow>
        is_release (hd (codes kb @ (case arr t of None \<Rightarrow> [] | Some c \<Rightarrow> [c])))) \<and>
      kb_getchar (kb_arrivals sp arr) t kb = kb_getchar (kb_arrivals sp arr) (t + 1) kb'"
    then obtain kb' where k: "kb_ok sp kb'" "length (codes kb') < kb_room kb'"
      "codes kb' = rs @ c # cs @ (case arr t of None \<Rightarrow> [] | Some c \<Rightarrow> [c])"
      "kb_getchar (kb_arrivals sp arr) t kb = kb_getchar (kb_arrivals sp arr) (t + 1) kb'"
      using Cons.prems(3) by auto
    show ?thesis using Cons.IH [OF k(1-3) Cons.prems(4)] k(4) by simp
  qed blast
qed

lemma kb_getchar_arrives:
  "kb_ok sp kb \<Longrightarrow> length (codes kb) < kb_room kb \<Longrightarrow> arr (t + n) = Some c \<Longrightarrow> \<not> is_release c \<Longrightarrow>
   \<exists>ch kb'. kb_getchar (kb_arrivals sp arr) t kb = Some (ch, kb')"
proof (induction n arbitrary: kb t)
  case 0
  show ?case
  proof (cases "codes kb")
    case Nil
    then show ?thesis using kb_round [OF 0(1,2), of arr t] 0(3,4) by auto
  next
    case (Cons d ds)
    from kb_round [OF 0(1,2), of arr t] show ?thesis
      using 0(3,4) Cons kb_getchar_pending [of sp _ ds c "[]" arr "t + 1"] by fastforce
  qed
next
  case (Suc n)
  from kb_round [OF Suc.prems(1,2), of arr t] show ?case
    using Suc.IH [of _ "t + 1"] Suc.prems(3,4) by fastforce
qed

text \<open>Without an interrupt and without a key press in the queue the loop never ends.\<close>

lemma kb_getchar_stuck:
  assumes "kb_getchar (\<lambda>_. Some) t kb = Some r" and "codes kb = []"
  shows False
proof -
  have "env = (\<lambda>_. Some) \<longrightarrow> codes kb = [] \<longrightarrow> False" if "kb_getchar env t kb = Some r" for env t kb r
  proof (rule kb_getchar.raw_induct [where P = "\<lambda>env t kb r. env = (\<lambda>_. Some) \<longrightarrow> codes kb = [] \<longrightarrow> False", OF _ that])
    fix f :: "(nat \<Rightarrow> keyboard \<Rightarrow> keyboard option) \<Rightarrow> nat \<Rightarrow> keyboard \<Rightarrow> (int \<times> keyboard) option" and env t kb r
    assume ih: "\<And>env t kb r. f env t kb = Some r \<Longrightarrow> env = (\<lambda>_. Some) \<longrightarrow> codes kb = [] \<longrightarrow> False"
      and step: "do { kb \<leftarrow> env t kb; (r, kb) \<leftarrow> kb_poll kb; case r of None \<Rightarrow> f env (t + 1) kb | Some ch \<Rightarrow> Some (ch, kb) } = Some r"
    show "env = (\<lambda>_. Some) \<longrightarrow> codes kb = [] \<longrightarrow> False"
      using step ih [of env "t + 1" kb r] by (auto simp: kb_poll_empty)
  qed
  then show False using assms by blast
qed

subsection \<open>Properties\<close>

lemma kb_init_ok:
  assumes "kb_init malloc P m kb h d = Inr (p, kb', h', d')"
    and "malloc h 48 = (p1, h1)" and "malloc h1 16 = (buf, h2)" and "region sp 4 \<inter> region buf 16 = {}"
  shows "kb_ok sp kb' \<and> codes kb' = [] \<and> kb_room kb' = 16 \<and> keys kb' = keys kb"
  using assms by (auto simp: kb_init_def circ_buf_new_def circ_buf_init_def kb_ok_def codes_def kb_room_def
      keys_def kb_keys.defs cb_ok_def cb_region_def bind_result_def Let_def split: sum.splits prod.splits)

lemma kb_decode_all:
  "fst (kb_decode cs kb_fresh) =
     concat (map (\<lambda>i. if is_release (cs ! i) then [] else [typed (take i cs) (cs ! i)]) [0..<length cs])"
proof (induction cs rule: rev_induct)
  case Nil
  then show ?case by simp
next
  case (snoc c cs)
  have "concat (map (\<lambda>i. if is_release ((cs @ [c]) ! i) then [] else [typed (take i (cs @ [c])) ((cs @ [c]) ! i)]) [0..<length cs])
      = concat (map (\<lambda>i. if is_release (cs ! i) then [] else [typed (take i cs) (cs ! i)]) [0..<length cs])"
    by (rule arg_cong [where f = concat]) (simp add: nth_append)
  then show ?case by (simp add: kb_decode_typed snoc)
qed

text \<open>
  C24.  However the interrupts of the keyboard and the rounds of \<open>kb_getchar\<close> interleave, as long as
  the queue does not overflow no code is lost or handled twice: the characters returned are those of
  a prefix of the codes, the rest is still in the queue.  Each press gives the character of its key,
  in the upper half of the layout exactly when a shift key is held (the last of its codes was no
  release) or the caps lock key went down an odd number of times.
\<close>
theorem kb_driver_correct:
  assumes "kb_ok sp kb" and "codes kb = []" and "keys kb = kb_fresh" and "keeps_up (kb_room kb) 0 es"
  shows "\<exists>out kb' handled. kb_run sp es kb = Some (out, kb') \<and> scan_codes es = handled @ codes kb' \<and>
    out = concat (map (\<lambda>i. if is_release (handled ! i) then [] else [typed (take i handled) (handled ! i)])
            [0..<length handled])"
proof -
  obtain out kb' handled where r: "kb_run sp es kb = Some (out, kb')"
    "scan_codes es = handled @ codes kb'" "kb_decode handled kb_fresh = (out, keys kb')"
    using kb_run_decodes [OF assms(1), of es] assms(2-4) by auto
  then show ?thesis using kb_decode_all [of handled] by auto
qed

definition example_kb :: keyboard where
  "example_kb = \<lparr>kb_pressed = (\<lambda>_. False), kb_num_lock = False, kb_caps_lock = False, kb_scroll_lock = False,
     kb_event_queue = ((\<lambda>_. 0), circ_buf_init 0x1000 16 1)\<rparr>"

lemma example_kb_ok:
  "kb_ok 0x100 example_kb" "codes example_kb = []" "keys example_kb = kb_fresh" "kb_room example_kb = 16"
proof -
  have "region (0x100 :: ptr) 4 \<inter> region 0x1000 16 = {}"
    by (rule fits_disjoint) (simp_all add: fits_def)
  then show "kb_ok 0x100 example_kb" "codes example_kb = []" "keys example_kb = kb_fresh" "kb_room example_kb = 16"
    by (simp_all add: example_kb_def kb_ok_def codes_def keys_def kb_keys.defs kb_fresh_def kb_room_def
        circ_buf_init_def cb_ok_def cb_region_def)
qed

text \<open>Left shift down, "a" down, "b" down while the shift key goes up.\<close>

theorem kb_driver_correct_witness:
  "(\<exists>out kb' handled. kb_run 0x100 [Scan 0x2A, Poll, Scan 0x1E, Scan 0xAA, Poll, Scan 0x30, Poll] example_kb = Some (out, kb') \<and>
     [0x2A, 0x1E, 0xAA, 0x30] = handled @ codes kb' \<and>
     out = concat (map (\<lambda>i. if is_release (handled ! i) then [] else [typed (take i handled) (handled ! i)])
             [0..<length handled])) \<and>
   typed [0x2A] 0x1E = 65 \<and> typed [0x2A, 0x1E, 0xAA] 0x30 = 98"
proof -
  let ?es = "[Scan 0x2A, Poll, Scan 0x1E, Scan 0xAA, Poll, Scan 0x30, Poll]"
  have "keeps_up (kb_room example_kb) 0 ?es" by (simp add: example_kb_ok)
  moreover have "scan_codes ?es = [0x2A, 0x1E, 0xAA, 0x30]" by (simp add: scan_codes_def)
  moreover have "typed [0x2A] 0x1E = 65" "typed [0x2A, 0x1E, 0xAA] 0x30 = 98" by code_simp+
  ultimately show ?thesis using kb_driver_correct [OF example_kb_ok(1-3), of ?es] by simp
qed

text \<open>
  C25.  \<open>kb_getchar\<close> returns as soon as a key press is in the queue or arrives, whatever releases come
  before it; if there is none and the keyboard stays silent, it never returns.
\<close>
theorem kb_getchar_returns:
  assumes "kb_ok sp kb" and "length (codes kb) < kb_room kb"
  shows "((\<exists>c\<in>set (codes kb). \<not> is_release c) \<or> (\<exists>n c. arr (t + n) = Some c \<and> \<not> is_release c) \<longrightarrow>
      (\<exists>ch kb'. kb_getchar (kb_arrivals sp arr) t kb = Some (ch, kb'))) \<and>
    (codes kb = [] \<longrightarrow> kb_getchar (kb_arrivals sp (\<lambda>_. None)) t kb = None)"
proof -
  have "kb_arrivals sp (\<lambda>_. None) = (\<lambda>_. Some)" by (simp add: kb_arrivals_def fun_eq_iff)
  then have "codes kb = [] \<longrightarrow> kb_getchar (kb_arrivals sp (\<lambda>_. None)) t kb = None"
    using kb_getchar_stuck [of t kb] by (metis not_None_eq)
  moreover have "\<exists>ch kb'. kb_getchar (kb_arrivals sp arr) t kb = Some (ch, kb')" if "c \<in> set (codes kb)" "\<not> is_release c" for c
    using kb_getchar_pending [OF assms] split_list [OF that(1)] that(2) by blast
  ultimately show ?thesis using kb_getchar_arrives [OF assms, of arr t] by blast
qed

theorem kb_getchar_returns_witness:
  "\<exists>ch kb'. kb_getchar (kb_arrivals 0x100 (\<lambda>t. if t = 5 then Some 0x1E else if t < 5 then Some 0x9E else None)) 0
     example_kb = Some (ch, kb')"
proof -
  have "\<exists>n c. (if 0 + n = (5::nat) then Some 0x1E else if 0 + n < 5 then Some 0x9E else None) = Some (c :: u8) \<and> \<not> is_release c"
    by (intro exI [of _ 5] exI [of _ "0x1E"]) (simp add: is_release_def bit_iff_odd)
  then show ?thesis
    using kb_getchar_returns [OF example_kb_ok(1), of "\<lambda>t. if t = 5 then Some 0x1E else if t < 5 then Some 0x9E else None" 0]
    by (simp add: example_kb_ok)
qed

end
