(* ===== verification/Shell.thy ===== *)
theory Shell
  imports Tty Keyboard
begin

text \<open>
  The shell of \<open>kernel/shell/sh.c\<close>: the line editor, the history and the dispatch of commands.  Its
  globals are the record \<open>sh\<close> with the terminal, the heap and the memory in it.  The record \<open>sh_env\<close>
  holds what its operations call or refer to: the display, \<open>printf\<close> (theory \<open>Printf\<close>, which writes
  through \<open>tty_putchar\<close>), the allocator (theory \<open>Heap\<close>), the commands of the table (each modelled with
  its component), and the addresses of the string literals.

  The commands of the history are the slots of a ring buffer, the newest first; the newest is the
  line that is being edited.  \<open>None\<close> is undefined behaviour or a call that does not return.
\<close>

subsection \<open>State\<close>

definition SH_MAX_HISTORY :: u64 where "SH_MAX_HISTORY = 5"
definition SH_MAX_COMMAND :: u32 where "SH_MAX_COMMAND = 4096"

record ('d, 'h) sh =
  sh_tty :: "'d tty"
  sh_heap :: 'h
  sh_history_circ_buf :: circ_buf
  sh_prompt_limit :: u32
  sh_history_idx :: u32
  sh_command_idx :: u32

record ('d, 'h) sh_env =
  sh_dev :: "'d tty_device"
  sh_print :: "string \<times> print_arg list \<Rightarrow> 'd tty \<Rightarrow> 'd tty option"
  sh_alloc :: "u64 \<Rightarrow> 'h \<Rightarrow> (ptr \<times> 'h) result"
  sh_resize :: "'h resizer"
  sh_release :: "ptr \<Rightarrow> 'h \<Rightarrow> 'h result"
  sh_run :: "string \<Rightarrow> ptr list \<Rightarrow> ('d, 'h) sh \<Rightarrow> ('d, 'h) sh option"
  sh_lit :: "string \<Rightarrow> ptr"
  sh_history_buf :: ptr

definition sh_commands :: "string list" where
  "sh_commands =
     [''cpu'', ''test'', ''acpi'', ''apic'', ''lapic'', ''mcfg'', ''pci'', ''mmap'', ''pt'', ''pgm'', ''mbi'', ''fb'', ''usb'',
      ''font'', ''heap'', ''gdt'', ''idt'', ''int'', ''memdump'', ''elf'', ''isr'', ''div0'']"

text \<open>\<open>div0\<close> divides 100 by \<open>argc - 1\<close>: without arguments it traps.\<close>

definition div0 :: "int \<Rightarrow> printed option" where
  "div0 argc = (if argc - 1 = 0 then None
     else Some [(''%ld'', [PNum (word_of_int (sgn 100 * sgn (argc - 1) * (abs 100 div abs (argc - 1))))])])"

definition sh_mem :: "('d, 'h) sh \<Rightarrow> mem" where "sh_mem s = tty_mem (sh_tty s)"

definition sh_set_mem :: "mem \<Rightarrow> ('d, 'h) sh \<Rightarrow> ('d, 'h) sh" where
  "sh_set_mem m s = s\<lparr>sh_tty := (sh_tty s)\<lparr>tty_mem := m\<rparr>\<rparr>"

definition on_tty :: "('d tty \<Rightarrow> 'd tty option) \<Rightarrow> ('d, 'h) sh \<Rightarrow> ('d, 'h) sh option" where
  "on_tty f s = map_option (\<lambda>t. s\<lparr>sh_tty := t\<rparr>) (f (sh_tty s))"

definition sh_printf :: "('d, 'h) sh_env \<Rightarrow> string \<Rightarrow> print_arg list \<Rightarrow> ('d, 'h) sh \<Rightarrow> ('d, 'h) sh option" where
  "sh_printf E fmt args = on_tty (sh_print E (fmt, args))"

fun result_option :: "'a result \<Rightarrow> 'a option" where
  "result_option (Inl _) = None"
| "result_option (Inr x) = Some x"

subsection \<open>The command buffer and the history\<close>

definition sh_command_buffer :: "('d, 'h) sh \<Rightarrow> ptr" where
  "sh_command_buffer s = circ_buf_peek (sh_history_circ_buf s)"

definition sh_write_command_buffer :: "u8 \<Rightarrow> ('d, 'h) sh \<Rightarrow> ('d, 'h) sh" where
  "sh_write_command_buffer ch s =
     sh_set_mem ((sh_mem s)(sh_command_buffer s + ucast (sh_command_idx s) := ch)) s"

definition sh_command_printf :: "('d, 'h) sh_env \<Rightarrow> string \<Rightarrow> print_arg list \<Rightarrow> ('d, 'h) sh \<Rightarrow> ('d, 'h) sh option" where
  "sh_command_printf E fmt args s =
     do { let pre_line = tty_line (sh_tty s);
          s \<leftarrow> sh_printf E fmt args s;
          let post_line = tty_line (sh_tty s);
          Some (if post_line > pre_line
                then s\<lparr>sh_prompt_limit := sh_prompt_limit s - tty_width (sh_tty s) * (post_line - pre_line)\<rparr> else s) }"

definition sh_prompt :: "('d, 'h) sh_env \<Rightarrow> ('d, 'h) sh \<Rightarrow> ('d, 'h) sh option" where
  "sh_prompt E s =
     (if tty_width (sh_tty s) = 0 then None
      else do { s \<leftarrow> (if tty_get_cursor_pos (sh_tty s) mod tty_width (sh_tty s) \<noteq> 0
                      then sh_printf E ''\<newline>'' [] s else Some s);
                s \<leftarrow> sh_printf E ''$ '' [] s;
                Some (s\<lparr>sh_prompt_limit := tty_get_cursor_pos (sh_tty s), sh_history_idx := 0, sh_command_idx := 0\<rparr>) })"

text \<open>The literal that is pushed is two bytes long; the ring buffer copies a whole slot from it.\<close>

definition sh_push_literal :: "('d, 'h) sh_env \<Rightarrow> ('d, 'h) sh \<Rightarrow> ('d, 'h) sh option" where
  "sh_push_literal E s =
     do { (m, cb) \<leftarrow> circ_buf_push (sh_mem s, sh_history_circ_buf s) (sh_lit E [CHR 0x00]);
          Some (sh_set_mem m s\<lparr>sh_history_circ_buf := cb\<rparr>) }"

definition sh_push_history :: "('d, 'h) sh_env \<Rightarrow> ('d, 'h) sh \<Rightarrow> ('d, 'h) sh option" where
  "sh_push_history E s =
     do { last_cmdline \<leftarrow> circ_buf_peekn (sh_history_circ_buf s) 1;
          e \<leftarrow> strequ (sh_mem s) (sh_command_buffer s) last_cmdline;
          if e then Some s else sh_push_literal E s }"

definition sh_pull_history :: "('d, 'h) sh_env \<Rightarrow> ('d, 'h) sh \<Rightarrow> ('d, 'h) sh option" where
  "sh_pull_history E s =
     do { s \<leftarrow> on_tty (tty_delete (sh_dev E) (ucast (sh_command_idx s))) s;
          let command = sh_command_buffer s;
          s \<leftarrow> (if sh_history_idx s = 0
                then Some (sh_set_mem ((sh_mem s)(command := 0)) s\<lparr>sh_command_idx := 0\<rparr>)
                else do { p \<leftarrow> circ_buf_peekn (sh_history_circ_buf s) (ucast (sh_history_idx s));
                          (_, m) \<leftarrow> strcpy (sh_mem s) command p;
                          n \<leftarrow> strlen m command;
                          Some (sh_set_mem m s\<lparr>sh_command_idx := ucast n\<rparr>) });
          s \<leftarrow> on_tty (tty_set_cursor_pos (sh_dev E) (ucast (sh_prompt_limit s))) s;
          sh_command_printf E ''%s'' [PChars command] s }"

subsection \<open>Commands\<close>

fun find_command :: "mem \<Rightarrow> (string \<Rightarrow> ptr) \<Rightarrow> ptr \<Rightarrow> string list \<Rightarrow> string option option" where
  "find_command m lit name [] = Some None"
| "find_command m lit name (cmd # cmds) =
     do { r \<leftarrow> strcmp m (lit cmd) name; if r = 0 then Some (Some cmd) else find_command m lit name cmds }"

definition sh_find_command :: "mem \<Rightarrow> (string \<Rightarrow> ptr) \<Rightarrow> ptr \<Rightarrow> string option option" where
  "sh_find_command m lit name = find_command m lit name sh_commands"

fun print_all :: "('d, 'h) sh_env \<Rightarrow> printed \<Rightarrow> ('d, 'h) sh \<Rightarrow> ('d, 'h) sh option" where
  "print_all E [] s = Some s"
| "print_all E ((fmt, args) # ps) s = do { s \<leftarrow> sh_printf E fmt args s; print_all E ps s }"

definition sh_print_commands :: "('d, 'h) sh_env \<Rightarrow> ('d, 'h) sh \<Rightarrow> ('d, 'h) sh option" where
  "sh_print_commands E = print_all E (map (\<lambda>n. (''%s '', [PStr n])) sh_commands @ [(''\<newline>'', [])])"

fun print_history_loop :: "('d, 'h) sh_env \<Rightarrow> nat list \<Rightarrow> ('d, 'h) sh \<Rightarrow> ('d, 'h) sh option" where
  "print_history_loop E [] s = Some s"
| "print_history_loop E (i # is) s =
     do { p \<leftarrow> circ_buf_peekn (sh_history_circ_buf s) (of_nat i);
          s \<leftarrow> sh_printf E ''%lu: %s\<newline>'' [PNum (of_nat i), PChars p] s;
          print_history_loop E is s }"

definition sh_print_history :: "('d, 'h) sh_env \<Rightarrow> ('d, 'h) sh \<Rightarrow> ('d, 'h) sh option" where
  "sh_print_history E s = print_history_loop E [1..<unat (cb_size (sh_history_circ_buf s))] s"

definition sh_exit :: "('d, 'h) sh_env \<Rightarrow> ('d, 'h) sh \<Rightarrow> (bool \<times> ('d, 'h) sh) option" where
  "sh_exit E s = do { s \<leftarrow> sh_printf E ''Alpine shell terminated.'' [] s; Some (False, s) }"

definition sh_execute_command :: "('d, 'h) sh_env \<Rightarrow> ptr list \<Rightarrow> ('d, 'h) sh \<Rightarrow> (bool \<times> ('d, 'h) sh) option" where
  "sh_execute_command E argv s =
     (if 0 < length argv
      then do { let cmd = argv ! 0;
                let m = sh_mem s;
                help \<leftarrow> strequ m cmd (sh_lit E ''help'');
                if help then do { s \<leftarrow> sh_print_commands E s; s \<leftarrow> sh_push_history E s; Some (True, s) }
                else do { history \<leftarrow> strequ m cmd (sh_lit E ''history'');
                if history then do { s \<leftarrow> sh_print_history E s; s \<leftarrow> sh_push_history E s; Some (True, s) }
                else do { clear \<leftarrow> strequ m cmd (sh_lit E ''clear'');
                if clear then do { s \<leftarrow> on_tty (tty_clear (sh_dev E)) s; s \<leftarrow> sh_push_history E s; Some (True, s) }
                else do { exit \<leftarrow> strequ m cmd (sh_lit E ''exit'');
                if exit then sh_exit E s
                else do { sh_cmd \<leftarrow> sh_find_command m (sh_lit E) cmd;
                          s \<leftarrow> (case sh_cmd of
                                  Some c \<Rightarrow> sh_run E c argv s
                                | None \<Rightarrow> sh_printf E ''ash: command not found: %s'' [PChars cmd] s);
                          s \<leftarrow> sh_push_history E s;
                          Some (True, s) } } } } }
      else Some (True, s))"

text \<open>
  Without memory for the copy \<open>strtok\<close> would go on in the copy before, which is freed.  On \<open>exit\<close>
  the copy and the vector are not freed.
\<close>

definition sh_execute :: "('d, 'h) sh_env \<Rightarrow> ('d, 'h) sh \<Rightarrow> (bool \<times> ('d, 'h) sh) option" where
  "sh_execute E s =
     do { s \<leftarrow> sh_printf E ''\<newline>'' [] s;
          let s = sh_write_command_buffer 0 s;
          (go, s) \<leftarrow>
            (if sh_command_idx s > 0
             then do { (copy, m, h) \<leftarrow> result_option (strdup (sh_alloc E) (sh_mem s) (sh_command_buffer s) (sh_heap s));
                       if copy = NULL then None
                       else do { (args, m, v, h) \<leftarrow>
                                   result_option (strsplit (sh_alloc E) (sh_resize E) copy (sh_lit E '' '') NULL m h);
                                 let s = sh_set_mem m s\<lparr>sh_heap := h\<rparr>;
                                 (go, s) \<leftarrow> sh_execute_command E (words m (vec_items v) (nat (vec_length v))) s;
                                 if go
                                 then do { h \<leftarrow> result_option (sh_release E copy (sh_heap s));
                                           h \<leftarrow> result_option (vector_free (sh_release E) args v h);
                                           Some (True, s\<lparr>sh_heap := h\<rparr>) }
                                 else Some (False, s) } }
             else Some (True, s));
          if go then do { s \<leftarrow> sh_prompt E s; Some (True, s) } else Some (False, s) }"

subsection \<open>Keys\<close>

definition sh_right_arrow :: "('d, 'h) sh_env \<Rightarrow> ('d, 'h) sh \<Rightarrow> ('d, 'h) sh option" where
  "sh_right_arrow E s =
     do { let t = sh_tty s;
          let cursor_pos = tty_get_cursor_pos t;
          (cursor_pos, s) \<leftarrow>
            (if cursor_pos \<noteq> tty_height t * tty_width t - 1
             then Some (if cursor_pos < sh_prompt_limit s + sh_command_idx s then cursor_pos + 1 else cursor_pos, s)
             else do { s \<leftarrow> on_tty (tty_scroll_down (sh_dev E)) s; Some ((tty_height t - 1) * tty_width t, s) });
          on_tty (tty_set_cursor_pos (sh_dev E) (ucast cursor_pos)) s }"

definition sh_left_arrow :: "('d, 'h) sh_env \<Rightarrow> ('d, 'h) sh \<Rightarrow> ('d, 'h) sh option" where
  "sh_left_arrow E s =
     do { let t = sh_tty s;
          let cursor_pos = tty_get_cursor_pos t;
          (cursor_pos, s) \<leftarrow>
            (if cursor_pos \<noteq> 0
             then Some (if cursor_pos > sh_prompt_limit s then cursor_pos - 1 else cursor_pos, s)
             else do { s \<leftarrow> on_tty (tty_scroll_up (sh_dev E)) s; Some (tty_width t - 1, s) });
          on_tty (tty_set_cursor_pos (sh_dev E) (ucast cursor_pos)) s }"

text \<open>\<open>opt\<close>: the option key is pressed.\<close>

definition sh_up_arrow :: "('d, 'h) sh_env \<Rightarrow> bool \<Rightarrow> ('d, 'h) sh \<Rightarrow> ('d, 'h) sh option" where
  "sh_up_arrow E opt s =
     (if opt then on_tty (tty_scroll_up (sh_dev E)) s
      else if (sh_history_idx s = 0 \<and> sh_command_idx s = 0) \<or> sh_history_idx s > 0
      then (if ucast (sh_history_idx s) < cb_size (sh_history_circ_buf s) - 1
            then sh_pull_history E (s\<lparr>sh_history_idx := sh_history_idx s + 1\<rparr>) else Some s)
      else Some s)"

definition sh_down_arrow :: "('d, 'h) sh_env \<Rightarrow> bool \<Rightarrow> ('d, 'h) sh \<Rightarrow> ('d, 'h) sh option" where
  "sh_down_arrow E opt s =
     (if opt then on_tty (tty_scroll_down (sh_dev E)) s
      else if sh_history_idx s > 0 then sh_pull_history E (s\<lparr>sh_history_idx := sh_history_idx s - 1\<rparr>)
      else Some s)"

definition sh_backspace :: "('d, 'h) sh_env \<Rightarrow> ('d, 'h) sh \<Rightarrow> ('d, 'h) sh option" where
  "sh_backspace E s =
     (if tty_get_cursor_pos (sh_tty s) > sh_prompt_limit s
      then on_tty (tty_delete (sh_dev E) 1) (sh_write_command_buffer 0 (s\<lparr>sh_command_idx := sh_command_idx s - 1\<rparr>))
      else Some s)"

definition sh_handle_input :: "('d, 'h) sh_env \<Rightarrow> bool \<Rightarrow> u8 \<Rightarrow> ('d, 'h) sh \<Rightarrow> (bool \<times> ('d, 'h) sh) option" where
  "sh_handle_input E opt ch s =
     (let c = uint ch
      in if KB_CONTROL \<le> c \<and> c \<le> KB_SCROLL_LOCK \<or> KB_F1 \<le> c \<and> c \<le> KB_F12 \<or> c = KB_ESC then Some (True, s)
         else if c = KB_RIGHT_ARROW then map_option (Pair True) (sh_right_arrow E s)
         else if c = KB_UP_ARROW then map_option (Pair True) (sh_up_arrow E opt s)
         else if c = KB_LEFT_ARROW then map_option (Pair True) (sh_left_arrow E s)
         else if c = KB_DOWN_ARROW then map_option (Pair True) (sh_down_arrow E opt s)
         else if ch = 9 then Some (True, s)
         else if ch = 8 then map_option (Pair True) (sh_backspace E s)
         else if ch = 10 then sh_execute E s
         else if sh_command_idx s < SH_MAX_COMMAND
         then do { s \<leftarrow> sh_command_printf E ''%c'' [PNum (ucast ch)] s;
                   let s = sh_write_command_buffer ch s;
                   Some (True, s\<lparr>sh_command_idx := sh_command_idx s + 1\<rparr>) }
         else Some (True, s))"

text \<open>The granularity is one less than the space the buffer has for a command.\<close>

definition sh_initialize :: "('d, 'h) sh_env \<Rightarrow> ('d, 'h) sh \<Rightarrow> ('d, 'h) sh option" where
  "sh_initialize E s =
     do { s \<leftarrow> sh_push_literal E (s\<lparr>sh_history_circ_buf := (sh_history_circ_buf s)
            \<lparr>cb_buf := sh_history_buf E, cb_capacity := SH_MAX_HISTORY + 1, cb_granularity := ucast SH_MAX_COMMAND\<rparr>\<rparr>);
          let s = s\<lparr>sh_tty := tty_enable_cursor (sh_dev E) (sh_tty s)\<rparr>;
          s \<leftarrow> sh_printf E ''Welcome to alpine shell!\<newline>\<newline>'' [] s;
          sh_prompt E s }"

text \<open>
  The loop of \<open>sh_start\<close> over the characters \<open>kb_getchar\<close> returns, each with the state of the
  option key; it ends with the characters or with \<open>exit\<close>.  \<open>pit_init\<close>, which \<open>sh_start\<close> calls first, is in
  the theory \<open>Pic\<close>.
\<close>

fun sh_loop :: "('d, 'h) sh_env \<Rightarrow> (bool \<times> u8) list \<Rightarrow> ('d, 'h) sh \<Rightarrow> ('d, 'h) sh option" where
  "sh_loop E [] s = Some s"
| "sh_loop E ((opt, ch) # chars) s =
     do { (go, s) \<leftarrow> sh_handle_input E opt ch s; if go then sh_loop E chars s else Some s }"

definition sh_start :: "('d, 'h) sh_env \<Rightarrow> (bool \<times> u8) list \<Rightarrow> ('d, 'h) sh \<Rightarrow> ('d, 'h) sh option" where
  "sh_start E input s = do { s \<leftarrow> sh_initialize E s; sh_loop E input s }"

subsection \<open>Finding a command\<close>

lemma strequ_cstr: "cstr m p xs \<Longrightarrow> cstr m q ys \<Longrightarrow> strequ m p q = Some (xs = ys)"
  using strcmp_correct [of m p xs q ys] by (auto simp: strequ_def)

lemma find_command_correct:
  assumes "cstr m name xs" and "\<forall>c\<in>set cmds. cstr m (lit c) (bytes_of c)"
  shows "find_command m lit name cmds = Some (find (\<lambda>c. bytes_of c = xs) cmds)"
  using assms(2)
proof (induction cmds)
  case (Cons c cmds)
  obtain r where "strcmp m (lit c) name = Some r" "r = 0 \<longleftrightarrow> bytes_of c = xs"
    using strcmp_correct [OF _ assms(1), of "lit c" "bytes_of c"] Cons.prems by auto
  then show ?case using Cons by simp
qed simp

text \<open>Where the literals of the shell are.\<close>

definition literals_ok :: "('d, 'h) sh_env \<Rightarrow> mem \<Rightarrow> bool" where
  "literals_ok E m \<longleftrightarrow>
     (\<forall>c\<in>set ([''help'', ''history'', ''clear'', ''exit''] @ sh_commands). cstr m (sh_lit E c) (bytes_of c))"

subsection \<open>The history\<close>

text \<open>
  The history: the texts in the slots of the ring, the newest first, which is the line being
  edited.  \<open>circ_buf_peekn\<close> also reaches slots beyond those in use.
\<close>

definition slot_text :: "u8 list \<Rightarrow> u8 list" where
  "slot_text xs = takeWhile (\<lambda>b. b \<noteq> 0) xs"

definition history_slot :: "('d, 'h) sh \<Rightarrow> nat \<Rightarrow> u8 list" where
  "history_slot s i = (let cb = sh_history_circ_buf s
     in cb_entry (sh_mem s) cb ((unat (cb_head cb) + i) mod unat (cb_capacity cb)))"

definition sh_history :: "('d, 'h) sh \<Rightarrow> u8 list list" where
  "sh_history s = map slot_text (items (sh_mem s, sh_history_circ_buf s))"

text \<open>
  The ring is well formed, the line and the one before it are terminated in their slots, and the
  empty literal is, with the bytes that are copied behind it, apart from the ring.
\<close>

definition history_ok :: "('d, 'h) sh_env \<Rightarrow> ('d, 'h) sh \<Rightarrow> bool" where
  "history_ok E s \<longleftrightarrow> cb_ok (sh_history_circ_buf s) \<and> 0 \<in> set (history_slot s 0) \<and> 0 \<in> set (history_slot s 1) \<and>
     separate (sh_mem s, sh_history_circ_buf s) (sh_lit E [CHR 0x00]) \<and> sh_mem s (sh_lit E [CHR 0x00]) = 0"

lemma bytes_cstr: "0 \<in> set (bytes m p n) \<Longrightarrow> cstr m p (slot_text (bytes m p n))"
  unfolding slot_text_def
proof (induction n arbitrary: p)
  case (Suc n)
  then show ?case by (cases "m p = 0") (simp_all add: bytes_Suc)
qed simp

text \<open>What \<open>sh_push_history\<close> makes of a state.\<close>

definition recorded :: "('d, 'h) sh \<Rightarrow> ('d, 'h) sh \<Rightarrow> bool" where
  "recorded s s' \<longleftrightarrow>
     (let cb = sh_history_circ_buf s
      in if slot_text (history_slot s 0) = slot_text (history_slot s 1) then s' = s
         else sh_history s' = take (unat (cb_capacity cb)) ([] # sh_history s) \<and>
           cb_kept (sh_mem s, cb) (sh_mem s', sh_history_circ_buf s') \<and>
           s' = sh_set_mem (sh_mem s') s\<lparr>sh_history_circ_buf := sh_history_circ_buf s'\<rparr>)"

lemma sh_mem_simps [simp]:
  "sh_mem (sh_set_mem m s) = m" "sh_mem (s\<lparr>sh_history_circ_buf := cb\<rparr>) = sh_mem s"
  "sh_history_circ_buf (sh_set_mem m s) = sh_history_circ_buf s"
  by (simp_all add: sh_mem_def sh_set_mem_def)

lemma push_history_recorded:
  assumes "history_ok E s"
  shows "\<exists>s'. sh_push_history E s = Some s' \<and> recorded s s'"
proof -
  let ?cb = "sh_history_circ_buf s" and ?m = "sh_mem s" and ?lit = "sh_lit E [CHR 0x00]"
  let ?H = "unat (cb_head ?cb)" and ?C = "unat (cb_capacity ?cb)"
  note ok = assms [unfolded history_ok_def]
  have c: "0 < ?C" "?H < ?C" "?C < 2 ^ 63" using ok by (simp_all add: cb_ok_def)
  have u: "unat (cb_head ?cb + 1) = ?H + 1" using c by (simp add: unat_word_ariths)
  have p0: "sh_command_buffer s = cb_slot ?cb ((?H + 0) mod ?C)"
    using c by (simp add: sh_command_buffer_def circ_buf_peek_def circ_buf_peek_head_def slot_ptr)
  have p1: "circ_buf_peekn ?cb 1 = Some (cb_slot ?cb ((?H + 1) mod ?C))"
    using c u by (auto simp: circ_buf_peekn_def circ_buf_peekn_head_def slot_ptr unat_mod)
  have t: "cstr ?m (cb_slot ?cb ((?H + i) mod ?C)) (slot_text (history_slot s i))" if "i = 0 \<or> i = 1" for i
    using that ok bytes_cstr by (auto simp: history_slot_def cb_entry_def Let_def)
  have e: "strequ ?m (sh_command_buffer s) (cb_slot ?cb ((?H + 1) mod ?C)) =
      Some (slot_text (history_slot s 0) = slot_text (history_slot s 1))"
    unfolding p0 by (intro strequ_cstr t) simp_all
  have inv: "cb_inv (?m, ?cb)" "separate (?m, ?cb) ?lit" using ok by simp_all
  obtain m cb where push: "circ_buf_push (?m, ?cb) ?lit = Some (m, cb)"
    "items (m, cb) = take ?C (val_at (?m, ?cb) ?lit # items (?m, ?cb))"
    using circ_buf_push_law [OF inv] by (auto simp del: items.simps separate.simps)
  have k: "cb_kept (?m, ?cb) (m, cb)"
    using push(1) ok by (intro cb_step_kept cb_step.enqueue_head [of _ ?lit]) (simp_all add: circ_buf_push_def)
  have "0 < unat (cb_granularity ?cb)" using ok by (auto simp: history_slot_def cb_entry_def Let_def bytes_def)
  then obtain g where "unat (cb_granularity ?cb) = Suc g" by (cases "unat (cb_granularity ?cb)") auto
  then have "slot_text (val_at (?m, ?cb) ?lit) = []" using ok by (simp add: slot_text_def bytes_Suc)
  then have h: "map slot_text (items (m, cb)) = take ?C ([] # sh_history s)"
    unfolding push(2) sh_history_def by (simp add: take_map [symmetric] del: items.simps val_at.simps)
  show ?thesis
  proof (cases "slot_text (history_slot s 0) = slot_text (history_slot s 1)")
    case True
    then have "sh_push_history E s = Some s" using e p1 by (simp add: sh_push_history_def)
    then show ?thesis using True by (simp add: recorded_def Let_def)
  next
    case False
    let ?s = "sh_set_mem m s\<lparr>sh_history_circ_buf := cb\<rparr>"
    have "sh_push_history E s = Some ?s"
      using False e p1 push(1) by (simp add: sh_push_history_def sh_push_literal_def)
    moreover have "recorded s ?s" using False h k by (simp add: recorded_def Let_def sh_history_def del: items.simps)
    ultimately show ?thesis by blast
  qed
qed

subsection \<open>Running a command\<close>

text \<open>What a command line whose first word is \<open>xs\<close> does before it is recorded.\<close>

definition sh_action :: "('d, 'h) sh_env \<Rightarrow> u8 list \<Rightarrow> ptr \<Rightarrow> ptr list \<Rightarrow> ('d, 'h) sh \<Rightarrow> ('d, 'h) sh option" where
  "sh_action E xs cmd args s =
     (if xs = bytes_of ''help'' then sh_print_commands E s
      else if xs = bytes_of ''history'' then sh_print_history E s
      else if xs = bytes_of ''clear'' then on_tty (tty_clear (sh_dev E)) s
      else case find (\<lambda>c. bytes_of c = xs) sh_commands of
          Some c \<Rightarrow> sh_run E c (cmd # args) s
        | None \<Rightarrow> sh_printf E ''ash: command not found: %s'' [PChars cmd] s)"

lemma sh_dispatch:
  assumes "literals_ok E (sh_mem s)" and "cstr (sh_mem s) cmd xs"
  shows "sh_execute_command E (cmd # args) s =
    (if xs = bytes_of ''exit'' then sh_exit E s
     else do { s1 \<leftarrow> sh_action E xs cmd args s; s2 \<leftarrow> sh_push_history E s1; Some (True, s2) })"
proof -
  have lit: "cstr (sh_mem s) (sh_lit E c) (bytes_of c)"
    if "c \<in> set ([''help'', ''history'', ''clear'', ''exit''] @ sh_commands)" for c
    using assms(1) that by (auto simp: literals_ok_def)
  have e: "strequ (sh_mem s) cmd (sh_lit E ''help'') = Some (xs = bytes_of ''help'')"
    "strequ (sh_mem s) cmd (sh_lit E ''history'') = Some (xs = bytes_of ''history'')"
    "strequ (sh_mem s) cmd (sh_lit E ''clear'') = Some (xs = bytes_of ''clear'')"
    "strequ (sh_mem s) cmd (sh_lit E ''exit'') = Some (xs = bytes_of ''exit'')"
    by (intro strequ_cstr [OF assms(2)] lit; simp)+
  have f: "sh_find_command (sh_mem s) (sh_lit E) cmd = Some (find (\<lambda>c. bytes_of c = xs) sh_commands)"
    unfolding sh_find_command_def by (intro find_command_correct [OF assms(2)]) (auto intro: lit)
  have n: "bytes_of ''exit'' \<noteq> bytes_of ''help''" "bytes_of ''exit'' \<noteq> bytes_of ''history''"
    "bytes_of ''exit'' \<noteq> bytes_of ''clear''" by code_simp+
  show ?thesis
    by (cases "xs = bytes_of ''exit''") (simp_all add: sh_execute_command_def sh_action_def e f n Let_def del: bytes_of_def)
qed

text \<open>
  C38.  Running a command line whose first word is the string \<open>xs\<close>: the four built-in commands come
  first, then the first entry of the table with this name; any other word is answered with an error
  message.  \<open>exit\<close> ends the shell.  After any other action the line is recorded: if it is the same
  as the line before it nothing changes; otherwise an empty line to edit comes in front of the
  history, whose oldest entry is dropped when all slots are in use, and no byte outside the slots
  and nothing else of the state changes; the shell goes on.  An empty line does nothing.  The state
  after the action is assumed to have a well-formed history with terminated lines.
\<close>
theorem sh_execute_command_correct:
  assumes "literals_ok E (sh_mem s)" and "cstr (sh_mem s) cmd xs"
  shows "sh_execute_command E [] s = Some (True, s) \<and>
    (xs = bytes_of ''exit'' \<longrightarrow> sh_execute_command E (cmd # args) s = sh_exit E s) \<and>
    (xs \<noteq> bytes_of ''exit'' \<and> sh_action E xs cmd args s = None \<longrightarrow>
      sh_execute_command E (cmd # args) s = None) \<and>
    (\<forall>s1. xs \<noteq> bytes_of ''exit'' \<and> sh_action E xs cmd args s = Some s1 \<and> history_ok E s1 \<longrightarrow>
      (\<exists>s2. sh_execute_command E (cmd # args) s = Some (True, s2) \<and>
        (if slot_text (history_slot s1 0) = slot_text (history_slot s1 1) then s2 = s1
         else sh_history s2 = take (unat (cb_capacity (sh_history_circ_buf s1))) ([] # sh_history s1) \<and>
           cb_ok (sh_history_circ_buf s2) \<and>
           (\<forall>a. a \<notin> cb_region (sh_history_circ_buf s1) \<longrightarrow> sh_mem s2 a = sh_mem s1 a) \<and>
           s2 = sh_set_mem (sh_mem s2) s1\<lparr>sh_history_circ_buf := sh_history_circ_buf s2\<rparr>)))"
proof (intro conjI allI impI)
  note d = sh_dispatch [OF assms, of args]
  show "sh_execute_command E [] s = Some (True, s)" by (simp add: sh_execute_command_def)
  show "sh_execute_command E (cmd # args) s = sh_exit E s" if "xs = bytes_of ''exit''"
    unfolding d if_P [OF that] ..
  show "sh_execute_command E (cmd # args) s = None"
    if "xs \<noteq> bytes_of ''exit'' \<and> sh_action E xs cmd args s = None"
    using that unfolding d by (simp del: bytes_of_def)
  fix s1 assume a: "xs \<noteq> bytes_of ''exit'' \<and> sh_action E xs cmd args s = Some s1 \<and> history_ok E s1"
  obtain s2 where s2: "sh_push_history E s1 = Some s2" "recorded s1 s2"
    using push_history_recorded a by blast
  then have "sh_execute_command E (cmd # args) s = Some (True, s2)"
    using a unfolding d by (simp del: bytes_of_def)
  then show "\<exists>s2. sh_execute_command E (cmd # args) s = Some (True, s2) \<and>
        (if slot_text (history_slot s1 0) = slot_text (history_slot s1 1) then s2 = s1
         else sh_history s2 = take (unat (cb_capacity (sh_history_circ_buf s1))) ([] # sh_history s1) \<and>
           cb_ok (sh_history_circ_buf s2) \<and>
           (\<forall>a. a \<notin> cb_region (sh_history_circ_buf s1) \<longrightarrow> sh_mem s2 a = sh_mem s1 a) \<and>
           s2 = sh_set_mem (sh_mem s2) s1\<lparr>sh_history_circ_buf := sh_history_circ_buf s2\<rparr>)"
    using s2(2) unfolding recorded_def cb_kept_def Let_def fst_conv snd_conv by (intro exI [of _ s2]) simp
qed

text \<open>Literals at multiples of 16 bytes.\<close>

definition example_names :: "string list" where
  "example_names = [''help'', ''history'', ''clear'', ''exit''] @ sh_commands"

definition example_lit :: "string \<Rightarrow> ptr" where
  "example_lit c = 0x1000 + 16 * of_nat (length (takeWhile (\<lambda>n. n \<noteq> c) example_names))"

definition example_literals :: mem where
  "example_literals a =
     (let k = unat (a - 0x1000); c = example_names ! (k div 16)
      in if k div 16 < length example_names \<and> k mod 16 < length c then byte (c ! (k mod 16)) else 0)"

definition example_env :: "(vbe, unit) sh_env" where
  "example_env =
     \<lparr>sh_dev = vbe_ttyd_functions (\<lambda>_. 0), sh_print = (\<lambda>_ t. Some t), sh_alloc = (\<lambda>_ h. Inr (NULL, h)),
      sh_resize = (\<lambda>_ _ m h. Inr (NULL, m, h)), sh_release = (\<lambda>_ h. Inr h), sh_run = (\<lambda>_ _ s. Some s),
      sh_lit = example_lit, sh_history_buf = 0x9000\<rparr>"

definition example_sh :: "(vbe, unit) sh" where
  "example_sh =
     \<lparr>sh_tty = example_tty\<lparr>tty_mem := example_literals\<rparr>, sh_heap = (), sh_history_circ_buf = circ_buf_init 0x9000 6 4096,
      sh_prompt_limit = 2, sh_history_idx = 0, sh_command_idx = 3\<rparr>"

lemma example_names_short: "\<forall>c\<in>set example_names. length c < 16 \<and> 0 \<notin> set (bytes_of c)"
  by code_simp

lemma example_literal:
  assumes "c \<in> set example_names"
  shows "cstr example_literals (example_lit c) (bytes_of c)"
proof -
  let ?i = "length (takeWhile (\<lambda>n. n \<noteq> c) example_names)"
  have "?i < length example_names"
  proof (rule ccontr)
    assume "\<not> ?i < length example_names"
    then have "takeWhile (\<lambda>n. n \<noteq> c) example_names = example_names"
      using takeWhile_eq_take [of "\<lambda>n. n \<noteq> c" example_names] by simp
    then show False using assms by (metis (mono_tags, lifting) takeWhile_eq_all_conv)
  qed
  moreover from this have "example_names ! ?i = c" using nth_length_takeWhile by blast
  ultimately have i: "?i < length example_names" "example_names ! ?i = c" by simp_all
  have n: "length example_names = 26" by code_simp
  have at: "example_literals (example_lit c + of_nat j) = (if j < length c then byte (c ! j) else 0)" if "j < 16" for j
  proof -
    have e1: "unat (of_nat (16 * ?i + j) :: u64) = 16 * ?i + j" using i(1) n that by (simp add: unat_of_nat take_bit_nat_eq_self del: of_nat_add of_nat_mult)
    have e2: "example_lit c + of_nat j - 0x1000 = of_nat (16 * ?i + j)" by (simp add: example_lit_def)
    have "unat (example_lit c + of_nat j - 0x1000) = 16 * ?i + j" unfolding e2 by (rule e1)
    moreover have "(16 * ?i + j) div 16 = ?i" "(16 * ?i + j) mod 16 = j" using that by simp_all
    ultimately show ?thesis using i unfolding example_literals_def Let_def by simp
  qed
  have l: "length c < 16" "0 \<notin> set (bytes_of c)" using example_names_short assms by blast+
  then have "bytes example_literals (example_lit c) (length (bytes_of c)) = bytes_of c"
    by (intro nth_equalityI) (simp_all add: at bytes_of_def)
  moreover have "example_literals (example_lit c + of_nat (length (bytes_of c))) = 0" using at [OF l(1)] by (simp add: bytes_of_def)
  ultimately show ?thesis using l(2) unfolding cstr_iff by blast
qed

text \<open>The line \<open>isr\<close>, typed into the first slot.\<close>

definition example_history_mem :: mem where
  "example_history_mem = poke example_literals 0x9000 (bytes_of ''isr'')"

definition example_typed :: "(vbe, unit) sh" where
  "example_typed = sh_set_mem example_history_mem example_sh
     \<lparr>sh_history_circ_buf := (circ_buf_init 0x9000 6 4096)\<lparr>cb_size := 1, cb_tail := 1\<rparr>\<rparr>"

lemma slot_text_cstr: "cstr m p xs \<Longrightarrow> length xs < n \<Longrightarrow> slot_text (bytes m p n) = xs \<and> 0 \<in> set (bytes m p n)"
proof (induction xs arbitrary: p n)
  case Nil
  then show ?case by (cases n) (simp_all add: bytes_Suc slot_text_def)
next
  case (Cons x xs)
  then show ?case by (cases n) (auto simp: bytes_Suc slot_text_def)
qed

lemma example_typed_ok:
  "slot_text (history_slot example_typed 0) = bytes_of ''isr''" "slot_text (history_slot example_typed 1) = []"
  "history_ok example_env example_typed" "sh_history example_typed = [bytes_of ''isr'']"
  "literals_ok example_env (sh_mem example_typed)"
proof -
  have m: "sh_mem example_typed = example_history_mem" by (simp add: example_typed_def)
  have r: "sh_history_circ_buf example_typed = (circ_buf_init 0x9000 6 4096)\<lparr>cb_size := 1, cb_tail := 1\<rparr>"
    by (simp add: example_typed_def)
  have n26: "length example_names = 26" by code_simp
  have isr: "bytes_of ''isr'' = [105, 115, 114]" by (simp add: bytes_of_def byte_def)
  have lits: "example_literals a = 0" if "0x2000 \<le> a" for a
  proof -
    have "unat (a - 0x1000) = unat a - 0x1000" "0x2000 \<le> unat a"
      using that by (simp_all add: unat_sub word_le_nat_alt)
    then have "\<not> unat (a - 0x1000) div 16 < length example_names" using n26 by simp
    then show ?thesis by (simp add: example_literals_def Let_def)
  qed
  have outside: "example_history_mem a = example_literals a" if "a \<notin> region 0x9000 3" for a
    unfolding example_history_mem_def isr by (rule poke_outside) (use that in \<open>simp add: numeral_3_eq_3\<close>)
  have s: "history_slot example_typed i = bytes example_history_mem (0x9000 + of_nat (i * 4096)) 4096" if "i < 6" for i
    using that by (simp add: history_slot_def cb_entry_def cb_slot_def m r circ_buf_init_def)
  have "example_history_mem 0x9003 = 0" "example_history_mem 0xA000 = 0"
    by (simp_all add: outside lits region_iff)
  moreover have "bytes example_history_mem 0x9000 (length [105, 115, 114 :: u8]) = [105, 115, 114]"
    unfolding example_history_mem_def isr by (rule poke_bytes) simp
  ultimately have c0: "cstr example_history_mem 0x9000 (bytes_of ''isr'')" and c1: "cstr example_history_mem 0xA000 []"
    by (simp_all add: cstr_iff isr)
  show t: "slot_text (history_slot example_typed 0) = bytes_of ''isr''" "slot_text (history_slot example_typed 1) = []"
    using slot_text_cstr [OF c0, of 4096] slot_text_cstr [OF c1, of 4096] s [of 0] s [of 1] by (simp_all add: isr)
  have "fits (0x11A0 :: ptr) 4096" "fits (0x9000 :: ptr) 24576" by (simp_all add: fits_def)
  then have "region (0x11A0 :: ptr) 4096 \<inter> region 0x9000 24576 = {}" by (rule fits_disjoint) simp
  moreover have "example_lit [CHR 0x00] = 0x11A0" by code_simp
  moreover have "example_literals 0x11A0 = 0" by code_simp
  ultimately show "history_ok example_env example_typed"
    using slot_text_cstr [OF c0, of 4096] slot_text_cstr [OF c1, of 4096] s [of 0] s [of 1]
    by (simp add: history_ok_def isr r m example_env_def cb_region_def circ_buf_init_def cb_ok_def outside region_iff)
  show "sh_history example_typed = [bytes_of ''isr'']"
    using t(1) by (simp add: sh_history_def history_slot_def r m circ_buf_init_def)
  show "literals_ok example_env (sh_mem example_typed)"
    unfolding literals_ok_def m
  proof
    fix c assume "c \<in> set ([''help'', ''history'', ''clear'', ''exit''] @ sh_commands)"
    then have c: "c \<in> set example_names" by (simp add: example_names_def)
    have "length (bytes_of c) < 16" using example_names_short c by (simp add: bytes_of_def)
    moreover have "unat (example_lit c) < 0x2000"
    proof -
      let ?k = "length (takeWhile (\<lambda>n. n \<noteq> c) example_names)"
      have k: "?k \<le> 26" using length_takeWhile_le [of "\<lambda>n. n \<noteq> c" example_names] n26 by simp
      then have "unat (of_nat (0x1000 + 16 * ?k) :: u64) = 0x1000 + 16 * ?k"
        by (simp only: unat_of_nat) (simp add: take_bit_nat_eq_self)
      moreover have "example_lit c = of_nat (0x1000 + 16 * ?k)" by (simp add: example_lit_def)
      ultimately show ?thesis using k by simp
    qed
    ultimately have u: "unat (example_lit c) + Suc (length (bytes_of c)) \<le> 0x9000" by linarith
    have "region (example_lit c) (Suc (length (bytes_of c))) \<inter> region 0x9000 3 = {}"
    proof (rule fits_disjoint)
      show "fits (example_lit c) (Suc (length (bytes_of c)))" using u by (simp add: fits_def del: bytes_of_def)
      show "fits 0x9000 3" by (simp add: fits_def)
      show "unat (example_lit c) + Suc (length (bytes_of c)) \<le> unat (0x9000 :: ptr) \<or>
          unat (0x9000 :: ptr) + 3 \<le> unat (example_lit c)" using u by simp
    qed
    then have "example_history_mem a = example_literals a"
      if "a \<in> region (example_lit c) (Suc (length (bytes_of c)))" for a
      using that outside by blast
    from cstr_cong [OF example_literal [OF c] this]
    show "cstr example_history_mem (sh_lit example_env c) (bytes_of c)" by (simp add: example_env_def)
  qed
qed

theorem sh_execute_command_correct_witness:
  "\<exists>s2. sh_execute_command example_env [example_lit ''isr''] example_typed = Some (True, s2) \<and>
     sh_history s2 = [[], bytes_of ''isr'']"
proof -
  have "cstr (sh_mem example_typed) (example_lit ''isr'') (bytes_of ''isr'')"
    using example_typed_ok(5) by (simp add: literals_ok_def example_env_def sh_commands_def del: bytes_of_def)
  note app = sh_execute_command_correct [OF example_typed_ok(5) this, of "[]"]
  have f: "find (\<lambda>c. bytes_of c = bytes_of ''isr'') sh_commands = Some ''isr''" by code_simp
  have n: "bytes_of ''isr'' \<noteq> bytes_of ''help''" "bytes_of ''isr'' \<noteq> bytes_of ''history''" "bytes_of ''isr'' \<noteq> bytes_of ''clear''"
    "bytes_of ''isr'' \<noteq> bytes_of ''exit''" "bytes_of ''isr'' \<noteq> []" by code_simp+
  have c: "unat (cb_capacity (sh_history_circ_buf example_typed)) = 6"
    by (simp add: example_typed_def circ_buf_init_def)
  have r: "sh_run example_env ''isr'' [example_lit ''isr''] example_typed = Some example_typed" by (simp add: example_env_def)
  have "sh_action example_env (bytes_of ''isr'') (example_lit ''isr'') [] example_typed = Some example_typed"
    using r f n by (simp add: sh_action_def del: bytes_of_def)
  then show ?thesis using app n c example_typed_ok(1-4) by auto
qed

end
