(* ===== verification/Interrupt.thy ===== *)
theory Interrupt
  imports MemMap Keyboard CStdlib
begin

text \<open>
  Interrupts and processes: the segment and interrupt descriptors (\<open>kernel/cpu/gdt.c\<close>,
  \<open>kernel/cpu/idt.c\<close>), the dispatcher and the handlers (\<open>kernel/cpu/isr.c\<close>), the two processes
  between which the timer switches (\<open>kernel/cpu/process.c\<close>).

  Frames and descriptor tables are aligned 64-bit words of the memory \<open>vm_mem\<close> of the memory
  manager.  Whatever reads a control register takes its value as an argument.
\<close>

subsection \<open>Segment descriptors\<close>

definition gdt_create_entry :: "u32 \<Rightarrow> u32 \<Rightarrow> u8 \<Rightarrow> u8 \<Rightarrow> u64" where
  "gdt_create_entry base lim access_byte flags =
     take_bit 16 (ucast lim)
     OR push_bit 48 (take_bit 4 (ucast (drop_bit 16 lim)))
     OR push_bit 16 (take_bit 24 (ucast base))
     OR push_bit 56 (take_bit 8 (ucast (drop_bit 24 base)))
     OR push_bit 52 (take_bit 4 (ucast flags))
     OR push_bit 40 (take_bit 8 (ucast access_byte))"

text \<open>The fields of the union.\<close>

definition gdt_limit1 :: "u64 \<Rightarrow> u64" where "gdt_limit1 e = take_bit 16 e"
definition gdt_base1 :: "u64 \<Rightarrow> u64" where "gdt_base1 e = take_bit 24 (drop_bit 16 e)"
definition gdt_access_ctrl :: "u64 \<Rightarrow> u64" where "gdt_access_ctrl e = take_bit 8 (drop_bit 40 e)"
definition gdt_limit2 :: "u64 \<Rightarrow> u64" where "gdt_limit2 e = take_bit 4 (drop_bit 48 e)"
definition gdt_flags :: "u64 \<Rightarrow> u64" where "gdt_flags e = take_bit 4 (drop_bit 52 e)"
definition gdt_base2 :: "u64 \<Rightarrow> u64" where "gdt_base2 e = take_bit 8 (drop_bit 56 e)"

text \<open>
  The fields are narrower than an \<open>int\<close> and promoted to it; \<open>base2 << 24\<close> wraps in 32 bits.
\<close>

definition gdt_entry_get_limit :: "u64 \<Rightarrow> u32" where
  "gdt_entry_get_limit e = ucast (gdt_limit1 e) + push_bit 16 (ucast (gdt_limit2 e))"

definition gdt_entry_get_base :: "u64 \<Rightarrow> u32" where
  "gdt_entry_get_base e = ucast (gdt_base1 e) + push_bit 24 (ucast (gdt_base2 e))"

text \<open>The table the boot code set up: its size less 1 and its address.\<close>

record gdt_pointer =
  main_gdt_pointer_size :: u16
  main_gdt_pointer_base :: u64

definition gdt_get_descriptor :: "gdt_pointer \<Rightarrow> u16 \<times> u64" where
  "gdt_get_descriptor g = (main_gdt_pointer_size g, main_gdt_pointer_base g)"

definition gdt_get_handle :: "gdt_pointer \<Rightarrow> u16 \<times> ptr" where
  "gdt_get_handle g =
     (word_of_nat ((unat (main_gdt_pointer_size g) + 1) div 8), main_gdt_pointer_base g)"

definition gdt_print_info :: "gdt_pointer \<Rightarrow> wmem \<Rightarrow> printed" where
  "gdt_print_info g w =
     (let (len, entries) = gdt_get_handle g
      in [(''GDT size (in bytes): %d\<newline>'', [PNum (ucast (main_gdt_pointer_size g) + 1)]),
          (''GDT num entries: %d\<newline>'', [PNum (ucast len)])] @
         concat (map (\<lambda>i. let entry = w (entries + 8 * of_nat i) in
           [(''GDT entry %d: 0x%.16llx\<newline>'', [PNum (of_nat i), PNum entry]),
            (''  base address: 0x%.8x\<newline>'', [PNum (ucast (gdt_entry_get_base entry))]),
            (''  limit: 0x%.5x\<newline>'', [PNum (ucast (gdt_entry_get_limit entry))]),
            (''  access control: 0b%.8b\<newline>'', [PNum (gdt_access_ctrl entry)]),
            (''  flags: 0b%.4b\<newline>'', [PNum (gdt_flags entry)])]) [0..<unat len]))"

subsection \<open>Interrupt descriptors\<close>

definition CODE_SEG :: u16 where "CODE_SEG = 0x0008"
definition DATA_SEG :: u16 where "DATA_SEG = 0x0010"

record idt_descriptor =
  idt_desc_size :: u16
  idt_desc_offset :: u64

record idt_entry =
  idt_offset1 :: u16
  idt_selector :: u16
  idt_ist :: u8
  idt_reserved1 :: u8
  idt_access_ctrl :: u8
  idt_offset2 :: "48 word"
  idt_reserved2 :: u32

text \<open>The access byte: \<open>gate_type\<close> in bits 0 to 3, \<open>privilege\<close> in bits 5 and 6, \<open>present\<close> in bit 7.\<close>

definition idt_access_byte :: "u8 \<Rightarrow> u8 \<Rightarrow> u8 \<Rightarrow> u8" where
  "idt_access_byte pres privilege gate_type =
     take_bit 4 gate_type OR push_bit 5 (take_bit 2 privilege) OR push_bit 7 pres"

definition idt_create_entry :: "u64 \<Rightarrow> u16 \<Rightarrow> u8 \<Rightarrow> idt_entry" where
  "idt_create_entry isr_addr seg_select access_byte =
     \<lparr>idt_offset1 = ucast isr_addr, idt_selector = seg_select, idt_ist = 0, idt_reserved1 = 0,
      idt_access_ctrl = access_byte, idt_offset2 = ucast (drop_bit 16 isr_addr), idt_reserved2 = 0\<rparr>"

text \<open>The packed struct as its two 64-bit words, the bit fields \<open>ist\<close> and \<open>reserved1\<close> in one byte.\<close>

definition idt_entry_low :: "idt_entry \<Rightarrow> u64" where
  "idt_entry_low e = ucast (idt_offset1 e) OR push_bit 16 (ucast (idt_selector e))
     OR push_bit 32 (take_bit 3 (ucast (idt_ist e))) OR push_bit 35 (take_bit 5 (ucast (idt_reserved1 e)))
     OR push_bit 40 (ucast (idt_access_ctrl e)) OR push_bit 48 (ucast (idt_offset2 e))"

definition idt_entry_high :: "idt_entry \<Rightarrow> u64" where
  "idt_entry_high e = drop_bit 16 (ucast (idt_offset2 e)) OR push_bit 32 (ucast (idt_reserved2 e))"

definition idt_load :: "wmem \<Rightarrow> ptr \<Rightarrow> idt_entry" where
  "idt_load w p =
     \<lparr>idt_offset1 = ucast (w p), idt_selector = ucast (drop_bit 16 (w p)),
      idt_ist = take_bit 3 (ucast (drop_bit 32 (w p))), idt_reserved1 = take_bit 5 (ucast (drop_bit 35 (w p))),
      idt_access_ctrl = ucast (drop_bit 40 (w p)),
      idt_offset2 = ucast (drop_bit 48 (w p)) OR push_bit 16 (ucast (w (p + 8))),
      idt_reserved2 = ucast (drop_bit 32 (w (p + 8)))\<rparr>"

text \<open>
  GCC computes \<open>offset2 << 16\<close> in the type of the bit field, which has 48 bits: bits 48 to 63 of
  the address are lost.
\<close>

definition idt_entry_get_offset :: "idt_entry \<Rightarrow> u64" where
  "idt_entry_get_offset e = ucast (idt_offset1 e) + ucast (push_bit 16 (idt_offset2 e) :: 48 word)"

text \<open>
  \<open>idt\<close> is the address of the table the boot code filled with the handlers' addresses, \<open>idt_size\<close>
  the number of its entries; \<open>LIDT\<close> and \<open>STI\<close> are arguments.
\<close>

definition idt_install :: "(idt_descriptor \<Rightarrow> 'd \<Rightarrow> 'd) \<Rightarrow> 'd ports \<Rightarrow> idt_descriptor \<Rightarrow> 'd \<Rightarrow> 'd" where
  "idt_install LIDT P desc d = STI P (LIDT desc d)"

definition idt_init_entry :: "ptr \<Rightarrow> u64 \<Rightarrow> wmem \<Rightarrow> wmem" where
  "idt_init_entry idt i w =
     (let isr_addr = w (idt + 16 * i);
          e = idt_create_entry isr_addr CODE_SEG (idt_access_byte 1 0 0xE)
      in w(idt + 16 * i := idt_entry_low e, idt + 16 * i + 8 := idt_entry_high e))"

definition idt_init ::
  "(idt_descriptor \<Rightarrow> 'd \<Rightarrow> 'd) \<Rightarrow> 'd ports \<Rightarrow> ptr \<Rightarrow> u16 \<Rightarrow> wmem \<Rightarrow> 'd \<Rightarrow> bool \<times> idt_descriptor \<times> wmem \<times> 'd" where
  "idt_init LIDT P idt idt_size w d =
     (let w = for_upto 0 (ucast idt_size) (idt_init_entry idt) w;
          desc = \<lparr>idt_desc_size = ucast (ucast idt_size * 16 - 1 :: u64), idt_desc_offset = idt\<rparr>
      in (True, desc, w, idt_install LIDT P desc d))"

definition idt_print_info :: "ptr \<Rightarrow> u16 \<Rightarrow> wmem \<Rightarrow> printed" where
  "idt_print_info idt idt_size w =
     [(''IDT entry size (in bytes): %ld\<newline>'', [PNum 16]),
      (''IDT num entries: %d\<newline>'', [PNum (ucast idt_size)])] @
     concat (map (\<lambda>i. let entry = idt_load w (idt + 16 * of_nat i) in
       [(''IDT entry %d\<newline>'', [PNum (of_nat i)]),
        (''  offset: 0x%.16lx\<newline>'', [PNum (idt_entry_get_offset entry)]),
        (''  access control: 0b%.8b\<newline>'', [PNum (ucast (idt_access_ctrl entry))]),
        (''  ist: 0b%.8b\<newline>'', [PNum (ucast (idt_ist entry))])]) [0..<unat idt_size])"

text \<open>
  The console command \<open>int\<close>: what it prints and the interrupt it triggers.  \<open>argv\<close> is the list
  of the argument strings' addresses; a call whose \<open>strtol\<close> does not return is \<open>None\<close>.
\<close>

definition idt_interrupt :: "mem \<Rightarrow> ptr list \<Rightarrow> (printed \<times> nat option) option" where
  "idt_interrupt m argv =
     (if length argv = 2
      then do { (l, endp, range_error) \<leftarrow> strtol m (argv ! 1) 16;
                let vec = (word_of_int l :: u32);
                let out = [(''Triggering interrupt vector %d (int 0x%x)\<newline>'', [PNum (ucast vec), PNum (ucast vec)])];
                Some (if unat vec \<le> 64 then (out, Some (unat vec))
                      else (out @ [(''int: invalid interrupt vector: %s'', [PChars (argv ! 1)])], None)) }
      else Some ([(''Usage: int [vector]'', [])], None))"

subsection \<open>Interrupt frames\<close>

text \<open>
  \<open>interrupt_frame\<close> without the 512 bytes \<open>fx\<close> of the floating point unit, which the kernel's C
  code never touches; \<open>read_frame\<close> gives each register its place in the packed struct.
\<close>

definition PIT_VECTOR :: u64 where "PIT_VECTOR = 0x20"
definition KEYBOARD_VECTOR :: u64 where "KEYBOARD_VECTOR = 0x21"
definition PAGE_FAULT_VECTOR :: u64 where "PAGE_FAULT_VECTOR = 0x0E"

record interrupt_frame =
  if_cr3 :: u64
  if_cr0 :: u64
  if_cr2 :: u64
  if_cr4 :: u64
  if_es :: u64
  if_ds :: u64
  if_gs :: u64
  if_fs :: u64
  if_r15 :: u64
  if_r14 :: u64
  if_r13 :: u64
  if_r12 :: u64
  if_r11 :: u64
  if_r10 :: u64
  if_r9 :: u64
  if_r8 :: u64
  if_rbp :: u64
  if_rdi :: u64
  if_rsi :: u64
  if_rdx :: u64
  if_rcx :: u64
  if_rbx :: u64
  if_rax :: u64
  if_available :: u64
  if_vector_num :: u64
  if_error_code :: u64
  if_rip :: u64
  if_cs :: u64
  if_rfl :: u64
  if_rsp :: u64
  if_ss :: u64

definition sizeof_interrupt_frame :: u64 where "sizeof_interrupt_frame = 760"

definition read_frame :: "wmem \<Rightarrow> ptr \<Rightarrow> interrupt_frame" where
  "read_frame w f =
     \<lparr>if_cr3 = w (f + 0),
      if_cr0 = w (f + 8),
      if_cr2 = w (f + 16),
      if_cr4 = w (f + 24),
      if_es = w (f + 32),
      if_ds = w (f + 40),
      if_gs = w (f + 48),
      if_fs = w (f + 56),
      if_r15 = w (f + 64),
      if_r14 = w (f + 72),
      if_r13 = w (f + 80),
      if_r12 = w (f + 88),
      if_r11 = w (f + 96),
      if_r10 = w (f + 104),
      if_r9 = w (f + 112),
      if_r8 = w (f + 120),
      if_rbp = w (f + 128),
      if_rdi = w (f + 136),
      if_rsi = w (f + 144),
      if_rdx = w (f + 152),
      if_rcx = w (f + 160),
      if_rbx = w (f + 168),
      if_rax = w (f + 176),
      if_available = w (f + 696),
      if_vector_num = w (f + 704),
      if_error_code = w (f + 712),
      if_rip = w (f + 720),
      if_cs = w (f + 728),
      if_rfl = w (f + 736),
      if_rsp = w (f + 744),
      if_ss = w (f + 752)\<rparr>"

text \<open>The bits of \<open>rflags\<close>.\<close>

definition rfl_CF :: "u64 \<Rightarrow> bool" where "rfl_CF v = bit v 0"
definition rfl_PF :: "u64 \<Rightarrow> bool" where "rfl_PF v = bit v 2"
definition rfl_AF :: "u64 \<Rightarrow> bool" where "rfl_AF v = bit v 4"
definition rfl_ZF :: "u64 \<Rightarrow> bool" where "rfl_ZF v = bit v 6"
definition rfl_SF :: "u64 \<Rightarrow> bool" where "rfl_SF v = bit v 7"
definition rfl_TF :: "u64 \<Rightarrow> bool" where "rfl_TF v = bit v 8"
definition rfl_IF :: "u64 \<Rightarrow> bool" where "rfl_IF v = bit v 9"
definition rfl_DF :: "u64 \<Rightarrow> bool" where "rfl_DF v = bit v 10"
definition rfl_OF :: "u64 \<Rightarrow> bool" where "rfl_OF v = bit v 11"
definition rfl_NT :: "u64 \<Rightarrow> bool" where "rfl_NT v = bit v 14"
definition rfl_MD :: "u64 \<Rightarrow> bool" where "rfl_MD v = bit v 15"
definition rfl_RF :: "u64 \<Rightarrow> bool" where "rfl_RF v = bit v 16"
definition rfl_VM :: "u64 \<Rightarrow> bool" where "rfl_VM v = bit v 17"
definition rfl_AC :: "u64 \<Rightarrow> bool" where "rfl_AC v = bit v 18"
definition rfl_VIF :: "u64 \<Rightarrow> bool" where "rfl_VIF v = bit v 19"
definition rfl_VIP :: "u64 \<Rightarrow> bool" where "rfl_VIP v = bit v 20"
definition rfl_ID :: "u64 \<Rightarrow> bool" where "rfl_ID v = bit v 21"
definition rfl_IOPL :: "u64 \<Rightarrow> u64" where "rfl_IOPL v = take_bit 2 (drop_bit 12 v)"

subsection \<open>Handlers\<close>

text \<open>What \<open>default_isr\<close> hands to \<open>sprintf\<close> and to \<open>panic\<close> before the machine stops.\<close>

definition isr_flags :: "u64 \<Rightarrow> string \<times> print_arg list" where
  "isr_flags v = (''[%s%s%s%s%s%s%s%s%s] IOPL=%d %s %s %s %s %s %s %s %s'',
     [PStr (if rfl_OF v then ''O'' else ''-''), PStr (if rfl_DF v then ''D'' else ''-''),
      PStr (if rfl_IF v then ''I'' else ''-''), PStr (if rfl_TF v then ''T'' else ''-''),
      PStr (if rfl_SF v then ''S'' else ''-''), PStr (if rfl_ZF v then ''Z'' else ''-''),
      PStr (if rfl_AF v then ''A'' else ''-''), PStr (if rfl_PF v then ''P'' else ''-''),
      PStr (if rfl_CF v then ''C'' else ''-''), PNum (rfl_IOPL v), PStr (if rfl_NT v then
      ''NT'' else ''''), PStr (if rfl_MD v then ''MD'' else ''''), PStr (if rfl_RF v then
      ''RF'' else ''''), PStr (if rfl_VM v then ''VM'' else ''''), PStr (if rfl_AC v then
      ''AC'' else ''''), PStr (if rfl_VIF v then ''VIF'' else ''''), PStr (if rfl_VIP v then
      ''VIP'' else ''''), PStr (if rfl_ID v then ''ID'' else '''')])"

definition unhandled_message :: string where
  "unhandled_message = ''Unhandled interrupt 0x%02lx, e=%04lx\<newline>'' @
     ''RAX=%016lx RBX=%016lx RCX=%016lx RDX=%016lx \<newline>'' @
     ''RSI=%016lx RDI=%016lx RBP=%016lx RSP=%016lx \<newline>'' @
     ''R8 =%016lx R9 =%016lx R10=%016lx R11=%016lx \<newline>'' @
     ''R12=%016lx R13=%016lx R14=%016lx R15=%016lx \<newline>'' @
     ''RIP=%016lx RFL=%016lx %s\<newline>'' @
     ''ES =%04lx \<newline>'' @
     ''CS =%04lx \<newline>'' @
     ''SS =%04lx \<newline>'' @
     ''DS =%04lx \<newline>'' @
     ''FS =%04lx \<newline>'' @
     ''GS =%04lx \<newline>'' @
     ''CR0=%08lx CR2=%016lx CR3=%016lx CR4=%08lx \<newline>''"

definition unhandled_arguments :: "interrupt_frame \<Rightarrow> ptr \<Rightarrow> print_arg list" where
  "unhandled_arguments fr flags =
     [PNum (if_vector_num fr), PNum (if_error_code fr), PNum (if_rax fr), PNum (if_rbx fr),
      PNum (if_rcx fr), PNum (if_rdx fr), PNum (if_rsi fr), PNum (if_rdi fr), PNum (if_rbp
      fr), PNum (if_rsp fr), PNum (if_r8 fr), PNum (if_r9 fr), PNum (if_r10 fr), PNum
      (if_r11 fr), PNum (if_r12 fr), PNum (if_r13 fr), PNum (if_r14 fr), PNum (if_r15 fr),
      PNum (if_rip fr), PNum (if_rfl fr), PChars flags, PNum (if_es fr), PNum (if_cs fr),
      PNum (if_ss fr), PNum (if_ds fr), PNum (if_fs fr), PNum (if_gs fr), PNum (if_cr0 fr),
      PNum (if_cr2 fr), PNum (if_cr3 fr), PNum (if_cr4 fr)]"

definition default_isr :: "'a result" where
  "default_isr = Inl (Panic unhandled_message)"

text \<open>
  The state of interrupts and processes, on top of the memory manager's.  \<open>cur\<close> is \<open>p\<close>, the
  process that runs.
\<close>

record pcs_process =
  pcs_stack :: ptr
  pcs_main :: ptr
  pcs_frame :: ptr

record kernel = mem_state +
  pcs_processes :: "nat \<Rightarrow> pcs_process"
  pcs_stack_addr :: u64
  cur :: nat
  pit_interrupt_count :: u64
  keyboard_interrupt_count :: u64
  page_fault_interrupt_count :: u64
  kbd :: keyboard

definition keyboard_isr :: "'d ports \<Rightarrow> ptr \<Rightarrow> kernel \<Rightarrow> 'd \<Rightarrow> (kernel \<times> 'd) result" where
  "keyboard_isr P sp k d =
     bind_result (run (kb_enqueue_event P sp (kbd k) d))
       (\<lambda>(kb, d). Inr (k\<lparr>kbd := kb\<rparr>, pic_eoi P PIC_KEYBOARD_IRQ d))"

definition pit_isr :: "'d ports \<Rightarrow> ptr \<Rightarrow> kernel \<Rightarrow> 'd \<Rightarrow> ptr \<times> kernel \<times> 'd" where
  "pit_isr P frm k d =
     (let k = k\<lparr>pcs_processes := (pcs_processes k)(cur k := pcs_processes k (cur k)\<lparr>pcs_frame := frm\<rparr>)\<rparr>;
          k = k\<lparr>cur := if cur k = 0 then 1 else 0\<rparr>;
          d = pic_eoi P PIC_PIT_IRQ d
      in (pcs_frame (pcs_processes k (cur k)), k, d))"

text \<open>\<open>mem_page_fault_handler\<close> reads \<open>cr2\<close> from the frame and clears it there.\<close>

definition page_fault_isr :: "ptr \<Rightarrow> kernel \<Rightarrow> kernel result" where
  "page_fault_isr frm k =
     bind_result (vm_op (\<lambda>v. run (mem_page_fault_handler (if_cr2 (read_frame (vm_mem v) frm)) v)) (mem_state.truncate k))
       (\<lambda>(cr2, s). Inr (k\<lparr>vm_mem := (vm_mem s)(frm + 16 := cr2), mem_inited := mem_inited s,
          mem_low_pgm_handle := mem_low_pgm_handle s, mem_main_pgm_handle := mem_main_pgm_handle s\<rparr>))"

definition main_isr :: "'d ports \<Rightarrow> ptr \<Rightarrow> ptr \<Rightarrow> kernel \<Rightarrow> 'd \<Rightarrow> (ptr \<times> kernel \<times> 'd) result" where
  "main_isr P sp frm k d =
     (let vector = if_vector_num (read_frame (vm_mem k) frm)
      in if vector = PIT_VECTOR
         then Inr (pit_isr P frm (k\<lparr>pit_interrupt_count := pit_interrupt_count k + 1\<rparr>) d)
         else if vector = PAGE_FAULT_VECTOR
         then bind_result (page_fault_isr frm (k\<lparr>page_fault_interrupt_count := page_fault_interrupt_count k + 1\<rparr>))
                (\<lambda>k. Inr (frm, k, d))
         else if vector = KEYBOARD_VECTOR
         then bind_result (keyboard_isr P sp (k\<lparr>keyboard_interrupt_count := keyboard_interrupt_count k + 1\<rparr>) d)
                (\<lambda>(k, d). Inr (frm, k, d))
         else default_isr)"

definition isr_print_info :: "kernel \<Rightarrow> printed" where
  "isr_print_info k =
     [('' %12s %12s\<newline>'', [PStr ''ISR'', PStr ''Count'']),
      ('' %12s %12s\<newline>'', [PStr ''=========='', PStr ''========'']),
      ('' %12s %12ld\<newline>'', [PStr ''Page Fault'', PNum (page_fault_interrupt_count k)]),
      ('' %12s %12ld\<newline>'', [PStr ''Keyboard'', PNum (keyboard_interrupt_count k)])]"

subsection \<open>Processes\<close>

definition PCS_STACK_SIZE :: u64 where "PCS_STACK_SIZE = 16 * 1024"

definition pcs_allocate_stack :: "kernel \<Rightarrow> ptr \<times> kernel" where
  "pcs_allocate_stack k =
     (let a = pcs_stack_addr k + PCS_STACK_SIZE in (a, k\<lparr>pcs_stack_addr := a\<rparr>))"

text \<open>\<open>cr\<close> are the values of the control registers 0, 2, 3 and 4, which \<open>__cr\<close> reads.\<close>

definition write_frame :: "u64 \<times> u64 \<times> u64 \<times> u64 \<Rightarrow> ptr \<Rightarrow> ptr \<Rightarrow> ptr \<Rightarrow> wmem \<Rightarrow> wmem" where
  "write_frame cr stack main f w =
     (case cr of (cr0, cr2, cr3, cr4) \<Rightarrow>
       w(f + 8 := cr0, f + 16 := cr2, f + 0 := cr3, f + 24 := cr4,
         f + 32 := ucast DATA_SEG, f + 728 := ucast CODE_SEG, f + 40 := ucast DATA_SEG,
         f + 56 := ucast DATA_SEG, f + 48 := ucast DATA_SEG, f + 752 := ucast DATA_SEG,
         f + 736 := w (f + 736) OR 2 ^ 9,
         f + 128 := stack - 8, f + 744 := stack - 8, f + 720 := main))"

definition create_process :: "u64 \<times> u64 \<times> u64 \<times> u64 \<Rightarrow> ptr \<Rightarrow> kernel \<Rightarrow> pcs_process \<times> kernel" where
  "create_process cr main k =
     (let (stack, k) = pcs_allocate_stack k;
          f = stack - sizeof_interrupt_frame
      in (\<lparr>pcs_stack = stack, pcs_main = main, pcs_frame = f\<rparr>,
          k\<lparr>vm_mem := write_frame cr stack main f (vm_mem k)\<rparr>))"

definition memset_words :: "ptr \<Rightarrow> u64 \<Rightarrow> wmem \<Rightarrow> wmem" where
  "memset_words p n w = for_upto 0 (n div 8) (\<lambda>i w. w(p + 8 * i := 0)) w"

text \<open>
  \<open>sh_start\<close> and \<open>idle_main\<close> are the addresses of the two main functions.  The result is also
  false when the memory of the stacks cannot be mapped; \<open>mem_update_range\<close> is not checked.
\<close>

definition pcs_init ::
  "u64 \<times> u64 \<times> u64 \<times> u64 \<Rightarrow> u32 \<Rightarrow> ptr \<Rightarrow> ptr \<Rightarrow> kernel \<Rightarrow> (bool \<times> kernel) result" where
  "pcs_init cr cpu_core_count sh_start idle_main k =
     (let k = k\<lparr>pcs_stack_addr := STACK_VIRTUAL_ADDR\<rparr>;
          sz = ucast (cpu_core_count * ucast PCS_STACK_SIZE :: u32) :: u64
      in bind_result (vm_op (mem_allocate_range (pcs_stack_addr k) sz) (mem_state.truncate k))
        (\<lambda>(ok, s). let k = k\<lparr>vm_mem := vm_mem s, mem_inited := mem_inited s,
             mem_low_pgm_handle := mem_low_pgm_handle s, mem_main_pgm_handle := mem_main_pgm_handle s\<rparr>
           in if \<not> ok then Inr (False, k)
              else let k = k\<lparr>vm_mem := memset_words (pcs_stack_addr k) sz (vm_mem k)\<rparr>
              in bind_result (mem_update_range (pcs_stack_addr k) 0 sz MEMORY_STACKS (mem_map k) (mem_nodes k))
                (\<lambda>(_, rs, nodes). let k = k\<lparr>mem_map := rs, mem_nodes := nodes\<rparr>;
                     (p0, k) = create_process cr sh_start k;
                     k = k\<lparr>pcs_processes := (pcs_processes k)(0 := p0)\<rparr>;
                     (p1, k) = create_process cr idle_main k;
                     k = k\<lparr>pcs_processes := (pcs_processes k)(1 := p1)\<rparr>
                   in Inr (True, k))))"

subsection \<open>Descriptors and their fields\<close>

lemma add_push_bit:
  fixes a b :: "'a::len word"
  assumes "take_bit n a = a"
  shows "a + push_bit n b = a OR push_bit n b"
proof (rule disjunctive_add)
  fix k
  have "\<not> bit a k" if "n \<le> k" using assms that by (metis bit_take_bit_iff linorder_not_le)
  then show "\<not> bit a k \<or> \<not> bit (push_bit n b) k" by (auto simp: bit_push_bit_iff)
qed

lemma bit_gdt:
  "bit (gdt_create_entry base lim access_byte flags) n \<longleftrightarrow>
     (if n < 16 then bit lim n else if n < 40 then bit base (n - 16) else if n < 48 then bit access_byte (n - 40)
      else if n < 52 then bit lim (n - 32) else if n < 56 then bit flags (n - 52)
      else n < 64 \<and> bit base (n - 32))"
proof -
  consider "n < 16" | "16 \<le> n" "n < 40" | "40 \<le> n" "n < 48" | "48 \<le> n" "n < 52" | "52 \<le> n" "n < 56"
    | "56 \<le> n" "n < 64" | "64 \<le> n" by linarith
  then show ?thesis
    by cases (auto simp: gdt_create_entry_def bit_simps dest: bit_imp_le_length)
qed

lemma gdt_base: "gdt_entry_get_base (gdt_create_entry base lim access_byte flags) = base"
proof -
  let ?e = "gdt_create_entry base lim access_byte flags"
  have "take_bit 24 (ucast (gdt_base1 ?e) :: u32) = ucast (gdt_base1 ?e)"
    by (rule bit_word_eqI) (auto simp: gdt_base1_def bit_simps)
  then have "gdt_entry_get_base ?e = ucast (gdt_base1 ?e) OR push_bit 24 (ucast (gdt_base2 ?e))"
    unfolding gdt_entry_get_base_def by (rule add_push_bit)
  also have "\<dots> = base"
    by (rule bit_word_eqI) (auto simp: gdt_base1_def gdt_base2_def bit_gdt bit_simps)
  finally show ?thesis .
qed

lemma gdt_limit: "gdt_entry_get_limit (gdt_create_entry base lim access_byte flags) = take_bit 20 lim"
proof -
  let ?e = "gdt_create_entry base lim access_byte flags"
  have "take_bit 16 (ucast (gdt_limit1 ?e) :: u32) = ucast (gdt_limit1 ?e)"
    by (rule bit_word_eqI) (auto simp: gdt_limit1_def bit_simps)
  then have "gdt_entry_get_limit ?e = ucast (gdt_limit1 ?e) OR push_bit 16 (ucast (gdt_limit2 ?e))"
    unfolding gdt_entry_get_limit_def by (rule add_push_bit)
  also have "\<dots> = take_bit 20 lim"
    by (rule bit_word_eqI) (auto simp: gdt_limit1_def gdt_limit2_def bit_gdt bit_simps)
  finally show ?thesis .
qed

lemma gdt_bytes:
  "gdt_access_ctrl (gdt_create_entry base lim access_byte flags) = ucast access_byte"
  "gdt_flags (gdt_create_entry base lim access_byte flags) = take_bit 4 (ucast flags)"
  by (rule bit_word_eqI; auto simp: gdt_access_ctrl_def gdt_flags_def bit_gdt bit_simps dest: bit_imp_le_length)+

lemma idt_load_stored:
  assumes "w p = idt_entry_low e" and "w (p + 8) = idt_entry_high e"
    and "take_bit 3 (idt_ist e) = idt_ist e" and "take_bit 5 (idt_reserved1 e) = idt_reserved1 e"
  shows "idt_load w p = e"
proof -
  have "ucast (idt_entry_low e) = idt_offset1 e" "ucast (drop_bit 16 (idt_entry_low e)) = idt_selector e"
    "ucast (drop_bit 40 (idt_entry_low e)) = idt_access_ctrl e" "ucast (drop_bit 32 (idt_entry_high e)) = idt_reserved2 e"
    "ucast (drop_bit 48 (idt_entry_low e)) OR push_bit 16 (ucast (idt_entry_high e)) = idt_offset2 e"
    by (rule bit_word_eqI; auto simp: idt_entry_low_def idt_entry_high_def bit_simps dest: bit_imp_le_length)+
  moreover have "take_bit 3 (ucast (drop_bit 32 (idt_entry_low e))) = take_bit 3 (idt_ist e)"
    "take_bit 5 (ucast (drop_bit 35 (idt_entry_low e))) = take_bit 5 (idt_reserved1 e)"
    by (rule bit_word_eqI; auto simp: idt_entry_low_def idt_entry_high_def bit_simps dest: bit_imp_le_length)+
  ultimately show ?thesis using assms by (intro idt_entry.equality) (simp_all add: idt_load_def)
qed

lemma idt_offset: "idt_entry_get_offset (idt_create_entry addr sel access_byte) = take_bit 48 addr"
proof -
  let ?e = "idt_create_entry addr sel access_byte"
  have "ucast (push_bit 16 (idt_offset2 ?e) :: 48 word) = push_bit 16 (ucast (take_bit 32 (idt_offset2 ?e)) :: u64)"
    by (rule bit_word_eqI) (auto simp: bit_simps)
  moreover have "take_bit 16 (ucast (idt_offset1 ?e) :: u64) = ucast (idt_offset1 ?e)"
    by (rule bit_word_eqI) (auto simp: bit_simps dest: bit_imp_le_length)
  ultimately have "idt_entry_get_offset ?e = ucast (idt_offset1 ?e) OR push_bit 16 (ucast (take_bit 32 (idt_offset2 ?e)))"
    unfolding idt_entry_get_offset_def by (simp add: add_push_bit)
  also have "\<dots> = take_bit 48 addr"
    by (rule bit_word_eqI) (auto simp: idt_create_entry_def bit_simps)
  finally show ?thesis .
qed

text \<open>The loop over the table: entry \<open>i\<close> is rewritten from its own first word.\<close>

definition gate_for :: "u64 \<Rightarrow> idt_entry" where
  "gate_for addr = idt_create_entry addr CODE_SEG (idt_access_byte 1 0 0xE)"

lemma gate_for_simps [simp]:
  "idt_offset1 (gate_for addr) = ucast addr" "idt_offset2 (gate_for addr) = ucast (drop_bit 16 addr)"
  "idt_ist (gate_for addr) = 0" "idt_reserved1 (gate_for addr) = 0"
  by (simp_all add: gate_for_def idt_create_entry_def)

lemma idt_init_loop:
  fixes idt :: ptr and n :: u16 and w :: wmem
  defines "w' \<equiv> for_upto 0 (ucast n) (idt_init_entry idt) w"
  shows "(\<forall>i<unat n. w' (idt + of_nat (16 * i)) = idt_entry_low (gate_for (w (idt + of_nat (16 * i)))) \<and>
        w' (idt + of_nat (16 * i + 8)) = idt_entry_high (gate_for (w (idt + of_nat (16 * i))))) \<and>
    (\<forall>a. a \<notin> region idt (16 * unat n) \<longrightarrow> w' a = w a)"
proof -
  let ?P = "\<lambda>k t. (\<forall>i<k. t (idt + of_nat (16 * i)) = idt_entry_low (gate_for (w (idt + of_nat (16 * i)))) \<and>
        t (idt + of_nat (16 * i + 8)) = idt_entry_high (gate_for (w (idt + of_nat (16 * i))))) \<and>
    (\<forall>a. a \<notin> region idt (16 * k) \<longrightarrow> t a = w a)"
  have n: "unat (ucast n :: u64) = unat n" "unat n < 2 ^ 16"
    using unsigned_less [of n, where 'a = nat] by (simp_all add: unsigned_ucast_eq take_bit_nat_eq_self)
  have "?P (unat (ucast n :: u64)) w'"
    unfolding w'_def
  proof (rule for_upto_invariant [where P = ?P])
    show "?P 0 w" by simp
  next
    fix k t assume k: "k < unat (ucast n :: u64)" and P: "?P k t"
    then have small: "16 * k + 16 < 2 ^ 64" using n by simp
    have "idt + of_nat (16 * k) \<notin> region idt (16 * k)" using small by (intro not_in_region) simp
    then have old: "t (idt + of_nat (16 * k)) = w (idt + of_nat (16 * k))" using P by blast
    let ?e = "gate_for (w (idt + of_nat (16 * k)))"
    have t': "idt_init_entry idt (of_nat k) t =
        t(idt + of_nat (16 * k) := idt_entry_low ?e, idt + of_nat (16 * k + 8) := idt_entry_high ?e)"
      using old by (simp add: idt_init_entry_def gate_for_def algebra_simps Let_def)
    have ne: "idt + of_nat x = idt + of_nat y \<longleftrightarrow> x = y" if "x < 16 * k + 16" "y < 16 * k + 16" for x y
      using that small by (intro ptr_add_eq_iff) simp_all
    have r: "a \<noteq> idt + of_nat (16 * k) \<and> a \<noteq> idt + of_nat (16 * k + 8) \<and> a \<notin> region idt (16 * k)"
      if "a \<notin> region idt (16 * Suc k)" for a
      using that region_mono [of "16 * k" "16 * Suc k" idt] regionI [of "16 * k" "16 * Suc k" idt]
        regionI [of "16 * k + 8" "16 * Suc k" idt] by (auto simp del: of_nat_add of_nat_mult)
    have "idt_init_entry idt (of_nat k) t (idt + of_nat (16 * i)) = idt_entry_low (gate_for (w (idt + of_nat (16 * i)))) \<and>
        idt_init_entry idt (of_nat k) t (idt + of_nat (16 * i + 8)) = idt_entry_high (gate_for (w (idt + of_nat (16 * i))))"
      if "i < Suc k" for i
    proof (cases "i = k")
      case True
      then show ?thesis using ne [of "16 * k" "16 * k + 8"] unfolding t' by (simp del: of_nat_add of_nat_mult add_left_cancel)
    next
      case False
      then have "i < k" using that by simp
      then show ?thesis
        using ne [of "16 * i" "16 * k"] ne [of "16 * i" "16 * k + 8"] ne [of "16 * i + 8" "16 * k"]
          ne [of "16 * i + 8" "16 * k + 8"] P that
        unfolding t' by (simp del: of_nat_add of_nat_mult add_left_cancel)
    qed
    then show "?P (Suc k) (idt_init_entry idt (of_nat k) t)"
      using P r unfolding t' by (simp del: of_nat_add of_nat_mult add_left_cancel)
  qed
  then show ?thesis unfolding n(1) .
qed

subsection \<open>Properties of the descriptor tables\<close>

text \<open>
  C29.  A segment descriptor gives back the base address, the lower 20 bits of the limit, the access
  byte and the four flags it was built from.
\<close>
theorem gdt_roundtrip:
  "gdt_entry_get_base (gdt_create_entry base lim access_byte flags) = base \<and>
   gdt_entry_get_limit (gdt_create_entry base lim access_byte flags) = take_bit 20 lim \<and>
   gdt_access_ctrl (gdt_create_entry base lim access_byte flags) = ucast access_byte \<and>
   gdt_flags (gdt_create_entry base lim access_byte flags) = take_bit 4 (ucast flags)"
  by (simp add: gdt_base gdt_limit gdt_bytes)

text \<open>
  C28.  \<open>idt_init\<close> turns each of the handlers' addresses the boot code left in the table into a present
  64-bit interrupt gate of the kernel's code segment that does not switch stacks; the address that
  \<open>idt_entry_get_offset\<close> reads back has only the lower 48 bits of the handler's.  Nothing outside
  the table changes, and the descriptor covers exactly the table.
\<close>
theorem idt_init_correct:
  assumes "idt_init LIDT P idt n w d = (ok, desc, w', d')" and "0 < n" and "n \<le> 256"
  shows "(\<forall>i<unat n. let e = idt_load w' (idt + of_nat (16 * i)) in
      idt_entry_get_offset e = take_bit 48 (w (idt + of_nat (16 * i))) \<and>
      idt_selector e = CODE_SEG \<and> idt_access_ctrl e = 0x8E \<and> idt_ist e = 0) \<and>
    (\<forall>a. a \<notin> region idt (16 * unat n) \<longrightarrow> w' a = w a) \<and>
    unat (idt_desc_size desc) = 16 * unat n - 1 \<and> idt_desc_offset desc = idt \<and> d' = STI P (LIDT desc d)"
proof -
  have w': "w' = for_upto 0 (ucast n) (idt_init_entry idt) w" and desc: "idt_desc_offset desc = idt"
    "idt_desc_size desc = ucast (ucast n * 16 - 1 :: u64)" and d': "d' = STI P (LIDT desc d)"
    using assms(1) by (auto simp: idt_init_def idt_install_def Let_def)
  have n: "unat (ucast n :: u64) = unat n" "0 < unat n" "unat n \<le> 256"
    using assms(2,3) unsigned_less [of n, where 'a = nat]
    by (simp_all add: unsigned_ucast_eq take_bit_nat_eq_self word_le_nat_alt word_less_nat_alt)
  then have "unat (ucast n * 16 :: u64) = 16 * unat n" by (simp add: unat_word_ariths)
  then have "unat (ucast n * 16 - 1 :: u64) = 16 * unat n - 1" using n by (simp add: unat_sub_if')
  then have size: "unat (idt_desc_size desc) = 16 * unat n - 1"
    using n by (simp add: desc unsigned_ucast_eq take_bit_nat_eq_self)
  note loop = idt_init_loop [of n idt w, folded w']
  have "idt_load w' (idt + of_nat (16 * i)) = gate_for (w (idt + of_nat (16 * i)))" if "i < unat n" for i
  proof (rule idt_load_stored)
    show "w' (idt + of_nat (16 * i)) = idt_entry_low (gate_for (w (idt + of_nat (16 * i))))"
      using loop that by blast
    have "w' (idt + of_nat (16 * i + 8)) = idt_entry_high (gate_for (w (idt + of_nat (16 * i))))"
      using loop that by blast
    then show "w' (idt + of_nat (16 * i) + 8) = idt_entry_high (gate_for (w (idt + of_nat (16 * i))))"
      by (simp add: algebra_simps)
  qed simp_all
  moreover have "idt_access_byte 1 0 0xE = 0x8E" by (simp add: idt_access_byte_def)
  ultimately have "\<forall>i<unat n. let e = idt_load w' (idt + of_nat (16 * i)) in
      idt_entry_get_offset e = take_bit 48 (w (idt + of_nat (16 * i))) \<and>
      idt_selector e = CODE_SEG \<and> idt_access_ctrl e = 0x8E \<and> idt_ist e = 0"
    using idt_offset by (simp add: gate_for_def Let_def) (simp add: idt_create_entry_def)
  then show ?thesis using loop desc(1) size d' by blast
qed

theorem idt_init_correct_witness:
  "\<exists>ok desc w' d'. idt_init (\<lambda>_ d. d) i8259_ports 0x1000 3 (\<lambda>a. if a = 0x1010 then 0xFFFF800000101000 else 0)
      (i8259_reset 0, i8259_reset 0) = (ok, desc, w', d') \<and>
    idt_entry_get_offset (idt_load w' 0x1010) = 0x800000101000 \<and> unat (idt_desc_size desc) = 47"
proof -
  let ?w = "\<lambda>a :: ptr. if a = 0x1010 then 0xFFFF800000101000 else (0 :: u64)"
  obtain ok desc w' d' where e: "idt_init (\<lambda>_ d. d) i8259_ports 0x1000 3 ?w (i8259_reset 0, i8259_reset 0) =
      (ok, desc, w', d')" by (metis prod_cases4)
  have c: "\<forall>i<unat (3 :: u16). idt_entry_get_offset (idt_load w' (0x1000 + of_nat (16 * i))) = take_bit 48 (?w (0x1000 + of_nat (16 * i)))"
    "unat (idt_desc_size desc) = 16 * unat (3 :: u16) - 1"
    using idt_init_correct [OF e] by (simp_all add: Let_def)
  from spec [OF c(1), of 1] c(2) show ?thesis using e
    by (intro exI [of _ ok] exI [of _ desc] exI [of _ w'] exI [of _ d']) (simp add: take_bit_eq_mod)
qed

subsection \<open>The timer switches between two processes\<close>

text \<open>
  An interrupt as the assembly stub delivers it: the address of the frame it pushed, the vector
  and the value of \<open>cr2\<close>.  \<open>interrupts\<close> handles a sequence of them and collects the frames to which
  the stub returns.
\<close>

type_synonym delivery = "ptr \<times> u64 \<times> u64"

fun deliver :: "delivery \<Rightarrow> kernel \<Rightarrow> kernel" where
  "deliver (f, v, cr2) k = k\<lparr>vm_mem := (vm_mem k)(f + 16 := cr2, f + 704 := v)\<rparr>"

primrec interrupts ::
  "'d ports \<Rightarrow> ptr \<Rightarrow> delivery list \<Rightarrow> kernel \<Rightarrow> 'd \<Rightarrow> (ptr list \<times> kernel \<times> 'd) result" where
  "interrupts P sp [] k d = Inr ([], k, d)"
| "interrupts P sp (e # es) k d =
     bind_result (main_isr P sp (fst e) (deliver e k) d) (\<lambda>(r, k, d).
     bind_result (interrupts P sp es k d) (\<lambda>(rs, k, d). Inr (r # rs, k, d)))"

definition is_timer :: "delivery \<Rightarrow> bool" where
  "is_timer e \<longleftrightarrow> fst (snd e) = PIT_VECTOR"

text \<open>The frame of the process that does not run.\<close>

definition waiting :: "kernel \<Rightarrow> ptr" where
  "waiting k = pcs_frame (pcs_processes k (1 - cur k))"

lemma deliver_vector: "if_vector_num (read_frame (vm_mem (deliver (f, v, cr2) k)) f) = v"
  by (simp add: read_frame_def)

lemma deliver_simps [simp]:
  "pcs_processes (deliver e k) = pcs_processes k" "cur (deliver e k) = cur k" "kbd (deliver e k) = kbd k"
  by (cases e; simp)+

lemma bind_result_Inr: "bind_result r f = Inr y \<longleftrightarrow> (\<exists>x. r = Inr x \<and> f x = Inr y)"
  by (cases r) simp_all

lemma pit_isr_switch:
  assumes "pit_isr P f k d = (r, k', d')" and "cur k \<le> 1"
  shows "r = waiting k \<and> waiting k' = f \<and> cur k' = 1 - cur k"
  using assms by (cases "cur k") (auto simp: pit_isr_def waiting_def Let_def)

lemma main_isr_frame:
  assumes "main_isr P sp (fst e) (deliver e k) d = Inr (r, k', d')" and "cur k \<le> 1"
  shows "if is_timer e then r = waiting k \<and> waiting k' = fst e \<and> cur k' = 1 - cur k
    else r = fst e \<and> waiting k' = waiting k \<and> cur k' = cur k"
proof -
  obtain f v cr2 where e: "e = (f, v, cr2)" by (cases e) auto
  show ?thesis
  proof (cases "v = PIT_VECTOR")
    case True
    let ?k = "deliver e k\<lparr>pit_interrupt_count := pit_interrupt_count (deliver e k) + 1\<rparr>"
    have "pit_isr P f ?k d = (r, k', d')"
      using assms(1) True deliver_vector [of f v cr2 k] by (simp add: main_isr_def e Let_def)
    then have "r = waiting ?k \<and> waiting k' = f \<and> cur k' = 1 - cur ?k"
      by (rule pit_isr_switch) (use assms(2) in simp)
    then show ?thesis using True by (simp add: is_timer_def e waiting_def del: diff_diff_eq) auto
  next
    case False
    then have "r = f \<and> pcs_processes k' = pcs_processes k \<and> cur k' = cur k"
      using assms(1) deliver_vector [of f v cr2 k]
      by (auto simp: main_isr_def e page_fault_isr_def keyboard_isr_def default_isr_def bind_result_Inr Let_def
          split: if_splits prod.splits simp del: deliver.simps)
    then show ?thesis using False by (simp add: is_timer_def e waiting_def)
  qed
qed

definition timer_frames :: "delivery list \<Rightarrow> ptr list" where
  "timer_frames es = map fst (filter is_timer es)"

definition resumed :: "delivery list \<Rightarrow> ptr list \<Rightarrow> ptr list" where
  "resumed es rs = map snd (filter (\<lambda>(e, r). is_timer e) (zip es rs))"

lemma interrupts_switch:
  "interrupts P sp es k d = Inr (rs, k', d') \<Longrightarrow> cur k \<le> 1 \<Longrightarrow>
   length rs = length es \<and> (\<forall>i<length es. \<not> is_timer (es ! i) \<longrightarrow> rs ! i = fst (es ! i)) \<and>
   resumed es rs @ [waiting k'] = waiting k # timer_frames es \<and>
   cur k' = (cur k + length (timer_frames es)) mod 2"
proof (induction es arbitrary: k d rs)
  case Nil
  then show ?case by (auto simp: resumed_def timer_frames_def)
next
  case (Cons e es)
  then obtain r k1 d1 rs' where s: "main_isr P sp (fst e) (deliver e k) d = Inr (r, k1, d1)"
    "interrupts P sp es k1 d1 = Inr (rs', k', d')" "rs = r # rs'"
    by (auto simp: bind_result_Inr)
  note f = main_isr_frame [OF s(1) Cons.prems(2)]
  have "cur k1 \<le> 1" using f Cons.prems(2) by (auto split: if_splits)
  note ih = Cons.IH [OF s(2) this]
  have "(cur k1 + length (timer_frames es)) mod 2 = (cur k + length (timer_frames (e # es))) mod 2"
  proof (cases "is_timer e")
    case True
    then have "cur k1 = 1 - cur k" using f by simp
    then show ?thesis using True Cons.prems(2) by (cases "cur k") (auto simp: timer_frames_def mod_Suc_eq_mod_add3)
  next
    case False
    then show ?thesis using f by (simp add: timer_frames_def)
  qed
  moreover have "resumed (e # es) rs @ [waiting k'] = waiting k # timer_frames (e # es)"
    using f ih s(3) by (auto simp: resumed_def timer_frames_def split: if_splits)
  moreover have "\<forall>i<length (e # es). \<not> is_timer ((e # es) ! i) \<longrightarrow> rs ! i = fst ((e # es) ! i)"
    using f ih s(3) by (auto simp: nth_Cons split: nat.splits if_splits)
  ultimately show ?case using ih s(3) by simp
qed

subsection \<open>What each interrupt does\<close>

lemma kb_readscan_byte: "kb_readscan P d = (ucast (fst (inb P KB_PS2_DATA d)), snd (inb P KB_PS2_DATA d))"
  by (simp add: kb_readscan_def split_beta)

lemma keyboard_isr_ok:
  assumes "kb_ok sp (kbd k)" and "length (codes (kbd k)) < kb_room (kbd k)"
  shows "\<exists>kb. keyboard_isr P sp k d = Inr (k\<lparr>kbd := kb\<rparr>, pic_eoi P PIC_KEYBOARD_IRQ (snd (inb P KB_PS2_DATA d))) \<and>
    kb_ok sp kb \<and> codes kb = codes (kbd k) @ [fst (inb P KB_PS2_DATA d)] \<and> keys kb = keys (kbd k)"
proof -
  obtain kb where kb: "kb_enqueue_scan sp (ucast (fst (inb P KB_PS2_DATA d))) (kbd k) = Some kb" "kb_ok sp kb"
    "codes kb = codes (kbd k) @ [fst (inb P KB_PS2_DATA d)]" "keys kb = keys (kbd k)"
    using kb_enqueue_scan_ok [OF assms] by blast
  have "keyboard_isr P sp k d = Inr (k\<lparr>kbd := kb\<rparr>, pic_eoi P PIC_KEYBOARD_IRQ (snd (inb P KB_PS2_DATA d)))"
    by (simp add: keyboard_isr_def kb_enqueue_event_def kb_readscan_byte kb(1) run_def)
  then show ?thesis using kb by blast
qed

subsection \<open>Creating processes\<close>

lemma memset_words_zero:
  assumes "unat n < 2 ^ 60" and "8 * i + 8 \<le> unat n"
  shows "memset_words p n w (p + of_nat (8 * i)) = 0"
proof -
  let ?P = "\<lambda>k t. \<forall>i<k. t (p + of_nat (8 * i)) = (0 :: u64)"
  have k: "unat (n div 8) = unat n div 8" by (simp add: unat_div)
  have "?P (unat (n div 8)) (memset_words p n w)"
    unfolding memset_words_def
    by (rule for_upto_invariant [where P = ?P]) (auto simp: less_Suc_eq)
  moreover have "i < unat (n div 8)" using assms(2) unfolding k by simp
  ultimately show ?thesis by blast
qed

definition new_frame :: "u64 \<times> u64 \<times> u64 \<times> u64 \<Rightarrow> ptr \<Rightarrow> ptr \<Rightarrow> interrupt_frame \<Rightarrow> bool" where
  "new_frame cr stack main fr \<longleftrightarrow>
     if_rip fr = main \<and> if_rsp fr = stack - 8 \<and> if_rbp fr = stack - 8 \<and>
     if_cs fr = 8 \<and> if_ss fr = 16 \<and> if_ds fr = 16 \<and> if_es fr = 16 \<and> if_fs fr = 16 \<and> if_gs fr = 16 \<and>
     (if_cr0 fr, if_cr2 fr, if_cr3 fr, if_cr4 fr) = cr \<and> rfl_IF (if_rfl fr)"

lemma write_frame_new: "new_frame cr stack main (read_frame (write_frame cr stack main f w) f)"
  by (cases cr) (simp add: new_frame_def read_frame_def write_frame_def CODE_SEG_def DATA_SEG_def rfl_IF_def bit_simps)

lemma write_frame_rfl:
  "if_rfl (read_frame (write_frame cr stack main f w) f) = w (f + 736) OR 2 ^ 9"
  by (cases cr) (simp add: read_frame_def write_frame_def)

lemma write_frame_outside: "a \<notin> region f 760 \<Longrightarrow> write_frame cr stack main f w a = w a"
proof -
  assume a: "a \<notin> region f 760"
  have "a \<noteq> f + of_nat i" if "i < 760" for i using a that by auto
  from this [of 8] this [of 16] this [of 0] this [of 24] this [of 32] this [of 728] this [of 40] this [of 56]
    this [of 48] this [of 752] this [of 736] this [of 128] this [of 744] this [of 720]
  show ?thesis by (cases cr) (simp add: write_frame_def)
qed

lemma read_frame_outside:
  assumes "region f 760 \<inter> region g 760 = {}"
  shows "read_frame (write_frame cr stack main f w) g = read_frame w g"
proof -
  have "write_frame cr stack main f w (g + of_nat i) = w (g + of_nat i)" if "i < 760" for i
    using that assms by (intro write_frame_outside) blast
  note this [simplified of_nat_numeral]
  from this [of 0] this [of 8] this [of 16] this [of 24] this [of 32] this [of 40] this [of 48] this [of 56]
    this [of 64] this [of 72] this [of 80] this [of 88] this [of 96] this [of 104] this [of 112] this [of 120]
    this [of 128] this [of 136] this [of 144] this [of 152] this [of 160] this [of 168] this [of 176]
    this [of 696] this [of 704] this [of 712] this [of 720] this [of 728] this [of 736] this [of 744] this [of 752]
  show ?thesis by (simp add: read_frame_def)
qed

text \<open>The top of the stack of process \<open>i\<close>; the stacks lie below each other's tops, from \<open>STACK_VIRTUAL_ADDR\<close> on.\<close>

definition stack_top :: "nat \<Rightarrow> ptr" where
  "stack_top i = STACK_VIRTUAL_ADDR + of_nat ((i + 1) * 16384)"

lemma stack_top_unat: "i < 2 ^ 20 \<Longrightarrow> unat (stack_top i) = unat STACK_VIRTUAL_ADDR + (i + 1) * 16384"
  by (simp add: stack_top_def STACK_VIRTUAL_ADDR_def unat_word_ariths unat_of_nat)

lemma frame_place:
  assumes "i < 2 ^ 20"
  shows "unat (stack_top i - 760) = unat STACK_VIRTUAL_ADDR + i * 16384 + 15624" and "fits (stack_top i - 760) 760"
proof -
  have "unat (stack_top i) \<ge> 760" using stack_top_unat [OF assms] by simp
  then have "unat (stack_top i - 760) = unat (stack_top i) - 760" by (simp add: unat_sub_if' word_le_nat_alt)
  then show *: "unat (stack_top i - 760) = unat STACK_VIRTUAL_ADDR + i * 16384 + 15624"
    using stack_top_unat [OF assms] by simp
  show "fits (stack_top i - 760) 760"
    using assms unfolding fits_def * by (simp add: STACK_VIRTUAL_ADDR_def)
qed

lemma frames_apart: "i < j \<Longrightarrow> j < 2 ^ 20 \<Longrightarrow> region (stack_top i - 760) 760 \<inter> region (stack_top j - 760) 760 = {}"
  by (rule fits_disjoint) (simp_all add: frame_place)

lemma pcs_initD:
  assumes "pcs_init cr cores sh_start idle_main k = Inr (True, k')"
  defines "sz \<equiv> (ucast (cores * 16384) :: u64)"
  shows "\<exists>w s. vm_op (mem_allocate_range STACK_VIRTUAL_ADDR sz) (mem_state.truncate (k\<lparr>pcs_stack_addr := STACK_VIRTUAL_ADDR\<rparr>)) = Inr (True, s) \<and>
     w = memset_words STACK_VIRTUAL_ADDR sz (vm_mem s) \<and>
     vm_mem k' = write_frame cr (stack_top 1) idle_main (stack_top 1 - 760)
       (write_frame cr (stack_top 0) sh_start (stack_top 0 - 760) w) \<and>
     pcs_processes k' 0 = \<lparr>pcs_stack = stack_top 0, pcs_main = sh_start, pcs_frame = stack_top 0 - 760\<rparr> \<and>
     pcs_processes k' 1 = \<lparr>pcs_stack = stack_top 1, pcs_main = idle_main, pcs_frame = stack_top 1 - 760\<rparr>"
  using assms(1) unfolding sz_def
  by (auto simp: pcs_init_def create_process_def pcs_allocate_stack_def PCS_STACK_SIZE_def stack_top_def
      sizeof_interrupt_frame_def bind_result_Inr Let_def split: if_splits) (simp_all add: add.commute)

lemma stack_zeroed:
  assumes "i < unat (n :: u32)" and "unat n < 2 ^ 8" and "o' < 16384" and "8 dvd o'"
  shows "memset_words STACK_VIRTUAL_ADDR (ucast (n * 16384)) w (STACK_VIRTUAL_ADDR + of_nat (i * 16384 + o')) = 0"
proof -
  have n: "unat (n * 16384 :: u32) = unat n * 16384"
    using assms(2) by (simp add: unat_word_ariths)
  then have m: "unat (ucast (n * 16384 :: u32) :: u64) = unat n * 16384" using assms(2) by (simp add: unsigned_ucast_eq take_bit_nat_eq_self)
  obtain r where r: "o' = 8 * r" using assms(4) by blast
  have q: "i * 16384 + o' = 8 * (i * 2048 + r)" using r by simp
  have "(i + 1) * 16384 \<le> unat n * 16384" using assms(1) by (intro mult_right_mono) auto
  then have "8 * (i * 2048 + r) + 8 \<le> unat n * 16384" using r assms(3) by simp
  then show ?thesis unfolding q using assms(2) by (intro memset_words_zero) (simp_all add: m)
qed

text \<open>
  \<open>pcs_init\<close> makes two processes.  Each has its own frame at the top of its stack, from which it
  starts in its main function, in the kernel's segments, with interrupts on; with two cores or more
  both frames lie in the memory allocated for the stacks and every other flag is clear.  With one
  core the memory allocated ends where the second stack begins: its frame lies beyond it.
\<close>
lemma pcs_init_starts:
  assumes "pcs_init cr cores sh_start idle_main k = Inr (True, k')" and "0 < cores" and "cores < 256"
  shows "(let p = pcs_processes k' 0; q = pcs_processes k' 1;
       limit = unat STACK_VIRTUAL_ADDR + unat cores * 16384
     in new_frame cr (pcs_stack p) sh_start (read_frame (vm_mem k') (pcs_frame p)) \<and>
        new_frame cr (pcs_stack q) idle_main (read_frame (vm_mem k') (pcs_frame q)) \<and>
        region (pcs_frame p) 760 \<inter> region (pcs_frame q) 760 = {} \<and>
        if_rfl (read_frame (vm_mem k') (pcs_frame p)) = 2 ^ 9 \<and>
        (if 2 \<le> cores
         then if_rfl (read_frame (vm_mem k') (pcs_frame q)) = 2 ^ 9 \<and> unat (pcs_frame q) + 760 \<le> limit
         else limit < unat (pcs_frame q)))"
proof -
  obtain w and s :: mem_state where w: "w = memset_words STACK_VIRTUAL_ADDR (ucast (cores * 16384)) (vm_mem s)"
    and m: "vm_mem k' = write_frame cr (stack_top 1) idle_main (stack_top 1 - 760)
       (write_frame cr (stack_top 0) sh_start (stack_top 0 - 760) w)"
    and p: "pcs_processes k' 0 = \<lparr>pcs_stack = stack_top 0, pcs_main = sh_start, pcs_frame = stack_top 0 - 760\<rparr>"
      "pcs_processes k' 1 = \<lparr>pcs_stack = stack_top 1, pcs_main = idle_main, pcs_frame = stack_top 1 - 760\<rparr>"
    using pcs_initD [OF assms(1)] by (elim exE conjE) (rule that; assumption)
  have c: "0 < unat cores" "unat cores < 2 ^ 8" using assms(2,3) by (simp_all add: word_less_nat_alt)
  have apart: "region (stack_top 0 - 760) 760 \<inter> region (stack_top 1 - 760) 760 = {}"
    by (rule frames_apart) simp_all
  then have f0: "read_frame (vm_mem k') (stack_top 0 - 760) =
      read_frame (write_frame cr (stack_top 0) sh_start (stack_top 0 - 760) w) (stack_top 0 - 760)"
    unfolding m by (intro read_frame_outside) blast
  have flags: "w (stack_top i - 760 + 736) = 0" if "i < unat cores" for i
    using stack_zeroed [OF that c(2), of 16360 "vm_mem s"]
    by (simp add: w stack_top_def algebra_simps)
  have "stack_top 1 - 760 + of_nat 736 \<in> region (stack_top 1 - 760) 760" by (rule regionI) simp
  then have "write_frame cr (stack_top 0) sh_start (stack_top 0 - 760) w (stack_top 1 - 760 + 736) = w (stack_top 1 - 760 + 736)"
    using apart by (intro write_frame_outside) auto
  then have rfl1: "if_rfl (read_frame (vm_mem k') (stack_top 1 - 760)) = 2 ^ 9" if "1 < unat cores"
    using flags [OF that] by (simp add: m write_frame_rfl)
  have rfl0: "if_rfl (read_frame (vm_mem k') (stack_top 0 - 760)) = 2 ^ 9"
    using flags [OF c(1)] by (simp add: f0 write_frame_rfl)
  have place: "unat (stack_top 1 - 760) = unat STACK_VIRTUAL_ADDR + 32008" using frame_place(1) [of 1] by simp
  have new: "new_frame cr (stack_top 0) sh_start (read_frame (vm_mem k') (stack_top 0 - 760))"
    "new_frame cr (stack_top 1) idle_main (read_frame (vm_mem k') (stack_top 1 - 760))"
    unfolding f0 by (rule write_frame_new) (unfold m, rule write_frame_new)
  have two: "2 \<le> cores \<longleftrightarrow> 1 < unat cores" by (auto simp: word_le_nat_alt)
  have ge: "unat (stack_top 1 - 760) + 760 \<le> unat STACK_VIRTUAL_ADDR + unat cores * 16384" if "1 < unat cores"
    using mult_right_mono [of 2 "unat cores" 16384] that place by simp
  have lt: "unat STACK_VIRTUAL_ADDR + unat cores * 16384 < unat (stack_top 1 - 760)" if "\<not> 1 < unat cores"
    using mult_right_mono [of "unat cores" 1 16384] that place by simp
  show ?thesis
    unfolding p Let_def pcs_process.simps two using new apart rfl0 rfl1 ge lt
    by (cases "1 < unat cores") (simp_all only: if_True if_False simp_thms)
qed

subsection \<open>Properties\<close>

text \<open>
  C26.  Whatever interrupts arrive, the handlers return to the frame they were given, except for the
  timer's, which switches: each timer interrupt saves the frame of the running process and resumes
  the one that the timer interrupt before it saved, so the two processes alternate and neither
  continues from anything but its own latest frame.
\<close>
theorem timer_alternates:
  assumes "interrupts P sp es k d = Inr (rs, k', d')" and "cur k \<le> 1"
  shows "length rs = length es \<and> (\<forall>i<length es. \<not> is_timer (es ! i) \<longrightarrow> rs ! i = fst (es ! i)) \<and>
    resumed es rs @ [waiting k'] = waiting k # timer_frames es \<and>
    cur k' = (cur k + length (timer_frames es)) mod 2"
  by (rule interrupts_switch [OF assms])

text \<open>
  A timer interrupt never fails; a keyboard interrupt adds the scan code of the data port to a
  queue that has room and acknowledges the interrupt; a vector without a handler panics.
\<close>
theorem main_isr_correct:
  assumes "kb_ok sp (kbd k)" and "length (codes (kbd k)) < kb_room (kbd k)"
    and "vector = if_vector_num (read_frame (vm_mem k) f)"
  shows "(vector = PIT_VECTOR \<longrightarrow> (\<exists>r k'. main_isr P sp f k d = Inr (r, k', pic_eoi P PIC_PIT_IRQ d) \<and>
      pit_interrupt_count k' = pit_interrupt_count k + 1)) \<and>
    (vector = KEYBOARD_VECTOR \<longrightarrow> (\<exists>k'. main_isr P sp f k d =
        Inr (f, k', pic_eoi P PIC_KEYBOARD_IRQ (snd (inb P KB_PS2_DATA d))) \<and>
      kb_ok sp (kbd k') \<and> codes (kbd k') = codes (kbd k) @ [fst (inb P KB_PS2_DATA d)] \<and>
      keyboard_interrupt_count k' = keyboard_interrupt_count k + 1)) \<and>
    (vector \<notin> {PIT_VECTOR, KEYBOARD_VECTOR, PAGE_FAULT_VECTOR} \<longrightarrow> main_isr P sp f k d = Inl (Panic unhandled_message))"
proof -
  let ?k = "k\<lparr>keyboard_interrupt_count := keyboard_interrupt_count k + 1\<rparr>"
  obtain kb where kb: "keyboard_isr P sp ?k d = Inr (?k\<lparr>kbd := kb\<rparr>, pic_eoi P PIC_KEYBOARD_IRQ (snd (inb P KB_PS2_DATA d)))"
    "kb_ok sp kb" "codes kb = codes (kbd k) @ [fst (inb P KB_PS2_DATA d)]"
    using keyboard_isr_ok [of sp ?k P d] assms(1,2) by auto
  have ne: "PIT_VECTOR \<noteq> KEYBOARD_VECTOR" "PAGE_FAULT_VECTOR \<noteq> KEYBOARD_VECTOR"
    by (simp_all add: PIT_VECTOR_def KEYBOARD_VECTOR_def PAGE_FAULT_VECTOR_def)
  show ?thesis unfolding assms(3)
    using kb ne by (auto simp: main_isr_def pit_isr_def default_isr_def Let_def)
qed

text \<open>
  A new process gets the next stack; its frame is the uppermost 760 bytes of the stack, from
  which it starts in its main function, in the kernel's segments, with the stack pointer inside the
  stack and interrupts on.  No other word of memory changes.
\<close>
theorem create_process_correct:
  "let (p, k') = create_process cr main k in
     pcs_main p = main \<and> pcs_stack p = pcs_stack_addr k + 16384 \<and> pcs_stack_addr k' = pcs_stack p \<and>
     pcs_frame p + 760 = pcs_stack p \<and>
     new_frame cr (pcs_stack p) main (read_frame (vm_mem k') (pcs_frame p)) \<and>
     if_rfl (read_frame (vm_mem k') (pcs_frame p)) = vm_mem k (pcs_frame p + 736) OR 2 ^ 9 \<and>
     (\<forall>a. a \<in> region (pcs_frame p) 760 \<or> vm_mem k' a = vm_mem k a)"
  using write_frame_new [of cr] write_frame_rfl [of cr]
    write_frame_outside [of _ "15624 + pcs_stack_addr k" cr "pcs_stack_addr k + 16384" main "vm_mem k"]
  by (auto simp: create_process_def pcs_allocate_stack_def PCS_STACK_SIZE_def sizeof_interrupt_frame_def Let_def) blast

definition example_kernel :: "u64 \<Rightarrow> kernel" where
  "example_kernel v =
     \<lparr>vm_mem = (\<lambda>_. v), mem_inited = False, mem_low_pgm_handle = 0, mem_main_pgm_handle = 0,
      mem_lower = 0, mem_upper = 0, mem_map = [], mem_nodes = 0,
      pcs_processes = (\<lambda>i. \<lparr>pcs_stack = 0, pcs_main = 0, pcs_frame = if i = 1 then 0x9000 else 0\<rparr>),
      pcs_stack_addr = 0, cur = 0, pit_interrupt_count = 0, keyboard_interrupt_count = 0,
      page_fault_interrupt_count = 0, kbd = example_kb\<rparr>"

text \<open>Three ticks: the second process resumes from its first frame, then both from where they were.\<close>

theorem timer_alternates_witness:
  "\<forall>d. \<exists>rs k' d'. interrupts i8259_ports 0x100 [(0x1000, PIT_VECTOR, 0), (0x2000, PIT_VECTOR, 0), (0x3000, PIT_VECTOR, 0)]
     (example_kernel 0) d = Inr (rs, k', d') \<and> rs = [0x9000, 0x1000, 0x2000] \<and> waiting k' = 0x3000"
proof
  fix d
  let ?es = "[(0x1000, PIT_VECTOR, 0), (0x2000, PIT_VECTOR, 0), (0x3000, PIT_VECTOR, 0)] :: delivery list"
  have "\<exists>rs k' d'. interrupts i8259_ports 0x100 ?es (example_kernel 0) d = Inr (rs, k', d')"
    by (simp add: main_isr_def read_frame_def example_kernel_def pit_isr_def Let_def)
  then obtain rs k' d' where e: "interrupts i8259_ports 0x100 ?es (example_kernel 0) d = Inr (rs, k', d')" by blast
  have "cur (example_kernel 0) \<le> 1" "waiting (example_kernel 0) = 0x9000"
    by (simp_all add: example_kernel_def waiting_def)
  moreover have "filter is_timer ?es = ?es" by (simp add: is_timer_def)
  ultimately have r: "length rs = 3" "resumed ?es rs @ [waiting k'] = [0x9000, 0x1000, 0x2000, 0x3000]"
    using timer_alternates [OF e] by (simp_all add: timer_frames_def)
  obtain a b c where "rs = [a, b, c]" using r(1) by (auto simp: numeral_eq_Suc length_Suc_conv)
  with r(2) show "\<exists>rs k' d'. interrupts i8259_ports 0x100 ?es (example_kernel 0) d = Inr (rs, k', d') \<and>
      rs = [0x9000, 0x1000, 0x2000] \<and> waiting k' = 0x3000"
    using e by (auto simp: resumed_def is_timer_def)
qed

theorem main_isr_correct_witness:
  "\<forall>d. (\<exists>k'. main_isr i8259_ports 0x100 0x1000 (example_kernel KEYBOARD_VECTOR) d =
       Inr (0x1000, k', pic_eoi i8259_ports PIC_KEYBOARD_IRQ d) \<and> codes (kbd k') = [0]) \<and>
     main_isr i8259_ports 0x100 0x1000 (example_kernel 3) d = Inl (Panic unhandled_message)"
proof
  fix d :: "i8259 \<times> i8259"
  have inb: "inb i8259_ports KB_PS2_DATA d = (0, d)" by (cases d) (simp add: i8259_ports_def KB_PS2_DATA_def)
  have k: "kb_ok 0x100 (kbd (example_kernel v))" "codes (kbd (example_kernel v)) = []"
    "length (codes (kbd (example_kernel v))) < kb_room (kbd (example_kernel v))"
    "if_vector_num (read_frame (vm_mem (example_kernel v)) 0x1000) = v" for v
    by (simp_all add: example_kernel_def read_frame_def example_kb_ok)
  show "(\<exists>k'. main_isr i8259_ports 0x100 0x1000 (example_kernel KEYBOARD_VECTOR) d =
       Inr (0x1000, k', pic_eoi i8259_ports PIC_KEYBOARD_IRQ d) \<and> codes (kbd k') = [0]) \<and>
     main_isr i8259_ports 0x100 0x1000 (example_kernel 3) d = Inl (Panic unhandled_message)"
    using main_isr_correct [OF k(1,3) k(4) [symmetric], of KEYBOARD_VECTOR i8259_ports d]
      main_isr_correct [OF k(1,3) k(4) [symmetric], of 3 i8259_ports d]
    by (auto simp: inb k PIT_VECTOR_def KEYBOARD_VECTOR_def PAGE_FAULT_VECTOR_def)
qed

end
