(* ===== verification/Cpu.thy ===== *)
theory Cpu
  imports Interrupt Pci
begin

text \<open>
  The processor and its local interrupt controller: \<open>kernel/cpu/cpu.c\<close>, \<open>msr.c\<close>, \<open>smp.c\<close> and
  \<open>kernel/device/apic.c\<close>.  The instructions that read or change the machine outside the kernel's
  memory (\<open>rdmsr\<close>, \<open>wrmsr\<close>, \<open>rdtsc\<close>, \<open>cpuid\<close>) and the accesses to the memory-mapped registers are
  the record \<open>machine\<close> of functions on its state \<open>'m\<close>.  A loop that polls the machine is a value
  \<open>None\<close> when it never ends.
\<close>

unbundle bit_operations_syntax

subsection \<open>Machine\<close>

text \<open>\<open>RDMSR\<close> and \<open>RDTSC\<close> give the lower and the upper half of what they read.\<close>

record 'm machine =
  RDMSR :: "u32 \<Rightarrow> 'm \<Rightarrow> u32 \<times> u32"
  WRMSR :: "u32 \<Rightarrow> u32 \<Rightarrow> u32 \<Rightarrow> 'm \<Rightarrow> 'm"
  RDTSC :: "'m \<Rightarrow> u32 \<times> u32 \<times> 'm"
  CPUID :: "u32 \<Rightarrow> u32 \<times> u32 \<times> u32 \<times> u32"
  read_reg :: "ptr \<Rightarrow> 'm \<Rightarrow> u32 \<times> 'm"
  write_reg :: "ptr \<Rightarrow> u32 \<Rightarrow> 'm \<Rightarrow> 'm"

subsection \<open>Model-specific registers\<close>

definition IA32_EFER_MSR :: u32 where "IA32_EFER_MSR = 0xc0000080"
definition IA32_EFER_MSR_SCE :: u64 where "IA32_EFER_MSR_SCE = push_bit 0 1"
definition IA32_EFER_MSR_LME :: u64 where "IA32_EFER_MSR_LME = push_bit 8 1"
definition IA32_EFER_MSR_LMA :: u64 where "IA32_EFER_MSR_LMA = push_bit 10 1"
definition IA32_EFER_MSR_LMSLE :: u64 where "IA32_EFER_MSR_LMSLE = push_bit 13 1"
definition IA32_APIC_BASE_MSR :: u32 where "IA32_APIC_BASE_MSR = 0x1b"
definition IA32_APIC_BASE_MSR_ENABLE :: u64 where "IA32_APIC_BASE_MSR_ENABLE = push_bit 11 1"

definition SET_APIC_GLOBAL_ENABLE :: "u64 \<Rightarrow> u64" where
  "SET_APIC_GLOBAL_ENABLE apic_base_msr = apic_base_msr OR IA32_APIC_BASE_MSR_ENABLE"

definition GET_APIC_BASE :: "u64 \<Rightarrow> u64" where
  "GET_APIC_BASE apic_base_msr = push_bit 12 (drop_bit 12 apic_base_msr)"

definition msr_read :: "'m machine \<Rightarrow> u32 \<Rightarrow> 'm \<Rightarrow> u32 \<times> u32" where
  "msr_read M msr m = RDMSR M msr m"

definition msr_read64 :: "'m machine \<Rightarrow> u32 \<Rightarrow> 'm \<Rightarrow> u64" where
  "msr_read64 M msr m = (let (lo, hi) = msr_read M msr m in ucast lo + push_bit 32 (ucast hi))"

definition msr_write :: "'m machine \<Rightarrow> u32 \<Rightarrow> u32 \<Rightarrow> u32 \<Rightarrow> 'm \<Rightarrow> 'm" where
  "msr_write M msr lo hi m = WRMSR M msr lo hi m"

definition msr_write64 :: "'m machine \<Rightarrow> u32 \<Rightarrow> u64 \<Rightarrow> 'm \<Rightarrow> 'm" where
  "msr_write64 M msr value m =
     msr_write M msr (ucast (value AND 0xFFFFFFFF)) (ucast (drop_bit 32 value AND 0xFFFFFFFF)) m"

subsection \<open>Processor\<close>

definition cpu_init :: "'m machine \<Rightarrow> u32" where
  "cpu_init M = (case CPUID M 1 of (eax, ebx, ecx, edx) \<Rightarrow> max (drop_bit 16 ebx AND 0xFF) 1)"

definition cpu_core_count :: "u32 \<Rightarrow> u32" where
  "cpu_core_count count = count"

definition rdtsc :: "'m machine \<Rightarrow> 'm \<Rightarrow> u64 \<times> 'm" where
  "rdtsc M m = (case RDTSC M m of (lo, hi, m) \<Rightarrow> (push_bit 32 (ucast hi) OR ucast lo, m))"

partial_function (option) wait_clock :: "'m machine \<Rightarrow> u64 \<Rightarrow> 'm \<Rightarrow> 'm option" where
  "wait_clock M clock m =
     (let (t, m) = rdtsc M m in if t < clock then wait_clock M clock m else Some m)"

text \<open>The delays take a \<open>long\<close>, whose multiplication must not overflow.\<close>

definition cpu_delay :: "int \<Rightarrow> 'm machine \<Rightarrow> int \<Rightarrow> 'm \<Rightarrow> 'm result option" where
  "cpu_delay cycles M n m =
     (let (t, m) = rdtsc M m
      in if \<not> (- (2 ^ 63) \<le> cycles * n \<and> cycles * n < 2 ^ 63) then Some (Inl Undefined)
         else map_option Inr (wait_clock M (t + word_of_int (cycles * n)) m))"

definition cpu_delay_us :: "'m machine \<Rightarrow> int \<Rightarrow> 'm \<Rightarrow> 'm result option" where
  "cpu_delay_us M us m = cpu_delay (2 * 1000) M us m"

definition cpu_delay_ms :: "'m machine \<Rightarrow> int \<Rightarrow> 'm \<Rightarrow> 'm result option" where
  "cpu_delay_ms M ms m = cpu_delay (2 * 1000 * 1000) M ms m"

definition cpu_delay_s :: "'m machine \<Rightarrow> int \<Rightarrow> 'm \<Rightarrow> 'm result option" where
  "cpu_delay_s M s m = cpu_delay (2 * 1000 * 1000 * 1000) M s m"

text \<open>
  The flags are \<open>int\<close>s in the source: \<open>CR0_PG\<close> is negative and is extended with its sign.
\<close>

definition CPU_FEATURE_PSE :: u32 where "CPU_FEATURE_PSE = push_bit 3 1"
definition CPU_FEATURE_MSR :: u32 where "CPU_FEATURE_MSR = push_bit 5 1"
definition CPU_FEATURE_PAE :: u32 where "CPU_FEATURE_PAE = push_bit 6 1"
definition CPU_FEATURE_APIC :: u32 where "CPU_FEATURE_APIC = push_bit 9 1"
definition CPU_FEATURE_PGE :: u32 where "CPU_FEATURE_PGE = push_bit 13 1"
definition CPU_FEATURE_PSE36 :: u32 where "CPU_FEATURE_PSE36 = push_bit 17 1"
definition CPU_FEATURE_HTT :: u32 where "CPU_FEATURE_HTT = push_bit 28 1"
definition CR0_PE :: u64 where "CR0_PE = scast (push_bit 0 (1 :: 32 word))"
definition CR0_PG :: u64 where "CR0_PG = scast (push_bit 31 (1 :: 32 word))"
definition CR4_VME :: u64 where "CR4_VME = scast (push_bit 0 (1 :: 32 word))"
definition CR4_PVI :: u64 where "CR4_PVI = scast (push_bit 1 (1 :: 32 word))"
definition CR4_PSE :: u64 where "CR4_PSE = scast (push_bit 4 (1 :: 32 word))"
definition CR4_PAE :: u64 where "CR4_PAE = scast (push_bit 5 (1 :: 32 word))"
definition CR4_PGE :: u64 where "CR4_PGE = scast (push_bit 7 (1 :: 32 word))"

text \<open>The characters up to the NUL of an array of 32-bit words.\<close>

definition word_chars :: "u32 list \<Rightarrow> string" where
  "word_chars ws = map (\<lambda>b. char_of (unat b)) (takeWhile (\<lambda>b. b \<noteq> 0) (concat (map le32 ws)))"

definition flag :: "'a::len word \<Rightarrow> 'a word \<Rightarrow> print_arg" where
  "flag w f = PNum (of_bool (w AND f \<noteq> 0))"

definition num32 :: "u32 \<Rightarrow> print_arg" where
  "num32 v = PNum (ucast v)"

definition cpu_print_info :: "'m machine \<Rightarrow> u64 \<times> u64 \<times> u64 \<times> u64 \<Rightarrow> 'm \<Rightarrow> printed" where
  "cpu_print_info M cr m =
     (let (a0, a1, a2, a3) = CPUID M 0x80000002; (a4, a5, a6, a7) = CPUID M 0x80000003;
          (a8, a9, a10, a11) = CPUID M 0x80000004;
          (b0, mid0, mid2, mid1) = CPUID M 0;
          (v, ebx, c1, edx) = CPUID M 1;
          (e6, b6, cache, d6) = CPUID M 0x80000006;
          (e8, b8, cores, d8) = CPUID M 0x80000008;
          (cr0, cr2, cr3, cr4) = cr;
          efer = msr_read64 M IA32_EFER_MSR m
      in [(''CPU Brand: %s\<newline>'', [PStr (word_chars [a0, a1, a2, a3, a4, a5, a6, a7, a8, a9, a10, a11, 0])]),
          (''Manufacturer ID: %s\<newline>'', [PStr (word_chars [mid0, mid1, mid2, 0])]),
          (''Highest basic calling parameter: %d\<newline>'', [num32 b0]),
          (''Processor Version Info: %b\<newline>'', [num32 v]),
          (''Hyper Threading Enabled: %d, Core Count: %d\<newline>'',
           [flag edx CPU_FEATURE_HTT, num32 (drop_bit 16 ebx AND 0xFF)]),
          (''Onboard APIC Feature: %d, Local APIC ID: %d\<newline>'',
           [flag edx CPU_FEATURE_APIC, num32 (drop_bit 24 ebx AND 0xFF)]),
          (''Model-specific registers Feature: %d\<newline>'', [flag edx CPU_FEATURE_MSR]),
          (''Page Size Extension Feature: %d\<newline>'', [flag edx CPU_FEATURE_PSE]),
          (''Physical Address Extension Feature: %d\<newline>'', [flag edx CPU_FEATURE_PAE]),
          (''Page Global Enable bit in CR4 Feature: %d\<newline>'', [flag edx CPU_FEATURE_PGE]),
          (''36-bit page size extension Feature: %d\<newline>'', [flag edx CPU_FEATURE_PSE36]),
          (''L2 Cache Line size: %dB, Associativity Type: %d; Cache Size: %dKB\<newline>'',
           [num32 (cache AND 0xff), num32 (drop_bit 12 cache AND 0x07), num32 (drop_bit 16 cache AND 0xffff)]),
          (''Physical Address Bits: %d, Linear Address Bits: %d, Physical Cores: %d\<newline>'',
           [num32 (e8 AND 0xff), num32 (drop_bit 8 e8 AND 0xff), num32 (cores + 1)]),
          (''Protected Mode Enable: %d\<newline>'', [flag cr0 CR0_PE]),
          (''Paging Enable: %d\<newline>'', [flag cr0 CR0_PG]),
          (''Virtual 8086 Mode Extensions: %d\<newline>'', [flag cr4 CR4_VME]),
          (''Protected-mode Virtual Interrupts: %d\<newline>'', [flag cr4 CR4_PVI]),
          (''Page Size Extension: %d\<newline>'', [flag cr4 CR4_PSE]),
          (''Physical Address Extension: %d\<newline>'', [flag cr4 CR4_PAE]),
          (''Page Global Enabled: %d\<newline>'', [flag cr4 CR4_PGE]),
          (''Long Mode Enable: %d\<newline>'', [flag efer IA32_EFER_MSR_LME]),
          (''Long Mode Active: %d\<newline>'', [flag efer IA32_EFER_MSR_LMA]),
          (''Long Mode Segment Limit Enable: %d\<newline>'', [flag efer IA32_EFER_MSR_LMSLE]),
          (''System Call Extensions: %d\<newline>'', [flag efer IA32_EFER_MSR_SCE]),
          (''CR0 = 0x%lx, CR2 = 0x%lx, CR3 = 0x%lx, CR4 = 0x%lx, EFER = 0x%lx\<newline>'',
           [PNum cr0, PNum cr2, PNum cr3, PNum cr4, PNum efer])])"

subsection \<open>Local interrupt controller\<close>

definition LOCAL_APIC :: u8 where "LOCAL_APIC = 0"
definition IO_APIC :: u8 where "IO_APIC = 1"
definition IO_APIC_INTERRUPTS_SOURCE_OVERRIDE :: u8 where "IO_APIC_INTERRUPTS_SOURCE_OVERRIDE = 2"
definition LOCAL_APIC_NON_MASKABLE_INTERRUPTS :: u8 where "LOCAL_APIC_NON_MASKABLE_INTERRUPTS = 4"

datatype apic_reg =
  APIC_REG_ID | APIC_REG_VR | APIC_REG_TPR | APIC_REG_APR | APIC_REG_PPR | APIC_REG_EOI
| APIC_REG_RRD | APIC_REG_LDR | APIC_REG_DFR | APIC_REG_SIV | APIC_REG_ESR | APIC_REG_CCMIR
| APIC_REG_ICR_LOW | APIC_REG_ICR_HIGH | APIC_REG_TR | APIC_REG_TSR | APIC_REG_PMCR
| APIC_REG_LINT0R | APIC_REG_LINT1R | APIC_REG_ER | APIC_REG_ICR | APIC_REG_CCR | APIC_REG_DCR

primrec apic_reg_value :: "apic_reg \<Rightarrow> u64" where
  "apic_reg_value APIC_REG_ID = 0x020"
| "apic_reg_value APIC_REG_VR = 0x030"
| "apic_reg_value APIC_REG_TPR = 0x080"
| "apic_reg_value APIC_REG_APR = 0x090"
| "apic_reg_value APIC_REG_PPR = 0x0A0"
| "apic_reg_value APIC_REG_EOI = 0x0B0"
| "apic_reg_value APIC_REG_RRD = 0x0C0"
| "apic_reg_value APIC_REG_LDR = 0x0D0"
| "apic_reg_value APIC_REG_DFR = 0x0E0"
| "apic_reg_value APIC_REG_SIV = 0x0f0"
| "apic_reg_value APIC_REG_ESR = 0x280"
| "apic_reg_value APIC_REG_CCMIR = 0x2F0"
| "apic_reg_value APIC_REG_ICR_LOW = 0x300"
| "apic_reg_value APIC_REG_ICR_HIGH = 0x310"
| "apic_reg_value APIC_REG_TR = 0x320"
| "apic_reg_value APIC_REG_TSR = 0x330"
| "apic_reg_value APIC_REG_PMCR = 0x340"
| "apic_reg_value APIC_REG_LINT0R = 0x350"
| "apic_reg_value APIC_REG_LINT1R = 0x360"
| "apic_reg_value APIC_REG_ER = 0x370"
| "apic_reg_value APIC_REG_ICR = 0x380"
| "apic_reg_value APIC_REG_CCR = 0x390"
| "apic_reg_value APIC_REG_DCR = 0x3E0"

definition ICR_INIT :: u32 where "ICR_INIT = 0x00000500"
definition ICR_STARTUP :: u32 where "ICR_STARTUP = 0x00000600"
definition ICR_PHYSICAL :: u32 where "ICR_PHYSICAL = 0x00000000"
definition ICR_SEND_PENDING :: u32 where "ICR_SEND_PENDING = 0x00001000"
definition ICR_ASSERT :: u32 where "ICR_ASSERT = 0x00004000"
definition ICR_EDGE :: u32 where "ICR_EDGE = 0x00000000"
definition ICR_ALL_EXCLUDING_SELF :: u32 where "ICR_ALL_EXCLUDING_SELF = 0x000c0000"

lemmas icr_flags = ICR_INIT_def ICR_STARTUP_def ICR_PHYSICAL_def ICR_ASSERT_def ICR_EDGE_def ICR_ALL_EXCLUDING_SELF_def

definition apic_read_reg :: "'m machine \<Rightarrow> u64 \<Rightarrow> apic_reg \<Rightarrow> 'm \<Rightarrow> u32 \<times> 'm" where
  "apic_read_reg M apic_base_addr reg m = read_reg M (apic_base_addr + apic_reg_value reg) m"

definition apic_write_reg :: "'m machine \<Rightarrow> u64 \<Rightarrow> apic_reg \<Rightarrow> u32 \<Rightarrow> 'm \<Rightarrow> 'm" where
  "apic_write_reg M apic_base_addr reg value m = write_reg M (apic_base_addr + apic_reg_value reg) value m"

text \<open>The second component of the result is \<open>_apic_base_addr\<close>.\<close>

definition apic_init :: "'m machine \<Rightarrow> u64 \<Rightarrow> mem_state \<Rightarrow> 'm \<Rightarrow> (bool \<times> u64 \<times> mem_state \<times> 'm) result" where
  "apic_init M apic_base_addr s m =
     (let apic_base_msr = SET_APIC_GLOBAL_ENABLE (msr_read64 M IA32_APIC_BASE_MSR m);
          m = msr_write64 M IA32_APIC_BASE_MSR apic_base_msr m;
          apic_base = GET_APIC_BASE apic_base_msr
      in bind_result (map_device MEMORY_LAPIC apic_base 4096 s)
           (\<lambda>(ok, s). Inr (ok, if ok then apic_base else apic_base_addr, s, m)))"

definition apic_enable_lapic :: "'m machine \<Rightarrow> u64 \<Rightarrow> 'm \<Rightarrow> 'm" where
  "apic_enable_lapic M base m =
     (let m = apic_write_reg M base APIC_REG_DFR 0xffffffff m;
          m = apic_write_reg M base APIC_REG_LDR 0x01000000 m;
          (v, m) = apic_read_reg M base APIC_REG_SIV m;
          m = apic_write_reg M base APIC_REG_SIV (v OR 0x1ff) m
      in apic_write_reg M base APIC_REG_TPR 0 m)"

partial_function (option) wait_pending :: "'m machine \<Rightarrow> u64 \<Rightarrow> 'm \<Rightarrow> 'm option" where
  "wait_pending M base m =
     (let (v, m) = apic_read_reg M base APIC_REG_ICR_LOW m
      in if v AND ICR_SEND_PENDING \<noteq> 0 then wait_pending M base m else Some m)"

definition apic_send_command :: "'m machine \<Rightarrow> u64 \<Rightarrow> u32 \<Rightarrow> u32 \<Rightarrow> 'm \<Rightarrow> 'm option" where
  "apic_send_command M base cmd_high cmd_low m = do {
     m \<leftarrow> wait_pending M base m;
     let m = apic_write_reg M base APIC_REG_ICR_HIGH cmd_high m;
     let m = apic_write_reg M base APIC_REG_ICR_LOW cmd_low m;
     wait_pending M base m }"

definition apic_send_init :: "'m machine \<Rightarrow> u64 \<Rightarrow> 'm \<Rightarrow> 'm option" where
  "apic_send_init M base =
     apic_send_command M base 0
       (ICR_ALL_EXCLUDING_SELF OR ICR_INIT OR ICR_PHYSICAL OR ICR_ASSERT OR ICR_EDGE OR 0)"

definition apic_send_start :: "'m machine \<Rightarrow> u64 \<Rightarrow> 'm \<Rightarrow> 'm option" where
  "apic_send_start M base =
     apic_send_command M base 0
       (ICR_ALL_EXCLUDING_SELF OR ICR_STARTUP OR ICR_PHYSICAL OR ICR_ASSERT OR ICR_EDGE OR 1)"

subsection \<open>Its table\<close>

text \<open>
  \<open>name\<close> is the address of the literal \<open>"APIC"\<close>.  Each operation of the console reads a field of
  the table or of an entry at its offset.  The result is \<open>None\<close> when the loop over the entries does
  not end.
\<close>

definition sizeof_apic_table_header :: u64 where
  "sizeof_apic_table_header = sizeof_acpi_header + 8"

definition find_apic_table :: "mem \<Rightarrow> acpi_state \<Rightarrow> ptr \<Rightarrow> ptr" where
  "find_apic_table m a name = acpi_find_table m a name"

definition entry_type :: "mem \<Rightarrow> ptr \<Rightarrow> u8" where "entry_type m p = m p"
definition record_length :: "mem \<Rightarrow> ptr \<Rightarrow> u8" where "record_length m p = m (p + 1)"

definition byte_field :: "mem \<Rightarrow> ptr \<Rightarrow> print_arg" where "byte_field m p = PNum (ucast (m p))"
definition word_field :: "mem \<Rightarrow> ptr \<Rightarrow> print_arg" where "word_field m p = num32 (mem_read_16 m p)"
definition dword_field :: "mem \<Rightarrow> ptr \<Rightarrow> print_arg" where "dword_field m p = num32 (mem_read_32 m p)"

definition print_entry :: "mem \<Rightarrow> ptr \<Rightarrow> printed" where
  "print_entry m p =
     (if entry_type m p = LOCAL_APIC
      then [(''Processor, Id: %d, APIC Id: %d, flags: %b\<newline>'',
             [byte_field m (p + 2), byte_field m (p + 3), dword_field m (p + 4)])]
      else if entry_type m p = IO_APIC
      then [(''IO APIC, Id: %d, address: 0x%x, GlobalSystemInterruptBase: %d\<newline>'',
             [byte_field m (p + 2), dword_field m (p + 4), dword_field m (p + 8)])]
      else if entry_type m p = IO_APIC_INTERRUPTS_SOURCE_OVERRIDE
      then [(''IO APIC ISO, bus: %d, irq: %d, global interrupt: %d, flags: %b\<newline>'',
             [byte_field m (p + 2), byte_field m (p + 3), dword_field m (p + 4), word_field m (p + 8)])]
      else if entry_type m p = LOCAL_APIC_NON_MASKABLE_INTERRUPTS
      then [(''Local APIC NMI, processor: %d, LINT: %d, flags: %b\<newline>'',
             [byte_field m (p + 2), byte_field m (p + 4), byte_field m (p + 3)])]
      else [(''Unsupported Entry Type: %d\<newline>'', [PNum (ucast (entry_type m p))])])"

partial_function (option) print_entries :: "mem \<Rightarrow> ptr \<Rightarrow> ptr \<Rightarrow> printed option" where
  "print_entries m stop p =
     (if p < stop
      then do { rest \<leftarrow> print_entries m stop (p + ucast (record_length m p)); Some (print_entry m p @ rest) }
      else Some [])"

definition apic_print_info :: "mem \<Rightarrow> acpi_state \<Rightarrow> ptr \<Rightarrow> printed result option" where
  "apic_print_info m a name =
     (let apic = find_apic_table m a name
      in if apic = NULL then Some (Inl Undefined)
         else do {
           entries \<leftarrow> print_entries m (apic + ucast (mem_read_32 m (apic + 4))) (apic + sizeof_apic_table_header);
           Some (Inr ([(''Signature: %.4s\<newline>'', [PChars apic]),
              (''OEM Id: %.6s\<newline>'', [PChars (apic + 10)]),
              (''OEM Table Id: %.8s\<newline>'', [PChars (apic + 16)]),
              (''OEM Revision: %d\<newline>'', [dword_field m (apic + 24)]),
              (''Length: %d\<newline>'', [dword_field m (apic + 4)]),
              (''Local APIC Address: 0x%x\<newline>'', [dword_field m (apic + sizeof_acpi_header)])] @ entries)) })"

definition apic_print_lapic_info :: "'m machine \<Rightarrow> u64 \<Rightarrow> 'm \<Rightarrow> printed \<times> 'm" where
  "apic_print_lapic_info M base m =
     (let (id, m) = apic_read_reg M base APIC_REG_ID m;
          (vr, m) = apic_read_reg M base APIC_REG_VR m;
          (ppr, m) = apic_read_reg M base APIC_REG_PPR m
      in ([(''LAPIC ID: %d\<newline>'', [num32 id]), (''LAPIC Version: %d\<newline>'', [num32 vr]),
           (''LAPIC PPR: %d\<newline>'', [num32 ppr])], m))"

subsection \<open>Starting the other cores\<close>

text \<open>The variables of the code the other cores start in.\<close>

record smp_variables =
  smp_idt_pointer_size :: u16
  smp_idt_pointer_base :: u32
  smp_gdt_pointer_size :: u16
  smp_gdt_pointer_base :: u64
  smp_pml4_base :: u64

definition smp_init ::
  "'m machine \<Rightarrow> u64 \<Rightarrow> gdt_pointer \<Rightarrow> idt_descriptor \<Rightarrow> 'm \<Rightarrow> (smp_variables \<times> 'm) result option" where
  "smp_init M base gdt idt_desc m =
     (let (gdt_size, gdt_offset) = gdt_get_descriptor gdt;
          vars = \<lparr>smp_idt_pointer_size = idt_desc_size idt_desc,
                  smp_idt_pointer_base = ucast (idt_desc_offset idt_desc),
                  smp_gdt_pointer_size = gdt_size, smp_gdt_pointer_base = gdt_offset,
                  smp_pml4_base = mem_get_pml4_addr\<rparr>;
          m = apic_enable_lapic M base m
      in do {
        m \<leftarrow> apic_send_init M base m;
        r \<leftarrow> cpu_delay_ms M 10 m;
        case r of Inl e \<Rightarrow> Some (Inl e) | Inr m \<Rightarrow> do {
          m \<leftarrow> apic_send_start M base m;
          r \<leftarrow> cpu_delay_us M 200 m;
          case r of Inl e \<Rightarrow> Some (Inl e) | Inr m \<Rightarrow> do {
            m \<leftarrow> apic_send_start M base m;
            r \<leftarrow> cpu_delay_us M 200 m;
            Some (map_sum id (\<lambda>m. (vars, m)) r) } } })"

subsection \<open>What is known of the machine\<close>

text \<open>
  \<open>tick\<close> is the time-stamp counter as an unbounded number, \<open>writes\<close> the register writes so far with
  their times, \<open>busy\<close> how many more reads of the command register may still find the delivery status
  set.  The counter moves by at least one from one read to the next, no access takes more than \<open>d\<close>
  cycles, and the delivery status stays set for at most \<open>n\<close> reads.
\<close>

record 'm observed =
  tick :: "'m \<Rightarrow> nat"
  writes :: "'m \<Rightarrow> (ptr \<times> u32 \<times> nat) list"
  busy :: "'m \<Rightarrow> nat"

definition within :: "'m observed \<Rightarrow> nat \<Rightarrow> 'm \<Rightarrow> 'm \<Rightarrow> bool" where
  "within B d m m' \<longleftrightarrow> tick B m \<le> tick B m' \<and> tick B m' \<le> tick B m + d"

definition lapic :: "'m machine \<Rightarrow> u64 \<Rightarrow> 'm observed \<Rightarrow> nat \<Rightarrow> nat \<Rightarrow> bool" where
  "lapic M base B d n \<longleftrightarrow>
     (\<forall>m. fst (rdtsc M m) = of_nat (tick B m) \<and> tick B m < tick B (snd (rdtsc M m)) \<and>
        within B d m (snd (rdtsc M m)) \<and> writes B (snd (rdtsc M m)) = writes B m) \<and>
     (\<forall>m p. within B d m (snd (read_reg M p m)) \<and> writes B (snd (read_reg M p m)) = writes B m) \<and>
     (\<forall>m. fst (apic_read_reg M base APIC_REG_ICR_LOW m) AND ICR_SEND_PENDING \<noteq> 0 \<longrightarrow>
        busy B (snd (apic_read_reg M base APIC_REG_ICR_LOW m)) < busy B m) \<and>
     (\<forall>m p v. within B d m (write_reg M p v m) \<and> writes B (write_reg M p v m) = writes B m @ [(p, v, tick B m)]) \<and>
     (\<forall>m. busy B m \<le> n)"

lemma lapic_rdtsc:
  assumes "lapic M base B d n"
  obtains m' where "rdtsc M m = (of_nat (tick B m), m')" "tick B m < tick B m'" "tick B m' \<le> tick B m + d" "writes B m' = writes B m"
  using assms that by (metis lapic_def within_def prod.collapse)

lemma lapic_write:
  assumes "lapic M base B d n" and "m' = apic_write_reg M base r v m"
  shows "writes B m' = writes B m @ [(base + apic_reg_value r, v, tick B m)]" "tick B m \<le> tick B m'" "tick B m' \<le> tick B m + d"
  using assms by (auto simp: lapic_def within_def apic_write_reg_def)

lemma lapic_read:
  assumes "lapic M base B d n" and "(v, m') = apic_read_reg M base r m"
  shows "writes B m' = writes B m" "tick B m \<le> tick B m'" "tick B m' \<le> tick B m + d"
  using assms(1) arg_cong [OF assms(2), of snd] by (auto simp: lapic_def within_def apic_read_reg_def)

lemma wait_clock_returns:
  assumes "lapic M base B d n" and "c + d < 2 ^ 64" and "tick B m \<le> c + d"
  shows "\<exists>m'. wait_clock M (of_nat c) m = Some m' \<and> c \<le> tick B m' \<and> tick B m' \<le> c + 2 * d \<and> writes B m' = writes B m"
  using assms(3)
proof (induction "c + d - tick B m" arbitrary: m rule: less_induct)
  case less
  obtain m' where r: "rdtsc M m = (of_nat (tick B m), m')" "tick B m < tick B m'" "tick B m' \<le> tick B m + d" "writes B m' = writes B m"
    using lapic_rdtsc [OF assms(1)] .
  have lt: "(of_nat (tick B m) :: u64) < of_nat c \<longleftrightarrow> tick B m < c"
    using less.prems assms(2) by (simp add: word_less_nat_alt unat_of_nat take_bit_eq_mod)
  show ?case
  proof (cases "tick B m < c")
    case True
    then have "\<exists>m''. wait_clock M (of_nat c) m' = Some m'' \<and> c \<le> tick B m'' \<and> tick B m'' \<le> c + 2 * d \<and> writes B m'' = writes B m'"
      using r by (intro less.hyps) auto
    then show ?thesis using True r lt by (simp add: wait_clock.simps [of _ _ m])
  next
    case False
    then show ?thesis using r lt less.prems by (simp add: wait_clock.simps [of _ _ m])
  qed
qed

lemma cpu_delay_waits:
  assumes "lapic M base B d n" and "tick B m + k + d < 2 ^ 64" and "cycles * i = int k" and "k < 2 ^ 63"
  shows "\<exists>m'. cpu_delay cycles M i m = Some (Inr m') \<and> writes B m' = writes B m \<and>
    tick B m + k \<le> tick B m' \<and> tick B m' \<le> tick B m + k + 2 * d"
proof -
  obtain m1 where r: "rdtsc M m = (of_nat (tick B m), m1)" "tick B m1 \<le> tick B m + d" "writes B m1 = writes B m"
    using lapic_rdtsc [OF assms(1)] by metis
  have "tick B m1 \<le> tick B m + k + d" using r by simp
  from wait_clock_returns [OF assms(1,2) this] r assms(4) show ?thesis
    by (auto simp: cpu_delay_def assms(3))
qed

lemma wait_pending_returns:
  assumes "lapic M base B d n"
  shows "\<exists>m'. wait_pending M base m = Some m' \<and> writes B m' = writes B m \<and> tick B m \<le> tick B m' \<and>
    tick B m' \<le> tick B m + d * Suc (busy B m)"
proof (induction "busy B m" arbitrary: m rule: less_induct)
  case less
  obtain v m1 where r: "(v, m1) = apic_read_reg M base APIC_REG_ICR_LOW m" by (metis prod.collapse)
  note step = lapic_read [OF assms r]
  show ?case
  proof (cases "v AND ICR_SEND_PENDING \<noteq> 0")
    case True
    then have b: "busy B m1 < busy B m" using assms r [symmetric] unfolding lapic_def by (metis fst_conv snd_conv)
    obtain m' where m': "wait_pending M base m1 = Some m'" "writes B m' = writes B m1" "tick B m1 \<le> tick B m'"
        "tick B m' \<le> tick B m1 + d * Suc (busy B m1)"
      using less.hyps [OF b] by blast
    have "d * Suc (busy B m1) \<le> d * busy B m" using b by (intro mult_le_mono2) simp
    then have "tick B m' \<le> tick B m + d * Suc (busy B m)" using m'(4) step(3) by simp
    then show ?thesis using m' step True r [symmetric] by (auto simp: wait_pending.simps [of _ _ m])
  next
    case False
    then show ?thesis using step r [symmetric] by (auto simp: wait_pending.simps [of _ _ m])
  qed
qed

lemma wait_pending_bounded:
  assumes "lapic M base B d n"
  obtains m' where "wait_pending M base m = Some m'" "writes B m' = writes B m" "tick B m \<le> tick B m'"
    "tick B m' \<le> tick B m + (d * n + d)"
proof -
  have "busy B m \<le> n" using assms by (simp add: lapic_def)
  then have "d * Suc (busy B m) \<le> d * n + d" using mult_le_mono2 [of "Suc (busy B m)" "Suc n" d] by simp
  moreover obtain m' where m': "wait_pending M base m = Some m'" "writes B m' = writes B m" "tick B m \<le> tick B m'"
      "tick B m' \<le> tick B m + d * Suc (busy B m)"
    using wait_pending_returns [OF assms] by blast
  ultimately have "tick B m' \<le> tick B m + (d * n + d)" by linarith
  with m' show ?thesis by (intro that)
qed

lemma apic_send_command_sends:
  assumes "lapic M base B d n"
  shows "\<exists>m' t t'. apic_send_command M base hi lo m = Some m' \<and>
    writes B m' = writes B m @ [(base + 0x310, hi, t), (base + 0x300, lo, t')] \<and>
    tick B m \<le> t \<and> t \<le> t' \<and> t' \<le> tick B m' \<and> tick B m' \<le> tick B m + (2 * (d * n) + 4 * d)"
proof -
  obtain m1 where m1: "wait_pending M base m = Some m1" "writes B m1 = writes B m" "tick B m \<le> tick B m1"
      "tick B m1 \<le> tick B m + (d * n + d)"
    using wait_pending_bounded [OF assms] .
  define m2 where "m2 = apic_write_reg M base APIC_REG_ICR_HIGH hi m1"
  define m3 where "m3 = apic_write_reg M base APIC_REG_ICR_LOW lo m2"
  note w2 = lapic_write [OF assms m2_def] and w3 = lapic_write [OF assms m3_def]
  obtain m4 where m4: "wait_pending M base m3 = Some m4" "writes B m4 = writes B m3" "tick B m3 \<le> tick B m4"
      "tick B m4 \<le> tick B m3 + (d * n + d)"
    using wait_pending_bounded [OF assms] .
  have "apic_send_command M base hi lo m = Some m4"
    using m1 m4 by (simp add: apic_send_command_def m2_def m3_def)
  moreover have "writes B m4 = writes B m @ [(base + 0x310, hi, tick B m1), (base + 0x300, lo, tick B m2)]"
    using m1 w2 w3 m4 by simp
  ultimately show ?thesis using m1 w2 w3 m4
    by (intro exI [of _ m4] exI [of _ "tick B m1"] exI [of _ "tick B m2"] conjI; linarith)
qed

lemma apic_enable_lapic_writes:
  assumes "lapic M base B d n"
  shows "\<exists>siv t1 t2 t3 t4. writes B (apic_enable_lapic M base m) = writes B m @
      [(base + 0xE0, 0xffffffff, t1), (base + 0xD0, 0x01000000, t2), (base + 0xF0, siv OR 0x1ff, t3), (base + 0x80, 0, t4)] \<and>
    tick B m \<le> tick B (apic_enable_lapic M base m) \<and> tick B (apic_enable_lapic M base m) \<le> tick B m + 5 * d"
proof -
  define m1 where "m1 = apic_write_reg M base APIC_REG_DFR 0xffffffff m"
  define m2 where "m2 = apic_write_reg M base APIC_REG_LDR 0x01000000 m1"
  obtain v m3 where r: "(v, m3) = apic_read_reg M base APIC_REG_SIV m2" by (metis prod.collapse)
  define m4 where "m4 = apic_write_reg M base APIC_REG_SIV (v OR 0x1ff) m3"
  define m5 where "m5 = apic_write_reg M base APIC_REG_TPR 0 m4"
  have e: "apic_enable_lapic M base m = m5"
    by (simp add: apic_enable_lapic_def m1_def [symmetric] m2_def [symmetric] r [symmetric] m4_def [symmetric] m5_def [symmetric])
  note ws = lapic_write [OF assms m1_def] lapic_write [OF assms m2_def] lapic_read [OF assms r]
    lapic_write [OF assms m4_def] lapic_write [OF assms m5_def]
  have "tick B m \<le> tick B m5 \<and> tick B m5 \<le> tick B m + 5 * d" using ws by linarith
  then show ?thesis unfolding e using ws by auto
qed


lemma send_then_delay:
  assumes "lapic M base B d n" and "tick B m + (2 * (d * n) + 4 * d) + k + d < 2 ^ 64" and "cycles * i = int k" and "k < 2 ^ 63"
  shows "\<exists>m1 m' t t'. apic_send_command M base hi lo m = Some m1 \<and> cpu_delay cycles M i m1 = Some (Inr m') \<and>
    writes B m' = writes B m @ [(base + 0x310, hi, t), (base + 0x300, lo, t')] \<and> tick B m \<le> t \<and> t \<le> t' \<and>
    t' + k \<le> tick B m' \<and> tick B m' \<le> tick B m + (2 * (d * n) + 4 * d) + k + 2 * d"
proof -
  obtain m1 t t' where s: "apic_send_command M base hi lo m = Some m1"
      "writes B m1 = writes B m @ [(base + 0x310, hi, t), (base + 0x300, lo, t')]"
      "tick B m \<le> t" "t \<le> t'" "t' \<le> tick B m1" "tick B m1 \<le> tick B m + (2 * (d * n) + 4 * d)"
    using apic_send_command_sends [OF assms(1)] by blast
  have "tick B m1 + k + d < 2 ^ 64" using assms(2) s(6) by linarith
  then obtain m' where w: "cpu_delay cycles M i m1 = Some (Inr m')" "writes B m' = writes B m1"
      "tick B m1 + k \<le> tick B m'" "tick B m' \<le> tick B m1 + k + 2 * d"
    using cpu_delay_waits [OF assms(1) _ assms(3,4)] by blast
  have "t' + k \<le> tick B m'" "tick B m' \<le> tick B m + (2 * (d * n) + 4 * d) + k + 2 * d" using s w by linarith+
  with s w show ?thesis by (intro exI [of _ m1] exI [of _ m'] exI [of _ t] exI [of _ t'] conjI) simp_all
qed

subsection \<open>Start of the cores\<close>

text \<open>The interrupts as the data sheet has them: \<open>INIT\<close>, and \<open>STARTUP\<close> at page 1.\<close>

lemma apic_start_commands:
  "apic_send_init M base = apic_send_command M base 0 0xC4500"
  "apic_send_start M base = apic_send_command M base 0 0xC4601"
  by (simp_all add: apic_send_init_def apic_send_start_def icr_flags)

text \<open>
  C39.  On a machine as above \<open>smp_init\<close> ends.  Until then it has written the registers of the local
  interrupt controller in the order that enables it (flat mode, logical id 1, spurious vector with
  the enable bit, priority 0) and has sent INIT and then STARTUP twice to the other cores, at least
  10 ms of 2,000,000 cycles after the INIT and 200 microseconds after each STARTUP.  The code the
  cores start in finds the tables and page tables of this core; of the address of the interrupt
  descriptors it gets the lower 32 bits.
\<close>
theorem smp_init_starts_cores:
  assumes "lapic M base B d n" and "tick B m + 20800000 + 6 * (d * n) + 24 * d < 2 ^ 64"
  shows "\<exists>vars m' siv s1 s2 s3 s4 i j a b a' b'. smp_init M base gdt idt m = Some (Inr (vars, m')) \<and>
    vars = \<lparr>smp_idt_pointer_size = idt_desc_size idt, smp_idt_pointer_base = ucast (idt_desc_offset idt),
      smp_gdt_pointer_size = main_gdt_pointer_size gdt, smp_gdt_pointer_base = main_gdt_pointer_base gdt,
      smp_pml4_base = mem_get_pml4_addr\<rparr> \<and>
    writes B m' = writes B m @
      [(base + 0xE0, 0xffffffff, s1), (base + 0xD0, 0x01000000, s2), (base + 0xF0, siv OR 0x1ff, s3), (base + 0x80, 0, s4),
       (base + 0x310, 0, i), (base + 0x300, 0xC4500, j), (base + 0x310, 0, a), (base + 0x300, 0xC4601, b),
       (base + 0x310, 0, a'), (base + 0x300, 0xC4601, b')] \<and>
    j + 20000000 \<le> a \<and> a \<le> b \<and> b + 400000 \<le> a' \<and> a' \<le> b' \<and> b' + 400000 \<le> tick B m'"
proof -
  note L = assms(1)
  define m0 where "m0 = apic_enable_lapic M base m"
  obtain siv s1 s2 s3 s4 where w0: "writes B m0 = writes B m @ [(base + 0xE0, 0xffffffff, s1),
        (base + 0xD0, 0x01000000, s2), (base + 0xF0, siv OR 0x1ff, s3), (base + 0x80, 0, s4)]"
      and t0: "tick B m0 \<le> tick B m + 5 * d"
    using apic_enable_lapic_writes [OF L, of m] unfolding m0_def by blast
  have "tick B m0 + (2 * (d * n) + 4 * d) + 20000000 + d < 2 ^ 64" using assms(2) t0 by linarith
  from send_then_delay [OF L this, of "2 * 1000 * 1000" 10] obtain m1 m2 i j where a1: "apic_send_init M base m0 = Some m1" "cpu_delay_ms M 10 m1 = Some (Inr m2)"
      "writes B m2 = writes B m0 @ [(base + 0x310, 0, i), (base + 0x300, 0xC4500, j)]"
      "j + 20000000 \<le> tick B m2" "tick B m2 \<le> tick B m0 + (2 * (d * n) + 4 * d) + 20000000 + 2 * d"
    unfolding apic_start_commands cpu_delay_ms_def by force
  have "tick B m2 + (2 * (d * n) + 4 * d) + 400000 + d < 2 ^ 64" using assms(2) t0 a1(5) by linarith
  from send_then_delay [OF L this, of "2 * 1000" 200] obtain m3 m4 a b where a2: "apic_send_start M base m2 = Some m3" "cpu_delay_us M 200 m3 = Some (Inr m4)"
      "writes B m4 = writes B m2 @ [(base + 0x310, 0, a), (base + 0x300, 0xC4601, b)]" "tick B m2 \<le> a" "a \<le> b"
      "b + 400000 \<le> tick B m4" "tick B m4 \<le> tick B m2 + (2 * (d * n) + 4 * d) + 400000 + 2 * d"
    unfolding apic_start_commands cpu_delay_us_def by force
  have "tick B m4 + (2 * (d * n) + 4 * d) + 400000 + d < 2 ^ 64" using assms(2) t0 a1(5) a2(7) by linarith
  from send_then_delay [OF L this, of "2 * 1000" 200] obtain m5 m6 a' b' where a3: "apic_send_start M base m4 = Some m5" "cpu_delay_us M 200 m5 = Some (Inr m6)"
      "writes B m6 = writes B m4 @ [(base + 0x310, 0, a'), (base + 0x300, 0xC4601, b')]" "tick B m4 \<le> a'" "a' \<le> b'"
      "b' + 400000 \<le> tick B m6"
    unfolding apic_start_commands cpu_delay_us_def by force
  have o: "j + 20000000 \<le> a \<and> a \<le> b \<and> b + 400000 \<le> a' \<and> a' \<le> b' \<and> b' + 400000 \<le> tick B m6"
    using a1 a2 a3 by linarith
  have w: "writes B m6 = writes B m @
      [(base + 0xE0, 0xffffffff, s1), (base + 0xD0, 0x01000000, s2), (base + 0xF0, siv OR 0x1ff, s3), (base + 0x80, 0, s4),
       (base + 0x310, 0, i), (base + 0x300, 0xC4500, j), (base + 0x310, 0, a), (base + 0x300, 0xC4601, b),
       (base + 0x310, 0, a'), (base + 0x300, 0xC4601, b')]"
    by (simp add: w0 a1(3) a2(3) a3(3))
  show ?thesis
    by (intro exI conjI, simp add: smp_init_def gdt_get_descriptor_def m0_def [symmetric] a1(1,2) a2(1,2) a3(1,2), rule refl, rule w)
      (use o in simp_all)
qed

text \<open>A machine that answers each read of the command register once with the delivery status set.\<close>

record example_machine =
  em_tick :: nat
  em_writes :: "(ptr \<times> u32 \<times> nat) list"
  em_busy :: bool

definition example_cpu :: "example_machine machine" where
  "example_cpu =
     \<lparr>RDMSR = \<lambda>_ _. (0, 0), WRMSR = \<lambda>_ _ _ m. m,
      RDTSC = \<lambda>m. (ucast (of_nat (em_tick m) :: u64), ucast (drop_bit 32 (of_nat (em_tick m) :: u64)), m\<lparr>em_tick := em_tick m + 1\<rparr>),
      CPUID = \<lambda>_. (0, 0, 0, 0),
      read_reg = \<lambda>_ m. (if em_busy m then 0x1000 else 0, m\<lparr>em_busy := False\<rparr>),
      write_reg = \<lambda>p v m. m\<lparr>em_tick := em_tick m + 1, em_writes := em_writes m @ [(p, v, em_tick m)], em_busy := True\<rparr>\<rparr>"

definition example_view :: "example_machine observed" where
  "example_view = \<lparr>tick = em_tick, writes = em_writes, busy = \<lambda>m. of_bool (em_busy m)\<rparr>"

lemma halves: "push_bit 32 (ucast (ucast (drop_bit 32 w) :: u32)) OR ucast (ucast w :: u32) = (w :: u64)"
  by (rule bit_word_eqI) (auto simp: bit_simps dest: bit_imp_le_length)

lemma example_lapic: "lapic example_cpu base example_view 1 1"
  by (simp add: lapic_def example_cpu_def example_view_def rdtsc_def within_def apic_read_reg_def halves ICR_SEND_PENDING_def)

theorem smp_init_starts_cores_witness:
  "\<exists>vars m'. smp_init example_cpu 0xFEE00000 \<lparr>main_gdt_pointer_size = 23, main_gdt_pointer_base = 0x5000\<rparr>
     \<lparr>idt_desc_size = 4095, idt_desc_offset = 0x10000\<rparr> \<lparr>em_tick = 0, em_writes = [], em_busy = False\<rparr> = Some (Inr (vars, m')) \<and>
     20800000 \<le> em_tick m'"
proof -
  let ?m = "\<lparr>em_tick = 0, em_writes = [], em_busy = False\<rparr>"
  have "tick example_view ?m + 20800000 + 6 * (1 * 1) + 24 * 1 < 2 ^ 64" by (simp add: example_view_def)
  from smp_init_starts_cores [OF example_lapic this, of "0xFEE00000"
      "\<lparr>main_gdt_pointer_size = 23, main_gdt_pointer_base = 0x5000\<rparr>" "\<lparr>idt_desc_size = 4095, idt_desc_offset = 0x10000\<rparr>"]
  show ?thesis by (auto simp: example_view_def)
qed

text \<open>
  \<open>msr_write64\<close> writes the halves that \<open>msr_read64\<close> reads: on a machine whose register gives back
  what was written, the value comes back.
\<close>

lemma msr_write64_read64:
  assumes "\<forall>lo hi. RDMSR M r (WRMSR M r lo hi m) = (lo, hi)"
  shows "msr_read64 M r (msr_write64 M r v m) = v"
proof -
  have "(ucast a :: u64) + push_bit 32 (ucast b) = push_bit 32 (ucast b) OR ucast a" for a b :: u32
    by (subst or.commute, rule disjunctive_add) (auto simp: bit_simps dest: bit_imp_le_length)
  moreover have m: "(0xFFFFFFFF :: u64) = mask 32" by (simp add: mask_eq_exp_minus_1)
  have "ucast (v AND 0xFFFFFFFF) = (ucast v :: u32)" "ucast (drop_bit 32 v AND 0xFFFFFFFF) = (ucast (drop_bit 32 v) :: u32)"
    by (rule bit_word_eqI; simp add: m bit_simps)+
  ultimately show ?thesis
    using assms by (simp add: msr_read64_def msr_write64_def msr_read_def msr_write_def halves)
qed


subsection \<open>The loop over the entries of the table\<close>

text \<open>It prints an entry for each step of the chain, and does not end at an entry of length 0.\<close>

fun entry_chain :: "mem \<Rightarrow> ptr \<Rightarrow> ptr \<Rightarrow> ptr list \<Rightarrow> bool" where
  "entry_chain m stop p [] \<longleftrightarrow> stop \<le> p"
| "entry_chain m stop p (q # qs) \<longleftrightarrow> q = p \<and> p < stop \<and> entry_chain m stop (p + ucast (record_length m p)) qs"

lemma print_entries_chain:
  "entry_chain m stop p qs \<Longrightarrow> print_entries m stop p = Some (concat (map (print_entry m) qs))"
proof (induction qs arbitrary: p)
  case Nil
  then show ?case by (subst print_entries.simps) auto
next
  case (Cons q qs)
  then show ?case by (subst print_entries.simps) auto
qed

lemma print_entries_returns: "print_entries m stop p = Some r \<Longrightarrow> \<exists>qs. entry_chain m stop p qs"
proof (induction rule: print_entries.raw_induct [rotated, consumes 1])
  case (1 go m stop p r)
  show ?case
  proof (cases "p < stop")
    case True
    with 1(2) obtain y where "go m stop (p + ucast (record_length m p)) = Some y"
      by (auto simp: bind_eq_Some_conv)
    from 1(1) [OF this] obtain qs where "entry_chain m stop (p + ucast (record_length m p)) qs" ..
    then show ?thesis using True by (intro exI [of _ "p # qs"]) simp
  next
    case False
    then show ?thesis by (intro exI [of _ "[]"]) simp
  qed
qed

lemma print_entries_zero_length:
  assumes "p < stop" and "record_length m p = 0"
  shows "print_entries m stop p = None"
proof -
  have "\<not> entry_chain m stop p qs" for qs
    by (induction qs) (use assms in auto)
  then show ?thesis using print_entries_returns [of m stop p] by (cases "print_entries m stop p") auto
qed


subsection \<open>The idle process\<close>

text \<open>\<open>idle_main\<close> of \<open>kernel/cpu/process.c\<close>; \<open>put\<close> is \<open>printf\<close>.\<close>

partial_function (option) idle_main ::
  "'m machine \<Rightarrow> (string \<times> print_arg list \<Rightarrow> 'm \<Rightarrow> 'm option) \<Rightarrow> 'm \<Rightarrow> panic option" where
  "idle_main M put m = do {
     r \<leftarrow> cpu_delay_s M 1 m;
     case r of Inl e \<Rightarrow> Some e
     | Inr m \<Rightarrow> do { m \<leftarrow> put (''I am the idle process 1\<newline>'', []) m; idle_main M put m } }"

text \<open>It never returns: the delay of a second does not overflow.\<close>

lemma idle_main_never_returns: "idle_main M put m = None"
proof -
  have "idle_main M put m = Some r \<Longrightarrow> False" for r
  proof (induction rule: idle_main.raw_induct [rotated, consumes 1])
    case (1 go M put m r)
    have "cpu_delay_s M 1 m \<noteq> Some (Inl e)" for e
      by (auto simp: cpu_delay_s_def cpu_delay_def split: prod.splits)
    moreover obtain y where "cpu_delay_s M 1 m = Some y" using 1(2) by (auto simp: bind_eq_Some_conv)
    ultimately show ?case using 1 by (cases y) (auto simp: bind_eq_Some_conv)
  qed
  then show ?thesis by fastforce
qed

end
