(* ===== verification/Usb.thy ===== *)
theory Usb
  imports Cpu
begin

text \<open>
  The xHCI host controller of \<open>kernel/device/usb.c\<close>: it is looked up among the PCI devices, its
  registers are mapped and the capability registers copied.  \<open>m\<close> is the memory behind the
  controller's registers.
\<close>

unbundle bit_operations_syntax

definition DBOFF :: "u32 \<Rightarrow> u32" where "DBOFF reg = reg AND NOT 3"
definition RTSOFF :: "u32 \<Rightarrow> u32" where "RTSOFF reg = reg AND NOT 31"

text \<open>The bit fields of the union \<open>HCSPARAMS1\<close>.\<close>

definition MaxSlots :: "u32 \<Rightarrow> u32" where "MaxSlots v = take_bit 8 v"
definition MaxIntrs :: "u32 \<Rightarrow> u32" where "MaxIntrs v = take_bit 11 (drop_bit 8 v)"
definition MaxPorts :: "u32 \<Rightarrow> u32" where "MaxPorts v = drop_bit 24 v"

record usb_capability_regs =
  CAPLENGTH :: u8
  HCIVERSION :: u16
  HCSPARAMS1 :: u32
  HCSPARAMS2 :: u32
  HCSPARAMS3 :: u32
  HCCPARAMS1 :: u32
  cap_DBOFF :: u32
  cap_RTSOFF :: u32
  HCCPARAMS2 :: u32

record usb_state =
  usb_inited :: bool
  usb_caps :: usb_capability_regs

definition usb_device_class :: pci_device where
  "usb_device_class =
     \<lparr>bus_number = 0, device_number = 0, function_number = 0, vendor_id = 0, device_id = 0, header_type = 0,
      pi_class_code = 0x30, sub_class_code = 0x03, base_class_code = 0x0C, ecam_adress = 0,
      bar = replicate 6 0\<rparr>"

definition read_usb_caps :: "mem \<Rightarrow> u64 \<Rightarrow> usb_capability_regs" where
  "read_usb_caps m addr =
     \<lparr>CAPLENGTH = ucast (mem_read_8 m (addr + 0x00)), HCIVERSION = ucast (mem_read_16 m (addr + 0x02)),
      HCSPARAMS1 = mem_read_32 m (addr + 0x04), HCSPARAMS2 = mem_read_32 m (addr + 0x08),
      HCSPARAMS3 = mem_read_32 m (addr + 0x0C), HCCPARAMS1 = mem_read_32 m (addr + 0x10),
      cap_DBOFF = mem_read_32 m (addr + 0x14), cap_RTSOFF = mem_read_32 m (addr + 0x18),
      HCCPARAMS2 = mem_read_32 m (addr + 0x1C)\<rparr>"

definition usb_init ::
  "mem \<Rightarrow> pci_state \<Rightarrow> mem_state \<Rightarrow> usb_state \<Rightarrow> (bool \<times> mem_state \<times> usb_state) result" where
  "usb_init m p s u =
     (case pci_get_device p usb_device_class of
        None \<Rightarrow> Inr (False, s, u)
      | Some device \<Rightarrow>
          bind_result (pci_bar_addr device 0) (\<lambda>addr.
          bind_result (map_device MEMORY_USB_DEVICE addr (2 * PAGE_SIZE_4K) s) (\<lambda>(ok, s).
            if \<not> ok then Inr (False, s, u)
            else Inr (True, s, u\<lparr>usb_caps := read_usb_caps m addr, usb_inited := True\<rparr>))))"

definition usb_print_info :: "usb_state \<Rightarrow> printed" where
  "usb_print_info u =
     (if \<not> usb_inited u then [(''Warning: %s\<newline>'', [PStr ''USB subsystem not initialized''])]
      else [(''Interface Version: %d\<newline>'', [PNum (ucast (HCIVERSION (usb_caps u)))]),
            (''Capability Length: %d\<newline>'', [PNum (ucast (CAPLENGTH (usb_caps u)))]),
            (''Max Ports: %d\<newline>'', [num32 (MaxPorts (HCSPARAMS1 (usb_caps u)))]),
            (''Max Device Slots: %d\<newline>'', [num32 (MaxSlots (HCSPARAMS1 (usb_caps u)))]),
            (''Max Interrupters: %d\<newline>'', [num32 (MaxIntrs (HCSPARAMS1 (usb_caps u)))]),
            (''Runtime Register Offset: %d\<newline>'', [num32 (RTSOFF (cap_RTSOFF (usb_caps u)))]),
            (''Doorbell Array Offset: %d\<newline>'', [num32 (DBOFF (cap_DBOFF (usb_caps u)))])])"

text \<open>The fields and the reserved bits make up the register; the offsets are aligned.\<close>

lemma HCSPARAMS1_fields:
  "MaxSlots v OR push_bit 8 (MaxIntrs v) OR (v AND push_bit 19 (mask 5)) OR push_bit 24 (MaxPorts v) = v"
proof (rule bit_word_eqI)
  fix n assume "n < LENGTH(32)"
  then show "bit (MaxSlots v OR push_bit 8 (MaxIntrs v) OR (v AND push_bit 19 (mask 5)) OR push_bit 24 (MaxPorts v)) n = bit v n"
    by (cases "n < 24") (auto simp: MaxSlots_def MaxIntrs_def MaxPorts_def bit_simps)
qed

lemma usb_offsets_aligned: "take_bit 2 (DBOFF r) = 0" "take_bit 5 (RTSOFF r) = 0"
proof -
  have "(3 :: u32) = mask 2" "(31 :: u32) = mask 5" by (simp_all add: mask_eq_exp_minus_1)
  then show "take_bit 2 (DBOFF r) = 0" "take_bit 5 (RTSOFF r) = 0"
    by (auto intro!: bit_word_eqI simp: DBOFF_def RTSOFF_def bit_simps)
qed

lemma pci_get_device_loop_found:
  "pci_get_device_loop c ds = Some d \<Longrightarrow> d \<in> set ds \<and> base_class_code d = base_class_code c \<and>
     sub_class_code d = sub_class_code c \<and> pi_class_code d = pi_class_code c"
  by (induction ds) (auto split: if_splits)

text \<open>
  When the initialisation reports success, a controller was among the devices, and the registers
  that were copied are those at its first base address, which is mapped.
\<close>

lemma usb_init_success:
  assumes "usb_init m p s u = Inr (True, s', u')"
  obtains d addr where "d \<in> set (pci_devices p)" "base_class_code d = 0x0C" "sub_class_code d = 0x03"
    "pi_class_code d = 0x30" "pci_bar_addr d 0 = Inr addr" "usb_inited u'" "usb_caps u' = read_usb_caps m addr"
    "map_device MEMORY_USB_DEVICE addr (2 * PAGE_SIZE_4K) s = Inr (True, s')"
proof -
  obtain d where d: "pci_get_device p usb_device_class = Some d"
    using assms by (auto simp: usb_init_def split: option.splits)
  then have "pci_get_device_loop usb_device_class (pci_devices p) = Some d"
    by (simp add: pci_get_device_def split: if_splits)
  note f = pci_get_device_loop_found [OF this]
  obtain addr where a: "pci_bar_addr d 0 = Inr addr"
    using assms d by (cases "pci_bar_addr d 0") (auto simp: usb_init_def)
  obtain r where r: "map_device MEMORY_USB_DEVICE addr (2 * PAGE_SIZE_4K) s = Inr r"
    using assms d a by (cases "map_device MEMORY_USB_DEVICE addr (2 * PAGE_SIZE_4K) s") (auto simp: usb_init_def)
  have "r = (True, s')" "u' = u\<lparr>usb_caps := read_usb_caps m addr, usb_inited := True\<rparr>"
    using assms by (auto simp: usb_init_def d a r split: prod.splits if_splits)
  then show ?thesis using f a r by (intro that [of d addr]) (simp_all add: usb_device_class_def)
qed

end
