(* ===== verification/Kernel.thy ===== *)
theory Kernel
  imports Shell Usb
begin

text \<open>
  The start of the kernel, \<open>kernel/boot/kernel.c\<close>: \<open>kernel_init\<close> calls the initialisation of each
  component in turn.  The record \<open>system\<close> holds the state of the components, \<open>bm\<close> is the memory with
  what the boot loader and the firmware left (information structure, tables, fonts) and the memory
  behind the devices.  The record \<open>platform\<close> holds what is not part of the kernel's C code: the
  machine, the addresses the linker chose, and the allocator as the initialisations call it (theory
  \<open>Heap\<close> models the allocator itself).
\<close>

record ('d, 'p, 'h) system =
  bm :: mem
  sys_mbi :: mb2_info
  sys_cores :: u32
  sys_idt :: idt_descriptor
  sys_kernel :: kernel
  sys_machine :: 'd
  sys_heap :: 'h
  sys_vga :: "'p vga"
  sys_vbe :: vbe
  sys_fonts :: psf_fonts
  sys_ttyd :: "'p display tty_device"
  sys_tty :: "'p display tty"
  sys_kb_queue :: ptr
  sys_acpi :: acpi_state
  sys_apic_base :: u64
  sys_pci :: pci_state
  sys_usb :: usb_state
  sys_smp :: smp_variables

record ('d, 'p, 'h) platform =
  pf_ports :: "'d ports"
  pf_machine :: "'d machine"
  pf_vga_ports :: "'p ports"
  pf_lidt :: "idt_descriptor \<Rightarrow> 'd \<Rightarrow> 'd"
  pf_idt :: ptr
  pf_idt_size :: u16
  pf_gdt :: gdt_pointer
  pf_control_registers :: "u64 \<times> u64 \<times> u64 \<times> u64"
  pf_font_start :: "font_name \<Rightarrow> ptr"
  pf_heap_init :: "u64 \<Rightarrow> u64 \<Rightarrow> vm_state \<Rightarrow> (unit \<times> vm_state) result"
  pf_malloc :: "'h \<Rightarrow> u64 \<Rightarrow> ptr \<times> 'h"
  pf_mcfg_name :: ptr
  pf_sh_start :: ptr
  pf_idle_main :: ptr

text \<open>The memory manager's part of the kernel's state.\<close>

definition memory_of :: "('d, 'p, 'h) system \<Rightarrow> mem_state" where
  "memory_of b = mem_state.truncate (sys_kernel b)"

definition set_memory :: "mem_state \<Rightarrow> ('d, 'p, 'h) system \<Rightarrow> ('d, 'p, 'h) system" where
  "set_memory s b = b\<lparr>sys_kernel := mem_state.extend s (mem_state.more (sys_kernel b))\<rparr>"

text \<open>The steps, in the order of the calls.\<close>

definition start_interrupts :: "('d, 'p, 'h) platform \<Rightarrow> ('d, 'p, 'h) system \<Rightarrow> ('d, 'p, 'h) system result" where
  "start_interrupts E b =
     (let (ok, desc, w, d) = idt_init (pf_lidt E) (pf_ports E) (pf_idt E) (pf_idt_size E) (vm_mem (sys_kernel b)) (sys_machine b);
          b = set_memory ((memory_of b)\<lparr>vm_mem := w\<rparr>) (b\<lparr>sys_idt := desc\<rparr>)
      in bind_result (pic_init (pf_ports E) d) (\<lambda>d. Inr (b\<lparr>sys_machine := d\<rparr>)))"

definition start_memory :: "('d, 'p, 'h) platform \<Rightarrow> u64 \<Rightarrow> ('d, 'p, 'h) system \<Rightarrow> ('d, 'p, 'h) system result option" where
  "start_memory E max_kernel_addr b =
     map_option (map_sum id (\<lambda>s. set_memory s b))
       (boot_mem_init (bm b) (pf_heap_init E) max_kernel_addr (sys_mbi b) (memory_of b))"

definition start_terminal :: "('d, 'p, 'h) platform \<Rightarrow> ('d, 'p, 'h) system \<Rightarrow> ('d, 'p, 'h) system result option" where
  "start_terminal E b =
     (if framebuffer_tag (sys_mbi b) = NULL then Some (Inl Undefined)
      else case ttyd_init (pf_vga_ports E) (pf_font_start E) (tag_framebuffer (bm b) (framebuffer_tag (sys_mbi b)))
             (sys_vga b) (sys_vbe b) (sys_fonts b) (bm b) (memory_of b) of
        Inl e \<Rightarrow> Some (Inl e)
      | Inr (None, s) \<Rightarrow> Some (Inl (Panic ''''))
      | Inr (Some (dev, screen, fonts, m), s) \<Rightarrow>
          let (buf, h) = pf_malloc E (sys_heap b) TTY_BUFFER_SIZE
          in map_option (\<lambda>t. Inr (set_memory s (b\<lparr>bm := m, sys_heap := h, sys_fonts := fonts, sys_ttyd := dev, sys_tty := t\<rparr>)))
               (tty_init dev buf ((sys_tty b)\<lparr>tty_screen := screen\<rparr>)))"

definition start_keyboard :: "('d, 'p, 'h) platform \<Rightarrow> ('d, 'p, 'h) system \<Rightarrow> ('d, 'p, 'h) system result" where
  "start_keyboard E b =
     bind_result (kb_init (pf_malloc E) (pf_ports E) (fst (kb_event_queue (kbd (sys_kernel b)))) (kbd (sys_kernel b))
         (sys_heap b) (sys_machine b))
       (\<lambda>(q, kb, h, d). Inr (b\<lparr>sys_kernel := (sys_kernel b)\<lparr>kbd := kb\<rparr>, sys_kb_queue := q, sys_heap := h, sys_machine := d\<rparr>))"

definition start_acpi :: "('d, 'p, 'h) system \<Rightarrow> ('d, 'p, 'h) system result" where
  "start_acpi b =
     bind_result (acpi_init (bm b) (rsdp_tag (sys_mbi b)) (memory_of b) (sys_acpi b))
       (\<lambda>(s, a). Inr (set_memory s (b\<lparr>sys_acpi := a\<rparr>)))"

definition start_apic :: "('d, 'p, 'h) platform \<Rightarrow> ('d, 'p, 'h) system \<Rightarrow> ('d, 'p, 'h) system result" where
  "start_apic E b =
     bind_result (apic_init (pf_machine E) (sys_apic_base b) (memory_of b) (sys_machine b))
       (\<lambda>(ok, base, s, d). kassert ok ''Could not initialize APIC subsystem''
          (Inr (set_memory s (b\<lparr>sys_apic_base := base, sys_machine := d\<rparr>))))"

definition start_pci :: "('d, 'p, 'h) platform \<Rightarrow> ('d, 'p, 'h) system \<Rightarrow> (bool \<times> ('d, 'p, 'h) system) result" where
  "start_pci E b =
     bind_result (pci_init (bm b) (pf_mcfg_name E) (sys_acpi b) (memory_of b) (sys_pci b))
       (\<lambda>(ok, s, p). Inr (ok, set_memory s (b\<lparr>sys_pci := p\<rparr>)))"

definition start_usb :: "('d, 'p, 'h) system \<Rightarrow> (bool \<times> ('d, 'p, 'h) system) result" where
  "start_usb b =
     bind_result (usb_init (bm b) (sys_pci b) (memory_of b) (sys_usb b))
       (\<lambda>(ok, s, u). Inr (ok, set_memory s (b\<lparr>sys_usb := u\<rparr>)))"

definition start_processes :: "('d, 'p, 'h) platform \<Rightarrow> ('d, 'p, 'h) system \<Rightarrow> ('d, 'p, 'h) system result" where
  "start_processes E b =
     bind_result (pcs_init (pf_control_registers E) (cpu_core_count (sys_cores b)) (pf_sh_start E) (pf_idle_main E) (sys_kernel b))
       (\<lambda>(_, k). Inr (b\<lparr>sys_kernel := k\<rparr>))"

definition start_cores :: "('d, 'p, 'h) platform \<Rightarrow> ('d, 'p, 'h) system \<Rightarrow> ('d, 'p, 'h) system result option" where
  "start_cores E b =
     map_option (map_sum id (\<lambda>(vars, d). b\<lparr>sys_smp := vars, sys_machine := d\<rparr>))
       (smp_init (pf_machine E) (sys_apic_base b) (pf_gdt E) (sys_idt b) (sys_machine b))"

text \<open>The macro \<open>warn\<close> returns from the function it is used in, as \<open>try\<close> does.\<close>

definition start_devices :: "('d, 'p, 'h) platform \<Rightarrow> ('d, 'p, 'h) system \<Rightarrow> ('d, 'p, 'h) system result option" where
  "start_devices E b =
     (case start_pci E b of
        Inl e \<Rightarrow> Some (Inl e)
      | Inr (False, b) \<Rightarrow> Some (Inr b)
      | Inr (True, b) \<Rightarrow>
          (case start_usb b of
             Inl e \<Rightarrow> Some (Inl e)
           | Inr (False, b) \<Rightarrow> Some (Inr b)
           | Inr (True, b) \<Rightarrow>
               (case start_processes E b of Inl e \<Rightarrow> Some (Inl e) | Inr b \<Rightarrow> start_cores E b)))"

text \<open>\<open>elf_max_kernel_addr\<close> is 0 before.\<close>

definition kernel_init :: "('d, 'p, 'h) platform \<Rightarrow> u64 \<Rightarrow> ('d, 'p, 'h) system \<Rightarrow> ('d, 'p, 'h) system result option" where
  "kernel_init E kernel_addr b = do {
     mbi \<leftarrow> mb2_info_init (bm b) kernel_addr (sys_mbi b);
     let b = b\<lparr>sys_mbi := mbi\<rparr>;
     case elf_init (bm b) (elf_sections_tag mbi) 0 of
       Inl e \<Rightarrow> Some (Inl e)
     | Inr max_kernel_addr \<Rightarrow>
         (case start_interrupts E (b\<lparr>sys_cores := cpu_init (pf_machine E)\<rparr>) of
            Inl e \<Rightarrow> Some (Inl e)
          | Inr b \<Rightarrow> do {
              r \<leftarrow> start_memory E max_kernel_addr b;
              case r of Inl e \<Rightarrow> Some (Inl e) | Inr b \<Rightarrow> do {
                r \<leftarrow> start_terminal E b;
                case bind_result r (\<lambda>b. bind_result (start_keyboard E b) (\<lambda>b. bind_result (start_acpi b) (start_apic E))) of
                  Inl e \<Rightarrow> Some (Inl e)
                | Inr b \<Rightarrow> start_devices E b } }) }"

text \<open>The code after \<open>kernel_init\<close> is in assembly: \<open>enter_smp\<close> never returns.\<close>

definition kernel_main :: "('d, 'p, 'h) platform \<Rightarrow> u64 \<Rightarrow> u64 \<Rightarrow> ('d, 'p, 'h) system \<Rightarrow> ('d, 'p, 'h) system result option" where
  "kernel_main E magic kernel_addr b =
     (case validate_boot magic kernel_addr of Inl e \<Rightarrow> Some (Inl e) | Inr _ \<Rightarrow> kernel_init E kernel_addr b)"


subsection \<open>What the start depends on\<close>

lemma set_memory_simps [simp]:
  "memory_of (set_memory s b) = s" "sys_usb (set_memory s b) = sys_usb b" "sys_smp (set_memory s b) = sys_smp b"
  "sys_machine (set_memory s b) = sys_machine b" "sys_pci (set_memory s b) = sys_pci b" "bm (set_memory s b) = bm b"
  "pcs_processes (sys_kernel (set_memory s b)) = pcs_processes (sys_kernel b)"
  "cur (sys_kernel (set_memory s b)) = cur (sys_kernel b)" "kbd (sys_kernel (set_memory s b)) = kbd (sys_kernel b)"
  by (cases b; cases "sys_kernel b"; simp add: set_memory_def memory_of_def mem_state.defs kernel.defs)+

lemma start_pci_keeps:
  assumes "start_pci E b = Inr (ok, b')"
  shows "sys_usb b' = sys_usb b" "sys_smp b' = sys_smp b" "sys_machine b' = sys_machine b"
    "pcs_processes (sys_kernel b') = pcs_processes (sys_kernel b)"
  using assms by (auto simp: start_pci_def bind_result_def split: sum.splits)

lemma start_usb_keeps:
  assumes "start_usb b = Inr (ok, b')"
  shows "sys_smp b' = sys_smp b" "sys_machine b' = sys_machine b" "sys_pci b' = sys_pci b"
    "pcs_processes (sys_kernel b') = pcs_processes (sys_kernel b)"
    "\<not> ok \<Longrightarrow> sys_usb b' = sys_usb b" "ok \<Longrightarrow> usb_inited (sys_usb b') \<and> pci_inited (sys_pci b)"
  using assms
  by (auto simp: start_usb_def usb_init_def pci_get_device_def bind_result_def split: sum.splits option.splits if_splits)

lemma start_processes_keeps:
  assumes "start_processes E b = Inr b'"
  shows "sys_usb b' = sys_usb b" "sys_pci b' = sys_pci b" "sys_machine b' = sys_machine b"
  using assms by (auto simp: start_processes_def bind_result_def split: sum.splits)

text \<open>The devices on PCI that \<open>usb_init\<close> takes for an xHCI host controller.\<close>

definition is_xhci :: "pci_device \<Rightarrow> bool" where
  "is_xhci d \<longleftrightarrow> base_class_code d = 0x0C \<and> sub_class_code d = 0x03 \<and> pi_class_code d = 0x30"

lemma start_usb_success:
  assumes "start_usb b = Inr (True, b')"
  shows "\<exists>d addr. d \<in> set (pci_devices (sys_pci b)) \<and> is_xhci d \<and> pci_bar_addr d 0 = Inr addr \<and>
    usb_inited (sys_usb b') \<and> usb_caps (sys_usb b') = read_usb_caps (bm b) addr"
proof -
  obtain s u where "usb_init (bm b) (sys_pci b) (memory_of b) (sys_usb b) = Inr (True, s, u)" "sys_usb b' = u"
    using assms by (auto simp: start_usb_def bind_result_def split: sum.splits)
  then show ?thesis unfolding is_xhci_def by (elim usb_init_success) blast
qed

lemma start_usb_none:
  assumes "\<forall>d\<in>set (pci_devices (sys_pci b)). \<not> is_xhci d"
  shows "start_usb b = Inr (False, set_memory (memory_of b) b)"
proof -
  have "pci_get_device_loop usb_device_class (pci_devices (sys_pci b)) = None"
  proof (rule ccontr)
    assume "pci_get_device_loop usb_device_class (pci_devices (sys_pci b)) \<noteq> None"
    then obtain d where "pci_get_device_loop usb_device_class (pci_devices (sys_pci b)) = Some d" by blast
    from pci_get_device_loop_found [OF this] show False
      using assms by (auto simp: is_xhci_def usb_device_class_def)
  qed
  then show ?thesis by (simp add: start_usb_def usb_init_def pci_get_device_def)
qed

text \<open>
  C40.  The last part of \<open>kernel_init\<close>, from \<open>pci_init\<close> on, when it returns.  If PCI could not be
  initialised, or none of the devices found on it has the class codes of an xHCI controller, it
  creates no process, sets no variable of the start code and writes no register of the local
  interrupt controller, and USB is as it was.  In every case USB is marked as initialised only with
  such a device on PCI, the capability registers being those at its first base address; the
  processes were then created by \<open>pcs_init\<close>, and \<open>smp_init\<close> on the result gave the final state.  If
  USB is not marked, nothing of this was done.
\<close>
theorem start_devices_needs_usb:
  assumes "start_devices E b = Some (Inr b')" and "\<not> usb_inited (sys_usb b)" and "start_pci E b = Inr (ok, c)"
  shows "(\<not> ok \<or> (\<forall>d\<in>set (pci_devices (sys_pci c)). \<not> is_xhci d) \<longrightarrow> \<not> usb_inited (sys_usb b')) \<and>
    (\<not> usb_inited (sys_usb b') \<longrightarrow> sys_usb b' = sys_usb b \<and>
      pcs_processes (sys_kernel b') = pcs_processes (sys_kernel b) \<and> sys_smp b' = sys_smp b \<and> sys_machine b' = sys_machine b) \<and>
    (usb_inited (sys_usb b') \<longrightarrow> ok \<and> pci_inited (sys_pci c) \<and>
      (\<exists>d addr. d \<in> set (pci_devices (sys_pci c)) \<and> is_xhci d \<and> pci_bar_addr d 0 = Inr addr \<and>
         usb_caps (sys_usb b') = read_usb_caps (bm c) addr) \<and>
      (\<exists>u p m. start_usb c = Inr (True, u) \<and> start_processes E u = Inr p \<and>
         smp_init (pf_machine E) (sys_apic_base p) (pf_gdt E) (sys_idt p) (sys_machine b) = Some (Inr (sys_smp b', m)) \<and>
         sys_machine b' = m))"
proof -
  note kp = start_pci_keeps [OF assms(3)]
  show ?thesis
  proof (cases ok)
    case False
    then show ?thesis using assms kp by (simp add: start_devices_def)
  next
    case True
    then obtain ok' u where u: "start_usb c = Inr (ok', u)"
      using assms(1,3) by (cases "start_usb c") (auto simp: start_devices_def)
    note ku = start_usb_keeps [OF u]
    show ?thesis
    proof (cases ok')
      case False
      then show ?thesis using assms u kp ku True by (simp add: start_devices_def)
    next
      case o: True
      then have d: "\<exists>d addr. d \<in> set (pci_devices (sys_pci c)) \<and> is_xhci d \<and> pci_bar_addr d 0 = Inr addr \<and>
          usb_inited (sys_usb u) \<and> usb_caps (sys_usb u) = read_usb_caps (bm c) addr"
        using start_usb_success u by simp
      then have "\<not> (\<forall>d\<in>set (pci_devices (sys_pci c)). \<not> is_xhci d)" by blast
      obtain q where q: "start_processes E u = Inr q" "start_cores E q = Some (Inr b')"
        using assms(1,3) o u True by (cases "start_processes E u") (auto simp: start_devices_def)
      note kq = start_processes_keeps [OF q(1)]
      obtain vars m where s: "smp_init (pf_machine E) (sys_apic_base q) (pf_gdt E) (sys_idt q) (sys_machine q) = Some (Inr (vars, m))"
          "b' = q\<lparr>sys_smp := vars, sys_machine := m\<rparr>"
        using q(2) by (cases "smp_init (pf_machine E) (sys_apic_base q) (pf_gdt E) (sys_idt q) (sys_machine q)")
          (auto simp: start_cores_def map_sum_def split: sum.splits)
      have b': "sys_usb b' = sys_usb u" "sys_smp b' = vars" "sys_machine b' = m" using s(2) kq(1) by simp_all
      have "smp_init (pf_machine E) (sys_apic_base q) (pf_gdt E) (sys_idt q) (sys_machine b) = Some (Inr (sys_smp b', m))"
        using s(1) b'(2) ku kp kq by simp
      then show ?thesis using d u q(1) o True ku(6) b' by auto
    qed
  qed
qed

text \<open>A machine whose root table has no entry, so none that describes the PCI bridges.\<close>

definition example_rsdt :: mem where
  "example_rsdt = (\<lambda>_. 0)(0x117 := 2, 0x204 := 36)"

definition without_pci :: "('d, 'p, 'h) system \<Rightarrow> ('d, 'p, 'h) system" where
  "without_pci b = b\<lparr>bm := example_rsdt, sys_acpi := \<lparr>acpi_rsdp = 0x106, acpi_inited = True\<rparr>,
     sys_usb := (sys_usb b)\<lparr>usb_inited := False\<rparr>\<rparr>"

theorem start_devices_needs_usb_witness:
  "\<forall>E b. \<exists>b'. start_devices E (without_pci b) = Some (Inr b') \<and> sys_smp b' = sys_smp b \<and>
     pcs_processes (sys_kernel b') = pcs_processes (sys_kernel b)"
proof (intro allI)
  fix E :: "('d, 'p, 'h) platform" and b :: "('d, 'p, 'h) system"
  let ?b = "without_pci b"
  have b: "bm ?b = example_rsdt" "acpi_rsdp (sys_acpi ?b) = 0x106" "\<not> usb_inited (sys_usb ?b)"
    "sys_smp ?b = sys_smp b" "sys_kernel ?b = sys_kernel b"
    by (simp_all add: without_pci_def)
  then have "rsdt_address (bm ?b) (sys_acpi ?b) = 0x200"
    by (simp add: rsdt_address_def mem_read_32_def example_rsdt_def)
  then have "acpi_find_table (bm ?b) (sys_acpi ?b) n = NULL" for n
    using b by (simp add: acpi_find_table_def acpi_entry_count_def mem_read_32_def example_rsdt_def sizeof_acpi_header_def)
  then have p: "start_pci E ?b = Inr (False, set_memory (memory_of ?b) ?b)"
    by (simp add: start_pci_def pci_init_def find_mcfg_table_def)
  then have s: "start_devices E ?b = Some (Inr (set_memory (memory_of ?b) ?b))"
    by (simp add: start_devices_def)
  then show "\<exists>b'. start_devices E ?b = Some (Inr b') \<and> sys_smp b' = sys_smp b \<and> pcs_processes (sys_kernel b') = pcs_processes (sys_kernel b)"
    using start_devices_needs_usb [OF s b(3) p] b by (intro exI [of _ "set_memory (memory_of ?b) ?b"]) auto
qed

end
