(* ===== verification/Printf.thy ===== *)
theory Printf
  imports CStdlib
begin

text \<open>
  The formatted output of \<open>libc/stdio/printf.c\<close>: \<open>write_char\<close>, \<open>value_to_string\<close>, the engine
  \<open>sprintf_impl\<close> and the four functions over it.  The engine has two kinds of state, and so has
  the model: \<open>pf_state\<close> holds the local variables of \<open>sprintf_impl\<close> that a conversion uses, and
  \<open>sink\<close> where its output goes: the memory, the position in the output buffer, the state \<open>'s\<close> of
  whatever \<open>put_char\<close> writes to, and the running length.  The body of the engine's loop is one
  definition per stage, in the order of the code: \<open>parse_flag\<close>, \<open>format_number\<close>,
  \<open>convert_argument\<close>, \<open>measure_argument\<close>, \<open>output_field\<close>.

  \<open>None\<close> is a call that does not return, or that C gives no meaning: an argument list that is
  too short, a read or write outside \<open>value_buffer\<close>, \<open>character\<close> or \<open>format_char\<close>.  Arithmetic
  on signed integers wraps, as the target's does.  The variable argument list is the list of its
  64-bit slots: \<open>VA_ARG\<close> takes one and narrows it.
\<close>

subsection \<open>Flags and characters\<close>

definition LEFT_JUSTIFY :: u32 where "LEFT_JUSTIFY = push_bit 0 1"
definition PREFIX_SIGN :: u32 where "PREFIX_SIGN = push_bit 1 1"
definition PREFIX_BLANK :: u32 where "PREFIX_BLANK = push_bit 2 1"
definition COMMA_TYPE :: u32 where "COMMA_TYPE = push_bit 3 1"
definition LONG_TYPE :: u32 where "LONG_TYPE = push_bit 4 1"
definition PREFIX_ZERO :: u32 where "PREFIX_ZERO = push_bit 6 1"
definition PAD_TO_WIDTH :: u32 where "PAD_TO_WIDTH = push_bit 9 1"
definition PRECISION :: u32 where "PRECISION = push_bit 11 1"
definition ARGUMENT_REVERSED :: u32 where "ARGUMENT_REVERSED = push_bit 12 1"
definition COUNT_ONLY_NO_PRINT :: u32 where "COUNT_ONLY_NO_PRINT = push_bit 13 1"
definition UNSIGNED_TYPE :: u32 where "UNSIGNED_TYPE = push_bit 14 1"

text \<open>A character constant as the \<open>uint32_t\<close> it is compared with.\<close>

definition chr32 :: "char \<Rightarrow> u32" where
  "chr32 c = of_char c"

definition MAXIMUM_VALUE_CHARACTERS :: nat where
  "MAXIMUM_VALUE_CHARACTERS = 38"

definition m_hex_str :: "u8 list" where
  "m_hex_str = bytes_of ''0123456789ABCDEF''"

subsection \<open>State\<close>

text \<open>Where \<open>argument_string\<close> points: into memory, or into a local array at an index.\<close>

datatype argument = InMemory ptr | InFrame "u8 list" int

fun arg_byte :: "mem \<Rightarrow> argument \<Rightarrow> int \<Rightarrow> u8 option" where
  "arg_byte m (InMemory p) i = Some (m (p + word_of_int i))"
| "arg_byte m (InFrame xs k) i =
     (if 0 \<le> k + i \<and> k + i < int (length xs) then Some (xs ! nat (k + i)) else None)"

fun arg_advance :: "argument \<Rightarrow> int \<Rightarrow> argument" where
  "arg_advance (InMemory p) i = InMemory (p + word_of_int i)"
| "arg_advance (InFrame xs k) i = InFrame xs (k + i)"

record pf_state =
  pf_format :: ptr
  pf_args :: "u64 list"
  pf_flags :: u32
  pf_width :: u32
  pf_precision :: u32
  pf_prefix :: u8
  pf_comma :: bool
  pf_zero_pad :: bool
  pf_count :: u32
  pf_digits :: u32
  pf_value_buffer :: "u8 list"
  pf_argument :: argument

record 's sink =
  sk_mem :: mem
  sk_tty :: 's
  sk_buffer :: ptr
  sk_length :: u32

text \<open>\<open>(flags & f) != 0\<close>\<close>

definition has :: "pf_state \<Rightarrow> u32 \<Rightarrow> bool" where
  "has st f \<longleftrightarrow> pf_flags st AND f \<noteq> 0"

definition set_flag :: "u32 \<Rightarrow> pf_state \<Rightarrow> pf_state" where
  "set_flag f st = st\<lparr>pf_flags := pf_flags st OR f\<rparr>"

definition clear_flag :: "u32 \<Rightarrow> pf_state \<Rightarrow> pf_state" where
  "clear_flag f st = st\<lparr>pf_flags := pf_flags st AND NOT f\<rparr>"

subsection \<open>Output primitives\<close>

text \<open>\<open>for (int32_t i = 0; i < length && buffer < end_buffer; i++) *buffer++ = (char) c;\<close>\<close>

fun fill_chars :: "ptr \<Rightarrow> nat \<Rightarrow> u8 \<Rightarrow> ptr \<times> mem \<Rightarrow> ptr \<times> mem" where
  "fill_chars end_buffer 0 c (buffer, m) = (buffer, m)"
| "fill_chars end_buffer (Suc n) c (buffer, m) =
     (if buffer < end_buffer then fill_chars end_buffer n c (buffer + 1, m(buffer := c)) else (buffer, m))"

definition write_char ::
    "(u8 \<Rightarrow> 's \<Rightarrow> 's) option \<Rightarrow> ptr \<Rightarrow> u32 \<Rightarrow> u32 \<Rightarrow> 's sink \<Rightarrow> 's sink" where
  "write_char put_char end_buffer len c sk =
     (let n = nat (sint len);
          sk = (case put_char of None \<Rightarrow> sk | Some put \<Rightarrow> sk\<lparr>sk_tty := (put (ucast c) ^^ n) (sk_tty sk)\<rparr>)
      in if sk_buffer sk \<noteq> NULL
         then let (b, m) = fill_chars end_buffer n (ucast c) (sk_buffer sk, sk_mem sk)
              in sk\<lparr>sk_buffer := b, sk_mem := m\<rparr>
         else sk)"

text \<open>
  The steps of \<open>value_to_string\<close> on the array it writes to: \<open>pos\<close> is the index of \<open>buffer\<close>.
\<close>

partial_function (option) value_to_string_loop ::
    "u8 list \<Rightarrow> nat \<Rightarrow> u64 \<Rightarrow> u32 \<Rightarrow> (u8 list \<times> nat) option" where
  "value_to_string_loop buf pos value base =
     (if base = 0 then None
      else
        let remainder = value mod ucast base;
            value' = value div ucast base
        in if Suc pos < length buf \<and> unat remainder < length m_hex_str
           then let buf' = buf[Suc pos := m_hex_str ! unat remainder]
                in if value' \<noteq> 0 then value_to_string_loop buf' (Suc pos) value' base
                   else Some (buf', Suc pos)
           else None)"

definition value_to_string :: "u8 list \<Rightarrow> u64 \<Rightarrow> u32 \<Rightarrow> (u8 list \<times> nat) option" where
  "value_to_string buf value base =
     (if buf = [] then None else value_to_string_loop (buf[0 := 0]) 0 value base)"

subsection \<open>Flags, width and precision\<close>

text \<open>\<open>for (count = 0; format_char is a digit;) ...\<close>: the number, and where it ends.\<close>

partial_function (option) parse_number :: "mem \<Rightarrow> ptr \<Rightarrow> u32 \<Rightarrow> (u32 \<times> ptr) option" where
  "parse_number m format count =
     (let format_char = scast (m format) in
      if chr32 CHR ''0'' \<le> format_char \<and> format_char \<le> chr32 CHR ''9''
      then parse_number m (format + 1) (count * 10 + format_char - chr32 CHR ''0'')
      else Some (count, format))"

text \<open>
  One round of the flag loop: the format character it looked at, whether the loop is done, and
  the state.
\<close>

definition parse_flag :: "mem \<Rightarrow> pf_state \<Rightarrow> (u32 \<times> bool \<times> pf_state) option" where
  "parse_flag m st0 =
     (let st = st0\<lparr>pf_format := pf_format st0 + 1\<rparr>;
          c = scast (m (pf_format st)) :: u32
      in if c = chr32 CHR ''.'' then Some (c, False, set_flag PRECISION st)
         else if c = chr32 CHR ''-'' then Some (c, False, set_flag LEFT_JUSTIFY st)
         else if c = chr32 CHR ''+'' then Some (c, False, set_flag PREFIX_SIGN st)
         else if c = chr32 CHR '' '' then Some (c, False, set_flag PREFIX_BLANK st)
         else if c = chr32 CHR '','' then Some (c, False, set_flag COMMA_TYPE st)
         else if c = chr32 CHR ''L'' \<or> c = chr32 CHR ''l'' then Some (c, False, set_flag LONG_TYPE st)
         else if c = chr32 CHR ''*''
         then (case pf_args st of
                 [] \<Rightarrow> None
               | a # as \<Rightarrow>
                   let st = st\<lparr>pf_args := as\<rparr>
                   in Some (c, False, if has st PRECISION then st\<lparr>pf_precision := ucast a\<rparr>
                                      else (set_flag PAD_TO_WIDTH st)\<lparr>pf_width := ucast a\<rparr>))
         else if chr32 CHR ''0'' \<le> c \<and> c \<le> chr32 CHR ''9''
         then do {
           let st = (if c = chr32 CHR ''0'' \<and> \<not> has st PRECISION then set_flag PREFIX_ZERO st else st);
           (count, format) \<leftarrow> parse_number m (pf_format st) 0;
           let st = st\<lparr>pf_format := format - 1\<rparr>;
           Some (c, False, if has st PRECISION then st\<lparr>pf_precision := count\<rparr>
                           else (set_flag PAD_TO_WIDTH st)\<lparr>pf_width := count\<rparr>)
         }
         else if c = 0 then Some (c, True, st\<lparr>pf_format := pf_format st - 1, pf_precision := 0\<rparr>)
         else Some (c, True, st))"

partial_function (option) parse_flags :: "mem \<Rightarrow> pf_state \<Rightarrow> (u32 \<times> pf_state) option" where
  "parse_flags m st = do {
     (c, finished, st') \<leftarrow> parse_flag m st;
     if finished then Some (c, st') else parse_flags m st'
   }"

subsection \<open>Arguments\<close>

text \<open>The inner \<open>switch\<close> of the numeric conversions: the radix and the flags of a type.\<close>

definition select_radix :: "u32 \<Rightarrow> pf_state \<Rightarrow> u32 \<times> pf_state" where
  "select_radix c st =
     (if c = chr32 CHR ''p''
      then (10, set_flag LONG_TYPE (clear_flag (PREFIX_BLANK OR PREFIX_SIGN OR PREFIX_ZERO OR LONG_TYPE) st))
      else if c = chr32 CHR ''X'' then (10, set_flag PREFIX_ZERO st)
      else if c = chr32 CHR ''x'' then (16, st\<lparr>pf_comma := False\<rparr>)
      else if c = chr32 CHR ''o'' then (8, st)
      else if c = chr32 CHR ''b'' then (2, st)
      else if c = chr32 CHR ''u'' then (10, set_flag UNSIGNED_TYPE (clear_flag PREFIX_SIGN st))
      else (10, st))"

text \<open>\<open>value = VA_ARG (va_list, int)\<close> or \<open>VA_ARG (va_list, int64_t)\<close>, and the case of \<open>%x\<close>.\<close>

definition fetch_value :: "u32 \<Rightarrow> u64 \<Rightarrow> pf_state \<Rightarrow> u64" where
  "fetch_value c a st =
     (let value = (if has st LONG_TYPE then a else scast (ucast a :: u32))
      in if c = chr32 CHR ''x'' \<and> \<not> has st LONG_TYPE \<and> sint value < 0
         then ucast (ucast value :: u32) else value)"

text \<open>
  The prefix, the comma and, in base 10, the sign.  \<open>value = -value\<close> has no result for the least
  \<open>int64_t\<close>: the call is then undefined.
\<close>

definition number_prefix :: "pf_state \<Rightarrow> pf_state" where
  "number_prefix st0 =
     (let st = (if has st0 PREFIX_BLANK then st0\<lparr>pf_prefix := byte CHR '' ''\<rparr> else st0);
          st = (if has st PREFIX_SIGN then st\<lparr>pf_prefix := byte CHR ''+''\<rparr> else st)
      in if has st COMMA_TYPE then st\<lparr>pf_comma := True\<rparr> else st)"

definition decimal_sign :: "u32 \<Rightarrow> u64 \<Rightarrow> pf_state \<Rightarrow> (u64 \<times> pf_state) option" where
  "decimal_sign base value st0 =
     (if base = 10
      then let st = (if pf_comma st0 then (clear_flag PREFIX_ZERO st0)\<lparr>pf_precision := 1\<rparr> else st0)
           in if sint value < 0 \<and> \<not> has st UNSIGNED_TYPE
              then if sint value = - (2 ^ 63) then None
                   else Some (- value, (set_flag PREFIX_SIGN st)\<lparr>pf_prefix := byte CHR ''-''\<rparr>)
              else if has st UNSIGNED_TYPE \<and> \<not> has st LONG_TYPE then Some (ucast (ucast value :: u32), st)
              else Some (value, st)
      else Some (value, st0))"

text \<open>The digits of the number, and the lengths that depend on them.\<close>

definition number_digits :: "u32 \<Rightarrow> u64 \<Rightarrow> pf_state \<Rightarrow> pf_state option" where
  "number_digits base value st = do {
     (buf, pos) \<leftarrow> value_to_string (pf_value_buffer st) value base;
     let count = ((if value = 0 \<and> pf_precision st = 0 then 0 else of_nat pos) :: u32);
     let digits = (if count mod 3 \<noteq> 0 then 3 - count mod 3 else 0);
     let argument = InFrame buf (uint count);
     let count = (if pf_comma st \<and> count \<noteq> 0 then count + (count - 1) div 3 else count);
     Some (st\<lparr>pf_value_buffer := buf, pf_argument := argument, pf_digits := digits, pf_count := count\<rparr>)
   }"

definition number_layout :: "pf_state \<Rightarrow> pf_state" where
  "number_layout st0 =
     (let st = (if pf_prefix st0 \<noteq> 0
                then st0\<lparr>pf_count := pf_count st0 + 1, pf_precision := pf_precision st0 + 1\<rparr> else st0);
          st = (set_flag ARGUMENT_REVERSED st)\<lparr>pf_zero_pad := True\<rparr>
      in if has st PREFIX_ZERO \<and> \<not> has st LEFT_JUSTIFY \<and> has st PAD_TO_WIDTH \<and> \<not> has st PRECISION
         then st\<lparr>pf_precision := pf_width st\<rparr> else st)"

definition format_number :: "u32 \<Rightarrow> pf_state \<Rightarrow> pf_state option" where
  "format_number c st0 =
     (let (base, st) = select_radix c st0 in
      case pf_args st of
        [] \<Rightarrow> None
      | a # as \<Rightarrow>
          do { (value, st) \<leftarrow> decimal_sign base (fetch_value c a st) (number_prefix (st\<lparr>pf_args := as\<rparr>));
               map_option number_layout (number_digits base value st) })"

text \<open>
  \<open>format_char\<close> as the string the default case prints: its four bytes, the sign extension of the
  character included.  What lies behind it in the frame is not known.
\<close>

definition format_char_bytes :: "u32 \<Rightarrow> u8 list" where
  "format_char_bytes c = map (\<lambda>i. ucast (drop_bit (8 * i) c)) [0..<4]"

definition convert_argument :: "u32 \<Rightarrow> pf_state \<Rightarrow> pf_state option" where
  "convert_argument c st =
     (if c \<in> set (map chr32 ''pXxobudi'') then format_number c st
      else if c = chr32 CHR ''s'' \<or> c = chr32 CHR ''S''
      then (case pf_args st of
              [] \<Rightarrow> None
            | a # as \<Rightarrow>
                let st = st\<lparr>pf_args := as,
                            pf_argument := (if a = NULL then InFrame (bytes_of ''<null string>'' @ [0]) 0
                                            else InMemory a)\<rparr>
                in Some (if has st PRECISION then st else st\<lparr>pf_precision := 0\<rparr>))
      else if c = chr32 CHR ''c''
      then (case pf_args st of
              [] \<Rightarrow> None
            | a # as \<Rightarrow> Some (st\<lparr>pf_args := as, pf_argument := InFrame [ucast a, 0] 0\<rparr>))
      else Some (st\<lparr>pf_argument := InFrame (format_char_bytes c) 0\<rparr>))"

subsection \<open>Output of one field\<close>

text \<open>\<open>int32_t argument_string_step\<close>\<close>

definition argument_step :: "pf_state \<Rightarrow> int" where
  "argument_step st = (if has st ARGUMENT_REVERSED then -1 else 1)"

text \<open>Two characters as \<open>argument_character\<close> combines them.\<close>

definition argument_character :: "u8 \<Rightarrow> u8 \<Rightarrow> u32" where
  "argument_character x y = scast x OR push_bit 8 (scast y)"

partial_function (option) count_argument :: "mem \<Rightarrow> pf_state \<Rightarrow> u32 \<Rightarrow> u32 option" where
  "count_argument m st count = do {
     x \<leftarrow> arg_byte m (pf_argument st) (uint count);
     if x \<noteq> 0 \<and> (count < pf_precision st \<or> \<not> has st PRECISION)
     then do {
       y \<leftarrow> arg_byte m (pf_argument st) (uint count + 1);
       if argument_character x y = 0 then Some count else count_argument m st (count + 1)
     }
     else Some count
   }"

definition measure_argument :: "mem \<Rightarrow> pf_state \<Rightarrow> pf_state option" where
  "measure_argument m st = do {
     count \<leftarrow> (if has st ARGUMENT_REVERSED then Some (pf_count st) else count_argument m st 0);
     Some (st\<lparr>pf_count := count,
              pf_precision := (if pf_precision st < count then count else pf_precision st)\<rparr>)
   }"

text \<open>
  \<open>length_to_return += n; if ((flags & COUNT_ONLY_NO_PRINT) == 0) buffer = write_char(...);\<close>
\<close>

definition emit ::
    "(u8 \<Rightarrow> 's \<Rightarrow> 's) option \<Rightarrow> ptr \<Rightarrow> pf_state \<Rightarrow> u32 \<Rightarrow> u32 \<Rightarrow> 's sink \<Rightarrow> 's sink" where
  "emit put_char end_buffer st n c sk =
     (let sk = sk\<lparr>sk_length := sk_length sk + n\<rparr>
      in if has st COUNT_ONLY_NO_PRINT then sk else write_char put_char end_buffer n c sk)"

text \<open>The loop that copies the argument: the field's position is \<open>index\<close>.\<close>

partial_function (option) copy_argument ::
    "(u8 \<Rightarrow> 's \<Rightarrow> 's) option \<Rightarrow> ptr \<Rightarrow> pf_state \<Rightarrow> argument \<Rightarrow> u32 \<Rightarrow> u32 \<Rightarrow> 's sink \<Rightarrow> 's sink option" where
  "copy_argument put_char end_buffer st argument index digits sk =
     (if index < pf_count st
      then do {
        x \<leftarrow> arg_byte (sk_mem sk) argument 0;
        if x \<noteq> 0
        then do {
          y \<leftarrow> arg_byte (sk_mem sk) argument 1;
          let sk = emit put_char end_buffer st 1 (scast x OR push_bit 8 (ucast y)) sk;
          let argument = arg_advance argument (argument_step st);
          let index = index + 1;
          if pf_comma st \<and> digits + 1 = 3
          then do {
            let index = index + 1;
            let sk = (if index < pf_count st then emit put_char end_buffer st 1 (chr32 CHR '','') sk else sk);
            copy_argument put_char end_buffer st argument index 0 sk
          }
          else copy_argument put_char end_buffer st argument index
                 (if pf_comma st then digits + 1 else digits) sk
        }
        else Some sk
      }
      else Some sk)"

definition output_padding ::
    "(u8 \<Rightarrow> 's \<Rightarrow> 's) option \<Rightarrow> ptr \<Rightarrow> bool \<Rightarrow> pf_state \<Rightarrow> 's sink \<Rightarrow> 's sink" where
  "output_padding put_char end_buffer left st sk =
     (if pf_flags st AND (PAD_TO_WIDTH OR LEFT_JUSTIFY)
           = (if left then PAD_TO_WIDTH OR LEFT_JUSTIFY else PAD_TO_WIDTH)
      then emit put_char end_buffer st (pf_width st - pf_precision st) (chr32 CHR '' '') sk else sk)"

definition output_prefix ::
    "(u8 \<Rightarrow> 's \<Rightarrow> 's) option \<Rightarrow> ptr \<Rightarrow> pf_state \<Rightarrow> 's sink \<Rightarrow> 's sink" where
  "output_prefix put_char end_buffer st sk =
     (let prefix = (\<lambda>sk. if pf_prefix st \<noteq> 0 then emit put_char end_buffer st 1 (scast (pf_prefix st)) sk else sk);
          fill = (\<lambda>c. emit put_char end_buffer st (pf_precision st - pf_count st) (chr32 c))
      in if pf_zero_pad st then fill CHR ''0'' (prefix sk) else prefix (fill CHR '' '' sk))"

definition output_field ::
    "(u8 \<Rightarrow> 's \<Rightarrow> 's) option \<Rightarrow> ptr \<Rightarrow> pf_state \<Rightarrow> 's sink \<Rightarrow> 's sink option" where
  "output_field put_char end_buffer st sk = do {
     let sk = output_prefix put_char end_buffer st (output_padding put_char end_buffer False st sk);
     sk \<leftarrow> copy_argument put_char end_buffer st (pf_argument st)
            (if pf_prefix st \<noteq> 0 then 1 else 0) (pf_digits st) sk;
     Some (output_padding put_char end_buffer True st sk)
   }"

subsection \<open>The engine\<close>

text \<open>The defaults at the head of every round.\<close>

definition reset_state :: "pf_state \<Rightarrow> pf_state" where
  "reset_state st =
     st\<lparr>pf_flags := pf_flags st AND COUNT_ONLY_NO_PRINT, pf_width := 0, pf_precision := 1,
        pf_prefix := 0, pf_comma := False, pf_zero_pad := False, pf_count := 0, pf_digits := 0\<rparr>"

definition convert_field :: "mem \<Rightarrow> u32 \<Rightarrow> pf_state \<Rightarrow> pf_state option" where
  "convert_field m format_char st =
     (if format_char = chr32 CHR ''%''
      then do { (c, st) \<leftarrow> parse_flags m st; convert_argument c st }
      else Some (st\<lparr>pf_argument := InFrame (format_char_bytes format_char) 0\<rparr>))"

partial_function (option) format_loop ::
    "(u8 \<Rightarrow> 's \<Rightarrow> 's) option \<Rightarrow> ptr \<Rightarrow> pf_state \<Rightarrow> 's sink \<Rightarrow> (pf_state \<times> 's sink) option" where
  "format_loop put_char end_buffer st sk =
     (let format_char = scast (sk_mem sk (pf_format st)) :: u32 in
      if format_char = 0 \<or> (sk_buffer sk \<noteq> NULL \<and> end_buffer \<le> sk_buffer sk) then Some (st, sk)
      else do {
        st \<leftarrow> convert_field (sk_mem sk) format_char (reset_state st);
        st \<leftarrow> measure_argument (sk_mem sk) st;
        sk \<leftarrow> output_field put_char end_buffer st sk;
        format_loop put_char end_buffer (st\<lparr>pf_format := pf_format st + 1\<rparr>) sk
      })"

definition initial_state :: "ptr \<Rightarrow> u64 list \<Rightarrow> pf_state" where
  "initial_state format args =
     \<lparr>pf_format = format, pf_args = args, pf_flags = 0, pf_width = 0, pf_precision = 0, pf_prefix = 0,
      pf_comma = False, pf_zero_pad = False, pf_count = 0, pf_digits = 0,
      pf_value_buffer = replicate MAXIMUM_VALUE_CHARACTERS 0, pf_argument = InMemory NULL\<rparr>"

definition sprintf_impl ::
    "mem \<Rightarrow> 's \<Rightarrow> ptr \<Rightarrow> u32 \<Rightarrow> ptr \<Rightarrow> u64 list \<Rightarrow> (u8 \<Rightarrow> 's \<Rightarrow> 's) option \<Rightarrow> (u32 \<times> mem \<times> 's) option" where
  "sprintf_impl m tty buffer buffer_size format va_list put_char = do {
     let end_buffer = (if buffer \<noteq> NULL then buffer + ucast (buffer_size - 1) else NULL);
     (st, sk) \<leftarrow> format_loop put_char end_buffer (initial_state format va_list)
                   \<lparr>sk_mem = m, sk_tty = tty, sk_buffer = buffer, sk_length = 0\<rparr>;
     if has st COUNT_ONLY_NO_PRINT then Some (sk_length sk, sk_mem sk, sk_tty sk)
     else do {
       let sk' = (if sk_buffer sk \<noteq> NULL then write_char put_char (end_buffer + 1) 1 0 sk else sk);
       Some (ucast (sk_buffer sk - buffer), sk_mem sk', sk_tty sk')
     }
   }"

text \<open>\<open>INT16_MAX\<close> is the size every caller passes.\<close>

definition PRINT_LIMIT :: u32 where
  "PRINT_LIMIT = 32767"

text \<open>\<open>put_char\<close> of \<open>printf\<close> is the terminal's \<open>tty_putchar\<close>, an argument here.\<close>

definition vprintf ::
    "(u8 \<Rightarrow> 's \<Rightarrow> 's) \<Rightarrow> mem \<Rightarrow> 's \<Rightarrow> ptr \<Rightarrow> u64 list \<Rightarrow> (u32 \<times> mem \<times> 's) option" where
  "vprintf tty_putchar m tty format ap = sprintf_impl m tty NULL PRINT_LIMIT format ap (Some tty_putchar)"

definition printf ::
    "(u8 \<Rightarrow> 's \<Rightarrow> 's) \<Rightarrow> mem \<Rightarrow> 's \<Rightarrow> ptr \<Rightarrow> u64 list \<Rightarrow> (u32 \<times> mem \<times> 's) option" where
  "printf tty_putchar m tty format args = sprintf_impl m tty NULL PRINT_LIMIT format args (Some tty_putchar)"

definition vsprintf :: "mem \<Rightarrow> ptr \<Rightarrow> ptr \<Rightarrow> u64 list \<Rightarrow> (u32 \<times> mem) option" where
  "vsprintf m str format ap = do {
     (written, m, _) \<leftarrow> sprintf_impl m () str PRINT_LIMIT format ap None;
     Some (written, m(str + scast written := 0))
   }"

definition sprintf :: "mem \<Rightarrow> ptr \<Rightarrow> ptr \<Rightarrow> u64 list \<Rightarrow> (u32 \<times> mem) option" where
  "sprintf m buffer format args = do {
     (chars_printed, m, _) \<leftarrow> sprintf_impl m () buffer PRINT_LIMIT format args None;
     Some (chars_printed, m)
   }"

text \<open>\<open>puts\<close> passes the literal \<open>"%s\n"\<close>, here at the address \<open>literal\<close>.\<close>

definition puts :: "(u8 \<Rightarrow> 's \<Rightarrow> 's) \<Rightarrow> ptr \<Rightarrow> mem \<Rightarrow> 's \<Rightarrow> ptr \<Rightarrow> (u32 \<times> mem \<times> 's) option" where
  "puts tty_putchar literal m tty s = printf tty_putchar m tty literal [s]"

definition getchar :: u32 where
  "getchar = 0"

text \<open>The loops, as code equations.\<close>

declare
  value_to_string_loop.simps [code]
  parse_number.simps [code]
  parse_flags.simps [code]
  count_argument.simps [code]
  copy_argument.simps [code]
  format_loop.simps [code]

subsection \<open>Where the engine writes\<close>

text \<open>
  The two uses of the engine.  With an output buffer, the position stays between the buffer's
  start and its last byte and only the bytes before the position have changed; without one, no
  memory changes.
\<close>

definition sink_within :: "mem \<Rightarrow> ptr \<Rightarrow> ptr \<Rightarrow> 's sink \<Rightarrow> bool" where
  "sink_within m buffer end_buffer sk \<longleftrightarrow>
     (if buffer = NULL then sk_buffer sk = NULL \<and> sk_mem sk = m
      else buffer \<le> sk_buffer sk \<and> sk_buffer sk \<le> end_buffer \<and>
        (\<forall>a. a < buffer \<or> sk_buffer sk \<le> a \<longrightarrow> sk_mem sk a = m a))"

lemma sink_within_NULL: "sink_within m NULL e sk \<longleftrightarrow> sk_buffer sk = NULL \<and> sk_mem sk = m"
  by (simp add: sink_within_def)

lemma fill_chars_within:
  assumes "fill_chars e n c (b, t) = (b', t')" and "b \<le> e" 
  shows "b \<le> b' \<and> b' \<le> e \<and> (\<forall>a. a < b \<or> b' \<le> a \<longrightarrow> t' a = t a)"
  using assms
proof (induction n arbitrary: b t)
  case 0
  then show ?case by simp
next
  case (Suc n)
  show ?case
  proof (cases "b < e")
    case True
    then have s: "b < b + 1" "b + 1 \<le> e"
      using unat_add_one [OF True] True by (simp_all only: word_less_nat_alt word_le_nat_alt)
    have "fill_chars e n c (b + 1, t(b := c)) = (b', t')" using Suc.prems True by simp
    from Suc.IH [OF this s(2)]
    have IH: "b + 1 \<le> b'" "b' \<le> e" "\<And>a. a < b + 1 \<or> b' \<le> a \<Longrightarrow> t' a = (t(b := c)) a"
      by blast+
    have "t' a = t a" if "a < b \<or> b' \<le> a" for a
    proof -
      have "a \<noteq> b" using that s(1) IH(1) by (metis less_irrefl less_le_trans)
      moreover have "a < b + 1 \<or> b' \<le> a" using that s(1) by (metis less_trans)
      ultimately show ?thesis using IH(3) by simp
    qed
    moreover have "b \<le> b'" using s(1) IH(1) by simp
    ultimately show ?thesis using IH(2) by blast
  next
    case False
    with Suc.prems show ?thesis by simp
  qed
qed

lemma write_char_within:
  assumes "sink_within m buffer e sk"
  shows "sink_within m buffer e (write_char put e n c sk)"
proof (cases "buffer = NULL")
  case True
  with assms show ?thesis
    by (simp add: sink_within_NULL write_char_def Let_def split: option.split)
next
  case False
  then have "sk_buffer sk \<noteq> NULL"
    using assms by (auto simp: sink_within_def)
  moreover obtain b' t' where
    f: "fill_chars e (nat (sint n)) (ucast c) (sk_buffer sk, sk_mem sk) = (b', t')" by fastforce
  moreover have "sk_buffer sk \<le> e"
    using False assms by (simp add: sink_within_def)
  ultimately show ?thesis
    using False assms fill_chars_within [OF f]
    by (auto simp: sink_within_def write_char_def Let_def split: option.split)
qed

lemma emit_within [intro]:
  "sink_within m buffer e sk \<Longrightarrow> sink_within m buffer e (emit put e st n c sk)"
  by (auto simp: emit_def Let_def sink_within_def [of _ _ _ "_\<lparr>sk_length := _\<rparr>"]
      sink_within_def [of _ _ _ sk] intro!: write_char_within)

lemma copy_argument_within:
  assumes c: "copy_argument put e st arg index digits sk = Some sk'" and w: "sink_within m buffer e sk"
  shows "sink_within m buffer e sk'"
  apply (rule copy_argument.raw_induct [where P =
      "\<lambda>put e st arg index digits sk sk'. sink_within m buffer e sk \<longrightarrow> sink_within m buffer e sk'",
      OF _ c, THEN mp, OF _ w])
  subgoal premises p for copy put e st arg index digits sk sk'
    using p(2) by (auto simp: Let_def bind_eq_Some_conv emit_within split: if_splits dest!: p(1))
  done

lemma output_field_within:
  "output_field put e st sk = Some sk' \<Longrightarrow> sink_within m buffer e sk \<Longrightarrow> sink_within m buffer e sk'"
  by (auto simp: output_field_def output_padding_def output_prefix_def Let_def bind_eq_Some_conv emit_within
      split: if_splits dest!: copy_argument_within [of _ _ _ _ _ _ _ _ m buffer])

lemma format_loop_within:
  assumes c: "format_loop put e st sk = Some (st', sk')" and w: "sink_within m buffer e sk"
  shows "sink_within m buffer e sk'"
  apply (rule format_loop.raw_induct [where P =
      "\<lambda>put e st sk r. sink_within m buffer e sk \<longrightarrow> sink_within m buffer e (snd r)",
      OF _ c, THEN mp, OF _ w, simplified])
  subgoal premises p for loop put e st sk r
    using p(2) output_field_within [of put e _ sk _ m buffer]
    by (auto simp: Let_def bind_eq_Some_conv split: if_splits dest!: p(1))
  done

subsection \<open>Flags\<close>

lemmas flag_defs =
  LEFT_JUSTIFY_def PREFIX_SIGN_def PREFIX_BLANK_def COMMA_TYPE_def LONG_TYPE_def PREFIX_ZERO_def
  PAD_TO_WIDTH_def PRECISION_def ARGUMENT_REVERSED_def COUNT_ONLY_NO_PRINT_def UNSIGNED_TYPE_def

lemma has_set_flag [simp]: "has (set_flag f st) g \<longleftrightarrow> has st g \<or> f AND g \<noteq> 0"
proof -
  have "(x OR f) AND g = 0 \<longleftrightarrow> x AND g = 0 \<and> f AND g = 0" for x :: u32
    by (auto simp: bit_eq_iff bit_simps)
  then show ?thesis by (auto simp: has_def set_flag_def)
qed

lemma has_clear_flag [simp]: "has (clear_flag f st) g \<longleftrightarrow> pf_flags st AND (g AND NOT f) \<noteq> 0"
  by (simp add: has_def clear_flag_def ac_simps)

lemma has_update [simp]:
  "has (st\<lparr>pf_format := p\<rparr>) g = has st g" "has (st\<lparr>pf_args := a\<rparr>) g = has st g"
  "has (st\<lparr>pf_width := w\<rparr>) g = has st g" "has (st\<lparr>pf_precision := w\<rparr>) g = has st g"
  "has (st\<lparr>pf_prefix := c\<rparr>) g = has st g" "has (st\<lparr>pf_comma := b\<rparr>) g = has st g"
  "has (st\<lparr>pf_zero_pad := b\<rparr>) g = has st g" "has (st\<lparr>pf_count := w\<rparr>) g = has st g"
  "has (st\<lparr>pf_digits := w\<rparr>) g = has st g" "has (st\<lparr>pf_value_buffer := vb\<rparr>) g = has st g"
  "has (st\<lparr>pf_argument := ar\<rparr>) g = has st g"
  by (simp_all add: has_def)

text \<open>No conversion asks for counting alone: \<open>flags\<close> never gets that bit.\<close>

abbreviation printing :: "pf_state \<Rightarrow> bool" where
  "printing st \<equiv> \<not> has st COUNT_ONLY_NO_PRINT"

lemma parse_flag_printing:
  "parse_flag m st = Some (c, d, st') \<Longrightarrow> printing st \<Longrightarrow> printing st'"
  by (auto simp: parse_flag_def Let_def bind_eq_Some_conv flag_defs split: if_splits list.splits)

lemma parse_flags_printing:
  assumes c: "parse_flags m st = Some (c, st')" and w: "printing st"
  shows "printing st'"
  apply (rule parse_flags.raw_induct [where P = "\<lambda>m st r. printing st \<longrightarrow> printing (snd r)",
      OF _ c, THEN mp, OF _ w, simplified])
  subgoal premises p for loop m st r
    using p(2) parse_flag_printing [of m st]
    by (fastforce simp: bind_eq_Some_conv split: if_splits dest!: p(1))
  done

lemma format_number_printing:
  assumes "format_number c st = Some st'" and "printing st"
  shows "printing st'"
proof -
  have 1: "printing (snd (select_radix c st))"
    using assms(2) by (auto simp: select_radix_def flag_defs) (auto simp: has_def)
  have 2: "printing (number_prefix st)" if "printing st" for st
    using that by (simp add: number_prefix_def Let_def)
  have 3: "printing st'" if "decimal_sign r v st = Some (v', st')" "printing st" for r v st v' st'
    using that by (auto simp: decimal_sign_def Let_def flag_defs split: if_splits) (auto simp: has_def)
  have 4: "printing st'" if "number_digits r v st = Some st'" "printing st" for r v st st'
    using that by (auto simp: number_digits_def Let_def bind_eq_Some_conv)
  have 5: "printing (number_layout st)" if "printing st" for st
    using that by (auto simp: number_layout_def Let_def flag_defs)
  obtain r st1 where r: "select_radix c st = (r, st1)" by fastforce
  with assms(1) obtain a as where a: "pf_args st1 = a # as"
    by (cases "pf_args st1") (simp_all add: format_number_def)
  with assms(1) r obtain v st2 st3 where
    v: "decimal_sign r (fetch_value c a st1) (number_prefix (st1\<lparr>pf_args := as\<rparr>)) = Some (v, st2)"
    and "number_digits r v st2 = Some st3" "st' = number_layout st3"
    by (auto simp: format_number_def Let_def bind_eq_Some_conv)
  moreover have "printing st2"
    using 1 2 [of "st1\<lparr>pf_args := as\<rparr>"] 3 [OF v] r by (metis has_update(2) snd_conv)
  ultimately show ?thesis using 4 5 by blast
qed

lemma convert_field_printing:
  "convert_field m c st = Some st' \<Longrightarrow> printing st \<Longrightarrow> printing st'"
  by (auto simp: convert_field_def convert_argument_def Let_def bind_eq_Some_conv
      split: if_splits list.splits dest!: parse_flags_printing format_number_printing)

lemma format_loop_printing:
  assumes c: "format_loop put e st sk = Some (st', sk')" and w: "printing st"
  shows "printing st'"
  apply (rule format_loop.raw_induct [where P = "\<lambda>put e st sk r. printing st \<longrightarrow> printing (fst r)",
      OF _ c, THEN mp, OF _ w, simplified])
  subgoal premises p for loop put e st sk r
    using p(2) convert_field_printing [of "sk_mem sk" _ "reset_state st"]
    by (auto simp: Let_def bind_eq_Some_conv measure_argument_def split: if_splits dest!: p(1))
      (auto simp: has_def reset_state_def)
  done

subsection \<open>Bounds\<close>

lemma sint_1_32 [simp]: "nat (sint (1 :: u32)) = Suc 0"
  by simp

lemma write_nul:
  assumes "sk_buffer sk \<noteq> NULL" and "sk_buffer sk < e"
  shows "sk_mem (write_char put e 1 0 sk) = (sk_mem sk)(sk_buffer sk := 0)"
  using assms by (auto simp: write_char_def Let_def split: option.split)

lemma unat_word_inverse: "of_nat (unat (x :: 'a::len word)) = x"
  by simp

lemma unat_ucast_u32 [simp]: "unat (ucast (x :: u32) :: u64) = unat x"
  using unsigned_less [of x, where 'a = nat] by (simp add: unsigned_ucast_eq take_bit_nat_eq_self)

lemma scast_eq_ucast:
  assumes "unat (x :: u32) < 2 ^ 31"
  shows "scast x = (ucast x :: u64)"
proof -
  have "int (unat x) < int (2 ^ 31)" using assms by (simp only: of_nat_less_iff)
  then have "uint x < 2 ^ 31" by simp
  moreover have "- (2 ^ 31) \<le> uint x" by (rule order.trans [OF _ uint_ge_0]) simp
  ultimately have "signed_take_bit 31 (uint x) = uint x" by (simp only: signed_take_bit_int_eq_self)
  then have "sint x = uint x" by (simp add: sint_uint)
  then show ?thesis by (simp only: scast_eq ucast_eq)
qed

lemma sprintf_impl_within:
  assumes "sprintf_impl m s buffer sz format args put = Some (r, m', s')"
    and fits: "unat buffer + unat sz < 2 ^ 64" and "buffer \<noteq> NULL" and "0 < sz"
  shows "unat r < unat sz \<and> m' (buffer + ucast r) = 0 \<and> (\<forall>a. a \<notin> region buffer (Suc (unat r)) \<longrightarrow> m' a = m a)"
proof -
  define e where "e = buffer + ucast (sz - 1)"
  have sz: "unat (sz - 1) = unat sz - 1" "0 < unat sz"
    using assms(4) unat_minus_one [of sz] by (simp_all add: word_gt_0 unat_gt_0)
  have ue: "unat e = unat buffer + (unat sz - 1)"
    using fits sz unfolding e_def by (simp add: unat_word_ariths)
  have ue1: "unat (e + 1) = unat buffer + unat sz"
    using fits ue sz by (simp add: unat_word_ariths)
  obtain st sk where l: "format_loop put e (initial_state format args)
      \<lparr>sk_mem = m, sk_tty = s, sk_buffer = buffer, sk_length = 0\<rparr> = Some (st, sk)"
    using assms(1,3) by (auto simp: sprintf_impl_def e_def Let_def bind_eq_Some_conv)
  have p: "printing st"
    using format_loop_printing [OF l] by (simp add: has_def initial_state_def)
  have "buffer \<le> e" using ue by (simp add: word_le_nat_alt)
  then have "sink_within m buffer e sk"
    using format_loop_within [OF l, of m buffer] by (simp add: sink_within_def assms(3))
  then have w: "buffer \<le> sk_buffer sk" "sk_buffer sk \<le> e"
      "\<And>a. a < buffer \<or> sk_buffer sk \<le> a \<Longrightarrow> sk_mem sk a = m a"
    unfolding sink_within_def if_not_P [OF assms(3)] by blast+
  define k where "k = unat (sk_buffer sk) - unat buffer"
  have uk: "unat (sk_buffer sk) = unat buffer + k" "k < unat sz"
    using w(1,2) ue sz by (auto simp: k_def word_le_nat_alt)
  then have b: "sk_buffer sk = buffer + of_nat k"
    by (metis of_nat_add unat_word_inverse)
  have "k < 2 ^ 32" using uk(2) unsigned_less [of sz, where 'a = nat] by simp
  then have k: "unat (of_nat k :: u32) = k" "unat (of_nat k :: u64) = k"
    by (simp_all add: unat_of_nat take_bit_nat_eq_self)
  have "sk_buffer sk \<noteq> NULL" "sk_buffer sk < e + 1"
    using w(1) assms(3) uk ue1 by (auto simp: word_less_nat_alt)
  note nul = write_nul [OF this, of put]
  have "r = ucast (sk_buffer sk - buffer)" and m': "m' = (sk_mem sk)(sk_buffer sk := 0)"
    using assms(1,3) l p nul \<open>sk_buffer sk \<noteq> NULL\<close>
    by (auto simp: sprintf_impl_def e_def [symmetric] Let_def)
  then have r: "r = of_nat k" using b k(2) by (simp add: unsigned_of_nat)
  have "m' a = m a" if "a \<notin> region buffer (Suc k)" for a
  proof (cases "a = sk_buffer sk")
    case True
    with that b show ?thesis by (auto simp: region_def)
  next
    case False
    have "a < buffer \<or> sk_buffer sk \<le> a"
    proof (rule ccontr)
      assume "\<not> ?thesis"
      then have "unat a = unat buffer + (unat a - unat buffer)" "unat a - unat buffer < k"
        using uk(1) by (auto simp: word_le_nat_alt word_less_nat_alt)
      then have "a = buffer + of_nat (unat a - unat buffer)"
        by (metis of_nat_add unat_word_inverse)
      with that \<open>unat a - unat buffer < k\<close> show False
        by (metis regionI less_SucI)
    qed
    with w(3) False m' show ?thesis by simp
  qed
  moreover have "ucast r = (of_nat k :: u64)"
    using r k by (metis unat_ucast_u32 unat_word_inverse)
  ultimately show ?thesis using uk(2) r k m' b by simp
qed

text \<open>
  C21.  Whatever the format and the arguments, a \<open>sprintf\<close> or \<open>vsprintf\<close> that returns has written the
  characters it counts, fewer than \<open>INT16_MAX\<close>, and a NUL behind them, so at most \<open>INT16_MAX\<close>
  bytes in all, and no other byte; both functions do the same.
\<close>
theorem sprintf_bounds:
  assumes "sprintf m buffer format args = Some (n, m1)" and "vsprintf m buffer format args = Some (k, m2)"
    and "buffer \<noteq> NULL" and "unat buffer + 32767 < 2 ^ 64"
  shows "unat n < 32767 \<and> m1 (buffer + ucast n) = 0 \<and>
      (\<forall>a. a \<notin> region buffer (Suc (unat n)) \<longrightarrow> m1 a = m a) \<and> k = n \<and> m2 = m1"
proof -
  have "unat PRINT_LIMIT = 32767" "0 < PRINT_LIMIT" by (simp_all add: PRINT_LIMIT_def)
  moreover obtain s where i: "sprintf_impl m () buffer PRINT_LIMIT format args None = Some (n, m1, s)"
    using assms(1) by (auto simp: sprintf_def bind_eq_Some_conv)
  ultimately have b: "unat n < 32767 \<and> m1 (buffer + ucast n) = 0 \<and>
      (\<forall>a. a \<notin> region buffer (Suc (unat n)) \<longrightarrow> m1 a = m a)"
    using sprintf_impl_within [OF i] assms(3,4) by simp
  have "k = n" "m2 = m1(buffer + scast n := 0)"
    using assms(2) i by (auto simp: vsprintf_def)
  moreover have "scast n = (ucast n :: u64)"
    using b by (intro scast_eq_ucast) simp
  ultimately show ?thesis using b by (simp add: fun_upd_idem)
qed

text \<open>\<open>sprintf\<close> of 42 with the format \<open>"%05d"\<close> into a buffer at 0x2000.\<close>

definition example_format :: mem where
  "example_format = poke (\<lambda>_. 0) 0x1000 (bytes_of ''%05d'' @ [0])"

lemma example_sprintf:
  "map_option (\<lambda>(n, m). (n, bytes m 0x2000 6)) (sprintf example_format 0x2000 0x1000 [42]) =
     Some (5, [48, 48, 48, 52, 50, 0])"
  "map_option fst (vsprintf example_format 0x2000 0x1000 [42]) = Some 5"
  by code_simp+

theorem sprintf_bounds_witness:
  "\<exists>m1. sprintf example_format 0x2000 0x1000 [42] = Some (5, m1) \<and>
     vsprintf example_format 0x2000 0x1000 [42] = Some (5, m1) \<and>
     bytes m1 0x2000 6 = [48, 48, 48, 52, 50, 0] \<and> (\<forall>a. a \<notin> region 0x2000 6 \<longrightarrow> m1 a = example_format a)"
proof -
  obtain m1 where m1: "sprintf example_format 0x2000 0x1000 [42] = Some (5, m1)"
      "bytes m1 0x2000 6 = [48, 48, 48, 52, 50, 0]"
    using example_sprintf(1) by auto
  obtain m2 where m2: "vsprintf example_format 0x2000 0x1000 [42] = Some (5, m2)"
    using example_sprintf(2) by auto
  have s: "Suc (unat (5 :: u32)) = 6" by simp
  have "m2 = m1" "\<forall>a. a \<notin> region 0x2000 6 \<longrightarrow> m1 a = example_format a"
    using sprintf_bounds [OF m1(1) m2, unfolded s] by simp_all
  with m1 m2 show ?thesis by blast
qed

end
