(* ===== verification/Format.thy ===== *)
theory Format
  imports Printf
begin

text \<open>
  What the engine of \<open>printf.c\<close> does with one field.  The stages of a field are related to lists of
  bytes: \<open>value_to_string\<close> writes the numeral of a value, \<open>put_bytes\<close> is the effect of a list of
  characters on the place the output goes to, \<open>output_field\<close> emits \<open>field_text\<close>, and \<open>parse_flags\<close>
  reads the text \<open>field_format\<close> of a \<open>field_spec\<close> and leaves the state \<open>spec_state\<close>.  Theory \<open>Render\<close>
  puts the stages together.
\<close>

subsection \<open>Numerals\<close>

definition hex_char :: "nat \<Rightarrow> u8" where
  "hex_char d = m_hex_str ! d"

text \<open>The digits of a number, the lowest first, at least one.\<close>

function numeral_rev :: "nat \<Rightarrow> nat \<Rightarrow> u8 list" where
  "numeral_rev base v =
     (if base < 2 \<or> v < base then [hex_char v] else hex_char (v mod base) # numeral_rev base (v div base))"
  by pat_completeness auto
termination by (relation "measure snd") auto

declare numeral_rev.simps [simp del]

lemma m_hex_str_simps: "m_hex_str =
    [48, 49, 50, 51, 52, 53, 54, 55, 56, 57, 65, 66, 67, 68, 69, 70]"
  by (simp add: m_hex_str_def bytes_of_def byte_def)

lemma length_m_hex_str [simp]: "length m_hex_str = 16"
  by (simp add: m_hex_str_simps)

lemma hex_char_facts:
  assumes "d < 16"
  shows "hex_char d \<noteq> 0" and "digit_of (hex_char d) = Some d"
proof -
  have "\<forall>d\<in>set [0..<16]. hex_char d \<noteq> 0 \<and> digit_of (hex_char d) = Some d"
    by (simp add: upt_rec hex_char_def m_hex_str_simps digit_of_def)
  with assms show "hex_char d \<noteq> 0" and "digit_of (hex_char d) = Some d" by simp_all
qed

lemma numeral_rev_small: "v < base \<Longrightarrow> numeral_rev base v = [hex_char v]"
  by (simp add: numeral_rev.simps)

lemma numeral_rev_step:
  "2 \<le> base \<Longrightarrow> base \<le> v \<Longrightarrow> numeral_rev base v = hex_char (v mod base) # numeral_rev base (v div base)"
  by (subst numeral_rev.simps) simp

lemma mod_less_16: "2 \<le> b \<Longrightarrow> b \<le> 16 \<Longrightarrow> v mod b < (16 :: nat)"
  by (rule less_le_trans [OF mod_less_divisor]) simp_all

lemma numeral_rev_not_nul: "2 \<le> base \<Longrightarrow> base \<le> 16 \<Longrightarrow> 0 \<notin> set (numeral_rev base v)"
proof (induction base v rule: numeral_rev.induct)
  case (1 base v)
  have "v mod base < 16" using "1.prems" by (rule mod_less_16)
  then show ?case
  proof (cases "v < base")
    case True
    with "1.prems" hex_char_facts(1) [of v] show ?thesis by (auto simp: numeral_rev_small)
  next
    case False
    have "0 \<noteq> hex_char (v mod base)"
      using hex_char_facts(1) [OF \<open>v mod base < 16\<close>] by metis
    with 1 False show ?thesis by (simp add: numeral_rev_step)
  qed
qed

lemma number_numeral_rev:
  "2 \<le> base \<Longrightarrow> base \<le> 16 \<Longrightarrow> number base (rev (numeral_rev base v)) = v"
proof (induction base v rule: numeral_rev.induct)
  case (1 base v)
  have m: "v mod base < 16" using "1.prems" by (rule mod_less_16)
  show ?case
  proof (cases "v < base")
    case True
    with "1.prems" show ?thesis
      using number_simps(2) [of base "[]"] by (simp add: numeral_rev_small digit_val_def hex_char_facts)
  next
    case False
    with "1" m show ?thesis
      by (simp add: numeral_rev_step digit_val_def hex_char_facts)
  qed
qed

lemma length_numeral_rev:
  assumes "2 \<le> base" and "v < base ^ k" and "0 < k"
  shows "length (numeral_rev base v) \<le> k"
  using assms
proof (induction base v arbitrary: k rule: numeral_rev.induct)
  case (1 base v)
  show ?case
  proof (cases "v < base")
    case True
    with "1.prems" show ?thesis by (simp add: numeral_rev_small)
  next
    case False
    then obtain j where k: "k = Suc j" "0 < j"
      using "1.prems" by (cases k; cases "k - 1") auto
    have "v div base < base ^ j"
      using "1.prems" k by (simp add: less_mult_imp_div_less mult.commute)
    with 1 False k show ?thesis by (simp add: numeral_rev_step)
  qed
qed

lemma value_to_string_loop_digits:
  fixes base :: u32
  assumes "2 \<le> unat base" and "unat base \<le> 16"
  shows "value_to_string_loop buf pos v base =
    (let ds = numeral_rev (unat base) (unat v)
     in if pos + length ds < length buf
        then Some (take (Suc pos) buf @ ds @ drop (Suc pos + length ds) buf, pos + length ds) else None)"
proof (induction "unat base" "unat v" arbitrary: buf pos v rule: numeral_rev.induct)
  case 1
  have b: "base \<noteq> 0" "unat (ucast base :: u64) = unat base" using assms by auto
  have m: "unat (v mod ucast base) = unat v mod unat base" "unat (v div ucast base) = unat v div unat base"
    by (simp_all add: unat_mod unat_div b)
  have lt: "unat v mod unat base < 16"
    using assms by (rule mod_less_16)
  have z: "v div ucast base = 0 \<longleftrightarrow> unat v < unat base"
    using m(2) assms by (metis div_eq_0_iff not_numeral_le_zero unat_eq_zero)
  have len: "unat (v mod ucast base) < length m_hex_str" using lt m by simp
  show ?case
  proof (cases "unat v < unat base")
    case True
    then have zz: "v div ucast base = 0" using z by blast
    have mm: "unat v mod unat base = unat v" using True by simp
    show ?thesis
      unfolding value_to_string_loop.simps [of buf] Let_def if_not_P [OF b(1)] zz numeral_rev_small [OF True] m mm
      using True assms by (simp add: hex_char_def upd_conv_take_nth_drop take_Suc_conv_app_nth)
  next
    case False
    then have zz: "v div ucast base \<noteq> 0" using z by blast
    have IH: "value_to_string_loop buf' (Suc pos) (v div ucast base) base =
      (let ds = numeral_rev (unat base) (unat v div unat base)
       in if Suc pos + length ds < length buf'
          then Some (take (Suc (Suc pos)) buf' @ ds @ drop (Suc (Suc pos) + length ds) buf', Suc pos + length ds) else None)"
      for buf'
      using "1.hyps" [OF _ m(2) [symmetric], of buf' "Suc pos"] False assms m by simp
    have st: "numeral_rev (unat base) (unat v) =
        hex_char (unat v mod unat base) # numeral_rev (unat base) (unat v div unat base)"
      using False assms by (intro numeral_rev_step) simp_all
    show ?thesis
      unfolding value_to_string_loop.simps [of buf] Let_def if_not_P [OF b(1)] IH st m
      using zz lt by (auto simp: Let_def hex_char_def take_Suc_conv_app_nth)
  qed
qed

subsection \<open>Output as a list of bytes\<close>

fun store_bytes :: "ptr \<Rightarrow> u8 list \<Rightarrow> ptr \<times> mem \<Rightarrow> ptr \<times> mem" where
  "store_bytes e [] (b, m) = (b, m)"
| "store_bytes e (x # xs) (b, m) = (if b < e then store_bytes e xs (b + 1, m(b := x)) else (b, m))"

text \<open>What a list of characters does to the place the output goes to.\<close>

definition put_bytes ::
    "(u8 \<Rightarrow> 's \<Rightarrow> 's) option \<Rightarrow> ptr \<Rightarrow> u8 list \<Rightarrow> 's sink \<Rightarrow> 's sink" where
  "put_bytes put e xs sk =
     (let sk = (case put of None \<Rightarrow> sk | Some f \<Rightarrow> sk\<lparr>sk_tty := fold f xs (sk_tty sk)\<rparr>)
      in if sk_buffer sk \<noteq> NULL
         then let (b, m) = store_bytes e xs (sk_buffer sk, sk_mem sk) in sk\<lparr>sk_buffer := b, sk_mem := m\<rparr>
         else sk)"

lemma fill_chars_store: "fill_chars e n c (b, m) = store_bytes e (replicate n c) (b, m)"
  by (induction n arbitrary: b m) simp_all

lemma funpow_fold: "(f c ^^ n) s = fold f (replicate n c) s"
  by (induction n arbitrary: s) (simp_all add: funpow_swap1)

lemma write_char_put: "write_char put e n c sk = put_bytes put e (replicate (nat (sint n)) (ucast c)) sk"
  by (cases put) (simp_all only: write_char_def put_bytes_def fill_chars_store funpow_fold Let_def option.case)

lemma store_bytes_full: "\<not> b < e \<Longrightarrow> store_bytes e xs (b, m) = (b, m)"
  by (cases xs) simp_all

lemma store_bytes_append:
  "store_bytes e (xs @ ys) (b, m) = store_bytes e ys (store_bytes e xs (b, m))"
  by (induction xs arbitrary: b m) (simp_all add: store_bytes_full)

lemma store_bytes_not_null:
  assumes "b \<noteq> NULL" shows "fst (store_bytes e xs (b, m)) \<noteq> NULL"
  using assms
proof (induction xs arbitrary: b m)
  case (Cons x xs)
  have "b < e \<Longrightarrow> b + 1 \<noteq> NULL"
    using unat_add_one [of b e] by auto
  with Cons show ?case by simp
qed simp

lemma put_bytes_append: "put_bytes put e (xs @ ys) sk = put_bytes put e ys (put_bytes put e xs sk)"
  using store_bytes_not_null [of "sk_buffer sk" e xs "sk_mem sk"]
  by (auto simp: put_bytes_def Let_def store_bytes_append split: option.split prod.split)

lemma put_bytes_Nil [simp]: "put_bytes put e [] sk = sk"
  by (simp add: put_bytes_def split: option.split)

lemma ucast_byte_u32 [simp]: "ucast (ucast (x :: u8) :: u32) = x"
  by (rule bit_word_eqI) (auto simp: bit_simps)

lemma put_bytes_within:
  "sink_within m buffer e sk \<Longrightarrow> sink_within m buffer e (put_bytes put e xs sk)"
proof (induction xs arbitrary: sk)
  case (Cons x xs)
  have "put_bytes put e [x] sk = write_char put e 1 (ucast x) sk"
    by (simp add: write_char_put)
  with Cons have "sink_within m buffer e (put_bytes put e [x] sk)"
    by (simp only: write_char_within)
  then show ?case using Cons.IH put_bytes_append [of put e "[x]" xs sk] by simp
qed simp

lemma put_bytes_length [simp]:
  "put_bytes put e xs (sk\<lparr>sk_length := l\<rparr>) = (put_bytes put e xs sk)\<lparr>sk_length := l\<rparr>"
  by (auto simp: put_bytes_def Let_def split: option.split prod.split)

text \<open>Two outputs that differ in the length they count, which nobody reads.\<close>

definition same_output :: "'s sink \<Rightarrow> 's sink \<Rightarrow> bool" where
  "same_output sk sk' \<longleftrightarrow> (\<exists>l. sk = sk'\<lparr>sk_length := l\<rparr>)"

lemma same_output_refl [simp]: "same_output sk sk"
  unfolding same_output_def by (rule exI [of _ "sk_length sk"]) simp

lemma same_output_put:
  "same_output sk (put_bytes put e xs sk0) \<Longrightarrow>
     same_output (put_bytes put e ys sk) (put_bytes put e (xs @ ys) sk0)"
  by (auto simp: same_output_def put_bytes_append)

lemma same_output_fields:
  "same_output sk sk' \<Longrightarrow> sk_mem sk = sk_mem sk' \<and> sk_tty sk = sk_tty sk' \<and> sk_buffer sk = sk_buffer sk'"
  by (auto simp: same_output_def)

lemma emit_put:
  assumes "printing st" and "same_output sk (put_bytes put e xs sk0)"
  shows "same_output (emit put e st n c sk)
           (put_bytes put e (xs @ replicate (nat (sint n)) (ucast c)) sk0)"
proof -
  have "emit put e st n c sk =
      put_bytes put e (replicate (nat (sint n)) (ucast c)) (sk\<lparr>sk_length := sk_length sk + n\<rparr>)"
    using assms(1) by (simp add: emit_def Let_def write_char_put)
  moreover have "same_output (sk\<lparr>sk_length := sk_length sk + n\<rparr>) (put_bytes put e xs sk0)"
    using assms(2) by (auto simp: same_output_def)
  ultimately show ?thesis by (simp only: same_output_put)
qed

lemma emit_char:
  assumes "printing st" and "same_output sk (put_bytes put e xs sk0)"
  shows "same_output (emit put e st 1 c sk) (put_bytes put e (xs @ [ucast c]) sk0)"
  using emit_put [OF assms, of 1 c] by simp

lemma same_output_within:
  "same_output sk (put_bytes put e xs sk0) \<Longrightarrow> sink_within m buffer e sk0 \<Longrightarrow> sink_within m buffer e sk"
  using put_bytes_within [of m buffer e sk0 put xs]
  by (auto simp: same_output_def sink_within_def)

lemma sint_word32: "sint (x :: u32) = (if uint x < 2 ^ 31 then uint x else uint x - 2 ^ 32)"
proof -
  have r: "0 \<le> uint x" "uint x < 2 ^ 32" using unsigned_less [of x, where 'a = int] by simp_all
  then have "uint x div 2 ^ 31 = (if 2 ^ 31 \<le> uint x then 1 else 0)" by auto
  then have "bit (uint x) 31 \<longleftrightarrow> 2 ^ 31 \<le> uint x" by (simp add: bit_iff_odd)
  moreover have "sint x = take_bit 32 (uint x) - 2 ^ 32 * of_bool (bit (uint x) 31)"
    by (simp add: sint_uint signed_take_bit_eq_take_bit_minus)
  moreover have "take_bit 32 (uint x) = uint x" using r by (simp add: take_bit_int_eq_self)
  ultimately show ?thesis by simp
qed

lemma nat_sint_diff:
  assumes "unat a < 2 ^ 31" and "unat b < 2 ^ 31"
  shows "nat (sint (a - b :: u32)) = unat a - unat b"
proof (cases "b \<le> a")
  case True
  then have u: "unat (a - b) = unat a - unat b" by (rule unat_sub)
  with assms have "unat (a - b) < 2 ^ 31" by simp
  then have "int (unat (a - b)) < int (2 ^ 31)" by (simp only: of_nat_less_iff)
  then have "sint (a - b) = int (unat (a - b))" by (simp add: sint_word32)
  then show ?thesis by (simp only: u nat_int)
next
  case False
  then have "unat (b - a) = unat b - unat a" "0 < unat b - unat a"
    by (simp_all add: unat_sub word_less_nat_alt word_le_nat_alt)
  then have u: "unat (a - b) = 2 ^ 32 - (unat b - unat a)"
    using False unat_sub_if' [of a b] by (simp add: word_le_nat_alt)
  then have "2 ^ 31 \<le> unat (a - b)" using assms by simp
  then have "int (2 ^ 31) \<le> int (unat (a - b))" by (simp only: of_nat_le_iff)
  moreover have "uint (a - b) < 2 ^ 32" using uint_lt2p [of "a - b"] by simp
  ultimately have "sint (a - b) \<le> 0" by (simp add: sint_word32)
  with False show ?thesis by (simp add: word_le_nat_alt)
qed

subsection \<open>Copying the argument\<close>

definition reads :: "mem \<Rightarrow> int \<Rightarrow> argument \<Rightarrow> u8 list \<Rightarrow> bool" where
  "reads m step arg xs \<longleftrightarrow>
     (\<forall>i<length xs. arg_byte m arg (step * int i) = Some (xs ! i) \<and> xs ! i \<noteq> 0 \<and>
        arg_byte m arg (step * int i + 1) \<noteq> None)"

lemma arg_byte_advance [simp]: "arg_byte m (arg_advance arg i) j = arg_byte m arg (i + j)"
  by (cases arg) (simp_all add: add.assoc)

lemma reads_Nil [simp]: "reads m step arg []"
  by (simp add: reads_def)

lemma reads_Cons:
  "reads m step arg (x # xs) \<longleftrightarrow> arg_byte m arg 0 = Some x \<and> x \<noteq> 0 \<and> arg_byte m arg 1 \<noteq> None \<and>
     reads m step (arg_advance arg step) xs"
  by (auto simp: reads_def All_less_Suc2 algebra_simps)

text \<open>A comma before every group of three digits, counted from the right.\<close>

function commas :: "u8 list \<Rightarrow> u8 list" where
  "commas xs = (if length xs \<le> 3 then xs
     else commas (take (length xs - 3) xs) @ [byte CHR '',''] @ drop (length xs - 3) xs)"
  by pat_completeness auto
termination by (relation "measure length") auto

declare commas.simps [simp del]

text \<open>The same from the left: \<open>d\<close> digits of the current group are already out.\<close>

fun comma_groups :: "nat \<Rightarrow> u8 list \<Rightarrow> u8 list" where
  "comma_groups d [] = []"
| "comma_groups d (x # xs) =
     x # (if d + 1 = 3 then (if xs = [] then [] else byte CHR '','' # comma_groups 0 xs) else comma_groups (d + 1) xs)"

lemma comma_groups_append:
  assumes "length ys = 3"
  shows "(length xs + d) mod 3 = 0 \<Longrightarrow> d < 3 \<Longrightarrow> xs \<noteq> [] \<Longrightarrow>
     comma_groups d (xs @ ys) = comma_groups d xs @ [byte CHR '',''] @ ys"
proof (induction d xs rule: comma_groups.induct)
  case (2 d x xs)
  obtain a b c where ys: "ys = [a, b, c]"
    using assms by (auto simp: numeral_3_eq_3 length_Suc_conv)
  show ?case
  proof (cases "xs = []")
    case True
    then have "Suc d mod 3 = 0" "d < 3" using "2.prems"(1,2) by simp_all
    then have "d = 2" by (cases "d = 2") (auto simp: mod_less)
    with True ys show ?thesis by simp
  next
    case xs: False
    show ?thesis
    proof (cases "d = 2")
      case True
      then have "(length xs + 0) mod 3 = 0" using "2.prems"(1) by simp
      then have "comma_groups 0 (xs @ ys) = comma_groups 0 xs @ [byte CHR '',''] @ ys"
        using "2.IH"(1) True xs by simp
      with True xs show ?thesis by simp
    next
      case d: False
      then have "comma_groups (d + 1) (xs @ ys) = comma_groups (d + 1) xs @ [byte CHR '',''] @ ys"
        using "2.IH"(2) "2.prems" xs by simp
      with d show ?thesis by simp
    qed
  qed
qed simp

lemma commas_groups: "comma_groups ((3 - length xs mod 3) mod 3) xs = commas xs"
proof (induction xs rule: commas.induct)
  case (1 xs)
  show ?case
  proof (cases "length xs \<le> 3")
    case True
    then consider "xs = []" | a where "xs = [a]" | a b where "xs = [a, b]" | a b c where "xs = [a, b, c]"
      by (cases xs; cases "tl xs"; cases "tl (tl xs)"; cases "tl (tl (tl xs))") auto
    then show ?thesis by cases (simp_all add: commas.simps)
  next
    case False
    let ?ys = "take (length xs - 3) xs" and ?zs = "drop (length xs - 3) xs"
    have n: "length ?ys = length xs - 3" "length ?zs = 3" "?ys \<noteq> []" using False by auto
    have m: "(length xs - 3) mod 3 = length xs mod 3"
      using False le_mod_geq [of 3 "length xs"] by simp
    have "comma_groups ((3 - length xs mod 3) mod 3) (?ys @ ?zs) =
        comma_groups ((3 - length xs mod 3) mod 3) ?ys @ [byte CHR '',''] @ ?zs"
    proof (rule comma_groups_append [OF n(2) _ _ n(3)])
      have "(length ?ys + (3 - length xs mod 3) mod 3) mod 3 =
          (length xs mod 3 + (3 - length xs mod 3) mod 3) mod 3"
        using mod_add_left_eq [of "length xs - 3" 3 "(3 - length xs mod 3) mod 3"] unfolding n(1) m by (rule sym)
      moreover consider "length xs mod 3 = 0" | "length xs mod 3 = 1" | "length xs mod 3 = 2" by linarith
      then have "(length xs mod 3 + (3 - length xs mod 3) mod 3) mod 3 = 0" by cases simp_all
      ultimately show "(length ?ys + (3 - length xs mod 3) mod 3) mod 3 = 0" by simp
    qed simp
    moreover have "comma_groups ((3 - length xs mod 3) mod 3) ?ys = commas ?ys"
      using "1.IH" [OF False] unfolding n(1) m .
    moreover have "commas xs = commas ?ys @ [byte CHR '',''] @ ?zs"
      using False by (subst commas.simps) (simp only: if_False)
    ultimately show ?thesis by (metis append_take_drop_id)
  qed
qed

lemma length_commas: "length (commas xs) = length xs + (length xs - 1) div 3"
proof (induction xs rule: commas.induct)
  case (1 xs)
  show ?case
  proof (cases "length xs \<le> 3")
    case False
    then have "(length xs - 1) div 3 = Suc ((length xs - 3 - 1) div 3)"
      using le_div_geq [of 3 "length xs - 1"] by (simp add: diff_commute)
    with 1 False show ?thesis by (simp add: commas.simps [of xs])
  qed (simp add: commas.simps [of xs])
qed

lemma ucast_argument_character: "ucast (scast (x :: u8) OR push_bit 8 (ucast (y :: u8)) :: u32) = x"
  by (rule bit_word_eqI) (auto simp: bit_simps)

lemma copy_plain:
  fixes put :: "(u8 \<Rightarrow> 's \<Rightarrow> 's) option" and sk0 :: "'s sink"
  assumes "printing st" and "\<not> pf_comma st"
  shows "unat (pf_count st) = unat index + length xs \<Longrightarrow> 
     (\<And>t :: 's sink. sink_within m buffer e t \<Longrightarrow> reads (sk_mem t) (argument_step st) arg xs) \<Longrightarrow>
     same_output sk (put_bytes put e ys sk0) \<Longrightarrow> sink_within m buffer e sk0 \<Longrightarrow>
     \<exists>sk'. copy_argument put e st arg index d sk = Some sk' \<and> same_output sk' (put_bytes put e (ys @ xs) sk0)"
proof (induction xs arbitrary: arg index ys sk)
  case Nil
  then show ?case by (subst copy_argument.simps) (simp add: word_less_nat_alt)
next
  case (Cons x xs)
  have w: "sink_within m buffer e sk" by (rule same_output_within [OF Cons.prems(3,4)])
  have r: "arg_byte (sk_mem sk) arg 0 = Some x" "x \<noteq> 0" "arg_byte (sk_mem sk) arg 1 \<noteq> None"
    using Cons.prems(2) [OF w] by (simp_all add: reads_Cons)
  then obtain y where y: "arg_byte (sk_mem sk) arg 1 = Some y" by auto
  have i: "index < pf_count st" using Cons.prems(1) by (simp add: word_less_nat_alt)
  have i1: "unat (index + 1) = Suc (unat index)" by (rule unat_add_one [OF i])
  let ?sk = "emit put e st 1 (scast x OR push_bit 8 (ucast y)) sk"
  have o: "same_output ?sk (put_bytes put e (ys @ [x]) sk0)"
    using emit_char [OF assms(1) Cons.prems(3), of "scast x OR push_bit 8 (ucast y)"]
    by (simp add: ucast_argument_character)
  have "\<exists>sk'. copy_argument put e st (arg_advance arg (argument_step st)) (index + 1) d ?sk = Some sk' \<and>
      same_output sk' (put_bytes put e ((ys @ [x]) @ xs) sk0)"
    using Cons.prems by (intro Cons.IH o) (simp_all add: i1 reads_Cons)
  then show ?case
    using i r y assms(2) by (subst copy_argument.simps) (simp add: Let_def)
qed


lemma copy_commas:
  fixes put :: "(u8 \<Rightarrow> 's \<Rightarrow> 's) option" and sk0 :: "'s sink"
  assumes "printing st" and "pf_comma st"
  shows "unat (pf_count st) = unat index + length (comma_groups (unat d) xs) \<Longrightarrow> unat d < 3 \<Longrightarrow>
     (\<And>t :: 's sink. sink_within m buffer e t \<Longrightarrow> reads (sk_mem t) (argument_step st) arg xs) \<Longrightarrow>
     unat (pf_count st) < 2 ^ 31 \<Longrightarrow>
     same_output sk (put_bytes put e ys sk0) \<Longrightarrow> sink_within m buffer e sk0 \<Longrightarrow>
     \<exists>sk'. copy_argument put e st arg index d sk = Some sk' \<and>
       same_output sk' (put_bytes put e (ys @ comma_groups (unat d) xs) sk0)"
proof (induction xs arbitrary: arg index d ys sk)
  case Nil
  then show ?case by (subst copy_argument.simps) (simp add: word_less_nat_alt)
next
  case (Cons x xs)
  have w: "sink_within m buffer e sk" by (rule same_output_within [OF Cons.prems(5,6)])
  have r: "arg_byte (sk_mem sk) arg 0 = Some x" "x \<noteq> 0" "arg_byte (sk_mem sk) arg 1 \<noteq> None"
    using Cons.prems(3) [OF w] by (simp_all add: reads_Cons)
  then obtain y where y: "arg_byte (sk_mem sk) arg 1 = Some y" by auto
  have i: "index < pf_count st" using Cons.prems(1) by (simp add: word_less_nat_alt)
  have i1: "unat (index + 1) = Suc (unat index)" by (rule unat_add_one [OF i])
  have d1: "unat (d + 1) = unat d + 1" using Cons.prems(2) by (simp add: unat_word_ariths)
  let ?sk = "emit put e st 1 (scast x OR push_bit 8 (ucast y)) sk"
  let ?arg = "arg_advance arg (argument_step st)"
  have o: "same_output ?sk (put_bytes put e (ys @ [x]) sk0)"
    using emit_char [OF assms(1) Cons.prems(5), of "scast x OR push_bit 8 (ucast y)"]
    by (simp add: ucast_argument_character)
  have three: "d + 1 = 3 \<longleftrightarrow> unat d + 1 = 3"
    unfolding d1 [symmetric] using word_unat_eq_iff [of "d + 1" 3] by simp
  show ?case
  proof (cases "unat d + 1 = 3")
    case False
    have "\<exists>sk'. copy_argument put e st ?arg (index + 1) (d + 1) ?sk = Some sk' \<and>
        same_output sk' (put_bytes put e ((ys @ [x]) @ comma_groups (unat (d + 1)) xs) sk0)"
      using Cons.prems False by (intro Cons.IH o) (simp_all add: i1 d1 reads_Cons)
    then show ?thesis
      using i r y assms(2) False three by (subst copy_argument.simps) (simp add: Let_def d1)
  next
    case True
    show ?thesis
    proof (cases xs)
      case Nil
      then have c: "unat (pf_count st) = Suc (unat index)" using Cons.prems(1) True by simp
      then have "unat (index + 1 + 1) = Suc (Suc (unat index))"
        using Cons.prems(4) i1 by (simp add: unat_word_ariths)
      then have n: "\<not> index + 1 + 1 < pf_count st" using c by (simp add: word_less_nat_alt)
      have "copy_argument put e st ?arg (index + 1 + 1) 0 ?sk = Some ?sk"
        using n by (subst copy_argument.simps) simp
      then show ?thesis
        using i r y assms(2) True three n o Nil by (subst copy_argument.simps) (simp add: Let_def)
    next
      case (Cons z zs)
      have c: "unat (pf_count st) = Suc (Suc (unat index)) + length (comma_groups 0 xs)"
        "0 < length (comma_groups 0 xs)"
        using Cons.prems(1) True Cons by simp_all
      have i2: "unat (index + 1 + 1) = Suc (Suc (unat index))"
        using Cons.prems(4) i1 c by (simp add: unat_word_ariths)
      then have n: "index + 1 + 1 < pf_count st" using c by (simp add: word_less_nat_alt)
      let ?sk2 = "emit put e st 1 (chr32 CHR '','') ?sk"
      have o2: "same_output ?sk2 (put_bytes put e ((ys @ [x]) @ [byte CHR '','']) sk0)"
        using emit_char [OF assms(1) o, of "chr32 CHR '',''"] by (simp add: chr32_def byte_def)
      have "\<exists>sk'. copy_argument put e st ?arg (index + 1 + 1) 0 ?sk2 = Some sk' \<and>
          same_output sk' (put_bytes put e (((ys @ [x]) @ [byte CHR '','']) @ comma_groups (unat (0 :: u32)) xs) sk0)"
        using Cons.prems c i2 by (intro Cons.IH o2) (simp_all add: reads_Cons)
      then show ?thesis
        using i r y assms(2) True three n Cons by (subst copy_argument.simps) (simp add: Let_def)
    qed
  qed
qed

subsection \<open>One field\<close>

definition padded :: "bool \<Rightarrow> nat \<Rightarrow> u8 list \<Rightarrow> u8 list" where
  "padded left width core =
     (let spaces = replicate (width - length core) (byte CHR '' '') in if left then core @ spaces else spaces @ core)"

text \<open>What the output stage prints for the state a conversion leaves, \<open>body\<close> being the argument.\<close>

definition prefix_text :: "pf_state \<Rightarrow> u8 list" where
  "prefix_text st = (if pf_prefix st \<noteq> 0 then [pf_prefix st] else [])"

definition field_text :: "pf_state \<Rightarrow> u8 list \<Rightarrow> u8 list" where
  "field_text st body =
     (let fill = replicate (unat (pf_precision st) - unat (pf_count st)) (byte (if pf_zero_pad st then CHR ''0'' else CHR '' ''))
      in padded (has st LEFT_JUSTIFY) (if has st PAD_TO_WIDTH then unat (pf_width st) else 0)
           ((if pf_zero_pad st then prefix_text st @ fill else fill @ prefix_text st) @ body))"

lemma and_power2: "x AND push_bit n 1 = (if bit x n then push_bit n 1 else (0 :: u32))"
  by (rule bit_word_eqI) (auto simp: bit_simps)

lemma has_push_bit: "n < 32 \<Longrightarrow> has st (push_bit n 1) \<longleftrightarrow> bit (pf_flags st) n"
  unfolding has_def and_power2 by simp

lemma padding_test:
  "pf_flags st AND (PAD_TO_WIDTH OR LEFT_JUSTIFY) = (if left then PAD_TO_WIDTH OR LEFT_JUSTIFY else PAD_TO_WIDTH)
     \<longleftrightarrow> has st PAD_TO_WIDTH \<and> has st LEFT_JUSTIFY = left"
proof -
  have "pf_flags st AND (PAD_TO_WIDTH OR LEFT_JUSTIFY) =
      (if has st PAD_TO_WIDTH then PAD_TO_WIDTH else 0) OR (if has st LEFT_JUSTIFY then LEFT_JUSTIFY else 0)"
    unfolding bit.conj_disj_distrib PAD_TO_WIDTH_def LEFT_JUSTIFY_def and_power2
    by (simp only: has_push_bit)
  then show ?thesis
    by (cases "has st PAD_TO_WIDTH"; cases "has st LEFT_JUSTIFY"; cases left)
      (simp_all add: PAD_TO_WIDTH_def LEFT_JUSTIFY_def)
qed

lemma output_padding_put:
  assumes "printing st" and "unat (pf_width st) < 2 ^ 31" and "unat (pf_precision st) < 2 ^ 31"
    and "same_output sk (put_bytes put e ys sk0)"
  shows "same_output (output_padding put e left st sk) (put_bytes put e (ys @
     (if has st LEFT_JUSTIFY = left
      then replicate ((if has st PAD_TO_WIDTH then unat (pf_width st) else 0) - unat (pf_precision st)) (byte CHR '' '')
      else [])) sk0)"
  using emit_put [OF assms(1,4), of "pf_width st - pf_precision st" "chr32 CHR '' ''"] assms(4)
  by (auto simp: output_padding_def padding_test nat_sint_diff [OF assms(2,3)] chr32_def byte_def)

lemma ucast_scast_byte [simp]: "ucast (scast (x :: u8) :: u32) = x"
  by (rule bit_word_eqI) (auto simp: bit_simps)

lemma output_prefix_put:
  assumes "printing st" and "unat (pf_precision st) < 2 ^ 31" and "unat (pf_count st) < 2 ^ 31"
    and "same_output sk (put_bytes put e ys sk0)"
  shows "same_output (output_prefix put e st sk) (put_bytes put e (ys @
     (let fill = replicate (unat (pf_precision st) - unat (pf_count st)) (byte (if pf_zero_pad st then CHR ''0'' else CHR '' ''))
      in if pf_zero_pad st then prefix_text st @ fill else fill @ prefix_text st)) sk0)"
proof -
  have fill: "same_output (emit put e st (pf_precision st - pf_count st) (chr32 c) t) (put_bytes put e
      (zs @ replicate (unat (pf_precision st) - unat (pf_count st)) (byte c)) sk0)"
    if "same_output t (put_bytes put e zs sk0)" "ucast (chr32 c) = byte c" for c t zs
    using emit_put [OF assms(1) that(1), of "pf_precision st - pf_count st" "chr32 c"] that(2)
    by (simp add: nat_sint_diff [OF assms(2,3)])
  have c: "ucast (chr32 CHR ''0'') = byte CHR ''0''" "ucast (chr32 CHR '' '') = byte CHR '' ''"
    by (simp_all add: chr32_def byte_def)
  have pre: "same_output (if pf_prefix st \<noteq> 0 then emit put e st 1 (scast (pf_prefix st)) t else t)
      (put_bytes put e (zs @ prefix_text st) sk0)"
    if "same_output t (put_bytes put e zs sk0)" for t zs
    using emit_char [OF assms(1) that, of "scast (pf_prefix st)"] that
    by (simp add: prefix_text_def)
  show ?thesis
    using fill [OF pre [OF assms(4)] c(1)] pre [OF fill [OF assms(4) c(2)]]
    by (simp add: output_prefix_def Let_def)
qed

lemma output_field_put:
  fixes put :: "(u8 \<Rightarrow> 's \<Rightarrow> 's) option" and sk0 :: "'s sink"
  assumes p: "printing st" and w: "unat (pf_width st) < 2 ^ 31" and q: "unat (pf_precision st) < 2 ^ 31"
    and c: "unat (pf_count st) \<le> unat (pf_precision st)"
    and b: "body = (if pf_comma st then comma_groups (unat (pf_digits st)) xs else xs)" "unat (pf_digits st) < 3"
    and l: "unat (pf_count st) = length (prefix_text st @ body)"
    and r: "\<And>t :: 's sink. sink_within m buffer e t \<Longrightarrow> reads (sk_mem t) (argument_step st) (pf_argument st) xs"
    and o: "same_output sk (put_bytes put e ys sk0)" and s: "sink_within m buffer e sk0"
  shows "\<exists>sk'. output_field put e st sk = Some sk' \<and> same_output sk' (put_bytes put e (ys @ field_text st body) sk0)"
proof -
  have c31: "unat (pf_count st) < 2 ^ 31" using c q by linarith
  let ?i = "if pf_prefix st \<noteq> 0 then 1 else 0 :: u32"
  have i: "unat (pf_count st) = unat ?i + length body"
    using l by (simp add: prefix_text_def)
  note o1 = output_padding_put [OF p w q o, of False]
  note o2 = output_prefix_put [OF p q c31 o1]
  let ?sk = "output_prefix put e st (output_padding put e False st sk)"
  define before where "before = (if has st LEFT_JUSTIFY = False
       then replicate ((if has st PAD_TO_WIDTH then unat (pf_width st) else 0) - unat (pf_precision st)) (byte CHR '' '')
       else [])"
  define middle where "middle = (let fill = replicate (unat (pf_precision st) - unat (pf_count st)) (byte (if pf_zero_pad st then CHR ''0'' else CHR '' ''))
      in if pf_zero_pad st then prefix_text st @ fill else fill @ prefix_text st)"
  define zs where "zs = ys @ before @ middle"
  have zs: "same_output ?sk (put_bytes put e zs sk0)"
    using o2 unfolding before_def [symmetric] middle_def [symmetric] zs_def append_assoc .
  have core: "length (middle @ body) = unat (pf_precision st)"
    using c l by (auto simp: middle_def Let_def)
  have "\<exists>sk'. copy_argument put e st (pf_argument st) ?i (pf_digits st) ?sk = Some sk' \<and>
      same_output sk' (put_bytes put e (zs @ body) sk0)"
  proof (cases "pf_comma st")
    case True
    then show ?thesis
      using i b copy_commas [OF p True, of ?i "pf_digits st" xs m buffer e "pf_argument st" ?sk put zs sk0] r zs s c31 by simp
  next
    case False
    then show ?thesis
      using copy_plain [OF p False, of ?i xs m buffer e "pf_argument st" ?sk put zs sk0 "pf_digits st"] i b r zs s by simp
  qed
  then obtain sk1 where sk1: "copy_argument put e st (pf_argument st) ?i (pf_digits st) ?sk = Some sk1"
      "same_output sk1 (put_bytes put e (zs @ body) sk0)" by blast
  note o3 = output_padding_put [OF p w q sk1(2), of True]
  have "zs @ body @ (if has st LEFT_JUSTIFY = True
      then replicate ((if has st PAD_TO_WIDTH then unat (pf_width st) else 0) - unat (pf_precision st)) (byte CHR '' '')
      else []) = ys @ field_text st body"
    unfolding field_text_def padded_def Let_def middle_def [symmetric, unfolded Let_def]
    using core by (simp add: zs_def before_def)
  then show ?thesis
    using o3 sk1(1) by (simp add: output_field_def Let_def)
qed

subsection \<open>The length of a string argument\<close>

lemma argument_character_nonzero: "x \<noteq> 0 \<Longrightarrow> argument_character x y \<noteq> 0"
proof
  assume x: "x \<noteq> 0" and "argument_character x y = 0"
  moreover have "ucast (argument_character x y) = x"
    unfolding argument_character_def by (rule bit_word_eqI) (auto simp: bit_simps)
  ultimately show False by simp
qed

text \<open>The characters of a string that a precision lets through.\<close>

definition cut_to :: "nat option \<Rightarrow> u8 list \<Rightarrow> u8 list" where
  "cut_to prec xs = (case prec of None \<Rightarrow> xs | Some p \<Rightarrow> take p xs)"

lemma count_argument_length:
  assumes r: "reads m 1 (pf_argument st) xs" and z: "arg_byte m (pf_argument st) (int (length xs)) = Some 0"
    and l: "length xs < 2 ^ 31"
    and n: "n = (if has st PRECISION then min (unat (pf_precision st)) (length xs) else length xs)"
  shows "k \<le> n \<Longrightarrow> count_argument m st (of_nat k) = Some (of_nat n)"
proof (induction "n - k" arbitrary: k)
  case 0
  then have k: "k = n" by simp
  have n31: "n < 2 ^ 32" using n l by auto
  then have u: "uint (of_nat n :: u32) = int n" "unat (of_nat n :: u32) = n"
    by (simp_all add: uint_nat unat_of_nat take_bit_nat_eq_self)
  obtain x where x: "arg_byte m (pf_argument st) (int n) = Some x" "n < length xs \<Longrightarrow> x \<noteq> 0" "n = length xs \<Longrightarrow> x = 0"
  proof (cases "n < length xs")
    case True
    with r that show ?thesis by (auto simp: reads_def)
  next
    case False
    then have "n = length xs" using n by (auto split: if_splits)
    with z that show ?thesis by simp
  qed
  have "x = 0 \<or> \<not> (of_nat n < pf_precision st) \<and> has st PRECISION"
  proof (cases "n = length xs")
    case False
    with n show ?thesis by (auto simp: word_less_nat_alt u min_def split: if_splits)
  qed (use x(3) in blast)
  then show ?case
    unfolding k by (subst count_argument.simps) (auto simp: u x(1))
next
  case (Suc d)
  have "n \<le> length xs" using n by simp
  with Suc have k: "k < n" "k < length xs" by linarith+
  then have u: "uint (of_nat k :: u32) = int k" "unat (of_nat k :: u32) = k"
    using l by (simp_all add: uint_nat unat_of_nat take_bit_nat_eq_self)
  obtain x y where x: "arg_byte m (pf_argument st) (int k) = Some x" "x \<noteq> 0" "arg_byte m (pf_argument st) (int k + 1) = Some y" "arg_byte m (pf_argument st) (1 + int k) = Some y"
    using r k(2) by (auto simp: reads_def add.commute)
  have "of_nat k < pf_precision st \<or> \<not> has st PRECISION"
    using k n by (auto simp: word_less_nat_alt u split: if_splits)
  moreover have "count_argument m st (of_nat (Suc k)) = Some (of_nat n)"
    using Suc k by (intro Suc.hyps(1)) simp_all
  ultimately show ?case
    by (subst count_argument.simps) (auto simp: u x argument_character_nonzero add.commute)
qed

subsection \<open>Formats\<close>

record field_spec =
  fs_left :: bool
  fs_plus :: bool
  fs_blank :: bool
  fs_comma :: bool
  fs_zero :: bool
  fs_width :: "nat option"
  fs_prec :: "nat option"
  fs_long :: bool

definition decimal :: "nat \<Rightarrow> u8 list" where
  "decimal n = rev (numeral_rev 10 n)"

definition opt_char :: "bool \<Rightarrow> char \<Rightarrow> u8 list" where
  "opt_char b c = (if b then [byte c] else [])"

definition width_format :: "field_spec \<Rightarrow> u8 list" where
  "width_format fs = opt_char (fs_zero fs) CHR ''0'' @ (case fs_width fs of None \<Rightarrow> [] | Some w \<Rightarrow> decimal w)"

definition prec_format :: "field_spec \<Rightarrow> u8 list" where
  "prec_format fs = (case fs_prec fs of None \<Rightarrow> [] | Some p \<Rightarrow> byte CHR ''.'' # decimal p)"

definition field_format :: "field_spec \<Rightarrow> u8 list" where
  "field_format fs =
     opt_char (fs_left fs) CHR ''-'' @ opt_char (fs_plus fs) CHR ''+'' @ opt_char (fs_blank fs) CHR '' '' @
     opt_char (fs_comma fs) CHR '','' @ width_format fs @ prec_format fs @ opt_char (fs_long fs) CHR ''l''"

text \<open>A width of 0 and the flag \<open>0\<close> are the same text; widths and precisions stay small.\<close>

definition field_ok :: "field_spec \<Rightarrow> bool" where
  "field_ok fs \<longleftrightarrow> (case fs_width fs of None \<Rightarrow> True | Some w \<Rightarrow> 0 < w \<and> w < 2 ^ 30) \<and>
     (case fs_prec fs of None \<Rightarrow> True | Some p \<Rightarrow> p < 2 ^ 30)"

definition spec_width :: "field_spec \<Rightarrow> nat" where
  "spec_width fs = (case fs_width fs of None \<Rightarrow> 0 | Some w \<Rightarrow> w)"

text \<open>The state the flag loop leaves.\<close>

definition opt_flag :: "bool \<Rightarrow> u32 \<Rightarrow> pf_state \<Rightarrow> pf_state" where
  "opt_flag b f st = (if b then set_flag f st else st)"

definition spec_padding :: "field_spec \<Rightarrow> pf_state \<Rightarrow> pf_state" where
  "spec_padding fs st =
     (if width_format fs = [] then st
      else (set_flag PAD_TO_WIDTH (opt_flag (fs_zero fs) PREFIX_ZERO st))\<lparr>pf_width := of_nat (spec_width fs)\<rparr>)"

definition spec_precision :: "field_spec \<Rightarrow> pf_state \<Rightarrow> pf_state" where
  "spec_precision fs st =
     (case fs_prec fs of None \<Rightarrow> st | Some p \<Rightarrow> (set_flag PRECISION st)\<lparr>pf_precision := of_nat p\<rparr>)"

definition spec_state :: "field_spec \<Rightarrow> pf_state \<Rightarrow> pf_state" where
  "spec_state fs st =
     opt_flag (fs_long fs) LONG_TYPE (spec_precision fs (spec_padding fs
       (opt_flag (fs_comma fs) COMMA_TYPE (opt_flag (fs_blank fs) PREFIX_BLANK
         (opt_flag (fs_plus fs) PREFIX_SIGN (opt_flag (fs_left fs) LEFT_JUSTIFY st))))))"

lemma pf_format_set_flag [simp]:
  "set_flag f (st\<lparr>pf_format := p\<rparr>) = (set_flag f st)\<lparr>pf_format := p\<rparr>"
  "pf_format (set_flag f st) = pf_format st"
  by (simp_all add: set_flag_def)

lemma opt_flag_format [simp]:
  "opt_flag b f (st\<lparr>pf_format := p\<rparr>) = (opt_flag b f st)\<lparr>pf_format := p\<rparr>"
  "pf_format (opt_flag b f st) = pf_format st"
  by (simp_all add: opt_flag_def)

text \<open>The text that is next in the format string.\<close>

definition next_text :: "mem \<Rightarrow> pf_state \<Rightarrow> u8 list \<Rightarrow> bool" where
  "next_text m st xs \<longleftrightarrow> bytes m (pf_format st + 1) (length xs) = xs"

lemma next_text_Cons: "next_text m st (x # xs) \<longleftrightarrow>
    m (pf_format st + 1) = x \<and> next_text m (st\<lparr>pf_format := pf_format st + 1\<rparr>) xs"
  by (auto simp: next_text_def bytes_Suc)

lemma next_text_cong [simp]:
  "next_text m (set_flag f st) xs = next_text m st xs" "next_text m (opt_flag b f st) xs = next_text m st xs"
  by (simp_all add: next_text_def)

definition flag_of :: "char \<Rightarrow> u32" where
  "flag_of c = (if c = CHR ''.'' then PRECISION else if c = CHR ''-'' then LEFT_JUSTIFY
     else if c = CHR ''+'' then PREFIX_SIGN else if c = CHR '' '' then PREFIX_BLANK
     else if c = CHR '','' then COMMA_TYPE else LONG_TYPE)"

lemma parse_flag_char:
  assumes "c \<in> set ''.-+ ,l''" and "m (pf_format st + 1) = byte c"
  shows "parse_flag m st = Some (chr32 c, False, (set_flag (flag_of c) st)\<lparr>pf_format := pf_format st + 1\<rparr>)"
proof -
  consider "c = CHR ''.''" | "c = CHR ''-''" | "c = CHR ''+''" | "c = CHR '' ''" | "c = CHR '',''" | "c = CHR ''l''"
    using assms(1) by auto
  then show ?thesis
    using assms(2) by cases (simp_all add: parse_flag_def Let_def byte_def chr32_def flag_of_def)
qed

lemma parse_flags_char:
  assumes "c \<in> set ''.-+ ,l''" and "m (pf_format st + 1) = byte c"
  shows "parse_flags m st = parse_flags m ((set_flag (flag_of c) st)\<lparr>pf_format := pf_format st + 1\<rparr>)"
  by (subst parse_flags.simps) (simp add: parse_flag_char [of c m st, OF assms])

lemma parse_flags_opt:
  assumes c: "c \<in> set ''.-+ ,l''" and n: "next_text m st (opt_char b c @ rest)"
  shows "parse_flags m st =
      parse_flags m ((opt_flag b (flag_of c) st)\<lparr>pf_format := pf_format st + of_nat (length (opt_char b c))\<rparr>) \<and>
    next_text m ((opt_flag b (flag_of c) st)\<lparr>pf_format := pf_format st + of_nat (length (opt_char b c))\<rparr>) rest"
proof (cases b)
  case True
  with n have "m (pf_format st + 1) = byte c" "next_text m (st\<lparr>pf_format := pf_format st + 1\<rparr>) rest"
    by (simp_all add: opt_char_def next_text_Cons)
  with parse_flags_char [OF c, of m st] True show ?thesis
    by (simp add: opt_char_def opt_flag_def next_text_def)
next
  case False
  with n show ?thesis by (simp add: opt_char_def opt_flag_def)
qed


subsection \<open>Decimal numerals in a format\<close>

definition dec_digit :: "u8 \<Rightarrow> bool" where
  "dec_digit b \<longleftrightarrow> 48 \<le> unat b \<and> unat b \<le> 57"

lemma scast_dec_digit:
  assumes "dec_digit b"
  shows "scast b - chr32 CHR ''0'' = of_nat (digit_val b)"
    and "chr32 CHR ''0'' \<le> scast b \<and> scast b \<le> chr32 CHR ''9''"
proof -
  have "\<forall>n\<in>set [48..<58]. scast (of_nat n :: u8) - chr32 CHR ''0'' = of_nat (digit_val (of_nat n)) \<and>
      chr32 CHR ''0'' \<le> scast (of_nat n :: u8) \<and> scast (of_nat n :: u8) \<le> chr32 CHR ''9''"
    by (simp add: upt_rec chr32_def digit_val_def digit_of_def)
  moreover have "unat b \<in> set [48..<58]" using assms unfolding dec_digit_def set_upt by simp
  ultimately have "scast (of_nat (unat b) :: u8) - chr32 CHR ''0'' = of_nat (digit_val (of_nat (unat b))) \<and>
      chr32 CHR ''0'' \<le> scast (of_nat (unat b) :: u8) \<and> scast (of_nat (unat b) :: u8) \<le> chr32 CHR ''9''"
    by blast
  then show "scast b - chr32 CHR ''0'' = of_nat (digit_val b)"
    and "chr32 CHR ''0'' \<le> scast b \<and> scast b \<le> chr32 CHR ''9''"
    by (simp_all only: unat_word_inverse)
qed

lemma not_dec_digit: "\<not> dec_digit b \<Longrightarrow> \<not> (chr32 CHR ''0'' \<le> scast b \<and> scast b \<le> chr32 CHR ''9'')"
proof
  assume "\<not> dec_digit b" and "chr32 CHR ''0'' \<le> scast b \<and> scast b \<le> chr32 CHR ''9''"
  then have c: "48 \<le> unat (scast b :: u32)" "unat (scast b :: u32) \<le> 57"
    by (simp_all add: chr32_def word_le_nat_alt)
  have "unat b = unat (ucast (scast b :: u32) :: u8)" by simp
  also have "\<dots> = unat (scast b :: u32)"
    using c(2) unfolding unsigned_ucast_eq by (intro take_bit_nat_eq_self) simp
  finally show False using c \<open>\<not> dec_digit b\<close> by (simp add: dec_digit_def)
qed

lemma parse_number_digits:
  assumes "\<not> dec_digit (m (p + of_nat (length ds)))"
  shows "bytes m p (length ds) = ds \<Longrightarrow> \<forall>b\<in>set ds. dec_digit b \<Longrightarrow>
    parse_number m p (of_nat v) =
      Some (of_nat (foldl (\<lambda>v b. v * 10 + digit_val b) v ds), p + of_nat (length ds))"
  using assms
proof (induction ds arbitrary: p v)
  case Nil
  then show ?case
    using not_dec_digit [of "m p"] by (subst parse_number.simps) (auto simp: Let_def)
next
  case (Cons d ds)
  then have d: "m p = d" "dec_digit d" and ds: "bytes m (p + 1) (length ds) = ds"
    by (simp_all add: bytes_Suc)
  have "of_nat v * 10 + scast d - chr32 CHR ''0'' = (of_nat (v * 10 + digit_val d) :: u32)"
    using scast_dec_digit(1) [OF d(2)] by (simp add: algebra_simps)
  then show ?case
    using Cons.IH [OF ds, of "v * 10 + digit_val d"] Cons.prems scast_dec_digit(2) [OF d(2)]
    by (subst parse_number.simps) (simp only: Let_def d(1), simp add: add.assoc)
qed

lemma next_text_append: "next_text m st (xs @ ys) \<longleftrightarrow>
    next_text m st xs \<and> next_text m (st\<lparr>pf_format := pf_format st + of_nat (length xs)\<rparr>) ys"
  by (auto simp: next_text_def bytes_add add_ac append_eq_append_conv)

lemma dec_digit_numeral:
  "b \<in> set (numeral_rev 10 n) \<Longrightarrow> dec_digit b"
proof (induction "10 :: nat" n rule: numeral_rev.induct)
  case (1 v)
  have h: "dec_digit (hex_char d)" if "d < 10" for d
  proof -
    have "\<forall>d\<in>set [0..<10]. dec_digit (hex_char d)"
      by (simp add: upt_rec dec_digit_def hex_char_def m_hex_str_simps)
    with that show ?thesis by simp
  qed
  show ?case
  proof (cases "v < 10")
    case True
    with 1 h show ?thesis by (simp add: numeral_rev_small)
  next
    case False
    with 1 h [of "v mod 10"] show ?thesis by (auto simp: numeral_rev_step)
  qed
qed

lemma decimal_facts:
  "\<forall>b\<in>set (decimal n). dec_digit b" "foldl (\<lambda>v b. v * 10 + digit_val b) 0 (decimal n) = n" "decimal n \<noteq> []"
proof -
  show "foldl (\<lambda>v b. v * 10 + digit_val b) 0 (decimal n) = n"
    using number_numeral_rev [of 10 n] by (simp add: decimal_def number_def)
  show "decimal n \<noteq> []"
    by (simp add: decimal_def numeral_rev.simps [of 10 n])
qed (auto simp: decimal_def dest: dec_digit_numeral)

lemma last_numeral_rev: "0 < n \<Longrightarrow> last (numeral_rev 10 n) \<noteq> 48"
proof (induction "10 :: nat" n rule: numeral_rev.induct)
  case (1 v)
  show ?case
  proof (cases "v < 10")
    case True
    then have "v \<in> set [1..<10]" using "1.prems" unfolding set_upt by simp
    moreover have "\<forall>v\<in>set [1..<10]. hex_char v \<noteq> 48"
      by (simp add: upt_rec hex_char_def m_hex_str_simps)
    ultimately show ?thesis using True by (auto simp: numeral_rev_small)
  next
    case False
    then have "last (numeral_rev 10 (v div 10)) \<noteq> 48" using 1 by simp
    moreover have "numeral_rev 10 (v div 10) \<noteq> []" by (simp add: numeral_rev.simps [of 10 "v div 10"])
    ultimately show ?thesis using False by (simp add: numeral_rev_step)
  qed
qed

lemma hd_decimal: "0 < n \<Longrightarrow> hd (decimal n) \<noteq> 48"
  using last_numeral_rev [of n] by (simp add: decimal_def hd_rev)

text \<open>One number in the flag loop: a width before the period, the precision behind it.\<close>

definition number_state :: "u8 \<Rightarrow> nat \<Rightarrow> pf_state \<Rightarrow> pf_state" where
  "number_state b n st =
     (if has st PRECISION then st\<lparr>pf_precision := of_nat n\<rparr>
      else (set_flag PAD_TO_WIDTH (opt_flag (b = 48) PREFIX_ZERO st))\<lparr>pf_width := of_nat n\<rparr>)"

lemma parse_flag_digit:
  assumes "dec_digit (m (pf_format st + 1))"
  shows "parse_flag m st = (do {
      (count, format) \<leftarrow> parse_number m (pf_format st + 1) 0;
      Some (scast (m (pf_format st + 1)), False,
        (if has st PRECISION then st\<lparr>pf_format := format - 1, pf_precision := count\<rparr>
         else (set_flag PAD_TO_WIDTH (opt_flag (m (pf_format st + 1) = 48) PREFIX_ZERO st))
                \<lparr>pf_format := format - 1, pf_width := count\<rparr>)) })"
proof -
  let ?b = "m (pf_format st + 1)"
  have c: "48 \<le> unat (scast ?b :: u32)" "unat (scast ?b :: u32) \<le> 57"
    using scast_dec_digit(2) [OF assms] by (simp_all add: chr32_def word_le_nat_alt)
  have ne: "scast ?b \<noteq> chr32 CHR ''.''" "scast ?b \<noteq> chr32 CHR ''-''" "scast ?b \<noteq> chr32 CHR ''+''"
    "scast ?b \<noteq> chr32 CHR '' ''" "scast ?b \<noteq> chr32 CHR '',''" "scast ?b \<noteq> chr32 CHR ''L''"
    "scast ?b \<noteq> chr32 CHR ''l''" "scast ?b \<noteq> chr32 CHR ''*''"
    using c by (auto simp: chr32_def)
  have "?b = 48" if "scast ?b = chr32 CHR ''0''"
  proof -
    have "?b = ucast (scast ?b :: u32)" by simp
    also have "\<dots> = 48" unfolding that by (simp add: chr32_def)
    finally show ?thesis .
  qed
  then have z: "scast ?b = chr32 CHR ''0'' \<longleftrightarrow> ?b = 48" by (auto simp: chr32_def)
  show ?thesis
    using ne z scast_dec_digit(2) [OF assms]
    by (cases "has st PRECISION"; cases "?b = 48")
      (simp_all add: parse_flag_def Let_def opt_flag_def PREFIX_ZERO_def PRECISION_def)
qed

lemma format_commute:
  "st\<lparr>pf_format := p, pf_precision := w\<rparr> = st\<lparr>pf_precision := w, pf_format := p\<rparr>"
  "st\<lparr>pf_format := p, pf_width := w\<rparr> = st\<lparr>pf_width := w, pf_format := p\<rparr>"
  by simp_all

lemma parse_flags_number:
  assumes n: "next_text m st (d # ds @ r # rest)" and d: "\<forall>b\<in>set (d # ds). dec_digit b" and r: "\<not> dec_digit r"
    and v: "foldl (\<lambda>v b. v * 10 + digit_val b) 0 (d # ds) = v"
  shows "parse_flags m st = parse_flags m ((number_state d v st)\<lparr>pf_format := pf_format st + of_nat (length (d # ds))\<rparr>) \<and>
    next_text m ((number_state d v st)\<lparr>pf_format := pf_format st + of_nat (length (d # ds))\<rparr>) (r # rest)"
proof -
  have b: "bytes m (pf_format st + 1) (length (d # ds)) = d # ds"
    "bytes m (pf_format st + 1 + of_nat (length (d # ds))) (length (r # rest)) = r # rest"
    using n next_text_append [of m st "d # ds" "r # rest"]
    by (simp_all add: next_text_def add_ac)
  then have "m (pf_format st + 1 + of_nat (length (d # ds))) = r"
    by (simp add: bytes_Suc)
  then have p: "parse_number m (pf_format st + 1) (of_nat 0) = Some (of_nat v, pf_format st + 1 + of_nat (length (d # ds)))"
    using parse_number_digits [OF _ b(1) d, of 0] r v by simp
  have md: "m (pf_format st + 1) = d" using b(1) by (simp add: bytes_Suc)
  have "parse_flags m st = parse_flags m ((number_state d v st)\<lparr>pf_format := pf_format st + of_nat (length (d # ds))\<rparr>)"
    using p d md parse_flag_digit [of m st]
    by (subst parse_flags.simps) (simp add: number_state_def format_commute add_ac)
  moreover have "next_text m ((number_state d v st)\<lparr>pf_format := pf_format st + of_nat (length (d # ds))\<rparr>) (r # rest)"
    using b(2) by (simp add: next_text_def add_ac)
  ultimately show ?thesis ..
qed

lemma parse_width:
  assumes n: "next_text m st (width_format fs @ r # rest)" and r: "\<not> dec_digit r"
    and ok: "field_ok fs" and p: "\<not> has st PRECISION"
  shows "parse_flags m st = parse_flags m ((spec_padding fs st)\<lparr>pf_format := pf_format st + of_nat (length (width_format fs))\<rparr>) \<and>
    next_text m ((spec_padding fs st)\<lparr>pf_format := pf_format st + of_nat (length (width_format fs))\<rparr>) (r # rest)"
proof (cases "width_format fs")
  case Nil
  with n show ?thesis by (simp add: spec_padding_def)
next
  case (Cons d ds)
  have v: "foldl (\<lambda>v b. v * 10 + digit_val b) 0 (width_format fs) = spec_width fs"
    "\<forall>b\<in>set (width_format fs). dec_digit b"
    using decimal_facts
    by (auto simp: width_format_def spec_width_def opt_char_def byte_def dec_digit_def digit_val_def digit_of_def split: option.split)
  have "d = 48 \<longleftrightarrow> fs_zero fs"
    using Cons ok hd_decimal decimal_facts(3)
    by (cases "fs_width fs"; cases "fs_zero fs")
      (auto simp: width_format_def opt_char_def byte_def field_ok_def dest: arg_cong [of _ _ hd])
  then have "number_state d (spec_width fs) st = spec_padding fs st"
    using p Cons by (simp add: number_state_def spec_padding_def)
  then show ?thesis
    using parse_flags_number [of m st d ds r rest] n r v unfolding Cons by simp
qed

lemma parse_precision:
  assumes n: "next_text m st (prec_format fs @ r # rest)" and r: "\<not> dec_digit r"
  shows "parse_flags m st = parse_flags m ((spec_precision fs st)\<lparr>pf_format := pf_format st + of_nat (length (prec_format fs))\<rparr>) \<and>
    next_text m ((spec_precision fs st)\<lparr>pf_format := pf_format st + of_nat (length (prec_format fs))\<rparr>) (r # rest)"
proof (cases "fs_prec fs")
  case None
  with n show ?thesis by (simp add: spec_precision_def prec_format_def)
next
  case (Some p)
  let ?st = "(set_flag PRECISION st)\<lparr>pf_format := pf_format st + 1\<rparr>"
  obtain d ds where d: "decimal p = d # ds" using decimal_facts(3) by (cases "decimal p") auto
  have n1: "m (pf_format st + 1) = byte CHR ''.''" "next_text m ?st (d # ds @ r # rest)"
    using n Some d by (simp_all add: prec_format_def next_text_def bytes_Suc add.assoc)
  have "parse_flags m st = parse_flags m ?st"
    using parse_flags_char [of "CHR ''.''" m st] n1(1) by (simp add: flag_of_def)
  moreover have "has ?st PRECISION" by (simp add: PRECISION_def)
  then have "number_state d p ?st = (set_flag PRECISION st)\<lparr>pf_format := pf_format st + 1, pf_precision := of_nat p\<rparr>"
    by (simp add: number_state_def)
  moreover note parse_flags_number [OF n1(2) _ r, of p] decimal_facts [of p]
  ultimately show ?thesis
    using Some d by (simp add: spec_precision_def prec_format_def add.assoc)
qed

lemma parse_flags_done:
  assumes "m (pf_format st + 1) = byte c" and "c \<in> set ''pXxobudiscS%''"
  shows "parse_flags m st = Some (chr32 c, st\<lparr>pf_format := pf_format st + 1\<rparr>)"
proof -
  have "\<forall>c\<in>set ''pXxobudiscS%''. \<forall>st. m (pf_format st + 1) = byte c \<longrightarrow>
      parse_flag m st = Some (chr32 c, True, st\<lparr>pf_format := pf_format st + 1\<rparr>)"
    by (simp add: parse_flag_def Let_def byte_def chr32_def)
  from bspec [OF this assms(2)] assms(1)
  have "parse_flag m st = Some (chr32 c, True, st\<lparr>pf_format := pf_format st + 1\<rparr>)" by blast
  then show ?thesis by (subst parse_flags.simps) simp
qed

text \<open>The flag loop on the text of a field and the character of its type.\<close>

lemma has_opt_flag [simp]: "has (opt_flag b f st) g \<longleftrightarrow> has st g \<or> b \<and> f AND g \<noteq> 0"
  by (simp add: opt_flag_def)

lemma not_dec_digit_types: "c \<in> set ''pXxobudiscS%.l'' \<Longrightarrow> \<not> dec_digit (byte c)"
  by (auto simp: dec_digit_def byte_def)

definition adv :: "nat \<Rightarrow> pf_state \<Rightarrow> pf_state" where
  "adv k st = st\<lparr>pf_format := pf_format st + of_nat k\<rparr>"

lemma adv_simps [simp]:
  "set_flag f (adv k st) = adv k (set_flag f st)" "opt_flag b f (adv k st) = adv k (opt_flag b f st)"
  "spec_padding fs (adv k st) = adv k (spec_padding fs st)"
  "spec_precision fs (adv k st) = adv k (spec_precision fs st)"
  "adv j (adv k st) = adv (k + j) st" "has (adv k st) f = has st f"
  "pf_format (adv k st) = pf_format st + of_nat k"
  by (simp_all add: adv_def set_flag_def opt_flag_def spec_padding_def spec_precision_def add.assoc
      format_commute split: option.split)

lemma spec_format [simp]:
  "pf_format (spec_padding fs st) = pf_format st" "pf_format (spec_precision fs st) = pf_format st"
  by (simp_all add: spec_padding_def spec_precision_def split: option.split)

text \<open>\<open>parses m st st' rest\<close>: the loop gets from \<open>st\<close> to \<open>st'\<close>, with \<open>rest\<close> still to come.\<close>

definition parses :: "mem \<Rightarrow> pf_state \<Rightarrow> pf_state \<Rightarrow> u8 list \<Rightarrow> bool" where
  "parses m st st' rest \<longleftrightarrow> parse_flags m st = parse_flags m st' \<and> next_text m st' rest"

lemma parses_opt:
  "parses m st st' (opt_char b c @ rest) \<Longrightarrow> c \<in> set ''.-+ ,l'' \<Longrightarrow>
     parses m st (adv (length (opt_char b c)) (opt_flag b (flag_of c) st')) rest"
  using parse_flags_opt [of c m st' b rest] by (auto simp: parses_def adv_def)

lemma parses_flag:
  "parses m st st' (opt_char b CHR ''-'' @ rest) \<Longrightarrow>
     parses m st (adv (length (opt_char b CHR ''-'')) (opt_flag b LEFT_JUSTIFY st')) rest"
  "parses m st st' (opt_char b CHR ''+'' @ rest) \<Longrightarrow>
     parses m st (adv (length (opt_char b CHR ''+'')) (opt_flag b PREFIX_SIGN st')) rest"
  "parses m st st' (opt_char b CHR '' '' @ rest) \<Longrightarrow>
     parses m st (adv (length (opt_char b CHR '' '')) (opt_flag b PREFIX_BLANK st')) rest"
  "parses m st st' (opt_char b CHR '','' @ rest) \<Longrightarrow>
     parses m st (adv (length (opt_char b CHR '','')) (opt_flag b COMMA_TYPE st')) rest"
  "parses m st st' (opt_char b CHR ''l'' @ rest) \<Longrightarrow>
     parses m st (adv (length (opt_char b CHR ''l'')) (opt_flag b LONG_TYPE st')) rest"
  by (drule parses_opt, simp, simp add: flag_of_def)+

lemma parses_width:
  "parses m st st' (width_format fs @ r # rest) \<Longrightarrow> \<not> dec_digit r \<Longrightarrow> field_ok fs \<Longrightarrow> \<not> has st' PRECISION \<Longrightarrow>
     parses m st (adv (length (width_format fs)) (spec_padding fs st')) (r # rest)"
  using parse_width [of m st' fs r rest] by (auto simp: parses_def adv_def)

lemma parses_precision:
  "parses m st st' (prec_format fs @ r # rest) \<Longrightarrow> \<not> dec_digit r \<Longrightarrow>
     parses m st (adv (length (prec_format fs)) (spec_precision fs st')) (r # rest)"
  using parse_precision [of m st' fs r rest] by (auto simp: parses_def adv_def)

lemma parse_field:
  assumes n: "next_text m st (field_format fs @ [byte c])" and c: "c \<in> set ''pXxobudiscS%''"
    and ok: "field_ok fs" and p: "\<not> has st PRECISION"
  shows "parse_flags m st = Some (chr32 c, adv (length (field_format fs) + 1) (spec_state fs st))"
proof -
  let ?tail = "opt_char (fs_long fs) CHR ''l'' @ [byte c]"
  let ?n = "\<lambda>b c. length (opt_char b c)"
  have nd: "\<not> dec_digit (byte c)" "\<not> dec_digit (byte CHR ''l'')" "\<not> dec_digit (byte CHR ''.'')"
    by (rule not_dec_digit_types, use c in force)+
  obtain r rest where t: "?tail = r # rest" "\<not> dec_digit r"
    using nd(1,2) by (cases "fs_long fs") (simp_all add: opt_char_def)
  obtain r' rest' where t': "prec_format fs @ r # rest = r' # rest'" "\<not> dec_digit r'"
    using nd(3) t(2) by (cases "fs_prec fs") (simp_all add: prec_format_def)
  have "parses m st st (field_format fs @ [byte c])" using n by (simp add: parses_def)
  then have "parses m st st (opt_char (fs_left fs) CHR ''-'' @ opt_char (fs_plus fs) CHR ''+'' @
      opt_char (fs_blank fs) CHR '' '' @ opt_char (fs_comma fs) CHR '','' @ width_format fs @ r' # rest')"
    by (simp only: field_format_def t'(1) [symmetric] t(1) [symmetric] append_assoc)
  note flags = parses_flag(4) [OF parses_flag(3) [OF parses_flag(2) [OF parses_flag(1) [OF this]]], unfolded adv_simps]
  have np: "\<not> has (opt_flag (fs_comma fs) COMMA_TYPE (opt_flag (fs_blank fs) PREFIX_BLANK
        (opt_flag (fs_plus fs) PREFIX_SIGN (opt_flag (fs_left fs) LEFT_JUSTIFY st)))) PRECISION"
    using p by (simp add: flag_defs)
  note w = parses_width [OF flags t'(2) ok, unfolded adv_simps, OF np, folded t'(1)]
  note q = parses_flag(5) [OF parses_precision [OF w t(2), folded t(1)], unfolded adv_simps, folded spec_state_def]
  then obtain k where k: "k = length (field_format fs)" and
    "parses m st (adv k (spec_state fs st)) [byte c]"
    by (simp add: field_format_def add.assoc)
  then have "parse_flags m st = parse_flags m (adv k (spec_state fs st))"
    "m (pf_format (adv k (spec_state fs st)) + 1) = byte c"
    by (simp_all add: parses_def next_text_Cons)
  then show ?thesis
    using parse_flags_done [OF _ c, of m "adv k (spec_state fs st)"] k
    by (simp add: adv_def add.assoc)
qed

end
