(* ===== verification/Render.thy ===== *)
theory Render
  imports Format
begin

text \<open>
  What a format string means, and that \<open>printf.c\<close> implements it.  A format is a list of
  \<open>directive\<close>s: a plain character, \<open>%%\<close>, a character, a string or a number with its flags, width
  and precision.  \<open>directive_format\<close> is its text in the format string, \<open>directive_args\<close> the
  arguments it takes, \<open>render\<close> what it prints, \<open>directive_ok\<close> what it asks of its arguments.  The
  output of \<open>sprintf\<close> and \<open>printf\<close> is the concatenation of the renderings, cut off at the end of
  the buffer, and \<open>strtol\<close> reads back what \<open>%d\<close> prints.
\<close>

subsection \<open>What a directive prints\<close>

datatype number_type = Np | NX | Nx | No | Nb | Nu | Nd | Ni

fun type_char :: "number_type \<Rightarrow> char" where
  "type_char Np = CHR ''p''" | "type_char NX = CHR ''X''" | "type_char Nx = CHR ''x''"
| "type_char No = CHR ''o''" | "type_char Nb = CHR ''b''" | "type_char Nu = CHR ''u''"
| "type_char Nd = CHR ''d''" | "type_char Ni = CHR ''i''"

fun number_base :: "number_type \<Rightarrow> nat" where
  "number_base Nx = 16" | "number_base No = 8" | "number_base Nb = 2" | "number_base _ = 10"

text \<open>
  The number an argument stands for.  A short argument is an \<open>int\<close>: \<open>%x\<close> and \<open>%u\<close> read it as an
  unsigned one, \<open>%o\<close> and \<open>%b\<close> extend it to 64 bits.
\<close>

definition short :: "u64 \<Rightarrow> u32" where
  "short a = ucast a"

fun number_value :: "number_type \<Rightarrow> bool \<Rightarrow> u64 \<Rightarrow> int" where
  "number_value Np long a = sint a"
| "number_value Nx long a = (if long then uint a else uint (short a))"
| "number_value Nu long a = (if long then uint a else uint (short a))"
| "number_value No long a = (if long then uint a else uint (scast (short a) :: u64))"
| "number_value Nb long a = (if long then uint a else uint (scast (short a) :: u64))"
| "number_value _ long a = (if long then sint a else sint (short a))"

definition number_sign :: "number_type \<Rightarrow> field_spec \<Rightarrow> bool \<Rightarrow> u8 list" where
  "number_sign ty fs neg =
     (if neg then [byte CHR ''-'']
      else if fs_plus fs \<and> ty \<noteq> Nu \<and> ty \<noteq> Np then [byte CHR ''+'']
      else if fs_blank fs \<and> ty \<noteq> Np then [byte CHR '' ''] else [])"

text \<open>\<open>0\<close> pads with zeros, except with a precision, to the left, with decimal commas and for \<open>%p\<close>.\<close>

definition decimal_commas :: "number_type \<Rightarrow> field_spec \<Rightarrow> bool" where
  "decimal_commas ty fs \<longleftrightarrow> number_base ty = 10 \<and> fs_comma fs"

definition zero_padded :: "number_type \<Rightarrow> field_spec \<Rightarrow> bool" where
  "zero_padded ty fs \<longleftrightarrow> (fs_zero fs \<and> ty \<noteq> Np \<or> ty = NX) \<and> \<not> decimal_commas ty fs \<and> \<not> fs_left fs \<and>
     width_format fs \<noteq> [] \<and> fs_prec fs = None"

definition min_digits :: "number_type \<Rightarrow> field_spec \<Rightarrow> nat" where
  "min_digits ty fs = (if decimal_commas ty fs then 1 else case fs_prec fs of None \<Rightarrow> 1 | Some p \<Rightarrow> p)"

definition number_digit_text :: "number_type \<Rightarrow> field_spec \<Rightarrow> u64 \<Rightarrow> u8 list" where
  "number_digit_text ty fs a =
     (let mag = nat \<bar>number_value ty (fs_long fs) a\<bar>
      in if mag = 0 \<and> min_digits ty fs = 0 then [] else rev (numeral_rev (number_base ty) mag))"

definition render_number :: "number_type \<Rightarrow> field_spec \<Rightarrow> u64 \<Rightarrow> u8 list" where
  "render_number ty fs a =
     (let ds = number_digit_text ty fs a;
          body = (if fs_comma fs then commas ds else ds);
          sign = number_sign ty fs (number_value ty (fs_long fs) a < 0);
          least = (if zero_padded ty fs then spec_width fs else min_digits ty fs + length sign)
      in padded (fs_left fs) (spec_width fs)
           (sign @ replicate (least - length (sign @ body)) (byte CHR ''0'') @ body))"

text \<open>
  Strings and characters: the precision cuts the string, and what is missing to it is blank.
\<close>

definition render_string :: "nat \<Rightarrow> field_spec \<Rightarrow> u8 list \<Rightarrow> u8 list" where
  "render_string dflt fs xs =
     (let ys = cut_to (fs_prec fs) xs;
          p = (case fs_prec fs of None \<Rightarrow> dflt | Some p \<Rightarrow> p)
      in padded (fs_left fs) (spec_width fs) (replicate (p - length ys) (byte CHR '' '') @ ys))"

subsection \<open>The state after the flags\<close>

lemma has_spec_state:
  assumes "pf_flags st = 0"
  shows "has (spec_state fs st) LEFT_JUSTIFY = fs_left fs" "has (spec_state fs st) PREFIX_SIGN = fs_plus fs"
    "has (spec_state fs st) PREFIX_BLANK = fs_blank fs" "has (spec_state fs st) COMMA_TYPE = fs_comma fs"
    "has (spec_state fs st) LONG_TYPE = fs_long fs" "has (spec_state fs st) PREFIX_ZERO = fs_zero fs"
    "has (spec_state fs st) PAD_TO_WIDTH \<longleftrightarrow> width_format fs \<noteq> []"
    "has (spec_state fs st) PRECISION \<longleftrightarrow> fs_prec fs \<noteq> None"
    "\<not> has (spec_state fs st) ARGUMENT_REVERSED" "printing (spec_state fs st)"
    "\<not> has (spec_state fs st) UNSIGNED_TYPE"
proof -
  have z: "\<not> has st f" for f using assms by (simp add: has_def)
  note d = spec_state_def spec_padding_def spec_precision_def flag_defs z
  show "has (spec_state fs st) LEFT_JUSTIFY = fs_left fs" "has (spec_state fs st) PREFIX_SIGN = fs_plus fs"
    "has (spec_state fs st) PREFIX_BLANK = fs_blank fs" "has (spec_state fs st) COMMA_TYPE = fs_comma fs"
    "has (spec_state fs st) LONG_TYPE = fs_long fs" 
    "has (spec_state fs st) PRECISION \<longleftrightarrow> fs_prec fs \<noteq> None"
    "\<not> has (spec_state fs st) ARGUMENT_REVERSED" "printing (spec_state fs st)"
    "\<not> has (spec_state fs st) UNSIGNED_TYPE"
    by (auto simp: d split: option.split)
  show "has (spec_state fs st) PREFIX_ZERO = fs_zero fs" "has (spec_state fs st) PAD_TO_WIDTH \<longleftrightarrow> width_format fs \<noteq> []"
    by (auto simp: d width_format_def opt_char_def split: option.split)
qed

lemma spec_state_fields:
  "pf_args (spec_state fs st) = pf_args st" "pf_prefix (spec_state fs st) = pf_prefix st"
  "pf_comma (spec_state fs st) = pf_comma st" "pf_zero_pad (spec_state fs st) = pf_zero_pad st"
  "pf_value_buffer (spec_state fs st) = pf_value_buffer st" "pf_format (spec_state fs st) = pf_format st"
  "pf_digits (spec_state fs st) = pf_digits st"
  "pf_width (spec_state fs st) = (if width_format fs = [] then pf_width st else of_nat (spec_width fs))"
  "pf_precision (spec_state fs st) = (case fs_prec fs of None \<Rightarrow> pf_precision st | Some p \<Rightarrow> of_nat p)"
  by (auto simp: spec_state_def spec_padding_def spec_precision_def opt_flag_def set_flag_def split: option.split)

subsection \<open>Numbers\<close>

lemma sint_scast_u32 [simp]: "sint (scast (x :: u32) :: u64) = sint x"
  using sint_greater_eq [of x] sint_less [of x]
  by (simp add: signed_scast_eq signed_take_bit_int_eq_self)

lemma ucast_scast_u32: "ucast (scast (x :: u32) :: u64) = x"
  by (rule bit_word_eqI) (auto simp: bit_simps)

lemma unat_sint_nonneg: "0 \<le> sint (v :: u64) \<Longrightarrow> unat v = nat \<bar>sint v\<bar>"
  using unsigned_less [of v, where 'a = int] by (simp add: sint_word64 split: if_splits)

lemma unat_sint_neg:
  assumes "sint (v :: u64) < 0"
  shows "unat (- v) = nat \<bar>sint v\<bar>"
proof -
  have "sint v = uint v - 2 ^ 64" using assms unsigned_less [of v, where 'a = int] by (simp add: sint_word64 split: if_splits)
  moreover have "uint (- v) = 2 ^ 64 - uint v" using assms by (intro uint_neg_word) auto
  moreover have "unat (- v) = nat (uint (- v))" by simp
  ultimately show ?thesis using uint_lt2p [of v] by simp
qed

lemma has_clear_push: "n < 32 \<Longrightarrow> has (clear_flag f st) (push_bit n 1) \<longleftrightarrow> has st (push_bit n 1) \<and> \<not> bit f n"
  by (simp only: has_push_bit) (simp add: clear_flag_def bit_simps)

definition is_flag :: "u32 \<Rightarrow> bool" where
  "is_flag f \<longleftrightarrow> f \<in> (\<lambda>n. push_bit n 1) ` {0, 1, 2, 3, 4, 6, 9, 11, 12, 13, 14}"

lemma is_flag_simps [simp]:
  "is_flag LEFT_JUSTIFY" "is_flag PREFIX_SIGN" "is_flag PREFIX_BLANK" "is_flag COMMA_TYPE" "is_flag LONG_TYPE"
  "is_flag PREFIX_ZERO" "is_flag PAD_TO_WIDTH" "is_flag PRECISION" "is_flag ARGUMENT_REVERSED"
  "is_flag COUNT_ONLY_NO_PRINT" "is_flag UNSIGNED_TYPE"
  unfolding is_flag_def flag_defs image_insert by blast+

lemma flags_distinct:
  "distinct [LEFT_JUSTIFY, PREFIX_SIGN, PREFIX_BLANK, COMMA_TYPE, LONG_TYPE, PREFIX_ZERO, PAD_TO_WIDTH, PRECISION,
      ARGUMENT_REVERSED, COUNT_ONLY_NO_PRINT, UNSIGNED_TYPE]"
  by (simp add: flag_defs)

lemmas flag_neq [simp] = flags_distinct [simplified] flags_distinct [unfolded distinct_rev [symmetric, of "[_, _, _, _, _, _, _, _, _, _, _]"], simplified]

lemma is_flagD:
  assumes "is_flag f" obtains n where "n < 32" "f = push_bit n 1"
proof -
  from assms obtain n where "f = push_bit n 1" "n \<in> {0, 1, 2, 3, 4, 6, 9, 11, 12, 13, 14}"
    unfolding is_flag_def by blast
  then show ?thesis by (intro that [of n]) auto
qed

lemma bit_flag: "i < 32 \<Longrightarrow> bit (push_bit j 1 :: u32) i \<longleftrightarrow> i = j"
  by (auto simp: bit_push_bit_iff bit_1_iff simp del: push_bit_of_1)

lemma flag_eq_iff: "i < 32 \<Longrightarrow> (push_bit i 1 :: u32) = push_bit j 1 \<longleftrightarrow> i = j"
  using bit_flag [of i i] bit_flag [of i j] by metis

lemma has_set_single: "is_flag f \<Longrightarrow> is_flag g \<Longrightarrow> has (set_flag f st) g \<longleftrightarrow> has st g \<or> f = g"
proof -
  assume "is_flag f" "is_flag g"
  then obtain i j where i: "i < 32" "f = push_bit i 1" and j: "j < 32" "g = push_bit j 1"
    by (elim is_flagD)
  have "f AND g \<noteq> 0 \<longleftrightarrow> bit f j" "f = g \<longleftrightarrow> i = j"
    using has_push_bit [OF j(1), of "undefined\<lparr>pf_flags := f\<rparr>"] flag_eq_iff [OF i(1), of j] i j by (simp_all add: has_def)
  moreover have "bit f j \<longleftrightarrow> i = j" using bit_flag [OF j(1), of i] i by (auto simp del: push_bit_of_1)
  ultimately show ?thesis by simp
qed

lemma has_clear_flags:
  assumes "is_flag f"
  shows "is_flag g \<Longrightarrow> has (clear_flag g st) f \<longleftrightarrow> f \<noteq> g \<and> has st f"
    "has (clear_flag (PREFIX_BLANK OR PREFIX_SIGN OR PREFIX_ZERO OR LONG_TYPE) st) f \<longleftrightarrow>
       f \<notin> {PREFIX_BLANK, PREFIX_SIGN, PREFIX_ZERO, LONG_TYPE} \<and> has st f"
proof -
  obtain n where n: "n < 32" "f = push_bit n 1" using assms by (rule is_flagD)
  have b: "bit g n \<longleftrightarrow> f = g" if g: "is_flag g" for g
  proof -
    obtain i where "i < 32" "g = push_bit i 1" using g by (rule is_flagD)
    with n show ?thesis by (simp only: bit_flag flag_eq_iff)
  qed
  have c: "has (clear_flag g st) f \<longleftrightarrow> has st f \<and> \<not> bit g n" for g
    using has_clear_push [OF n(1)] n(2) by simp
  show "is_flag g \<Longrightarrow> has (clear_flag g st) f \<longleftrightarrow> f \<noteq> g \<and> has st f"
    unfolding c using b by blast
  show "has (clear_flag (PREFIX_BLANK OR PREFIX_SIGN OR PREFIX_ZERO OR LONG_TYPE) st) f \<longleftrightarrow>
       f \<notin> {PREFIX_BLANK, PREFIX_SIGN, PREFIX_ZERO, LONG_TYPE} \<and> has st f"
    unfolding c bit_or_iff using b by auto
qed

definition field_parsed :: "field_spec \<Rightarrow> pf_state \<Rightarrow> bool" where
  "field_parsed fs st \<longleftrightarrow>
     has st LEFT_JUSTIFY = fs_left fs \<and> has st PREFIX_SIGN = fs_plus fs \<and> has st PREFIX_BLANK = fs_blank fs \<and>
     has st COMMA_TYPE = fs_comma fs \<and> has st LONG_TYPE = fs_long fs \<and> has st PREFIX_ZERO = fs_zero fs \<and>
     (has st PAD_TO_WIDTH \<longleftrightarrow> width_format fs \<noteq> []) \<and> (has st PRECISION \<longleftrightarrow> fs_prec fs \<noteq> None) \<and>
     \<not> has st ARGUMENT_REVERSED \<and> printing st \<and> \<not> has st UNSIGNED_TYPE \<and>
     pf_prefix st = 0 \<and> \<not> pf_comma st \<and> \<not> pf_zero_pad st \<and> pf_digits st = 0 \<and>
     unat (pf_width st) = spec_width fs \<and>
     unat (pf_precision st) = (case fs_prec fs of None \<Rightarrow> 1 | Some p \<Rightarrow> p)"

lemma spec_parsed:
  assumes "field_ok fs" and "\<not> has st COUNT_ONLY_NO_PRINT"
  shows "field_parsed fs (spec_state fs (reset_state st))"
proof -
  let ?st = "reset_state st"
  have "pf_flags ?st = 0" using assms(2) by (simp add: reset_state_def has_def)
  note h = has_spec_state [OF this]
  have u: "unat (of_nat n :: u32) = n" if "n < 2 ^ 30" for n
    using that by (simp add: unat_of_nat take_bit_nat_eq_self)
  have "spec_width fs < 2 ^ 30" "width_format fs = [] \<Longrightarrow> spec_width fs = 0"
    using assms(1) decimal_facts(3) by (auto simp: field_ok_def spec_width_def width_format_def split: option.splits)
  then have "unat (pf_width (spec_state fs ?st)) = spec_width fs"
    by (auto simp: spec_state_fields u reset_state_def)
  moreover have "unat (pf_precision (spec_state fs ?st)) = (case fs_prec fs of None \<Rightarrow> 1 | Some p \<Rightarrow> p)"
    using assms(1) by (auto simp: spec_state_fields u field_ok_def reset_state_def split: option.splits)
  ultimately show ?thesis
    by (simp add: field_parsed_def h spec_state_fields) (simp add: reset_state_def)
qed

text \<open>What the numeric conversion has fixed when it turns to the digits.\<close>

definition number_ready :: "number_type \<Rightarrow> field_spec \<Rightarrow> u64 \<Rightarrow> pf_state \<Rightarrow> bool" where
  "number_ready ty fs a st \<longleftrightarrow>
     has st LEFT_JUSTIFY = fs_left fs \<and> (has st PAD_TO_WIDTH \<longleftrightarrow> width_format fs \<noteq> []) \<and>
     (has st PRECISION \<longleftrightarrow> fs_prec fs \<noteq> None) \<and> printing st \<and>
     (has st PREFIX_ZERO \<longleftrightarrow> (fs_zero fs \<and> ty \<noteq> Np \<or> ty = NX) \<and> \<not> decimal_commas ty fs) \<and>
     pf_comma st = fs_comma fs \<and> prefix_text st = number_sign ty fs (number_value ty (fs_long fs) a < 0) \<and>
     unat (pf_width st) = spec_width fs \<and> unat (pf_precision st) = min_digits ty fs"

definition type_state :: "number_type \<Rightarrow> pf_state \<Rightarrow> pf_state" where
  "type_state ty st = (case ty of
       Np \<Rightarrow> set_flag LONG_TYPE (clear_flag (PREFIX_BLANK OR PREFIX_SIGN OR PREFIX_ZERO OR LONG_TYPE) st)
     | NX \<Rightarrow> set_flag PREFIX_ZERO st
     | Nx \<Rightarrow> st\<lparr>pf_comma := False\<rparr>
     | Nu \<Rightarrow> set_flag UNSIGNED_TYPE (clear_flag PREFIX_SIGN st)
     | _ \<Rightarrow> st)"

lemma select_radix_type:
  "select_radix (chr32 (type_char ty)) st = (of_nat (number_base ty), type_state ty st)"
  by (cases ty) (simp_all add: select_radix_def type_state_def chr32_def)

lemma type_state_fields [simp]:
  "pf_prefix (type_state ty st) = pf_prefix st" "pf_comma (type_state ty st) = (pf_comma st \<and> ty \<noteq> Nx)"
  "pf_width (type_state ty st) = pf_width st" "pf_precision (type_state ty st) = pf_precision st"
  "pf_args (type_state ty st) = pf_args st" "pf_format (type_state ty st) = pf_format st"
  "pf_value_buffer (type_state ty st) = pf_value_buffer st"
  by (cases ty; simp add: type_state_def set_flag_def clear_flag_def)+

lemma has_type_state:
  assumes "is_flag f"
  shows "has (type_state ty st) f \<longleftrightarrow> (case ty of
       Np \<Rightarrow> f = LONG_TYPE \<or> f \<notin> {PREFIX_BLANK, PREFIX_SIGN, PREFIX_ZERO} \<and> has st f
     | NX \<Rightarrow> f = PREFIX_ZERO \<or> has st f
     | Nu \<Rightarrow> f = UNSIGNED_TYPE \<or> f \<noteq> PREFIX_SIGN \<and> has st f
     | _ \<Rightarrow> has st f)"
  using assms
  by (cases ty) (auto simp: type_state_def has_set_single has_clear_flags simp del: has_set_flag has_clear_flag)

lemma type_state_parsed:
  fixes ty :: number_type
  assumes "field_parsed fs st"
  defines "st1 \<equiv> type_state ty st"
  shows "has st1 LEFT_JUSTIFY = fs_left fs" "has st1 PAD_TO_WIDTH \<longleftrightarrow> width_format fs \<noteq> []"
    "has st1 PRECISION \<longleftrightarrow> fs_prec fs \<noteq> None" "printing st1" "has st1 COMMA_TYPE = fs_comma fs"
    "has st1 PREFIX_SIGN \<longleftrightarrow> fs_plus fs \<and> ty \<noteq> Nu \<and> ty \<noteq> Np" "has st1 PREFIX_BLANK \<longleftrightarrow> fs_blank fs \<and> ty \<noteq> Np"
    "has st1 PREFIX_ZERO \<longleftrightarrow> fs_zero fs \<and> ty \<noteq> Np \<or> ty = NX" "has st1 LONG_TYPE \<longleftrightarrow> fs_long fs \<or> ty = Np"
    "has st1 UNSIGNED_TYPE \<longleftrightarrow> ty = Nu"
  using assms by (cases ty; simp add: has_type_state field_parsed_def)+

lemma scast_nonneg_u32: "0 \<le> sint (x :: u32) \<Longrightarrow> scast x = (ucast x :: u64)"
proof (rule scast_eq_ucast)
  assume "0 \<le> sint x"
  then have "uint x < 2 ^ 31" using unsigned_less [of x, where 'a = int] by (simp add: sint_word32 split: if_splits)
  then have "int (unat x) < int (2 ^ 31)" by simp
  then show "unat x < 2 ^ 31" by (simp only: of_nat_less_iff)
qed

lemma uint_ucast_u32 [simp]: "uint (ucast (x :: u32) :: u64) = uint x"
  using unsigned_less [of x, where 'a = int] by (simp add: unsigned_ucast_eq take_bit_int_eq_self)

lemma fetch_value_type:
  assumes "has st1 LONG_TYPE \<longleftrightarrow> long \<or> ty = Np"
  shows "ty \<in> {Np, NX, Nd, Ni} \<Longrightarrow> sint (fetch_value (chr32 (type_char ty)) a st1) = number_value ty long a"
    and "ty \<in> {Nx, No, Nb} \<Longrightarrow> uint (fetch_value (chr32 (type_char ty)) a st1) = number_value ty long a"
    and "ty = Nu \<Longrightarrow> uint (if has st1 LONG_TYPE then fetch_value (chr32 (type_char ty)) a st1
       else ucast (ucast (fetch_value (chr32 (type_char ty)) a st1) :: u32)) = number_value ty long a"
proof -
  show "sint (fetch_value (chr32 (type_char ty)) a st1) = number_value ty long a" if "ty \<in> {Np, NX, Nd, Ni}"
    using that assms by (elim insertE) (auto simp: fetch_value_def Let_def chr32_def short_def)
  show "uint (fetch_value (chr32 (type_char ty)) a st1) = number_value ty long a" if "ty \<in> {Nx, No, Nb}"
    using that assms scast_nonneg_u32 [of "short a"]
    by (elim insertE) (auto simp: fetch_value_def Let_def chr32_def short_def ucast_scast_u32 not_less)
  show "uint (if has st1 LONG_TYPE then fetch_value (chr32 (type_char ty)) a st1
       else ucast (ucast (fetch_value (chr32 (type_char ty)) a st1) :: u32)) = number_value ty long a" if "ty = Nu"
    using that assms by (auto simp: fetch_value_def Let_def chr32_def short_def ucast_scast_u32)
qed

lemma prefix_text_simps [simp]:
  "prefix_text (st\<lparr>pf_prefix := c\<rparr>) = (if c = 0 then [] else [c])"
  "prefix_text (st\<lparr>pf_precision := w\<rparr>) = prefix_text st" "prefix_text (st\<lparr>pf_comma := b\<rparr>) = prefix_text st"
  "prefix_text (st\<lparr>pf_args := as\<rparr>) = prefix_text st"
  "prefix_text (set_flag f st) = prefix_text st" "prefix_text (clear_flag f st) = prefix_text st"
  by (simp_all add: prefix_text_def set_flag_def clear_flag_def)

lemma flag_fields [simp]:
  "pf_comma (set_flag f st) = pf_comma st" "pf_comma (clear_flag f st) = pf_comma st"
  "pf_width (set_flag f st) = pf_width st" "pf_width (clear_flag f st) = pf_width st"
  "pf_precision (set_flag f st) = pf_precision st" "pf_precision (clear_flag f st) = pf_precision st"
  "pf_args (set_flag f st) = pf_args st" "pf_args (clear_flag f st) = pf_args st"
  "pf_value_buffer (set_flag f st) = pf_value_buffer st" "pf_value_buffer (clear_flag f st) = pf_value_buffer st"
  "pf_format (clear_flag f st) = pf_format st" "pf_count (set_flag f st) = pf_count st"
  "pf_prefix (set_flag f st) = pf_prefix st" "pf_digits (set_flag f st) = pf_digits st"
  "pf_argument (set_flag f st) = pf_argument st" "pf_zero_pad (set_flag f st) = pf_zero_pad st"
  by (simp_all add: set_flag_def clear_flag_def)

lemma number_prefix_fields [simp]:
  "has (number_prefix st) f = has st f" "pf_width (number_prefix st) = pf_width st"
  "pf_precision (number_prefix st) = pf_precision st" "pf_args (number_prefix st) = pf_args st"
  "pf_value_buffer (number_prefix st) = pf_value_buffer st" "pf_format (number_prefix st) = pf_format st"
  "pf_comma (number_prefix st) \<longleftrightarrow> pf_comma st \<or> has st COMMA_TYPE"
  "pf_prefix (number_prefix st) =
     (if has st PREFIX_SIGN then byte CHR ''+'' else if has st PREFIX_BLANK then byte CHR '' '' else pf_prefix st)"
  by (simp_all add: number_prefix_def Let_def)

text \<open>Sign and value: what \<open>value_to_string\<close> gets, and the prefix.\<close>

lemma decimal_sign_ready:
  fixes ty :: number_type
  assumes p: "field_parsed fs st" and a: "pf_args st = a # as"
    and least: "number_value ty (fs_long fs) a \<noteq> - (2 ^ 63)"
  defines "st1 \<equiv> type_state ty st"
  obtains v st2 where
    "decimal_sign (of_nat (number_base ty)) (fetch_value (chr32 (type_char ty)) a st1)
       (number_prefix (st1\<lparr>pf_args := as\<rparr>)) = Some (v, st2)"
    "unat v = nat \<bar>number_value ty (fs_long fs) a\<bar>" "number_ready ty fs a st2"
    "pf_args st2 = as" "pf_format st2 = pf_format st" "pf_value_buffer st2 = pf_value_buffer st"
proof -
  note t = type_state_parsed [OF p, of ty, folded st1_def]
  note val = fetch_value_type [OF t(9), of a]
  let ?w = "fetch_value (chr32 (type_char ty)) a st1"
  let ?p = "number_prefix (st1\<lparr>pf_args := as\<rparr>)"
  let ?c = "if pf_comma ?p then (clear_flag PREFIX_ZERO ?p)\<lparr>pf_precision := 1\<rparr> else ?p"
  have pr: "pf_prefix st = 0" "\<not> pf_comma st" "unat (pf_width st) = spec_width fs"
    "unat (pf_precision st) = (case fs_prec fs of None \<Rightarrow> 1 | Some p \<Rightarrow> p)"
    using p by (simp_all add: field_parsed_def)
  have f1: "pf_prefix st1 = 0" "\<not> pf_comma st1" "pf_width st1 = pf_width st" "pf_precision st1 = pf_precision st"
    "pf_format st1 = pf_format st" "pf_value_buffer st1 = pf_value_buffer st"
    using pr by (simp_all add: st1_def)
  have nz: "byte CHR ''+'' \<noteq> 0" "byte CHR '' '' \<noteq> 0" "byte CHR ''-'' \<noteq> 0" by (simp_all add: byte_def)
  have sign: "prefix_text ?p = number_sign ty fs False"
    using nz t(6,7) f1 by (auto simp: prefix_text_def number_sign_def)
  show ?thesis
  proof (cases "number_base ty = 10")
    case False
    then have ty: "ty \<in> {Nx, No, Nb}" by (cases ty) auto
    then have b: "(of_nat (number_base ty) :: u32) \<noteq> 10" by auto
    have nn: "0 \<le> number_value ty (fs_long fs) a" using val(2) [OF ty] by (metis uint_ge_0)
    have "unat ?w = nat \<bar>number_value ty (fs_long fs) a\<bar>"
      using val(2) [OF ty] nn by (metis abs_of_nonneg unat_eq_nat_uint)
    moreover have "number_ready ty fs a ?p"
      using t f1 pr sign nn False ty
      by (auto simp: number_ready_def decimal_commas_def min_digits_def not_less)
    ultimately show ?thesis
      using b f1 by (intro that [of ?w ?p]) (simp_all add: decimal_sign_def)
  next
    case True
    then have b: "(of_nat (number_base ty) :: u32) = 10" by simp
    have c: "has ?c LEFT_JUSTIFY = fs_left fs" "has ?c PAD_TO_WIDTH \<longleftrightarrow> width_format fs \<noteq> []"
      "has ?c PRECISION \<longleftrightarrow> fs_prec fs \<noteq> None" "printing ?c" "pf_comma ?c = fs_comma fs"
      "has ?c PREFIX_ZERO \<longleftrightarrow> (fs_zero fs \<and> ty \<noteq> Np \<or> ty = NX) \<and> \<not> decimal_commas ty fs"
      "has ?c LONG_TYPE \<longleftrightarrow> fs_long fs \<or> ty = Np" "has ?c UNSIGNED_TYPE \<longleftrightarrow> ty = Nu"
      "pf_width ?c = pf_width st" "unat (pf_precision ?c) = min_digits ty fs" "prefix_text ?c = prefix_text ?p"
      "pf_args ?c = as" "pf_format ?c = pf_format st" "pf_value_buffer ?c = pf_value_buffer st"
      using t f1 pr True
      by (simp_all add: has_clear_flags decimal_commas_def min_digits_def del: has_clear_flag)
    have ds: "decimal_sign (of_nat (number_base ty)) ?w ?p =
        (if sint ?w < 0 \<and> \<not> has ?c UNSIGNED_TYPE
         then if sint ?w = - (2 ^ 63) then None
              else Some (- ?w, (set_flag PREFIX_SIGN ?c)\<lparr>pf_prefix := byte CHR ''-''\<rparr>)
         else if has ?c UNSIGNED_TYPE \<and> \<not> has ?c LONG_TYPE then Some (ucast (ucast ?w :: u32), ?c) else Some (?w, ?c))"
      by (simp only: decimal_sign_def b Let_def if_True simp_thms)
    have ready: "number_ready ty fs a ?c" if "0 \<le> number_value ty (fs_long fs) a"
      using that c sign pr by (simp add: number_ready_def not_less)
    show ?thesis
    proof (cases "ty = Nu")
      case True
      let ?v = "if has ?c LONG_TYPE then ?w else ucast (ucast ?w :: u32)"
      have "uint ?v = number_value ty (fs_long fs) a" using val(3) [OF True] c(7) t(9) by simp
      moreover from this have "0 \<le> number_value ty (fs_long fs) a" by (metis uint_ge_0)
      ultimately show ?thesis
        using ready c ds True
        by (intro that [of ?v ?c]) (simp, metis abs_of_nonneg unat_eq_nat_uint, simp_all)
    next
      case False
      then have ty: "ty \<in> {Np, NX, Nd, Ni}" using True by (cases ty) auto
      have w: "sint ?w = number_value ty (fs_long fs) a" by (rule val(1) [OF ty])
      show ?thesis
      proof (cases "sint ?w < 0")
        case neg: True
        let ?n = "(set_flag PREFIX_SIGN ?c)\<lparr>pf_prefix := byte CHR ''-''\<rparr>"
        have "number_ready ty fs a ?n"
          using c pr neg w nz(3)
          by (simp add: number_ready_def has_set_single number_sign_def del: has_set_flag)
        moreover have "unat (- ?w) = nat \<bar>number_value ty (fs_long fs) a\<bar>"
          using unat_sint_neg [OF neg] w by simp
        ultimately show ?thesis
          using c ds neg False least w by (intro that [of "- ?w" ?n]) simp_all
      next
        case nonneg: False
        have "unat ?w = nat \<bar>number_value ty (fs_long fs) a\<bar>"
          using unat_sint_nonneg [of ?w] nonneg w by simp
        then show ?thesis
          using c ds nonneg False ready w by (intro that [of ?w ?c]) simp_all
      qed
    qed
  qed
qed

lemma number_base_range: "2 \<le> number_base ty" "number_base ty \<le> 16" "unat (of_nat (number_base ty) :: u32) = number_base ty"
  by (cases ty; simp)+

definition mag_digits :: "number_type \<Rightarrow> field_spec \<Rightarrow> u64 \<Rightarrow> u8 list" where
  "mag_digits ty fs a = numeral_rev (number_base ty) (nat \<bar>number_value ty (fs_long fs) a\<bar>)"

text \<open>
  \<open>value_buffer\<close> has room for 37 digits, and copying reads the byte behind the first one; the
  least \<open>int64_t\<close> cannot be negated.
\<close>

definition number_fits :: "number_type \<Rightarrow> field_spec \<Rightarrow> u64 \<Rightarrow> bool" where
  "number_fits ty fs a \<longleftrightarrow> length (mag_digits ty fs a) \<le> 36 \<and> number_value ty (fs_long fs) a \<noteq> - (2 ^ 63)"

definition number_body :: "number_type \<Rightarrow> field_spec \<Rightarrow> u64 \<Rightarrow> u8 list" where
  "number_body ty fs a =
     (if fs_comma fs then commas (number_digit_text ty fs a) else number_digit_text ty fs a)"

lemma unat_small: "n < 2 ^ 32 \<Longrightarrow> unat (of_nat n :: u32) = n"
  by (simp add: unat_of_nat take_bit_nat_eq_self)

lemma unat_group_digits:
  assumes "n < 2 ^ 31"
  shows "unat (if (of_nat n :: u32) mod 3 \<noteq> 0 then 3 - of_nat n mod 3 else 0 :: u32) = (3 - n mod 3) mod 3"
proof -
  have m: "unat ((of_nat n :: u32) mod 3) = n mod 3"
    using assms by (simp add: unat_mod unat_small)
  then have z: "(of_nat n :: u32) mod 3 = 0 \<longleftrightarrow> n mod 3 = 0" by (metis unat_eq_zero)
  have "(of_nat n :: u32) mod 3 \<le> 3" unfolding word_le_nat_alt m by simp
  then have "unat (3 - (of_nat n :: u32) mod 3) = 3 - n mod 3" by (simp add: unat_sub m)
  then show ?thesis using z by (cases "n mod 3 = 0") simp_all
qed

lemma number_digits_ready:
  assumes r: "number_ready ty fs a st" and v: "unat v = nat \<bar>number_value ty (fs_long fs) a\<bar>"
    and vb: "length (pf_value_buffer st) = 38" and f: "number_fits ty fs a"
  defines "ds \<equiv> number_digit_text ty fs a"
  obtains buf count where
    "number_digits (of_nat (number_base ty)) v st = Some (st\<lparr>pf_value_buffer := buf,
       pf_argument := InFrame buf (int (length ds)),
       pf_digits := (if (of_nat (length ds) :: u32) mod 3 \<noteq> 0 then 3 - of_nat (length ds) mod 3 else 0), pf_count := count\<rparr>)"
    "unat count = length (number_body ty fs a)" "length buf = 38"
    "\<And>m. reads m (-1) (InFrame buf (int (length ds))) ds" "length ds \<le> 36"
proof -
  define ns where "ns = mag_digits ty fs a"
  have ns: "ns = numeral_rev (number_base ty) (unat v)" by (simp add: ns_def mag_digits_def v)
  have l: "length ns \<le> 36" using f by (simp add: ns_def number_fits_def)
  define buf where "buf = take 1 ((pf_value_buffer st)[0 := 0]) @ ns @ drop (1 + length ns) ((pf_value_buffer st)[0 := 0])"
  have "pf_value_buffer st \<noteq> []" using vb by auto
  then have vts: "value_to_string (pf_value_buffer st) v (of_nat (number_base ty)) = Some (buf, length ns)"
    using value_to_string_loop_digits [of "of_nat (number_base ty)" "(pf_value_buffer st)[0 := 0]" 0 v]
      number_base_range [of ty] l vb
    by (simp add: value_to_string_def ns [symmetric] buf_def Let_def)
  have lb: "length buf = 38" using vb l by (simp add: buf_def)
  have z: "v = 0 \<and> pf_precision st = 0 \<longleftrightarrow> nat \<bar>number_value ty (fs_long fs) a\<bar> = 0 \<and> min_digits ty fs = 0"
  proof -
    have "unat (pf_precision st) = min_digits ty fs" using r by (simp add: number_ready_def)
    then show ?thesis unfolding v [symmetric] by (auto simp: unat_eq_zero)
  qed
  have ds: "ds = (if v = 0 \<and> pf_precision st = 0 then [] else rev ns)"
    unfolding z by (simp add: ds_def number_digit_text_def ns_def mag_digits_def)
  have dl: "length ds \<le> 36" using l by (simp add: ds)
  let ?count = "of_nat (length ds) :: u32"
  have cnt: "(if v = 0 \<and> pf_precision st = 0 then 0 else of_nat (length ns)) = ?count" by (simp add: ds)
  have uc: "uint ?count = int (length ds)" "unat ?count = length ds"
    using dl by (simp_all add: uint_nat unat_small)
  let ?c = "if pf_comma st \<and> ?count \<noteq> 0 then ?count + (?count - 1) div 3 else ?count"
  have comma: "pf_comma st = fs_comma fs" using r by (simp add: number_ready_def)
  have "unat ?c = length (number_body ty fs a)"
  proof (cases "fs_comma fs \<and> ds \<noteq> []")
    case True
    then have nz: "?count \<noteq> 0" using uc(2) by (metis length_0_conv unat_0)
    have m1: "unat (?count - 1) = length ds - 1" using unat_minus_one [OF nz] uc(2) by simp
    then have "unat ((?count - 1) div 3) = (length ds - 1) div 3" by (simp add: unat_div)
    then have "unat (?count + (?count - 1) div 3) = length ds + (length ds - 1) div 3"
      using uc(2) dl by (subst unat_word_ariths) simp
    then show ?thesis using True nz comma by (simp add: number_body_def length_commas ds_def)
  next
    case False
    then show ?thesis
      using comma uc(2) by (auto simp: number_body_def commas.simps [of "[]"] ds_def [symmetric])
  qed
  moreover have "number_digits (of_nat (number_base ty)) v st = Some (st\<lparr>pf_value_buffer := buf,
       pf_argument := InFrame buf (int (length ds)),
       pf_digits := (if ?count mod 3 \<noteq> 0 then 3 - ?count mod 3 else 0), pf_count := ?c\<rparr>)"
    by (simp only: number_digits_def vts bind.bind_lunit case_prod_conv Let_def cnt uc(1))
  moreover have "reads m (-1) (InFrame buf (int (length ds))) ds" for m
  proof (cases "v = 0 \<and> pf_precision st = 0")
    case False
    have d: "ds = rev ns" using ds unfolding if_not_P [OF False] .
    have nz: "0 \<notin> set ns" unfolding ns using number_base_range by (intro numeral_rev_not_nul) simp_all
    have "buf ! (length ns - i) = rev ns ! i" if "i < length ns" for i
    proof -
      have j: "length ns - i = 1 + (length ns - Suc i)" using that by simp
      have "length ns - Suc i < length ns" using that by simp
      then show ?thesis using that vb unfolding buf_def j
        by (simp add: nth_append rev_nth)
    qed
    moreover have "rev ns ! i \<noteq> 0" if "i < length ns" for i
      using nz that by (metis in_set_conv_nth length_rev set_rev)
    ultimately show ?thesis
      using l lb unfolding reads_def d
      by (auto simp: nat_diff_distrib' of_nat_diff [symmetric] simp del: of_nat_diff)
  qed (simp add: ds)
  ultimately show ?thesis using lb dl by (intro that [of ?c buf]) simp_all
qed

lemma prefix_text_cong: "pf_prefix st = pf_prefix st' \<Longrightarrow> prefix_text st = prefix_text st'"
  by (simp add: prefix_text_def)

lemma length_number_sign: "length (number_sign ty fs neg) \<le> 1"
  by (simp add: number_sign_def)

lemma render_number_field:
  assumes "field_ok fs" and "prefix_text st = number_sign ty fs (number_value ty (fs_long fs) a < 0)"
    and "pf_zero_pad st" and "has st LEFT_JUSTIFY = fs_left fs" and "has st PAD_TO_WIDTH \<longleftrightarrow> width_format fs \<noteq> []"
    and "unat (pf_width st) = spec_width fs"
    and "unat (pf_precision st) = max p (unat (pf_count st))"
    and "p = (if zero_padded ty fs then spec_width fs else min_digits ty fs + length (prefix_text st))"
    and "unat (pf_count st) = length (prefix_text st @ number_body ty fs a)"
  shows "field_text st (number_body ty fs a) = render_number ty fs a"
proof -
  have w: "(if has st PAD_TO_WIDTH then unat (pf_width st) else 0) = spec_width fs"
    using assms(1,5,6) decimal_facts(3) by (auto simp: field_ok_def spec_width_def width_format_def split: option.splits)
  have fill: "unat (pf_precision st) - unat (pf_count st) = p - unat (pf_count st)"
    unfolding assms(7) by simp
  show ?thesis
    unfolding field_text_def w fill render_number_def Let_def number_body_def [symmetric] assms(2) [symmetric]
      assms(8) [symmetric] assms(9) [symmetric]
    using assms(3,4) by simp
qed

lemma number_layout_fields:
  "pf_count (number_layout st) = (if pf_prefix st \<noteq> 0 then pf_count st + 1 else pf_count st)"
  "pf_precision (number_layout st) =
     (if has st PREFIX_ZERO \<and> \<not> has st LEFT_JUSTIFY \<and> has st PAD_TO_WIDTH \<and> \<not> has st PRECISION then pf_width st
      else if pf_prefix st \<noteq> 0 then pf_precision st + 1 else pf_precision st)"
  "pf_width (number_layout st) = pf_width st" "pf_prefix (number_layout st) = pf_prefix st"
  "pf_comma (number_layout st) = pf_comma st" "pf_digits (number_layout st) = pf_digits st"
  "pf_argument (number_layout st) = pf_argument st" "pf_args (number_layout st) = pf_args st"
  "pf_format (number_layout st) = pf_format st" "pf_value_buffer (number_layout st) = pf_value_buffer st"
  "pf_zero_pad (number_layout st)"
  by (simp_all add: number_layout_def Let_def has_set_single del: has_set_flag)

lemma has_number_layout:
  "is_flag f \<Longrightarrow> has (number_layout st) f \<longleftrightarrow> has st f \<or> f = ARGUMENT_REVERSED"
  by (auto simp: number_layout_def Let_def has_set_single simp del: has_set_flag)

text \<open>The whole numeric conversion of a field.\<close>

lemma convert_number:
  assumes p: "field_parsed fs st" and a: "pf_args st = a # as" and vb: "length (pf_value_buffer st) = 38"
    and f: "number_fits ty fs a" and ok: "field_ok fs"
  obtains st' where "convert_argument (chr32 (type_char ty)) st = Some st'"
    "printing st'" "has st' ARGUMENT_REVERSED" "unat (pf_width st') < 2 ^ 31" "unat (pf_precision st') < 2 ^ 31"
    "unat (pf_count st') < 2 ^ 31" "\<And>m. reads m (-1) (pf_argument st') (number_digit_text ty fs a)"
    "number_body ty fs a = (if pf_comma st' then comma_groups (unat (pf_digits st')) (number_digit_text ty fs a)
        else number_digit_text ty fs a)" "unat (pf_digits st') < 3"
    "unat (pf_count st') = length (prefix_text st' @ number_body ty fs a)"
    "\<And>q. unat q = max (unat (pf_precision st')) (unat (pf_count st')) \<Longrightarrow>
       field_text (st'\<lparr>pf_precision := q\<rparr>) (number_body ty fs a) = render_number ty fs a"
    "pf_args st' = as" "pf_format st' = pf_format st" "length (pf_value_buffer st') = 38"
proof -
  obtain v st2 where ds: "decimal_sign (of_nat (number_base ty))
      (fetch_value (chr32 (type_char ty)) a (type_state ty st)) (number_prefix ((type_state ty st)\<lparr>pf_args := as\<rparr>)) = Some (v, st2)"
    "unat v = nat \<bar>number_value ty (fs_long fs) a\<bar>" "number_ready ty fs a st2"
    "pf_args st2 = as" "pf_format st2 = pf_format st" "pf_value_buffer st2 = pf_value_buffer st"
    by (rule decimal_sign_ready [OF p a]) (use f in \<open>auto simp: number_fits_def\<close>)
  let ?ds = "number_digit_text ty fs a"
  let ?g = "if (of_nat (length ?ds) :: u32) mod 3 \<noteq> 0 then 3 - of_nat (length ?ds) mod 3 else 0 :: u32"
  obtain buf count where nd: "number_digits (of_nat (number_base ty)) v st2 = Some (st2\<lparr>pf_value_buffer := buf,
       pf_argument := InFrame buf (int (length ?ds)), pf_digits := ?g, pf_count := count\<rparr>)"
    "unat count = length (number_body ty fs a)" "length buf = 38"
    "\<And>m. reads m (-1) (InFrame buf (int (length ?ds))) ?ds" "length ?ds \<le> 36"
    by (rule number_digits_ready [OF ds(3,2) _ f]) (simp_all add: ds(6) vb)
  let ?st3 = "st2\<lparr>pf_value_buffer := buf, pf_argument := InFrame buf (int (length ?ds)), pf_digits := ?g, pf_count := count\<rparr>"
  let ?st = "number_layout ?st3"
  have ty: "chr32 (type_char ty) \<in> set (map chr32 ''pXxobudi'')" by (cases ty) simp_all
  have conv: "convert_argument (chr32 (type_char ty)) st = Some ?st"
    unfolding convert_argument_def if_P [OF ty]
    by (simp add: format_number_def select_radix_type a ds(1) nd(1))
  note r = ds(3) [unfolded number_ready_def]
  have body: "length (number_body ty fs a) < 2 ^ 10"
  proof -
    have "(length ?ds - 1) div 3 \<le> 36" using nd(5) by (intro le_trans [OF div_le_dividend]) simp
    then show ?thesis using nd(5) by (simp add: number_body_def length_commas)
  qed
  have md: "min_digits ty fs < 2 ^ 30" "spec_width fs < 2 ^ 30"
    using ok by (auto simp: field_ok_def min_digits_def spec_width_def split: option.splits)
  have w: "unat (pf_width ?st) = spec_width fs" using r by (simp add: number_layout_fields)
  have pt: "prefix_text ?st = number_sign ty fs (number_value ty (fs_long fs) a < 0)"
    using r prefix_text_cong [of ?st st2] by (simp add: number_layout_fields)
  then have plen: "length (prefix_text ?st) \<le> 1" using length_number_sign by simp
  have px: "length (prefix_text ?st) = (if pf_prefix st2 \<noteq> 0 then 1 else 0)"
    by (simp add: prefix_text_def number_layout_fields)
  have cnt: "unat (pf_count ?st) = length (prefix_text ?st @ number_body ty fs a)"
    using nd(2) body px by (simp add: number_layout_fields unat_word_ariths)
  have h: "has ?st3 PREFIX_ZERO \<and> \<not> has ?st3 LEFT_JUSTIFY \<and> has ?st3 PAD_TO_WIDTH \<and> \<not> has ?st3 PRECISION
      \<longleftrightarrow> zero_padded ty fs"
    using r by (auto simp: zero_padded_def)
  have pr: "unat (pf_precision ?st) =
      (if zero_padded ty fs then spec_width fs else min_digits ty fs + length (prefix_text ?st))"
    unfolding number_layout_fields h px using r md by (simp add: unat_word_ariths)
  have hs: "printing ?st" "has ?st ARGUMENT_REVERSED" "has ?st LEFT_JUSTIFY = fs_left fs"
      "has ?st PAD_TO_WIDTH \<longleftrightarrow> width_format fs \<noteq> []"
    using r by (simp_all add: has_number_layout)
  show ?thesis
  proof (rule that [OF conv hs(1,2)])
    show "unat (pf_width ?st) < 2 ^ 31" using w md(2) by simp
    show "unat (pf_precision ?st) < 2 ^ 31" using pr md plen by simp
    show "unat (pf_count ?st) < 2 ^ 31" using cnt body plen by simp
    show "reads m (-1) (pf_argument ?st) ?ds" for m using nd(4) by (simp add: number_layout_fields)
    show "unat (pf_digits ?st) < 3"
      using nd(5) by (simp only: number_layout_fields) (simp add: unat_group_digits)
    show "number_body ty fs a = (if pf_comma ?st then comma_groups (unat (pf_digits ?st)) ?ds else ?ds)"
      using nd(5) r commas_groups [of ?ds]
      by (simp only: number_layout_fields number_body_def) (simp add: unat_group_digits)
    show "unat (pf_count ?st) = length (prefix_text ?st @ number_body ty fs a)" by (rule cnt)
    show "field_text (?st\<lparr>pf_precision := q\<rparr>) (number_body ty fs a) = render_number ty fs a"
      if "unat q = max (unat (pf_precision ?st)) (unat (pf_count ?st))" for q
      using that pr cnt hs w pt
      by (intro render_number_field [OF ok]) (simp_all add: number_layout_fields)
    show "pf_args ?st = as" "pf_format ?st = pf_format st" "length (pf_value_buffer ?st) = 38"
      using ds(4,5) nd(3) by (simp_all add: number_layout_fields)
  qed
qed

subsection \<open>Printing a converted field\<close>

lemma reads_take: "reads m step arg xs \<Longrightarrow> reads m step arg (take n xs)"
  by (auto simp: reads_def)

text \<open>The parts of the state one round hands to the next.\<close>

definition next_state :: "pf_state \<Rightarrow> ptr \<Rightarrow> u64 list \<Rightarrow> bool" where
  "next_state st format args \<longleftrightarrow>
     pf_format st = format \<and> pf_args st = args \<and> printing st \<and> length (pf_value_buffer st) = 38"

lemma print_number:
  fixes put :: "(u8 \<Rightarrow> 's \<Rightarrow> 's) option" and sk0 :: "'s sink"
  assumes p: "field_parsed fs st" and a: "pf_args st = a # as" and vb: "length (pf_value_buffer st) = 38"
    and f: "number_fits ty fs a" and ok: "field_ok fs"
    and o: "same_output sk (put_bytes put e ys sk0)" and w: "sink_within m0 buffer e sk0"
  shows "\<exists>st1 st2 sk'. convert_argument (chr32 (type_char ty)) st = Some st1 \<and> measure_argument m st1 = Some st2 \<and>
    output_field put e st2 sk = Some sk' \<and> same_output sk' (put_bytes put e (ys @ render_number ty fs a) sk0) \<and>
    next_state st2 (pf_format st) as"
proof -
  obtain st' where st': "convert_argument (chr32 (type_char ty)) st = Some st'"
    "printing st'" "has st' ARGUMENT_REVERSED" "unat (pf_width st') < 2 ^ 31" "unat (pf_precision st') < 2 ^ 31"
    "unat (pf_count st') < 2 ^ 31" "\<And>m. reads m (-1) (pf_argument st') (number_digit_text ty fs a)"
    "number_body ty fs a = (if pf_comma st' then comma_groups (unat (pf_digits st')) (number_digit_text ty fs a)
        else number_digit_text ty fs a)" "unat (pf_digits st') < 3"
    "unat (pf_count st') = length (prefix_text st' @ number_body ty fs a)"
    "\<And>q. unat q = max (unat (pf_precision st')) (unat (pf_count st')) \<Longrightarrow>
       field_text (st'\<lparr>pf_precision := q\<rparr>) (number_body ty fs a) = render_number ty fs a"
    "pf_args st' = as" "pf_format st' = pf_format st" "length (pf_value_buffer st') = 38"
    by (rule convert_number [OF p a vb f ok]) blast
  let ?q = "if pf_precision st' < pf_count st' then pf_count st' else pf_precision st'"
  let ?st = "st'\<lparr>pf_precision := ?q\<rparr>"
  have m: "measure_argument m st' = Some ?st"
    using st'(3) by (simp add: measure_argument_def)
  have q: "unat ?q = max (unat (pf_precision st')) (unat (pf_count st'))"
    by (simp add: word_less_nat_alt)
  have q31: "unat ?q < 2 ^ 31" using st'(5,6) by simp
  have "argument_step ?st = -1" using st'(3) by (simp add: argument_step_def)
  then have "\<exists>sk'. output_field put e ?st sk = Some sk' \<and>
      same_output sk' (put_bytes put e (ys @ field_text ?st (number_body ty fs a)) sk0)"
    using st' q q31
    by (intro output_field_put [OF _ _ _ _ _ _ _ _ o w, where xs = "number_digit_text ty fs a"])
      (simp_all add: prefix_text_def)
  then show ?thesis
    unfolding st'(11) [OF q] using st' m
    by (intro exI [of _ st'] exI [of _ ?st]) (auto simp: next_state_def)
qed

lemma print_string:
  fixes put :: "(u8 \<Rightarrow> 's \<Rightarrow> 's) option" and sk0 :: "'s sink"
  assumes ok: "field_ok fs" and l: "length xs < 2 ^ 30" and d: "dflt \<le> 1"
    and st: "has st LEFT_JUSTIFY = fs_left fs" "has st PAD_TO_WIDTH \<longleftrightarrow> width_format fs \<noteq> []"
      "has st PRECISION \<longleftrightarrow> fs_prec fs \<noteq> None" "\<not> has st ARGUMENT_REVERSED" "printing st"
      "pf_prefix st = 0" "\<not> pf_comma st" "\<not> pf_zero_pad st" "pf_digits st = 0" "unat (pf_width st) = spec_width fs"
      "unat (pf_precision st) = (case fs_prec fs of None \<Rightarrow> dflt | Some p \<Rightarrow> p)"
    and r: "\<And>t :: 's sink. sink_within m0 buffer e t \<Longrightarrow> reads (sk_mem t) 1 (pf_argument st) xs \<and>
      arg_byte (sk_mem t) (pf_argument st) (int (length xs)) = Some 0"
    and o: "same_output sk (put_bytes put e ys sk0)" and w: "sink_within m0 buffer e sk0"
  shows "\<exists>st' sk'. measure_argument (sk_mem sk) st = Some st' \<and> output_field put e st' sk = Some sk' \<and>
    same_output sk' (put_bytes put e (ys @ render_string dflt fs xs) sk0) \<and>
    pf_format st' = pf_format st \<and> pf_args st' = pf_args st \<and> printing st' \<and> pf_value_buffer st' = pf_value_buffer st"
proof -
  let ?zs = "cut_to (fs_prec fs) xs"
  let ?n = "if has st PRECISION then min (unat (pf_precision st)) (length xs) else length xs"
  have sw: "sink_within m0 buffer e sk" by (rule same_output_within [OF o w])
  have l31: "length xs < 2 ^ 31" using l by simp
  have n: "?n = length ?zs" using st(3,11) by (auto simp: cut_to_def min.commute split: option.split)
  have c: "count_argument (sk_mem sk) st (of_nat 0) = Some (of_nat ?n)"
    using r [OF sw] by (intro count_argument_length [OF _ _ l31 refl]) simp_all
  let ?c = "of_nat (length ?zs) :: u32"
  have "length ?zs \<le> length xs" by (simp add: cut_to_def split: option.split)
  then have uc: "unat ?c = length ?zs" "length ?zs < 2 ^ 30" using l by (simp_all add: unat_small)
  let ?q = "if pf_precision st < ?c then ?c else pf_precision st"
  let ?st = "st\<lparr>pf_count := ?c, pf_precision := ?q\<rparr>"
  have m: "measure_argument (sk_mem sk) st = Some ?st"
    using c st(4) unfolding n by (simp add: measure_argument_def)
  have p30: "unat (pf_precision st) < 2 ^ 30" "spec_width fs < 2 ^ 30"
    using ok d st(11) by (auto simp: field_ok_def spec_width_def split: option.splits)
  have q: "unat ?q = max (unat (pf_precision st)) (length ?zs)"
    by (simp add: word_less_nat_alt uc(1))
  have step: "argument_step ?st = 1" using st(4) by (simp add: argument_step_def)
  have re: "reads (sk_mem t) 1 (pf_argument st) ?zs" if "sink_within m0 buffer e t" for t :: "'s sink"
    using r [OF that] reads_take [of "sk_mem t" 1 "pf_argument st" xs]
    by (auto simp: cut_to_def split: option.split)
  have "\<exists>sk'. output_field put e ?st sk = Some sk' \<and>
      same_output sk' (put_bytes put e (ys @ field_text ?st ?zs) sk0)"
    using st q uc p30 step re
    by (intro output_field_put [OF _ _ _ _ _ _ _ _ o w, where xs = "?zs"]) (simp_all add: prefix_text_def)
  moreover have "field_text ?st ?zs = render_string dflt fs xs"
  proof -
    have wd: "(if has ?st PAD_TO_WIDTH then unat (pf_width ?st) else 0) = spec_width fs"
      using ok st(2,10) decimal_facts(3) by (auto simp: field_ok_def spec_width_def width_format_def split: option.splits)
    have mx: "max i j - j = i - j" for i j :: nat by (simp add: max_def)
    show ?thesis
      unfolding field_text_def wd render_string_def Let_def
      using st q uc(1) mx by (simp add: prefix_text_def)
  qed
  ultimately show ?thesis using m st(5) by (intro exI [of _ ?st]) auto
qed

subsection \<open>Directives\<close>

datatype directive =
    Text u8
  | Percent
  | Number number_type field_spec u64
  | Str field_spec ptr "u8 list"
  | Character field_spec u64

definition percent :: "field_spec \<Rightarrow> char \<Rightarrow> u8 list" where
  "percent fs c = byte CHR ''%'' # field_format fs @ [byte c]"

definition plain :: field_spec where
  "plain = \<lparr>fs_left = False, fs_plus = False, fs_blank = False, fs_comma = False, fs_zero = False,
            fs_width = None, fs_prec = None, fs_long = False\<rparr>"

fun directive_format :: "directive \<Rightarrow> u8 list" where
  "directive_format (Text c) = [c]"
| "directive_format Percent = percent plain CHR ''%''"
| "directive_format (Number ty fs a) = percent fs (type_char ty)"
| "directive_format (Str fs p xs) = percent fs CHR ''s''"
| "directive_format (Character fs a) = percent fs CHR ''c''"

fun directive_args :: "directive \<Rightarrow> u64 list" where
  "directive_args (Text c) = []"
| "directive_args Percent = []"
| "directive_args (Number ty fs a) = [a]"
| "directive_args (Str fs p xs) = [p]"
| "directive_args (Character fs a) = [a]"

fun render :: "directive \<Rightarrow> u8 list" where
  "render (Text c) = [c]"
| "render Percent = [byte CHR ''%'']"
| "render (Number ty fs a) = render_number ty fs a"
| "render (Str fs p xs) = render_string 0 fs xs"
| "render (Character fs a) = (let c = ucast a in render_string 1 fs (if c = 0 then [] else [c]))"

text \<open>
  What a directive asks of its arguments: a string is a C string that the output does not run
  over (a null pointer prints as \<open><null string>\<close>), a number has at most 36 digits and is not the
  least signed one, a literal width or precision is below \<open>2^30\<close>.
\<close>

definition untouched :: "ptr \<Rightarrow> ptr \<Rightarrow> ptr \<Rightarrow> nat \<Rightarrow> bool" where
  "untouched buffer e p n \<longleftrightarrow> buffer = NULL \<or> (\<forall>a\<in>region p n. a < buffer \<or> e \<le> a)"

fun directive_ok :: "mem \<Rightarrow> ptr \<Rightarrow> ptr \<Rightarrow> directive \<Rightarrow> bool" where
  "directive_ok m buffer e (Text c) \<longleftrightarrow> c \<noteq> 0 \<and> c < 0x80 \<and> c \<noteq> byte CHR ''%''"
| "directive_ok m buffer e Percent \<longleftrightarrow> True"
| "directive_ok m buffer e (Number ty fs a) \<longleftrightarrow> field_ok fs \<and> number_fits ty fs a"
| "directive_ok m buffer e (Str fs p xs) \<longleftrightarrow> field_ok fs \<and> length xs < 2 ^ 30 \<and>
     (if p = NULL then xs = bytes_of ''<null string>''
      else cstr m p xs \<and> untouched buffer e p (Suc (length xs)))"
| "directive_ok m buffer e (Character fs a) \<longleftrightarrow> field_ok fs"

lemma within_untouched:
  "sink_within m buffer e t \<Longrightarrow> untouched buffer e p n \<Longrightarrow> a \<in> region p n \<Longrightarrow> sk_mem t a = m a"
proof (cases "buffer = NULL")
  case False
  assume w: "sink_within m buffer e t" and "untouched buffer e p n" and "a \<in> region p n"
  then have "a < buffer \<or> e \<le> a" using False by (simp add: untouched_def)
  moreover have "sk_buffer t \<le> e" and t: "a < buffer \<or> sk_buffer t \<le> a \<longrightarrow> sk_mem t a = m a"
    using w unfolding sink_within_def if_not_P [OF False] by blast+
  ultimately show ?thesis using order.trans by blast
qed (simp add: sink_within_NULL)

lemma reads_memory:
  assumes "cstr m p xs" and "\<And>a. a \<in> region p (Suc (length xs)) \<Longrightarrow> t a = m a"
  shows "reads t 1 (InMemory p) xs \<and> arg_byte t (InMemory p) (int (length xs)) = Some 0"
proof -
  have c: "cstr t p xs" by (rule cstr_cong [OF assms(1)]) (use assms(2) in auto)
  then have b: "bytes t p (length xs) = xs" "0 \<notin> set xs" "t (p + of_nat (length xs)) = 0"
    by (simp_all add: cstr_iff)
  have "xs ! i = t (p + of_nat i)" if "i < length xs" for i
    using nth_bytes [OF that, of t p] b(1) by simp
  moreover have "xs ! i \<noteq> 0" if "i < length xs" for i
    using b(2) that by (metis nth_mem)
  ultimately show ?thesis using b(3) by (auto simp: reads_def)
qed

lemma reads_frame:
  assumes "0 \<notin> set xs" and "0 < length ys" and "hd ys = 0"
  shows "reads t 1 (InFrame (xs @ ys) 0) xs \<and> arg_byte t (InFrame (xs @ ys) 0) (int (length xs)) = Some 0"
proof -
  have "xs ! i \<noteq> 0" if "i < length xs" for i
    using assms(1) that by (metis nth_mem)
  moreover obtain zs where "ys = 0 # zs" using assms(2,3) by (cases ys) auto
  ultimately show ?thesis by (auto simp: reads_def nth_append)
qed

lemma format_char_bytes_ascii:
  assumes "c < 0x80"
  shows "format_char_bytes (scast (c :: u8)) = [c] @ [0, 0, 0]"
proof -
  have "\<forall>n\<in>set [0..<128]. format_char_bytes (scast (of_nat n :: u8)) = [of_nat n] @ [0, 0, 0]"
    by code_simp
  moreover have "unat c \<in> set [0..<128]" using assms by (simp add: word_less_nat_alt)
  ultimately show ?thesis by (metis unat_word_inverse)
qed

lemma plain_ok [simp]: "field_ok plain" "field_format plain = []" "width_format plain = []" "fs_left plain = False"
  "spec_width plain = 0" "fs_prec plain = None"
  by (simp_all add: plain_def field_ok_def field_format_def opt_char_def width_format_def prec_format_def spec_width_def)

lemma render_string_plain: "render_string 1 plain [c] = [c]"
  by (simp add: render_string_def padded_def cut_to_def)


subsection \<open>One round of the engine\<close>

lemma string_literal: "bytes_of ''<null string>'' = map of_char ''<null string>''" "0 \<notin> set (bytes_of ''<null string>'')"
  by (simp_all add: bytes_of_def byte_def)

lemma reset_parsed:
  assumes "printing st" shows "field_parsed plain (reset_state st)"
proof -
  have "spec_state plain (reset_state st) = reset_state st"
    by (simp add: spec_state_def opt_flag_def spec_padding_def spec_precision_def plain_def width_format_def opt_char_def)
  then show ?thesis using spec_parsed [of plain st] assms by simp
qed

lemma parsedD:
  assumes "field_parsed fs st"
  shows "has st LEFT_JUSTIFY = fs_left fs" "has st PAD_TO_WIDTH \<longleftrightarrow> width_format fs \<noteq> []"
    "has st PRECISION \<longleftrightarrow> fs_prec fs \<noteq> None" "\<not> has st ARGUMENT_REVERSED" "printing st" "pf_prefix st = 0"
    "\<not> pf_comma st" "\<not> pf_zero_pad st" "pf_digits st = 0" "unat (pf_width st) = spec_width fs"
    "unat (pf_precision st) = (case fs_prec fs of None \<Rightarrow> 1 | Some p \<Rightarrow> p)"
  using assms by (simp_all add: field_parsed_def)

text \<open>A conversion printed as text: characters, \<open>%%\<close>, \<open>%c\<close> and \<open>%s\<close>.\<close>

lemma print_text:
  fixes put :: "(u8 \<Rightarrow> 's \<Rightarrow> 's) option" and sk0 :: "'s sink"
  assumes p: "field_parsed fs st" and ok: "field_ok fs" and l: "length xs < 2 ^ 30"
    and r: "\<And>t :: 's sink. sink_within m0 buffer e t \<Longrightarrow> reads (sk_mem t) 1 arg xs \<and>
      arg_byte (sk_mem t) arg (int (length xs)) = Some 0"
    and o: "same_output sk (put_bytes put e ys sk0)" and w: "sink_within m0 buffer e sk0"
    and vb: "length (pf_value_buffer st) = 38"
    and st1: "st1 = st\<lparr>pf_args := as, pf_argument := arg\<rparr> \<and> dflt = 1 \<or>
      st1 = st\<lparr>pf_args := as, pf_argument := arg, pf_precision := (if has st PRECISION then pf_precision st else 0)\<rparr> \<and> dflt = 0"
  shows "\<exists>st2 sk'. measure_argument (sk_mem sk) st1 = Some st2 \<and>
    output_field put e st2 sk = Some sk' \<and> same_output sk' (put_bytes put e (ys @ render_string dflt fs xs) sk0) \<and>
    next_state st2 (pf_format st) as"
proof -
  note d = parsedD [OF p]
  have f: "pf_argument st1 = arg" "pf_args st1 = as" "pf_format st1 = pf_format st"
      "pf_value_buffer st1 = pf_value_buffer st" "dflt \<le> 1"
    "has st1 g = has st g" "pf_prefix st1 = pf_prefix st" "pf_comma st1 = pf_comma st" "pf_zero_pad st1 = pf_zero_pad st"
    "pf_digits st1 = pf_digits st" "pf_width st1 = pf_width st"
    "unat (pf_precision st1) = (case fs_prec fs of None \<Rightarrow> dflt | Some p \<Rightarrow> p)" for g
    using st1 d by (auto split: option.split)
  have "\<exists>st' sk'. measure_argument (sk_mem sk) st1 = Some st' \<and> output_field put e st' sk = Some sk' \<and>
    same_output sk' (put_bytes put e (ys @ render_string dflt fs xs) sk0) \<and>
    pf_format st' = pf_format st1 \<and> pf_args st' = pf_args st1 \<and> printing st' \<and> pf_value_buffer st' = pf_value_buffer st1"
    using d r by (intro print_string [OF ok l f(5) _ _ _ _ _ _ _ _ _ _ _ _ o w]) (simp_all add: f)
  then show ?thesis unfolding next_state_def using f vb by auto
qed


lemma convert_percent:
  assumes t: "bytes m (pf_format st) (length (percent fs c)) = percent fs c" and c: "c \<in> set ''pXxobudiscS%''"
    and ok: "field_ok fs" and p: "printing st"
  obtains st0 where
    "convert_field m (scast (m (pf_format st))) (reset_state st) = convert_argument (chr32 c) st0"
    "field_parsed fs st0" "pf_args st0 = pf_args st" "pf_value_buffer st0 = pf_value_buffer st"
    "pf_format st0 = pf_format st + of_nat (length (percent fs c)) - 1"
proof -
  define st0 where "st0 = adv (length (field_format fs) + 1) (spec_state fs (reset_state st))"
  have b: "m (pf_format st) = byte CHR ''%''" "bytes m (pf_format st + 1) (length (field_format fs @ [byte c])) = field_format fs @ [byte c]"
    using t by (simp_all add: percent_def bytes_Suc)
  then have "next_text m (reset_state st) (field_format fs @ [byte c])"
    by (simp add: next_text_def reset_state_def)
  moreover have "pf_flags (reset_state st) = 0" using p by (simp add: reset_state_def has_def)
  then have "\<not> has (reset_state st) PRECISION" by (simp add: has_def)
  ultimately have "parse_flags m (reset_state st) = Some (chr32 c, st0)"
    unfolding st0_def by (intro parse_field c ok)
  moreover have "scast (m (pf_format st)) = chr32 CHR ''%''" unfolding b(1) by (simp add: byte_def chr32_def)
  ultimately have "convert_field m (scast (m (pf_format st))) (reset_state st) = convert_argument (chr32 c) st0"
    by (simp add: convert_field_def)
  moreover have f: "field_parsed fs (adv k st') = field_parsed fs st'" for k st' by (simp add: field_parsed_def adv_def)
  have "field_parsed fs st0" unfolding st0_def f by (rule spec_parsed [OF ok p])
  moreover have "pf_args st0 = pf_args st" "pf_value_buffer st0 = pf_value_buffer st"
    by (simp_all add: st0_def adv_def spec_state_fields reset_state_def)
  moreover have "pf_format st0 = pf_format st + of_nat (length (percent fs c)) - 1"
    by (simp add: st0_def spec_state_fields percent_def) (simp add: reset_state_def)
  ultimately show ?thesis by (intro that [of st0])
qed

lemma default_step:
  fixes put :: "(u8 \<Rightarrow> 's \<Rightarrow> 's) option" and sk0 :: "'s sink"
  assumes "field_parsed plain st0" and "length (pf_value_buffer st0) = 38" and "x \<noteq> 0" and "x < 0x80"
    and "same_output sk (put_bytes put e ys sk0)" and "sink_within m0 buffer e sk0"
  shows "\<exists>st2 sk'. measure_argument (sk_mem sk) (st0\<lparr>pf_argument := InFrame (format_char_bytes (scast x)) 0\<rparr>) = Some st2 \<and>
    output_field put e st2 sk = Some sk' \<and> same_output sk' (put_bytes put e (ys @ [x]) sk0) \<and>
    next_state st2 (pf_format st0) (pf_args st0)"
proof -
  have r: "reads (sk_mem t) 1 (InFrame (format_char_bytes (scast x)) 0) [x] \<and>
      arg_byte (sk_mem t) (InFrame (format_char_bytes (scast x)) 0) (int (length [x])) = Some 0" for t :: "'s sink"
    using assms(3) reads_frame [of "[x]" "[0, 0, 0]" "sk_mem t"] unfolding format_char_bytes_ascii [OF assms(4)] by simp
  have "\<exists>st2 sk'. measure_argument (sk_mem sk) (st0\<lparr>pf_argument := InFrame (format_char_bytes (scast x)) 0\<rparr>) = Some st2 \<and>
    output_field put e st2 sk = Some sk' \<and> same_output sk' (put_bytes put e (ys @ render_string 1 plain [x]) sk0) \<and>
    next_state st2 (pf_format st0) (pf_args st0)"
    by (rule print_text [OF assms(1) plain_ok(1) _ r assms(5,6,2)]) simp_all
  then show ?thesis by (simp only: render_string_plain)
qed

lemma directive_step:
  fixes put :: "(u8 \<Rightarrow> 's \<Rightarrow> 's) option" and sk0 :: "'s sink"
  assumes ok: "directive_ok m0 buffer e d"
    and t: "bytes (sk_mem sk) (pf_format st) (length (directive_format d)) = directive_format d"
    and p: "printing st" and a: "pf_args st = directive_args d @ rest" and vb: "length (pf_value_buffer st) = 38"
    and o: "same_output sk (put_bytes put e ys sk0)" and w: "sink_within m0 buffer e sk0"
  shows "\<exists>st1 st2 sk'. convert_field (sk_mem sk) (scast (sk_mem sk (pf_format st))) (reset_state st) = Some st1 \<and>
    measure_argument (sk_mem sk) st1 = Some st2 \<and> output_field put e st2 sk = Some sk' \<and>
    same_output sk' (put_bytes put e (ys @ render d) sk0) \<and>
    next_state st2 (pf_format st + of_nat (length (directive_format d)) - 1) rest"
proof (cases d)
  case (Number ty fs x)
  have ty: "type_char ty \<in> set ''pXxobudiscS%''" by (cases ty) simp_all
  have ok': "field_ok fs" "number_fits ty fs x" using ok Number by simp_all
  obtain st0 where c: "convert_field (sk_mem sk) (scast (sk_mem sk (pf_format st))) (reset_state st) =
      convert_argument (chr32 (type_char ty)) st0" "field_parsed fs st0" "pf_args st0 = pf_args st"
      "pf_value_buffer st0 = pf_value_buffer st" "pf_format st0 = pf_format st + of_nat (length (percent fs (type_char ty))) - 1"
    by (rule convert_percent [OF t [unfolded Number directive_format.simps] ty ok'(1) p])
  show ?thesis
    using print_number [OF c(2) _ _ ok'(2,1) o w, where as = rest and m = "sk_mem sk"] c a vb Number by simp
next
  case (Str fs q xs)
  have s: "CHR ''s'' \<in> set ''pXxobudiscS%''" by simp
  have ok': "field_ok fs" "length xs < 2 ^ 30" using ok Str by simp_all
  obtain st0 where c: "convert_field (sk_mem sk) (scast (sk_mem sk (pf_format st))) (reset_state st) =
      convert_argument (chr32 CHR ''s'') st0" "field_parsed fs st0" "pf_args st0 = pf_args st"
      "pf_value_buffer st0 = pf_value_buffer st" "pf_format st0 = pf_format st + of_nat (length (percent fs CHR ''s'')) - 1"
    by (rule convert_percent [OF t [unfolded Str directive_format.simps] s ok'(1) p])
  let ?arg = "if q = NULL then InFrame (bytes_of ''<null string>'' @ [0]) 0 else InMemory q"
  have r: "reads (sk_mem t) 1 ?arg xs \<and> arg_byte (sk_mem t) ?arg (int (length xs)) = Some 0"
    if "sink_within m0 buffer e t" for t :: "'s sink"
  proof (cases "q = NULL")
    case True
    then have "xs = bytes_of ''<null string>''" using ok Str by simp
    with True reads_frame [OF string_literal(2), of "[0]" "sk_mem t"] show ?thesis by simp
  next
    case False
    then have "cstr m0 q xs" "untouched buffer e q (Suc (length xs))" using ok Str by simp_all
    with False reads_memory [of m0 q xs "sk_mem t"] within_untouched [OF that] show ?thesis by simp
  qed
  define st1 where "st1 = st0\<lparr>pf_args := rest, pf_argument := ?arg, pf_precision := (if has st0 PRECISION then pf_precision st0 else 0)\<rparr>"
  have "convert_argument (chr32 CHR ''s'') st0 = Some st1"
    using c(3) a Str by (simp add: convert_argument_def chr32_def st1_def)
  moreover have "\<exists>st2 sk'. measure_argument (sk_mem sk) st1 = Some st2 \<and>
    output_field put e st2 sk = Some sk' \<and> same_output sk' (put_bytes put e (ys @ render_string 0 fs xs) sk0) \<and>
    next_state st2 (pf_format st0) rest"
    using vb c(4) st1_def by (intro print_text [OF c(2) ok' r o w]) simp_all
  ultimately show ?thesis using c Str by simp
next
  case (Character fs x)
  have s: "CHR ''c'' \<in> set ''pXxobudiscS%''" by simp
  have ok': "field_ok fs" using ok Character by simp
  obtain st0 where c: "convert_field (sk_mem sk) (scast (sk_mem sk (pf_format st))) (reset_state st) =
      convert_argument (chr32 CHR ''c'') st0" "field_parsed fs st0" "pf_args st0 = pf_args st"
      "pf_value_buffer st0 = pf_value_buffer st" "pf_format st0 = pf_format st + of_nat (length (percent fs CHR ''c'')) - 1"
    by (rule convert_percent [OF t [unfolded Character directive_format.simps] s ok' p])
  let ?x = "ucast x :: u8"
  let ?xs = "if ?x = 0 then [] else [?x]"
  have r: "reads (sk_mem t) 1 (InFrame [?x, 0] 0) ?xs \<and> arg_byte (sk_mem t) (InFrame [?x, 0] 0) (int (length ?xs)) = Some 0"
    for t :: "'s sink" by (simp add: reads_def)
  define st1 where "st1 = st0\<lparr>pf_args := rest, pf_argument := InFrame [?x, 0] 0\<rparr>"
  have "convert_argument (chr32 CHR ''c'') st0 = Some st1"
    using c(3) a Character by (simp add: convert_argument_def chr32_def st1_def)
  moreover have "\<exists>st2 sk'. measure_argument (sk_mem sk) st1 = Some st2 \<and>
    output_field put e st2 sk = Some sk' \<and> same_output sk' (put_bytes put e (ys @ render_string 1 fs ?xs) sk0) \<and>
    next_state st2 (pf_format st0) rest"
    using vb c(4) st1_def by (intro print_text [OF c(2) ok' _ r o w]) simp_all
  ultimately show ?thesis using c Character by (simp add: Let_def)
next
  case Percent
  have s: "CHR ''%'' \<in> set ''pXxobudiscS%''" by simp
  obtain st0 where c: "convert_field (sk_mem sk) (scast (sk_mem sk (pf_format st))) (reset_state st) =
      convert_argument (chr32 CHR ''%'') st0" "field_parsed plain st0" "pf_args st0 = pf_args st"
      "pf_value_buffer st0 = pf_value_buffer st" "pf_format st0 = pf_format st + of_nat (length (percent plain CHR ''%'')) - 1"
    by (rule convert_percent [OF t [unfolded Percent directive_format.simps] s plain_ok(1) p])
  have e: "chr32 CHR ''%'' = scast (byte CHR ''%'')" "byte CHR ''%'' \<noteq> 0" "byte CHR ''%'' < 0x80"
    by (simp_all add: chr32_def byte_def)
  have "convert_argument (chr32 CHR ''%'') st0 = Some (st0\<lparr>pf_argument := InFrame (format_char_bytes (scast (byte CHR ''%''))) 0\<rparr>)"
    by (simp add: convert_argument_def chr32_def byte_def)
  then show ?thesis
    using default_step [OF c(2) _ e(2,3) o w] c a vb Percent by simp
next
  case (Text x)
  have x: "x \<noteq> 0" "x < 0x80" "x \<noteq> byte CHR ''%''" using ok Text by simp_all
  have m: "sk_mem sk (pf_format st) = x" using t Text by (simp add: bytes_Suc)
  have "x = byte CHR ''%''" if "scast x = chr32 CHR ''%''"
  proof -
    have "x = ucast (scast x :: u32)" by simp
    also have "\<dots> = byte CHR ''%''" unfolding that by (simp add: chr32_def byte_def)
    finally show ?thesis .
  qed
  then have "convert_field (sk_mem sk) (scast x) (reset_state st) =
      Some ((reset_state st)\<lparr>pf_argument := InFrame (format_char_bytes (scast x)) 0\<rparr>)"
    using x(3) by (auto simp: convert_field_def)
  moreover have "pf_value_buffer (reset_state st) = pf_value_buffer st" "pf_format (reset_state st) = pf_format st"
    "pf_args (reset_state st) = pf_args st" by (simp_all add: reset_state_def)
  ultimately show ?thesis
    using default_step [OF reset_parsed [OF p] _ x(1,2) o w] a vb Text m by simp
qed

subsection \<open>The whole format\<close>

text \<open>Once the buffer is full nothing is written any more.\<close>

lemma put_bytes_full:
  assumes "sk_buffer sk \<noteq> NULL" and "e \<le> sk_buffer sk" and "put = None"
  shows "put_bytes put e xs sk = sk"
  using assms store_bytes_full [of "sk_buffer sk" e xs "sk_mem sk"]
  by (simp add: put_bytes_def not_less)

lemma format_loop_directives:
  fixes put :: "(u8 \<Rightarrow> 's \<Rightarrow> 's) option" and sk0 :: "'s sink"
  assumes w: "sink_within m0 buffer e sk0" and put: "buffer \<noteq> NULL \<Longrightarrow> put = None"
  shows "\<lbrakk>\<forall>d\<in>set ds. directive_ok m0 buffer e d; cstr m0 (pf_format st) (concat (map directive_format ds));
      untouched buffer e (pf_format st) (Suc (length (concat (map directive_format ds))));
      printing st; pf_args st = concat (map directive_args ds) @ rest; length (pf_value_buffer st) = 38;
      same_output sk (put_bytes put e ys sk0)\<rbrakk> \<Longrightarrow>
    \<exists>st' sk'. format_loop put e st sk = Some (st', sk') \<and> printing st' \<and>
      same_output sk' (put_bytes put e (ys @ concat (map render ds)) sk0)"
proof (induction ds arbitrary: st sk ys)
  case Nil
  have "sink_within m0 buffer e sk" by (rule same_output_within [OF Nil.prems(7) w])
  then have "sk_mem sk (pf_format st) = 0"
    using Nil.prems(2,3) within_untouched [of m0 buffer e sk "pf_format st" 1] by (simp add: region_def)
  with Nil.prems show ?case by (subst format_loop.simps) simp
next
  case (Cons d ds)
  let ?F = "directive_format d" and ?r = "concat (map directive_format ds)"
  have sw: "sink_within m0 buffer e sk" by (rule same_output_within [OF Cons.prems(7) w])
  have c: "bytes m0 (pf_format st) (length ?F) = ?F" "0 \<notin> set ?F" "cstr m0 (pf_format st + of_nat (length ?F)) ?r"
    using Cons.prems(2) by (simp_all add: cstr_append)
  have F: "?F \<noteq> []" by (cases d) (simp_all add: percent_def)
  have un: "untouched buffer e (pf_format st) (length ?F)"
      "untouched buffer e (pf_format st + of_nat (length ?F)) (Suc (length ?r))"
    using Cons.prems(3) region_add [of "pf_format st" "length ?F" "Suc (length ?r)"] unfolding untouched_def by auto
  have t: "bytes (sk_mem sk) (pf_format st) (length ?F) = ?F"
    using c(1) within_untouched [OF sw un(1)] bytes_cong [of "pf_format st" "length ?F" "sk_mem sk" m0] by simp
  then have "sk_mem sk (pf_format st) = hd ?F" using F by (cases ?F) (simp_all add: bytes_Suc)
  then have nz: "sk_mem sk (pf_format st) \<noteq> 0" using c(2) F by (cases ?F) auto
  have nz': "scast (sk_mem sk (pf_format st)) \<noteq> (0 :: u32)"
    using nz ucast_scast_byte [of "sk_mem sk (pf_format st)"] by (metis unsigned_0)
  show ?case
  proof (cases "sk_buffer sk \<noteq> NULL \<and> e \<le> sk_buffer sk")
    case True
    then have "put = None" using put sw by (cases "buffer = NULL") (auto simp: sink_within_NULL)
    moreover have "sk_buffer (put_bytes put e ys sk0) = sk_buffer sk"
      using same_output_fields [OF Cons.prems(7)] by simp
    ultimately have "put_bytes put e (ys @ concat (map render (d # ds))) sk0 = put_bytes put e ys sk0"
      using True by (subst put_bytes_append) (simp add: put_bytes_full)
    then show ?thesis
      using True Cons.prems by (subst format_loop.simps) simp
  next
    case False
    have a: "pf_args st = directive_args d @ (concat (map directive_args ds) @ rest)" using Cons.prems(5) by simp
    have "directive_ok m0 buffer e d" using Cons.prems(1) by simp
    from directive_step [OF this t Cons.prems(4) a Cons.prems(6,7) w]
    obtain st1 st2 sk' where s: "convert_field (sk_mem sk) (scast (sk_mem sk (pf_format st))) (reset_state st) = Some st1"
      "measure_argument (sk_mem sk) st1 = Some st2" "output_field put e st2 sk = Some sk'"
      "same_output sk' (put_bytes put e (ys @ render d) sk0)"
      "next_state st2 (pf_format st + of_nat (length ?F) - 1) (concat (map directive_args ds) @ rest)" by blast
    let ?st = "st2\<lparr>pf_format := pf_format st2 + 1\<rparr>"
    have n: "pf_format ?st = pf_format st + of_nat (length ?F)" "pf_args ?st = concat (map directive_args ds) @ rest"
      "printing ?st" "length (pf_value_buffer ?st) = 38"
      using s(5) by (simp_all add: next_state_def)
    have "\<exists>st' sk''. format_loop put e ?st sk' = Some (st', sk'') \<and> printing st' \<and>
        same_output sk'' (put_bytes put e ((ys @ render d) @ concat (map render ds)) sk0)"
      using Cons.prems(1) c(3) un(2) n s(4) by (intro Cons.IH) simp_all
    moreover have "format_loop put e st sk = format_loop put e ?st sk'"
      using False nz' s(1-3) by (subst format_loop.simps) (simp only: Let_def bind.bind_lunit if_False simp_thms)
    ultimately show ?thesis by simp
  qed
qed

lemma store_bytes_result:
  "b \<le> e \<Longrightarrow> n = min (length xs) (unat e - unat b) \<Longrightarrow> store_bytes e xs (b, m) = (b', m') \<Longrightarrow>
     b' = b + of_nat n \<and> bytes m' b n = take n xs \<and> (\<forall>a. a \<notin> region b n \<longrightarrow> m' a = m a)"
proof (induction xs arbitrary: b n m)
  case Nil
  then show ?case by simp
next
  case (Cons x xs)
  show ?case
  proof (cases "b < e")
    case False
    with Cons.prems show ?thesis by (simp add: word_less_nat_alt)
  next
    case True
    have u: "unat (b + 1) = Suc (unat b)" by (rule unat_add_one [OF True])
    define k where "k = min (length xs) (unat e - unat (b + 1))"
    have "unat e - unat b = Suc (unat e - unat (b + 1))" using True u by (simp add: word_less_nat_alt)
    then have n: "n = Suc k" using Cons.prems(2) by (simp add: k_def)
    have le: "b + 1 \<le> e" using True u by (simp add: word_less_nat_alt word_le_nat_alt)
    have "store_bytes e xs (b + 1, m(b := x)) = (b', m')" using Cons.prems(3) True by simp
    from Cons.IH [OF le k_def this]
    have IH: "b' = b + 1 + of_nat k" "bytes m' (b + 1) k = take k xs"
      "\<And>a. a \<notin> region (b + 1) k \<Longrightarrow> m' a = (m(b := x)) a" by blast+
    have "k \<le> unat e" unfolding k_def by simp
    then have "k < 2 ^ 64" using unat64(1) [of e] by (rule le_less_trans)
    have "b \<notin> region (b + 1) k"
    proof
      assume "b \<in> region (b + 1) k"
      then obtain i where i: "i < k" "b = b + (1 + of_nat i)" by (auto simp: region_def add.assoc)
      then have "b + of_nat 0 = b + of_nat (Suc i)" by simp
      then have "(0::nat) = Suc i"
        using ptr_add_eq_iff [of 0 "Suc i" b] i(1) \<open>k < 2 ^ 64\<close> by simp
      then show False by simp
    qed
    then have "m' b = x" using IH(3) [of b] by simp
    moreover have "m' a = m a" if "a \<notin> region b n" for a
      using IH(3) [of a] that by (simp add: n region_front)
    ultimately show ?thesis using IH n by (simp add: bytes_Suc add.assoc)
  qed
qed

lemma sprintf_impl_directives:
  fixes put :: "(u8 \<Rightarrow> 's \<Rightarrow> 's) option"
  assumes "\<forall>d\<in>set ds. directive_ok m buffer e d" and "cstr m format (concat (map directive_format ds))"
    and "untouched buffer e format (Suc (length (concat (map directive_format ds))))"
    and "buffer \<noteq> NULL \<Longrightarrow> put = None" and "buffer \<le> e"
  shows "\<exists>st sk. format_loop put e (initial_state format (concat (map directive_args ds)))
      \<lparr>sk_mem = m, sk_tty = s, sk_buffer = buffer, sk_length = 0\<rparr> = Some (st, sk) \<and> printing st \<and>
    same_output sk (put_bytes put e (concat (map render ds)) \<lparr>sk_mem = m, sk_tty = s, sk_buffer = buffer, sk_length = 0\<rparr>)"
proof -
  let ?sk = "\<lparr>sk_mem = m, sk_tty = s, sk_buffer = buffer, sk_length = 0\<rparr>"
  have w: "sink_within m buffer e ?sk" using assms(5) by (simp add: sink_within_def)
  show ?thesis
    using assms format_loop_directives [OF w assms(4), of ds "initial_state format (concat (map directive_args ds))" "[]" ?sk "[]"]
    by (simp add: initial_state_def MAXIMUM_VALUE_CHARACTERS_def has_def)
qed

text \<open>
  \<open>printf\<close> and \<open>vprintf\<close> print the renderings of the directives of their format, one after
  the other, leave the memory alone, and return 0.
\<close>
theorem printf_correct:
  assumes "cstr m format (concat (map directive_format ds))" and "args = concat (map directive_args ds)"
    and "\<forall>d\<in>set ds. directive_ok m NULL NULL d"
  shows "printf tty_putchar m tty format args = Some (0, m, fold tty_putchar (concat (map render ds)) tty) \<and>
    vprintf tty_putchar m tty format args = printf tty_putchar m tty format args"
proof -
  let ?put = "Some tty_putchar"
  have u: "untouched NULL NULL format (Suc (length (concat (map directive_format ds))))" by (simp add: untouched_def)
  obtain st sk where "format_loop ?put NULL (initial_state format args)
      \<lparr>sk_mem = m, sk_tty = tty, sk_buffer = NULL, sk_length = 0\<rparr> = Some (st, sk)" "printing st"
    "same_output sk (put_bytes ?put NULL (concat (map render ds)) \<lparr>sk_mem = m, sk_tty = tty, sk_buffer = NULL, sk_length = 0\<rparr>)"
    using sprintf_impl_directives [OF assms(3,1) u, of ?put tty] unfolding assms(2) by auto
  then show ?thesis
    using same_output_fields [of sk] by (simp add: printf_def vprintf_def sprintf_impl_def put_bytes_def)
qed

lemma sprintf_text:
  assumes "cstr m format (concat (map directive_format ds))" and "args = concat (map directive_args ds)"
    and "\<forall>d\<in>set ds. directive_ok m buffer (buffer + 32766) d"
    and "untouched buffer (buffer + 32766) format (Suc (length (concat (map directive_format ds))))"
    and "buffer \<noteq> NULL" and "unat buffer + 32767 < 2 ^ 64" and "text = concat (map render ds)"
    and "n = min (length text) 32766"
  shows "\<exists>m'. sprintf m buffer format args = Some (of_nat n, m') \<and> bytes m' buffer n = take n text \<and>
    m' (buffer + of_nat n) = 0 \<and> (\<forall>a. a \<notin> region buffer (Suc n) \<longrightarrow> m' a = m a)"
proof -
  let ?e = "buffer + 32766"
  have ue: "unat ?e = unat buffer + 32766" using assms(6) by (simp add: unat_word_ariths)
  then have le: "buffer \<le> ?e" by (simp add: word_le_nat_alt)
  let ?sk = "\<lparr>sk_mem = m, sk_tty = (), sk_buffer = buffer, sk_length = 0\<rparr>"
  obtain st sk where l: "format_loop None ?e (initial_state format args) ?sk = Some (st, sk)" "printing st"
    "same_output sk (put_bytes None ?e text ?sk)"
    using sprintf_impl_directives [OF assms(3,1,4) _ le, of None "()"] unfolding assms(2,7) by auto
  obtain b' t' where s: "store_bytes ?e text (buffer, m) = (b', t')" by fastforce
  have r: "b' = buffer + of_nat n" "bytes t' buffer n = take n text"
    using store_bytes_result [OF le _ s, of n] assms(8) ue by (auto simp: min.commute)
  have f: "sk_mem sk = t'" "sk_buffer sk = b'"
    using same_output_fields [OF l(3)] s assms(5) by (simp_all add: put_bytes_def)
  have n: "n < 32767" using assms(8) by simp
  then have un: "unat (of_nat n :: u32) = n" by (simp add: unat_small)
  have u64: "unat (of_nat n :: u64) = n" using n by (simp add: unat_of_nat take_bit_nat_eq_self)
  have end_buffer: "ucast (PRINT_LIMIT - 1) = (32766 :: u64)" by (simp add: PRINT_LIMIT_def)
  have "unat b' = unat buffer + n" using r(1) n assms(6) u64 by (simp add: unat_word_ariths)
  moreover have "0 < unat buffer" using assms(5) by (simp add: unat_gt_0)
  ultimately have "b' \<noteq> NULL" "b' < ?e + 1"
    using n assms(6) by (auto simp: word_less_nat_alt unat_word_ariths)
  then have nul: "sk_mem (write_char None (?e + 1) 1 0 sk) = t'(b' := 0)"
    using write_nul [of sk "?e + 1" None] f by simp
  have "ucast (b' - buffer) = (of_nat n :: u32)" using r(1) u64 by (simp add: unsigned_of_nat)
  then have "sprintf m buffer format args = Some (of_nat n, t'(b' := 0))"
    using l(1,2) f nul assms(5) \<open>b' \<noteq> NULL\<close>
    by (simp add: sprintf_def sprintf_impl_def end_buffer Let_def)
  moreover have "b' \<notin> region buffer n" unfolding r(1) using n by (intro not_in_region) simp
  then have "bytes (t'(b' := 0)) buffer n = take n text" using r(2) by simp
  moreover have "t' a = m a" if "a \<notin> region buffer n" for a
    using store_bytes_result [OF le _ s, of n] assms(8) ue that by simp
  then have "(t'(b' := 0)) a = m a" if "a \<notin> region buffer (Suc n)" for a
    using that r(1) by (auto simp: region_Suc)
  ultimately show ?thesis using r(1) by (intro exI [of _ "t'(b' := 0)"]) simp
qed


text \<open>
  C22.  \<open>sprintf\<close> writes the renderings of the directives of its format, one after the other, cut
  off after 32766 characters, with a NUL behind them and nothing else, and returns the number of
  characters written.  \<open>render\<close> gives a directive the meaning \<open>printf.c\<close> gives it: \<open>%X\<close> and
  \<open>%p\<close> are signed decimal numbers (\<open>%X\<close> zero-padded to its width), the flags are honoured also for
  types for which \<open>stdio.h\<close> calls them invalid, and a number without a precision has at least one
  digit.  \<open>directive_ok\<close> asks of the directives that a number has at most 36 digits (\<open>value_buffer\<close>
  has no room for more) and is not the least signed 64-bit one (whose negation is undefined), that
  a literal width or precision and the length of a string are below \<open>2^30\<close>, that a plain character
  is ASCII, and that no string lies in the part of the buffer that may be written; the format does
  not lie there either, and the buffer does not wrap around the address space.
\<close>
theorem sprintf_correct:
  assumes "cstr m format (concat (map directive_format ds))" and "args = concat (map directive_args ds)"
    and "\<forall>d\<in>set ds. directive_ok m buffer (buffer + 32766) d"
    and "untouched buffer (buffer + 32766) format (Suc (length (concat (map directive_format ds))))"
    and "buffer \<noteq> NULL" and "unat buffer + 32767 < 2 ^ 64" and "text = concat (map render ds)"
    and "n = min (length text) 32766"
  shows "\<exists>m'. sprintf m buffer format args = Some (of_nat n, m') \<and> bytes m' buffer n = take n text \<and>
    m' (buffer + of_nat n) = 0 \<and> (\<forall>a. a \<notin> region buffer (Suc n) \<longrightarrow> m' a = m a)"
  by (rule sprintf_text [OF assms])

text \<open>The format \<open>"%05d"\<close> of the example above, as a directive.\<close>

definition example_directives :: "directive list" where
  "example_directives = [Number Nd (plain\<lparr>fs_zero := True, fs_width := Some 5\<rparr>) 42]"

lemma example_directives_text:
  "cstr example_format 0x1000 (concat (map directive_format example_directives))"
  "concat (map directive_args example_directives) = [42]"
  "concat (map render example_directives) = bytes_of ''00042''"
  "length (concat (map directive_format example_directives)) = 4"
  "number_fits Nd (plain\<lparr>fs_zero := True, fs_width := Some 5\<rparr>) 42"
  by code_simp+

lemma example_directives_ok: "\<forall>d\<in>set example_directives. directive_ok m buffer e d"
  using example_directives_text(5)
  by (simp add: example_directives_def field_ok_def plain_def)

theorem printf_correct_witness:
  "printf (\<lambda>c s. s @ [c]) example_format [] 0x1000 [42] = Some (0, example_format, bytes_of ''00042'')"
proof -
  have "fold (\<lambda>c s. s @ [c]) (bytes_of ''00042'') [] = bytes_of ''00042''" by code_simp
  then show ?thesis
    using printf_correct [OF example_directives_text(1) example_directives_text(2) [symmetric] example_directives_ok, of "\<lambda>c s. s @ [c]" "[]"]
    by (simp add: example_directives_text(3))
qed

theorem sprintf_correct_witness:
  "\<exists>m'. sprintf example_format 0x2000 0x1000 [42] = Some (5, m') \<and> bytes m' 0x2000 5 = bytes_of ''00042'' \<and> m' 0x2005 = 0"
proof -
  have u: "untouched 0x2000 (0x2000 + 32766) 0x1000 (Suc 4)"
    by (simp add: untouched_def region_def lessThan_nat_numeral lessThan_Suc)
  have n: "(5 :: nat) = min (length (bytes_of ''00042'')) 32766" by (simp add: bytes_of_def)
  show ?thesis
    using sprintf_correct [OF example_directives_text(1) example_directives_text(2) [symmetric] example_directives_ok
        u [folded example_directives_text(4)] _ _ _ n] 
    by (auto simp: example_directives_text(3) bytes_of_def)
qed

subsection \<open>Printing and reading back\<close>

lemma number_zeros: "number 10 (replicate k 48 @ ds) = number 10 ds"
proof -
  have z: "digit_val 48 = 0" by (simp add: digit_val_def digit_of_def)
  have "foldl (\<lambda>v b. v * 10 + digit_val b) 0 (replicate k 48) = 0"
    by (induction k) (simp_all add: z)
  then show ?thesis by (simp add: number_def)
qed

lemma dec_digit_base: "dec_digit b \<Longrightarrow> base_digit 10 b"
  by (auto simp: dec_digit_def base_digit_def digit_of_def)

lemma render_number_numeral:
  fixes a :: u64
  assumes "ty \<in> {Nd, Ni}" and "\<not> fs_comma fs" and "fs_prec fs \<noteq> Some 0"
  defines "v \<equiv> number_value ty (fs_long fs) a"
  obtains ws sg ds rest where "render_number ty fs a = ws @ sg @ ds @ rest"
    "\<forall>b\<in>set ws. b = 32" "sg = [] \<or> sg = [43] \<or> sg = [45]" "sg = [45] \<longleftrightarrow> v < 0"
    "ds \<noteq> []" "\<forall>b\<in>set ds. dec_digit b" "\<forall>b\<in>set rest. b = 32" "number 10 ds = nat \<bar>v\<bar>"
proof -
  let ?digits = "number_digit_text ty fs a" and ?sign = "number_sign ty fs (v < 0)"
  have md: "min_digits ty fs \<noteq> 0" using assms(2,3) by (auto simp: min_digits_def decimal_commas_def split: option.split)
  have base: "number_base ty = 10" using assms(1) by auto
  then have digits: "?digits = decimal (nat \<bar>v\<bar>)"
    using md by (simp add: number_digit_text_def decimal_def v_def)
  obtain k where core: "render_number ty fs a =
      padded (fs_left fs) (spec_width fs) (?sign @ replicate k 48 @ ?digits)"
    using assms(2) by (auto simp: render_number_def Let_def v_def byte_def)
  let ?ds = "replicate k 48 @ ?digits"
  obtain i j where ij: "render_number ty fs a = replicate i 32 @ ?sign @ ?ds @ replicate j 32"
  proof (cases "fs_left fs")
    case True
    with core that [of 0] show ?thesis by (simp add: padded_def byte_def)
  next
    case False
    with core that [of _ 0] show ?thesis by (simp add: padded_def byte_def)
  qed
  have d: "?ds \<noteq> []" "\<forall>b\<in>set ?ds. dec_digit b" "number 10 ?ds = nat \<bar>v\<bar>"
    using decimal_facts [of "nat \<bar>v\<bar>"] unfolding digits number_zeros
    by (auto simp: number_def dec_digit_def [of 48])
  have "?sign = [45] \<and> v < 0 \<or> ?sign = [43] \<and> \<not> v < 0 \<or> ?sign = [32] \<and> \<not> v < 0 \<or> ?sign = [] \<and> \<not> v < 0"
    by (auto simp: number_sign_def byte_def)
  then show ?thesis
  proof (elim disjE conjE)
    assume s: "?sign = [32]" "\<not> v < 0"
    then show ?thesis
      using ij d by (intro that [of "replicate i 32 @ [32]" "[]" ?ds "replicate j 32"]) auto
  qed (use ij d in \<open>intro that [of "replicate i 32" ?sign ?ds "replicate j 32"]; auto\<close>)+
qed

text \<open>
  C23.  \<open>strtol\<close> reads back what \<open>sprintf\<close> prints with one \<open>%d\<close> or \<open>%i\<close>, whatever the flags, the
  width and the precision, if there is no comma flag and no precision of 0, a literal width or
  precision is below \<open>2^30\<close> and the rendering has at most 32766 characters, so that it is not
  cut off.  The format must not lie in the part of the buffer that may be written, and the number
  may be any but the least signed 64-bit one, whose negation is undefined.
\<close>
theorem sprintf_strtol_roundtrip:
  assumes "cstr m format (percent fs (type_char ty))" and "ty \<in> {Nd, Ni}" and "field_ok fs"
    and "\<not> fs_comma fs" and "fs_prec fs \<noteq> Some 0" and "length (render_number ty fs a) \<le> 32766"
    and "untouched buffer (buffer + 32766) format (Suc (length (percent fs (type_char ty))))"
    and "buffer \<noteq> NULL" and "unat buffer + 32767 < 2 ^ 64" and "number_value ty (fs_long fs) a \<noteq> - (2 ^ 63)"
  shows "\<exists>n m' end_ptr. sprintf m buffer format [a] = Some (n, m') \<and>
    strtol m' buffer 10 = Some (number_value ty (fs_long fs) a, end_ptr, False)"
proof -
  let ?v = "number_value ty (fs_long fs) a" and ?t = "render_number ty fs a"
  have v: "- (2 ^ 63) \<le> ?v" "?v < 2 ^ 63"
    using assms(2) sint_greater_eq [of a] sint_less [of a] sint_greater_eq [of "short a"] sint_less [of "short a"] by auto
  have "nat \<bar>?v\<bar> \<le> 2 ^ 63" using v by simp
  also have "(2::nat) ^ 63 < 10 ^ 36" by simp
  finally have fits: "number_fits ty fs a"
    using assms(2,10) length_numeral_rev [of 10 "nat \<bar>?v\<bar>" 36] by (auto simp: number_fits_def mag_digits_def)
  let ?d = "[Number ty fs a]"
  obtain m' where m': "sprintf m buffer format [a] = Some (of_nat (length ?t), m')" "bytes m' buffer (length ?t) = ?t"
      "m' (buffer + of_nat (length ?t)) = 0"
    using sprintf_text [of m format ?d "[a]" buffer ?t "length ?t"] assms fits by auto
  obtain ws sg ds rest where t: "?t = ws @ sg @ ds @ rest" "\<forall>b\<in>set ws. b = 32" "sg = [] \<or> sg = [43] \<or> sg = [45]"
    "sg = [45] \<longleftrightarrow> ?v < 0" "ds \<noteq> []" "\<forall>b\<in>set ds. dec_digit b" "\<forall>b\<in>set rest. b = 32" "number 10 ds = nat \<bar>?v\<bar>"
    by (rule render_number_numeral [OF assms(2,4,5)])
  have "0 \<notin> set ?t"
    using t(2,3,6,7) unfolding t(1) by (auto simp: dec_digit_def)
  then have "cstr m' buffer (ws @ sg @ ds @ rest)"
    using m'(2,3) unfolding t(1) cstr_iff by simp
  then have "numeral_at m' buffer 10 ws sg ds rest"
    using t dec_digit_base
    by (cases rest) (auto simp: numeral_at_def isspace_def base_digit_def digit_of_def)
  from strtoimax_numeral [OF this]
  have "strtol m' buffer 10 = Some (?v, buffer + of_nat (length (ws @ sg @ ds)), False)"
    using t(4,8) v by (auto simp: strtol_def clamp_signed_def INTMAX_MAX_def INTMAX_MIN_def)
  with m'(1) show ?thesis by blast
qed


theorem sprintf_strtol_roundtrip_witness:
  "\<exists>n m' end_ptr. sprintf example_format 0x2000 0x1000 [-42] = Some (n, m') \<and> strtol m' 0x2000 10 = Some (-42, end_ptr, False)"
proof -
  let ?fs = "plain\<lparr>fs_zero := True, fs_width := Some 5\<rparr>"
  have c: "cstr example_format 0x1000 (percent ?fs (type_char Nd))" "length (percent ?fs (type_char Nd)) = 4"
    "length (render_number Nd ?fs (-42)) = 5" "number_value Nd (fs_long ?fs) (-42) = -42"
    by code_simp+
  have "untouched 0x2000 (0x2000 + 32766) 0x1000 (Suc 4)"
    by (simp add: untouched_def region_def lessThan_nat_numeral lessThan_Suc)
  moreover have "field_ok ?fs" by (simp add: field_ok_def plain_def)
  ultimately show ?thesis
    using sprintf_strtol_roundtrip [where m = example_format and format = "0x1000" and fs = ?fs and ty = Nd and a = "-42" and buffer = "0x2000"] c by (simp add: plain_def)
qed

end
