(* ===== verification/Spec2Isabelle.thy ===== *)
theory Spec2Isabelle
  imports CircBuf Dll MemMap Pci Containers Boot MemInfo Kernel Render Interrupt
begin

text \<open>
  The alpine kernel, a 64-bit x86 kernel in C with the part of the C library it is built on
  (\<open>src/kernel\<close>, \<open>src/libc\<close>): the code as functions of HOL and what they do.

  \<^bold>\<open>The parts and how they interact.\<close>  The boot loader enters \<open>kernel_main\<close> with the address of its
  information structure.  \<open>kernel_init\<close> walks it, sets up interrupts, memory, the terminal, the
  keyboard, the tables of the firmware, the local interrupt controller, PCI, USB, the two processes
  and the other cores.  Afterwards the timer switches between the shell and the idle loop; the
  keyboard interrupt fills a queue that the shell empties; what the shell prints goes through
  \<open>printf\<close> to the terminal and from there to one of two displays.

  \<^bold>\<open>The C library.\<close>
    \<^item> \<open>CMem\<close>, \<open>CType\<close>, \<open>CString\<close>: \<open>libc/string\<close> and \<open>ctype.h\<close>; \<open>CStdlib\<close>: \<open>libc/stdlib\<close> but the
      allocator.  Memory is a function from addresses to bytes; the lemmas say which bytes a function
      leaves and that all others are kept, and relate strings to lists (\<open>cstr\<close>).
    \<^item> \<open>Printf\<close>, \<open>Format\<close>, \<open>Render\<close>: \<open>libc/stdio\<close>.  \<open>Printf\<close> has the engine stage by stage,
      \<open>Format\<close> what the stages do, \<open>Render\<close> the meaning of a format as a list of directives and the
      theorems that \<open>sprintf\<close> implements it.  The meaning is the one \<open>printf.c\<close> gives a directive, also
      where \<open>stdio.h\<close> documents another: \<open>%X\<close> and \<open>%p\<close> are signed decimal numbers, and flags are
      honoured for types for which they are called invalid.
    \<^item> \<open>CircBuf\<close> (ring buffers and cursors, a refinement of bounded deques), \<open>Dll\<close> (intrusive lists),
      \<open>Containers\<close> (\<open>strdup\<close>, vectors, \<open>strsplit\<close>): \<open>libc/sys\<close>.  \<open>Allocator\<close> has the contract of
      \<open>malloc\<close>, \<open>free\<close> and \<open>realloc\<close> as locales; \<open>Heap\<close> interprets them.

  \<^bold>\<open>Memory.\<close>
    \<^item> \<open>Pgm\<close> (\<open>pgm.c\<close>, the bitmap of pages), \<open>Paging\<close> (page tables and the page fault handler of
      \<open>mem.c\<close>), \<open>MemMap\<close> (the ranges of \<open>mem.c\<close> and \<open>mem_init\<close>), \<open>MemInfo\<close> (the commands that print
      them), \<open>Access\<close> (\<open>mem_read_8\<close> to \<open>mem_read_64\<close>).  Invariants: a page is free exactly when its
      bit is set, the tables are a tree, the map is sorted and disjoint.
    \<^item> \<open>Heap\<close> (\<open>heap.c\<close>): the chunks and the free lists by size; live blocks stay apart, freeing
      merges, and what was freed can be served again.

  \<^bold>\<open>Devices and interrupts.\<close>
    \<^item> \<open>Pic\<close> (\<open>pic.c\<close>, \<open>pit.c\<close>, \<open>io.h\<close>), \<open>Interrupt\<close> (\<open>gdt.c\<close>, \<open>idt.c\<close>, \<open>isr.c\<close>, \<open>process.c\<close>),
      \<open>Keyboard\<close> (\<open>kb.c\<close>), \<open>Pci\<close> (\<open>acpi.c\<close>, \<open>pci.c\<close>), \<open>Cpu\<close> (\<open>cpu.c\<close>, \<open>msr.c\<close>, \<open>apic.c\<close>,
      \<open>smp.c\<close>), \<open>Usb\<close> (\<open>usb.c\<close>).
    \<^item> The machine is an argument: \<open>ports\<close> for port input and output, \<open>machine\<close> for special
      instructions and the registers of the local interrupt controller, with a state of any type.
      What a data sheet says of a device is a named hypothesis (\<open>pic_pair\<close> for the two 8259A,
      \<open>lapic\<close> for the local controller and the time-stamp counter), and a machine that has it is in
      the same theory.

  \<^bold>\<open>Boot, terminal and shell.\<close>
    \<^item> \<open>Boot\<close> (\<open>mb2_info.c\<close>, \<open>elf.c\<close>), \<open>Kernel\<close> (\<open>kernel.c\<close>: the composition of the
      initialisations above on one state), \<open>Font\<close> (\<open>psf_font.c\<close>), \<open>Display\<close> (\<open>vga_ttyd.c\<close>,
      \<open>vbe_ttyd.c\<close>; the locale \<open>tty_display\<close> is what the terminal needs of either), \<open>Tty\<close> (\<open>tty.c\<close>,
      proved in that locale once), \<open>Shell\<close> (\<open>sh.c\<close>).

  \<^bold>\<open>Reading the models.\<close>  Structs are records, a C function is a definition with the same name on
  explicit state, a loop is a recursive function or a fold (\<open>for_upto\<close>).  Integers have their width.
  \<open>Inl\<close> of a \<open>result\<close> is a panic with its message, or \<open>Undefined\<close>: a NULL pointer read, a shift or
  signed overflow without a meaning, an index out of bounds.  In the option type \<open>None\<close> is a call
  that does not return, and in the theories without a \<open>result\<close> also a division by zero, a NULL
  pointer or a signed overflow (\<open>lltoa\<close> and \<open>printf\<close> negate the least signed number).  No definition runs on fuel: loops that may not end are partial functions, and that they
  end is a theorem where the code promises it (\<open>kb_getchar_returns\<close>, \<open>mb2_info_init_terminates\<close>,
  \<open>smp_init_starts_cores\<close>, \<open>tty_write_raw_draws\<close>).  A round of \<open>kb_getchar\<close> is atomic with respect
  to interrupts.  What a console command prints is the list of its calls of \<open>printf\<close> (\<open>printed\<close>).

  \<^bold>\<open>Where the models are coarser than the machine.\<close>  Page tables, frames and descriptor tables are
  64-bit words, everything else is bytes; the structures of the boot loader and the firmware and the
  fonts are in a memory apart from the one \<open>mem_init\<close> writes; frame buffers are functions from
  their indices.  A read behind the end of an object, like the copy of a whole slot from a two-byte
  literal in \<open>sh_push_history\<close>, is a read of the memory there.  The nodes of the memory map are not
  taken from the model of the heap: a run is given the number of them that \<open>kmalloc\<close> hands out
  before it first fails (\<open>mem_nodes\<close>), and the write through its NULL is \<open>Undefined\<close>.  The headers of fonts and the memory map of the boot loader are read once where the
  code reads them again.  Translation through the page tables is a theorem of \<open>Paging\<close>, not part of
  every access.

  \<^bold>\<open>Not modelled.\<close>  The assembly (\<open>boot.asm\<close>, \<open>isr-wrapper.asm\<close>, \<open>trampoline.asm\<close>, \<open>crti.S\<close>): the
  saving and restoring of registers, the entry of the other cores, \<open>enter_smp\<close>.  The tests.  The data
  of the fonts.  The other declarations of the headers: constants, structs and prototypes the modelled
  code does not use.
\<close>

end
